(* ===== verification/Prelude.thy ===== *)
theory Prelude
  imports Main "HOL-Library.Word" "HOL-Library.AList" "HOL-Library.Multiset"
begin

section \<open>Shared vocabulary of the development\<close>

text \<open>
  Types, lemma collections and generic facts that every component theory uses.

  \<^item> Go integers: \<open>uint64\<close>, \<open>uint32\<close> and \<open>byte\<close> are words, so \<open>+\<close>, \<open>-\<close> and \<open>*\<close> wrap
    around as they do in Go. A Go \<open>int\<close> that counts elements or bytes is a \<open>nat\<close>; the slot
    counters of the staking pool are \<open>int\<close> with \<open>go_int\<close> (two's complement, 64 bits)
    written at every assignment.
  \<^item> \<open>[]byte\<close> is \<open>bytes\<close>; the nil slice and the empty slice are both \<open>[]\<close>.
  \<^item> A Go map is an association list without duplicate keys (\<open>gomap\<close>, well-formed when
    \<open>gomap_ok\<close>). The order of the list stands for the order in which one
    \<^verbatim>\<open>range\<close> loop happens to visit the entries; theorems hold for every list,
    hence for every order.
  \<^item> A Go \<open>error\<close> is a value of \<open>error\<close>: a package-level sentinel, an error built on the
    spot, a wrapped error, or a run-time panic. A function with result \<open>error\<close> returns
    \<open>error option\<close> (\<open>None\<close> is nil), one with result \<open>(T, error)\<close> returns \<open>error + T\<close>.
\<close>

type_synonym byte = "8 word"
type_synonym bytes = "byte list"
type_synonym uint32 = "32 word"
type_synonym uint64 = "64 word"
type_synonym ('k, 'v) gomap = "('k \<times> 'v) list"

datatype error =
    Sentinel string
  | Errorf string
  | Wrap error string
  | Panic string

text \<open>\<^verbatim>\<open>errors.Is\<close> of \<^verbatim>\<open>github.com/pkg/errors\<close> looks through wrapping.\<close>

fun errors_Is :: "error \<Rightarrow> error \<Rightarrow> bool" where
  "errors_Is (Wrap e m) t = (Wrap e m = t \<or> errors_Is e t)"
| "errors_Is e t = (e = t)"

named_theorems model_simps \<open>defining equations of the model's straight-line operations\<close>
named_theorems inv_intros \<open>preservation of component invariants\<close>
named_theorems acc_dests \<open>what a successful check gives\<close>

subsection \<open>Go maps\<close>

abbreviation gomap_ok :: "('k, 'v) gomap \<Rightarrow> bool" where
  "gomap_ok m \<equiv> distinct (map fst m)"

abbreviation gput :: "'k \<Rightarrow> 'v \<Rightarrow> ('k, 'v) gomap \<Rightarrow> ('k, 'v) gomap" where
  "gput \<equiv> AList.update"

abbreviation gdel :: "'k \<Rightarrow> ('k, 'v) gomap \<Rightarrow> ('k, 'v) gomap" where
  "gdel \<equiv> AList.delete"

text \<open>\<^verbatim>\<open>_, exists := m[k]\<close>, and \<^verbatim>\<open>m[k]\<close> read with the zero value for a missing key.\<close>

definition ghas :: "('k, 'v) gomap \<Rightarrow> 'k \<Rightarrow> bool" where
  "ghas m k = (map_of m k \<noteq> None)"

definition gget0 :: "('k, uint64) gomap \<Rightarrow> 'k \<Rightarrow> uint64" where
  "gget0 m k = (case map_of m k of None \<Rightarrow> 0 | Some v \<Rightarrow> v)"

lemma ghas_iff: "ghas m k \<longleftrightarrow> k \<in> fst ` set m"
  by (auto simp: ghas_def map_of_eq_None_iff)

lemma ghas_update [simp]: "ghas (gput k v m) k' \<longleftrightarrow> k' = k \<or> ghas m k'"
  by (auto simp: ghas_def update_conv')

lemma ghas_delete [simp]: "ghas (gdel k m) k' \<longleftrightarrow> k' \<noteq> k \<and> ghas m k'"
  by (auto simp: ghas_def delete_conv')

lemma ghas_Nil [simp]: "\<not> ghas [] k"
  by (simp add: ghas_def)

lemma ghas_Cons [simp]: "ghas ((k, v) # m) k' \<longleftrightarrow> k' = k \<or> ghas m k'"
  by (simp add: ghas_def)

lemma gget0_update [simp]: "gget0 (gput k v m) k' = (if k' = k then v else gget0 m k')"
  by (auto simp: gget0_def update_conv')

lemma gget0_Nil [simp]: "gget0 [] k = 0"
  by (simp add: gget0_def)

lemma gomap_ok_update [simp, intro]: "gomap_ok m \<Longrightarrow> gomap_ok (gput k v m)"
  by (rule distinct_update)

lemma gomap_ok_delete [simp, intro]: "gomap_ok m \<Longrightarrow> gomap_ok (gdel k m)"
  by (rule distinct_delete)

lemma map_of_update: "map_of (gput k v m) k' = (if k' = k then Some v else map_of m k')"
  by (auto simp: update_conv')

lemma map_of_delete: "map_of (gdel k m) k' = (if k' = k then None else map_of m k')"
  by (auto simp: delete_conv')

lemma update_new: "\<not> ghas m k \<Longrightarrow> gput k v m = m @ [(k, v)]"
  by (induction m) (auto split: if_splits)

lemma set_delete: "set (gdel k m) = {p \<in> set m. fst p \<noteq> k}"
  by (auto simp: AList.delete_eq)

lemma set_update_subset: "set (gput k v m) \<subseteq> insert (k, v) (set m)"
proof (induction m)
  case (Cons p m)
  then show ?case by (cases p) auto
qed simp

subsection \<open>Sums over the entries of a map\<close>

definition msum :: "('v \<Rightarrow> 'a::comm_monoid_add) \<Rightarrow> ('k, 'v) gomap \<Rightarrow> 'a" where
  "msum f m = sum_list (map (f \<circ> snd) m)"

lemma msum_Nil [simp]: "msum f [] = 0"
  by (simp add: msum_def)

lemma msum_Cons [simp]: "msum f (p # m) = f (snd p) + msum f m"
  by (simp add: msum_def)

lemma msum_append [simp]: "msum f (m @ m') = msum f m + msum f m'"
  by (simp add: msum_def)

lemma msum_update:
  fixes f :: "'v \<Rightarrow> 'a::ab_group_add"
  assumes "gomap_ok m"
  shows "msum f (gput k v m) = msum f m - (case map_of m k of None \<Rightarrow> 0 | Some w \<Rightarrow> f w) + f v"
  using assms
proof (induction m)
  case (Cons p m)
  then show ?case
    by (cases p) (auto simp: map_of_eq_None_iff algebra_simps split: option.splits)
qed simp

lemma delete_absent: "map_of m k = None \<Longrightarrow> gdel k m = m"
  by (induction m) (auto split: if_splits)

lemma msum_delete:
  fixes f :: "'v \<Rightarrow> 'a::ab_group_add"
  assumes "gomap_ok m"
  shows "msum f (gdel k m) = msum f m - (case map_of m k of None \<Rightarrow> 0 | Some w \<Rightarrow> f w)"
  using assms
proof (induction m)
  case (Cons p m)
  show ?case
  proof (cases "fst p = k")
    case True
    with Cons.prems have none: "map_of m k = None"
      by (auto simp: map_of_eq_None_iff)
    with True show ?thesis
      by (cases p) (simp add: delete_absent)
  next
    case False
    with Cons show ?thesis
      by (cases p) (auto split: option.splits)
  qed
qed simp

subsection \<open>64-bit words\<close>

text \<open>A Go \<open>int\<close> after an assignment: the value wrapped to 64-bit two's complement.\<close>

definition go_int :: "int \<Rightarrow> int" where
  "go_int x = signed_take_bit 63 x"

lemma go_int_id: "- (2 ^ 63) \<le> x \<Longrightarrow> x < 2 ^ 63 \<Longrightarrow> go_int x = x"
  unfolding go_int_def by (rule signed_take_bit_int_eq_self)

lemma unat64_less: "unat (x :: uint64) < 2 ^ 64"
  using unsigned_less [of x] by simp

lemma unat_add64: "unat (a + b :: uint64) = (unat a + unat b) mod 2 ^ 64"
  by (simp add: unat_word_ariths)

lemma less_plus_one: "(x :: uint64) + 1 \<noteq> 0 \<Longrightarrow> x < x + 1"
  using unatSuc [of x] by (simp add: word_less_nat_alt add.commute)

text \<open>Sums of amounts: the machine sum is the exact sum whenever that fits into 64 bits.\<close>

lemma unat_sum_list_le:
  "(\<Sum>x\<leftarrow>xs. unat (f x :: uint64)) < 2 ^ 64 \<Longrightarrow>
    unat (sum_list (map f xs)) = (\<Sum>x\<leftarrow>xs. unat (f x))"
proof (induction xs)
  case (Cons a xs)
  then show ?case
    by (simp add: unat_add64)
qed simp

lemma word_of_nat_sum_list:
  "word_of_nat (\<Sum>x\<leftarrow>xs. unat (f x :: uint64)) = sum_list (map f xs)"
  by (induction xs) simp_all

subsection \<open>Guarded transition systems\<close>

text \<open>
  The interface of a component as its clients see it: a state, the operations a client may call
  (events), the condition under which a call is legitimate, and the invariant the provider
  promises to keep. Every stateful component of the development interprets this locale on its own
  operations.
\<close>

fun run_ops :: "('s \<Rightarrow> 'e \<Rightarrow> 's) \<Rightarrow> 's \<Rightarrow> 'e list \<Rightarrow> 's" where
  "run_ops step s [] = s"
| "run_ops step s (e # es) = run_ops step (step s e) es"

fun legal_ops :: "('s \<Rightarrow> 'e \<Rightarrow> bool) \<Rightarrow> ('s \<Rightarrow> 'e \<Rightarrow> 's) \<Rightarrow> 's \<Rightarrow> 'e list \<Rightarrow> bool" where
  "legal_ops guard step s [] = True"
| "legal_ops guard step s (e # es) = (guard s e \<and> legal_ops guard step (step s e) es)"

lemma legal_ops_True [simp]: "legal_ops (\<lambda>s e. True) step s es"
  by (induction es arbitrary: s) auto

locale guarded_system =
  fixes step :: "'s \<Rightarrow> 'e \<Rightarrow> 's"
    and guard :: "'s \<Rightarrow> 'e \<Rightarrow> bool"
    and inv :: "'s \<Rightarrow> bool"
  assumes step_inv: "inv s \<Longrightarrow> guard s e \<Longrightarrow> inv (step s e)"
begin

lemma run_inv: "inv s \<Longrightarrow> legal_ops guard step s es \<Longrightarrow> inv (run_ops step s es)"
  by (induction es arbitrary: s) (auto intro: step_inv)

lemma run_append:
  "inv s \<Longrightarrow> legal_ops guard step s (es @ fs) \<Longrightarrow> inv (run_ops step (run_ops step s es) fs)"
proof (induction es arbitrary: s)
  case Nil
  then show ?case by (auto intro: run_inv)
next
  case (Cons e es)
  then show ?case by (auto intro: step_inv)
qed

end

subsection \<open>Sequences of checks\<close>

text \<open>\<^verbatim>\<open>if err != nil { return err }\<close> between two checks.\<close>

definition check_seq :: "error option \<Rightarrow> error option \<Rightarrow> error option" where
  "check_seq a b = (case a of Some e \<Rightarrow> Some e | None \<Rightarrow> b)"

lemma check_seq_None [simp]: "check_seq a b = None \<longleftrightarrow> a = None \<and> b = None"
  by (simp add: check_seq_def split: option.split)

text \<open>A check of every element of a list in order, stopping at the first error.\<close>

fun check_all :: "('a \<Rightarrow> error option) \<Rightarrow> 'a list \<Rightarrow> error option" where
  "check_all f [] = None"
| "check_all f (x # xs) = check_seq (f x) (check_all f xs)"

lemma check_all_None [simp]: "check_all f xs = None \<longleftrightarrow> (\<forall>x \<in> set xs. f x = None)"
  by (induction xs) auto

definition ensure :: "bool \<Rightarrow> error \<Rightarrow> error option" where
  "ensure b e = (if b then None else Some e)"

lemma ensure_None [simp]: "ensure b e = None \<longleftrightarrow> b"
  by (simp add: ensure_def)

subsection \<open>Grouping sums\<close>

lemma sum_list_filter_split:
  fixes f :: "'a \<Rightarrow> 'b::comm_monoid_add"
  shows "(\<Sum>x\<leftarrow>xs. f x) = (\<Sum>x\<leftarrow>filter P xs. f x) + (\<Sum>x\<leftarrow>filter (\<lambda>x. \<not> P x) xs. f x)"
  by (induction xs) (auto simp: ac_simps)

lemma group_sum:
  fixes f :: "'a \<Rightarrow> 'b::comm_monoid_add"
  shows "distinct ks \<Longrightarrow>
    (\<Sum>k\<leftarrow>ks. \<Sum>x\<leftarrow>filter (\<lambda>x. g x = k) xs. f x) = (\<Sum>x\<leftarrow>filter (\<lambda>x. g x \<in> set ks) xs. f x)"
proof (induction ks)
  case (Cons k ks)
  have "(\<Sum>x\<leftarrow>filter (\<lambda>x. g x \<in> set (k # ks)) xs. f x) =
      (\<Sum>x\<leftarrow>filter (\<lambda>x. g x = k) xs. f x) + (\<Sum>x\<leftarrow>filter (\<lambda>x. g x \<in> set ks) xs. f x)"
    using Cons.prems by (induction xs) (auto simp: ac_simps)
  with Cons show ?case by simp
qed simp

subsection \<open>Sequencing\<close>

text \<open>The next step of a function runs on the result of the one before, or the function returns its error.\<close>

definition ebind :: "error + 'a \<Rightarrow> ('a \<Rightarrow> error + 'b) \<Rightarrow> error + 'b" where
  "ebind m f = (case m of Inl e \<Rightarrow> Inl e | Inr x \<Rightarrow> f x)"

lemma ebind_simps [simp]: "ebind (Inl e) f = Inl e" "ebind (Inr x) f = f x"
  by (simp_all add: ebind_def)

lemma ebind_Inr: "ebind m f = Inr y \<longleftrightarrow> (\<exists>x. m = Inr x \<and> f x = Inr y)"
  by (cases m) simp_all

subsection \<open>The length of a number in bits\<close>

function bit_len :: "nat \<Rightarrow> nat" where
  "bit_len n = (if n = 0 then 0 else Suc (bit_len (n div 2)))"
  by pat_completeness auto
termination
  by (relation "measure (\<lambda>n. n)") auto

declare bit_len.simps [simp del]

lemma bit_len_le: "bit_len n \<le> k \<longleftrightarrow> n < 2 ^ k"
proof (induction n arbitrary: k rule: bit_len.induct)
  case (1 n)
  show ?case
  proof (cases "n = 0 \<or> k = 0")
    case False
    then obtain j where "k = Suc j" by (cases k) auto
    then show ?thesis using 1 [of j] False by (simp add: bit_len.simps [of n]) arith
  qed (auto simp: bit_len.simps [of n])
qed

end
