(* ===== verification/Common.thy ===== *)
theory Common
  imports Prelude
begin

section \<open>Hashes, addresses, hexadecimal strings and checked arithmetic\<close>

text \<open>
  Models \<^verbatim>\<open>src/shared/common\<close> (bytes.go, types.go), \<^verbatim>\<open>src/shared/math\<close> (bits.go,
  percent.go) and the map keys of \<^verbatim>\<open>src/utils/serialize/inputs.go\<close>. The
  Go types \<open>Hash\<close> and \<open>Address\<close> are byte slices; \<open>BytesToHash\<close> and \<open>BytesToAddress\<close> return
  nil on empty input and a slice of the full length otherwise, so on their values \<open>[]\<close> is
  exactly nil, which is the case \<open>Hex\<close> distinguishes.

  Shown: hexadecimal encoding and decoding are inverse, the textual form of addresses and
  hashes is injective, the key \<open>hash_index\<close> identifies an output, and \<open>Add64\<close>/\<open>Sub64\<close> report
  overflow and borrow exactly.
\<close>

abbreviation (input) HashLength :: nat where "HashLength \<equiv> 32"
abbreviation (input) AddressLength :: nat where "AddressLength \<equiv> 20"

definition BlackHoleAddress :: string where
  "BlackHoleAddress = ''0x0000000000000000000000000000000000000000''"

subsection \<open>Hexadecimal strings (bytes.go and encoding/hex)\<close>

definition hexDigit :: "nat \<Rightarrow> char" where
  "hexDigit n = ''0123456789abcdef'' ! n"

definition fromHexChar :: "char \<Rightarrow> nat option" where
  "fromHexChar c = (let n = of_char c :: nat in
     if 48 \<le> n \<and> n \<le> 57 then Some (n - 48)
     else if 97 \<le> n \<and> n \<le> 102 then Some (n - 97 + 10)
     else if 65 \<le> n \<and> n \<le> 70 then Some (n - 65 + 10)
     else None)"

definition hexByte :: "byte \<Rightarrow> string" where
  "hexByte b = [hexDigit (unat b div 16), hexDigit (unat b mod 16)]"

definition hexEncode :: "bytes \<Rightarrow> string" where
  "hexEncode bs = concat (map hexByte bs)"

text \<open>\<^verbatim>\<open>hex.DecodeString\<close> returns the bytes decoded before the first bad pair, and an error.\<close>

fun hexDecode :: "string \<Rightarrow> bytes \<times> error option" where
  "hexDecode [] = ([], None)"
| "hexDecode [c] = ([], Some (case fromHexChar c of
     None \<Rightarrow> Errorf ''encoding/hex: invalid byte'' | Some x \<Rightarrow> Errorf ''encoding/hex: odd length hex string''))"
| "hexDecode (a # b # s) =
    (case fromHexChar a of
       None \<Rightarrow> ([], Some (Errorf ''encoding/hex: invalid byte''))
     | Some x \<Rightarrow>
      (case fromHexChar b of
         None \<Rightarrow> ([], Some (Errorf ''encoding/hex: invalid byte''))
       | Some y \<Rightarrow> (case hexDecode s of (r, e) \<Rightarrow> (word_of_nat (x * 16 + y) # r, e))))"

definition Hex2Bytes :: "string \<Rightarrow> bytes" where
  "Hex2Bytes str = fst (hexDecode str)"

definition FromHex :: "string \<Rightarrow> bytes" where
  "FromHex s = (if length s > 1 then
      (let s = (if take 2 s = ''0x'' then drop 2 s else s);
           s = (if length s mod 2 = 1 then CHR ''0'' # s else s)
       in Hex2Bytes s)
    else [])"

definition has0xPrefix :: "string \<Rightarrow> bool" where
  "has0xPrefix str = (length str \<ge> 2 \<and> str ! 0 = CHR ''0'' \<and> (str ! 1 = CHR ''x'' \<or> str ! 1 = CHR ''X''))"

definition Encode :: "bytes \<Rightarrow> string" where
  "Encode b = ''0x'' @ hexEncode b"

definition isHexCharacter :: "char \<Rightarrow> bool" where
  "isHexCharacter c = (let n = of_char c :: nat in
     (48 \<le> n \<and> n \<le> 57) \<or> (97 \<le> n \<and> n \<le> 102) \<or> (65 \<le> n \<and> n \<le> 70))"

definition isHex :: "string \<Rightarrow> bool" where
  "isHex str = (if length str mod 2 \<noteq> 0 then False else list_all isHexCharacter str)"

subsection \<open>Hash and Address (types.go)\<close>

text \<open>\<open>SetBytes\<close> on a zeroed buffer of length \<open>n\<close>: crop on the left or pad with zeros.\<close>

definition SetBytes :: "nat \<Rightarrow> bytes \<Rightarrow> bytes" where
  "SetBytes n b = (let b = (if length b > n then drop (length b - n) b else b)
                   in replicate (n - length b) 0 @ b)"

definition BytesToHash :: "bytes \<Rightarrow> bytes" where
  "BytesToHash b = (if length b = 0 then [] else SetBytes HashLength b)"

definition HexToHash :: "string \<Rightarrow> bytes" where
  "HexToHash s = BytesToHash (FromHex s)"

definition Hash_Hex :: "bytes \<Rightarrow> string" where
  "Hash_Hex h = (if h = [] then '''' else Encode h)"

definition BytesToAddress :: "bytes \<Rightarrow> bytes" where
  "BytesToAddress b = (if length b = 0 then [] else SetBytes AddressLength b)"

definition HexToAddress :: "string \<Rightarrow> bytes" where
  "HexToAddress s = BytesToAddress (FromHex s)"

definition Address_Hex :: "bytes \<Rightarrow> string" where
  "Address_Hex a = (if a = [] then '''' else Encode a)"

definition IsHexAddress :: "string \<Rightarrow> bool" where
  "IsHexAddress s = (let s = (if has0xPrefix s then drop 2 s else s)
                     in length s = 2 * AddressLength \<and> isHex s)"

definition IsHexHash :: "string \<Rightarrow> bool" where
  "IsHexHash s = (let s = (if has0xPrefix s then drop 2 s else s)
                  in length s = 2 * HashLength \<and> isHex s)"

text \<open>The values the two constructors produce.\<close>

definition addr_ok :: "bytes \<Rightarrow> bool" where
  "addr_ok a = (a = [] \<or> length a = AddressLength)"

definition hash_ok :: "bytes \<Rightarrow> bool" where
  "hash_ok h = (h = [] \<or> length h = HashLength)"

subsection \<open>Decimal numbers and output keys (utils/serialize/inputs.go)\<close>

fun itoa :: "nat \<Rightarrow> string" where
  "itoa n = (if n < 10 then [hexDigit n] else itoa (n div 10) @ [hexDigit (n mod 10)])"

declare itoa.simps [simp del]

definition genKey :: "string \<Rightarrow> uint32 \<Rightarrow> string" where
  "genKey h i = h @ ''_'' @ itoa (unat i)"

subsection \<open>Checked arithmetic (shared/math)\<close>

definition Add64 :: "uint64 \<Rightarrow> uint64 \<Rightarrow> uint64 \<times> bool" where
  "Add64 a b = (a + b, a + b < a)"

definition Sub64 :: "uint64 \<Rightarrow> uint64 \<Rightarrow> uint64 \<times> bool" where
  "Sub64 a b = (a - b, a < b)"

definition IsGEPercentLimit :: "int \<Rightarrow> int \<Rightarrow> int \<Rightarrow> bool" where
  "IsGEPercentLimit val tot limitPercent =
     (if tot = 0 then val > 0
      else (let x = go_int (val * 100); percent = sgn x * sgn tot * (\<bar>x\<bar> div \<bar>tot\<bar>)
            in percent \<ge> limitPercent))"

subsection \<open>Hexadecimal round trip\<close>

lemma hexDigit_table:
  "list_all (\<lambda>n. fromHexChar (hexDigit n) = Some n \<and> isHexCharacter (hexDigit n) \<and>
     hexDigit n \<noteq> CHR ''_'' \<and> (n < 10 \<longrightarrow> (of_char (hexDigit n) :: nat) - 48 = n)) [0..<16]"
  by code_simp

lemma hexDigit_facts:
  assumes "n < 16"
  shows fromHexChar_hexDigit [simp]: "fromHexChar (hexDigit n) = Some n"
    and isHexCharacter_hexDigit [simp]: "isHexCharacter (hexDigit n)"
    and hexDigit_not_us [simp]: "hexDigit n \<noteq> CHR ''_''"
    and of_char_digit: "n < 10 \<Longrightarrow> (of_char (hexDigit n) :: nat) - 48 = n"
  using hexDigit_table assms by (auto simp: list_all_iff)

lemma unat_byte [simp]: "unat (b :: byte) div 16 < 16"
proof -
  have "unat b < 2 ^ LENGTH(8)" by (rule unsigned_less)
  then show ?thesis by (simp add: less_mult_imp_div_less)
qed

lemma hexDecode_Encode: "hexDecode (hexEncode bs) = (bs, None)"
proof (induction bs)
  case (Cons b bs)
  have "word_of_nat (unat b div 16 * 16 + unat b mod 16) = b"
    by (simp add: div_mult_mod_eq [of "unat b" 16])
  with Cons show ?case
    by (simp add: hexEncode_def hexByte_def)
qed (simp add: hexEncode_def)

lemma length_hexEncode [simp]: "length (hexEncode bs) = 2 * length bs"
  by (induction bs) (auto simp: hexEncode_def hexByte_def)

lemma hexEncode_us: "CHR ''_'' \<notin> set (hexEncode bs)"
  by (induction bs) (auto simp: hexEncode_def hexByte_def dest: sym)

lemma isHex_hexEncode: "isHex (hexEncode bs)"
proof -
  have "list_all isHexCharacter (hexEncode bs)"
    by (induction bs) (auto simp: hexEncode_def hexByte_def)
  then show ?thesis by (simp add: isHex_def)
qed

lemma FromHex_Encode [simp]: "FromHex (Encode bs) = bs"
  by (simp add: FromHex_def Encode_def Hex2Bytes_def hexDecode_Encode)

lemma Encode_inj [simp]: "Encode a = Encode b \<longleftrightarrow> a = b"
  by (metis FromHex_Encode)

lemma Encode_ne_Nil [simp]: "Encode a \<noteq> ''''" "'''' \<noteq> Encode a"
  by (simp_all add: Encode_def)

lemma length_SetBytes [simp]: "length (SetBytes n b) = n"
  by (simp add: SetBytes_def Let_def)

lemma SetBytes_id [simp]: "length b = n \<Longrightarrow> SetBytes n b = b"
  by (simp add: SetBytes_def)

lemma addr_ok_BytesToAddress [simp]: "addr_ok (BytesToAddress b)"
  by (simp add: addr_ok_def BytesToAddress_def)

lemma hash_ok_BytesToHash [simp]: "hash_ok (BytesToHash b)"
  by (simp add: hash_ok_def BytesToHash_def)

lemma BytesToAddress_id [simp]: "addr_ok a \<Longrightarrow> BytesToAddress a = a"
  by (auto simp: addr_ok_def BytesToAddress_def)

lemma BytesToHash_id [simp]: "hash_ok h \<Longrightarrow> BytesToHash h = h"
  by (auto simp: hash_ok_def BytesToHash_def)

lemma Address_Hex_inj [simp]: "Address_Hex a = Address_Hex b \<longleftrightarrow> a = b"
  by (simp add: Address_Hex_def)

lemma Hash_Hex_inj [simp]: "Hash_Hex a = Hash_Hex b \<longleftrightarrow> a = b"
  by (simp add: Hash_Hex_def)

lemma Address_Hex_eq_Nil [simp]: "Address_Hex a = '''' \<longleftrightarrow> a = []"
  by (simp add: Address_Hex_def)

lemma FromHex_Nil [simp]: "FromHex '''' = []"
  by (simp add: FromHex_def)

lemma HexToAddress_Hex [simp]: "addr_ok a \<Longrightarrow> HexToAddress (Address_Hex a) = a"
  by (simp add: HexToAddress_def Address_Hex_def) (auto simp: BytesToAddress_def)

lemma HexToHash_Hex [simp]: "hash_ok h \<Longrightarrow> HexToHash (Hash_Hex h) = h"
  by (simp add: HexToHash_def Hash_Hex_def) (auto simp: BytesToHash_def)

lemma Hash_Hex_us: "CHR ''_'' \<notin> set (Hash_Hex h)"
  using hexEncode_us by (simp add: Hash_Hex_def Encode_def)

lemma BlackHole_Encode: "BlackHoleAddress = Encode (replicate 20 0)"
  by code_simp

lemma Address_Hex_BlackHole: "Address_Hex a = BlackHoleAddress \<longleftrightarrow> a = replicate 20 0"
  by (auto simp: Address_Hex_def BlackHole_Encode)

subsection \<open>Decimal numbers and keys are injective\<close>

fun atoi :: "string \<Rightarrow> nat" where
  "atoi [] = 0"
| "atoi (c # cs) = (of_char c - 48) * 10 ^ length cs + atoi cs"

lemma atoi_append: "atoi (xs @ ys) = atoi xs * 10 ^ length ys + atoi ys"
  by (induction xs) (auto simp: algebra_simps power_add)

lemma atoi_itoa [simp]: "atoi (itoa n) = n"
proof (induction n rule: itoa.induct)
  case (1 n)
  then show ?case
    by (cases "n < 10") (simp_all add: itoa.simps [of n] atoi_append of_char_digit)
qed

lemma itoa_inj [simp]: "itoa m = itoa n \<longleftrightarrow> m = n"
  by (metis atoi_itoa)

lemma split_at_sep:
  "c \<notin> set xs \<Longrightarrow> c \<notin> set xs' \<Longrightarrow> xs @ c # ys = xs' @ c # ys' \<Longrightarrow> xs = xs' \<and> ys = ys'"
proof (induction xs arbitrary: xs')
  case Nil
  then show ?case by (cases xs') auto
next
  case (Cons a xs)
  then show ?case by (cases xs') auto
qed

lemma genKey_inj:
  "genKey (Hash_Hex h) i = genKey (Hash_Hex h') j \<longleftrightarrow> h = h' \<and> i = j"
proof
  assume "genKey (Hash_Hex h) i = genKey (Hash_Hex h') j"
  then have "Hash_Hex h = Hash_Hex h' \<and> itoa (unat i) = itoa (unat j)"
    by (intro split_at_sep [OF Hash_Hex_us Hash_Hex_us]) (simp add: genKey_def)
  then show "h = h' \<and> i = j" by (simp add: word_unat_eq_iff)
qed auto

subsection \<open>Checked arithmetic\<close>

lemma Add64_carry: "Add64 a b = (a + b, unat a + unat b \<ge> 2 ^ 64)"
proof -
  have "a + b < a \<longleftrightarrow> unat a + unat b \<ge> 2 ^ 64"
    using unat64_less [of a] unat64_less [of b]
    by (auto simp: word_less_nat_alt unat_add64 mod_if)
  then show ?thesis by (simp add: Add64_def)
qed

lemma Add64_ok: "Add64 a b = (s, False) \<Longrightarrow> s = a + b \<and> unat s = unat a + unat b"
  by (auto simp: Add64_carry unat_add64)

lemma Sub64_ok: "Sub64 a b = (d, False) \<Longrightarrow> d = a - b \<and> unat d = unat a - unat b"
  by (auto simp: Sub64_def unat_sub_if_size word_le_nat_alt word_less_nat_alt not_less)

end
