(* ===== verification/Types.thy ===== *)
theory Types
  imports Common
begin

section \<open>Transactions, blocks and unspent outputs\<close>

text \<open>
  Models the protocol messages (\<^verbatim>\<open>src/proto/prototype\<close>: the message structs, their SSZ sizes
  and \<open>GetRealFee\<close>), the typed transactions, inputs, outputs and unspent outputs of
  \<^verbatim>\<open>src/shared/types\<close>, the transaction kinds of \<^verbatim>\<open>src/shared/common/global.go\<close> and
  \<^verbatim>\<open>src/utils/types\<close>, and the key functions of \<^verbatim>\<open>src/utils/serialize\<close>.
  \<open>NewTransaction\<close> caches the fields of a message; \<open>typed_of\<close> states when a typed transaction
  agrees with its message. Mutexes are not part of the structs; \<open>tx_dropped\<close> and \<open>tx_forged\<close>
  are the two mutable flags.
\<close>

subsection \<open>Messages (types.proto, types.pb\_encoding.go, types\_custom.go)\<close>

record TxInput =
  ti_Hash :: bytes
  ti_Index :: uint32
  ti_Address :: bytes
  ti_Amount :: uint64
  ti_Node :: bytes

record TxOutput =
  to_Address :: bytes
  to_Amount :: uint64
  to_Node :: bytes

record PbTransaction =
  pt_Num :: uint64
  pt_Type :: uint32
  pt_Timestamp :: uint64
  pt_Hash :: bytes
  pt_Fee :: uint64
  pt_Data :: bytes
  pt_Inputs :: "TxInput list"
  pt_Outputs :: "TxOutput list"
  pt_Signature :: bytes
  pt_Status :: uint32

record Sign =
  sg_Address :: bytes
  sg_Signature :: bytes

record Block =
  bk_Num :: uint64
  bk_Slot :: uint64
  bk_Version :: bytes
  bk_Hash :: bytes
  bk_Parent :: bytes
  bk_Timestamp :: uint64
  bk_Txroot :: bytes
  bk_Proposer :: Sign
  bk_Approvers :: "Sign list"
  bk_Slashers :: "Sign list"
  bk_Transactions :: "PbTransaction list"

definition TxInput_SizeSSZ :: "TxInput \<Rightarrow> nat" where
  "TxInput_SizeSSZ t = 68 + length (ti_Node t)"

definition TxOutput_SizeSSZ :: "TxOutput \<Rightarrow> nat" where
  "TxOutput_SizeSSZ t = 32 + length (to_Node t)"

definition Tx_SizeSSZ :: "PbTransaction \<Rightarrow> nat" where
  "Tx_SizeSSZ t = 141 + length (pt_Data t)
     + sum_list (map (\<lambda>i. 4 + TxInput_SizeSSZ i) (pt_Inputs t))
     + sum_list (map (\<lambda>out. 4 + TxOutput_SizeSSZ out) (pt_Outputs t))"

definition Block_SizeSSZ :: "Block \<Rightarrow> nat" where
  "Block_SizeSSZ b = 220 + length (bk_Approvers b) * 85 + length (bk_Slashers b) * 85
     + sum_list (map (\<lambda>t. 4 + Tx_SizeSSZ t) (bk_Transactions b))"

definition GetRealFee :: "PbTransaction \<Rightarrow> uint64" where
  "GetRealFee x = pt_Fee x * word_of_nat (Tx_SizeSSZ x)"

subsection \<open>Transaction kinds (global.go, utils/types/transaction.go)\<close>

abbreviation (input) NormalTxType :: uint32 where "NormalTxType \<equiv> 1"
abbreviation (input) GenesisTxType :: uint32 where "GenesisTxType \<equiv> 2"
abbreviation (input) FeeTxType :: uint32 where "FeeTxType \<equiv> 3"
abbreviation (input) RewardTxType :: uint32 where "RewardTxType \<equiv> 4"
abbreviation (input) StakeTxType :: uint32 where "StakeTxType \<equiv> 5"
abbreviation (input) UnstakeTxType :: uint32 where "UnstakeTxType \<equiv> 6"
abbreviation (input) CollapseTxType :: uint32 where "CollapseTxType \<equiv> 7"
abbreviation (input) ValidatorsUnstakeTxType :: uint32 where "ValidatorsUnstakeTxType \<equiv> 8"

definition IsLegacyTx :: "PbTransaction \<Rightarrow> bool" where
  "IsLegacyTx tx = (pt_Type tx \<in> {NormalTxType, StakeTxType, UnstakeTxType})"

definition IsSystemTx :: "PbTransaction \<Rightarrow> bool" where
  "IsSystemTx tx = (pt_Type tx \<in>
     {GenesisTxType, FeeTxType, RewardTxType, ValidatorsUnstakeTxType, CollapseTxType})"

definition HasInputs :: "PbTransaction \<Rightarrow> bool" where
  "HasInputs tx = (IsLegacyTx tx \<or> pt_Type tx = CollapseTxType \<or> pt_Type tx = ValidatorsUnstakeTxType)"

subsection \<open>Chain configuration (shared/params)\<close>

text \<open>
  The fields of \<open>RDOBlockChainConfig\<close> that the modelled code reads, and the proposer list of
  \<open>PoAConfig\<close>. \<open>ElectorsCoefficient\<close> is a float that the code uses only as
  \<^verbatim>\<open>uint64(100*coefficient)\<close>; the field holds that integer.
\<close>

record RDOBlockChainConfig =
  cf_SlotTime :: int
  cf_ProposerReward :: uint64
  cf_MinimalFee :: uint64
  cf_BlockSize :: nat
  cf_RoiPerRdo :: uint64
  cf_ValidatorRegistryLimit :: int
  cf_ChosenValidatorRewardPercent :: uint64
  cf_StakeSlotUnit :: uint64
  cf_ElectorsCoefficient100 :: uint64
  cf_SlotsPerEpoch :: uint64
  cf_CommitteeSize :: int
  cf_MaxNumberOfStakers :: nat
  cf_Proposers :: "string list"

definition mainnetRDOConfig :: RDOBlockChainConfig where
  "mainnetRDOConfig = \<lparr>cf_SlotTime = 7, cf_ProposerReward = 0, cf_MinimalFee = 0,
     cf_BlockSize = 300 * 1024, cf_RoiPerRdo = 100000000, cf_ValidatorRegistryLimit = 0,
     cf_ChosenValidatorRewardPercent = 0, cf_StakeSlotUnit = 5000, cf_ElectorsCoefficient100 = 110,
     cf_SlotsPerEpoch = 200, cf_CommitteeSize = 0, cf_MaxNumberOfStakers = 1000, cf_Proposers = []\<rparr>"

subsection \<open>Outputs and unspent outputs (outputs.go, utxo.go)\<close>

definition NewOutput :: "bytes \<Rightarrow> uint64 \<Rightarrow> bytes \<Rightarrow> TxOutput" where
  "NewOutput address amount node = \<lparr>to_Address = address, to_Amount = amount, to_Node = node\<rparr>"

definition NewInput :: "bytes \<Rightarrow> uint32 \<Rightarrow> TxOutput \<Rightarrow> TxInput" where
  "NewInput hash index out = \<lparr>ti_Hash = hash, ti_Index = index, ti_Address = to_Address out,
     ti_Amount = to_Amount out, ti_Node = to_Node out\<rparr>"

record Input =
  in_hash :: bytes
  in_address :: bytes
  in_index :: uint32
  in_amount :: uint64
  in_node :: bytes

record Output =
  out_address :: bytes
  out_node :: bytes
  out_amount :: uint64

record UTxO =
  uo_BlockNum :: uint64
  uo_Hash :: bytes
  uo_Index :: uint32
  uo_From :: bytes
  uo_To :: bytes
  uo_Node :: bytes
  uo_Amount :: uint64
  uo_Timestamp :: uint64
  uo_ID :: uint64
  uo_TxType :: uint32

definition UTxO_ToOutput :: "UTxO \<Rightarrow> TxOutput" where
  "UTxO_ToOutput uo = NewOutput (uo_To uo) (uo_Amount uo) (uo_Node uo)"

definition UTxO_ToPbInput :: "UTxO \<Rightarrow> TxInput" where
  "UTxO_ToPbInput uo = NewInput (uo_Hash uo) (uo_Index uo) (UTxO_ToOutput uo)"

definition UTxO_ToInput :: "UTxO \<Rightarrow> Input" where
  "UTxO_ToInput uo = \<lparr>in_hash = uo_Hash uo, in_address = uo_To uo, in_index = uo_Index uo,
     in_amount = uo_Amount uo, in_node = uo_Node uo\<rparr>"

text \<open>\<open>now\<close> is the clock reading \<^verbatim>\<open>time.Now().UnixNano()\<close>.\<close>

definition NewUTxO ::
  "uint64 \<Rightarrow> bytes \<Rightarrow> bytes \<Rightarrow> bytes \<Rightarrow> bytes \<Rightarrow> uint32 \<Rightarrow> uint64 \<Rightarrow> uint64 \<Rightarrow> uint32 \<Rightarrow> uint64 \<Rightarrow> UTxO" where
  "NewUTxO now hash from to node index amount blockNum typev tstamp =
    (let tstamp = (if tstamp = 0 then now else tstamp) in
     \<lparr>uo_BlockNum = blockNum, uo_Hash = BytesToHash hash, uo_Index = index,
      uo_From = BytesToAddress from, uo_To = BytesToAddress to, uo_Node = BytesToAddress node,
      uo_Amount = amount, uo_Timestamp = tstamp, uo_ID = 0, uo_TxType = typev\<rparr>)"

definition NewUTxOFull ::
  "uint64 \<Rightarrow> string \<Rightarrow> string \<Rightarrow> string \<Rightarrow> string \<Rightarrow> uint32 \<Rightarrow> uint64 \<Rightarrow> uint64 \<Rightarrow> uint64 \<Rightarrow> uint32 \<Rightarrow> UTxO" where
  "NewUTxOFull i hash from to node index amount blockNum timestamp typev =
     \<lparr>uo_BlockNum = blockNum, uo_Hash = HexToHash hash, uo_Index = index,
      uo_From = HexToAddress from, uo_To = HexToAddress to, uo_Node = HexToAddress node,
      uo_Amount = amount, uo_Timestamp = timestamp, uo_ID = i, uo_TxType = typev\<rparr>"

subsection \<open>Typed transactions (transaction.go)\<close>

record Transaction =
  tx_tx :: PbTransaction
  tx_hash :: bytes
  tx_from :: bytes
  tx_txType :: uint32
  tx_size :: nat
  tx_feePrice :: uint64
  tx_fee :: uint64
  tx_num :: uint64
  tx_timestamp :: uint64
  tx_inputs :: "Input list"
  tx_outputs :: "Output list"
  tx_dropped :: bool
  tx_forged :: bool

definition newInput :: "TxInput \<Rightarrow> Input" where
  "newInput inpb = \<lparr>in_hash = BytesToHash (ti_Hash inpb), in_address = BytesToAddress (ti_Address inpb),
     in_index = ti_Index inpb, in_amount = ti_Amount inpb, in_node = BytesToAddress (ti_Node inpb)\<rparr>"

definition inputSlice :: "TxInput list \<Rightarrow> Input list" where
  "inputSlice inpbarr = map newInput inpbarr"

definition newOutput :: "TxOutput \<Rightarrow> Output" where
  "newOutput outpb = \<lparr>out_address = BytesToAddress (to_Address outpb),
     out_node = BytesToAddress (to_Node outpb), out_amount = to_Amount outpb\<rparr>"

definition outputSlice :: "TxOutput list \<Rightarrow> Output list" where
  "outputSlice outpbarr = map newOutput outpbarr"

definition NewTransaction :: "PbTransaction \<Rightarrow> Transaction" where
  "NewTransaction pbtx =
    (let from = (case pt_Inputs pbtx of [] \<Rightarrow> [] | i # _ \<Rightarrow> BytesToAddress (ti_Address i));
         size = Tx_SizeSSZ pbtx in
     \<lparr>tx_tx = pbtx, tx_hash = BytesToHash (pt_Hash pbtx), tx_from = from, tx_txType = pt_Type pbtx,
      tx_size = size, tx_feePrice = pt_Fee pbtx, tx_fee = pt_Fee pbtx * word_of_nat size,
      tx_num = pt_Num pbtx, tx_timestamp = pt_Timestamp pbtx,
      tx_inputs = inputSlice (pt_Inputs pbtx), tx_outputs = outputSlice (pt_Outputs pbtx),
      tx_dropped = False, tx_forged = False\<rparr>)"

definition PbTxBatchToTyped :: "PbTransaction list \<Rightarrow> Transaction list" where
  "PbTxBatchToTyped batch = map NewTransaction batch"

text \<open>\<open>AllSenders\<close>: the input addresses in order of first occurrence; \<open>seen\<close> is keyed by hex strings.\<close>

fun allSenders_loop :: "string list \<Rightarrow> Input list \<Rightarrow> bytes list" where
  "allSenders_loop seen [] = []"
| "allSenders_loop seen (i # ins) =
    (let addr = Address_Hex (in_address i) in
     if addr \<in> set seen then allSenders_loop seen ins
     else in_address i # allSenders_loop (addr # seen) ins)"

definition AllSenders :: "Transaction \<Rightarrow> bytes list" where
  "AllSenders tx = allSenders_loop [] (tx_inputs tx)"

definition Drop :: "Transaction \<Rightarrow> Transaction" where
  "Drop tx = tx\<lparr>tx_dropped := True\<rparr>"

definition Forge :: "Transaction \<Rightarrow> Transaction" where
  "Forge tx = tx\<lparr>tx_forged := True\<rparr>"

definition DiscardForge :: "Transaction \<Rightarrow> Transaction" where
  "DiscardForge tx = tx\<lparr>tx_forged := False\<rparr>"

abbreviation (input) TxSuccess :: uint32 where "TxSuccess \<equiv> 1"
abbreviation (input) TxFailed :: uint32 where "TxFailed \<equiv> 2"

definition SetStatus :: "uint32 \<Rightarrow> Transaction \<Rightarrow> Transaction" where
  "SetStatus status tx = tx\<lparr>tx_tx := (tx_tx tx)\<lparr>pt_Status := status\<rparr>\<rparr>"

definition IsStandardTx :: "Transaction \<Rightarrow> bool" where
  "IsStandardTx tx = (tx_txType tx \<in> {NormalTxType, StakeTxType, UnstakeTxType})"

definition utypes_IsSystemTx :: "Transaction \<Rightarrow> bool" where
  "utypes_IsSystemTx tx = (tx_txType tx \<in>
     {FeeTxType, RewardTxType, CollapseTxType, ValidatorsUnstakeTxType})"

definition GenKeyFromPbInput :: "TxInput \<Rightarrow> string" where
  "GenKeyFromPbInput i = genKey (Encode (ti_Hash i)) (ti_Index i)"

definition GenKeyFromInput :: "Input \<Rightarrow> string" where
  "GenKeyFromInput i = genKey (Hash_Hex (in_hash i)) (in_index i)"

subsection \<open>Lemmas\<close>

text \<open>A typed transaction that agrees with its message up to the two flags.\<close>

definition typed_of :: "PbTransaction \<Rightarrow> Transaction \<Rightarrow> bool" where
  "typed_of pb tx = (tx\<lparr>tx_dropped := False, tx_forged := False\<rparr> = NewTransaction pb)"

lemma NewTransaction_simps [simp]:
  "tx_tx (NewTransaction pb) = pb"
  "tx_hash (NewTransaction pb) = BytesToHash (pt_Hash pb)"
  "tx_txType (NewTransaction pb) = pt_Type pb"
  "tx_size (NewTransaction pb) = Tx_SizeSSZ pb"
  "tx_feePrice (NewTransaction pb) = pt_Fee pb"
  "tx_num (NewTransaction pb) = pt_Num pb"
  "tx_timestamp (NewTransaction pb) = pt_Timestamp pb"
  "tx_inputs (NewTransaction pb) = map newInput (pt_Inputs pb)"
  "tx_outputs (NewTransaction pb) = map newOutput (pt_Outputs pb)"
  "tx_dropped (NewTransaction pb) = False"
  "tx_forged (NewTransaction pb) = False"
  "tx_fee (NewTransaction pb) = GetRealFee pb"
  by (simp_all add: NewTransaction_def Let_def inputSlice_def outputSlice_def GetRealFee_def)

lemma newInput_simps [simp]:
  "in_hash (newInput i) = BytesToHash (ti_Hash i)"
  "in_address (newInput i) = BytesToAddress (ti_Address i)"
  "in_index (newInput i) = ti_Index i"
  "in_amount (newInput i) = ti_Amount i"
  "in_node (newInput i) = BytesToAddress (ti_Node i)"
  by (simp_all add: newInput_def)

lemma newOutput_simps [simp]:
  "out_address (newOutput i) = BytesToAddress (to_Address i)"
  "out_amount (newOutput i) = to_Amount i"
  "out_node (newOutput i) = BytesToAddress (to_Node i)"
  by (simp_all add: newOutput_def)

lemma UTxO_ToInput_simps [simp]:
  "in_hash (UTxO_ToInput u) = uo_Hash u"
  "in_address (UTxO_ToInput u) = uo_To u"
  "in_index (UTxO_ToInput u) = uo_Index u"
  "in_amount (UTxO_ToInput u) = uo_Amount u"
  "in_node (UTxO_ToInput u) = uo_Node u"
  by (simp_all add: UTxO_ToInput_def)

lemma GenKeyFromInput_inj:
  "GenKeyFromInput a = GenKeyFromInput b \<longleftrightarrow> in_hash a = in_hash b \<and> in_index a = in_index b"
  by (simp add: GenKeyFromInput_def genKey_inj)

lemma genKey_Encode: "h \<noteq> [] \<Longrightarrow> genKey (Encode h) i = genKey (Hash_Hex h) i"
  by (simp add: Hash_Hex_def)

lemma GenKeyFromPbInput_typed:
  "length (ti_Hash i) = HashLength \<Longrightarrow> GenKeyFromPbInput i = GenKeyFromInput (newInput i)"
  by (cases "ti_Hash i")
    (auto simp: GenKeyFromPbInput_def GenKeyFromInput_def BytesToHash_def Hash_Hex_def)

lemma set_allSenders_loop:
  "set (allSenders_loop seen ins) = {a \<in> in_address ` set ins. Address_Hex a \<notin> set seen}"
  by (induction seen ins rule: allSenders_loop.induct) (auto simp: Let_def)

lemma distinct_allSenders_loop: "distinct (allSenders_loop seen ins)"
  by (induction seen ins rule: allSenders_loop.induct) (auto simp: Let_def set_allSenders_loop)

lemma IsLegacy_not_System: "IsLegacyTx tx \<Longrightarrow> \<not> IsSystemTx tx"
  by (auto simp: IsLegacyTx_def IsSystemTx_def)

end
