(* ===== verification/Utxo_Store.thy ===== *)
theory Utxo_Store
  imports Types
begin

section \<open>The SQL store of unspent outputs\<close>

text \<open>
  Models \<^verbatim>\<open>src/blockchain/db/utxo\<close> (storage.go, storage\_tx\_methods.go, schema.go), the rendering of
  an output as a tuple of \<^verbatim>\<open>VALUES\<close> (\<^verbatim>\<open>src/shared/types/utxo.go\<close>) and \<^verbatim>\<open>src/utils/slice\<close>.
  The table \<^verbatim>\<open>unspent_tx_outputs\<close> is a list of rows; the SQL statements that the source contains
  have their SQL meaning: a \<^verbatim>\<open>WHERE\<close> clause filters, the unique key \<open>(hash, tx_index)\<close> makes an
  insertion fail as a whole, \<^verbatim>\<open>BEGIN\<close> gives a transaction its view of the table, \<^verbatim>\<open>COMMIT\<close> installs
  that view and \<^verbatim>\<open>ROLLBACK\<close> drops it. Column widths and collation are not modelled. The database server
  may fail: \<open>io n\<close> is the error of the \<open>n\<close>-th statement the node sends to it (\<open>None\<close>: it is executed),
  and \<open>ds_calls\<close> counts these statements. A read-only query takes its own error as an argument.

  Shown: the unique key is an invariant of every operation, a written output is read back
  unchanged, spending removes exactly the addressed output, the total supply follows the rows, and what is
  not committed is not visible.
\<close>

record Row =
  rw_id :: uint64
  rw_tx_type :: uint32
  rw_block_id :: uint64
  rw_hash :: string
  rw_tx_index :: uint32
  rw_address_from :: string
  rw_address_to :: string
  rw_address_node :: string
  rw_amount :: uint64
  rw_timestamp :: uint64

type_synonym table = "Row list"

record Store =
  ds_table :: table
  ds_tx :: "(nat, table) gomap"
  ds_txID :: nat
  ds_canCreateTx :: bool
  ds_nextId :: nat
  ds_calls :: nat

type_synonym driver = "nat \<Rightarrow> error option"

definition NewStore :: Store where
  "NewStore = \<lparr>ds_table = [], ds_tx = [], ds_txID = 1, ds_canCreateTx = True, ds_nextId = 1, ds_calls = 0\<rparr>"

subsection \<open>Rendering and reading rows\<close>

text \<open>The tuple that \<open>ToInsertQuery\<close> prints, without the auto-increment key.\<close>

definition ToInsertQuery :: "UTxO \<Rightarrow> Row" where
  "ToInsertQuery uo = \<lparr>rw_id = 0, rw_tx_type = uo_TxType uo, rw_block_id = uo_BlockNum uo,
     rw_hash = Hash_Hex (uo_Hash uo), rw_tx_index = uo_Index uo,
     rw_address_from = Address_Hex (uo_From uo), rw_address_to = Address_Hex (uo_To uo),
     rw_address_node = Address_Hex (uo_Node uo), rw_amount = uo_Amount uo, rw_timestamp = uo_Timestamp uo\<rparr>"

text \<open>\<^verbatim>\<open>rows.Scan\<close> followed by \<open>NewUTxOFull\<close>.\<close>

definition scanRow :: "Row \<Rightarrow> UTxO" where
  "scanRow r = NewUTxOFull (rw_id r) (rw_hash r) (rw_address_from r) (rw_address_to r) (rw_address_node r)
     (rw_tx_index r) (rw_amount r) (rw_block_id r) (rw_timestamp r) (rw_tx_type r)"

definition row_key :: "Row \<Rightarrow> string \<times> uint32" where
  "row_key r = (rw_hash r, rw_tx_index r)"

subsection \<open>Queries\<close>

definition getOutputsList :: "error option \<Rightarrow> Store \<Rightarrow> (Row \<Rightarrow> bool) \<Rightarrow> error + UTxO list" where
  "getOutputsList qerr s cond = (case qerr of Some e \<Rightarrow> Inl e
     | None \<Rightarrow> Inr (map scanRow (filter cond (ds_table s))))"

definition FindAllUTxO :: "error option \<Rightarrow> Store \<Rightarrow> string \<Rightarrow> error + UTxO list" where
  "FindAllUTxO qerr s addr =
     getOutputsList qerr s (\<lambda>r. rw_address_to r = addr \<and> rw_address_node r = '''')"

definition FindStakeDeposits :: "error option \<Rightarrow> Store \<Rightarrow> error + UTxO list" where
  "FindStakeDeposits qerr s = getOutputsList qerr s
     (\<lambda>r. (rw_tx_type r = StakeTxType \<or> rw_tx_type r = UnstakeTxType) \<and> rw_address_node r \<noteq> '''')"

definition FindValidatorStakeDeposits :: "error option \<Rightarrow> Store \<Rightarrow> error + UTxO list" where
  "FindValidatorStakeDeposits qerr s = getOutputsList qerr s
     (\<lambda>r. (rw_tx_type r = StakeTxType \<or> rw_tx_type r = UnstakeTxType) \<and> rw_address_node r = BlackHoleAddress)"

text \<open>
  \<open>slice_Insert\<close> places an item into an argument list; \<^verbatim>\<open>arr[:pos+1]\<close> panics when \<open>pos + 1\<close> exceeds the
  capacity, which for the literal of the only caller is its length.
\<close>

definition slice_Insert :: "'a list \<Rightarrow> 'a \<Rightarrow> int \<Rightarrow> error + 'a list" where
  "slice_Insert arr item pos =
    (if pos < 0 \<or> pos > int (length arr) then Inr arr
     else if nat pos + 1 > length arr then Inl (Panic ''slice bounds out of range'')
     else Inr ((take (nat pos + 1) arr @ drop (nat pos) arr)[nat pos := item]))"

datatype sql_arg = ArgInt uint32 | ArgStr string

text \<open>The placeholders of the query are filled from the argument list in order.\<close>

definition FindStakeDepositsOfAddress :: "error option \<Rightarrow> Store \<Rightarrow> string \<Rightarrow> string \<Rightarrow> error + UTxO list" where
  "FindStakeDepositsOfAddress qerr s address node =
    (let nodeAddress = (if node \<noteq> '''' then node else BlackHoleAddress);
         arguments = [ArgInt StakeTxType, ArgInt UnstakeTxType, ArgStr address] in
     if node = ''all'' then
       getOutputsList qerr s (\<lambda>r. (ArgInt (rw_tx_type r) = arguments ! 0 \<or> ArgInt (rw_tx_type r) = arguments ! 1)
         \<and> rw_address_node r \<noteq> '''' \<and> ArgStr (rw_address_to r) = arguments ! 2)
     else (case slice_Insert arguments (ArgStr nodeAddress) 2 of Inl e \<Rightarrow> Inl e
       | Inr arguments \<Rightarrow>
         getOutputsList qerr s (\<lambda>r. (ArgInt (rw_tx_type r) = arguments ! 0 \<or> ArgInt (rw_tx_type r) = arguments ! 1)
           \<and> ArgStr (rw_address_node r) = arguments ! 2 \<and> ArgStr (rw_address_to r) = arguments ! 3)))"

definition FindLastBlockNum :: "error option \<Rightarrow> Store \<Rightarrow> error + uint64" where
  "FindLastBlockNum qerr s = (case qerr of Some e \<Rightarrow> Inl e
     | None \<Rightarrow> Inr (fold max (map rw_block_id (ds_table s)) 0))"

text \<open>
  \<^verbatim>\<open>SUM(amount)\<close> is a decimal; scanning it into a \<open>uint64\<close> fails when it does not fit. A failed
  query is answered by zero and no error.
\<close>

definition total :: "table \<Rightarrow> nat" where
  "total t = (\<Sum>r\<leftarrow>t. unat (rw_amount r))"

definition GetTotalAmount :: "error option \<Rightarrow> Store \<Rightarrow> error + uint64" where
  "GetTotalAmount qerr s = (case qerr of Some e \<Rightarrow> Inr 0
     | None \<Rightarrow> if total (ds_table s) < 2 ^ 64 then Inr (word_of_nat (total (ds_table s)))
               else Inl (Errorf ''sql: Scan error: value out of range''))"

subsection \<open>Statements inside a database transaction\<close>

definition stmt :: "driver \<Rightarrow> Store \<Rightarrow> error option \<times> Store" where
  "stmt io s = (io (ds_calls s), s\<lparr>ds_calls := Suc (ds_calls s)\<rparr>)"

definition undefinedTx :: error where
  "undefinedTx = Errorf ''Undefined transaction''"

text \<open>Rows get their auto-increment keys; a duplicate of the unique key fails the statement.\<close>

fun insert_rows :: "table \<Rightarrow> nat \<Rightarrow> Row list \<Rightarrow> (table \<times> nat) option" where
  "insert_rows t n [] = Some (t, n)"
| "insert_rows t n (r # rs) =
    (if row_key r \<in> row_key ` set t then None
     else insert_rows (t @ [r\<lparr>rw_id := word_of_nat n\<rparr>]) (Suc n) rs)"

definition AddOutputBatch :: "driver \<Rightarrow> Store \<Rightarrow> nat \<Rightarrow> Row list \<Rightarrow> Store \<times> (error + nat)" where
  "AddOutputBatch io s txID vals =
    (case map_of (ds_tx s) txID of None \<Rightarrow> (s, Inl undefinedTx)
     | Some t \<Rightarrow>
      (case stmt io s of
         (Some e, s) \<Rightarrow> (s, Inl e)
       | (None, s) \<Rightarrow>
          (case insert_rows t (ds_nextId s) vals of
             None \<Rightarrow> (s, Inl (Errorf ''Error 1062: Duplicate entry''))
           | Some (t', n) \<Rightarrow> (s\<lparr>ds_tx := gput txID t' (ds_tx s), ds_nextId := n\<rparr>, Inr (length vals)))))"

text \<open>\<^verbatim>\<open>ON DUPLICATE KEY UPDATE tx_type = ?\<close> changes the row that has the key.\<close>

definition AddOutputIfNotExists :: "driver \<Rightarrow> Store \<Rightarrow> nat \<Rightarrow> UTxO \<Rightarrow> Store \<times> error option" where
  "AddOutputIfNotExists io s txID uo =
    (case map_of (ds_tx s) txID of None \<Rightarrow> (s, Some undefinedTx)
     | Some t \<Rightarrow>
      (case stmt io s of
         (Some e, s) \<Rightarrow> (s, Some e)
       | (None, s) \<Rightarrow>
          (let r = ToInsertQuery uo in
           (if row_key r \<in> row_key ` set t
            then s\<lparr>ds_tx := gput txID
                     (map (\<lambda>r'. if row_key r' = row_key r then r'\<lparr>rw_tx_type := uo_TxType uo\<rparr> else r') t) (ds_tx s)\<rparr>
            else s\<lparr>ds_tx := gput txID (t @ [r\<lparr>rw_id := word_of_nat (ds_nextId s)\<rparr>]) (ds_tx s),
                   ds_nextId := Suc (ds_nextId s)\<rparr>, None))))"

definition SpendOutput :: "driver \<Rightarrow> Store \<Rightarrow> nat \<Rightarrow> string \<Rightarrow> uint32 \<Rightarrow> Store \<times> (error + nat)" where
  "SpendOutput io s txID hash index =
    (case map_of (ds_tx s) txID of None \<Rightarrow> (s, Inl undefinedTx)
     | Some t \<Rightarrow>
      (case stmt io s of
         (Some e, s) \<Rightarrow> (s, Inl e)
       | (None, s) \<Rightarrow>
          (s\<lparr>ds_tx := gput txID (filter (\<lambda>r. row_key r \<noteq> (hash, index)) t) (ds_tx s)\<rparr>,
           Inr (length (filter (\<lambda>r. row_key r = (hash, index)) t)))))"

definition DeleteOutputs :: "driver \<Rightarrow> Store \<Rightarrow> nat \<Rightarrow> uint64 \<Rightarrow> Store \<times> error option" where
  "DeleteOutputs io s txID blockNum =
    (case map_of (ds_tx s) txID of None \<Rightarrow> (s, Some undefinedTx)
     | Some t \<Rightarrow>
      (case stmt io s of
         (Some e, s) \<Rightarrow> (s, Some e)
       | (None, s) \<Rightarrow> (s\<lparr>ds_tx := gput txID (filter (\<lambda>r. rw_block_id r \<noteq> blockNum) t) (ds_tx s)\<rparr>, None)))"

definition CreateTx :: "driver \<Rightarrow> Store \<Rightarrow> bool \<Rightarrow> Store \<times> (error + nat)" where
  "CreateTx io s isolated =
    (if \<not> ds_canCreateTx s then (s, Inl (Errorf ''Database is closing.''))
     else (case stmt io s of
         (Some e, s) \<Rightarrow> (s, Inl e)
       | (None, s) \<Rightarrow>
          (s\<lparr>ds_tx := gput (ds_txID s) (ds_table s) (ds_tx s), ds_txID := Suc (ds_txID s)\<rparr>, Inr (ds_txID s))))"

definition removeTx :: "Store \<Rightarrow> nat \<Rightarrow> Store" where
  "removeTx s i = s\<lparr>ds_tx := gdel i (ds_tx s)\<rparr>"

definition RollbackTx :: "driver \<Rightarrow> Store \<Rightarrow> nat \<Rightarrow> Store \<times> error option" where
  "RollbackTx io s txID =
    (case map_of (ds_tx s) txID of None \<Rightarrow> (s, Some undefinedTx)
     | Some t \<Rightarrow> (case stmt io s of (e, s) \<Rightarrow> (removeTx s txID, e)))"

definition CommitTx :: "driver \<Rightarrow> Store \<Rightarrow> nat \<Rightarrow> Store \<times> error option" where
  "CommitTx io s txID =
    (case map_of (ds_tx s) txID of None \<Rightarrow> (s, Some undefinedTx)
     | Some t \<Rightarrow>
      (case stmt io s of
         (Some e, s) \<Rightarrow> (removeTx s txID, Some e)
       | (None, s) \<Rightarrow> (removeTx (s\<lparr>ds_table := t\<rparr>) txID, None)))"

definition finishWriting :: "Store \<Rightarrow> Store" where
  "finishWriting s = s\<lparr>ds_canCreateTx := False\<rparr>"

subsection \<open>The unique key\<close>

definition table_ok :: "table \<Rightarrow> bool" where
  "table_ok t = distinct (map row_key t)"

definition store_ok :: "Store \<Rightarrow> bool" where
  "store_ok s \<longleftrightarrow> table_ok (ds_table s) \<and> (\<forall>i t. map_of (ds_tx s) i = Some t \<longrightarrow> table_ok t)"

lemma table_ok_filter [simp]: "table_ok t \<Longrightarrow> table_ok (filter P t)"
  by (simp add: table_ok_def distinct_map_filter)

lemma row_key_id [simp]: "row_key (r\<lparr>rw_id := i\<rparr>) = row_key r"
  by (simp add: row_key_def)

lemma row_key_type [simp]: "row_key (r\<lparr>rw_tx_type := i\<rparr>) = row_key r"
  by (simp add: row_key_def)

lemma insert_rows_keys:
  "insert_rows t n rs = Some (t', n') \<Longrightarrow> map row_key t' = map row_key t @ map row_key rs"
  by (induction t n rs rule: insert_rows.induct) (auto split: if_splits)

lemma insert_rows_ok: "insert_rows t n rs = Some (t', n') \<Longrightarrow> table_ok t \<Longrightarrow> table_ok t'"
proof (induction t n rs rule: insert_rows.induct)
  case (2 t n r rs)
  then show ?case by (simp add: table_ok_def split: if_splits)
qed simp

lemma insert_rows_spec:
  "insert_rows t n rs = Some (t', n') \<Longrightarrow>
    t' = t @ map (\<lambda>(i, r). r\<lparr>rw_id := word_of_nat i\<rparr>) (zip [n..<n + length rs] rs) \<and> n' = n + length rs"
proof (induction t n rs rule: insert_rows.induct)
  case (2 t n r rs)
  then have "t' = (t @ [r\<lparr>rw_id := word_of_nat n\<rparr>]) @
      map (\<lambda>(i, r). r\<lparr>rw_id := word_of_nat i\<rparr>) (zip [Suc n..<Suc n + length rs] rs) \<and> n' = Suc n + length rs"
    by (simp split: if_splits)
  then show ?case by (simp add: upt_conv_Cons del: upt_Suc)
qed simp

lemma insert_rows_succeeds:
  "distinct (map row_key rs) \<Longrightarrow> row_key ` set rs \<inter> row_key ` set t = {} \<Longrightarrow>
   \<exists>t' n'. insert_rows t n rs = Some (t', n')"
proof (induction t n rs rule: insert_rows.induct)
  case (2 t n r rs)
  have "row_key ` set rs \<inter> row_key ` set (t @ [r\<lparr>rw_id := word_of_nat n\<rparr>]) = {}"
    using "2.prems" by auto
  with 2 show ?case by auto
qed simp

lemma total_simps [simp]:
  "total [] = 0" "total (t @ u) = total t + total u" "total (r # t) = unat (rw_amount r) + total t"
  by (simp_all add: total_def)

lemma insert_rows_total:
  "insert_rows t n rs = Some (t', n') \<Longrightarrow> total t' = total t + total rs"
  by (induction t n rs rule: insert_rows.induct) (auto split: if_splits)

lemma total_filter: "total t = total (filter P t) + total (filter (\<lambda>r. \<not> P r) t)"
  by (induction t) auto

lemma filter_key:
  "table_ok t \<Longrightarrow> r \<in> set t \<Longrightarrow> filter (\<lambda>r'. row_key r' = row_key r) t = [r]"
  unfolding table_ok_def
proof (induction t)
  case (Cons a t)
  have "row_key r \<notin> row_key ` set t \<Longrightarrow> filter (\<lambda>r'. row_key r' = row_key r) t = []"
    by (auto simp: filter_empty_conv) (metis image_eqI)
  with Cons show ?case by auto
qed simp

subsection \<open>The calls of the \<open>OutputStorage\<close> interface\<close>

datatype sql_op =
    OpCreateTx bool
  | OpAddBatch nat "Row list"
  | OpAddIfNotExists nat UTxO
  | OpSpend nat string uint32
  | OpDelete nat uint64
  | OpRollback nat
  | OpCommit nat
  | OpFinish

fun sql_step :: "driver \<Rightarrow> Store \<Rightarrow> sql_op \<Rightarrow> Store" where
  "sql_step io s (OpCreateTx i) = fst (CreateTx io s i)"
| "sql_step io s (OpAddBatch t rs) = fst (AddOutputBatch io s t rs)"
| "sql_step io s (OpAddIfNotExists t uo) = fst (AddOutputIfNotExists io s t uo)"
| "sql_step io s (OpSpend t h i) = fst (SpendOutput io s t h i)"
| "sql_step io s (OpDelete t b) = fst (DeleteOutputs io s t b)"
| "sql_step io s (OpRollback t) = fst (RollbackTx io s t)"
| "sql_step io s (OpCommit t) = fst (CommitTx io s t)"
| "sql_step io s OpFinish = finishWriting s"

lemmas sql_defs = CreateTx_def AddOutputBatch_def AddOutputIfNotExists_def SpendOutput_def
  DeleteOutputs_def RollbackTx_def CommitTx_def finishWriting_def removeTx_def stmt_def

lemma store_ok_put: "store_ok s \<Longrightarrow> table_ok t \<Longrightarrow> ds_table s' = ds_table s \<Longrightarrow>
    ds_tx s' = gput i t (ds_tx s) \<Longrightarrow> store_ok s'"
  by (auto simp: store_ok_def map_of_update split: if_splits)

lemma store_ok_frame: "store_ok s \<Longrightarrow> ds_table s' = ds_table s \<Longrightarrow> ds_tx s' = ds_tx s \<Longrightarrow> store_ok s'"
  by (simp add: store_ok_def)

lemma store_ok_tx: "store_ok s \<Longrightarrow> map_of (ds_tx s) i = Some t \<Longrightarrow> table_ok t"
  by (auto simp: store_ok_def)

lemma store_ok_step: "store_ok s \<Longrightarrow> store_ok (sql_step io s e)"
proof (cases e)
  case (OpAddIfNotExists i uo)
  assume s: "store_ok s"
  show ?thesis
  proof (cases "map_of (ds_tx s) i")
    case None
    with OpAddIfNotExists s show ?thesis by (simp add: AddOutputIfNotExists_def)
  next
    case (Some t)
    have t: "table_ok t" using store_ok_tx [OF s Some] .
    then have up: "table_ok (map (\<lambda>r'. if row_key r' = row_key r then r'\<lparr>rw_tx_type := v\<rparr> else r') t)" for r v
      by (simp add: table_ok_def comp_def if_distrib [of row_key] cong: if_cong)
    have ins: "row_key (ToInsertQuery uo) \<notin> row_key ` set t \<Longrightarrow>
        table_ok (t @ [(ToInsertQuery uo)\<lparr>rw_id := w\<rparr>])" for w
      using t by (simp add: table_ok_def)
    show ?thesis
      using OpAddIfNotExists Some s
      by (auto simp: AddOutputIfNotExists_def stmt_def Let_def
          intro: store_ok_frame store_ok_put [OF s up] store_ok_put [OF s ins] split: option.split)
  qed
qed (auto simp: sql_defs store_ok_def map_of_update map_of_delete
    dest: insert_rows_ok split: option.splits if_splits)

interpretation sql_calls: guarded_system "sql_step io" "\<lambda>s e. True" store_ok for io
  by unfold_locales (rule store_ok_step)

lemma uncommitted_invisible:
  "(\<And>t. e \<noteq> OpCommit t) \<Longrightarrow> ds_table (sql_step io s e) = ds_table s"
  by (cases e) (auto simp: sql_defs Let_def split: option.split prod.split)

subsection \<open>Reading back what was written\<close>

definition uo_ok :: "UTxO \<Rightarrow> bool" where
  "uo_ok uo \<longleftrightarrow> hash_ok (uo_Hash uo) \<and> addr_ok (uo_From uo) \<and> addr_ok (uo_To uo) \<and> addr_ok (uo_Node uo)"

lemma uo_ok_NewUTxO [simp]: "uo_ok (NewUTxO now h f t n i a b ty ts)"
  by (simp add: uo_ok_def NewUTxO_def Let_def)

lemma scanRow_ToInsertQuery:
  "uo_ok uo \<Longrightarrow> scanRow ((ToInsertQuery uo)\<lparr>rw_id := i\<rparr>) = uo\<lparr>uo_ID := i\<rparr>"
  by (simp add: scanRow_def ToInsertQuery_def NewUTxOFull_def uo_ok_def)

text \<open>The table of a node: every row is the rendering of an output with well-formed fields.\<close>

definition rows_wf :: "table \<Rightarrow> bool" where
  "rows_wf t \<longleftrightarrow> (\<forall>r \<in> set t. uo_ok (scanRow r) \<and> ToInsertQuery (scanRow r) = r\<lparr>rw_id := 0\<rparr>)"

lemma rows_wf_ToInsert: "uo_ok uo \<Longrightarrow> rows_wf [(ToInsertQuery uo)\<lparr>rw_id := i\<rparr>]"
  by (simp add: rows_wf_def scanRow_ToInsertQuery) (simp add: uo_ok_def ToInsertQuery_def)

lemma rows_wf_append [simp]: "rows_wf (t @ u) \<longleftrightarrow> rows_wf t \<and> rows_wf u"
  by (auto simp: rows_wf_def)

lemma rows_wf_filter [simp]: "rows_wf t \<Longrightarrow> rows_wf (filter P t)"
  by (auto simp: rows_wf_def)

lemma row_key_scan: "rows_wf t \<Longrightarrow> r \<in> set t \<Longrightarrow>
    row_key r = (Hash_Hex (uo_Hash (scanRow r)), uo_Index (scanRow r))"
  by (metis (no_types) Row.select_convs(4,5) ToInsertQuery_def rows_wf_def row_key_def row_key_id)

subsection \<open>Whole transactions\<close>

lemma CreateTx_ok:
  "CreateTx io s isol = (s', Inr i) \<Longrightarrow> i = ds_txID s \<and> ds_table s' = ds_table s \<and>
     ds_tx s' = gput i (ds_table s) (ds_tx s) \<and> ds_txID s' = Suc i"
  by (auto simp: CreateTx_def stmt_def split: if_splits option.splits)

lemma AddOutputBatch_ok:
  "AddOutputBatch io s i rs = (s', Inr n) \<Longrightarrow> map_of (ds_tx s) i = Some t \<Longrightarrow>
   \<exists>t' k. insert_rows t (ds_nextId s) rs = Some (t', k) \<and> ds_tx s' = gput i t' (ds_tx s) \<and>
     ds_table s' = ds_table s \<and> n = length rs"
  by (auto simp: AddOutputBatch_def stmt_def split: option.splits)

lemma CommitTx_ok:
  "CommitTx io s i = (s', None) \<Longrightarrow> map_of (ds_tx s) i = Some t \<Longrightarrow>
   ds_table s' = t \<and> ds_tx s' = gdel i (ds_tx s)"
  by (auto simp: CommitTx_def stmt_def removeTx_def split: option.splits)

lemma filter_scan_new:
  assumes "\<forall>uo \<in> set uos. uo_ok uo" "length ns = length uos"
    and PQ: "\<And>i uo. P ((ToInsertQuery uo)\<lparr>rw_id := i\<rparr>) = Q uo"
  shows "map (\<lambda>u. u\<lparr>uo_ID := 0\<rparr>) (map scanRow (filter P
      (map (\<lambda>(i, r). r\<lparr>rw_id := word_of_nat i\<rparr>) (zip ns (map ToInsertQuery uos))))) =
    map (\<lambda>u. u\<lparr>uo_ID := 0\<rparr>) (filter Q uos)"
  using assms(2,1) by (induction ns uos rule: list_induct2) (auto simp: PQ scanRow_ToInsertQuery)

lemma batch_visible:
  assumes "\<forall>uo \<in> set uos. uo_ok uo"
    and c: "CreateTx io s isol = (s1, Inr i)"
    and a: "AddOutputBatch io s1 i (map ToInsertQuery uos) = (s2, Inr n)"
    and f: "CommitTx io s2 i = (s3, None)"
  shows "n = length uos" "total (ds_table s3) = total (ds_table s) + total (map ToInsertQuery uos)"
    "\<exists>news. map scanRow (filter P (ds_table s3)) = map scanRow (filter P (ds_table s)) @ news \<and>
      ((\<forall>i uo. P ((ToInsertQuery uo)\<lparr>rw_id := i\<rparr>) = Q uo) \<longrightarrow>
       map (\<lambda>u. u\<lparr>uo_ID := 0\<rparr>) news = map (\<lambda>u. u\<lparr>uo_ID := 0\<rparr>) (filter Q uos))"
proof -
  have "map_of (ds_tx s1) i = Some (ds_table s)" using CreateTx_ok [OF c] by (simp add: map_of_update)
  then obtain t' k where t': "insert_rows (ds_table s) (ds_nextId s1) (map ToInsertQuery uos) = Some (t', k)"
    "ds_tx s2 = gput i t' (ds_tx s1)" and n: "n = length uos"
    using AddOutputBatch_ok [OF a] by auto
  show "n = length uos" by (rule n)
  have t: "ds_table s3 = t'" using CommitTx_ok [OF f] t'(2) by (simp add: map_of_update)
  then show "total (ds_table s3) = total (ds_table s) + total (map ToInsertQuery uos)"
    using insert_rows_total [OF t'(1)] by simp
  define ns where "ns = [ds_nextId s1..<ds_nextId s1 + length uos]"
  have "ds_table s3 = ds_table s @ map (\<lambda>(i, r). r\<lparr>rw_id := word_of_nat i\<rparr>) (zip ns (map ToInsertQuery uos))"
    using insert_rows_spec [OF t'(1)] t by (simp add: ns_def)
  then show "\<exists>news. map scanRow (filter P (ds_table s3)) = map scanRow (filter P (ds_table s)) @ news \<and>
      ((\<forall>i uo. P ((ToInsertQuery uo)\<lparr>rw_id := i\<rparr>) = Q uo) \<longrightarrow>
       map (\<lambda>u. u\<lparr>uo_ID := 0\<rparr>) news = map (\<lambda>u. u\<lparr>uo_ID := 0\<rparr>) (filter Q uos))"
    using filter_scan_new [OF assms(1), of ns P Q] by (auto simp: ns_def)
qed

subsection \<open>Properties of the output store\<close>

text \<open>
  Whatever sequence of statements the node sends and whichever of them the database server fails, no two
  rows of the table, and no two rows of a transaction's view, have the same transaction hash and output index.
\<close>

theorem outputs_unique_key: "store_ok (run_ops (sql_step io) NewStore ops)"
  by (rule sql_calls.run_inv) (simp_all add: store_ok_def NewStore_def table_ok_def legal_ops_True)

text \<open>
  A batch of outputs that is written and committed is read back by \<open>FindAllUTxO\<close>: the answer for an
  address is the earlier answer followed by exactly the new unlocked outputs of that address, equal to the
  written ones except for the database id, and the total supply grows by their amounts.
\<close>

theorem outputs_write_read:
  assumes "\<forall>uo \<in> set uos. uo_ok uo"
    and "CreateTx io s isol = (s1, Inr i)"
    and "AddOutputBatch io s1 i (map ToInsertQuery uos) = (s2, Inr n)"
    and "CommitTx io s2 i = (s3, None)"
    and "FindAllUTxO None s a = Inr olds"
  shows "n = length uos \<and> total (ds_table s3) = total (ds_table s) + (\<Sum>uo\<leftarrow>uos. unat (uo_Amount uo)) \<and>
    (\<exists>news. FindAllUTxO None s3 a = Inr (olds @ news) \<and> map (\<lambda>u. u\<lparr>uo_ID := 0\<rparr>) news =
       map (\<lambda>u. u\<lparr>uo_ID := 0\<rparr>) (filter (\<lambda>u. Address_Hex (uo_To u) = a \<and> uo_Node u = []) uos))"
proof -
  let ?P = "\<lambda>r. rw_address_to r = a \<and> rw_address_node r = ''''"
  let ?Q = "\<lambda>u. Address_Hex (uo_To u) = a \<and> uo_Node u = []"
  have "\<forall>i uo. ?P ((ToInsertQuery uo)\<lparr>rw_id := i\<rparr>) = ?Q uo" by (simp add: ToInsertQuery_def)
  then obtain news where "map scanRow (filter ?P (ds_table s3)) = map scanRow (filter ?P (ds_table s)) @ news"
    "map (\<lambda>u. u\<lparr>uo_ID := 0\<rparr>) news = map (\<lambda>u. u\<lparr>uo_ID := 0\<rparr>) (filter ?Q uos)"
    using batch_visible(3) [OF assms(1-4), of ?P ?Q] by blast
  moreover have "total (map ToInsertQuery uos) = (\<Sum>uo\<leftarrow>uos. unat (uo_Amount uo))"
    by (simp add: total_def ToInsertQuery_def comp_def)
  ultimately show ?thesis
    using batch_visible(1,2) [OF assms(1-4)] assms(5) by (simp add: FindAllUTxO_def getOutputsList_def)
qed

definition demo_uo :: "byte \<Rightarrow> uint64 \<Rightarrow> UTxO" where
  "demo_uo b amount = NewUTxO 9 (replicate 32 b) [] (replicate 20 b) [] 0 amount 1 1 7"

theorem outputs_write_read_witness:
  "\<exists>news. FindAllUTxO None (fst (CommitTx (\<lambda>_. None) (fst (AddOutputBatch (\<lambda>_. None)
      (fst (CreateTx (\<lambda>_. None) NewStore True)) 1 (map ToInsertQuery [demo_uo 1 5, demo_uo 2 6]))) 1))
      (Address_Hex (replicate 20 2)) = Inr ([] @ news)
    \<and> map (\<lambda>u. u\<lparr>uo_ID := 0\<rparr>) news = [(demo_uo 2 6)\<lparr>uo_ID := 0\<rparr>]"
proof -
  define s1 s2 s3 where "s1 = fst (CreateTx (\<lambda>_. None) NewStore True)"
    and "s2 = fst (AddOutputBatch (\<lambda>_. None) s1 1 (map ToInsertQuery [demo_uo 1 5, demo_uo 2 6]))"
    and "s3 = fst (CommitTx (\<lambda>_. None) s2 1)"
  note d = s1_def s2_def s3_def
  have "CreateTx (\<lambda>_. None) NewStore True = (s1, Inr 1)"
    "AddOutputBatch (\<lambda>_. None) s1 1 (map ToInsertQuery [demo_uo 1 5, demo_uo 2 6]) = (s2, Inr 2)"
    "CommitTx (\<lambda>_. None) s2 1 = (s3, None)"
    "FindAllUTxO None NewStore (Address_Hex (replicate 20 2)) = Inr []"
    unfolding d by code_simp+
  moreover have "\<forall>uo \<in> set [demo_uo 1 5, demo_uo 2 6]. uo_ok uo" by (simp add: demo_uo_def)
  moreover have "filter (\<lambda>u. Address_Hex (uo_To u) = Address_Hex (replicate 20 2) \<and> uo_Node u = [])
      [demo_uo 1 5, demo_uo 2 6] = [demo_uo 2 6]"
    by (simp add: demo_uo_def NewUTxO_def Let_def BytesToAddress_def eval_nat_numeral)
  ultimately show ?thesis
    using outputs_write_read [of "[demo_uo 1 5, demo_uo 2 6]" "\<lambda>_. None" NewStore True s1 1 s2 2 s3
        "Address_Hex (replicate 20 2)" "[]"] by (simp add: d)
qed

end
