(* ===== verification/Roots.thy ===== *)
theory Roots
  imports Types
begin

section \<open>SSZ tree hashes\<close>

text \<open>
  Models the tree hashes of the protocol messages (\<open>HashTreeRootWith\<close> in \<^verbatim>\<open>src/proto/prototype/types.pb_encoding.go\<close>) on the hasher of
  \<^verbatim>\<open>src/vendor/github.com/ferranbt/fastssz/hasher.go\<close>, and the little-endian integers of its encoder.  The hash function, SHA-256,
  is the parameter \<open>sha\<close>.  A hasher is its buffer; the groups that are hashed are suffixes of it.

  Shown: the iterative \<open>merkleizeImpl\<close>, which merges subtrees like the carries of a binary counter, computes the root of the binary
  tree over the chunks padded with zero chunks to the depth of the limit, and an object whose fields have the sizes of the schema has a root.
\<close>

subsection \<open>Little-endian integers (fastssz)\<close>

fun le_nat :: "nat \<Rightarrow> nat \<Rightarrow> bytes" where
  "le_nat 0 x = []"
| "le_nat (Suc n) x = word_of_nat (x mod 256) # le_nat n (x div 256)"

fun nat_le :: "bytes \<Rightarrow> nat" where
  "nat_le [] = 0"
| "nat_le (b # bs) = unat b + 256 * nat_le bs"

definition MarshalUint64 :: "bytes \<Rightarrow> uint64 \<Rightarrow> bytes" where
  "MarshalUint64 dst i = dst @ le_nat 8 (unat i)"

definition MarshalUint32 :: "bytes \<Rightarrow> uint32 \<Rightarrow> bytes" where
  "MarshalUint32 dst i = dst @ le_nat 4 (unat i)"

definition UnmarshallUint64 :: "bytes \<Rightarrow> uint64" where
  "UnmarshallUint64 src = word_of_nat (nat_le (take 8 src))"

definition UnmarshallUint32 :: "bytes \<Rightarrow> uint32" where
  "UnmarshallUint32 src = word_of_nat (nat_le (take 4 src))"

lemma length_le_nat [simp]: "length (le_nat n x) = n"
  by (induction n arbitrary: x) auto

lemma nat_le_le_nat: "x < 256 ^ n \<Longrightarrow> nat_le (le_nat n x) = x"
proof (induction n arbitrary: x)
  case (Suc n)
  then have "x div 256 < 256 ^ n"
    by (simp add: less_mult_imp_div_less)
  then have "nat_le (le_nat n (x div 256)) = x div 256"
    by (rule Suc.IH)
  then show ?case
    by (simp add: unat_of_nat)
qed simp

lemma UnmarshallUint64_Marshal [simp]: "UnmarshallUint64 (MarshalUint64 [] i) = i"
proof -
  have "unat i < 256 ^ 8" using unat64_less [of i] by simp
  then show ?thesis
    by (simp add: UnmarshallUint64_def MarshalUint64_def nat_le_le_nat)
qed

lemma UnmarshallUint32_le [simp]: "UnmarshallUint32 (le_nat 4 (unat i)) = i"
proof -
  have "unat i < 2 ^ LENGTH(32)" by (rule unsigned_less)
  then have "nat_le (le_nat 4 (unat i)) = unat i"
    by (intro nat_le_le_nat) simp
  then show ?thesis by (simp add: UnmarshallUint32_def)
qed

subsection \<open>The hasher (hasher.go)\<close>

definition ErrIncorrectListSize :: error where "ErrIncorrectListSize = Sentinel ''incorrect list size''"

definition ErrBytesLengthFn :: "string \<Rightarrow> nat \<Rightarrow> nat \<Rightarrow> error" where
  "ErrBytesLengthFn nm found expected = Errorf (nm @ '' (bytes array does not have the correct length): expected ''
     @ itoa expected @ '' and '' @ itoa found @ '' found'')"

unbundle bit_operations_syntax

abbreviation (input) zeroBytes :: bytes where "zeroBytes \<equiv> replicate 32 0"

primrec zeroHashes :: "(bytes \<Rightarrow> bytes) \<Rightarrow> nat \<Rightarrow> bytes" where
  "zeroHashes sha 0 = zeroBytes"
| "zeroHashes sha (Suc i) = sha (zeroHashes sha i @ zeroHashes sha i)"

definition AppendBytes32 :: "bytes \<Rightarrow> bytes \<Rightarrow> bytes" where
  "AppendBytes32 h b = (let rest = length b mod 32 in h @ b @ (if rest \<noteq> 0 then replicate (32 - rest) 0 else []))"

definition PutUint64 :: "bytes \<Rightarrow> uint64 \<Rightarrow> bytes" where
  "PutUint64 h i = AppendBytes32 h (le_nat 8 (unat i))"

definition PutUint32 :: "bytes \<Rightarrow> uint32 \<Rightarrow> bytes" where
  "PutUint32 h i = AppendBytes32 h (le_nat 4 (unat i))"

definition nextPowerOfTwo :: "uint64 \<Rightarrow> uint64" where
  "nextPowerOfTwo v =
    (let v = v - 1; v = v OR drop_bit 1 v; v = v OR drop_bit 2 v; v = v OR drop_bit 4 v; v = v OR drop_bit 8 v;
         v = v OR drop_bit 16 v in v + 1)"

definition LeadingZeros :: "uint64 \<Rightarrow> nat" where
  "LeadingZeros x = 64 - bit_len (unat x)"

definition getDepth :: "uint64 \<Rightarrow> nat" where
  "getDepth d = (if d \<le> 1 then 0 else 64 - LeadingZeros (nextPowerOfTwo d) - 1)"

text \<open>
  The function \<open>merge\<close> inside \<open>merkleizeImpl\<close>: \<open>tmp\<close> is the array behind \<open>getTmp\<close>, of \<open>depth + 1\<close> hashes.  What it holds from an
  earlier use does not matter, since every entry is written before it is read.
\<close>

function merge_up :: "(bytes \<Rightarrow> bytes) \<Rightarrow> nat \<Rightarrow> nat \<Rightarrow> nat \<Rightarrow> nat \<Rightarrow> bytes \<Rightarrow> bytes list \<Rightarrow> bytes list" where
  "merge_up sha cnt depth i j hh tmp =
    (if \<not> bit i j then
       (if i = cnt \<and> j < depth then merge_up sha cnt depth i (Suc j) (sha (hh @ zeroHashes sha j)) tmp
        else tmp[j := hh])
     else merge_up sha cnt depth i (Suc j) (sha (tmp ! j @ hh)) tmp)"
  by pat_completeness auto

lemma bit_less: "bit (i :: nat) j \<Longrightarrow> j < i"
proof -
  assume "bit i j"
  then have "2 ^ j \<le> i" by (metis bit_iff_odd div_less even_zero not_le)
  then show "j < i" using less_exp [of j] by (rule order.strict_trans2 [rotated])
qed

termination merge_up
  by (relation "measure (\<lambda>(_, _, depth, i, j, _). max depth i - j)") (auto dest: bit_less)

declare merge_up.simps [simp del]

definition chunk_at :: "bytes \<Rightarrow> nat \<Rightarrow> bytes" where
  "chunk_at input i = take 32 (drop (32 * i) input)"

definition merkleizeImpl :: "(bytes \<Rightarrow> bytes) \<Rightarrow> bytes \<Rightarrow> nat \<Rightarrow> error + bytes" where
  "merkleizeImpl sha input limit0 =
    (let cnt = length input div 32 in
     if limit0 \<noteq> 0 \<and> cnt > limit0 then Inl (Panic ''BUG: count higher than limit'')
     else (let limit = (if limit0 = 0 then cnt else limit0) in
       if limit = 0 then Inr zeroBytes
       else if limit = 1 then Inr (if cnt = 1 then take 32 input else zeroBytes)
       else (let depth = getDepth (word_of_nat cnt);
             tmp = fold (\<lambda>i. merge_up sha cnt depth i 0 (chunk_at input i)) [0..<cnt] (replicate (depth + 1) zeroBytes);
             tmp = (if 2 ^ depth \<noteq> cnt then merge_up sha cnt depth cnt 0 (zeroHashes sha 0) tmp else tmp)
         in Inr (fold (\<lambda>j res. sha (res @ zeroHashes sha j)) [depth..<getDepth (word_of_nat limit)] (tmp ! depth)))))"

definition Merkleize :: "(bytes \<Rightarrow> bytes) \<Rightarrow> nat \<Rightarrow> bytes \<Rightarrow> error + bytes" where
  "Merkleize sha indx h = ebind (merkleizeImpl sha (drop indx h) 0) (\<lambda>input. Inr (take indx h @ input))"

definition MerkleizeWithMixin :: "(bytes \<Rightarrow> bytes) \<Rightarrow> nat \<Rightarrow> nat \<Rightarrow> nat \<Rightarrow> bytes \<Rightarrow> error + bytes" where
  "MerkleizeWithMixin sha indx num limit h = ebind (merkleizeImpl sha (drop indx h) limit) (\<lambda>input.
     Inr (take indx h @ sha (input @ le_nat 8 num @ replicate 24 0)))"

definition PutBytes :: "(bytes \<Rightarrow> bytes) \<Rightarrow> bytes \<Rightarrow> bytes \<Rightarrow> error + bytes" where
  "PutBytes sha b h = (if length b \<le> 32 then Inr (AppendBytes32 h b) else Merkleize sha (length h) (AppendBytes32 h b))"

definition HashRoot :: "bytes \<Rightarrow> error + bytes" where
  "HashRoot h = (if length h \<noteq> 32 then Inl (Errorf ''expected 32 byte size'') else Inr h)"

definition HashWithDefaultHasher :: "('a \<Rightarrow> bytes \<Rightarrow> error + bytes) \<Rightarrow> 'a \<Rightarrow> error + bytes" where
  "HashWithDefaultHasher HashTreeRootWith v = ebind (HashTreeRootWith v []) HashRoot"

subsection \<open>The depth of a tree\<close>

lemma bit_smear:
  assumes "\<And>k. bit (w :: uint64) k \<longleftrightarrow> (\<exists>t < n. bit v (k + t))"
  shows "bit (w OR drop_bit n w) k \<longleftrightarrow> (\<exists>t < 2 * n. bit v (k + t))"
proof
  assume "bit (w OR drop_bit n w) k"
  then have "bit w k \<or> bit w (n + k)" by (auto simp: bit_simps)
  then show "\<exists>t < 2 * n. bit v (k + t)"
  proof
    assume "bit w k" then show ?thesis unfolding assms by (metis mult_2 trans_less_add1)
  next
    assume "bit w (n + k)"
    then obtain t where "t < n" "bit v (n + k + t)" unfolding assms by blast
    then show ?thesis by (intro exI [of _ "n + t"]) (simp add: add.assoc add.left_commute)
  qed
next
  assume "\<exists>t < 2 * n. bit v (k + t)"
  then obtain t where t: "t < 2 * n" "bit v (k + t)" by blast
  have "bit w k \<or> bit w (n + k)"
  proof (cases "t < n")
    case False
    then have "t - n < n" "bit v (n + k + (t - n))" using t by (simp_all add: add.commute)
    then show ?thesis unfolding assms by blast
  qed (use t assms in blast)
  then show "bit (w OR drop_bit n w) k" by (auto simp: bit_simps)
qed

lemma highest_bit:
  assumes "0 < x"
  shows "bit (x :: nat) (bit_len x - 1)" "bit_len x \<le> k \<Longrightarrow> \<not> bit x k"
proof -
  have "0 < bit_len x" using bit_len_le [of x 0] assms by simp
  then obtain m where m: "bit_len x = Suc m" by (cases "bit_len x") auto
  then have "2 ^ m \<le> x" "x < 2 ^ Suc m" using bit_len_le [of x m] bit_len_le [of x "Suc m"] by simp_all
  then have "x div 2 ^ m = 1" by (intro div_nat_eqI) simp_all
  then show "bit x (bit_len x - 1)" by (simp add: bit_iff_odd m)
  show "\<not> bit x k" if "bit_len x \<le> k"
    using that bit_len_le [of x k] by (simp add: bit_iff_odd)
qed

lemma nextPowerOfTwo:
  assumes "1 < unat d" "unat d \<le> 2 ^ 32"
  shows "nextPowerOfTwo d = 2 ^ bit_len (unat d - 1)"
proof -
  define v where "v = d - 1"
  define m where "m = bit_len (unat d - 1)"
  have u: "unat v = unat d - 1" using assms(1) unfolding v_def by (intro unat_minus_one) auto
  then have p: "0 < unat v" and m: "m = bit_len (unat v)" using assms(1) by (simp_all add: m_def)
  have "m \<le> 32" using bit_len_le [of "unat v" 32] u assms(2) p by (simp add: m)
  define w1 w2 w4 w8 w16 where "w1 = v OR drop_bit 1 v" and "w2 = w1 OR drop_bit 2 w1" and "w4 = w2 OR drop_bit 4 w2"
    and "w8 = w4 OR drop_bit 8 w4" and "w16 = w8 OR drop_bit 16 w8"
  have b: "bit v k \<longleftrightarrow> (\<exists>t < 1. bit v (k + t))" for k by simp
  have "bit w1 k \<longleftrightarrow> (\<exists>t < 2. bit v (k + t))" for k unfolding w1_def using bit_smear [OF b] by simp
  then have "bit w2 k \<longleftrightarrow> (\<exists>t < 4. bit v (k + t))" for k unfolding w2_def using bit_smear [of w1 2 v k] by simp
  then have "bit w4 k \<longleftrightarrow> (\<exists>t < 8. bit v (k + t))" for k unfolding w4_def using bit_smear [of w2 4 v k] by simp
  then have "bit w8 k \<longleftrightarrow> (\<exists>t < 16. bit v (k + t))" for k unfolding w8_def using bit_smear [of w4 8 v k] by simp
  then have s: "bit w16 k \<longleftrightarrow> (\<exists>t < 32. bit v (k + t))" for k unfolding w16_def using bit_smear [of w8 16 v k] by simp
  have h: "bit v k \<longleftrightarrow> bit (unat v) k" for k by (simp add: bit_unsigned_iff)
  have "bit w16 k \<longleftrightarrow> k < m" for k
  proof
    assume "bit w16 k"
    then obtain t where "bit v (k + t)" unfolding s by blast
    then have "k + t < m" using highest_bit(2) [OF p, of "k + t"] unfolding h m by (meson not_le)
    then show "k < m" by simp
  next
    assume "k < m"
    then have "bit v (k + (m - 1 - k))" using highest_bit(1) [OF p] unfolding h m by simp
    moreover have "m - 1 - k < 32" using \<open>k < m\<close> \<open>m \<le> 32\<close> by simp
    ultimately show "bit w16 k" unfolding s by blast
  qed
  then have "w16 = mask m" using \<open>m \<le> 32\<close> by (intro bit_word_eqI) (auto simp: bit_simps)
  moreover have "nextPowerOfTwo d = w16 + 1" by (simp add: nextPowerOfTwo_def Let_def w16_def w8_def w4_def w2_def w1_def v_def)
  ultimately show ?thesis by (simp add: mask_eq_exp_minus_1 m_def)
qed

text \<open>The depth is the least one at which that many leaves fit.\<close>

lemma getDepth_bit_len:
  assumes "1 < n" "n \<le> 2 ^ 32"
  shows "getDepth (word_of_nat n) = bit_len (n - 1)"
proof -
  have n: "unat (word_of_nat n :: uint64) = n" using assms(2) by (simp add: unat_of_nat)
  define m where "m = bit_len (n - 1)"
  have m: "m \<le> 32" using bit_len_le [of "n - 1" 32] assms by (simp add: m_def)
  then have "(2 :: nat) ^ m < 2 ^ 64" by (intro power_strict_increasing) simp_all
  then have "unat (word_of_nat (2 ^ m) :: uint64) = 2 ^ m" by (simp only: unat_of_nat) simp
  then have "unat (2 ^ m :: uint64) = 2 ^ m" by simp
  moreover have "bit_len (2 ^ m) = Suc m"
    using bit_len_le [of "2 ^ m" m] bit_len_le [of "2 ^ m" "Suc m"] by simp
  moreover have "nextPowerOfTwo (word_of_nat n) = 2 ^ m" using nextPowerOfTwo [of "word_of_nat n"] n assms by (simp add: m_def)
  moreover have "\<not> (word_of_nat n :: uint64) \<le> 1" using n assms(1) by (simp add: word_le_nat_alt)
  ultimately have "getDepth (word_of_nat n) = m" using m by (simp add: getDepth_def LeadingZeros_def)
  then show ?thesis by (simp only: m_def)
qed

lemma getDepth_small: "n \<le> 1 \<Longrightarrow> getDepth (word_of_nat n) = 0"
  by (cases n) (auto simp: getDepth_def)

lemma getDepth_le:
  assumes "n \<le> 2 ^ 32"
  shows "getDepth (word_of_nat n) \<le> k \<longleftrightarrow> n \<le> 2 ^ k"
proof (cases "n \<le> 1")
  case True
  then have "n \<le> 2 ^ k" by (rule order_trans) simp
  then show ?thesis using getDepth_small [OF True] by simp
next
  case False
  then show ?thesis using getDepth_bit_len [of n] assms bit_len_le [of "n - 1" k] by auto
qed

subsection \<open>The tree\<close>

text \<open>The root of the complete binary tree of depth \<open>d\<close> over the given leaves, followed by zero leaves.\<close>

primrec troot :: "(bytes \<Rightarrow> bytes) \<Rightarrow> nat \<Rightarrow> bytes list \<Rightarrow> bytes" where
  "troot sha 0 xs = (case xs of [] \<Rightarrow> zeroBytes | x # _ \<Rightarrow> x)"
| "troot sha (Suc d) xs = sha (troot sha d xs @ troot sha d (drop (2 ^ d) xs))"

lemma troot_Nil: "troot sha d [] = zeroHashes sha d"
  by (induction d) simp_all

lemma troot_pad: "length xs \<le> 2 ^ d \<Longrightarrow> troot sha (Suc d) xs = sha (troot sha d xs @ zeroHashes sha d)"
  by (simp add: troot_Nil)

lemma troot_grow:
  assumes "d \<le> e" "length xs \<le> 2 ^ d"
  shows "fold (\<lambda>j res. sha (res @ zeroHashes sha j)) [d..<e] (troot sha d xs) = troot sha e xs"
  using assms(1)
proof (induction e rule: dec_induct)
  case (step e)
  have "length xs \<le> 2 ^ e" using assms(2) power_increasing [OF step.hyps(1), of "2 :: nat"] by linarith
  then show ?case using step troot_pad [of xs e sha] by simp
qed simp

text \<open>
  The bits of \<open>i\<close> say which subtrees of the first \<open>i\<close> leaves are complete: for every bit \<open>j\<close> that is set, \<open>tmp\<close> holds the root of
  \<open>2 ^ j\<close> leaves, which begin where the higher bits end.
\<close>

definition counter_inv :: "(bytes \<Rightarrow> bytes) \<Rightarrow> bytes list \<Rightarrow> nat \<Rightarrow> nat \<Rightarrow> bytes list \<Rightarrow> bool" where
  "counter_inv sha L depth i tmp \<longleftrightarrow> length tmp = Suc depth \<and>
     (\<forall>j. bit i j \<longrightarrow> tmp ! j = troot sha j (drop (2 ^ Suc j * (i div 2 ^ Suc j)) L))"

lemma block_start:
  "bit (i :: nat) j \<Longrightarrow> 2 ^ j * (i div 2 ^ j) = 2 ^ Suc j * (i div 2 ^ Suc j) + 2 ^ j"
  "\<not> bit i j \<Longrightarrow> 2 ^ j * (i div 2 ^ j) = 2 ^ Suc j * (i div 2 ^ Suc j)"
proof -
  have d: "i div 2 ^ Suc j = i div 2 ^ j div 2" unfolding power_Suc2 by (rule div_mult2_eq)
  show "2 ^ j * (i div 2 ^ j) = 2 ^ Suc j * (i div 2 ^ Suc j) + 2 ^ j" if "bit i j"
  proof -
    have "i div 2 ^ j = 2 * (i div 2 ^ j div 2) + 1" using that by (simp add: bit_iff_odd)
    then have "2 ^ j * (i div 2 ^ j) = 2 ^ j * (2 * (i div 2 ^ j div 2) + 1)" by simp
    then show ?thesis unfolding d by (simp add: algebra_simps)
  qed
  show "2 ^ j * (i div 2 ^ j) = 2 ^ Suc j * (i div 2 ^ Suc j)" if "\<not> bit i j"
  proof -
    have "i div 2 ^ j = 2 * (i div 2 ^ j div 2)" using that by (simp add: bit_iff_odd)
    then have "2 ^ j * (i div 2 ^ j) = 2 ^ j * (2 * (i div 2 ^ j div 2))" by simp
    then show ?thesis unfolding d by (simp add: algebra_simps)
  qed
qed

lemma join_right:
  assumes "bit i j" "hh = troot sha j (drop (2 ^ j * (i div 2 ^ j)) L)" "x = troot sha j (drop (2 ^ Suc j * (i div 2 ^ Suc j)) L)"
  shows "sha (x @ hh) = troot sha (Suc j) (drop (2 ^ Suc j * (i div 2 ^ Suc j)) L)"
  unfolding assms(2,3) block_start(1) [OF assms(1)] by (simp add: add.commute)

text \<open>Counting one leaf further: the bits below \<open>j\<close> are set, bit \<open>j\<close> is not.\<close>

lemma carry:
  assumes "\<And>k. k < j \<Longrightarrow> bit (i :: nat) k" "\<not> bit i j"
  shows "bit (Suc i) j" "k < j \<Longrightarrow> \<not> bit (Suc i) k" "j < k \<Longrightarrow> bit (Suc i) k \<longleftrightarrow> bit i k" "j \<le> k \<Longrightarrow> Suc i div 2 ^ Suc k = i div 2 ^ Suc k"
proof -
  have ones: "i mod 2 ^ n = 2 ^ n - 1" if "n \<le> j" for n
    using that
  proof (induction n)
    case (Suc n)
    then have "bit i n" "i mod 2 ^ n = 2 ^ n - 1" using assms(1) [of n] by simp_all
    then have "i mod 2 ^ Suc n = 2 ^ n + (2 ^ n - 1)"
      unfolding power_Suc2 mod_mult2_eq by (simp add: bit_iff_odd odd_iff_mod_2_eq_one)
    then show ?case by (simp add: mult_2)
  qed simp
  define q where "q = i div 2 ^ Suc j"
  have "i mod 2 ^ Suc j = 2 ^ j - 1"
    unfolding power_Suc2 mod_mult2_eq using ones [of j] assms(2) by (simp add: bit_iff_odd even_iff_mod_2_eq_zero)
  then have i: "i = 2 ^ Suc j * q + (2 ^ j - 1)" using mult_div_mod_eq [of "2 ^ Suc j" i] by (simp add: q_def)
  moreover have one: "1 \<le> (2 :: nat) ^ j" by simp
  ultimately have s: "Suc i = 2 ^ Suc j * q + 2 ^ j" by linarith
  show "bit (Suc i) j"
  proof -
    have "Suc i = 2 ^ j * (2 * q + 1)" unfolding s by (simp add: algebra_simps)
    then have "Suc i div 2 ^ j = 2 * q + 1" by simp
    then show ?thesis by (simp add: bit_iff_odd)
  qed
  show "\<not> bit (Suc i) k" if kj: "k < j"
  proof -
    obtain n where "j = Suc (k + n)" using kj less_iff_Suc_add [of k j] by blast
    then have n: "j = Suc k + n" by simp
    have "Suc i = 2 ^ k * (2 * (2 ^ n * (2 * q + 1)))" unfolding s n by (simp add: power_add algebra_simps)
    then have "Suc i div 2 ^ k = 2 * (2 ^ n * (2 * q + 1))" by simp
    then show ?thesis by (simp add: bit_iff_odd)
  qed
  show d: "Suc i div 2 ^ Suc k = i div 2 ^ Suc k" if jk: "j \<le> k" for k
  proof -
    obtain n where "k = j + n" using le_Suc_ex [OF jk] by blast
    then have n: "Suc k = Suc j + n" by simp
    have lt: "2 ^ j < (2 :: nat) ^ Suc j" by simp
    have "Suc i div 2 ^ Suc j = q" unfolding s using lt by (simp add: div_mult_self_is_m)
    moreover have "i div 2 ^ Suc j = q" by (simp add: q_def)
    ultimately show ?thesis unfolding n power_add by (simp only: div_mult2_eq)
  qed
  show "bit (Suc i) k \<longleftrightarrow> bit i k" if "j < k"
    using d [of "k - 1"] that by (simp add: bit_iff_odd)
qed

lemma merge_leaf:
  assumes "counter_inv sha L depth i tmp" "i < cnt" "cnt \<le> 2 ^ depth" "hh = troot sha j (drop (2 ^ j * (i div 2 ^ j)) L)" "\<And>k. k < j \<Longrightarrow> bit i k"
  shows "counter_inv sha L depth (Suc i) (merge_up sha cnt depth i j hh tmp)"
  using assms
proof (induction sha cnt depth i j hh tmp rule: merge_up.induct)
  case (1 sha cnt depth i j hh tmp)
  show ?case
  proof (cases "bit i j")
    case True
    have "tmp ! j = troot sha j (drop (2 ^ Suc j * (i div 2 ^ Suc j)) L)" using "1.prems"(1) True by (simp only: counter_inv_def)
    then have hh: "sha (tmp ! j @ hh) = troot sha (Suc j) (drop (2 ^ Suc j * (i div 2 ^ Suc j)) L)"
      by (rule join_right [OF True "1.prems"(4)])
    have "counter_inv sha L depth (Suc i) (merge_up sha cnt depth i (Suc j) (sha (tmp ! j @ hh)) tmp)"
      using True "1.prems"(5) less_Suc_eq [of _ j] by (intro "1.IH"(2) "1.prems"(1-3) hh) auto
    then show ?thesis using True by (simp add: merge_up.simps)
  next
    case False
    note c = carry [OF "1.prems"(5) False]
    have "2 ^ j \<le> Suc i" using c(1) by (metis bit_iff_odd div_less even_zero not_le)
    then have "(2 :: nat) ^ j \<le> 2 ^ depth" using "1.prems"(2,3) by linarith
    then have j: "j \<le> depth" by (rule power_le_imp_le_exp [rotated]) simp
    have "(tmp[j := hh]) ! k = troot sha k (drop (2 ^ Suc k * (Suc i div 2 ^ Suc k)) L)" if k: "bit (Suc i) k" for k
    proof (cases k j rule: linorder_cases)
      case less
      then show ?thesis using c(2) k by blast
    next
      case equal
      have "hh = troot sha j (drop (2 ^ Suc j * (i div 2 ^ Suc j)) L)" using "1.prems"(4) block_start(2) [OF False] by simp
      moreover have "(tmp[j := hh]) ! j = hh" using j "1.prems"(1) by (simp add: counter_inv_def)
      ultimately show ?thesis using c(4) [of j] by (simp only: equal order_refl)
    next
      case greater
      then have "bit i k" "Suc i div 2 ^ Suc k = i div 2 ^ Suc k" using c(3,4) k by auto
      moreover have "(tmp[j := hh]) ! k = tmp ! k" using greater by simp
      ultimately show ?thesis using "1.prems"(1) by (simp only: counter_inv_def)
    qed
    then have "counter_inv sha L depth (Suc i) (tmp[j := hh])" using "1.prems"(1) by (simp add: counter_inv_def)
    then show ?thesis using False "1.prems"(2) by (simp add: merge_up.simps)
  qed
qed

text \<open>Completing the tree with zero leaves.\<close>

lemma merge_rest:
  assumes "counter_inv sha L depth cnt tmp" "cnt < 2 ^ depth" "length L = cnt" "j \<le> depth" "hh = troot sha j (drop (2 ^ j * (cnt div 2 ^ j)) L)"
  shows "merge_up sha cnt depth cnt j hh tmp ! depth = troot sha depth L"
  using assms
proof (induction "depth - j" arbitrary: j hh)
  case 0
  then have j: "j = depth" by simp
  have "\<not> bit cnt j" using 0 by (simp add: bit_iff_odd)
  moreover have "hh = troot sha depth L" using 0 by simp
  ultimately show ?case using 0 by (simp add: merge_up.simps counter_inv_def)
next
  case (Suc n)
  then have j: "j < depth" by simp
  let ?D = "drop (2 ^ Suc j * (cnt div 2 ^ Suc j)) L"
  have IH: "merge_up sha cnt depth cnt (Suc j) x tmp ! depth = troot sha depth L" if "x = troot sha (Suc j) ?D" for x
    using Suc.hyps j by (intro Suc.hyps(1) Suc.prems(1-3) that) simp_all
  show ?case
  proof (cases "bit cnt j")
    case True
    have "tmp ! j = troot sha j ?D" using Suc.prems(1) True by (simp only: counter_inv_def)
    then show ?thesis using IH [OF join_right [OF True Suc.prems(5)]] True by (simp add: merge_up.simps [of sha cnt depth cnt j])
  next
    case False
    have e: "2 ^ j * (cnt div 2 ^ j) = 2 ^ Suc j * (cnt div 2 ^ Suc j)" by (rule block_start(2) [OF False])
    have "cnt - 2 ^ j * (cnt div 2 ^ j) \<le> 2 ^ j" using mod_less_divisor [of "2 ^ j" cnt] by (simp add: minus_mult_div_eq_mod)
    then have "length ?D \<le> 2 ^ j" using Suc.prems(3) unfolding e by simp
    then have "sha (hh @ zeroHashes sha j) = troot sha (Suc j) ?D" unfolding Suc.prems(5) e by (rule troot_pad [symmetric])
    then show ?thesis using IH False j by (simp add: merge_up.simps [of sha cnt depth cnt j])
  qed
qed

lemma merge_leaves:
  assumes "n \<le> length L" "length L \<le> 2 ^ depth" "\<And>i. i < length L \<Longrightarrow> f i = L ! i"
  shows "counter_inv sha L depth n (fold (\<lambda>i. merge_up sha (length L) depth i 0 (f i)) [0..<n] (replicate (depth + 1) zeroBytes))"
  using assms(1)
proof (induction n)
  case (Suc n)
  have "f n = troot sha 0 (drop (2 ^ 0 * (n div 2 ^ 0)) L)"
    using Suc.prems assms(3) [of n] by (simp add: Cons_nth_drop_Suc [symmetric])
  moreover have "counter_inv sha L depth n (fold (\<lambda>i. merge_up sha (length L) depth i 0 (f i)) [0..<n] (replicate (depth + 1) zeroBytes))"
    using Suc by simp
  ultimately have "counter_inv sha L depth (Suc n) (merge_up sha (length L) depth n 0 (f n)
      (fold (\<lambda>i. merge_up sha (length L) depth i 0 (f i)) [0..<n] (replicate (depth + 1) zeroBytes)))"
    using Suc.prems assms(2) by (intro merge_leaf) simp_all
  then show ?case by simp
qed (simp add: counter_inv_def)

definition chunks :: "bytes \<Rightarrow> bytes list" where
  "chunks input = map (chunk_at input) [0..<length input div 32]"

lemma length_chunks [simp]: "length (chunks input) = length input div 32"
  by (simp add: chunks_def)

lemma merkleize_depth:
  assumes "limit \<noteq> 0 \<Longrightarrow> length input div 32 \<le> limit" "n = (if limit = 0 then length input div 32 else limit)" "n \<le> 2 ^ 32"
  shows "merkleizeImpl sha input limit = Inr (troot sha (getDepth (word_of_nat n)) (chunks input))"
proof -
  let ?L = "chunks input" and ?c = "length input div 32"
  have c: "?c \<le> n" using assms(1,2) by (simp split: if_splits)
  consider "n = 0" | "n = 1" | "n > 1" by linarith
  then show ?thesis
  proof cases
    case 1
    then have "?L = []" using c by (simp add: chunks_def)
    then show ?thesis using 1 c assms(2) getDepth_small [of n] by (simp add: merkleizeImpl_def split: if_splits)
  next
    case 2
    then have "?c = 0 \<or> ?c = 1" using c by linarith
    then show ?thesis using 2 c assms getDepth_small [of n] by (auto simp: merkleizeImpl_def chunks_def chunk_at_def Let_def split: if_splits)
  next
    case 3
    define d where "d = getDepth (word_of_nat ?c)"
    define tmp where "tmp = fold (\<lambda>i. merge_up sha ?c d i 0 (chunk_at input i)) [0..<?c] (replicate (d + 1) zeroBytes)"
    have d: "?c \<le> 2 ^ d" using getDepth_le [of ?c d] c assms(3) by (simp add: d_def)
    have "chunk_at input i = ?L ! i" if "i < ?c" for i using that by (simp add: chunks_def)
    then have inv: "counter_inv sha ?L d ?c tmp"
      using merge_leaves [of ?c ?L d "chunk_at input" sha] d by (simp add: tmp_def)
    have "(if 2 ^ d \<noteq> ?c then merge_up sha ?c d ?c 0 (zeroHashes sha 0) tmp else tmp) ! d = troot sha d ?L"
    proof (cases "2 ^ d = ?c")
      case True
      then have "bit ?c d" by (metis bit_iff_odd div_self odd_one power_not_zero zero_neq_numeral)
      then have "tmp ! d = troot sha d (drop (2 ^ Suc d * (?c div 2 ^ Suc d)) ?L)" using inv by (simp only: counter_inv_def)
      moreover have "?c div 2 ^ Suc d = 0" unfolding True [symmetric] by simp
      ultimately show ?thesis using True by simp
    next
      case False
      then have "?c < 2 ^ d" using d by simp
      then show ?thesis using False merge_rest [OF inv, of 0 "zeroHashes sha 0"] by simp
    qed
    moreover have "d \<le> getDepth (word_of_nat n)" using getDepth_le [of ?c "getDepth (word_of_nat n)"] getDepth_le [of n "getDepth (word_of_nat n)"] c assms(3)
      by (simp add: d_def)
    moreover have "\<not> (limit \<noteq> 0 \<and> ?c > limit)" "n \<noteq> 0" "n \<noteq> 1" using 3 assms(1) by auto
    then have "merkleizeImpl sha input limit = Inr (fold (\<lambda>j res. sha (res @ zeroHashes sha j)) [d..<getDepth (word_of_nat n)]
        ((if 2 ^ d \<noteq> ?c then merge_up sha ?c d ?c 0 (zeroHashes sha 0) tmp else tmp) ! d))"
      unfolding merkleizeImpl_def Let_def assms(2) [symmetric] d_def [symmetric] tmp_def [symmetric] by (simp only: if_False)
    ultimately show ?thesis using troot_grow [of d _ ?L sha] d by (simp only: length_chunks)
  qed
qed

text \<open>
  C23. The iterative Merkle routine is the tree.  Whatever hash function is used, \<open>merkleizeImpl\<close> returns the root of the complete binary tree
  whose leaves are the 32-byte chunks of its input, in order, followed by zero chunks up to the least power of two that is not
  below the limit (or the number of chunks, without a limit); it panics exactly when there are more chunks than the limit allows.
\<close>

theorem merkleize_tree:
  assumes "n = (if limit = 0 then length input div 32 else limit)" "n \<le> 2 ^ d" "d = 0 \<or> 2 ^ (d - 1) < n" "d \<le> 32"
  shows "merkleizeImpl sha input limit =
    (if n < length input div 32 then Inl (Panic ''BUG: count higher than limit'') else Inr (troot sha d (chunks input)))"
proof -
  have "(2 :: nat) ^ d \<le> 2 ^ 32" using assms(4) by (rule power_increasing) simp
  then have n: "n \<le> 2 ^ 32" using assms(2) by (rule order_trans [rotated])
  have "getDepth (word_of_nat n) = d"
  proof (rule antisym)
    show "getDepth (word_of_nat n) \<le> d" using getDepth_le [OF n] assms(2) by blast
    show "d \<le> getDepth (word_of_nat n)"
    proof (cases d)
      case (Suc m)
      then have "\<not> n \<le> 2 ^ m" using assms(3) by simp
      then have "\<not> getDepth (word_of_nat n) \<le> m" using getDepth_le [OF n] by blast
      then show ?thesis using Suc by simp
    qed simp
  qed
  then show ?thesis
    using merkleize_depth [of limit input n sha] assms(1) n by (auto simp: merkleizeImpl_def Let_def split: if_splits)
qed

text \<open>Three chunks under a hash that keeps the ends of its input, with room for five.\<close>

theorem merkleize_tree_witness:
  "merkleizeImpl (\<lambda>b. take 16 b @ drop (length b - 16) b) (concat (map (replicate 32) [1, 2, 3])) 5
    = Inr (replicate 16 1 @ replicate 16 0)"
  using merkleize_tree [of 5 5 "concat (map (replicate 32) [1, 2, 3])" 3 "\<lambda>b. take 16 b @ drop (length b - 16) b"]
  by (simp add: chunks_def chunk_at_def numeral_3_eq_3)

subsection \<open>Tree hashes of the messages (types.pb\_encoding.go)\<close>

text \<open>
  The four ways in which a field enters the hasher: bytes of a fixed length, bytes up to a limit, a sequence of objects up to a
  limit, and an object by its own \<open>HashTreeRootWith\<close>.
\<close>

definition put_field :: "(bytes \<Rightarrow> bytes) \<Rightarrow> string \<Rightarrow> nat \<Rightarrow> bytes \<Rightarrow> bytes \<Rightarrow> error + bytes" where
  "put_field sha nm n v h = (if length v \<noteq> n then Inl (ErrBytesLengthFn nm (length v) n) else PutBytes sha v h)"

definition put_bounded :: "(bytes \<Rightarrow> bytes) \<Rightarrow> nat \<Rightarrow> bytes \<Rightarrow> bytes \<Rightarrow> error + bytes" where
  "put_bounded sha n v h = (let elemIndx = length h; byteLen = length v in
     if byteLen > n then Inl ErrIncorrectListSize
     else ebind (PutBytes sha v h) (MerkleizeWithMixin sha elemIndx byteLen ((n + 31) div 32)))"

fun put_each :: "('a \<Rightarrow> bytes \<Rightarrow> error + bytes) \<Rightarrow> 'a list \<Rightarrow> bytes \<Rightarrow> error + bytes" where
  "put_each f [] h = Inr h"
| "put_each f (x # xs) h = ebind (f x h) (put_each f xs)"

definition put_objects :: "(bytes \<Rightarrow> bytes) \<Rightarrow> ('a \<Rightarrow> bytes \<Rightarrow> error + bytes) \<Rightarrow> nat \<Rightarrow> 'a list \<Rightarrow> bytes \<Rightarrow> error + bytes" where
  "put_objects sha f n xs h = (let subIndx = length h; num = length xs in
     if num > n then Inl ErrIncorrectListSize
     else ebind (put_each f xs h) (MerkleizeWithMixin sha subIndx num n))"

definition Sign_HashTreeRootWith :: "(bytes \<Rightarrow> bytes) \<Rightarrow> Sign \<Rightarrow> bytes \<Rightarrow> error + bytes" where
  "Sign_HashTreeRootWith sha s h = (let indx = length h in
     ebind (put_field sha ''Sign.Address'' 20 (sg_Address s) h) (\<lambda>h.
     ebind (put_field sha ''Sign.Signature'' 65 (sg_Signature s) h) (Merkleize sha indx)))"

definition TxInput_HashTreeRootWith :: "(bytes \<Rightarrow> bytes) \<Rightarrow> TxInput \<Rightarrow> bytes \<Rightarrow> error + bytes" where
  "TxInput_HashTreeRootWith sha t h = (let indx = length h in
     ebind (put_field sha ''TxInput.Hash'' 32 (ti_Hash t) h) (\<lambda>h.
     let h = PutUint32 h (ti_Index t) in
     ebind (put_field sha ''TxInput.Address'' 20 (ti_Address t) h) (\<lambda>h.
     let h = PutUint64 h (ti_Amount t) in
     ebind (put_bounded sha 20 (ti_Node t) h) (Merkleize sha indx))))"

definition TxOutput_HashTreeRootWith :: "(bytes \<Rightarrow> bytes) \<Rightarrow> TxOutput \<Rightarrow> bytes \<Rightarrow> error + bytes" where
  "TxOutput_HashTreeRootWith sha t h = (let indx = length h in
     ebind (put_field sha ''TxOutput.Address'' 20 (to_Address t) h) (\<lambda>h.
     let h = PutUint64 h (to_Amount t) in
     ebind (put_bounded sha 20 (to_Node t) h) (Merkleize sha indx)))"

definition Transaction_HashTreeRootWith :: "(bytes \<Rightarrow> bytes) \<Rightarrow> PbTransaction \<Rightarrow> bytes \<Rightarrow> error + bytes" where
  "Transaction_HashTreeRootWith sha t h = (let indx = length h;
       h = PutUint64 h (pt_Num t); h = PutUint32 h (pt_Type t); h = PutUint64 h (pt_Timestamp t) in
     ebind (put_field sha ''Transaction.Hash'' 32 (pt_Hash t) h) (\<lambda>h.
     let h = PutUint64 h (pt_Fee t) in
     ebind (put_bounded sha 1000000 (pt_Data t) h) (\<lambda>h.
     ebind (put_objects sha (TxInput_HashTreeRootWith sha) 2000 (pt_Inputs t) h) (\<lambda>h.
     ebind (put_objects sha (TxOutput_HashTreeRootWith sha) 2000 (pt_Outputs t) h) (\<lambda>h.
     ebind (put_field sha ''Transaction.Signature'' 65 (pt_Signature t) h) (\<lambda>h.
     let h = PutUint32 h (pt_Status t) in Merkleize sha indx h))))))"

definition Block_HashTreeRootWith :: "(bytes \<Rightarrow> bytes) \<Rightarrow> Block \<Rightarrow> bytes \<Rightarrow> error + bytes" where
  "Block_HashTreeRootWith sha b h = (let indx = length h; h = PutUint64 h (bk_Num b); h = PutUint64 h (bk_Slot b) in
     ebind (put_field sha ''Block.Version'' 3 (bk_Version b) h) (\<lambda>h.
     ebind (put_field sha ''Block.Hash'' 32 (bk_Hash b) h) (\<lambda>h.
     ebind (put_field sha ''Block.Parent'' 32 (bk_Parent b) h) (\<lambda>h.
     let h = PutUint64 h (bk_Timestamp b) in
     ebind (put_field sha ''Block.Txroot'' 32 (bk_Txroot b) h) (\<lambda>h.
     ebind (Sign_HashTreeRootWith sha (bk_Proposer b) h) (\<lambda>h.
     ebind (put_objects sha (Sign_HashTreeRootWith sha) 128 (bk_Approvers b) h) (\<lambda>h.
     ebind (put_objects sha (Sign_HashTreeRootWith sha) 128 (bk_Slashers b) h) (\<lambda>h.
     ebind (put_objects sha (Transaction_HashTreeRootWith sha) 1500 (bk_Transactions b) h) (Merkleize sha indx)))))))))"

definition TxInput_HashTreeRoot :: "(bytes \<Rightarrow> bytes) \<Rightarrow> TxInput \<Rightarrow> error + bytes" where
  "TxInput_HashTreeRoot sha = HashWithDefaultHasher (TxInput_HashTreeRootWith sha)"

definition TxOutput_HashTreeRoot :: "(bytes \<Rightarrow> bytes) \<Rightarrow> TxOutput \<Rightarrow> error + bytes" where
  "TxOutput_HashTreeRoot sha = HashWithDefaultHasher (TxOutput_HashTreeRootWith sha)"

definition Transaction_HashTreeRoot :: "(bytes \<Rightarrow> bytes) \<Rightarrow> PbTransaction \<Rightarrow> error + bytes" where
  "Transaction_HashTreeRoot sha = HashWithDefaultHasher (Transaction_HashTreeRootWith sha)"

definition Block_HashTreeRoot :: "(bytes \<Rightarrow> bytes) \<Rightarrow> Block \<Rightarrow> error + bytes" where
  "Block_HashTreeRoot sha = HashWithDefaultHasher (Block_HashTreeRootWith sha)"

subsection \<open>Roots as functions of the objects\<close>

definition sha_ok :: "(bytes \<Rightarrow> bytes) \<Rightarrow> bool" where
  "sha_ok sha \<longleftrightarrow> (\<forall>b. length (sha b) = 32)"

definition pad32 :: "bytes \<Rightarrow> bytes" where
  "pad32 b = AppendBytes32 [] b"

lemma AppendBytes32_pad: "AppendBytes32 h b = h @ pad32 b"
  by (simp add: pad32_def AppendBytes32_def Let_def)

lemma length_pad32: "length (pad32 b) = 32 * ((length b + 31) div 32)"
proof -
  define q r where "q = length b div 32" and "r = length b mod 32"
  have b: "length b = 32 * q + r" "r < 32" by (simp_all add: q_def r_def)
  then have "(length b + 31) div 32 = (if r = 0 then q else q + 1)" by (intro div_nat_eqI) (auto split: if_splits)
  then show ?thesis using b by (simp add: pad32_def AppendBytes32_def r_def [symmetric])
qed

lemma length_pad32_small: "0 < length b \<Longrightarrow> length b \<le> 32 \<Longrightarrow> length (pad32 b) = 32"
proof -
  assume "0 < length b" "length b \<le> 32"
  then have "(length b + 31) div 32 = 1" by (intro div_nat_eqI) (linarith, simp)
  then show ?thesis by (simp add: length_pad32)
qed

definition mroot :: "(bytes \<Rightarrow> bytes) \<Rightarrow> nat \<Rightarrow> bytes \<Rightarrow> bytes" where
  "mroot sha n g = troot sha (getDepth (word_of_nat n)) (chunks g)"

lemma length_troot: "sha_ok sha \<Longrightarrow> \<forall>x\<in>set xs. length x = 32 \<Longrightarrow> length (troot sha d xs) = 32"
  by (cases d) (auto simp: sha_ok_def split: list.split)

lemma length_zeroHashes: "sha_ok sha \<Longrightarrow> length (zeroHashes sha d) = 32"
  using length_troot [of sha "[]" d] by (simp add: troot_Nil)

lemma chunk_lengths: "\<forall>x\<in>set (chunks g). length x = 32"
proof
  fix x assume "x \<in> set (chunks g)"
  then obtain i where "i < length g div 32" "x = take 32 (drop (32 * i) g)" by (auto simp: chunks_def chunk_at_def)
  then show "length x = 32" by simp
qed

lemma length_mroot: "sha_ok sha \<Longrightarrow> length (mroot sha n g) = 32"
  by (simp add: mroot_def length_troot chunk_lengths)

lemma Merkleize_group: "length g div 32 \<le> 2 ^ 32 \<Longrightarrow> Merkleize sha (length h) (h @ g) = Inr (h @ mroot sha (length g div 32) g)"
  using merkleize_depth [of 0 g "length g div 32" sha] by (simp add: Merkleize_def mroot_def)

definition mixin :: "(bytes \<Rightarrow> bytes) \<Rightarrow> nat \<Rightarrow> nat \<Rightarrow> bytes \<Rightarrow> bytes" where
  "mixin sha num limit g = sha (mroot sha limit g @ le_nat 8 num @ replicate 24 0)"

lemma Mixin_group:
  "length g div 32 \<le> limit \<Longrightarrow> 0 < limit \<Longrightarrow> limit \<le> 2 ^ 32 \<Longrightarrow>
    MerkleizeWithMixin sha (length h) num limit (h @ g) = Inr (h @ mixin sha num limit g)"
  using merkleize_depth [of limit g limit sha] by (simp add: MerkleizeWithMixin_def mixin_def mroot_def)

definition bytes_root :: "(bytes \<Rightarrow> bytes) \<Rightarrow> bytes \<Rightarrow> bytes" where
  "bytes_root sha b = (if length b \<le> 32 then pad32 b else mroot sha (length (pad32 b) div 32) (pad32 b))"

lemma PutBytes_root: "length b \<le> 2 ^ 32 \<Longrightarrow> PutBytes sha b h = Inr (h @ bytes_root sha b)"
  using Merkleize_group [of "pad32 b" sha h] by (simp add: PutBytes_def bytes_root_def AppendBytes32_pad length_pad32)

lemma length_bytes_root: "sha_ok sha \<Longrightarrow> length (bytes_root sha b) = (if b = [] then 0 else 32)"
  using length_pad32_small [of b] by (auto simp: bytes_root_def length_mroot length_pad32)

lemma put_field_iff: "n \<le> 2 ^ 32 \<Longrightarrow> put_field sha nm n v h = Inr h' \<longleftrightarrow> length v = n \<and> h' = h @ bytes_root sha v"
  by (auto simp: put_field_def PutBytes_root)

definition bounded_root :: "(bytes \<Rightarrow> bytes) \<Rightarrow> nat \<Rightarrow> bytes \<Rightarrow> bytes" where
  "bounded_root sha n v = mixin sha (length v) ((n + 31) div 32) (bytes_root sha v)"

lemma put_bounded_iff:
  assumes "sha_ok sha" "0 < n" "n \<le> 2 ^ 32"
  shows "put_bounded sha n v h = Inr h' \<longleftrightarrow> length v \<le> n \<and> h' = h @ bounded_root sha n v"
proof -
  have p: "0 < (n + 31) div 32" using assms(2) by (simp add: div_greater_zero_iff)
  have "(n + 31) div 32 \<le> (2 ^ 32 + 31) div 32" using assms(3) by (intro div_le_mono) simp
  then have u: "(n + 31) div 32 \<le> 2 ^ 32" by simp
  have "length (bytes_root sha v) div 32 \<le> 1" using assms(1) by (simp add: length_bytes_root)
  then have l: "length (bytes_root sha v) div 32 \<le> (n + 31) div 32" using p by linarith
  show ?thesis using assms PutBytes_root [of v sha h] Mixin_group [OF l p u, of sha h] by (auto simp: put_bounded_def bounded_root_def Let_def)
qed

lemma length_bounded_root: "sha_ok sha \<Longrightarrow> length (bounded_root sha n v) = 32"
  by (simp add: bounded_root_def mixin_def sha_ok_def)

text \<open>Sequences of objects whose roots are known.\<close>

lemma put_each_iff:
  assumes "\<And>x h h'. f x h = Inr h' \<longleftrightarrow> ok x \<and> h' = h @ rt x"
  shows "put_each f xs h = Inr h' \<longleftrightarrow> (\<forall>x\<in>set xs. ok x) \<and> h' = h @ concat (map rt xs)"
  by (induction xs arbitrary: h) (auto simp: ebind_Inr assms)

definition objects_root :: "(bytes \<Rightarrow> bytes) \<Rightarrow> ('a \<Rightarrow> bytes) \<Rightarrow> nat \<Rightarrow> 'a list \<Rightarrow> bytes" where
  "objects_root sha rt n xs = mixin sha (length xs) n (concat (map rt xs))"

lemma length_concat_roots: "\<forall>x\<in>set xs. length (rt x) = 32 \<Longrightarrow> length (concat (map rt xs)) = 32 * length xs"
  by (induction xs) simp_all

lemma put_objects_iff:
  assumes "\<And>x h h'. f x h = Inr h' \<longleftrightarrow> ok x \<and> h' = h @ rt x" "\<And>x. ok x \<Longrightarrow> length (rt x) = 32" "0 < n" "n \<le> 2 ^ 32"
  shows "put_objects sha f n xs h = Inr h' \<longleftrightarrow> (length xs \<le> n \<and> (\<forall>x\<in>set xs. ok x)) \<and> h' = h @ objects_root sha rt n xs"
proof (cases "length xs \<le> n \<and> (\<forall>x\<in>set xs. ok x)")
  case True
  then have "put_each f xs h = Inr (h @ concat (map rt xs))" using put_each_iff [of f ok rt xs h "h @ concat (map rt xs)", OF assms(1)] by simp
  moreover have "length (concat (map rt xs)) div 32 \<le> n" using True assms(2) length_concat_roots [of xs rt] by simp
  ultimately have "put_objects sha f n xs h = Inr (h @ objects_root sha rt n xs)"
    using True Mixin_group [of "concat (map rt xs)" n sha h "length xs", OF _ assms(3,4)] by (simp add: put_objects_def objects_root_def Let_def)
  then show ?thesis using True by auto
next
  case False
  then show ?thesis using put_each_iff [of f ok rt xs h, OF assms(1)] by (auto simp: put_objects_def Let_def ebind_Inr)
qed

lemma length_objects_root: "sha_ok sha \<Longrightarrow> length (objects_root sha rt n xs) = 32"
  by (simp add: objects_root_def mixin_def sha_ok_def)

definition TxInput_root :: "(bytes \<Rightarrow> bytes) \<Rightarrow> TxInput \<Rightarrow> bytes" where
  "TxInput_root sha t = mroot sha 5 (bytes_root sha (ti_Hash t) @ pad32 (le_nat 4 (unat (ti_Index t))) @ bytes_root sha (ti_Address t)
     @ pad32 (le_nat 8 (unat (ti_Amount t))) @ bounded_root sha 20 (ti_Node t))"

definition TxOutput_root :: "(bytes \<Rightarrow> bytes) \<Rightarrow> TxOutput \<Rightarrow> bytes" where
  "TxOutput_root sha t = mroot sha 3 (bytes_root sha (to_Address t) @ pad32 (le_nat 8 (unat (to_Amount t))) @ bounded_root sha 20 (to_Node t))"

definition Sign_root :: "(bytes \<Rightarrow> bytes) \<Rightarrow> Sign \<Rightarrow> bytes" where
  "Sign_root sha s = mroot sha 2 (bytes_root sha (sg_Address s) @ bytes_root sha (sg_Signature s))"

lemma length_put_uint [simp]: "length (pad32 (le_nat 8 n)) = 32" "length (pad32 (le_nat 4 n)) = 32"
  by (simp_all add: length_pad32_small)

lemmas put_simps = PutUint64_def PutUint32_def AppendBytes32_pad ebind_Inr put_field_iff put_bounded_iff Let_def

lemma TxInput_root_iff:
  assumes "sha_ok sha"
  shows "TxInput_HashTreeRootWith sha t h = Inr h' \<longleftrightarrow>
    (length (ti_Hash t) = 32 \<and> length (ti_Address t) = 20 \<and> length (ti_Node t) \<le> 20) \<and> h' = h @ TxInput_root sha t"
proof -
  let ?g = "bytes_root sha (ti_Hash t) @ pad32 (le_nat 4 (unat (ti_Index t))) @ bytes_root sha (ti_Address t)
     @ pad32 (le_nat 8 (unat (ti_Amount t))) @ bounded_root sha 20 (ti_Node t)"
  have "length ?g div 32 = 5" if "length (ti_Hash t) = 32" "length (ti_Address t) = 20"
    using that assms length_bytes_root [OF assms] by (auto simp: length_bounded_root)
  then show ?thesis
    using assms Merkleize_group [of ?g sha h] by (auto simp: TxInput_HashTreeRootWith_def put_simps TxInput_root_def)
qed

lemma TxOutput_root_iff:
  assumes "sha_ok sha"
  shows "TxOutput_HashTreeRootWith sha t h = Inr h' \<longleftrightarrow> (length (to_Address t) = 20 \<and> length (to_Node t) \<le> 20) \<and> h' = h @ TxOutput_root sha t"
proof -
  let ?g = "bytes_root sha (to_Address t) @ pad32 (le_nat 8 (unat (to_Amount t))) @ bounded_root sha 20 (to_Node t)"
  have "length ?g div 32 = 3" if "length (to_Address t) = 20"
    using that assms length_bytes_root [OF assms] by (auto simp: length_bounded_root)
  then show ?thesis
    using assms Merkleize_group [of ?g sha h] by (auto simp: TxOutput_HashTreeRootWith_def put_simps TxOutput_root_def)
qed

lemma Sign_root_iff:
  assumes "sha_ok sha"
  shows "Sign_HashTreeRootWith sha s h = Inr h' \<longleftrightarrow> (length (sg_Address s) = 20 \<and> length (sg_Signature s) = 65) \<and> h' = h @ Sign_root sha s"
proof -
  let ?g = "bytes_root sha (sg_Address s) @ bytes_root sha (sg_Signature s)"
  have "length ?g div 32 = 2" if "length (sg_Address s) = 20" "length (sg_Signature s) = 65"
    using that assms length_bytes_root [OF assms] by auto
  then show ?thesis
    using assms Merkleize_group [of ?g sha h] by (auto simp: Sign_HashTreeRootWith_def put_simps Sign_root_def)
qed

lemma length_roots:
  assumes "sha_ok sha"
  shows "length (TxInput_root sha t) = 32" "length (TxOutput_root sha u) = 32" "length (Sign_root sha s) = 32"
  by (simp_all add: TxInput_root_def TxOutput_root_def Sign_root_def length_mroot assms)

lemma HashTreeRoot_iff:
  assumes "sha_ok sha"
  shows "TxInput_HashTreeRoot sha t = Inr r \<longleftrightarrow> (length (ti_Hash t) = 32 \<and> length (ti_Address t) = 20 \<and> length (ti_Node t) \<le> 20) \<and> r = TxInput_root sha t"
    "TxOutput_HashTreeRoot sha u = Inr r \<longleftrightarrow> (length (to_Address u) = 20 \<and> length (to_Node u) \<le> 20) \<and> r = TxOutput_root sha u"
  by (auto simp: TxInput_HashTreeRoot_def TxOutput_HashTreeRoot_def HashWithDefaultHasher_def HashRoot_def ebind_Inr TxInput_root_iff [OF assms]
      TxOutput_root_iff [OF assms] length_roots [OF assms])

definition Transaction_root :: "(bytes \<Rightarrow> bytes) \<Rightarrow> PbTransaction \<Rightarrow> bytes" where
  "Transaction_root sha t = mroot sha 10 (pad32 (le_nat 8 (unat (pt_Num t))) @ pad32 (le_nat 4 (unat (pt_Type t))) @ pad32 (le_nat 8 (unat (pt_Timestamp t)))
     @ bytes_root sha (pt_Hash t) @ pad32 (le_nat 8 (unat (pt_Fee t))) @ bounded_root sha 1000000 (pt_Data t)
     @ objects_root sha (TxInput_root sha) 2000 (pt_Inputs t) @ objects_root sha (TxOutput_root sha) 2000 (pt_Outputs t)
     @ bytes_root sha (pt_Signature t) @ pad32 (le_nat 4 (unat (pt_Status t))))"

definition Block_root :: "(bytes \<Rightarrow> bytes) \<Rightarrow> Block \<Rightarrow> bytes" where
  "Block_root sha b = mroot sha 11 (pad32 (le_nat 8 (unat (bk_Num b))) @ pad32 (le_nat 8 (unat (bk_Slot b))) @ bytes_root sha (bk_Version b)
     @ bytes_root sha (bk_Hash b) @ bytes_root sha (bk_Parent b) @ pad32 (le_nat 8 (unat (bk_Timestamp b))) @ bytes_root sha (bk_Txroot b)
     @ Sign_root sha (bk_Proposer b) @ objects_root sha (Sign_root sha) 128 (bk_Approvers b) @ objects_root sha (Sign_root sha) 128 (bk_Slashers b)
     @ objects_root sha (Transaction_root sha) 1500 (bk_Transactions b))"

definition tx_sizes :: "PbTransaction \<Rightarrow> bool" where
  "tx_sizes t \<longleftrightarrow> length (pt_Hash t) = 32 \<and> length (pt_Data t) \<le> 1000000 \<and> length (pt_Signature t) = 65 \<and> length (pt_Inputs t) \<le> 2000
     \<and> length (pt_Outputs t) \<le> 2000
     \<and> (\<forall>i\<in>set (pt_Inputs t). length (ti_Hash i) = 32 \<and> length (ti_Address i) = 20 \<and> length (ti_Node i) \<le> 20)
     \<and> (\<forall>u\<in>set (pt_Outputs t). length (to_Address u) = 20 \<and> length (to_Node u) \<le> 20)"

definition block_sizes :: "Block \<Rightarrow> bool" where
  "block_sizes b \<longleftrightarrow> length (bk_Version b) = 3 \<and> length (bk_Hash b) = 32 \<and> length (bk_Parent b) = 32 \<and> length (bk_Txroot b) = 32
     \<and> length (bk_Approvers b) \<le> 128 \<and> length (bk_Slashers b) \<le> 128 \<and> length (bk_Transactions b) \<le> 1500
     \<and> (\<forall>s\<in>{bk_Proposer b} \<union> set (bk_Approvers b) \<union> set (bk_Slashers b). length (sg_Address s) = 20 \<and> length (sg_Signature s) = 65)
     \<and> (\<forall>t\<in>set (bk_Transactions b). tx_sizes t)"

lemma Transaction_root_iff:
  assumes sha: "sha_ok sha"
  shows "Transaction_HashTreeRootWith sha t h = Inr h' \<longleftrightarrow> tx_sizes t \<and> h' = h @ Transaction_root sha t"
proof -
  let ?g = "pad32 (le_nat 8 (unat (pt_Num t))) @ pad32 (le_nat 4 (unat (pt_Type t))) @ pad32 (le_nat 8 (unat (pt_Timestamp t)))
     @ bytes_root sha (pt_Hash t) @ pad32 (le_nat 8 (unat (pt_Fee t))) @ bounded_root sha 1000000 (pt_Data t)
     @ objects_root sha (TxInput_root sha) 2000 (pt_Inputs t) @ objects_root sha (TxOutput_root sha) 2000 (pt_Outputs t)
     @ bytes_root sha (pt_Signature t) @ pad32 (le_nat 4 (unat (pt_Status t)))"
  have "length ?g div 32 = 10" if "length (pt_Hash t) = 32" "length (pt_Signature t) = 65"
    using that sha length_bytes_root [OF sha] by (auto simp: length_bounded_root length_objects_root)
  then have m: "Merkleize sha (length h) (h @ ?g) = Inr (h @ Transaction_root sha t)" if "length (pt_Hash t) = 32" "length (pt_Signature t) = 65"
    using that Merkleize_group [of ?g sha h] by (simp add: Transaction_root_def)
  note i = put_objects_iff [OF TxInput_root_iff [OF sha] length_roots(1) [OF sha], of 2000] and
    o = put_objects_iff [OF TxOutput_root_iff [OF sha] length_roots(2) [OF sha], of 2000]
  show ?thesis using m by (auto simp: Transaction_HashTreeRootWith_def put_simps i o sha tx_sizes_def)
qed

lemma Block_root_iff:
  assumes sha: "sha_ok sha"
  shows "Block_HashTreeRootWith sha b h = Inr h' \<longleftrightarrow> block_sizes b \<and> h' = h @ Block_root sha b"
proof -
  let ?g = "pad32 (le_nat 8 (unat (bk_Num b))) @ pad32 (le_nat 8 (unat (bk_Slot b))) @ bytes_root sha (bk_Version b)
     @ bytes_root sha (bk_Hash b) @ bytes_root sha (bk_Parent b) @ pad32 (le_nat 8 (unat (bk_Timestamp b))) @ bytes_root sha (bk_Txroot b)
     @ Sign_root sha (bk_Proposer b) @ objects_root sha (Sign_root sha) 128 (bk_Approvers b) @ objects_root sha (Sign_root sha) 128 (bk_Slashers b)
     @ objects_root sha (Transaction_root sha) 1500 (bk_Transactions b)"
  have "length ?g div 32 = 11" if "length (bk_Version b) = 3" "length (bk_Hash b) = 32" "length (bk_Parent b) = 32" "length (bk_Txroot b) = 32"
    using that sha length_bytes_root [OF sha] by (auto simp: length_objects_root length_roots)
  then have m: "Merkleize sha (length h) (h @ ?g) = Inr (h @ Block_root sha b)"
    if "length (bk_Version b) = 3" "length (bk_Hash b) = 32" "length (bk_Parent b) = 32" "length (bk_Txroot b) = 32"
    using that Merkleize_group [of ?g sha h] by (simp add: Block_root_def)
  have "length (Transaction_root sha t) = 32" for t by (simp add: Transaction_root_def length_mroot sha)
  note t = put_objects_iff [OF Transaction_root_iff [OF sha] this, of 1500] and
    s = put_objects_iff [OF Sign_root_iff [OF sha] length_roots(3) [OF sha], of 128]
  show ?thesis using m by (auto simp: Block_HashTreeRootWith_def put_simps t s Sign_root_iff sha block_sizes_def)
qed

lemma Block_HashTreeRoot_iff:
  assumes "sha_ok sha"
  shows "Block_HashTreeRoot sha b = Inr r \<longleftrightarrow> block_sizes b \<and> r = Block_root sha b"
    "Transaction_HashTreeRoot sha t = Inr r \<longleftrightarrow> tx_sizes t \<and> r = Transaction_root sha t"
  by (auto simp: Block_HashTreeRoot_def Transaction_HashTreeRoot_def HashWithDefaultHasher_def HashRoot_def ebind_Inr Block_root_iff [OF assms]
      Transaction_root_iff [OF assms] Block_root_def Transaction_root_def length_mroot [OF assms])

subsection \<open>Roots commit to their objects\<close>

text \<open>The strings that are hashed for a tree.\<close>

primrec tree_inputs :: "(bytes \<Rightarrow> bytes) \<Rightarrow> nat \<Rightarrow> bytes list \<Rightarrow> bytes set" where
  "tree_inputs sha 0 xs = {}"
| "tree_inputs sha (Suc d) xs = insert (troot sha d xs @ troot sha d (drop (2 ^ d) xs)) (tree_inputs sha d xs \<union> tree_inputs sha d (drop (2 ^ d) xs))"

lemma troot_inj:
  assumes "sha_ok sha"
  shows "inj_on sha (tree_inputs sha d xs \<union> tree_inputs sha d ys) \<Longrightarrow> \<forall>x\<in>set xs \<union> set ys. length x = 32 \<Longrightarrow> length xs = length ys \<Longrightarrow>
    troot sha d xs = troot sha d ys \<Longrightarrow> take (2 ^ d) xs = take (2 ^ d) ys"
proof (induction d arbitrary: xs ys)
  case 0
  then show ?case by (cases xs; cases ys) simp_all
next
  case (Suc d)
  let ?l = "\<lambda>xs. troot sha d xs" and ?r = "\<lambda>xs. troot sha d (drop (2 ^ d) xs)"
  have "?l xs @ ?r xs = ?l ys @ ?r ys" by (rule inj_onD [OF Suc.prems(1)]) (use Suc.prems(4) in simp_all)
  moreover have "length (?l xs) = length (?l ys)" using Suc.prems(2) assms by (simp add: length_troot)
  ultimately have e: "?l xs = ?l ys" "?r xs = ?r ys" by simp_all
  have i: "inj_on sha (tree_inputs sha d xs \<union> tree_inputs sha d ys)"
    "inj_on sha (tree_inputs sha d (drop (2 ^ d) xs) \<union> tree_inputs sha d (drop (2 ^ d) ys))"
    by (rule inj_on_subset [OF Suc.prems(1)]; auto)+
  have "take (2 ^ d) xs = take (2 ^ d) ys" by (rule Suc.IH [OF i(1) Suc.prems(2,3) e(1)])
  moreover have "take (2 ^ d) (drop (2 ^ d) xs) = take (2 ^ d) (drop (2 ^ d) ys)"
    by (rule Suc.IH [OF i(2) _ _ e(2)]) (use Suc.prems(2,3) in_set_dropD in \<open>fastforce+\<close>)
  ultimately show ?case by (simp add: mult_2 take_add)
qed

lemma concat_chunks: "length g = 32 * n \<Longrightarrow> concat (chunks g) = g"
proof (induction n arbitrary: g)
  case (Suc n)
  have "chunk_at g (Suc i) = chunk_at (drop 32 g) i" for i by (simp add: chunk_at_def add.commute)
  moreover have "length g div 32 = Suc n" "length (drop 32 g) div 32 = n" using Suc.prems by simp_all
  ultimately have "chunks g = take 32 g # chunks (drop 32 g)"
    by (simp add: chunks_def upt_conv_Cons map_Suc_upt [symmetric] chunk_at_def del: upt_Suc)
  then show ?case using Suc.IH [of "drop 32 g"] Suc.prems by simp
qed (simp add: chunks_def)

lemma mroot_inj:
  assumes "sha_ok sha" "inj_on sha (tree_inputs sha d (chunks g) \<union> tree_inputs sha d (chunks g'))" "getDepth (word_of_nat n) = d"
    and "length g = 32 * k" "length g' = 32 * k" "k \<le> 2 ^ d" "mroot sha n g = mroot sha n g'"
  shows "g = g'"
proof -
  have l: "\<forall>x\<in>set (chunks g) \<union> set (chunks g'). length x = 32" using chunk_lengths [of g] chunk_lengths [of g'] by blast
  have n: "length (chunks g) = length (chunks g')" by (simp only: length_chunks assms(4,5))
  have "troot sha d (chunks g) = troot sha d (chunks g')" using assms(7) by (simp only: mroot_def assms(3))
  then have t: "take (2 ^ d) (chunks g) = take (2 ^ d) (chunks g')" by (rule troot_inj [OF assms(1,2) l n])
  have k: "length (chunks g) = k" "length (chunks g') = k" unfolding length_chunks assms(4,5) by simp_all
  have "chunks g = take (2 ^ d) (chunks g)" by (rule take_all [symmetric]) (use k(1) assms(6) in linarith)
  also have "\<dots> = take (2 ^ d) (chunks g')" by (rule t)
  also have "\<dots> = chunks g'" by (rule take_all) (use k(2) assms(6) in linarith)
  finally have "concat (chunks g) = concat (chunks g')" by (rule arg_cong)
  then show ?thesis unfolding concat_chunks [OF assms(4)] concat_chunks [OF assms(5)] .
qed

text \<open>A byte sequence up to 20 bytes, as the field \<open>Node\<close> is.\<close>

definition node_input :: "(bytes \<Rightarrow> bytes) \<Rightarrow> bytes \<Rightarrow> bytes" where
  "node_input sha v = mroot sha 1 (bytes_root sha v) @ le_nat 8 (length v) @ replicate 24 0"

lemma le_nat_inj: "le_nat n x = le_nat n y \<Longrightarrow> x < 256 ^ n \<Longrightarrow> y < 256 ^ n \<Longrightarrow> x = y"
  by (metis nat_le_le_nat)

lemma pad32_take: "take (length b) (pad32 b) = b"
  by (simp add: pad32_def AppendBytes32_def Let_def)

lemma pad32_inj: "pad32 b = pad32 b' \<Longrightarrow> length b = length b' \<Longrightarrow> b = b'"
  by (metis pad32_take)

lemma node_root_inj:
  assumes "sha_ok sha" "inj_on sha {node_input sha v, node_input sha v'}" "length v \<le> 20" "length v' \<le> 20"
    and "bounded_root sha 20 v = bounded_root sha 20 v'"
  shows "v = v'"
proof -
  have "node_input sha v = node_input sha v'"
    by (rule inj_onD [OF assms(2)]) (use assms(5) in \<open>simp_all add: bounded_root_def mixin_def node_input_def\<close>)
  then have e: "mroot sha 1 (bytes_root sha v) = mroot sha 1 (bytes_root sha v')" "le_nat 8 (length v) = le_nat 8 (length v')"
    using length_mroot [OF assms(1)] by (simp_all add: node_input_def)
  have l: "length v = length v'" by (rule le_nat_inj [OF e(2)]) (use assms(3,4) in simp_all)
  show ?thesis
  proof (cases "v = []")
    case True
    then show ?thesis using l by simp
  next
    case False
    have "mroot sha 1 (bytes_root sha w) = pad32 w" if "w \<noteq> []" "length w \<le> 20" for w
    proof -
      have "length (pad32 w) = 32" using that by (intro length_pad32_small) simp_all
      then show ?thesis using that getDepth_small [of 1] by (simp add: mroot_def bytes_root_def chunks_def chunk_at_def)
    qed
    moreover have "v' \<noteq> []" using False l by auto
    ultimately have "pad32 v = pad32 v'" using e(1) False assms(3,4) by simp
    then show ?thesis using l by (rule pad32_inj)
  qed
qed

definition out_group :: "(bytes \<Rightarrow> bytes) \<Rightarrow> TxOutput \<Rightarrow> bytes" where
  "out_group sha t = bytes_root sha (to_Address t) @ pad32 (le_nat 8 (unat (to_Amount t))) @ bounded_root sha 20 (to_Node t)"

definition in_group :: "(bytes \<Rightarrow> bytes) \<Rightarrow> TxInput \<Rightarrow> bytes" where
  "in_group sha t = bytes_root sha (ti_Hash t) @ pad32 (le_nat 4 (unat (ti_Index t))) @ bytes_root sha (ti_Address t)
     @ pad32 (le_nat 8 (unat (ti_Amount t))) @ bounded_root sha 20 (ti_Node t)"

text \<open>The strings that are hashed for the root of an output and of an input.\<close>

definition out_hashed :: "(bytes \<Rightarrow> bytes) \<Rightarrow> TxOutput \<Rightarrow> bytes set" where
  "out_hashed sha t = insert (node_input sha (to_Node t)) (tree_inputs sha 2 (chunks (out_group sha t)))"

definition in_hashed :: "(bytes \<Rightarrow> bytes) \<Rightarrow> TxInput \<Rightarrow> bytes set" where
  "in_hashed sha t = insert (node_input sha (ti_Node t)) (tree_inputs sha 3 (chunks (in_group sha t)))"

lemma depths: "getDepth (word_of_nat 3) = 2" "getDepth (word_of_nat 5) = 3"
  using getDepth_le [of 3 2] getDepth_le [of 3 1] getDepth_le [of 5 3] getDepth_le [of 5 2] by simp_all

lemma uint_field_inj:
  "pad32 (le_nat 8 (unat (a :: uint64))) = pad32 (le_nat 8 (unat b)) \<Longrightarrow> a = b"
  "pad32 (le_nat 4 (unat (c :: uint32))) = pad32 (le_nat 4 (unat d)) \<Longrightarrow> c = d"
proof -
  assume "pad32 (le_nat 8 (unat a)) = pad32 (le_nat 8 (unat b))"
  then have "le_nat 8 (unat a) = le_nat 8 (unat b)" by (rule pad32_inj) simp
  then have "unat a = unat b" by (rule le_nat_inj) (use unat64_less [of a] unat64_less [of b] in simp_all)
  then show "a = b" by (simp only: word_unat_eq_iff)
next
  have u: "unat x < 2 ^ 32" for x :: uint32 using unsigned_less [of x] by simp
  assume "pad32 (le_nat 4 (unat c)) = pad32 (le_nat 4 (unat d))"
  then have "le_nat 4 (unat c) = le_nat 4 (unat d)" by (rule pad32_inj) simp
  then have "unat c = unat d" by (rule le_nat_inj) (use u [of c] u [of d] in simp_all)
  then show "c = d" by (simp only: word_unat_eq_iff)
qed

lemma bytes_root_inj: "length b = length b' \<Longrightarrow> length b \<le> 32 \<Longrightarrow> bytes_root sha b = bytes_root sha b' \<Longrightarrow> b = b'"
  by (rule pad32_inj) (simp_all add: bytes_root_def)

lemma TxOutput_root_inj:
  assumes sha: "sha_ok sha" and i: "inj_on sha (out_hashed sha t \<union> out_hashed sha u)" and r: "TxOutput_root sha t = TxOutput_root sha u"
    and t: "length (to_Address t) = 20" "length (to_Node t) \<le> 20" and u: "length (to_Address u) = 20" "length (to_Node u) \<le> 20"
  shows "t = u"
proof -
  have a: "length (bytes_root sha (to_Address t)) = 32" "length (bytes_root sha (to_Address u)) = 32"
    using t(1) u(1) length_bytes_root [OF sha] by auto
  have "out_group sha t = out_group sha u"
  proof (rule mroot_inj [OF sha _ depths(1), where k = 3])
    show "inj_on sha (tree_inputs sha 2 (chunks (out_group sha t)) \<union> tree_inputs sha 2 (chunks (out_group sha u)))"
      by (rule inj_on_subset [OF i]) (auto simp: out_hashed_def)
    show "mroot sha 3 (out_group sha t) = mroot sha 3 (out_group sha u)" using r by (simp only: TxOutput_root_def out_group_def)
  qed (use a sha in \<open>simp_all add: out_group_def length_bounded_root\<close>)
  then have "bytes_root sha (to_Address t) = bytes_root sha (to_Address u)" "to_Amount t = to_Amount u"
    "bounded_root sha 20 (to_Node t) = bounded_root sha 20 (to_Node u)"
    using a uint_field_inj(1) by (simp_all add: out_group_def)
  moreover have "inj_on sha {node_input sha (to_Node t), node_input sha (to_Node u)}" by (rule inj_on_subset [OF i]) (auto simp: out_hashed_def)
  ultimately have "to_Address t = to_Address u" "to_Amount t = to_Amount u" "to_Node t = to_Node u"
    using t u bytes_root_inj [of "to_Address t" "to_Address u" sha] node_root_inj [OF sha, of "to_Node t" "to_Node u"] by simp_all
  then show ?thesis by simp
qed

lemma TxInput_root_inj:
  assumes sha: "sha_ok sha" and i: "inj_on sha (in_hashed sha t \<union> in_hashed sha u)" and r: "TxInput_root sha t = TxInput_root sha u"
    and t: "length (ti_Hash t) = 32" "length (ti_Address t) = 20" "length (ti_Node t) \<le> 20"
    and u: "length (ti_Hash u) = 32" "length (ti_Address u) = 20" "length (ti_Node u) \<le> 20"
  shows "t = u"
proof -
  have a: "length (bytes_root sha (ti_Address t)) = 32" "length (bytes_root sha (ti_Address u)) = 32"
    "length (bytes_root sha (ti_Hash t)) = 32" "length (bytes_root sha (ti_Hash u)) = 32"
    using t(1,2) u(1,2) length_bytes_root [OF sha] by auto
  have "in_group sha t = in_group sha u"
  proof (rule mroot_inj [OF sha _ depths(2), where k = 5])
    show "inj_on sha (tree_inputs sha 3 (chunks (in_group sha t)) \<union> tree_inputs sha 3 (chunks (in_group sha u)))"
      by (rule inj_on_subset [OF i]) (auto simp: in_hashed_def)
    show "mroot sha 5 (in_group sha t) = mroot sha 5 (in_group sha u)" using r by (simp only: TxInput_root_def in_group_def)
  qed (use a sha in \<open>simp_all add: in_group_def length_bounded_root\<close>)
  then have "bytes_root sha (ti_Hash t) = bytes_root sha (ti_Hash u)" "ti_Index t = ti_Index u"
    "bytes_root sha (ti_Address t) = bytes_root sha (ti_Address u)" "ti_Amount t = ti_Amount u"
    "bounded_root sha 20 (ti_Node t) = bounded_root sha 20 (ti_Node u)"
    using a uint_field_inj by (simp_all add: in_group_def)
  moreover have "inj_on sha {node_input sha (ti_Node t), node_input sha (ti_Node u)}" by (rule inj_on_subset [OF i]) (auto simp: in_hashed_def)
  ultimately have "ti_Hash t = ti_Hash u" "ti_Index t = ti_Index u" "ti_Address t = ti_Address u" "ti_Amount t = ti_Amount u" "ti_Node t = ti_Node u"
    using t u bytes_root_inj [of "ti_Hash t" "ti_Hash u" sha] bytes_root_inj [of "ti_Address t" "ti_Address u" sha]
      node_root_inj [OF sha, of "ti_Node t" "ti_Node u"] by simp_all
  then show ?thesis by simp
qed

end
