(* ===== verification/Hashing.thy ===== *)
theory Hashing
  imports Roots
begin

section \<open>Hashes, Merkle roots, signatures and the construction of transactions and blocks\<close>

text \<open>
  Models \<^verbatim>\<open>src/utils/hash\<close> (hasher.go, merklee.go), \<^verbatim>\<open>src/shared/types\<close> (signer.go, block.go,
  seed.go and the constructors of transaction.go), \<^verbatim>\<open>src/validator/types/attestation.go\<close> and the
  few functions of \<^verbatim>\<open>src/shared/crypto\<close> that these use. Keccak-256, SHA-256 and the secp256k1
  primitives are third-party code: they are the fields of the
  parameter record \<open>crypto\<close>. A public key is represented by its uncompressed encoding.

  Shown: the Merkle loop never panics and commits to the list of transaction hashes; a
  transaction, block, attestation or seed that the node builds and signs passes the node's own
  verification; approvals and rejections are signed over different digests.
\<close>

record crypto =
  keccak :: "bytes \<Rightarrow> bytes"
  secp_sign :: "bytes \<Rightarrow> bytes \<Rightarrow> error + bytes"
  ecrecover :: "bytes \<Rightarrow> bytes \<Rightarrow> error + bytes"
  pubkey_of :: "bytes \<Rightarrow> bytes"
  sha256 :: "bytes \<Rightarrow> bytes"

abbreviation (input) SignatureLength :: nat where "SignatureLength \<equiv> 65"

subsection \<open>Merkle root (merklee.go)\<close>

definition EmptyTxRoot :: "crypto \<Rightarrow> bytes" where
  "EmptyTxRoot c = keccak c (map of_char ''empty-tx-body'')"

text \<open>One pass of the inner loop: neighbours are concatenated and hashed, an odd last node is hashed alone.\<close>

fun merklee_level :: "(bytes \<Rightarrow> bytes) \<Rightarrow> bytes list \<Rightarrow> bytes list" where
  "merklee_level k [] = []"
| "merklee_level k [x] = [k x]"
| "merklee_level k (x # y # r) = k (x @ y) # merklee_level k r"

fun merklee_loop :: "(bytes \<Rightarrow> bytes) \<Rightarrow> nat \<Rightarrow> bytes list \<Rightarrow> bytes list" where
  "merklee_loop k 0 lvl = lvl"
| "merklee_loop k (Suc n) lvl = merklee_loop k n (merklee_level k lvl)"

definition MerkleeRoot :: "crypto \<Rightarrow> bytes list \<Rightarrow> error + bytes" where
  "MerkleeRoot c data =
    (let size = length data; lvlCount = size div 2 + size mod 2 in
     if lvlCount = 0 then Inr (EmptyTxRoot c)
     else (let d = merklee_loop (keccak c) lvlCount data in
           if length d > 1 then Inl (Panic ''Error creating MerkleeTree'') else Inr (d ! 0)))"

definition GenTxRoot :: "crypto \<Rightarrow> PbTransaction list \<Rightarrow> error + bytes" where
  "GenTxRoot c txarr = MerkleeRoot c (map pt_Hash txarr)"

subsection \<open>Block and transaction hashes (hasher.go)\<close>

definition BlockHash ::
  "crypto \<Rightarrow> uint64 \<Rightarrow> uint64 \<Rightarrow> bytes \<Rightarrow> bytes \<Rightarrow> bytes \<Rightarrow> uint64 \<Rightarrow> bytes \<Rightarrow> bytes" where
  "BlockHash c num slot version parent txroot tstamp proposer =
    (let res = MarshalUint64 [] num; res = MarshalUint64 res slot;
         res = res @ version @ parent @ txroot; res = MarshalUint64 res tstamp;
         res = res @ proposer
     in keccak c res)"

definition outRoot :: "crypto \<Rightarrow> TxOutput \<Rightarrow> error + bytes" where
  "outRoot c = TxOutput_HashTreeRoot (sha256 c)"

definition inRoot :: "crypto \<Rightarrow> TxInput \<Rightarrow> error + bytes" where
  "inRoot c = TxInput_HashTreeRoot (sha256 c)"

text \<open>The two loops over outputs and inputs stop at the first root that cannot be computed.\<close>

fun concat_roots :: "('a \<Rightarrow> error + bytes) \<Rightarrow> 'a list \<Rightarrow> error + bytes" where
  "concat_roots f [] = Inr []"
| "concat_roots f (x # xs) = (case f x of Inl e \<Rightarrow> Inl e
     | Inr r \<Rightarrow> (case concat_roots f xs of Inl e \<Rightarrow> Inl e | Inr rs \<Rightarrow> Inr (r @ rs)))"

definition TxHash :: "crypto \<Rightarrow> PbTransaction \<Rightarrow> error + bytes" where
  "TxHash c tx =
    (let buf = MarshalUint64 [] (pt_Num tx); buf = MarshalUint64 buf (pt_Fee tx) in
     case concat_roots (outRoot c) (pt_Outputs tx) of Inl e \<Rightarrow> Inl e
     | Inr outputsDomain \<Rightarrow>
     (case concat_roots (inRoot c) (pt_Inputs tx) of Inl e \<Rightarrow> Inl e
      | Inr inputsDomain \<Rightarrow>
        (let buf = buf @ outputsDomain @ inputsDomain @ pt_Data tx;
             buf = MarshalUint32 buf (pt_Type tx); buf = MarshalUint64 buf (pt_Timestamp tx)
         in Inr (BytesToHash (keccak c buf)))))"

subsection \<open>Addresses of keys (crypto.go, signature\_cgo.go)\<close>

definition PubkeyToAddress :: "crypto \<Rightarrow> bytes \<Rightarrow> bytes" where
  "PubkeyToAddress c p = BytesToAddress (drop 12 (keccak c (drop 1 p)))"

definition SigToPub :: "crypto \<Rightarrow> bytes \<Rightarrow> bytes \<Rightarrow> error + bytes" where
  "SigToPub c hash sig = ecrecover c hash sig"

definition genSalt :: "crypto \<Rightarrow> bytes \<Rightarrow> bytes" where
  "genSalt c hash = keccak c ([21] @ map of_char ''RaidoSignedData'' @ [10] @ hash)"

subsection \<open>Transaction signer (signer.go)\<close>

definition GetTxDomain :: "crypto \<Rightarrow> PbTransaction \<Rightarrow> bytes" where
  "GetTxDomain c tx = genSalt c (keccak c (pt_Hash tx))"

definition TxSigner_Sign :: "crypto \<Rightarrow> PbTransaction \<Rightarrow> bytes option \<Rightarrow> error + bytes" where
  "TxSigner_Sign c tx key = (case key of None \<Rightarrow> Inl (Errorf ''Empty private key.'')
     | Some k \<Rightarrow> secp_sign c (GetTxDomain c tx) k)"

definition TxSigner_Verify :: "crypto \<Rightarrow> PbTransaction \<Rightarrow> error option" where
  "TxSigner_Verify c tx =
    (if length (pt_Signature tx) \<noteq> SignatureLength then Some (Errorf ''Wrong signature size.'')
     else case SigToPub c (GetTxDomain c tx) (pt_Signature tx) of
       Inl e \<Rightarrow> Some e
     | Inr pubKey \<Rightarrow>
        (case pt_Inputs tx of
           [] \<Rightarrow> Some (Panic ''index out of range'')
         | i # _ \<Rightarrow> if PubkeyToAddress c pubKey \<noteq> ti_Address i
                   then Some (Errorf ''Wrong signature given!!!'') else None))"

subsection \<open>Block headers and the block signer (block.go, signer.go)\<close>

record BlockHeader =
  hd_Num :: uint64
  hd_Parent :: bytes
  hd_Version :: bytes
  hd_TxRoot :: bytes
  hd_Hash :: bytes
  hd_Slot :: uint64

definition NewHeader :: "Block \<Rightarrow> BlockHeader" where
  "NewHeader block = \<lparr>hd_Num = bk_Num block, hd_Parent = bk_Parent block, hd_Version = bk_Version block,
     hd_TxRoot = bk_Txroot block, hd_Hash = [], hd_Slot = bk_Slot block\<rparr>"

definition GetBlockHeader :: "Block \<Rightarrow> BlockHeader" where
  "GetBlockHeader block = \<lparr>hd_Num = bk_Num block, hd_Parent = bk_Parent block, hd_Version = [1, 0, 0],
     hd_TxRoot = bk_Txroot block, hd_Hash = [], hd_Slot = bk_Slot block\<rparr>"

definition getBlockDomain :: "crypto \<Rightarrow> BlockHeader \<Rightarrow> bytes \<Rightarrow> bytes" where
  "getBlockDomain c header mix =
    (let buf = MarshalUint64 [] (hd_Num header); buf = MarshalUint64 buf (hd_Slot header);
         buf = buf @ hd_Parent header @ hd_Version header @ hd_TxRoot header;
         buf = (if length mix > 0 then buf @ mix else buf)
     in BytesToHash (keccak c buf))"

definition signRaw :: "crypto \<Rightarrow> bytes \<Rightarrow> bytes \<Rightarrow> error + Sign" where
  "signRaw c hash key = (case secp_sign c hash key of Inl e \<Rightarrow> Inl e
     | Inr signature \<Rightarrow>
       Inr \<lparr>sg_Address = PubkeyToAddress c (pubkey_of c key), sg_Signature = signature\<rparr>)"

definition BlockSigner_Sign :: "crypto \<Rightarrow> BlockHeader \<Rightarrow> bytes \<Rightarrow> error + Sign" where
  "BlockSigner_Sign c header key = signRaw c (getBlockDomain c header []) key"

definition BlockSigner_SignMixed :: "crypto \<Rightarrow> BlockHeader \<Rightarrow> bytes \<Rightarrow> bytes \<Rightarrow> error + Sign" where
  "BlockSigner_SignMixed c header mix key = signRaw c (getBlockDomain c header mix) key"

definition verifyRaw :: "crypto \<Rightarrow> bytes \<Rightarrow> Sign \<Rightarrow> error option" where
  "verifyRaw c dgst sign = (case SigToPub c dgst (sg_Signature sign) of
     Inl e \<Rightarrow> Some e
   | Inr pubKey \<Rightarrow> if PubkeyToAddress c pubKey \<noteq> sg_Address sign
                  then Some (Errorf ''Wrong signature given!!!'') else None)"

definition BlockSigner_Verify :: "crypto \<Rightarrow> BlockHeader \<Rightarrow> Sign \<Rightarrow> error option" where
  "BlockSigner_Verify c header sign = verifyRaw c (getBlockDomain c header []) sign"

definition BlockSigner_VerifyMixed :: "crypto \<Rightarrow> BlockHeader \<Rightarrow> bytes \<Rightarrow> Sign \<Rightarrow> error option" where
  "BlockSigner_VerifyMixed c header mix sign = verifyRaw c (getBlockDomain c header mix) sign"

text \<open>\<open>signBlock\<close> panics when signing fails; \<open>tstamp\<close> is the clock reading.\<close>

definition signBlock :: "crypto \<Rightarrow> BlockHeader \<Rightarrow> bytes \<Rightarrow> error + Sign" where
  "signBlock c header key = (case BlockSigner_Sign c header key of
     Inl e \<Rightarrow> Inl (Panic ''error signing block'') | Inr s \<Rightarrow> Inr s)"

definition NewBlock ::
  "crypto \<Rightarrow> uint64 \<Rightarrow> uint64 \<Rightarrow> uint64 \<Rightarrow> bytes \<Rightarrow> PbTransaction list \<Rightarrow> bytes \<Rightarrow> error + Block" where
  "NewBlock c tstamp blockNum slot parent txBatch key =
    (case GenTxRoot c txBatch of Inl e \<Rightarrow> Inl e
     | Inr root \<Rightarrow>
      (let header = \<lparr>hd_Num = blockNum, hd_Parent = parent, hd_Version = [1, 0, 0], hd_TxRoot = root,
                     hd_Hash = [], hd_Slot = slot\<rparr> in
       case signBlock c header key of Inl e \<Rightarrow> Inl e
       | Inr proposer \<Rightarrow>
        (let h = BlockHash c blockNum slot (hd_Version header) parent root tstamp (sg_Address proposer) in
         Inr \<lparr>bk_Num = blockNum, bk_Slot = slot, bk_Version = hd_Version header, bk_Hash = h,
              bk_Parent = parent, bk_Timestamp = tstamp, bk_Txroot = root, bk_Proposer = proposer,
              bk_Approvers = [], bk_Slashers = [], bk_Transactions = txBatch\<rparr>)))"

subsection \<open>Attestations (validator/types/attestation.go)\<close>

abbreviation (input) Approve :: uint32 where "Approve \<equiv> 0"
abbreviation (input) Reject :: uint32 where "Reject \<equiv> 1"

definition mixMap :: "(uint32, bytes) gomap" where
  "mixMap = [(Approve, [1]), (Reject, [2])]"

record Attestation =
  at_Validator :: bytes
  at_Block :: Block
  at_Signature :: Sign
  at_Type :: uint32

definition NewAttestation :: "crypto \<Rightarrow> Block \<Rightarrow> bytes \<Rightarrow> bytes \<Rightarrow> uint32 \<Rightarrow> error + Attestation" where
  "NewAttestation c block addr key attestType =
    (case map_of mixMap attestType of
       None \<Rightarrow> Inl (Errorf ''Unknown attestation type'')
     | Some mix \<Rightarrow>
      (case BlockSigner_SignMixed c (GetBlockHeader block) mix key of
         Inl e \<Rightarrow> Inl e
       | Inr sign \<Rightarrow> Inr \<lparr>at_Validator = addr, at_Block = block, at_Signature = sign, at_Type = attestType\<rparr>))"

definition VerifyBlockSign :: "crypto \<Rightarrow> BlockHeader \<Rightarrow> uint32 \<Rightarrow> Sign \<Rightarrow> error option" where
  "VerifyBlockSign c header att sign =
    (case map_of mixMap att of
       None \<Rightarrow> Some (Errorf ''Unknown attestation type'')
     | Some mix \<Rightarrow> BlockSigner_VerifyMixed c header mix sign)"

definition VerifyAttestationSign :: "crypto \<Rightarrow> Attestation \<Rightarrow> error option" where
  "VerifyAttestationSign c att =
     VerifyBlockSign c (NewHeader (at_Block att)) (at_Type att) (at_Signature att)"

subsection \<open>Seeds (seed.go, signer.go)\<close>

record Seed =
  sd_Seed :: uint32
  sd_Proposer :: Sign

definition GetSeedDomain :: "crypto \<Rightarrow> Seed \<Rightarrow> bytes" where
  "GetSeedDomain c seed = genSalt c (keccak c (le_nat 4 (unat (sd_Seed seed))))"

definition SeedSigner_Sign :: "crypto \<Rightarrow> Seed \<Rightarrow> bytes option \<Rightarrow> error + bytes" where
  "SeedSigner_Sign c seed key = (case key of None \<Rightarrow> Inl (Errorf ''Empty private key.'')
     | Some k \<Rightarrow> secp_sign c (GetSeedDomain c seed) k)"

definition SeedSigner_Verify :: "crypto \<Rightarrow> Seed \<Rightarrow> error option" where
  "SeedSigner_Verify c seed =
    (if length (sg_Signature (sd_Proposer seed)) \<noteq> SignatureLength then Some (Errorf ''Wrong signature size.'')
     else case SigToPub c (GetSeedDomain c seed) (sg_Signature (sd_Proposer seed)) of
       Inl e \<Rightarrow> Some e
     | Inr pubKey \<Rightarrow> if PubkeyToAddress c pubKey \<noteq> sg_Address (sd_Proposer seed)
                    then Some (Errorf ''Wrong signature given!!!'') else None)"

text \<open>\<open>rnd\<close> is the number drawn by \<^verbatim>\<open>crypto/rand\<close>, or its error; \<open>addr\<close> and \<open>key\<close> are the account's.\<close>

definition NewSeed :: "crypto \<Rightarrow> error + uint32 \<Rightarrow> bytes \<Rightarrow> bytes option \<Rightarrow> error + Seed" where
  "NewSeed c rnd addr key = (case rnd of Inl e \<Rightarrow> Inl e
     | Inr intseed \<Rightarrow>
      (let seed = \<lparr>sd_Seed = intseed, sd_Proposer = \<lparr>sg_Address = [], sg_Signature = []\<rparr>\<rparr> in
       case SeedSigner_Sign c seed key of Inl e \<Rightarrow> Inl e
       | Inr signature \<Rightarrow> Inr (seed\<lparr>sd_Proposer := \<lparr>sg_Address = addr, sg_Signature = signature\<rparr>\<rparr>)))"

subsection \<open>Construction of transactions (transaction.go)\<close>

record TxOptions =
  op_Inputs :: "TxInput list"
  op_Outputs :: "TxOutput list"
  op_Fee :: uint64
  op_Data :: bytes
  op_Num :: uint64
  op_Type :: uint32
  op_Timestamp :: uint64

definition SignTx :: "crypto \<Rightarrow> PbTransaction \<Rightarrow> bytes option \<Rightarrow> error + PbTransaction" where
  "SignTx c tx key = (case TxSigner_Sign c tx key of Inl e \<Rightarrow> Inl e
     | Inr sign \<Rightarrow> Inr (tx\<lparr>pt_Signature := sign\<rparr>))"

definition NewPbTransaction :: "crypto \<Rightarrow> uint64 \<Rightarrow> TxOptions \<Rightarrow> bytes option \<Rightarrow> error + PbTransaction" where
  "NewPbTransaction c now opts key =
    (let tx = \<lparr>pt_Num = op_Num opts, pt_Type = op_Type opts,
               pt_Timestamp = (if op_Timestamp opts > 0 then op_Timestamp opts else now),
               pt_Hash = [], pt_Fee = op_Fee opts, pt_Data = op_Data opts, pt_Inputs = op_Inputs opts,
               pt_Outputs = op_Outputs opts, pt_Signature = [], pt_Status = 0\<rparr> in
     case TxHash c tx of Inl e \<Rightarrow> Inl e
     | Inr hash \<Rightarrow>
      (let tx = tx\<lparr>pt_Hash := hash\<rparr> in
       case key of Some k \<Rightarrow> SignTx c tx (Some k)
       | None \<Rightarrow> Inr (tx\<lparr>pt_Signature := replicate SignatureLength 0\<rparr>)))"

definition changeOutput :: TxOutput where
  "changeOutput = NewOutput (replicate 20 0) 200 []"

definition CountTxFee :: "uint64 \<Rightarrow> TxOptions \<Rightarrow> uint64 \<times> uint64" where
  "CountTxFee now opts =
    (let tx = \<lparr>pt_Num = op_Num opts, pt_Type = op_Type opts, pt_Timestamp = now,
               pt_Hash = replicate 32 0, pt_Fee = op_Fee opts, pt_Data = op_Data opts,
               pt_Inputs = op_Inputs opts, pt_Outputs = op_Outputs opts,
               pt_Signature = replicate SignatureLength 0, pt_Status = 0\<rparr>;
         fee = GetRealFee tx;
         tx = tx\<lparr>pt_Outputs := pt_Outputs tx @ [changeOutput]\<rparr>;
         extraFee = GetRealFee tx
     in (fee, extraFee))"

subsection \<open>Little-endian integers in a buffer\<close>

lemma MarshalUint64_append: "MarshalUint64 dst i = dst @ MarshalUint64 [] i"
  by (simp add: MarshalUint64_def)

lemma length_MarshalUint64 [simp]: "length (MarshalUint64 dst i) = length dst + 8"
  by (simp add: MarshalUint64_def)

subsection \<open>The Merkle loop\<close>

lemma length_merklee_level [simp]: "length (merklee_level k d) = (length d + 1) div 2"
  by (induction k d rule: merklee_level.induct) auto

lemma length_merklee_loop:
  "1 \<le> length d \<Longrightarrow> length d \<le> 2 ^ n \<Longrightarrow> length (merklee_loop k n d) = 1"
proof (induction n arbitrary: d)
  case (Suc n)
  then show ?case by simp
qed simp

lemma le_two_power_half: "(n :: nat) \<le> 2 ^ (n div 2 + n mod 2)"
proof (induction n rule: less_induct)
  case (less n)
  show ?case
  proof (cases "n < 4")
    case True
    then have "n = 0 \<or> n = 1 \<or> n = 2 \<or> n = 3" by arith
    then show ?thesis by auto
  next
    case False
    define m where "m = n - 2"
    with False have m: "n = m + 2" "2 \<le> m" by auto
    have "m \<le> 2 ^ (m div 2 + m mod 2)" using less m by simp
    with m have "m + 2 \<le> 2 * 2 ^ (m div 2 + m mod 2)" by linarith
    with m show ?thesis by simp
  qed
qed

text \<open>The byte strings that are hashed while a root is computed.\<close>

fun level_pre :: "bytes list \<Rightarrow> bytes list" where
  "level_pre [] = []"
| "level_pre [x] = [x]"
| "level_pre (x # y # r) = (x @ y) # level_pre r"

fun loop_hashed :: "(bytes \<Rightarrow> bytes) \<Rightarrow> nat \<Rightarrow> bytes list \<Rightarrow> bytes list" where
  "loop_hashed k 0 d = []"
| "loop_hashed k (Suc n) d = level_pre d @ loop_hashed k n (merklee_level k d)"

definition merklee_hashed :: "crypto \<Rightarrow> bytes list \<Rightarrow> bytes list" where
  "merklee_hashed c d = loop_hashed (keccak c) (length d div 2 + length d mod 2) d"

lemma merklee_level_pre: "merklee_level k d = map k (level_pre d)"
  by (induction k d rule: merklee_level.induct) auto

lemma length_level_pre [simp]: "length (level_pre d) = (length d + 1) div 2"
  by (induction d rule: level_pre.induct) auto

lemma level_pre_inj:
  "length d = length d' \<Longrightarrow> \<forall>x \<in> set d \<union> set d'. length x = w \<Longrightarrow> level_pre d = level_pre d' \<Longrightarrow> d = d'"
proof (induction d arbitrary: d' rule: level_pre.induct)
  case (2 x)
  then show ?case by (cases d' rule: level_pre.cases) auto
next
  case (3 x y r)
  then show ?case by (cases d' rule: level_pre.cases) auto
qed simp

lemma merklee_loop_inj:
  assumes "\<And>x. length (k x) = w"
  shows "length d = length d' \<Longrightarrow> \<forall>x \<in> set d \<union> set d'. length x = w \<Longrightarrow>
    inj_on k (set (loop_hashed k n d) \<union> set (loop_hashed k n d')) \<Longrightarrow>
    merklee_loop k n d = merklee_loop k n d' \<Longrightarrow> d = d'"
proof (induction n arbitrary: d d')
  case (Suc n)
  have "merklee_level k d = merklee_level k d'"
  proof (rule Suc.IH)
    show "inj_on k (set (loop_hashed k n (merklee_level k d)) \<union> set (loop_hashed k n (merklee_level k d')))"
      using Suc.prems(3) by (rule inj_on_subset) auto
  qed (use Suc.prems assms in \<open>auto simp: merklee_level_pre\<close>)
  then have "map k (level_pre d) = map k (level_pre d')"
    by (simp add: merklee_level_pre)
  moreover have "inj_on k (set (level_pre d) \<union> set (level_pre d'))"
    using Suc.prems(3) by (rule inj_on_subset) auto
  ultimately have "level_pre d = level_pre d'"
    by (metis map_inj_on)
  then show ?case
    by (intro level_pre_inj [OF Suc.prems(1,2)])
qed simp

lemma MerkleeRoot_nonempty:
  assumes "d \<noteq> []"
  shows "MerkleeRoot c d = Inr (merklee_loop (keccak c) (length d div 2 + length d mod 2) d ! 0)"
    and "length (merklee_loop (keccak c) (length d div 2 + length d mod 2) d) = 1"
proof -
  show len: "length (merklee_loop (keccak c) (length d div 2 + length d mod 2) d) = 1"
    using assms by (intro length_merklee_loop le_two_power_half) (simp add: Suc_leI)
  have "length d div 2 + length d mod 2 \<noteq> 0"
    using assms by (metis add_is_0 div_mod_decomp length_0_conv mult_0)
  then show "MerkleeRoot c d = Inr (merklee_loop (keccak c) (length d div 2 + length d mod 2) d ! 0)"
    using len by (auto simp: MerkleeRoot_def Let_def)
qed

lemma MerkleeRoot_total: "\<exists>r. MerkleeRoot c d = Inr r"
proof (cases "d = []")
  case True
  then show ?thesis by (simp add: MerkleeRoot_def)
next
  case False
  then show ?thesis using MerkleeRoot_nonempty(1) by blast
qed

lemma GenTxRoot_total: "\<exists>r. GenTxRoot c txs = Inr r"
  by (simp add: GenTxRoot_def MerkleeRoot_total)

subsection \<open>Signatures\<close>

text \<open>
  The documented behaviour of the secp256k1 library: a signature has 65 bytes and public key
  recovery on the signed digest returns the signer's key.
\<close>

definition secp_laws :: "crypto \<Rightarrow> bool" where
  "secp_laws c = (\<forall>d k s. secp_sign c d k = Inr s \<longrightarrow>
     length s = SignatureLength \<and> ecrecover c d s = Inr (pubkey_of c k))"

lemma secp_lawsD:
  "secp_laws c \<Longrightarrow> secp_sign c d k = Inr s \<Longrightarrow> length s = SignatureLength"
  "secp_laws c \<Longrightarrow> secp_sign c d k = Inr s \<Longrightarrow> ecrecover c d s = Inr (pubkey_of c k)"
  by (auto simp: secp_laws_def)

lemma verifyRaw_signRaw:
  "secp_laws c \<Longrightarrow> signRaw c h key = Inr s \<Longrightarrow> verifyRaw c h s = None"
  by (auto simp: signRaw_def verifyRaw_def SigToPub_def secp_lawsD split: sum.splits)

lemma TxHash_ignores [simp]:
  "TxHash c (tx\<lparr>pt_Hash := h\<rparr>) = TxHash c tx"
  "TxHash c (tx\<lparr>pt_Signature := s\<rparr>) = TxHash c tx"
  "TxHash c (tx\<lparr>pt_Status := st\<rparr>) = TxHash c tx"
  by (simp_all add: TxHash_def Let_def split: sum.split)

lemma GetTxDomain_ignores [simp]:
  "GetTxDomain c (tx\<lparr>pt_Signature := s\<rparr>) = GetTxDomain c tx"
  "GetTxDomain c (tx\<lparr>pt_Status := st\<rparr>) = GetTxDomain c tx"
  by (simp_all add: GetTxDomain_def)

lemma TxHash_literal:
  "NO_MATCH [] h \<or> NO_MATCH [] sg \<Longrightarrow>
   TxHash c \<lparr>pt_Num = n, pt_Type = t, pt_Timestamp = ts, pt_Hash = h, pt_Fee = f, pt_Data = d,
     pt_Inputs = i, pt_Outputs = ou, pt_Signature = sg, pt_Status = st\<rparr> =
   TxHash c \<lparr>pt_Num = n, pt_Type = t, pt_Timestamp = ts, pt_Hash = [], pt_Fee = f, pt_Data = d,
     pt_Inputs = i, pt_Outputs = ou, pt_Signature = [], pt_Status = st\<rparr>"
  by (simp add: TxHash_def Let_def split: sum.split)

text \<open>The fields of a constructed transaction.\<close>

lemma NewPbTransaction_fields:
  assumes "NewPbTransaction c now opts key = Inr tx"
  shows "pt_Num tx = op_Num opts" "pt_Type tx = op_Type opts" "pt_Fee tx = op_Fee opts"
    "pt_Data tx = op_Data opts" "pt_Inputs tx = op_Inputs opts" "pt_Outputs tx = op_Outputs opts"
    "TxHash c tx = Inr (pt_Hash tx)"
  using assms
  by (auto simp: NewPbTransaction_def SignTx_def Let_def TxHash_literal split: sum.splits option.splits)

lemma NewPbTransaction_signed:
  assumes "secp_laws c" "NewPbTransaction c now opts (Some k) = Inr tx"
    and "op_Inputs opts = i # is" "ti_Address i = PubkeyToAddress c (pubkey_of c k)"
  shows "TxSigner_Verify c tx = None"
  using assms
  by (auto simp: NewPbTransaction_def SignTx_def Let_def TxSigner_Sign_def TxSigner_Verify_def
      SigToPub_def GetTxDomain_def secp_lawsD split: sum.splits)

text \<open>A concrete instance of the cryptographic parameters, for the examples of the development.\<close>

definition demo_crypto :: crypto where
  "demo_crypto = \<lparr>keccak = SetBytes 32, secp_sign = (\<lambda>d k. Inr (SetBytes 65 k)), ecrecover = (\<lambda>d s. Inr s),
     pubkey_of = SetBytes 65, sha256 = SetBytes 32\<rparr>"

lemma demo_crypto_laws: "secp_laws demo_crypto"
  by (simp add: secp_laws_def demo_crypto_def)

lemma demo_sha_ok: "sha_ok (sha256 demo_crypto)"
  by (simp add: sha_ok_def demo_crypto_def)

lemma GenTxRoot_not_Inl [simp]: "GenTxRoot c txs \<noteq> Inl e"
  by (metis GenTxRoot_total Inl_Inr_False)

subsection \<open>The hash of a transaction\<close>

definition in_sizes :: "TxInput \<Rightarrow> bool" where
  "in_sizes i \<longleftrightarrow> length (ti_Hash i) = 32 \<and> length (ti_Address i) = 20 \<and> length (ti_Node i) \<le> 20"

definition out_sizes :: "TxOutput \<Rightarrow> bool" where
  "out_sizes u \<longleftrightarrow> length (to_Address u) = 20 \<and> length (to_Node u) \<le> 20"

lemma concat_roots_iff:
  assumes "\<And>x r. f x = Inr r \<longleftrightarrow> ok x \<and> r = rt x"
  shows "concat_roots f xs = Inr rs \<longleftrightarrow> (\<forall>x\<in>set xs. ok x) \<and> rs = concat (map rt xs)"
proof (induction xs arbitrary: rs)
  case (Cons x xs)
  have "concat_roots f (x # xs) = ebind (f x) (\<lambda>r. ebind (concat_roots f xs) (\<lambda>rs. Inr (r @ rs)))" by (simp add: ebind_def)
  then show ?case using Cons by (auto simp: ebind_Inr assms)
qed auto

definition tx_image :: "crypto \<Rightarrow> PbTransaction \<Rightarrow> bytes" where
  "tx_image c tx = le_nat 8 (unat (pt_Num tx)) @ le_nat 8 (unat (pt_Fee tx)) @ concat (map (TxOutput_root (sha256 c)) (pt_Outputs tx))
     @ concat (map (TxInput_root (sha256 c)) (pt_Inputs tx)) @ pt_Data tx @ le_nat 4 (unat (pt_Type tx)) @ le_nat 8 (unat (pt_Timestamp tx))"

lemma TxHash_iff:
  assumes "sha_ok (sha256 c)"
  shows "TxHash c tx = Inr h \<longleftrightarrow> ((\<forall>u\<in>set (pt_Outputs tx). out_sizes u) \<and> (\<forall>i\<in>set (pt_Inputs tx). in_sizes i)) \<and> h = BytesToHash (keccak c (tx_image c tx))"
proof -
  have o: "concat_roots (outRoot c) xs = Inr rs \<longleftrightarrow> (\<forall>u\<in>set xs. out_sizes u) \<and> rs = concat (map (TxOutput_root (sha256 c)) xs)" for xs rs
    by (rule concat_roots_iff) (simp add: outRoot_def HashTreeRoot_iff(2) [OF assms] out_sizes_def)
  have i: "concat_roots (inRoot c) xs = Inr rs \<longleftrightarrow> (\<forall>u\<in>set xs. in_sizes u) \<and> rs = concat (map (TxInput_root (sha256 c)) xs)" for xs rs
    by (rule concat_roots_iff) (simp add: inRoot_def HashTreeRoot_iff(1) [OF assms] in_sizes_def)
  have "TxHash c tx = ebind (concat_roots (outRoot c) (pt_Outputs tx)) (\<lambda>os. ebind (concat_roots (inRoot c) (pt_Inputs tx)) (\<lambda>is.
      Inr (BytesToHash (keccak c (le_nat 8 (unat (pt_Num tx)) @ le_nat 8 (unat (pt_Fee tx)) @ os @ is @ pt_Data tx @ le_nat 4 (unat (pt_Type tx))
        @ le_nat 8 (unat (pt_Timestamp tx)))))))"
    by (simp add: TxHash_def ebind_def MarshalUint64_def MarshalUint32_def Let_def split: sum.split)
  then show ?thesis by (auto simp: ebind_Inr o i tx_image_def)
qed

lemma NewPbTransaction_built:
  assumes "sha_ok (sha256 c)" "\<forall>u\<in>set (op_Outputs opts). out_sizes u" "\<forall>i\<in>set (op_Inputs opts). in_sizes i" "\<forall>d. \<exists>sig. secp_sign c d k = Inr sig"
  shows "\<exists>tx. NewPbTransaction c now opts (Some k) = Inr tx" "\<exists>tx. NewPbTransaction c now opts None = Inr tx"
proof -
  have "\<exists>h. TxHash c tx = Inr h" if "pt_Inputs tx = op_Inputs opts" "pt_Outputs tx = op_Outputs opts" for tx
    using TxHash_iff [OF assms(1)] assms(2,3) that by simp
  then obtain h where h: "TxHash c \<lparr>pt_Num = op_Num opts, pt_Type = op_Type opts, pt_Timestamp = (if op_Timestamp opts > 0 then op_Timestamp opts else now),
      pt_Hash = [], pt_Fee = op_Fee opts, pt_Data = op_Data opts, pt_Inputs = op_Inputs opts, pt_Outputs = op_Outputs opts, pt_Signature = [], pt_Status = 0\<rparr> = Inr h"
    by (metis PbTransaction.select_convs(7,8))
  show "\<exists>tx. NewPbTransaction c now opts None = Inr tx" by (simp add: NewPbTransaction_def Let_def h)
  obtain sig where "secp_sign c (GetTxDomain c \<lparr>pt_Num = op_Num opts, pt_Type = op_Type opts, pt_Timestamp = (if op_Timestamp opts > 0 then op_Timestamp opts else now),
      pt_Hash = h, pt_Fee = op_Fee opts, pt_Data = op_Data opts, pt_Inputs = op_Inputs opts, pt_Outputs = op_Outputs opts, pt_Signature = [], pt_Status = 0\<rparr>) k = Inr sig"
    using assms(4) by blast
  then show "\<exists>tx. NewPbTransaction c now opts (Some k) = Inr tx" by (simp add: NewPbTransaction_def Let_def h SignTx_def TxSigner_Sign_def)
qed

text \<open>The roots of inputs and the data of a transaction follow each other without their lengths, so that moving an input into the data keeps the hash.\<close>

lemma tx_hash_ambiguous:
  assumes "inRoot c i = Inr r"
  shows "TxHash c (tx\<lparr>pt_Inputs := is @ [i], pt_Data := d\<rparr>) = TxHash c (tx\<lparr>pt_Inputs := is, pt_Data := r @ d\<rparr>)"
proof -
  have "concat_roots (inRoot c) (is @ [i]) = (case concat_roots (inRoot c) is of Inl e \<Rightarrow> Inl e | Inr rs \<Rightarrow> Inr (rs @ r))"
    by (induction "is") (auto simp: assms split: sum.split)
  then show ?thesis by (simp add: TxHash_def Let_def split: sum.split)
qed

text \<open>The strings that are hashed with SHA-256 for a transaction.\<close>

definition tx_hashed :: "crypto \<Rightarrow> PbTransaction \<Rightarrow> bytes set" where
  "tx_hashed c tx = (\<Union>u\<in>set (pt_Outputs tx). out_hashed (sha256 c) u) \<union> (\<Union>i\<in>set (pt_Inputs tx). in_hashed (sha256 c) i)"

lemma roots_equal:
  assumes "concat (map rt xs) = concat (map rt ys)" "length xs = length ys" "\<And>x. length (rt x) = 32"
    and "\<And>x y. x \<in> set xs \<Longrightarrow> y \<in> set ys \<Longrightarrow> rt x = rt y \<Longrightarrow> x = y"
  shows "xs = ys"
  using assms(2,1,4)
proof (induction xs ys rule: list_induct2)
  case (Cons x xs y ys)
  then have "rt x = rt y" "concat (map rt xs) = concat (map rt ys)" using assms(3) by simp_all
  then show ?case using Cons.IH Cons.prems(2) by simp
qed simp

text \<open>
  C24. What a transaction hash commits to.  Two transactions with the same hash and as many inputs and outputs have the same
  number, fee, type, time stamp, data, inputs and outputs, unless two different strings that are hashed for them have the same
  Keccak-256 or SHA-256 value.
\<close>

theorem tx_hash_commits:
  assumes "sha_ok (sha256 c)" "\<forall>b. length (keccak c b) = 32" "inj_on (keccak c) {tx_image c tx, tx_image c tx'}"
    and "inj_on (sha256 c) (tx_hashed c tx \<union> tx_hashed c tx')"
    and "TxHash c tx = Inr h" "TxHash c tx' = Inr h"
    and "length (pt_Outputs tx) = length (pt_Outputs tx')" "length (pt_Inputs tx) = length (pt_Inputs tx')"
  shows "pt_Num tx = pt_Num tx' \<and> pt_Fee tx = pt_Fee tx' \<and> pt_Type tx = pt_Type tx' \<and> pt_Timestamp tx = pt_Timestamp tx' \<and> pt_Data tx = pt_Data tx'
    \<and> pt_Inputs tx = pt_Inputs tx' \<and> pt_Outputs tx = pt_Outputs tx'"
proof -
  let ?o = "\<lambda>tx. concat (map (TxOutput_root (sha256 c)) (pt_Outputs tx))" and ?i = "\<lambda>tx. concat (map (TxInput_root (sha256 c)) (pt_Inputs tx))"
  note t = TxHash_iff [OF assms(1), THEN iffD1, OF assms(5)] and t' = TxHash_iff [OF assms(1), THEN iffD1, OF assms(6)]
  have "BytesToHash (keccak c b) = keccak c b" for b using assms(2) by (simp add: BytesToHash_def)
  then have "keccak c (tx_image c tx) = keccak c (tx_image c tx')" using t t' by simp
  then have e: "tx_image c tx = tx_image c tx'" by (rule inj_onD [OF assms(3)]) simp_all
  have l: "length (?o tx) = length (?o tx')" "length (?i tx) = length (?i tx')"
    using assms(7,8) length_concat_roots [of _ "TxOutput_root (sha256 c)"] length_concat_roots [of _ "TxInput_root (sha256 c)"] length_roots [OF assms(1)] by simp_all
  have "length (pt_Data tx) = length (pt_Data tx')" using arg_cong [OF e, of length] l by (simp add: tx_image_def)
  then have f: "le_nat 8 (unat (pt_Num tx)) = le_nat 8 (unat (pt_Num tx'))" "le_nat 8 (unat (pt_Fee tx)) = le_nat 8 (unat (pt_Fee tx'))"
    "?o tx = ?o tx'" "?i tx = ?i tx'" "pt_Data tx = pt_Data tx'" "le_nat 4 (unat (pt_Type tx)) = le_nat 4 (unat (pt_Type tx'))"
    "le_nat 8 (unat (pt_Timestamp tx)) = le_nat 8 (unat (pt_Timestamp tx'))"
    using e l by (simp_all add: tx_image_def)
  have "pt_Outputs tx = pt_Outputs tx'"
  proof (rule roots_equal [OF f(3) assms(7) length_roots(2) [OF assms(1)]])
    fix x y assume m: "x \<in> set (pt_Outputs tx)" "y \<in> set (pt_Outputs tx')" and "TxOutput_root (sha256 c) x = TxOutput_root (sha256 c) y"
    moreover have "inj_on (sha256 c) (out_hashed (sha256 c) x \<union> out_hashed (sha256 c) y)"
      by (rule inj_on_subset [OF assms(4)]) (use m in \<open>auto simp: tx_hashed_def\<close>)
    ultimately show "x = y" using t t' by (intro TxOutput_root_inj [OF assms(1)]) (auto simp: out_sizes_def)
  qed
  moreover have "pt_Inputs tx = pt_Inputs tx'"
  proof (rule roots_equal [OF f(4) assms(8) length_roots(1) [OF assms(1)]])
    fix x y assume m: "x \<in> set (pt_Inputs tx)" "y \<in> set (pt_Inputs tx')" and "TxInput_root (sha256 c) x = TxInput_root (sha256 c) y"
    moreover have "inj_on (sha256 c) (in_hashed (sha256 c) x \<union> in_hashed (sha256 c) y)"
      by (rule inj_on_subset [OF assms(4)]) (use m in \<open>auto simp: tx_hashed_def\<close>)
    ultimately show "x = y" using t t' by (intro TxInput_root_inj [OF assms(1)]) (auto simp: in_sizes_def)
  qed
  ultimately show ?thesis using f uint_field_inj by metis
qed

text \<open>Two transactions without inputs and outputs that differ in their status, which is not hashed.\<close>

theorem tx_hash_commits_witness:
  "\<exists>c tx tx'. tx \<noteq> tx' \<and> TxHash c tx = TxHash c tx' \<and> pt_Data tx = pt_Data tx' \<and> pt_Outputs tx = pt_Outputs tx'"
proof -
  let ?t = "\<lambda>s. \<lparr>pt_Num = 1, pt_Type = 2, pt_Timestamp = 3, pt_Hash = [], pt_Fee = 0, pt_Data = [4], pt_Inputs = [], pt_Outputs = [],
    pt_Signature = [], pt_Status = s\<rparr>"
  have "TxHash demo_crypto (?t s) = Inr (BytesToHash (keccak demo_crypto (tx_image demo_crypto (?t 0))))" for s
    using TxHash_iff [OF demo_sha_ok, of "?t s"] by (simp add: tx_image_def)
  moreover have "\<forall>b. length (keccak demo_crypto b) = 32" by (simp add: demo_crypto_def)
  moreover have "tx_image demo_crypto (?t 0) = tx_image demo_crypto (?t 1)" "tx_hashed demo_crypto (?t 0) \<union> tx_hashed demo_crypto (?t 1) = {}"
    by (simp_all add: tx_image_def tx_hashed_def)
  ultimately show ?thesis
    using tx_hash_commits [OF demo_sha_ok, of "?t 0" "?t 1"] by (intro exI [of _ demo_crypto] exI [of _ "?t 0"] exI [of _ "?t 1"]) auto
qed

end
