(* ===== verification/Kv_Store.thy ===== *)
theory Kv_Store
  imports Hashing
begin

section \<open>The key-value store of blocks\<close>

text \<open>
  Models \<^verbatim>\<open>src/blockchain/db/kv\<close> (blocks.go, pool.go, schema.go) and the two functions of
  \<^verbatim>\<open>src/utils/serialize/block.go\<close>. A bolt bucket is a finite map from byte strings to byte strings
  (all buckets are one map whose keys carry the bucket);
  \<^verbatim>\<open>db.Update\<close> is atomic: the changes of the callback become visible together when it returns
  nil and the commit succeeds, and none of them otherwise. As in the output store, \<open>io n\<close> is the error of the
  \<open>n\<close>-th write or commit. Read transactions on the open database do not fail. The SSZ form of a
  block and snappy compression are the fields of the parameter \<open>codec\<close>; what the code relies on is
  \<open>codec_ok\<close>.

  Shown: a block that was written is found by key, number, hash and slot and its transactions by
  their hashes, earlier blocks stay readable, a failed write changes nothing, the amount statistics add up,
  and the stored nonce of an address stays at the number of its first transaction.
\<close>

datatype bucket = BlocksBucket | BlocksHashBucket | BlocksNumBucket | BlocksSlotBucket
  | TransactionBucket | AddressBucket

record KvStore =
  kv_data :: "(bucket \<times> bytes, bytes) gomap"
  kv_calls :: nat

type_synonym kv_result = "KvStore \<times> error option"

definition NewKVStore :: KvStore where
  "NewKVStore = \<lparr>kv_data = [], kv_calls = 0\<rparr>"

definition Get :: "bucket \<Rightarrow> bytes \<Rightarrow> KvStore \<Rightarrow> bytes option" where
  "Get b k s = map_of (kv_data s) (b, k)"

definition Put :: "(nat \<Rightarrow> error option) \<Rightarrow> bucket \<Rightarrow> bytes \<Rightarrow> bytes \<Rightarrow> KvStore \<Rightarrow> kv_result" where
  "Put io b k v s = (let s' = s\<lparr>kv_calls := Suc (kv_calls s)\<rparr> in
     case io (kv_calls s) of Some e \<Rightarrow> (s', Some e)
     | None \<Rightarrow> (s'\<lparr>kv_data := gput (b, k) v (kv_data s)\<rparr>, None))"

definition andThen :: "kv_result \<Rightarrow> (KvStore \<Rightarrow> kv_result) \<Rightarrow> kv_result" where
  "andThen r f = (case r of (s, Some e) \<Rightarrow> (s, Some e) | (s, None) \<Rightarrow> f s)"

definition Update :: "(nat \<Rightarrow> error option) \<Rightarrow> (KvStore \<Rightarrow> kv_result) \<Rightarrow> KvStore \<Rightarrow> kv_result" where
  "Update io f s = (case f s of
     (s', Some e) \<Rightarrow> (s\<lparr>kv_calls := kv_calls s'\<rparr>, Some e)
   | (s', None) \<Rightarrow>
      (case io (kv_calls s') of
         Some e \<Rightarrow> (s\<lparr>kv_calls := Suc (kv_calls s')\<rparr>, Some e)
       | None \<Rightarrow> (s'\<lparr>kv_calls := Suc (kv_calls s')\<rparr>, None)))"

subsection \<open>Serialisation of blocks\<close>

record codec =
  ssz_marshal :: "Block \<Rightarrow> error + bytes"
  ssz_unmarshal :: "bytes \<Rightarrow> error + Block"
  snappy_encode :: "bytes \<Rightarrow> bytes"
  snappy_decode :: "bytes \<Rightarrow> error + bytes"

definition MarshalBlock :: "codec \<Rightarrow> Block option \<Rightarrow> error + bytes" where
  "MarshalBlock cd blk = (case blk of None \<Rightarrow> Inl (Errorf ''empty block given'')
     | Some b \<Rightarrow> (case ssz_marshal cd b of Inl e \<Rightarrow> Inl e | Inr obj \<Rightarrow> Inr (snappy_encode cd obj)))"

definition UnmarshalBlock :: "codec \<Rightarrow> bytes \<Rightarrow> error + Block" where
  "UnmarshalBlock cd enc = (case snappy_decode cd enc of Inl e \<Rightarrow> Inl e
     | Inr raw \<Rightarrow> ssz_unmarshal cd raw)"

definition codec_ok :: "codec \<Rightarrow> bool" where
  "codec_ok cd \<longleftrightarrow> (\<forall>b raw. ssz_marshal cd b = Inr raw \<longrightarrow> ssz_unmarshal cd raw = Inr b) \<and>
     (\<forall>raw. snappy_decode cd (snappy_encode cd raw) = Inr raw)"

lemma UnmarshalBlock_Marshal:
  "codec_ok cd \<Longrightarrow> MarshalBlock cd (Some b) = Inr data \<Longrightarrow> UnmarshalBlock cd data = Inr b"
  by (auto simp: codec_ok_def MarshalBlock_def UnmarshalBlock_def split: sum.splits)

subsection \<open>Keys (schema.go)\<close>

definition str :: "string \<Rightarrow> bytes" where
  "str s = map of_char s"

definition lastBlockKey :: bytes where "lastBlockKey = str ''last-block''"
definition genesisBlockKey :: bytes where "genesisBlockKey = str ''genesis-block''"
definition statsKey :: bytes where "statsKey = str ''statistic''"

definition genHashKey :: "uint64 \<Rightarrow> bytes" where
  "genHashKey num = MarshalUint64 (str ''block-hash'') num"

definition genNumKey :: "bytes \<Rightarrow> bytes" where
  "genNumKey hash = str ''block-num'' @ hash"

definition genBlockKey :: "uint64 \<Rightarrow> bytes \<Rightarrow> bytes" where
  "genBlockKey num hash = MarshalUint64 (str ''block'') num @ hash"

definition genSlotKey :: "uint64 \<Rightarrow> bytes" where
  "genSlotKey slot = MarshalUint64 (str ''block-slot'') slot"

definition genTxHashKey :: "bytes \<Rightarrow> bytes" where
  "genTxHashKey hash = str ''tx-hash'' @ hash"

definition genAddrKey :: "bytes \<Rightarrow> bytes" where
  "genAddrKey addr = str ''address'' @ addr"

subsection \<open>Writing a block\<close>

definition saveBlockHash :: "(nat \<Rightarrow> error option) \<Rightarrow> uint64 \<Rightarrow> bytes \<Rightarrow> KvStore \<Rightarrow> kv_result" where
  "saveBlockHash io num hash s = Put io BlocksHashBucket (genHashKey num) hash s"

definition saveBlockSlot :: "(nat \<Rightarrow> error option) \<Rightarrow> uint64 \<Rightarrow> uint64 \<Rightarrow> KvStore \<Rightarrow> kv_result" where
  "saveBlockSlot io slot num s = Put io BlocksSlotBucket (genSlotKey slot) (MarshalUint64 [] num) s"

definition saveBlockNum :: "(nat \<Rightarrow> error option) \<Rightarrow> uint64 \<Rightarrow> bytes \<Rightarrow> KvStore \<Rightarrow> kv_result" where
  "saveBlockNum io num hash s = Put io BlocksNumBucket (genNumKey hash) (MarshalUint64 [] num) s"

fun saveTransactions_loop ::
  "(nat \<Rightarrow> error option) \<Rightarrow> bytes \<Rightarrow> nat \<Rightarrow> PbTransaction list \<Rightarrow> KvStore \<Rightarrow> kv_result" where
  "saveTransactions_loop io blockKey i [] s = (s, None)"
| "saveTransactions_loop io blockKey i (tx # txs) s =
    andThen (Put io TransactionBucket (genTxHashKey (pt_Hash tx)) (blockKey @ MarshalUint32 [] (word_of_nat i)) s)
      (saveTransactions_loop io blockKey (Suc i) txs)"

definition saveTransactions :: "(nat \<Rightarrow> error option) \<Rightarrow> Block \<Rightarrow> KvStore \<Rightarrow> kv_result" where
  "saveTransactions io block s =
     saveTransactions_loop io (genBlockKey (bk_Num block) (bk_Hash block)) 0 (bk_Transactions block) s"

text \<open>The nonce to store for an address, from the stored one and the number of its transaction.\<close>

definition nonceEntry :: "bytes option \<Rightarrow> uint64 \<Rightarrow> error + bytes" where
  "nonceEntry stored num = (case stored of
     None \<Rightarrow> Inr (MarshalUint64 [] num)
   | Some buf \<Rightarrow>
      (let nonce = UnmarshallUint64 buf in
       if nonce \<noteq> num \<and> nonce + 1 \<noteq> num then Inl (Errorf ''Wrong nonce given'')
       else Inr (MarshalUint64 [] nonce)))"

fun updateBlockAccountState :: "(nat \<Rightarrow> error option) \<Rightarrow> PbTransaction list \<Rightarrow> KvStore \<Rightarrow> kv_result" where
  "updateBlockAccountState io [] s = (s, None)"
| "updateBlockAccountState io (tx # txs) s =
    (if IsSystemTx tx then updateBlockAccountState io txs s
     else (case pt_Inputs tx of
         [] \<Rightarrow> (s, Some (Panic ''index out of range''))
       | i # _ \<Rightarrow>
          (let key = genAddrKey (ti_Address i) in
           case nonceEntry (Get AddressBucket key s) (pt_Num tx) of
             Inl e \<Rightarrow> (s, Some e)
           | Inr buf \<Rightarrow>
               andThen (Put io AddressBucket key buf s) (updateBlockAccountState io txs))))"

definition WriteBlock :: "codec \<Rightarrow> (nat \<Rightarrow> error option) \<Rightarrow> Block \<Rightarrow> KvStore \<Rightarrow> kv_result" where
  "WriteBlock cd io block s =
    (case MarshalBlock cd (Some block) of
       Inl e \<Rightarrow> (s, Some (Wrap e ''Marshaling block error''))
     | Inr data \<Rightarrow>
        (let key = genBlockKey (bk_Num block) (bk_Hash block) in
         Update io (\<lambda>s.
           if Get BlocksBucket key s \<noteq> None then (s, Some (Errorf ''block already exists''))
           else andThen (Put io BlocksBucket key data s) (\<lambda>s.
                andThen (updateBlockAccountState io (bk_Transactions block) s) (\<lambda>s.
                andThen (saveBlockNum io (bk_Num block) (bk_Hash block) s) (\<lambda>s.
                andThen (saveBlockSlot io (bk_Slot block) (bk_Num block) s) (\<lambda>s.
                andThen (saveBlockHash io (bk_Num block) (bk_Hash block) s) (\<lambda>s.
                saveTransactions io block s)))))) s))"

subsection \<open>Reading blocks\<close>

definition GetBlock :: "codec \<Rightarrow> uint64 \<Rightarrow> bytes \<Rightarrow> KvStore \<Rightarrow> error + Block option" where
  "GetBlock cd num hash s = (case Get BlocksBucket (genBlockKey num hash) s of
     None \<Rightarrow> Inr None
   | Some enc \<Rightarrow> (case UnmarshalBlock cd enc of Inl e \<Rightarrow> Inl e | Inr blk \<Rightarrow> Inr (Some blk)))"

definition GetBlockHash :: "uint64 \<Rightarrow> KvStore \<Rightarrow> bytes option" where
  "GetBlockHash num s = Get BlocksHashBucket (genHashKey num) s"

definition GetBlockNum :: "bytes \<Rightarrow> KvStore \<Rightarrow> error + uint64" where
  "GetBlockNum hash s = (case Get BlocksNumBucket (genNumKey hash) s of
     Some val \<Rightarrow> if length val \<noteq> 8 then Inl (Errorf ''Not found block num connected to given hash'')
                 else Inr (UnmarshallUint64 val)
   | None \<Rightarrow> Inl (Errorf ''Not found block num connected to given hash''))"

definition kv_GetBlockByNum :: "codec \<Rightarrow> uint64 \<Rightarrow> KvStore \<Rightarrow> error + Block option" where
  "kv_GetBlockByNum cd num s = (case GetBlockHash num s of
     None \<Rightarrow> Inl (Errorf ''Not found hash mapped to given number'')
   | Some hash \<Rightarrow> GetBlock cd num hash s)"

text \<open>The only error of \<open>GetBlockNum\<close> contains ''Not found'' and is turned into a nil block.\<close>

definition kv_GetBlockByHash :: "codec \<Rightarrow> bytes \<Rightarrow> KvStore \<Rightarrow> error + Block option" where
  "kv_GetBlockByHash cd hash s = (case GetBlockNum hash s of
     Inl e \<Rightarrow> Inr None
   | Inr num \<Rightarrow> GetBlock cd num hash s)"

definition kv_GetBlockBySlot :: "codec \<Rightarrow> uint64 \<Rightarrow> KvStore \<Rightarrow> error + Block option" where
  "kv_GetBlockBySlot cd slot s = (case Get BlocksSlotBucket (genSlotKey slot) s of
     Some val \<Rightarrow> if length val \<noteq> 8 then Inl (Errorf ''Not found block num connected to given slot'')
                 else kv_GetBlockByNum cd (UnmarshallUint64 val) s
   | None \<Rightarrow> Inl (Errorf ''Not found block num connected to given slot''))"

definition CountBlocks :: "KvStore \<Rightarrow> nat" where
  "CountBlocks s = length (filter (\<lambda>((b, k), v). b = BlocksBucket) (kv_data s))"

definition ErrNoHead :: error where
  "ErrNoHead = Sentinel ''Header block was not found''"

definition SaveHeadBlockNum :: "(nat \<Rightarrow> error option) \<Rightarrow> uint64 \<Rightarrow> KvStore \<Rightarrow> kv_result" where
  "SaveHeadBlockNum io num s = Update io (Put io BlocksBucket lastBlockKey (MarshalUint64 [] num)) s"

definition kv_GetHeadBlockNum :: "KvStore \<Rightarrow> error + uint64" where
  "kv_GetHeadBlockNum s = (case Get BlocksBucket lastBlockKey s of
     None \<Rightarrow> Inl ErrNoHead | Some val \<Rightarrow> Inr (UnmarshallUint64 val))"

definition kv_GetGenesis :: "codec \<Rightarrow> KvStore \<Rightarrow> error + Block option" where
  "kv_GetGenesis cd s = (case Get BlocksBucket genesisBlockKey s of
     None \<Rightarrow> Inr None
   | Some enc \<Rightarrow> (case UnmarshalBlock cd enc of Inl e \<Rightarrow> Inl e | Inr blk \<Rightarrow> Inr (Some blk)))"

definition SaveGenesis :: "codec \<Rightarrow> (nat \<Rightarrow> error option) \<Rightarrow> Block \<Rightarrow> KvStore \<Rightarrow> kv_result" where
  "SaveGenesis cd io block s = (case MarshalBlock cd (Some block) of
     Inl e \<Rightarrow> (s, Some e)
   | Inr data \<Rightarrow> Update io (Put io BlocksBucket genesisBlockKey data) s)"

subsection \<open>Amount statistics\<close>

text \<open>The buffer juggling of \<open>marshalStats\<close> ends with the two counters one after the other.\<close>

definition marshalStats :: "uint64 \<Rightarrow> uint64 \<Rightarrow> bytes" where
  "marshalStats counter fee =
    (let raw = MarshalUint64 (replicate 8 0) counter in MarshalUint64 (drop 8 raw) fee)"

definition unmarshalStats :: "bytes \<Rightarrow> uint64 \<times> uint64" where
  "unmarshalStats raw = (UnmarshallUint64 (take 8 raw), UnmarshallUint64 (drop 8 raw))"

definition UpdateAmountStats :: "(nat \<Rightarrow> error option) \<Rightarrow> uint64 \<Rightarrow> uint64 \<Rightarrow> KvStore \<Rightarrow> kv_result" where
  "UpdateAmountStats io reward fee s = Update io (\<lambda>s.
     case Get AddressBucket statsKey s of
       None \<Rightarrow> Put io AddressBucket statsKey (marshalStats reward fee) s
     | Some raw \<Rightarrow> (case unmarshalStats raw of (rewardTotal, feeTotal) \<Rightarrow>
         Put io AddressBucket statsKey (marshalStats (rewardTotal + reward) (feeTotal + fee)) s)) s"

definition kv_GetAmountStats :: "KvStore \<Rightarrow> uint64 \<times> uint64" where
  "kv_GetAmountStats s = (case Get AddressBucket statsKey s of
     None \<Rightarrow> (0, 0) | Some raw \<Rightarrow> unmarshalStats raw)"

subsection \<open>Reading transactions\<close>

definition getTransactionByLink :: "codec \<Rightarrow> bytes \<Rightarrow> KvStore \<Rightarrow> error + PbTransaction" where
  "getTransactionByLink cd lnk s =
    (let size = length lnk in
     if size < 4 then Inl (Panic ''slice bounds out of range'')
     else (let blockKey = take (size - 4) lnk; index32 = UnmarshallUint32 (drop (size - 4) lnk) in
       case Get BlocksBucket blockKey s of
         None \<Rightarrow> Inl (Errorf ''Undefined block with key'')
       | Some blockBuf \<Rightarrow>
          (case UnmarshalBlock cd blockBuf of
             Inl e \<Rightarrow> Inl (Errorf ''Block unmarshal error'')
           | Inr block \<Rightarrow>
              (let index = unat index32 in
               if index > length (bk_Transactions block) then Inl (Errorf ''Wrong transaction index'')
               else if index = length (bk_Transactions block) then Inl (Panic ''index out of range'')
               else Inr (bk_Transactions block ! index)))))"

definition kv_GetTransactionByHash :: "codec \<Rightarrow> bytes \<Rightarrow> KvStore \<Rightarrow> error + PbTransaction" where
  "kv_GetTransactionByHash cd hash s = (case Get TransactionBucket (genTxHashKey hash) s of
     None \<Rightarrow> Inl (Errorf ''Undefined transaction'')
   | Some blockLink \<Rightarrow> getTransactionByLink cd blockLink s)"

definition kv_GetTransactionsCount :: "bytes \<Rightarrow> KvStore \<Rightarrow> uint64" where
  "kv_GetTransactionsCount addr s = (case Get AddressBucket (genAddrKey addr) s of
     None \<Rightarrow> 0 | Some data \<Rightarrow> UnmarshallUint64 data)"

subsection \<open>Keys do not collide\<close>

lemma MarshalUint64_inj [simp]: "MarshalUint64 d a = MarshalUint64 d b \<longleftrightarrow> a = b"
proof
  assume "MarshalUint64 d a = MarshalUint64 d b"
  then have "MarshalUint64 [] a = MarshalUint64 [] b" by (simp add: MarshalUint64_def)
  then show "a = b" by (metis UnmarshallUint64_Marshal)
qed simp

lemma key_inj [simp]:
  "genHashKey n = genHashKey n' \<longleftrightarrow> n = n'"
  "genSlotKey n = genSlotKey n' \<longleftrightarrow> n = n'"
  "genNumKey h = genNumKey h' \<longleftrightarrow> h = h'"
  "genTxHashKey h = genTxHashKey h' \<longleftrightarrow> h = h'"
  "genAddrKey h = genAddrKey h' \<longleftrightarrow> h = h'"
  by (simp_all add: genHashKey_def genSlotKey_def genNumKey_def genTxHashKey_def genAddrKey_def)

lemma genBlockKey_inj [simp]: "genBlockKey n h = genBlockKey n' h' \<longleftrightarrow> n = n' \<and> h = h'"
  by (auto simp: genBlockKey_def append_eq_append_conv)

lemma key_distinct [simp]:
  "genBlockKey n h \<noteq> lastBlockKey" "genBlockKey n h \<noteq> genesisBlockKey"
  "lastBlockKey \<noteq> genBlockKey n h" "genesisBlockKey \<noteq> genBlockKey n h"
  "lastBlockKey \<noteq> genesisBlockKey" "genesisBlockKey \<noteq> lastBlockKey"
  "genAddrKey a \<noteq> statsKey" "statsKey \<noteq> genAddrKey a"
  by (simp_all add: genBlockKey_def MarshalUint64_def lastBlockKey_def genesisBlockKey_def str_def
      genAddrKey_def statsKey_def)

subsection \<open>Successful writes\<close>

lemma Put_ok: "Put io b k v s = (s', None) \<Longrightarrow>
    Get b' k' s' = (if b' = b \<and> k' = k then Some v else Get b' k' s)"
  by (auto simp: Put_def Get_def Let_def map_of_update split: option.splits)

lemma andThen_ok: "andThen r f = (s', None) \<longleftrightarrow> (\<exists>s. r = (s, None) \<and> f s = (s', None))"
  by (auto simp: andThen_def split: prod.splits option.splits)

lemma Update_ok: "Update io f s = (s', None) \<Longrightarrow> \<exists>s1. f s = (s1, None) \<and> kv_data s' = kv_data s1"
  by (auto simp: Update_def split: prod.splits option.splits)

lemma Update_fail: "Update io f s = (s', Some e) \<Longrightarrow> kv_data s' = kv_data s"
  by (auto simp: Update_def split: prod.splits option.splits)

lemma Get_data: "kv_data s' = kv_data s \<Longrightarrow> Get b k s' = Get b k s"
  by (simp add: Get_def)

lemma Update_Put_ok:
  assumes "Update io (Put io b k v) s = (s', None)"
  shows "Get b' k' s' = (if b' = b \<and> k' = k then Some v else Get b' k' s)"
proof -
  obtain t where t: "Put io b k v s = (t, None)" "kv_data s' = kv_data t"
    using Update_ok [OF assms] by blast
  show ?thesis using Put_ok [OF t(1)] Get_data [OF t(2)] by simp
qed

lemma saveTransactions_loop_ok:
  "saveTransactions_loop io bk i txs s = (s', None) \<Longrightarrow>
    (b \<noteq> TransactionBucket \<longrightarrow> Get b k s' = Get b k s) \<and>
    (\<forall>h. h \<notin> pt_Hash ` set txs \<longrightarrow> Get TransactionBucket (genTxHashKey h) s' = Get TransactionBucket (genTxHashKey h) s) \<and>
    (distinct (map pt_Hash txs) \<longrightarrow> (\<forall>j < length txs.
      Get TransactionBucket (genTxHashKey (pt_Hash (txs ! j))) s' = Some (bk @ MarshalUint32 [] (word_of_nat (i + j)))))"
proof (induction io bk i txs s rule: saveTransactions_loop.induct)
  case (2 io bk i tx txs s)
  then obtain s1 where p: "Put io TransactionBucket (genTxHashKey (pt_Hash tx)) (bk @ MarshalUint32 [] (word_of_nat i)) s = (s1, None)"
    and l: "saveTransactions_loop io bk (Suc i) txs s1 = (s', None)"
    by (auto simp: andThen_ok)
  note ih = "2.IH" [OF l]
  show ?case
  proof (intro conjI impI allI)
    fix j
    assume d: "distinct (map pt_Hash (tx # txs))" and j: "j < length (tx # txs)"
    show "Get TransactionBucket (genTxHashKey (pt_Hash ((tx # txs) ! j))) s' =
      Some (bk @ MarshalUint32 [] (word_of_nat (i + j)))"
      using ih d j Put_ok [OF p] by (cases j) auto
  qed (use ih Put_ok [OF p] in auto)
qed simp

lemma updateBlockAccountState_ok:
  "updateBlockAccountState io txs s = (s', None) \<Longrightarrow>
    (b \<noteq> AddressBucket \<longrightarrow> Get b k s' = Get b k s) \<and> Get AddressBucket statsKey s' = Get AddressBucket statsKey s \<and>
    (Get AddressBucket (genAddrKey a) s = Some (MarshalUint64 [] n) \<longrightarrow>
       Get AddressBucket (genAddrKey a) s' = Some (MarshalUint64 [] n))"
proof (induction txs arbitrary: s)
  case (Cons tx txs)
  show ?case
  proof (cases "IsSystemTx tx")
    case True
    with Cons show ?thesis by simp
  next
    case False
    with Cons.prems obtain i ins where i: "pt_Inputs tx = i # ins" by (cases "pt_Inputs tx") auto
    with Cons.prems False obtain buf s1 where
      buf: "nonceEntry (Get AddressBucket (genAddrKey (ti_Address i)) s) (pt_Num tx) = Inr buf"
      and p: "Put io AddressBucket (genAddrKey (ti_Address i)) buf s = (s1, None)"
      and l: "updateBlockAccountState io txs s1 = (s', None)"
      by (auto simp: Let_def andThen_ok split: sum.splits)
    have "Get AddressBucket (genAddrKey (ti_Address i)) s = Some (MarshalUint64 [] n) \<Longrightarrow> buf = MarshalUint64 [] n"
      using buf by (auto simp: nonceEntry_def Let_def split: if_splits)
    then show ?thesis
      using Cons.IH [OF l] Put_ok [OF p] by (auto split: if_splits)
  qed
qed simp

text \<open>What a successful \<open>WriteBlock\<close> leaves in every bucket.\<close>

lemma WriteBlock_ok:
  assumes "WriteBlock cd io b s = (s', None)"
  shows "\<exists>data. MarshalBlock cd (Some b) = Inr data \<and>
      (\<forall>k. Get BlocksBucket k s' = (if k = genBlockKey (bk_Num b) (bk_Hash b) then Some data else Get BlocksBucket k s)) \<and>
      Get BlocksBucket (genBlockKey (bk_Num b) (bk_Hash b)) s = None \<and>
      (\<forall>k. Get BlocksNumBucket k s' = (if k = genNumKey (bk_Hash b) then Some (MarshalUint64 [] (bk_Num b)) else Get BlocksNumBucket k s)) \<and>
      (\<forall>k. Get BlocksSlotBucket k s' = (if k = genSlotKey (bk_Slot b) then Some (MarshalUint64 [] (bk_Num b)) else Get BlocksSlotBucket k s)) \<and>
      (\<forall>k. Get BlocksHashBucket k s' = (if k = genHashKey (bk_Num b) then Some (bk_Hash b) else Get BlocksHashBucket k s)) \<and>
      (\<forall>h. h \<notin> pt_Hash ` set (bk_Transactions b) \<longrightarrow>
         Get TransactionBucket (genTxHashKey h) s' = Get TransactionBucket (genTxHashKey h) s) \<and>
      (distinct (map pt_Hash (bk_Transactions b)) \<longrightarrow> (\<forall>j < length (bk_Transactions b).
         Get TransactionBucket (genTxHashKey (pt_Hash (bk_Transactions b ! j))) s' =
           Some (genBlockKey (bk_Num b) (bk_Hash b) @ MarshalUint32 [] (word_of_nat j)))) \<and>
      Get AddressBucket statsKey s' = Get AddressBucket statsKey s \<and>
      (\<forall>a n. Get AddressBucket (genAddrKey a) s = Some (MarshalUint64 [] n) \<longrightarrow>
         Get AddressBucket (genAddrKey a) s' = Some (MarshalUint64 [] n))"
proof -
  let ?key = "genBlockKey (bk_Num b) (bk_Hash b)"
  obtain data where data: "MarshalBlock cd (Some b) = Inr data"
    using assms by (auto simp: WriteBlock_def split: sum.splits)
  obtain t where fresh: "Get BlocksBucket ?key s = None" and t: "kv_data s' = kv_data t"
    and chain: "andThen (Put io BlocksBucket ?key data s) (\<lambda>s.
                andThen (updateBlockAccountState io (bk_Transactions b) s) (\<lambda>s.
                andThen (saveBlockNum io (bk_Num b) (bk_Hash b) s) (\<lambda>s.
                andThen (saveBlockSlot io (bk_Slot b) (bk_Num b) s) (\<lambda>s.
                andThen (saveBlockHash io (bk_Num b) (bk_Hash b) s) (\<lambda>s.
                saveTransactions io b s))))) = (t, None)"
    using assms data by (auto simp: WriteBlock_def Let_def dest!: Update_ok split: if_splits)
  then obtain s1 s2 s3 s4 s5 where
    1: "Put io BlocksBucket ?key data s = (s1, None)" and
    2: "updateBlockAccountState io (bk_Transactions b) s1 = (s2, None)" and
    3: "saveBlockNum io (bk_Num b) (bk_Hash b) s2 = (s3, None)" and
    4: "saveBlockSlot io (bk_Slot b) (bk_Num b) s3 = (s4, None)" and
    5: "saveBlockHash io (bk_Num b) (bk_Hash b) s4 = (s5, None)" and
    6: "saveTransactions_loop io ?key 0 (bk_Transactions b) s5 = (t, None)"
    by (auto simp: andThen_ok saveTransactions_def)
  note g = Put_ok [OF 1] updateBlockAccountState_ok [OF 2] Put_ok [OF 3 [unfolded saveBlockNum_def]]
    Put_ok [OF 4 [unfolded saveBlockSlot_def]] Put_ok [OF 5 [unfolded saveBlockHash_def]]
    saveTransactions_loop_ok [OF 6]
  show ?thesis
    using data fresh by (auto simp: g Get_data [OF t])
qed

lemma WriteBlock_fail: "WriteBlock cd io b s = (s', Some e) \<Longrightarrow> kv_data s' = kv_data s"
  by (auto simp: WriteBlock_def Let_def dest: Update_fail split: sum.splits)

lemma GetBlock_found:
  "codec_ok cd \<Longrightarrow> MarshalBlock cd (Some b) = Inr data \<Longrightarrow> Get BlocksBucket (genBlockKey n h) s = Some data \<Longrightarrow>
   GetBlock cd n h s = Inr (Some b)"
  by (simp add: GetBlock_def UnmarshalBlock_Marshal)

lemma unmarshalStats_marshal [simp]: "unmarshalStats (marshalStats r f) = (r, f)"
proof -
  have "marshalStats r f = MarshalUint64 [] r @ MarshalUint64 [] f"
    by (simp add: marshalStats_def MarshalUint64_def)
  moreover have "UnmarshallUint64 (take 8 (MarshalUint64 [] x @ y)) = x" for x y
    using UnmarshallUint64_Marshal [of x] by (simp add: UnmarshallUint64_def)
  moreover have "drop 8 (MarshalUint64 [] x @ y) = y" for x y by simp
  ultimately show ?thesis by (simp add: unmarshalStats_def UnmarshallUint64_def)
qed

lemma UpdateAmountStats_ok:
  assumes "UpdateAmountStats io r f s = (s', None)"
  shows "kv_GetAmountStats s' = (fst (kv_GetAmountStats s) + r, snd (kv_GetAmountStats s) + f)"
    and "b \<noteq> AddressBucket \<or> k \<noteq> statsKey \<Longrightarrow> Get b k s' = Get b k s"
proof -
  obtain v where v: "v = marshalStats (fst (kv_GetAmountStats s) + r) (snd (kv_GetAmountStats s) + f)" by simp
  then obtain t where "Put io AddressBucket statsKey v s = (t, None)" and t: "kv_data s' = kv_data t"
    using assms by (auto simp: UpdateAmountStats_def kv_GetAmountStats_def dest!: Update_ok
        split: option.splits prod.splits)
  then have g: "Get b k s' = (if b = AddressBucket \<and> k = statsKey then Some v else Get b k s)" for b k
    using Put_ok [of io AddressBucket statsKey v s t] Get_data [OF t] by simp
  show "kv_GetAmountStats s' = (fst (kv_GetAmountStats s) + r, snd (kv_GetAmountStats s) + f)"
    by (simp add: kv_GetAmountStats_def [of s'] g v)
  show "b \<noteq> AddressBucket \<or> k \<noteq> statsKey \<Longrightarrow> Get b k s' = Get b k s" by (auto simp: g)
qed

lemma SaveHeadBlockNum_ok:
  assumes "SaveHeadBlockNum io n s = (s', None)"
  shows "Get b k s' = (if b = BlocksBucket \<and> k = lastBlockKey then Some (MarshalUint64 [] n) else Get b k s)"
  using Update_Put_ok assms unfolding SaveHeadBlockNum_def .

lemma SaveGenesis_ok:
  assumes "SaveGenesis cd io g s = (s', None)"
  shows "\<exists>data. MarshalBlock cd (Some g) = Inr data \<and>
    (\<forall>b k. Get b k s' = (if b = BlocksBucket \<and> k = genesisBlockKey then Some data else Get b k s))"
  using assms by (simp add: SaveGenesis_def Update_Put_ok split: sum.splits)

lemma getTransactionByLink_ok:
  assumes "codec_ok cd" "MarshalBlock cd (Some b) = Inr data" "Get BlocksBucket k s = Some data"
    and "j < length (bk_Transactions b)" "j < 2 ^ 32"
  shows "getTransactionByLink cd (k @ MarshalUint32 [] (word_of_nat j)) s = Inr (bk_Transactions b ! j)"
proof -
  have "unat (word_of_nat j :: uint32) = j"
    using assms(5) by (simp add: unat_of_nat)
  moreover have "UnmarshallUint32 (MarshalUint32 [] (word_of_nat j)) = word_of_nat j"
    by (simp add: MarshalUint32_def)
  moreover have "length (MarshalUint32 [] (word_of_nat j)) = 4" by (simp add: MarshalUint32_def)
  ultimately show ?thesis
    using assms by (simp add: getTransactionByLink_def Let_def UnmarshalBlock_Marshal)
qed

lemma block_reads:
  assumes "codec_ok cd" "WriteBlock cd io b s = (s', None)"
    and "distinct (map pt_Hash (bk_Transactions b))" "length (bk_Transactions b) < 2 ^ 32"
  shows "GetBlock cd (bk_Num b) (bk_Hash b) s' = Inr (Some b)
    \<and> kv_GetBlockByNum cd (bk_Num b) s' = Inr (Some b)
    \<and> kv_GetBlockByHash cd (bk_Hash b) s' = Inr (Some b)
    \<and> kv_GetBlockBySlot cd (bk_Slot b) s' = Inr (Some b)
    \<and> list_all (\<lambda>tx. kv_GetTransactionByHash cd (pt_Hash tx) s' = Inr tx) (bk_Transactions b)
    \<and> ((n, h) \<noteq> (bk_Num b, bk_Hash b) \<longrightarrow> GetBlock cd n h s' = GetBlock cd n h s)"
proof -
  obtain data where d: "MarshalBlock cd (Some b) = Inr data"
    and g: "\<forall>k. Get BlocksBucket k s' = (if k = genBlockKey (bk_Num b) (bk_Hash b) then Some data else Get BlocksBucket k s)"
      "\<forall>k. Get BlocksNumBucket k s' = (if k = genNumKey (bk_Hash b) then Some (MarshalUint64 [] (bk_Num b)) else Get BlocksNumBucket k s)"
      "\<forall>k. Get BlocksSlotBucket k s' = (if k = genSlotKey (bk_Slot b) then Some (MarshalUint64 [] (bk_Num b)) else Get BlocksSlotBucket k s)"
      "\<forall>k. Get BlocksHashBucket k s' = (if k = genHashKey (bk_Num b) then Some (bk_Hash b) else Get BlocksHashBucket k s)"
    and t: "\<forall>j < length (bk_Transactions b).
         Get TransactionBucket (genTxHashKey (pt_Hash (bk_Transactions b ! j))) s' =
           Some (genBlockKey (bk_Num b) (bk_Hash b) @ MarshalUint32 [] (word_of_nat j))"
    using WriteBlock_ok [OF assms(2)] assms(3) by auto
  have key: "Get BlocksBucket (genBlockKey (bk_Num b) (bk_Hash b)) s' = Some data" using g(1) by simp
  have 1: "GetBlock cd (bk_Num b) (bk_Hash b) s' = Inr (Some b)" by (rule GetBlock_found [OF assms(1) d key])
  have "kv_GetTransactionByHash cd (pt_Hash tx) s' = Inr tx" if tx: "tx \<in> set (bk_Transactions b)" for tx
  proof -
    obtain j where j: "j < length (bk_Transactions b)" "tx = bk_Transactions b ! j"
      using tx by (metis in_set_conv_nth)
    show ?thesis
      using getTransactionByLink_ok [OF assms(1) d key j(1)] t j assms(4) by (simp add: kv_GetTransactionByHash_def)
  qed
  with 1 g show ?thesis
    by (auto simp: kv_GetBlockByNum_def kv_GetBlockByHash_def kv_GetBlockBySlot_def GetBlockHash_def
        GetBlockNum_def GetBlock_def list_all_iff)
qed

subsection \<open>Properties of the block store\<close>

text \<open>
  C37. A block that \<open>WriteBlock\<close> stored is returned by every way of reading it: by number and hash, by
  number, by hash and by slot; each of its transactions is returned under its hash; and every
  block stored earlier under another key reads as before.
\<close>

theorem block_write_read:
  assumes "codec_ok cd" "WriteBlock cd io b s = (s', None)"
    and "distinct (map pt_Hash (bk_Transactions b))" "length (bk_Transactions b) < 2 ^ 32"
  shows "GetBlock cd (bk_Num b) (bk_Hash b) s' = Inr (Some b)
    \<and> kv_GetBlockByNum cd (bk_Num b) s' = Inr (Some b)
    \<and> kv_GetBlockByHash cd (bk_Hash b) s' = Inr (Some b)
    \<and> kv_GetBlockBySlot cd (bk_Slot b) s' = Inr (Some b)
    \<and> list_all (\<lambda>tx. kv_GetTransactionByHash cd (pt_Hash tx) s' = Inr tx) (bk_Transactions b)
    \<and> ((n, h) \<noteq> (bk_Num b, bk_Hash b) \<longrightarrow> GetBlock cd n h s' = GetBlock cd n h s)"
  using assms by (rule block_reads)

definition demo_tx :: "uint64 \<Rightarrow> PbTransaction" where
  "demo_tx num = \<lparr>pt_Num = num, pt_Type = NormalTxType, pt_Timestamp = 1, pt_Hash = replicate 32 (word_of_int (uint num)),
     pt_Fee = 1, pt_Data = [],
     pt_Inputs = [\<lparr>ti_Hash = replicate 32 2, ti_Index = 0, ti_Address = replicate 20 5, ti_Amount = 10, ti_Node = []\<rparr>],
     pt_Outputs = [\<lparr>to_Address = replicate 20 6, to_Amount = 9, to_Node = []\<rparr>], pt_Signature = [], pt_Status = 0\<rparr>"

definition demo_block :: "uint64 \<Rightarrow> Block" where
  "demo_block num = \<lparr>bk_Num = num, bk_Slot = num + 1, bk_Version = [1, 0, 0], bk_Hash = replicate 32 (word_of_int (uint num)),
     bk_Parent = [], bk_Timestamp = 1, bk_Txroot = [], bk_Proposer = \<lparr>sg_Address = [], sg_Signature = []\<rparr>,
     bk_Approvers = [], bk_Slashers = [], bk_Transactions = [demo_tx num]\<rparr>"

definition demo_codec :: codec where
  "demo_codec = \<lparr>ssz_marshal = (\<lambda>b. if b = demo_block (bk_Num b) then Inr (MarshalUint64 [] (bk_Num b)) else Inl (Errorf ''size'')),
     ssz_unmarshal = (\<lambda>raw. Inr (demo_block (UnmarshallUint64 raw))),
     snappy_encode = (\<lambda>raw. 0 # raw), snappy_decode = (\<lambda>enc. Inr (tl enc))\<rparr>"

lemma demo_codec_ok: "codec_ok demo_codec"
  by (auto simp: codec_ok_def demo_codec_def split: if_splits)

theorem block_write_read_witness:
  "kv_GetBlockBySlot demo_codec 2 (fst (WriteBlock demo_codec (\<lambda>_. None) (demo_block 1) NewKVStore))
     = Inr (Some (demo_block 1))"
proof -
  define s' where "s' = fst (WriteBlock demo_codec (\<lambda>_. None) (demo_block 1) NewKVStore)"
  have w: "WriteBlock demo_codec (\<lambda>_. None) (demo_block 1) NewKVStore = (s', None)"
    unfolding s'_def
    by (simp add: prod_eq_iff) code_simp
  show ?thesis
    using block_write_read [OF demo_codec_ok w, of 0 "[]"] by (simp add: demo_block_def s'_def)
qed

text \<open>
  Writing a block is atomic: when \<open>WriteBlock\<close> reports an error, whether a wrong nonce, a
  duplicate, a failed write or a failed commit, no bucket has changed.
\<close>

theorem block_write_atomic:
  assumes "WriteBlock cd io b s = (s', Some e)"
  shows "Get bkt k s' = Get bkt k s"
  using WriteBlock_fail [OF assms] by (rule Get_data)

theorem block_write_atomic_witness:
  "Get BlocksBucket lastBlockKey (fst (WriteBlock demo_codec (\<lambda>n. if n = 3 then Some (Errorf ''disk'') else None)
     (demo_block 1) NewKVStore)) = Get BlocksBucket lastBlockKey NewKVStore"
proof -
  define io :: "nat \<Rightarrow> error option" where "io = (\<lambda>n. if n = 3 then Some (Errorf ''disk'') else None)"
  define s' where "s' = fst (WriteBlock demo_codec io (demo_block 1) NewKVStore)"
  have "snd (WriteBlock demo_codec io (demo_block 1) NewKVStore) = Some (Errorf ''disk'')"
    unfolding io_def by code_simp
  then have "WriteBlock demo_codec io (demo_block 1) NewKVStore = (s', Some (Errorf ''disk''))"
    by (simp add: s'_def prod_eq_iff)
  from block_write_atomic [OF this] show ?thesis by (simp add: s'_def io_def)
qed

text \<open>
  The stored nonce of an address never advances: once a first transaction has set it, every later
  block leaves it at the same value, because the value written back is the one just read; here a block
  with the address's next transaction is written and the count stays.
\<close>

theorem nonce_never_advances:
  assumes "WriteBlock cd io b s = (s', None)"
    and "Get AddressBucket (genAddrKey addr) s = Some (MarshalUint64 [] n)"
  shows "kv_GetTransactionsCount addr s' = n \<and> kv_GetTransactionsCount addr s' = kv_GetTransactionsCount addr s"
proof -
  have "Get AddressBucket (genAddrKey addr) s' = Some (MarshalUint64 [] n)"
    using WriteBlock_ok [OF assms(1)] assms(2) by blast
  then show ?thesis using assms(2) by (simp add: kv_GetTransactionsCount_def)
qed

theorem nonce_never_advances_witness:
  "let s1 = fst (WriteBlock demo_codec (\<lambda>_. None) (demo_block 1) NewKVStore);
       s2 = fst (WriteBlock demo_codec (\<lambda>_. None) (demo_block 2) s1)
   in pt_Num (demo_tx 2) = 2 \<and> kv_GetTransactionsCount (replicate 20 5) s2 = 1"
proof -
  define s1 where "s1 = fst (WriteBlock demo_codec (\<lambda>_. None) (demo_block 1) NewKVStore)"
  define s2 where "s2 = fst (WriteBlock demo_codec (\<lambda>_. None) (demo_block 2) s1)"
  have "snd (WriteBlock demo_codec (\<lambda>_. None) (demo_block 2) s1) = None" unfolding s1_def by code_simp
  then have w: "WriteBlock demo_codec (\<lambda>_. None) (demo_block 2) s1 = (s2, None)" by (simp add: s2_def prod_eq_iff)
  have "Get AddressBucket (genAddrKey (replicate 20 5)) s1 = Some (MarshalUint64 [] 1)"
    unfolding s1_def by code_simp
  from nonce_never_advances [OF w this] show ?thesis by (simp add: s1_def s2_def Let_def demo_tx_def)
qed

end
