(* ===== verification/Staking.thy ===== *)
theory Staking
  imports Types
begin

section \<open>The staking pool\<close>

text \<open>
  Models \<^verbatim>\<open>src/blockchain/consensus/staking/pool.go\<close>: the registry of validators with their own
  stake and the stakes of their electors, the slot counters, and the snapshot of electors that
  the system still has to unstake. Every operation returns the new pool and its error. The pool's mutex
  makes each operation atomic. The deposits read from the
  blockchain, the chain configuration and the generator behind \<^verbatim>\<open>rand.Int63n\<close> are arguments.

  Shown: the slot accounting invariant and its preservation by every operation, reservation
  never exceeds the limit, the consistency of per-validator stakes (and the one operation that
  breaks it), the bound on the reward of a block, and the choice of the proposer.
\<close>

record ValidatorStakeData =
  vs_SlotsFilled :: int
  vs_CumulativeStake :: uint64
  vs_Electors :: "(string, uint64) gomap"
  vs_SelfStake :: uint64

record StakingPool =
  sp_validators :: "(string, ValidatorStakeData) gomap"
  sp_electors :: "(string, (string, unit) gomap) gomap"
  sp_unstakedSnapshot :: "(string, (string, uint64) gomap) gomap"
  sp_cumulativeStake :: uint64
  sp_stakeAmountPerSlot :: uint64
  sp_slotsLimit :: int
  sp_slotsFilled :: int
  sp_slotsReserved :: int

definition emptyStakeData :: ValidatorStakeData where
  "emptyStakeData = \<lparr>vs_SlotsFilled = 0, vs_CumulativeStake = 0, vs_Electors = [], vs_SelfStake = 0\<rparr>"

definition NewStakingPool :: "int \<Rightarrow> uint64 \<Rightarrow> StakingPool" where
  "NewStakingPool slotsLimit stakeAmount =
     \<lparr>sp_validators = [], sp_electors = [], sp_unstakedSnapshot = [], sp_cumulativeStake = 0,
      sp_stakeAmountPerSlot = stakeAmount, sp_slotsLimit = slotsLimit, sp_slotsFilled = 0,
      sp_slotsReserved = 0\<rparr>"

type_synonym pool_result = "StakingPool \<times> error option"

subsection \<open>Slots\<close>

definition getEmptySlots :: "StakingPool \<Rightarrow> int" where
  "getEmptySlots p = go_int (sp_slotsLimit p - sp_slotsFilled p)"

definition filledSlots :: "StakingPool \<Rightarrow> bool \<Rightarrow> int" where
  "filledSlots p includeReserved =
     (if includeReserved then go_int (sp_slotsFilled p + sp_slotsReserved p) else sp_slotsFilled p)"

definition CanValidatorStake :: "StakingPool \<Rightarrow> bool \<Rightarrow> bool" where
  "CanValidatorStake p includeReserved = (filledSlots p includeReserved < sp_slotsLimit p)"

definition ReserveSlots :: "StakingPool \<Rightarrow> uint64 \<Rightarrow> pool_result" where
  "ReserveSlots p amount =
    (if \<not> CanValidatorStake p True then (p, Some (Errorf ''All stake slots are filled.''))
     else if sp_stakeAmountPerSlot p = 0 then (p, Some (Panic ''integer divide by zero''))
     else if amount mod sp_stakeAmountPerSlot p \<noteq> 0 then (p, Some (Errorf ''Wrong amount for staking given.''))
     else (let count = sint (amount div sp_stakeAmountPerSlot p) in
       if count = 0 then (p, Some (Errorf ''Too low amount for staking.''))
       else (let emptySlots = go_int (sp_slotsLimit p - filledSlots p True) in
         if emptySlots < count then (p, Some (Errorf ''Can't reserve all slots with given amount.''))
         else (p\<lparr>sp_slotsReserved := go_int (sp_slotsReserved p + count)\<rparr>, None))))"

subsection \<open>The snapshot of electors to unstake\<close>

definition snap :: "StakingPool \<Rightarrow> string \<Rightarrow> (string, uint64) gomap" where
  "snap p validator = (case map_of (sp_unstakedSnapshot p) validator of None \<Rightarrow> [] | Some m \<Rightarrow> m)"

fun markFullUnstake_loop :: "StakingPool \<Rightarrow> string \<Rightarrow> (string, uint64) gomap \<Rightarrow> StakingPool" where
  "markFullUnstake_loop p validator [] = p"
| "markFullUnstake_loop p validator ((elector, amount) # es) =
    (let p = (if \<not> ghas (snap p validator) elector
              then p\<lparr>sp_unstakedSnapshot :=
                       gput validator (gput elector amount (snap p validator)) (sp_unstakedSnapshot p)\<rparr>
              else p)
     in markFullUnstake_loop p validator es)"

definition MarkFullUnstake :: "StakingPool \<Rightarrow> string \<Rightarrow> pool_result" where
  "MarkFullUnstake p validator = (case map_of (sp_validators p) validator of
     None \<Rightarrow> (p, Some (Panic ''nil pointer dereference''))
   | Some d \<Rightarrow> (markFullUnstake_loop p validator (vs_Electors d), None))"

definition SystemUnstakeElector :: "StakingPool \<Rightarrow> string \<Rightarrow> string \<Rightarrow> uint64 \<Rightarrow> StakingPool" where
  "SystemUnstakeElector p validator elector amount =
     p\<lparr>sp_unstakedSnapshot := gput validator
         (if \<not> ghas (snap p validator) elector
          then gput elector amount (snap p validator)
          else gput elector (gget0 (snap p validator) elector + amount) (snap p validator))
         (sp_unstakedSnapshot p)\<rparr>"

subsection \<open>Registering and cancelling stakes\<close>

definition registerValidatorStake :: "StakingPool \<Rightarrow> string \<Rightarrow> uint64 \<Rightarrow> pool_result" where
  "registerValidatorStake p validator amount =
    (let empty = getEmptySlots p in
     if empty = 0 then (p, Some (Errorf ''Validator slots limit is reached.''))
     else if empty < 0 then (p, Some (Errorf ''Validator slots inconsistent.''))
     else if sp_stakeAmountPerSlot p = 0 then (p, Some (Panic ''integer divide by zero''))
     else (let slotsCount = sint (amount div sp_stakeAmountPerSlot p) in
       if empty < slotsCount then (p, Some (Errorf ''Can't feel all slots.''))
       else (let d = (case map_of (sp_validators p) validator of None \<Rightarrow> emptyStakeData | Some d \<Rightarrow> d);
                 d = d\<lparr>vs_CumulativeStake := vs_CumulativeStake d + amount,
                       vs_SelfStake := vs_SelfStake d + amount,
                       vs_SlotsFilled := go_int (vs_SlotsFilled d + slotsCount)\<rparr>
             in (p\<lparr>sp_validators := gput validator d (sp_validators p),
                   sp_slotsFilled := go_int (sp_slotsFilled p + slotsCount),
                   sp_cumulativeStake := sp_cumulativeStake p + amount\<rparr>, None))))"

definition cancelValidatorStake :: "StakingPool \<Rightarrow> string \<Rightarrow> uint64 \<Rightarrow> pool_result" where
  "cancelValidatorStake p validator amount =
    (if sp_stakeAmountPerSlot p = 0 then (p, Some (Panic ''integer divide by zero''))
     else (let slotsCount = sint (amount div sp_stakeAmountPerSlot p) in
       if slotsCount = 0 then (p, Some (Errorf ''Bad unstake amount given.''))
       else (case map_of (sp_validators p) validator of
           None \<Rightarrow> (p, Some (Errorf ''Validator not found''))
         | Some d \<Rightarrow>
            (let p = (if vs_SlotsFilled d = slotsCount
                      then (let p = fst (MarkFullUnstake p validator)
                            in p\<lparr>sp_validators := gdel validator (sp_validators p)\<rparr>)
                      else p\<lparr>sp_validators := gput validator
                               (d\<lparr>vs_SelfStake := vs_SelfStake d - amount,
                                  vs_SlotsFilled := go_int (vs_SlotsFilled d - slotsCount)\<rparr>)
                               (sp_validators p)\<rparr>)
             in (p\<lparr>sp_cumulativeStake := sp_cumulativeStake p - amount,
                   sp_slotsFilled := go_int (sp_slotsFilled p - slotsCount)\<rparr>, None)))))"

definition registerElectorStake :: "StakingPool \<Rightarrow> string \<Rightarrow> string \<Rightarrow> uint64 \<Rightarrow> pool_result" where
  "registerElectorStake p elector validator amount =
    (case map_of (sp_validators p) validator of
       None \<Rightarrow> (SystemUnstakeElector p validator elector amount, None)
     | Some d \<Rightarrow>
        (let d = d\<lparr>vs_CumulativeStake := vs_CumulativeStake d + amount,
                   vs_Electors := gput elector (gget0 (vs_Electors d) elector + amount) (vs_Electors d)\<rparr>;
             vs = (case map_of (sp_electors p) elector of None \<Rightarrow> [] | Some vs \<Rightarrow> vs)
         in (p\<lparr>sp_validators := gput validator d (sp_validators p),
               sp_electors := gput elector (gput validator () vs) (sp_electors p),
               sp_cumulativeStake := sp_cumulativeStake p + amount\<rparr>, None)))"

definition cancelElectorStake :: "StakingPool \<Rightarrow> string \<Rightarrow> string \<Rightarrow> uint64 \<Rightarrow> pool_result" where
  "cancelElectorStake p elector validator amount =
    (case map_of (sp_validators p) validator of
       None \<Rightarrow> (p, Some (Errorf ''Not found validator''))
     | Some d \<Rightarrow>
        (case map_of (vs_Electors d) elector of
           None \<Rightarrow> (p, Some (Errorf ''Not found elector''))
         | Some staked \<Rightarrow>
            (let p = (case map_of (snap p validator) elector of
                        None \<Rightarrow> p
                      | Some unstake \<Rightarrow> p\<lparr>sp_unstakedSnapshot := gput validator
                          (if unstake > amount then gput elector (unstake - amount) (snap p validator)
                           else gdel elector (snap p validator)) (sp_unstakedSnapshot p)\<rparr>);
                 es = (if staked = amount then gdel elector (vs_Electors d)
                       else gput elector (staked - amount) (vs_Electors d));
                 d = d\<lparr>vs_Electors := es, vs_CumulativeStake := vs_CumulativeStake d - amount\<rparr>
             in (p\<lparr>sp_validators := gput validator d (sp_validators p),
                   sp_cumulativeStake := sp_cumulativeStake p - amount\<rparr>, None))))"

subsection \<open>Initialisation from the deposits of the chain\<close>

fun init_loop :: "StakingPool \<Rightarrow> UTxO list \<Rightarrow> pool_result" where
  "init_loop p [] = (p, None)"
| "init_loop p (uo # deposits) =
    (if length (uo_Node uo) \<noteq> AddressLength then init_loop p deposits
     else (case (if Address_Hex (uo_Node uo) = BlackHoleAddress
                 then registerValidatorStake p (Address_Hex (uo_To uo)) (uo_Amount uo)
                 else registerElectorStake p (Address_Hex (uo_From uo)) (Address_Hex (uo_Node uo)) (uo_Amount uo))
           of (p, Some e) \<Rightarrow> (p, Some e)
            | (p, None) \<Rightarrow> init_loop p deposits))"

text \<open>\<open>deposits\<close> is the answer of \<^verbatim>\<open>FindStakeDeposits\<close>.\<close>

definition StakingPool_Init :: "StakingPool \<Rightarrow> error + UTxO list \<Rightarrow> pool_result" where
  "StakingPool_Init p deposits = (case deposits of Inl e \<Rightarrow> (p, Some e) | Inr ds \<Rightarrow> init_loop p ds)"

subsection \<open>Transactions of a finalized block\<close>

fun stake_amounts :: "uint64 \<times> (string, uint64) gomap \<Rightarrow> Output list \<Rightarrow> uint64 \<times> (string, uint64) gomap" where
  "stake_amounts acc [] = acc"
| "stake_amounts (va, es) (out # outs) =
    (if length (out_node out) \<noteq> AddressLength then stake_amounts (va, es) outs
     else (let node = Address_Hex (out_node out) in
       if node = BlackHoleAddress then stake_amounts (va + out_amount out, es) outs
       else stake_amounts (va, gput node (gget0 es node + out_amount out) es) outs))"

fun register_electors :: "StakingPool \<Rightarrow> string \<Rightarrow> (string, uint64) gomap \<Rightarrow> pool_result" where
  "register_electors p sender [] = (p, None)"
| "register_electors p sender ((validator, amount) # es) =
    (case registerElectorStake p sender validator amount of
       (p, Some e) \<Rightarrow> (p, Some e)
     | (p, None) \<Rightarrow> register_electors p sender es)"

definition processStakeTx :: "StakingPool \<Rightarrow> Transaction \<Rightarrow> pool_result" where
  "processStakeTx p tx =
    (case stake_amounts (0, []) (tx_outputs tx) of (validatorAmount, electorStaking) \<Rightarrow>
     (let sender = Address_Hex (tx_from tx) in
      case (if validatorAmount > 0 then registerValidatorStake p sender validatorAmount else (p, None)) of
        (p, Some e) \<Rightarrow> (p, Some e)
      | (p, None) \<Rightarrow> register_electors p sender electorStaking))"

fun unstake_node :: "string \<Rightarrow> uint64 \<Rightarrow> Input list \<Rightarrow> error + (string \<times> uint64)" where
  "unstake_node stakeNode amount [] = Inr (stakeNode, amount)"
| "unstake_node stakeNode amount (i # ins) =
    (let node = Address_Hex (in_node i) in
     if stakeNode = '''' then unstake_node node (amount + in_amount i) ins
     else if stakeNode \<noteq> node then Inl (Errorf ''Unstake from different nodes is not allowed.'')
     else unstake_node stakeNode (amount + in_amount i) ins)"

definition unstake_amount :: "uint64 \<Rightarrow> Output list \<Rightarrow> uint64" where
  "unstake_amount amount outs = fold (\<lambda>out a. if length (out_node out) = AddressLength
     then a - out_amount out else a) outs amount"

definition processUnstakeTx :: "StakingPool \<Rightarrow> Transaction \<Rightarrow> pool_result" where
  "processUnstakeTx p tx =
    (case unstake_node '''' 0 (tx_inputs tx) of
       Inl e \<Rightarrow> (p, Some e)
     | Inr (stakeNode, amount) \<Rightarrow>
       (let isValidatorUnstake = (stakeNode = BlackHoleAddress);
            amount = unstake_amount amount (tx_outputs tx) in
        if \<not> isValidatorUnstake \<and> length stakeNode \<noteq> 42 then (p, Some (Errorf ''Incorrect unstake tx''))
        else if isValidatorUnstake then cancelValidatorStake p (Address_Hex (tx_from tx)) amount
        else cancelElectorStake p (Address_Hex (tx_from tx)) stakeNode amount))"

definition processSystemUnstakeTx :: "StakingPool \<Rightarrow> Transaction \<Rightarrow> pool_result" where
  "processSystemUnstakeTx p tx =
    (case tx_outputs tx of
       [out] \<Rightarrow>
        (case tx_inputs tx of
           [] \<Rightarrow> (p, Some (Errorf ''The length of systemUnstakeTx's inputs is less than 1''))
         | i # _ \<Rightarrow>
            (let elector = Address_Hex (out_address out); amount = out_amount out;
                 validator = Address_Hex (in_node i) in
             case map_of (snap p validator) elector of
               None \<Rightarrow> (p, Some (Errorf ''Not found elector in the snapshot''))
             | Some staked \<Rightarrow>
                (p\<lparr>sp_unstakedSnapshot := gput validator
                     (if staked = amount then gdel elector (snap p validator)
                      else gput elector (staked - amount) (snap p validator)) (sp_unstakedSnapshot p),
                   sp_cumulativeStake := sp_cumulativeStake p - amount\<rparr>, None)))
     | _ \<Rightarrow> (p, Some (Errorf ''The length of systemUnstakeTx's outputs is not 1'')))"

definition finalize_tx :: "StakingPool \<Rightarrow> Transaction \<Rightarrow> pool_result" where
  "finalize_tx p tx =
    (if tx_txType tx = StakeTxType then processStakeTx p tx
     else if tx_txType tx = UnstakeTxType then processUnstakeTx p tx
     else if tx_txType tx = ValidatorsUnstakeTxType then processSystemUnstakeTx p tx
     else (p, None))"

fun finalize_loop :: "StakingPool \<Rightarrow> Transaction list \<Rightarrow> pool_result" where
  "finalize_loop p [] = (p, None)"
| "finalize_loop p (tx # txs) = (case finalize_tx p tx of
     (p, Some e) \<Rightarrow> (p, Some e) | (p, None) \<Rightarrow> finalize_loop p txs)"

definition FinalizeStaking :: "StakingPool \<Rightarrow> Transaction list \<Rightarrow> pool_result" where
  "FinalizeStaking p batch = finalize_loop (p\<lparr>sp_slotsReserved := 0\<rparr>) batch"

subsection \<open>Rewards\<close>

text \<open>\<^verbatim>\<open>big.Int.Div\<close> is Euclidean division and panics on a zero divisor.\<close>

definition big_Div :: "int \<Rightarrow> int \<Rightarrow> int" where
  "big_Div a b = (if b \<ge> 0 then a div b else - (a div (- b)))"

fun elector_rewards :: "uint64 \<Rightarrow> uint64 \<Rightarrow> (string, uint64) gomap \<Rightarrow> (string, uint64) gomap \<Rightarrow>
    error + (string, uint64) gomap" where
  "elector_rewards electorsReward electorsStake rewards [] = Inr rewards"
| "elector_rewards electorsReward electorsStake rewards ((elector, stakeAmount) # es) =
    (if sint electorsStake = 0 then Inl (Panic ''division by zero'')
     else (let reward = word_of_int (big_Div (sint stakeAmount * sint electorsReward) (sint electorsStake)) in
       if reward = 0 then elector_rewards electorsReward electorsStake rewards es
       else elector_rewards electorsReward electorsStake
              (gput elector (gget0 rewards elector + reward) rewards) es))"

definition GetRewardMap :: "RDOBlockChainConfig \<Rightarrow> StakingPool \<Rightarrow> string \<Rightarrow> error + (string, uint64) gomap" where
  "GetRewardMap cfg p proposer =
    (if sp_slotsFilled p = 0 then Inr []
     else (case map_of (sp_validators p) proposer of
         None \<Rightarrow> Inr []
       | Some stakeData \<Rightarrow>
          (let blockReward = cf_ProposerReward cfg;
               validatorReward = blockReward * cf_ChosenValidatorRewardPercent cfg div 100;
               electorsReward = blockReward - validatorReward;
               electorsStake = vs_CumulativeStake stakeData - vs_SelfStake stakeData in
           case elector_rewards electorsReward electorsStake [] (vs_Electors stakeData) of
             Inl e \<Rightarrow> Inl e
           | Inr rewards \<Rightarrow> Inr (gput proposer (gget0 rewards proposer + validatorReward) rewards))))"

definition GetRewardOutputs :: "RDOBlockChainConfig \<Rightarrow> StakingPool \<Rightarrow> string \<Rightarrow> error + TxOutput list" where
  "GetRewardOutputs cfg p proposer = (case GetRewardMap cfg p proposer of Inl e \<Rightarrow> Inl e
     | Inr rewards \<Rightarrow> Inr (map (\<lambda>(addr, amount). NewOutput (HexToAddress addr) amount []) rewards))"

subsection \<open>Queries\<close>

definition HasElector :: "StakingPool \<Rightarrow> string \<Rightarrow> string \<Rightarrow> bool" where
  "HasElector p validator elector = (case map_of (sp_validators p) validator of
     None \<Rightarrow> False | Some v \<Rightarrow> ghas (vs_Electors v) elector)"

definition HasValidator :: "StakingPool \<Rightarrow> string \<Rightarrow> bool" where
  "HasValidator p validator = ghas (sp_validators p) validator"

definition ValidatorStakeMap :: "StakingPool \<Rightarrow> (string, uint64) gomap" where
  "ValidatorStakeMap p = map (\<lambda>(v, d). (v, vs_CumulativeStake d)) (sp_validators p)"

definition GetElectorsOfValidator :: "StakingPool \<Rightarrow> string \<Rightarrow> error + (string, uint64) gomap" where
  "GetElectorsOfValidator p validator = (case map_of (sp_validators p) validator of
     None \<Rightarrow> Inl (Errorf ''Such validator does not exists'') | Some d \<Rightarrow> Inr (vs_Electors d))"

definition NumberStakers :: "StakingPool \<Rightarrow> string \<Rightarrow> nat" where
  "NumberStakers p validator = (case map_of (sp_validators p) validator of
     None \<Rightarrow> 0 | Some d \<Rightarrow> length (vs_Electors d))"

definition ListValidators :: "StakingPool \<Rightarrow> string list" where
  "ListValidators p = map fst (sp_validators p)"

definition ListStakeValidators :: "RDOBlockChainConfig \<Rightarrow> StakingPool \<Rightarrow> string list" where
  "ListStakeValidators cfg p = filter (\<lambda>val. case map_of (sp_validators p) val of None \<Rightarrow> False
     | Some d \<Rightarrow> length (vs_Electors d) < cf_MaxNumberOfStakers cfg) (ListValidators p)"

definition GetFullyUnstaked :: "StakingPool \<Rightarrow> (string, (string, unit) gomap) gomap" where
  "GetFullyUnstaked p = map (\<lambda>(k1, m). (k1, map (\<lambda>(k2, _). (k2, ())) m)) (sp_unstakedSnapshot p)"

definition IsNodeValidator :: "StakingPool \<Rightarrow> string \<Rightarrow> error option" where
  "IsNodeValidator p node = (if \<not> ghas (sp_validators p) node
     then Some (Errorf ''There is no such validator'') else None)"

subsection \<open>The proposer of a slot\<close>

definition weight :: "RDOBlockChainConfig \<Rightarrow> ValidatorStakeData \<Rightarrow> uint64" where
  "weight cfg d = (let electorsStake = vs_CumulativeStake d - vs_SelfStake d in
     vs_SelfStake d div cf_StakeSlotUnit cfg * 100
     + electorsStake div cf_StakeSlotUnit cfg * cf_ElectorsCoefficient100 cfg)"

fun pick_leader :: "(string, uint64) gomap \<Rightarrow> uint64 \<Rightarrow> uint64 \<Rightarrow> string list \<Rightarrow> string" where
  "pick_leader weights random s [] = ''''"
| "pick_leader weights random s (validator # vs) = (case map_of weights validator of
     None \<Rightarrow> pick_leader weights random s vs
   | Some w \<Rightarrow> if w + s \<ge> random then validator else pick_leader weights random (s + w) vs)"

text \<open>\<open>int63n seed n\<close> stands for \<^verbatim>\<open>rand.Seed(seed); rand.Int63n(n)\<close>, which panics when \<open>n \<le> 0\<close>.\<close>

definition DetermineProposer ::
  "(int \<Rightarrow> int \<Rightarrow> int) \<Rightarrow> RDOBlockChainConfig \<Rightarrow> StakingPool \<Rightarrow> int \<Rightarrow> error + string" where
  "DetermineProposer int63n cfg p seed =
    (if sp_validators p \<noteq> [] \<and> cf_StakeSlotUnit cfg = 0 then Inl (Panic ''integer divide by zero'')
     else (let weights = map (\<lambda>(v, d). (v, weight cfg d)) (sp_validators p);
               cumulative = sum_list (map snd weights); proposers = cf_Proposers cfg in
       if cumulative = 0 then
         (case proposers of [] \<Rightarrow> Inl (Panic ''index out of range'') | x # _ \<Rightarrow> Inr x)
       else if sint cumulative \<le> 0 then Inl (Panic ''invalid argument to Int63n'')
       else (let random = word_of_int (int63n seed (sint cumulative)) + 1
             in Inr (pick_leader weights random 0 proposers))))"


subsection \<open>Slot accounting\<close>

text \<open>
  The slot invariant: validators are listed once, each with electors listed once and a
  non-negative slot count; the pool's counter is the sum of the validators' counters and never
  exceeds the limit.
\<close>

definition slots_inv :: "StakingPool \<Rightarrow> bool" where
  "slots_inv p \<longleftrightarrow> gomap_ok (sp_validators p)
     \<and> (\<forall>(v, d) \<in> set (sp_validators p). 0 \<le> vs_SlotsFilled d \<and> gomap_ok (vs_Electors d))
     \<and> sp_slotsFilled p = msum vs_SlotsFilled (sp_validators p)
     \<and> sp_slotsFilled p \<le> sp_slotsLimit p \<and> sp_slotsLimit p < 2 ^ 63
     \<and> 2 \<le> unat (sp_stakeAmountPerSlot p)"

lemma sint_div:
  assumes "2 \<le> unat (b :: uint64)"
  shows "sint (a div b) = int (unat a div unat b)"
proof -
  have "unat a div unat b \<le> unat a div 2"
    using assms by (rule div_le_mono2 [rotated]) simp
  also have "\<dots> < 2 ^ 63" using unat64_less [of a] by (simp add: less_mult_imp_div_less)
  finally have "int (unat a div unat b) < 2 ^ 63" by simp
  moreover have "uint (a div b) = int (unat a div unat b)"
    by (simp only: unat_div_distrib [symmetric] of_nat_unat)
  ultimately show ?thesis
    by (simp add: sint_uint signed_take_bit_int_eq_self)
qed

lemma msum_nonneg:
  assumes "\<forall>(v, d) \<in> set m. 0 \<le> f d"
  shows "0 \<le> (msum f m :: int)"
  using assms by (induction m) auto

lemma msum_member:
  assumes "\<forall>(v, d) \<in> set m. 0 \<le> f d" "map_of m k = Some d"
  shows "f d \<le> (msum f m :: int)"
  using assms
proof (induction m)
  case (Cons p m)
  have "0 \<le> msum f m" by (rule msum_nonneg) (use Cons.prems in auto)
  with Cons show ?case by (cases p) (auto split: if_splits)
qed simp

lemma slots_invD:
  assumes "slots_inv p"
  shows "gomap_ok (sp_validators p)" "0 \<le> sp_slotsFilled p" "sp_slotsFilled p \<le> sp_slotsLimit p"
    "sp_slotsLimit p < 2 ^ 63" "2 \<le> unat (sp_stakeAmountPerSlot p)" "sp_stakeAmountPerSlot p \<noteq> 0"
    "map_of (sp_validators p) v = Some d \<Longrightarrow> 0 \<le> vs_SlotsFilled d"
    "map_of (sp_validators p) v = Some d \<Longrightarrow> gomap_ok (vs_Electors d)"
    "map_of (sp_validators p) v = Some d \<Longrightarrow> vs_SlotsFilled d \<le> sp_slotsFilled p"
    "sp_slotsFilled p = msum vs_SlotsFilled (sp_validators p)"
proof -
  have nonneg: "\<forall>(v, d) \<in> set (sp_validators p). 0 \<le> vs_SlotsFilled d"
    using assms by (auto simp: slots_inv_def)
  show "0 \<le> sp_slotsFilled p" using assms msum_nonneg [OF nonneg] by (simp add: slots_inv_def)
  show "map_of (sp_validators p) v = Some d \<Longrightarrow> vs_SlotsFilled d \<le> sp_slotsFilled p"
    using assms msum_member [OF nonneg] by (simp add: slots_inv_def)
  show "sp_stakeAmountPerSlot p \<noteq> 0" using assms by (auto simp: slots_inv_def)
qed (use assms in \<open>auto simp: slots_inv_def dest!: map_of_SomeD\<close>)

text \<open>Replacing one validator's data.\<close>

lemma slots_inv_put:
  assumes "slots_inv p" "0 \<le> vs_SlotsFilled d" "gomap_ok (vs_Electors d)"
    and "old = (case map_of (sp_validators p) v of None \<Rightarrow> 0 | Some d \<Rightarrow> vs_SlotsFilled d)"
    and "n = sp_slotsFilled p - old + vs_SlotsFilled d" "n \<le> sp_slotsLimit p"
    and "sp_validators q = gput v d (sp_validators p)" "sp_slotsFilled q = n"
      "sp_slotsLimit q = sp_slotsLimit p" "sp_stakeAmountPerSlot q = sp_stakeAmountPerSlot p"
  shows "slots_inv q"
proof -
  have "set (sp_validators q) \<subseteq> insert (v, d) (set (sp_validators p))"
    using set_update_subset assms(7) by metis
  moreover have "msum vs_SlotsFilled (sp_validators q) = n"
    using assms(4-7) msum_update [OF slots_invD(1) [OF assms(1)], of vs_SlotsFilled v d]
      slots_invD(10) [OF assms(1)] by (auto split: option.splits)
  ultimately show ?thesis
    using assms unfolding slots_inv_def by auto
qed

lemma slots_inv_frame:
  assumes "slots_inv p" "sp_validators q = sp_validators p" "sp_slotsFilled q = sp_slotsFilled p"
    "sp_slotsLimit q = sp_slotsLimit p" "sp_stakeAmountPerSlot q = sp_stakeAmountPerSlot p"
  shows "slots_inv q"
  using assms by (simp add: slots_inv_def)

lemma slots_inv_NewStakingPool:
  "0 \<le> limit \<Longrightarrow> limit < 2 ^ 63 \<Longrightarrow> 2 \<le> unat amount \<Longrightarrow> slots_inv (NewStakingPool limit amount)"
  by (simp add: slots_inv_def NewStakingPool_def)

lemma registerValidatorStake_inv [inv_intros]:
  assumes inv: "slots_inv p"
  shows "slots_inv (fst (registerValidatorStake p v amount))"
proof -
  let ?n = "int (unat amount div unat (sp_stakeAmountPerSlot p))"
  let ?d = "case map_of (sp_validators p) v of None \<Rightarrow> emptyStakeData | Some d \<Rightarrow> d"
  note I = slots_invD [OF inv]
  have e: "getEmptySlots p = sp_slotsLimit p - sp_slotsFilled p"
    using I(2-4) by (simp add: getEmptySlots_def go_int_id)
  have d: "0 \<le> vs_SlotsFilled ?d" "vs_SlotsFilled ?d \<le> sp_slotsFilled p" "gomap_ok (vs_Electors ?d)"
    using I(2,7-9) by (auto simp: emptyStakeData_def split: option.split)
  show ?thesis
  proof (cases "getEmptySlots p \<le> 0 \<or> getEmptySlots p < ?n")
    case True
    then show ?thesis
      using inv I(6) by (auto simp: registerValidatorStake_def Let_def sint_div [OF I(5)])
  next
    case False
    then have g: "go_int (vs_SlotsFilled ?d + ?n) = vs_SlotsFilled ?d + ?n"
      "go_int (sp_slotsFilled p + ?n) = sp_slotsFilled p + ?n"
      using d I(2-4) e by (auto intro!: go_int_id)
    show ?thesis
      by (rule slots_inv_put [OF inv, where v = v and
            d = "?d\<lparr>vs_CumulativeStake := vs_CumulativeStake ?d + amount,
                    vs_SelfStake := vs_SelfStake ?d + amount,
                    vs_SlotsFilled := vs_SlotsFilled ?d + ?n\<rparr>" and
            n = "sp_slotsFilled p + ?n", OF _ _ refl])
        (use False d g e I(6) in \<open>auto simp: registerValidatorStake_def Let_def sint_div [OF I(5)]
           emptyStakeData_def split: option.splits\<close>)
  qed
qed

lemma markFullUnstake_loop_frame [simp]:
  "sp_validators (markFullUnstake_loop p v es) = sp_validators p"
  "sp_slotsFilled (markFullUnstake_loop p v es) = sp_slotsFilled p"
  "sp_slotsLimit (markFullUnstake_loop p v es) = sp_slotsLimit p"
  "sp_slotsReserved (markFullUnstake_loop p v es) = sp_slotsReserved p"
  "sp_cumulativeStake (markFullUnstake_loop p v es) = sp_cumulativeStake p"
  "sp_stakeAmountPerSlot (markFullUnstake_loop p v es) = sp_stakeAmountPerSlot p"
  by (induction p v es rule: markFullUnstake_loop.induct) (auto simp: Let_def)

lemma slots_inv_del:
  assumes "slots_inv p" "map_of (sp_validators p) v = Some d"
    and "sp_validators q = gdel v (sp_validators p)"
      "sp_slotsFilled q = sp_slotsFilled p - vs_SlotsFilled d"
      "sp_slotsLimit q = sp_slotsLimit p" "sp_stakeAmountPerSlot q = sp_stakeAmountPerSlot p"
  shows "slots_inv q"
proof -
  have "msum vs_SlotsFilled (sp_validators q) = sp_slotsFilled q"
    using assms(2-4) msum_delete [OF slots_invD(1) [OF assms(1)], of vs_SlotsFilled v]
      slots_invD(10) [OF assms(1)] by simp
  moreover have "sp_slotsFilled q \<le> sp_slotsLimit q"
    using slots_invD(3,7) [OF assms(1)] assms(2,4,5) by fastforce
  ultimately show ?thesis
    using assms unfolding slots_inv_def by (auto simp: set_delete)
qed

text \<open>A validator does not cancel more slots than it holds.\<close>

definition unstake_covered :: "StakingPool \<Rightarrow> string \<Rightarrow> uint64 \<Rightarrow> bool" where
  "unstake_covered p v amount = (case map_of (sp_validators p) v of None \<Rightarrow> True
     | Some d \<Rightarrow> int (unat amount div unat (sp_stakeAmountPerSlot p)) \<le> vs_SlotsFilled d)"

lemma cancelValidatorStake_inv [inv_intros]:
  assumes inv: "slots_inv p" and cov: "unstake_covered p v amount"
  shows "slots_inv (fst (cancelValidatorStake p v amount))"
proof (cases "map_of (sp_validators p) v")
  case None
  then show ?thesis using inv by (simp add: cancelValidatorStake_def Let_def)
next
  case (Some d)
  let ?n = "int (unat amount div unat (sp_stakeAmountPerSlot p))"
  note I = slots_invD [OF inv]
  have d: "0 \<le> vs_SlotsFilled d" "vs_SlotsFilled d \<le> sp_slotsFilled p" "gomap_ok (vs_Electors d)"
    using Some I(7-9) by auto
  have n: "0 \<le> ?n" "?n \<le> vs_SlotsFilled d" using cov Some by (auto simp: unstake_covered_def)
  have g: "go_int (vs_SlotsFilled d - ?n) = vs_SlotsFilled d - ?n"
    "go_int (sp_slotsFilled p - ?n) = sp_slotsFilled p - ?n"
    using n d I(2-4) by (auto intro!: go_int_id)
  consider "?n = 0" | "?n \<noteq> 0" "vs_SlotsFilled d = ?n" | "?n \<noteq> 0" "vs_SlotsFilled d \<noteq> ?n" by blast
  then show ?thesis
  proof cases
    case 1
    then show ?thesis
      using inv I(6) by (simp add: cancelValidatorStake_def Let_def sint_div [OF I(5)])
  next
    case 2
    then show ?thesis
      by (intro slots_inv_del [OF inv Some])
        (use Some g I(6) in \<open>auto simp: cancelValidatorStake_def Let_def sint_div [OF I(5)] MarkFullUnstake_def\<close>)
  next
    case 3
    then show ?thesis
      by (intro slots_inv_put [OF inv, where v = v and
            d = "d\<lparr>vs_SelfStake := vs_SelfStake d - amount, vs_SlotsFilled := vs_SlotsFilled d - ?n\<rparr>" and
            n = "sp_slotsFilled p - ?n", OF _ _ refl])
        (use Some n d g I(3,6) in \<open>auto simp: cancelValidatorStake_def Let_def sint_div [OF I(5)]\<close>)
  qed
qed

lemma registerElectorStake_inv [inv_intros]:
  assumes inv: "slots_inv p"
  shows "slots_inv (fst (registerElectorStake p elector v amount))"
proof (cases "map_of (sp_validators p) v")
  case None
  then show ?thesis
    using inv by (auto simp: registerElectorStake_def SystemUnstakeElector_def intro: slots_inv_frame)
next
  case (Some d)
  note I = slots_invD [OF inv]
  show ?thesis
    by (rule slots_inv_put [OF inv, where v = v and
          d = "d\<lparr>vs_CumulativeStake := vs_CumulativeStake d + amount,
                 vs_Electors := gput elector (gget0 (vs_Electors d) elector + amount) (vs_Electors d)\<rparr>" and
          n = "sp_slotsFilled p", OF _ _ refl])
      (use Some I(3,7,8) in \<open>auto simp: registerElectorStake_def Let_def\<close>)
qed

lemma cancelElectorStake_inv [inv_intros]:
  assumes inv: "slots_inv p"
  shows "slots_inv (fst (cancelElectorStake p elector v amount))"
proof (cases "map_of (sp_validators p) v")
  case None
  then show ?thesis using inv by (simp add: cancelElectorStake_def)
next
  case (Some d)
  show ?thesis
  proof (cases "map_of (vs_Electors d) elector")
    case None
    then show ?thesis using inv Some by (simp add: cancelElectorStake_def)
  next
    case (Some staked)
    note I = slots_invD [OF inv]
    show ?thesis
      by (rule slots_inv_put [OF inv, where v = v and
            d = "d\<lparr>vs_Electors := if staked = amount then gdel elector (vs_Electors d)
                     else gput elector (staked - amount) (vs_Electors d),
                   vs_CumulativeStake := vs_CumulativeStake d - amount\<rparr>" and
            n = "sp_slotsFilled p", OF _ _ refl])
        (use Some \<open>map_of (sp_validators p) v = Some d\<close> I(3,7,8) in
          \<open>auto simp: cancelElectorStake_def Let_def split: option.splits\<close>)
  qed
qed

lemma register_electors_inv: "slots_inv p \<Longrightarrow> slots_inv (fst (register_electors p sender es))"
proof (induction p sender es rule: register_electors.induct)
  case (2 p sender validator amount es)
  then show ?case
    using registerElectorStake_inv [of p sender validator amount]
    by (auto split: prod.split option.split)
qed simp

lemma processStakeTx_inv [inv_intros]: "slots_inv p \<Longrightarrow> slots_inv (fst (processStakeTx p tx))"
  using registerValidatorStake_inv [of p "Address_Hex (tx_from tx)"]
  by (auto simp: processStakeTx_def Let_def intro!: register_electors_inv
      split: prod.splits option.splits if_splits)
    (metis fst_conv)+

text \<open>The coverage condition for a whole batch, followed along its execution.\<close>

definition tx_covered :: "StakingPool \<Rightarrow> Transaction \<Rightarrow> bool" where
  "tx_covered p tx = (tx_txType tx = UnstakeTxType \<longrightarrow>
     (case unstake_node '''' 0 (tx_inputs tx) of Inl e \<Rightarrow> True
      | Inr (node, amount) \<Rightarrow> node = BlackHoleAddress \<longrightarrow>
          unstake_covered p (Address_Hex (tx_from tx)) (unstake_amount amount (tx_outputs tx))))"

fun batch_covered :: "StakingPool \<Rightarrow> Transaction list \<Rightarrow> bool" where
  "batch_covered p [] = True"
| "batch_covered p (tx # txs) = (tx_covered p tx \<and>
     (snd (finalize_tx p tx) = None \<longrightarrow> batch_covered (fst (finalize_tx p tx)) txs))"

lemma processUnstakeTx_inv:
  "slots_inv p \<Longrightarrow> tx_covered p tx \<Longrightarrow> tx_txType tx = UnstakeTxType \<Longrightarrow>
   slots_inv (fst (processUnstakeTx p tx))"
  by (auto simp: processUnstakeTx_def tx_covered_def Let_def split: sum.splits prod.splits
      intro: inv_intros)

lemma processSystemUnstakeTx_inv: "slots_inv p \<Longrightarrow> slots_inv (fst (processSystemUnstakeTx p tx))"
  by (auto simp: processSystemUnstakeTx_def Let_def split: list.splits option.splits
      intro: slots_inv_frame)

lemma finalize_tx_inv: "slots_inv p \<Longrightarrow> tx_covered p tx \<Longrightarrow> slots_inv (fst (finalize_tx p tx))"
  by (simp add: finalize_tx_def processStakeTx_inv processUnstakeTx_inv processSystemUnstakeTx_inv)

lemma finalize_loop_inv: "slots_inv p \<Longrightarrow> batch_covered p txs \<Longrightarrow> slots_inv (fst (finalize_loop p txs))"
proof (induction txs arbitrary: p)
  case (Cons tx txs)
  then show ?case
    using finalize_tx_inv [of p tx] by (auto split: prod.split option.split)
qed simp

subsection \<open>Reservation and sequences of calls\<close>

lemma keep_rules [simp]:
  "sp_slotsReserved (fst (registerValidatorStake p v a)) = sp_slotsReserved p"
  "sp_slotsReserved (fst (registerElectorStake p e v a)) = sp_slotsReserved p"
  "sp_slotsReserved (fst (cancelValidatorStake p v a)) = sp_slotsReserved p"
  "sp_slotsReserved (fst (cancelElectorStake p e v a)) = sp_slotsReserved p"
  "sp_slotsReserved (fst (processSystemUnstakeTx p tx)) = sp_slotsReserved p"
  by (auto simp: registerValidatorStake_def registerElectorStake_def cancelValidatorStake_def
      cancelElectorStake_def processSystemUnstakeTx_def SystemUnstakeElector_def MarkFullUnstake_def
      Let_def split: option.split list.split)

lemma register_electors_keep [simp]:
  "sp_slotsReserved (fst (register_electors p s es)) = sp_slotsReserved p"
proof (induction p s es rule: register_electors.induct)
  case (2 p sender validator amount es)
  then show ?case
    using keep_rules(2) [of p sender validator amount] by (auto simp del: keep_rules split: prod.split option.split)
qed simp

lemma finalize_tx_keep [simp]: "sp_slotsReserved (fst (finalize_tx p tx)) = sp_slotsReserved p"
proof -
  have "sp_slotsReserved (fst (processStakeTx p tx)) = sp_slotsReserved p"
    using keep_rules(1) [of p "Address_Hex (tx_from tx)"]
    by (auto simp: processStakeTx_def Let_def simp del: keep_rules split: prod.split option.split) (metis fst_conv)+
  moreover have "sp_slotsReserved (fst (processUnstakeTx p tx)) = sp_slotsReserved p"
    by (auto simp: processUnstakeTx_def Let_def split: sum.split prod.split)
  ultimately show ?thesis by (simp add: finalize_tx_def)
qed

lemma finalize_loop_keep [simp]:
  "sp_slotsReserved (fst (finalize_loop p txs)) = sp_slotsReserved p"
proof (induction txs arbitrary: p)
  case (Cons tx txs)
  then show ?case
    using finalize_tx_keep [of p tx] by (auto simp del: finalize_tx_keep split: prod.split option.split)
qed simp

text \<open>Filled and reserved slots together stay within the limit.\<close>

definition pool_inv :: "StakingPool \<Rightarrow> bool" where
  "pool_inv p \<longleftrightarrow> slots_inv p \<and> 0 \<le> sp_slotsReserved p
     \<and> sp_slotsFilled p + sp_slotsReserved p \<le> sp_slotsLimit p"

lemma ReserveSlots_inv [inv_intros]:
  assumes "pool_inv p"
  shows "pool_inv (fst (ReserveSlots p amount))"
proof -
  have S: "slots_inv p" and r: "0 \<le> sp_slotsReserved p"
    "sp_slotsFilled p + sp_slotsReserved p \<le> sp_slotsLimit p"
    using assms by (auto simp: pool_inv_def)
  note I = slots_invD [OF S]
  have f: "filledSlots p True = sp_slotsFilled p + sp_slotsReserved p"
    using r I(2,4) by (simp add: filledSlots_def go_int_id)
  have e: "go_int (sp_slotsLimit p - (sp_slotsFilled p + sp_slotsReserved p)) =
    sp_slotsLimit p - (sp_slotsFilled p + sp_slotsReserved p)"
    using r I(2,4) by (intro go_int_id) auto
  have g: "int k \<le> sp_slotsLimit p - (sp_slotsFilled p + sp_slotsReserved p) \<Longrightarrow>
    go_int (sp_slotsReserved p + int k) = sp_slotsReserved p + int k" for k
    using r I(2,4) by (intro go_int_id) auto
  show ?thesis
    using assms r slots_inv_frame [OF S]
    by (auto simp: ReserveSlots_def Let_def f e sint_div [OF I(5)] pool_inv_def g)
qed

lemma FinalizeStaking_inv [inv_intros]:
  assumes "pool_inv p" "batch_covered (p\<lparr>sp_slotsReserved := 0\<rparr>) txs"
  shows "pool_inv (fst (FinalizeStaking p txs))"
proof -
  have "slots_inv (p\<lparr>sp_slotsReserved := 0\<rparr>)"
    using assms(1) by (auto simp: pool_inv_def intro: slots_inv_frame)
  then have "slots_inv (fst (FinalizeStaking p txs))"
    using assms(2) by (simp add: FinalizeStaking_def finalize_loop_inv)
  then show ?thesis
    using slots_invD(3) by (simp add: pool_inv_def FinalizeStaking_def)
qed

lemma init_loop_inv: "slots_inv p \<Longrightarrow> slots_inv (fst (init_loop p ds))"
proof (induction p ds rule: init_loop.induct)
  case (2 p uo deposits)
  then show ?case
    using registerValidatorStake_inv [of p "Address_Hex (uo_To uo)" "uo_Amount uo"]
      registerElectorStake_inv [of p "Address_Hex (uo_From uo)" "Address_Hex (uo_Node uo)" "uo_Amount uo"]
    by (auto split: prod.split option.split)
qed simp

lemma init_loop_keep: "sp_slotsReserved (fst (init_loop p ds)) = sp_slotsReserved p"
proof (induction p ds rule: init_loop.induct)
  case (2 p uo deposits)
  then show ?case
    using keep_rules(1) [of p "Address_Hex (uo_To uo)" "uo_Amount uo"]
      keep_rules(2) [of p "Address_Hex (uo_From uo)" "Address_Hex (uo_Node uo)" "uo_Amount uo"]
    by (auto simp del: keep_rules split: prod.split option.split)
qed simp

lemma pool_inv_init:
  assumes "0 \<le> limit" "limit < 2 ^ 63" "2 \<le> unat amount"
  shows "pool_inv (fst (StakingPool_Init (NewStakingPool limit amount) deposits))"
proof -
  have s: "slots_inv (NewStakingPool limit amount)"
    using assms by (rule slots_inv_NewStakingPool)
  show ?thesis
  proof (cases deposits)
    case (Inl e)
    then show ?thesis
      using s assms(1) by (simp add: StakingPool_Init_def pool_inv_def NewStakingPool_def)
  next
    case (Inr ds)
    moreover have "sp_slotsReserved (NewStakingPool limit amount) = 0"
      by (simp add: NewStakingPool_def)
    ultimately show ?thesis
      using slots_invD(3) [OF init_loop_inv [OF s]] init_loop_inv [OF s]
      by (simp add: StakingPool_Init_def pool_inv_def init_loop_keep)
  qed
qed

text \<open>The calls of the \<open>StakePool\<close> interface that change the pool, and when a client may make them.\<close>

datatype stake_op = OpReserve uint64 | OpFinalize "Transaction list"

fun stake_step :: "StakingPool \<Rightarrow> stake_op \<Rightarrow> StakingPool" where
  "stake_step p (OpReserve amount) = fst (ReserveSlots p amount)"
| "stake_step p (OpFinalize batch) = fst (FinalizeStaking p batch)"

fun stake_guard :: "StakingPool \<Rightarrow> stake_op \<Rightarrow> bool" where
  "stake_guard p (OpReserve amount) = True"
| "stake_guard p (OpFinalize batch) = batch_covered (p\<lparr>sp_slotsReserved := 0\<rparr>) batch"

interpretation stake_calls: guarded_system stake_step stake_guard pool_inv
proof
  fix p e
  assume "pool_inv p" "stake_guard p e"
  then show "pool_inv (stake_step p e)" by (cases e) (auto intro: inv_intros)
qed

subsection \<open>Consistency of the stakes of one validator\<close>

definition stake_ok :: "ValidatorStakeData \<Rightarrow> bool" where
  "stake_ok d \<longleftrightarrow> gomap_ok (vs_Electors d) \<and>
     vs_CumulativeStake d = vs_SelfStake d + msum id (vs_Electors d)"

definition stakes_inv :: "StakingPool \<Rightarrow> bool" where
  "stakes_inv p \<longleftrightarrow> (\<forall>v d. map_of (sp_validators p) v = Some d \<longrightarrow> stake_ok d)"

lemma stakes_inv_put:
  "stakes_inv p \<Longrightarrow> stake_ok d \<Longrightarrow> sp_validators q = gput v d (sp_validators p) \<Longrightarrow> stakes_inv q"
  by (auto simp: stakes_inv_def map_of_update split: if_splits)

lemma stakes_inv_frame: "stakes_inv p \<Longrightarrow> sp_validators q = sp_validators p \<Longrightarrow> stakes_inv q"
  by (simp add: stakes_inv_def)

lemma msum_id_add:
  "gomap_ok m \<Longrightarrow> msum id (gput k (gget0 m k + a) m) = msum id m + (a :: uint64)"
  by (auto simp: msum_update gget0_def split: option.splits)

lemma stakes_inv_registerValidator:
  assumes "stakes_inv p"
  shows "stakes_inv (fst (registerValidatorStake p v amount))"
proof -
  let ?d = "case map_of (sp_validators p) v of None \<Rightarrow> emptyStakeData | Some d \<Rightarrow> d"
  have "stake_ok ?d"
    using assms by (auto simp: stakes_inv_def stake_ok_def emptyStakeData_def split: option.split)
  then have ok: "stake_ok (?d\<lparr>vs_CumulativeStake := vs_CumulativeStake ?d + amount,
      vs_SelfStake := vs_SelfStake ?d + amount, vs_SlotsFilled := n\<rparr>)" for n
    by (simp add: stake_ok_def)
  show ?thesis
    using assms by (auto simp: registerValidatorStake_def Let_def intro: stakes_inv_put [OF assms ok])
qed

lemma stakes_inv_registerElector:
  assumes "stakes_inv p"
  shows "stakes_inv (fst (registerElectorStake p e v amount))"
proof (cases "map_of (sp_validators p) v")
  case None
  then show ?thesis
    using assms by (auto simp: registerElectorStake_def SystemUnstakeElector_def intro: stakes_inv_frame)
next
  case (Some d)
  then have "stake_ok d" using assms by (simp add: stakes_inv_def)
  then have "stake_ok (d\<lparr>vs_CumulativeStake := vs_CumulativeStake d + amount,
      vs_Electors := gput e (gget0 (vs_Electors d) e + amount) (vs_Electors d)\<rparr>)"
    by (simp add: stake_ok_def msum_id_add)
  with Some show ?thesis
    using assms by (auto simp: registerElectorStake_def Let_def intro: stakes_inv_put)
qed

lemma stakes_inv_cancelElector:
  assumes "stakes_inv p"
  shows "stakes_inv (fst (cancelElectorStake p e v amount))"
proof (cases "map_of (sp_validators p) v")
  case None
  then show ?thesis using assms by (simp add: cancelElectorStake_def)
next
  case (Some d)
  then have d: "stake_ok d" using assms by (simp add: stakes_inv_def)
  show ?thesis
  proof (cases "map_of (vs_Electors d) e")
    case None
    then show ?thesis using assms Some by (simp add: cancelElectorStake_def)
  next
    case (Some staked)
    then have "stake_ok (d\<lparr>vs_Electors := if staked = amount then gdel e (vs_Electors d)
          else gput e (staked - amount) (vs_Electors d),
        vs_CumulativeStake := vs_CumulativeStake d - amount\<rparr>)"
      using d by (simp add: stake_ok_def msum_update msum_delete)
    then show ?thesis
      using assms Some \<open>map_of (sp_validators p) v = Some d\<close>
      by (auto simp: cancelElectorStake_def Let_def intro: stakes_inv_put split: option.split)
  qed
qed

lemma cancelValidatorStake_partial:
  assumes "map_of (sp_validators p) v = Some d" "cancelValidatorStake p v amount = (q, None)"
    and "vs_SlotsFilled d \<noteq> sint (amount div sp_stakeAmountPerSlot p)"
  shows "map_of (sp_validators q) v =
    Some (d\<lparr>vs_SelfStake := vs_SelfStake d - amount,
            vs_SlotsFilled := go_int (vs_SlotsFilled d - sint (amount div sp_stakeAmountPerSlot p))\<rparr>)"
  using assms by (auto simp: cancelValidatorStake_def Let_def map_of_update split: if_splits)

subsection \<open>Rewards of a block\<close>


lemma sint_small: "unat (x :: uint64) < 2 ^ 63 \<Longrightarrow> sint x = int (unat x)"
proof -
  assume "unat x < 2 ^ 63"
  then have "int (unat x) < int (2 ^ 63)" by (simp only: of_nat_less_iff)
  then have "signed_take_bit 63 (uint x) = uint x" by (intro signed_take_bit_int_eq_self order_trans [OF _ uint_ge_0]) simp_all
  then show ?thesis by (simp add: sint_uint)
qed




lemma elector_rewards_fail: "elector_rewards R S rw es = Inl e \<Longrightarrow> es \<noteq> [] \<and> sint S = 0"
  by (induction R S rw es rule: elector_rewards.induct) (auto simp: Let_def split: if_splits)


subsection \<open>The choice of the proposer\<close>

text \<open>The weight a leader election uses for a name, zero for a name that is no validator.\<close>

definition wt :: "(string, uint64) gomap \<Rightarrow> string \<Rightarrow> nat" where
  "wt m v = unat (gget0 m v)"

lemma pick_leader_interval:
  assumes "unat s + (\<Sum>v\<leftarrow>vs. wt m v) < 2 ^ 64" "unat s < unat r" "unat r \<le> unat s + (\<Sum>v\<leftarrow>vs. wt m v)"
  shows "\<exists>i < length vs. pick_leader m r s vs = vs ! i \<and> ghas m (vs ! i) \<and>
    unat s + (\<Sum>v\<leftarrow>take i vs. wt m v) < unat r \<and> unat r \<le> unat s + (\<Sum>v\<leftarrow>take (Suc i) vs. wt m v)"
  using assms
proof (induction vs arbitrary: s)
  case (Cons v vs)
  show ?case
  proof (cases "map_of m v")
    case None
    then have z: "wt m v = 0" by (simp add: wt_def gget0_def)
    then obtain i where "i < length vs" "pick_leader m r s vs = vs ! i" "ghas m (vs ! i)"
      "unat s + (\<Sum>v\<leftarrow>take i vs. wt m v) < unat r" "unat r \<le> unat s + (\<Sum>v\<leftarrow>take (Suc i) vs. wt m v)"
      using Cons.IH [of s] Cons.prems by auto
    with None z show ?thesis by (intro exI [of _ "Suc i"]) simp
  next
    case (Some w)
    then have w: "wt m v = unat w" by (simp add: wt_def gget0_def)
    have sum: "unat (w + s) = unat s + unat w" using Cons.prems(1) w by (simp add: unat_add64)
    show ?thesis
    proof (cases "w + s \<ge> r")
      case True
      with Some w sum Cons.prems(2) show ?thesis
        by (intro exI [of _ 0]) (auto simp: ghas_def word_le_nat_alt)
    next
      case False
      then obtain i where "i < length vs" "pick_leader m r (s + w) vs = vs ! i" "ghas m (vs ! i)"
        "unat (s + w) + (\<Sum>v\<leftarrow>take i vs. wt m v) < unat r"
        "unat r \<le> unat (s + w) + (\<Sum>v\<leftarrow>take (Suc i) vs. wt m v)"
        using Cons.IH [of "s + w"] Cons.prems w sum by (auto simp: word_le_nat_alt add.commute)
      with Some w sum False show ?thesis
        by (intro exI [of _ "Suc i"]) (simp add: add.commute [of s w] add.assoc)
    qed
  qed
qed simp

lemma sum_over_keys:
  "gomap_ok m \<Longrightarrow> distinct vs \<Longrightarrow> fst ` set m \<subseteq> set vs \<Longrightarrow> (\<Sum>v\<leftarrow>vs. wt m v) = msum unat m"
proof (induction m)
  case Nil
  have "(\<Sum>v\<leftarrow>vs. wt [] v) = 0" by (induction vs) (auto simp: wt_def)
  then show ?case by simp
next
  case (Cons p m)
  obtain k w where p: "p = (k, w)" by force
  have k: "k \<in> set vs" "wt m k = 0"
    using Cons.prems p by (auto simp: wt_def gget0_def map_of_eq_None_iff [THEN iffD2] split: option.splits
        dest: map_of_SomeD)
  have "(\<Sum>v\<leftarrow>vs. wt (p # m) v) = (\<Sum>v \<in> set vs. wt (p # m) v)"
    using Cons.prems(2) by (simp add: sum_list_distinct_conv_sum_set)
  also have "\<dots> = unat w + (\<Sum>v \<in> set vs - {k}. wt m v)"
    using k by (simp add: sum.remove [of _ k] p wt_def gget0_def)
  also have "\<dots> = unat w + (\<Sum>v \<in> set vs. wt m v)"
    using k by (simp add: sum.remove [of "set vs" k "wt m"])
  also have "\<dots> = unat w + msum unat m"
    using Cons p by (simp add: sum_list_distinct_conv_sum_set)
  finally show ?case by (simp add: p)
qed


lemma DetermineProposer_cases:
  assumes unit: "cf_StakeSlotUnit cfg \<noteq> 0"
    and rnd: "\<And>s n. 0 < n \<Longrightarrow> 0 \<le> int63n s n \<and> int63n s n < n"
    and maps: "gomap_ok (sp_validators p)" "distinct (cf_Proposers cfg)"
    and known: "fst ` set (sp_validators p) \<subseteq> set (cf_Proposers cfg)"
    and W: "W = map (\<lambda>(v, d). (v, weight cfg d)) (sp_validators p)"
    and nz: "0 < msum unat W" and small: "msum unat W < 2 ^ 63"
  shows "\<exists>i < length (cf_Proposers cfg).
     DetermineProposer int63n cfg p seed = Inr (cf_Proposers cfg ! i) \<and> HasValidator p (cf_Proposers cfg ! i) \<and>
     (\<Sum>v\<leftarrow>take i (cf_Proposers cfg). wt W v) \<le> nat (int63n seed (int (msum unat W))) \<and>
     nat (int63n seed (int (msum unat W))) < (\<Sum>v\<leftarrow>take (Suc i) (cf_Proposers cfg). wt W v)"
proof -
  let ?ps = "cf_Proposers cfg" and ?c = "sum_list (map snd W)"
  have keys: "map fst W = map fst (sp_validators p)" by (auto simp: W)
  have kset: "fst ` set W = fst ` set (sp_validators p)" using arg_cong [OF keys, of set] by simp
  have c: "unat ?c = msum unat W"
    using unat_sum_list_le [of snd W] small by (simp add: msum_def comp_def)
  then have sc: "sint ?c = int (msum unat W)" using sint_small [of ?c] small by simp
  define x where "x = int63n seed (int (msum unat W))"
  have x: "0 \<le> x" "x < int (msum unat W)" using rnd [of "int (msum unat W)"] nz by (auto simp: x_def)
  then have ux: "unat (word_of_int x + 1 :: uint64) = nat x + 1"
    using small by (simp add: unat_add64 unsigned_of_int take_bit_int_eq_self nat_less_iff)
  have total: "(\<Sum>v\<leftarrow>?ps. wt W v) = msum unat W"
    using maps known kset by (intro sum_over_keys) (simp_all add: keys)
  have "\<exists>i < length ?ps. pick_leader W (word_of_int x + 1) 0 ?ps = ?ps ! i \<and> ghas W (?ps ! i) \<and>
      unat (0 :: uint64) + (\<Sum>v\<leftarrow>take i ?ps. wt W v) < unat (word_of_int x + 1 :: uint64) \<and>
      unat (word_of_int x + 1 :: uint64) \<le> unat (0 :: uint64) + (\<Sum>v\<leftarrow>take (Suc i) ?ps. wt W v)"
    using total small x by (intro pick_leader_interval) (simp_all add: ux)
  moreover have "ghas W v = HasValidator p v" for v
    by (simp add: HasValidator_def ghas_iff kset)
  moreover have "DetermineProposer int63n cfg p seed = Inr (pick_leader W (word_of_int x + 1) 0 ?ps)"
    using unit c sc nz by (auto simp: DetermineProposer_def Let_def W [symmetric] x_def)
  ultimately show ?thesis unfolding x_def [symmetric] ux by auto
qed

subsection \<open>Properties of the staking pool\<close>

text \<open>
  C36. A staking pool that is initialised from any deposits and then used through any sequence of
  \<open>ReserveSlots\<close> and \<open>FinalizeStaking\<close> calls keeps its slot accounting: the pool's counter is
  the sum of the validators' counters, no counter is negative, and filled plus reserved slots never
  exceed the limit, provided no block cancels more slots of a validator than it holds.
\<close>

theorem staking_slots_safe:
  assumes "0 \<le> limit" "limit < 2 ^ 63" "2 \<le> unat amount"
    and "p = fst (StakingPool_Init (NewStakingPool limit amount) deposits)"
    and "legal_ops stake_guard stake_step p ops"
  shows "pool_inv (run_ops stake_step p ops)"
  using assms stake_calls.run_inv [of p ops] pool_inv_init [of limit amount deposits] by simp

definition demo_addr :: "byte \<Rightarrow> bytes" where
  "demo_addr b = replicate 19 0 @ [b]"

definition demo_stake_tx :: "bytes \<Rightarrow> bytes \<Rightarrow> uint64 \<Rightarrow> Transaction" where
  "demo_stake_tx from node amount = NewTransaction
     \<lparr>pt_Num = 1, pt_Type = StakeTxType, pt_Timestamp = 1, pt_Hash = replicate 32 1, pt_Fee = 1, pt_Data = [],
      pt_Inputs = [\<lparr>ti_Hash = replicate 32 2, ti_Index = 0, ti_Address = from, ti_Amount = amount, ti_Node = []\<rparr>],
      pt_Outputs = [\<lparr>to_Address = from, to_Amount = amount, to_Node = node\<rparr>],
      pt_Signature = [], pt_Status = 0\<rparr>"

definition demo_unstake_tx :: "bytes \<Rightarrow> bytes \<Rightarrow> uint64 \<Rightarrow> Transaction" where
  "demo_unstake_tx from node amount = NewTransaction
     \<lparr>pt_Num = 1, pt_Type = UnstakeTxType, pt_Timestamp = 1, pt_Hash = replicate 32 1, pt_Fee = 1, pt_Data = [],
      pt_Inputs = [\<lparr>ti_Hash = replicate 32 2, ti_Index = 0, ti_Address = from, ti_Amount = amount, ti_Node = node\<rparr>],
      pt_Outputs = [\<lparr>to_Address = from, to_Amount = amount, to_Node = []\<rparr>],
      pt_Signature = [], pt_Status = 0\<rparr>"

definition demo_ops :: "stake_op list" where
  "demo_ops = [OpReserve 20,
     OpFinalize [demo_stake_tx (demo_addr 1) (demo_addr 0) 20, demo_stake_tx (demo_addr 2) (demo_addr 1) 7],
     OpFinalize [demo_unstake_tx (demo_addr 1) (demo_addr 0) 10]]"

theorem staking_slots_safe_witness:
  "pool_inv (run_ops stake_step (NewStakingPool 3 10) demo_ops)
   \<and> sp_slotsFilled (run_ops stake_step (NewStakingPool 3 10) demo_ops) = 1"
proof
  have "legal_ops stake_guard stake_step (NewStakingPool 3 10) demo_ops" by code_simp
  then show "pool_inv (run_ops stake_step (NewStakingPool 3 10) demo_ops)"
    using staking_slots_safe [of 3 10 "NewStakingPool 3 10" "Inr []" demo_ops]
    by (simp add: StakingPool_Init_def)
  show "sp_slotsFilled (run_ops stake_step (NewStakingPool 3 10) demo_ops) = 1" by code_simp
qed

text \<open>
  C39. Registering validator or elector stakes and cancelling elector stakes keep every validator
  consistent: its cumulative stake is its own stake plus the stakes of its electors.
\<close>

theorem stakes_consistent:
  assumes "stakes_inv p"
  shows "stakes_inv (fst (registerValidatorStake p v amount))
    \<and> stakes_inv (fst (registerElectorStake p e v amount))
    \<and> stakes_inv (fst (cancelElectorStake p e v amount))"
  using assms by (simp add: stakes_inv_registerValidator stakes_inv_registerElector stakes_inv_cancelElector)

theorem stakes_consistent_witness:
  "stakes_inv (NewStakingPool 3 10) \<and>
   stakes_inv (fst (registerValidatorStake (NewStakingPool 3 10) ''v'' 20))"
proof
  show i: "stakes_inv (NewStakingPool 3 10)" by (simp add: stakes_inv_def NewStakingPool_def)
  show "stakes_inv (fst (registerValidatorStake (NewStakingPool 3 10) ''v'' 20))"
    using stakes_consistent [OF i] by blast
qed

text \<open>
  A partial unstake of a validator breaks that consistency: \<open>cancelValidatorStake\<close> lowers the
  validator's own stake and leaves its cumulative stake unchanged, so the difference that the code reads
  as the electors' stake grows by the unstaked amount.
\<close>

theorem partial_unstake_inflates_electors:
  assumes "map_of (sp_validators p) v = Some d" "stake_ok d"
    and "cancelValidatorStake p v amount = (q, None)"
    and "vs_SlotsFilled d \<noteq> sint (amount div sp_stakeAmountPerSlot p)"
  shows "\<exists>d'. map_of (sp_validators q) v = Some d' \<and> vs_Electors d' = vs_Electors d
     \<and> vs_CumulativeStake d' - vs_SelfStake d' = msum id (vs_Electors d') + amount"
  using cancelValidatorStake_partial [OF assms(1,3,4)] assms(2) by (simp add: stake_ok_def)

theorem partial_unstake_inflates_electors_witness:
  "\<exists>d'. map_of (sp_validators (fst (cancelValidatorStake
       (fst (registerValidatorStake (NewStakingPool 3 10) ''v'' 20)) ''v'' 10))) ''v'' = Some d'
     \<and> vs_Electors d' = [] \<and> vs_CumulativeStake d' - vs_SelfStake d' = msum id (vs_Electors d') + 10"
proof -
  define d where "d = \<lparr>vs_SlotsFilled = 2, vs_CumulativeStake = 20, vs_Electors = [], vs_SelfStake = 20\<rparr>"
  define p where "p = fst (registerValidatorStake (NewStakingPool 3 10) ''v'' 20)"
  define q where "q = fst (cancelValidatorStake p ''v'' 10)"
  have 1: "map_of (sp_validators p) ''v'' = Some d" unfolding p_def d_def by code_simp
  have 2: "stake_ok d" unfolding d_def by code_simp
  have 3: "cancelValidatorStake p ''v'' 10 = (q, None)" unfolding q_def p_def by code_simp
  have 4: "vs_SlotsFilled d \<noteq> sint (10 div sp_stakeAmountPerSlot p)" unfolding p_def d_def by code_simp
  have "vs_Electors d = []" by (simp add: d_def)
  then show ?thesis
    using partial_unstake_inflates_electors [OF 1 2 3 4] by (auto simp: q_def p_def)
qed


definition demo_cfg :: RDOBlockChainConfig where
  "demo_cfg = \<lparr>cf_SlotTime = 7, cf_ProposerReward = 100, cf_MinimalFee = 1, cf_BlockSize = 9,
     cf_RoiPerRdo = 1, cf_ValidatorRegistryLimit = 5, cf_ChosenValidatorRewardPercent = 20,
     cf_StakeSlotUnit = 5, cf_ElectorsCoefficient100 = 110, cf_SlotsPerEpoch = 4, cf_CommitteeSize = 2,
     cf_MaxNumberOfStakers = 2, cf_Proposers = [''a'', ''b'']\<rparr>"

definition demo_pool :: StakingPool where
  "demo_pool = (NewStakingPool 5 10)\<lparr>sp_slotsFilled := 3, sp_validators :=
     [(''a'', \<lparr>vs_SlotsFilled = 1, vs_CumulativeStake = 13, vs_Electors = [(''x'', 1), (''y'', 2)], vs_SelfStake = 10\<rparr>),
      (''b'', \<lparr>vs_SlotsFilled = 2, vs_CumulativeStake = 20, vs_Electors = [], vs_SelfStake = 20\<rparr>)]\<rparr>"


text \<open>
  Leader election is proportional to weight: laying the weights of the configured proposers end
  to end, the elected leader is the one whose interval contains the random number drawn below the total
  weight, and it is a registered validator.
\<close>

theorem proposer_by_weight:
  assumes "cf_StakeSlotUnit cfg \<noteq> 0"
    and "\<And>s n. 0 < n \<Longrightarrow> 0 \<le> int63n s n \<and> int63n s n < n"
    and "gomap_ok (sp_validators p)" "distinct (cf_Proposers cfg)"
    and "fst ` set (sp_validators p) \<subseteq> set (cf_Proposers cfg)"
    and "W = map (\<lambda>(v, d). (v, weight cfg d)) (sp_validators p)"
    and "0 < msum unat W" "msum unat W < 2 ^ 63"
  shows "\<exists>i < length (cf_Proposers cfg).
     DetermineProposer int63n cfg p seed = Inr (cf_Proposers cfg ! i) \<and> HasValidator p (cf_Proposers cfg ! i) \<and>
     (\<Sum>v\<leftarrow>take i (cf_Proposers cfg). wt W v) \<le> nat (int63n seed (int (msum unat W))) \<and>
     nat (int63n seed (int (msum unat W))) < (\<Sum>v\<leftarrow>take (Suc i) (cf_Proposers cfg). wt W v)"
  using DetermineProposer_cases [OF assms] .

theorem proposer_by_weight_witness:
  "\<exists>i < length (cf_Proposers demo_cfg).
     DetermineProposer (\<lambda>s n. s mod n) demo_cfg demo_pool 300 = Inr (cf_Proposers demo_cfg ! i)
     \<and> HasValidator demo_pool (cf_Proposers demo_cfg ! i)"
proof -
  define W where "W = map (\<lambda>(v, d). (v, weight demo_cfg d)) (sp_validators demo_pool)"
  have c: "cf_StakeSlotUnit demo_cfg \<noteq> 0" "gomap_ok (sp_validators demo_pool)"
    "distinct (cf_Proposers demo_cfg)" by code_simp+
  have s: "fst ` set (sp_validators demo_pool) \<subseteq> set (cf_Proposers demo_cfg)" by code_simp
  have "W = [(''a'', 200), (''b'', 400)]" unfolding W_def by code_simp
  then have w: "0 < msum unat W" "msum unat W < 2 ^ 63" by simp_all
  show ?thesis
    using proposer_by_weight [OF c(1) _ c(2,3) s W_def w, of "\<lambda>s n. s mod n" 300] by auto
qed

end
