(* ===== verification/Consensus.thy ===== *)
theory Consensus
  imports Staking Hashing "HOL-Library.List_Lexorder" "HOL-Library.Char_ord"
begin

section \<open>The interfaces of the consensus package, voting and leader election\<close>

text \<open>
  Models \<^verbatim>\<open>src/blockchain/consensus\<close>: errors.go, interface.go (the \<open>BlockchainReader\<close> through which
  validators read the chain), consensus.go (\<open>IsEnoughVotes\<close>) and the two leader back ends
  \<^verbatim>\<open>backend/poa\<close> and \<^verbatim>\<open>backend/pos\<close>. A Go interface is a record of functions; the locale
  \<open>blockchain_reader\<close> states what an implementation promises: every output it returns is an unspent
  output of the chain. The chain service interprets it.

  Shown: a vote passes exactly when at least sixty percent of the committee approve, two disjoint majorities cannot
  exist, and the authorities take turns slot by slot.
\<close>

definition ErrUtxoSize :: error where "ErrUtxoSize = Sentinel ''UTxO count is 0.''"
definition ErrSmallFee :: error where "ErrSmallFee = Sentinel ''Too small fee price.''"
definition ErrLowStakeAmount :: error where "ErrLowStakeAmount = Sentinel ''Too small stake amount.''"
definition ErrStakeLimit :: error where "ErrStakeLimit = Sentinel ''All stake slots are filled.''"
definition ErrBadNonce :: error where "ErrBadNonce = Sentinel ''Wrong transaction nonce.''"
definition ErrBadTxType :: error where "ErrBadTxType = Sentinel ''Undefined tx type.''"
definition ErrBadInputOwner :: error where "ErrBadInputOwner = Sentinel ''Bad input owner''"
definition ErrKnownBlock :: error where "ErrKnownBlock = Sentinel ''Block already exists in the database''"

record BlockchainReader =
  rd_FindAllUTxO :: "string \<Rightarrow> error + UTxO list"
  rd_FindStakeDepositsOfAddress :: "string \<Rightarrow> string \<Rightarrow> error + UTxO list"
  rd_GetBlockByHash :: "bytes \<Rightarrow> error + Block option"
  rd_GetBlockByNum :: "uint64 \<Rightarrow> error + Block option"
  rd_GetTransactionsCount :: "bytes \<Rightarrow> error + uint64"
  rd_GetGenesis :: "Block option"

text \<open>
  \<open>utxo\<close> is the abstract content behind the reader: the unspent output stored under a transaction hash and an
  output index; \<open>ok\<close> is the provider's own invariant, under which its promises hold.
\<close>

locale blockchain_reader =
  fixes rd :: BlockchainReader
    and utxo :: "bytes \<times> uint32 \<Rightarrow> UTxO option"
    and ok :: bool
  assumes findAll_sound: "ok \<Longrightarrow> rd_FindAllUTxO rd addr = Inr us \<Longrightarrow> u \<in> set us \<Longrightarrow>
      utxo (uo_Hash u, uo_Index u) = Some u \<and> Address_Hex (uo_To u) = addr \<and> uo_Node u = []"
    and findStake_sound: "ok \<Longrightarrow> rd_FindStakeDepositsOfAddress rd addr node = Inr us \<Longrightarrow> u \<in> set us \<Longrightarrow>
      utxo (uo_Hash u, uo_Index u) = Some u \<and> Address_Hex (uo_To u) = addr \<and> uo_Node u \<noteq> []"
begin

text \<open>Two outputs that readers return under the same key are the same output.\<close>

lemma reader_unique:
  assumes ok "rd_FindAllUTxO rd a = Inr us" "u \<in> set us" "rd_FindAllUTxO rd b = Inr vs" "v \<in> set vs"
    and "uo_Hash u = uo_Hash v" "uo_Index u = uo_Index v"
  shows "u = v"
  using findAll_sound [OF assms(1-3)] findAll_sound [OF assms(1,4,5)] assms(6,7) by (metis option.inject)

lemma deposit_not_spendable:
  assumes ok "rd_FindAllUTxO rd a = Inr us" "u \<in> set us"
    and "rd_FindStakeDepositsOfAddress rd b node = Inr vs" "v \<in> set vs"
  shows "(uo_Hash u, uo_Index u) \<noteq> (uo_Hash v, uo_Index v)"
  using findAll_sound [OF assms(1-3)] findStake_sound [OF assms(1,4,5)] by (metis option.inject)

end

subsection \<open>Counting votes (consensus.go)\<close>

text \<open>
  The code compares \<^verbatim>\<open>float64(n) / float64(committee) * 100\<close> with 60. For a positive committee this is the
  comparison of \<open>100 * n\<close> with \<open>60 * committee\<close>; for an empty committee the quotient is \<^verbatim>\<open>+Inf\<close> or \<^verbatim>\<open>NaN\<close>,
  which is never below 60; for a negative one it is not above zero.
\<close>

definition percent_below_60 :: "nat \<Rightarrow> int \<Rightarrow> bool" where
  "percent_below_60 n committee =
     (if committee = 0 then False else if committee < 0 then True else 100 * int n < 60 * committee)"

definition IsEnoughVotes :: "RDOBlockChainConfig \<Rightarrow> nat \<Rightarrow> nat \<Rightarrow> error option" where
  "IsEnoughVotes cfg approvers slashers =
    (let committee = cf_CommitteeSize cfg in
     if percent_below_60 (approvers + slashers) committee then Some (Errorf ''Too small validators voted per block'')
     else if percent_below_60 approvers committee then Some (Errorf ''Not enough approvers per block'')
     else None)"

subsection \<open>Proof of authority (backend/poa)\<close>

definition backend_New :: "RDOBlockChainConfig \<Rightarrow> bytes list" where
  "backend_New cfg = map HexToAddress (sort (cf_Proposers cfg))"

definition IsValidator :: "bytes list \<Rightarrow> bytes \<Rightarrow> bool" where
  "IsValidator validators user = (\<exists>v \<in> set validators. Address_Hex v = Address_Hex user)"

text \<open>
  Durations are 64-bit numbers of nanoseconds: \<^verbatim>\<open>time.Since\<close> and \<^verbatim>\<open>Duration.Round\<close> (half away from zero) saturate, the
  product \<^verbatim>\<open>time.Second * SlotTime\<close> wraps around. \<open>since\<close> is the time since the genesis block.  \<^verbatim>\<open>Seconds\<close> returns a floating-point number;
  after rounding to whole seconds it is exact, and the model truncates it.
\<close>

definition dur_sat :: "int \<Rightarrow> int" where
  "dur_sat d = max (- (2 ^ 63)) (min (2 ^ 63 - 1) d)"

definition go_Round :: "int \<Rightarrow> int \<Rightarrow> int" where
  "go_Round t m = (if m \<le> 0 then t
     else (let r = \<bar>t\<bar> mod m; q = (if 2 * r < m then \<bar>t\<bar> - r else \<bar>t\<bar> + m - r) in dur_sat (sgn t * q)))"

definition go_quot :: "int \<Rightarrow> int \<Rightarrow> int" where
  "go_quot a b = sgn a * sgn b * (\<bar>a\<bar> div \<bar>b\<bar>)"

definition leaderIndex :: "RDOBlockChainConfig \<Rightarrow> bytes list \<Rightarrow> int \<Rightarrow> error + int" where
  "leaderIndex cfg validators since =
    (let validatorsCount = int (length validators); slotSeconds = cf_SlotTime cfg; sinceGenesis = dur_sat since;
         sinceRounded = go_quot (go_Round sinceGenesis (go_int (1000000000 * slotSeconds))) 1000000000 in
     if slotSeconds = 0 \<or> validatorsCount = 0 then Inl (Panic ''integer divide by zero'')
     else (let q = go_quot sinceRounded slotSeconds in Inr (q - go_quot q validatorsCount * validatorsCount)))"

definition poa_Leader :: "RDOBlockChainConfig \<Rightarrow> bytes list \<Rightarrow> int \<Rightarrow> error + bytes" where
  "poa_Leader cfg validators since = (case leaderIndex cfg validators since of
     Inl e \<Rightarrow> Inl e
   | Inr i \<Rightarrow> if i < 0 \<or> i \<ge> int (length validators) then Inl (Panic ''index out of range'')
              else Inr (validators ! nat i))"

definition poa_IsLeader :: "RDOBlockChainConfig \<Rightarrow> bytes list \<Rightarrow> int \<Rightarrow> bytes \<Rightarrow> error + bool" where
  "poa_IsLeader cfg validators since validator = (case poa_Leader cfg validators since of
     Inl e \<Rightarrow> Inl e | Inr l \<Rightarrow> Inr (Address_Hex validator = Address_Hex l))"

subsection \<open>Proof of stake (backend/pos)\<close>

definition pos_IsLeader :: "(int \<Rightarrow> int \<Rightarrow> int) \<Rightarrow> RDOBlockChainConfig \<Rightarrow> StakingPool \<Rightarrow> bytes \<Rightarrow> int \<Rightarrow> error + bool" where
  "pos_IsLeader int63n cfg p address seed = (case DetermineProposer int63n cfg p seed of
     Inl e \<Rightarrow> Inl e | Inr proposer \<Rightarrow> Inr (Address_Hex address = proposer))"

subsection \<open>Lemmas\<close>

lemma go_quot_nonneg: "0 \<le> a \<Longrightarrow> 0 < b \<Longrightarrow> go_quot a b = a div b"
  by (cases "a = 0") (auto simp: go_quot_def)

lemma dur_sat_id: "- (2 ^ 63) \<le> d \<Longrightarrow> d < 2 ^ 63 \<Longrightarrow> dur_sat d = d"
  by (simp add: dur_sat_def)

lemma go_Round_nonneg:
  assumes "0 \<le> t" "0 < m" "t + m < 2 ^ 63"
  shows "go_Round t m = m * ((2 * t + m) div (2 * m))"
proof -
  define q r where "q = t div m" and "r = t mod m"
  have t: "t = m * q + r" "0 \<le> r" "r < m" using assms by (auto simp: q_def r_def)
  show ?thesis
  proof (cases "2 * r < m")
    case True
    have d: "(2 * t + m) div (2 * m) = q"
      using t True assms(2) by (intro int_div_pos_eq [where r = "2 * r + m"]) (auto simp: algebra_simps)
    have s: "dur_sat (t - r) = t - r" using assms t by (intro dur_sat_id) linarith+
    have "go_Round t m = dur_sat (t - r)"
      using True assms by (cases "t = 0") (simp_all add: go_Round_def Let_def r_def)
    then show ?thesis unfolding d s using t(1) by linarith
  next
    case False
    have d: "(2 * t + m) div (2 * m) = q + 1"
      using t False assms(2) by (intro int_div_pos_eq [where r = "2 * r - m"]) (auto simp: algebra_simps)
    have s: "dur_sat (t + m - r) = t + m - r" using assms t by (intro dur_sat_id) linarith+
    have "t \<noteq> 0" using False assms(2) by (auto simp: r_def)
    then have "go_Round t m = dur_sat (t + m - r)" using False assms by (simp add: go_Round_def Let_def r_def)
    then show ?thesis unfolding d s distrib_left using t(1) by linarith
  qed
qed

text \<open>For a time after genesis the index is the number of the nearest slot, modulo the number of authorities, as long as the durations do not overflow.\<close>

lemma leaderIndex_eq:
  assumes "0 \<le> since" "0 < cf_SlotTime cfg" "vs \<noteq> []" "since + 1000000000 * cf_SlotTime cfg < 2 ^ 63"
  shows "leaderIndex cfg vs since =
    Inr ((2 * since + 1000000000 * cf_SlotTime cfg) div (2 * (1000000000 * cf_SlotTime cfg)) mod int (length vs))"
proof -
  define S q where "S = cf_SlotTime cfg" and "q = (2 * since + 1000000000 * S) div (2 * (1000000000 * S))"
  have q: "0 \<le> q" using assms by (auto simp: q_def S_def intro!: pos_imp_zdiv_nonneg_iff [THEN iffD2])
  have w: "dur_sat since = since" "go_int (1000000000 * S) = 1000000000 * S"
    using assms by (simp_all add: dur_sat_id go_int_id S_def)
  have "go_Round since (1000000000 * S) = 1000000000 * S * q"
    using assms by (simp add: go_Round_nonneg q_def S_def)
  moreover have "go_quot (1000000000 * S * q) 1000000000 = S * q"
    using q assms by (simp add: go_quot_nonneg S_def)
  moreover have "go_quot (S * q) S = q" using q assms by (simp add: go_quot_nonneg S_def)
  moreover have "q - q div int (length vs) * int (length vs) = q mod int (length vs)"
    by (simp add: minus_div_mult_eq_mod)
  ultimately show ?thesis
    using assms q w unfolding leaderIndex_def Let_def S_def [symmetric] q_def [symmetric]
    by (simp add: go_quot_nonneg)
qed

subsection \<open>Properties\<close>

text \<open>
  A block passes the vote exactly when at least 60 percent of a non-empty committee approve it, and two
  sets of approvers that both pass share at least a fifth of the committee.
\<close>

theorem votes_majority:
  assumes "0 < cf_CommitteeSize cfg"
  shows "(IsEnoughVotes cfg a sl = None \<longleftrightarrow> 3 * cf_CommitteeSize cfg \<le> 5 * int a)
    \<and> (IsEnoughVotes cfg a sl = None \<and> IsEnoughVotes cfg a' sl' = None \<longrightarrow>
        cf_CommitteeSize cfg \<le> 5 * (int a + int a' - cf_CommitteeSize cfg))"
  using assms by (auto simp: IsEnoughVotes_def percent_below_60_def Let_def)

theorem votes_majority_witness:
  "IsEnoughVotes (demo_cfg\<lparr>cf_CommitteeSize := 5\<rparr>) 3 1 = None
   \<and> IsEnoughVotes (demo_cfg\<lparr>cf_CommitteeSize := 5\<rparr>) 2 3 \<noteq> None"
  using votes_majority [of "demo_cfg\<lparr>cf_CommitteeSize := 5\<rparr>" 3 1 2 3]
    votes_majority [of "demo_cfg\<lparr>cf_CommitteeSize := 5\<rparr>" 2 3 2 3] by simp

text \<open>
  With the default configuration, whose committee size is zero, no number of votes is ever too small: a block
  without a single approval passes the vote.
\<close>

theorem empty_committee_accepts: "IsEnoughVotes mainnetRDOConfig approvers slashers = None"
  by (simp add: IsEnoughVotes_def percent_below_60_def mainnetRDOConfig_def)

text \<open>
  Proof of authority: after genesis, and while no duration overflows, there is always a leader, it is one of the authorities, and one slot
  later the leader is the next authority in the list, cyclically.
\<close>

theorem authorities_take_turns:
  assumes "0 \<le> since" "0 < cf_SlotTime cfg" "vs \<noteq> []" "since + 2 * (1000000000 * cf_SlotTime cfg) < 2 ^ 63"
  shows "\<exists>i < length vs. poa_Leader cfg vs since = Inr (vs ! i)
     \<and> poa_Leader cfg vs (since + 1000000000 * cf_SlotTime cfg) = Inr (vs ! ((i + 1) mod length vs))"
proof -
  define m q n where "m = 1000000000 * cf_SlotTime cfg" and "q = (2 * since + m) div (2 * m)" and "n = length vs"
  have m: "0 < m" and q: "0 \<le> q" and n: "0 < n"
    using assms by (auto simp: m_def q_def n_def intro!: pos_imp_zdiv_nonneg_iff [THEN iffD2])
  have "(2 * (since + m) + m) div (2 * m) = q + 1"
  proof -
    have "2 * (since + m) + m = (2 * since + m) + 2 * m" by simp
    also have "\<dots> div (2 * m) = (2 * since + m) div (2 * m) + 1" using m by (intro div_add_self2) simp
    finally show ?thesis by (simp only: q_def)
  qed
  then have idx: "leaderIndex cfg vs since = Inr (q mod int n)"
    "leaderIndex cfg vs (since + m) = Inr ((q + 1) mod int n)"
    using leaderIndex_eq [OF assms(1-3)] leaderIndex_eq [of "since + m" cfg vs] assms m
    by (simp_all add: m_def [symmetric] q_def n_def)
  have b: "\<not> k mod int n < 0" "\<not> int n \<le> k mod int n" for k
    using n pos_mod_bound [of "int n" k] pos_mod_sign [of "int n" k] by linarith+
  have lead: "leaderIndex cfg vs t = Inr (k mod int n) \<Longrightarrow> poa_Leader cfg vs t = Inr (vs ! nat (k mod int n))" for t k
    by (simp add: poa_Leader_def n_def [symmetric] b)
  have "nat ((q + 1) mod int n) = (nat (q mod int n) + 1) mod n"
    using q n by (simp add: nat_mod_distrib nat_add_distrib mod_simps)
  then show ?thesis
    using lead [OF idx(1)] lead [OF idx(2)] n
    by (intro exI [of _ "nat (q mod int n)"]) (auto simp: n_def [symmetric] m_def [symmetric] nat_less_iff)
qed

theorem authorities_take_turns_witness:
  "\<exists>i < length [[1], [2], [3 :: byte]]. poa_Leader demo_cfg [[1], [2], [3]] 36000000000 = Inr ([[1], [2], [3]] ! i)
     \<and> poa_Leader demo_cfg [[1], [2], [3]] (36000000000 + 1000000000 * cf_SlotTime demo_cfg)
        = Inr ([[1], [2], [3]] ! ((i + 1) mod length [[1], [2], [3 :: byte]]))"
  by (rule authorities_take_turns) (simp_all add: demo_cfg_def)

end
