(* ===== verification/Chain.thy ===== *)
theory Chain
  imports Utxo_Store Kv_Store Consensus
begin

section \<open>The chain service: blocks, unspent outputs and their synchronisation\<close>

text \<open>
  Models \<^verbatim>\<open>src/blockchain/core/rdochain\<close>: blockchain.go, genesis.go, output\_manager.go and the
  operations of service.go. The state is the in-memory head of the chain with its key-value
  store, and the output manager with its SQL store. The environment \<open>env\<close> holds what is outside: the
  cryptographic and serialisation functions, the outcomes of the calls to both databases, the clock, and the
  content of the genesis file (\<open>ev_genesis\<close>, the result of reading and parsing it).

  Shown: a block is applied to the outputs atomically and exactly, \<open>SaveBlock\<close> extends the chain by one
  block, the totals of both stores move together, so the supply check keeps holding, and outputs of a
  genesis file are all created.
\<close>

record GenesisBlock =
  gn_Outputs :: "(string, uint64) gomap"
  gn_Hash :: string
  gn_Timestamp :: uint64

record env =
  ev_crypto :: crypto
  ev_codec :: codec
  ev_kvio :: "nat \<Rightarrow> error option"
  ev_sqlio :: "nat \<Rightarrow> error option"
  ev_now :: uint64
  ev_genesis :: "error + GenesisBlock"

record BlockChain =
  bc_db :: KvStore
  bc_prevHash :: bytes
  bc_futureBlockNum :: uint64
  bc_headBlockNum :: uint64
  bc_headBlock :: "Block option"
  bc_genesisBlock :: "Block option"
  bc_genesisHash :: bytes

record OutputManager =
  om_db :: Store
  om_minBlockNum :: uint64
  om_maxBlockNum :: uint64
  om_syncing :: bool

record Service =
  sv_bc :: BlockChain
  sv_outm :: OutputManager
  sv_ready :: bool
  sv_startFailure :: "error option"

abbreviation (input) GenesisBlockNum :: uint64 where "GenesisBlockNum \<equiv> 0"

definition ErrNotForgedBlock :: error where
  "ErrNotForgedBlock = Sentinel ''Given block number is not forged yet.''"

definition ErrAffectedRows :: error where
  "ErrAffectedRows = Sentinel ''Rows affected are different from expected''"

subsection \<open>Block chain (blockchain.go)\<close>

definition NewBlockChain :: "KvStore \<Rightarrow> BlockChain" where
  "NewBlockChain db = \<lparr>bc_db = db, bc_prevHash = replicate 32 0, bc_futureBlockNum = GenesisBlockNum + 1,
     bc_headBlockNum = GenesisBlockNum, bc_headBlock = None, bc_genesisBlock = None,
     bc_genesisHash = replicate 32 0\<rparr>"

definition bc_saveHeadBlockNum :: "env \<Rightarrow> BlockChain \<Rightarrow> uint64 \<Rightarrow> BlockChain \<times> error option" where
  "bc_saveHeadBlockNum ev bc n = (case SaveHeadBlockNum (ev_kvio ev) n (bc_db bc) of
     (db, e) \<Rightarrow> (bc\<lparr>bc_db := db\<rparr>, e))"

definition ParentHash :: "BlockChain \<Rightarrow> bytes" where
  "ParentHash bc = bc_prevHash bc"

definition GetGenesis :: "BlockChain \<Rightarrow> Block option" where
  "GetGenesis bc = bc_genesisBlock bc"

definition GetHeadBlockNum :: "BlockChain \<Rightarrow> uint64" where
  "GetHeadBlockNum bc = bc_headBlockNum bc"

definition GetBlockCount :: "BlockChain \<Rightarrow> uint64" where
  "GetBlockCount bc = bc_futureBlockNum bc"

text \<open>The amounts of the reward and the fee transactions of a block.\<close>

definition out_sum :: "PbTransaction \<Rightarrow> uint64" where
  "out_sum tx = sum_list (map to_Amount (pt_Outputs tx))"

definition block_reward :: "PbTransaction list \<Rightarrow> uint64" where
  "block_reward txs = sum_list (map out_sum (filter (\<lambda>tx. pt_Type tx = RewardTxType) txs))"

definition block_fee :: "PbTransaction list \<Rightarrow> uint64" where
  "block_fee txs = sum_list (map out_sum (filter (\<lambda>tx. pt_Type tx = FeeTxType) txs))"

definition SaveBlock :: "env \<Rightarrow> BlockChain \<Rightarrow> Block \<Rightarrow> BlockChain \<times> error option" where
  "SaveBlock ev bc block =
    (case WriteBlock (ev_codec ev) (ev_kvio ev) block (bc_db bc) of
       (db, Some e) \<Rightarrow> (bc\<lparr>bc_db := db\<rparr>, Some (Wrap e ''Error saving block to the KV''))
     | (db, None) \<Rightarrow>
      (case bc_saveHeadBlockNum ev (bc\<lparr>bc_db := db\<rparr>) (bk_Num block) of
         (bc, Some e) \<Rightarrow> (bc, Some e)
       | (bc, None) \<Rightarrow>
        (case UpdateAmountStats (ev_kvio ev) (block_reward (bk_Transactions block))
                (block_fee (bk_Transactions block)) (bc_db bc) of
           (db, Some e) \<Rightarrow> (bc\<lparr>bc_db := db\<rparr>, Some e)
         | (db, None) \<Rightarrow>
            (bc\<lparr>bc_db := db, bc_headBlockNum := bc_headBlockNum bc + 1,
                bc_futureBlockNum := bc_futureBlockNum bc + 1, bc_prevHash := bk_Hash block,
                bc_headBlock := Some block\<rparr>, None))))"

definition GetBlockByNum :: "env \<Rightarrow> BlockChain \<Rightarrow> uint64 \<Rightarrow> error + Block option" where
  "GetBlockByNum ev bc num =
    (if num = 0 then Inr (GetGenesis bc)
     else if num > GetHeadBlockNum bc then Inl ErrNotForgedBlock
     else kv_GetBlockByNum (ev_codec ev) num (bc_db bc))"

definition GetBlockByHash :: "env \<Rightarrow> BlockChain \<Rightarrow> bytes \<Rightarrow> error + Block option" where
  "GetBlockByHash ev bc hash =
    (if hash = bc_genesisHash bc then Inr (GetGenesis bc)
     else kv_GetBlockByHash (ev_codec ev) hash (bc_db bc))"

definition GetBlockBySlot :: "env \<Rightarrow> BlockChain \<Rightarrow> uint64 \<Rightarrow> error + Block option" where
  "GetBlockBySlot ev bc slot = kv_GetBlockBySlot (ev_codec ev) slot (bc_db bc)"

definition GetHeadBlock :: "env \<Rightarrow> BlockChain \<Rightarrow> BlockChain \<times> (error + Block)" where
  "GetHeadBlock ev bc = (case bc_headBlock bc of
     Some b \<Rightarrow> (bc, Inr b)
   | None \<Rightarrow>
      (case GetBlockByNum ev bc (bc_headBlockNum bc) of
         Inl e \<Rightarrow> (bc, Inl e)
       | Inr None \<Rightarrow> (bc, Inl (Errorf ''GetCurrentBlock: Not found block with number''))
       | Inr (Some blk) \<Rightarrow> (bc\<lparr>bc_headBlock := Some blk\<rparr>, Inr blk)))"

definition GetTransaction :: "env \<Rightarrow> BlockChain \<Rightarrow> string \<Rightarrow> error + PbTransaction" where
  "GetTransaction ev bc hash = kv_GetTransactionByHash (ev_codec ev) (HexToHash hash) (bc_db bc)"

definition GetTransactionsCount :: "BlockChain \<Rightarrow> bytes \<Rightarrow> error + uint64" where
  "GetTransactionsCount bc addr = Inr (kv_GetTransactionsCount addr (bc_db bc))"

definition GetAmountStats :: "BlockChain \<Rightarrow> uint64 \<times> uint64 \<times> uint64" where
  "GetAmountStats bc = (case bc_genesisBlock bc of
     None \<Rightarrow> (0, 0, 0)
   | Some genesis \<Rightarrow> (case kv_GetAmountStats (bc_db bc) of
       (reward, fee) \<Rightarrow> (reward, fee, sum_list (map out_sum (bk_Transactions genesis)))))"

text \<open>
  \<open>GetBlocksStartCount\<close>: only \<open>ErrNotForgedBlock\<close> ends the loop; after any other error the nil block is
  appended. \<open>start\<close> is an \<open>int64\<close>.
\<close>

fun start_count_loop :: "env \<Rightarrow> BlockChain \<Rightarrow> uint64 \<Rightarrow> nat \<Rightarrow> Block option list" where
  "start_count_loop ev bc index 0 = []"
| "start_count_loop ev bc index (Suc n) =
    (case GetBlockByNum ev bc index of
       Inl e \<Rightarrow> if e = ErrNotForgedBlock then [] else None # start_count_loop ev bc (index + 1) n
     | Inr b \<Rightarrow> b # start_count_loop ev bc (index + 1) n)"

definition GetBlocksStartCount :: "env \<Rightarrow> BlockChain \<Rightarrow> 64 word \<Rightarrow> uint32 \<Rightarrow> error + Block option list" where
  "GetBlocksStartCount ev bc start limit =
    (if 0 <s start \<and> start > GetHeadBlockNum bc then Inl (Errorf ''start index is too far off'')
     else if start <s 0 \<and> - start > GetHeadBlockNum bc then Inl (Errorf ''start index is too far off'')
     else if limit > 1000 then Inl (Errorf ''the limit is too large'')
     else (let index = (if start <s 0 then GetHeadBlockNum bc - (- start) + 1 else start)
           in Inr (start_count_loop ev bc index (unat limit))))"

subsection \<open>Genesis (genesis.go)\<close>

text \<open>The outputs of the genesis file, in the order of their hexadecimal addresses.\<close>

definition castGenesisOutputs :: "GenesisBlock \<Rightarrow> TxOutput list" where
  "castGenesisOutputs data = sort_key (\<lambda>out. Encode (to_Address out))
     (map (\<lambda>(addr, amount). NewOutput (HexToAddress addr) amount []) (gn_Outputs data))"

abbreviation (input) outputsPerTxLimit :: nat where "outputsPerTxLimit \<equiv> 2000"

text \<open>The slices \<^verbatim>\<open>genesisOutputs[start:end]\<close> of at most \<open>outputsPerTxLimit\<close> outputs.\<close>

fun genesis_slices :: "nat \<Rightarrow> TxOutput list \<Rightarrow> TxOutput list list" where
  "genesis_slices n outs = (if n = 0 \<or> outs = [] then [] else take n outs # genesis_slices n (drop n outs))"

declare genesis_slices.simps [simp del]

fun genesis_txs :: "env \<Rightarrow> uint64 \<Rightarrow> TxOutput list list \<Rightarrow> error + PbTransaction list" where
  "genesis_txs ev tstamp [] = Inr []"
| "genesis_txs ev tstamp (outs # rest) =
    (case NewPbTransaction (ev_crypto ev) (ev_now ev)
        \<lparr>op_Inputs = [], op_Outputs = outs, op_Fee = 0, op_Data = [], op_Num = GenesisBlockNum,
         op_Type = GenesisTxType, op_Timestamp = tstamp\<rparr> None of
       Inl e \<Rightarrow> Inl e
     | Inr tx \<Rightarrow> (case genesis_txs ev tstamp rest of Inl e \<Rightarrow> Inl e | Inr txs \<Rightarrow> Inr (tx # txs)))"

text \<open>\<open>createGenesis\<close> sets the genesis hash from the file and returns nil on an error.\<close>

definition createGenesis :: "env \<Rightarrow> BlockChain \<Rightarrow> BlockChain \<times> Block option" where
  "createGenesis ev bc = (case ev_genesis ev of
     Inl e \<Rightarrow> (bc, None)
   | Inr data \<Rightarrow>
      (let bc = bc\<lparr>bc_genesisHash := HexToHash (gn_Hash data)\<rparr> in
       case genesis_txs ev (gn_Timestamp data) (genesis_slices outputsPerTxLimit (castGenesisOutputs data)) of
         Inl e \<Rightarrow> (bc, None)
       | Inr txArr \<Rightarrow>
          (case GenTxRoot (ev_crypto ev) txArr of
             Inl e \<Rightarrow> (bc, None)
           | Inr txRoot \<Rightarrow>
              (bc, Some \<lparr>bk_Num = GenesisBlockNum, bk_Slot = 0, bk_Version = [1, 0, 0],
                 bk_Hash = bc_genesisHash bc, bk_Parent = keccak (ev_crypto ev) [],
                 bk_Timestamp = gn_Timestamp data, bk_Txroot = txRoot,
                 bk_Proposer = \<lparr>sg_Address = HexToAddress BlackHoleAddress,
                                sg_Signature = replicate SignatureLength 0\<rparr>,
                 bk_Approvers = [], bk_Slashers = [], bk_Transactions = txArr\<rparr>))))"

definition insertGenesis :: "env \<Rightarrow> BlockChain \<Rightarrow> BlockChain \<times> error option" where
  "insertGenesis ev bc = (case kv_GetGenesis (ev_codec ev) (bc_db bc) of
     Inl e \<Rightarrow> (bc, Some e)
   | Inr (Some block) \<Rightarrow> (bc\<lparr>bc_genesisBlock := Some block, bc_genesisHash := bk_Hash block\<rparr>, None)
   | Inr None \<Rightarrow>
      (case createGenesis ev bc of
         (bc, None) \<Rightarrow> (bc, Some (Errorf ''Error creating Genesis.''))
       | (bc, Some block) \<Rightarrow>
          (case SaveGenesis (ev_codec ev) (ev_kvio ev) block (bc_db bc) of
             (db, Some e) \<Rightarrow> (bc\<lparr>bc_db := db\<rparr>, Some (Wrap e ''Error storing Genesis block''))
           | (db, None) \<Rightarrow>
              (case WriteBlock (ev_codec ev) (ev_kvio ev) block db of
                 (db, Some e) \<Rightarrow> (bc\<lparr>bc_db := db\<rparr>, Some (Wrap e ''Error storing Genesis block''))
               | (db, None) \<Rightarrow> (bc\<lparr>bc_db := db, bc_genesisBlock := Some block\<rparr>, None)))))"

definition init_head :: "env \<Rightarrow> BlockChain \<Rightarrow> BlockChain \<times> (error + uint64)" where
  "init_head ev bc = (case kv_GetHeadBlockNum (bc_db bc) of
     Inr head \<Rightarrow> (bc, Inr head)
   | Inl e \<Rightarrow>
      if errors_Is e ErrNoHead then
        (let head = word_of_nat (CountBlocks (bc_db bc)) in
         case bc_saveHeadBlockNum ev bc head of
           (bc, Some e) \<Rightarrow> (bc, Inl e) | (bc, None) \<Rightarrow> (bc, Inr head))
      else (bc, Inl e))"

definition BlockChain_Init :: "env \<Rightarrow> BlockChain \<Rightarrow> BlockChain \<times> error option" where
  "BlockChain_Init ev bc = (case init_head ev bc of
     (bc, Inl e) \<Rightarrow> (bc, Some e)
   | (bc, Inr head) \<Rightarrow>
      (case insertGenesis ev bc of
         (bc, Some e) \<Rightarrow> (bc, Some e)
       | (bc, None) \<Rightarrow>
          (let bc = bc\<lparr>bc_headBlockNum := head, bc_futureBlockNum := head + 1\<rparr> in
           if head \<noteq> GenesisBlockNum then
             (case GetBlockByNum ev bc head of
                Inl e \<Rightarrow> (bc, Some e)
              | Inr None \<Rightarrow> (bc, Some (Errorf ''block not found''))
              | Inr (Some block) \<Rightarrow> (bc\<lparr>bc_prevHash := bk_Hash block, bc_headBlock := Some block\<rparr>, None))
           else
             (case kv_GetGenesis (ev_codec ev) (bc_db bc) of
                Inl e \<Rightarrow> (bc, Some e)
              | Inr None \<Rightarrow> (bc, Some (Panic ''nil pointer dereference''))
              | Inr (Some block) \<Rightarrow>
                  (bc\<lparr>bc_genesisHash := bk_Hash block, bc_prevHash := bk_Hash block,
                      bc_headBlock := Some block\<rparr>, None)))))"

subsection \<open>Output manager (output\_manager.go)\<close>

definition NewOutputManager :: "Store \<Rightarrow> OutputManager" where
  "NewOutputManager db = \<lparr>om_db = db, om_minBlockNum = 0, om_maxBlockNum = 0, om_syncing = False\<rparr>"

definition rollbackAndGetError :: "env \<Rightarrow> Store \<Rightarrow> nat \<Rightarrow> error \<Rightarrow> Store \<times> error" where
  "rollbackAndGetError ev s txId err = (case RollbackTx (ev_sqlio ev) s txId of
     (s, None) \<Rightarrow> (s, Wrap err '''') | (s, Some errb) \<Rightarrow> (s, Wrap err '' Rollback error: ''))"

definition processUpdateError :: "env \<Rightarrow> Store \<Rightarrow> nat \<Rightarrow> error option \<Rightarrow> Store \<times> error" where
  "processUpdateError ev s blockTx err = (case RollbackTx (ev_sqlio ev) s blockTx of
     (s, _) \<Rightarrow> (s, case err of Some e \<Rightarrow> e | None \<Rightarrow> ErrAffectedRows))"

fun processBlockInputs :: "env \<Rightarrow> Store \<Rightarrow> nat \<Rightarrow> TxInput list \<Rightarrow> Store \<times> error option" where
  "processBlockInputs ev s blockTx [] = (s, None)"
| "processBlockInputs ev s blockTx (i # ins) =
    (case SpendOutput (ev_sqlio ev) s blockTx (Hash_Hex (BytesToHash (ti_Hash i))) (ti_Index i) of
       (s, Inl e) \<Rightarrow> (case processUpdateError ev s blockTx (Some e) of (s, e) \<Rightarrow> (s, Some e))
     | (s, Inr arows) \<Rightarrow>
         if arows \<noteq> 1 then (case processUpdateError ev s blockTx None of (s, e) \<Rightarrow> (s, Some e))
         else processBlockInputs ev s blockTx ins)"

fun outputs_from :: "env \<Rightarrow> PbTransaction \<Rightarrow> bytes \<Rightarrow> uint64 \<Rightarrow> nat \<Rightarrow> TxOutput list \<Rightarrow> UTxO list" where
  "outputs_from ev tx from blockNum index [] = []"
| "outputs_from ev tx from blockNum index (out # outs) =
    (if pt_Type tx = FeeTxType then outputs_from ev tx from blockNum (Suc index) outs
     else NewUTxO (ev_now ev) (pt_Hash tx) from (to_Address out) (to_Node out) (word_of_nat index) (to_Amount out)
            blockNum (pt_Type tx) (pt_Timestamp tx)
          # outputs_from ev tx from blockNum (Suc index) outs)"

definition prepareOutputsQuery :: "env \<Rightarrow> PbTransaction \<Rightarrow> bytes \<Rightarrow> uint64 \<Rightarrow> Row list" where
  "prepareOutputsQuery ev tx from blockNum =
     map ToInsertQuery (outputs_from ev tx from blockNum 0 (pt_Outputs tx))"

text \<open>
  The loop over the transactions of a block: \<open>from\<close> keeps the sender of the previous transaction with
  inputs, \<open>query\<close> collects the tuples of all outputs.
\<close>

fun process_txs :: "env \<Rightarrow> nat \<Rightarrow> uint64 \<Rightarrow> PbTransaction list \<Rightarrow> bytes \<Rightarrow> Row list \<Rightarrow> Store \<Rightarrow>
    Store \<times> (error + Row list)" where
  "process_txs ev blockTx blockNum [] from query s = (s, Inr query)"
| "process_txs ev blockTx blockNum (tx # txs) from query s =
    (if HasInputs tx then
       (case pt_Inputs tx of
          [] \<Rightarrow> (s, Inl (Panic ''index out of range''))
        | i # _ \<Rightarrow>
           (let from = BytesToAddress (ti_Address i) in
            case processBlockInputs ev s blockTx (pt_Inputs tx) of
              (s, Some e) \<Rightarrow> (s, Inl e)
            | (s, None) \<Rightarrow>
                process_txs ev blockTx blockNum txs from (query @ prepareOutputsQuery ev tx from blockNum) s))
     else process_txs ev blockTx blockNum txs from (query @ prepareOutputsQuery ev tx from blockNum) s)"

definition ProcessBlock :: "env \<Rightarrow> OutputManager \<Rightarrow> Block \<Rightarrow> OutputManager \<times> error option" where
  "ProcessBlock ev om block =
    (case CreateTx (ev_sqlio ev) (om_db om) True of
       (s, Inl e) \<Rightarrow> (om\<lparr>om_db := s\<rparr>, Some e)
     | (s, Inr blockTx) \<Rightarrow>
      (case process_txs ev blockTx (bk_Num block) (bk_Transactions block) [] [] s of
         (s, Inl e) \<Rightarrow> (om\<lparr>om_db := s\<rparr>, Some e)
       | (s, Inr query) \<Rightarrow>
          (case (if query \<noteq> [] then AddOutputBatch (ev_sqlio ev) s blockTx query else (s, Inr 0)) of
             (s, Inl e) \<Rightarrow>
               (case processUpdateError ev s blockTx (Some e) of (s, e) \<Rightarrow> (om\<lparr>om_db := s\<rparr>, Some e))
           | (s, Inr arows) \<Rightarrow>
               if arows \<noteq> length query then
                 (case processUpdateError ev s blockTx None of (s, e) \<Rightarrow> (om\<lparr>om_db := s\<rparr>, Some e))
               else
                 (case CommitTx (ev_sqlio ev) s blockTx of
                    (s, Some e) \<Rightarrow>
                      (case rollbackAndGetError ev s blockTx e of (s, e) \<Rightarrow> (om\<lparr>om_db := s\<rparr>, Some e))
                  | (s, None) \<Rightarrow> (om\<lparr>om_db := s\<rparr>, None)))))"

subsection \<open>Synchronising the outputs with the blocks\<close>

fun sync_spend :: "env \<Rightarrow> Store \<Rightarrow> nat \<Rightarrow> TxInput list \<Rightarrow> Store \<times> error option" where
  "sync_spend ev s blockTx [] = (s, None)"
| "sync_spend ev s blockTx (i # ins) =
    (case SpendOutput (ev_sqlio ev) s blockTx (Hash_Hex (BytesToHash (ti_Hash i))) (ti_Index i) of
       (s, Inl e) \<Rightarrow> (case rollbackAndGetError ev s blockTx e of (s, e) \<Rightarrow> (s, Some e))
     | (s, Inr _) \<Rightarrow> sync_spend ev s blockTx ins)"

fun sync_outputs :: "env \<Rightarrow> PbTransaction \<Rightarrow> bytes \<Rightarrow> uint64 \<Rightarrow> nat \<Rightarrow> nat \<Rightarrow> TxOutput list \<Rightarrow> Store \<Rightarrow>
    Store \<times> error option" where
  "sync_outputs ev tx from blockNum blockTx index [] s = (s, None)"
| "sync_outputs ev tx from blockNum blockTx index (out # outs) s =
    (if pt_Type tx = FeeTxType \<and> Address_Hex (BytesToAddress (to_Address out)) = BlackHoleAddress
     then sync_outputs ev tx from blockNum blockTx index outs s
     else (case AddOutputIfNotExists (ev_sqlio ev) s blockTx
             (NewUTxO (ev_now ev) (pt_Hash tx) from (to_Address out) (to_Node out) (word_of_nat index)
                (to_Amount out) blockNum (pt_Type tx) (pt_Timestamp tx)) of
         (s, Some e) \<Rightarrow> (case rollbackAndGetError ev s blockTx e of (s, e) \<Rightarrow> (s, Some e))
       | (s, None) \<Rightarrow> sync_outputs ev tx from blockNum blockTx (Suc index) outs s))"

fun sync_txs :: "env \<Rightarrow> uint64 \<Rightarrow> nat \<Rightarrow> PbTransaction list \<Rightarrow> Store \<Rightarrow> Store \<times> error option" where
  "sync_txs ev blockNum blockTx [] s = (s, None)"
| "sync_txs ev blockNum blockTx (tx # txs) s =
    (if pt_Status tx = TxFailed then sync_txs ev blockNum blockTx txs s
     else (case sync_spend ev s blockTx (pt_Inputs tx) of
         (s, Some e) \<Rightarrow> (s, Some e)
       | (s, None) \<Rightarrow>
          (case (if IsLegacyTx tx then (case pt_Inputs tx of [] \<Rightarrow> Inl (Panic ''index out of range'')
                   | i # _ \<Rightarrow> Inr (ti_Address i)) else Inr []) of
             Inl e \<Rightarrow> (s, Some e)
           | Inr from \<Rightarrow>
              (case sync_outputs ev tx from blockNum blockTx 0 (pt_Outputs tx) s of
                 (s, Some e) \<Rightarrow> (s, Some e)
               | (s, None) \<Rightarrow> sync_txs ev blockNum blockTx txs s))))"

definition syncBlock :: "env \<Rightarrow> Block \<Rightarrow> nat \<Rightarrow> Store \<Rightarrow> Store \<times> error option" where
  "syncBlock ev block blockTx s =
    (case (if bk_Num block = GenesisBlockNum then DeleteOutputs (ev_sqlio ev) s blockTx (bk_Num block)
           else (s, None)) of
       (s, Some e) \<Rightarrow> (s, Some e)
     | (s, None) \<Rightarrow> sync_txs ev (bk_Num block) blockTx (bk_Transactions block) s)"

definition syncLastBlock :: "env \<Rightarrow> BlockChain \<Rightarrow> OutputManager \<Rightarrow> BlockChain \<times> OutputManager \<times> error option" where
  "syncLastBlock ev bc om = (case GetHeadBlock ev bc of
     (bc, Inl e) \<Rightarrow> (bc, om, Some e)
   | (bc, Inr block) \<Rightarrow>
      (case CreateTx (ev_sqlio ev) (om_db om) False of
         (s, Inl e) \<Rightarrow> (bc, om\<lparr>om_db := s\<rparr>, Some e)
       | (s, Inr tx) \<Rightarrow>
          (case syncBlock ev block tx s of
             (s, Some e) \<Rightarrow> (bc, om\<lparr>om_db := fst (RollbackTx (ev_sqlio ev) s tx)\<rparr>, Some e)
           | (s, None) \<Rightarrow>
              (case CommitTx (ev_sqlio ev) s tx of (s, e) \<Rightarrow> (bc, om\<lparr>om_db := s\<rparr>, e)))))"

text \<open>
  One round of the loop of \<open>syncDataInRange\<close>: every tenth round commits the open transaction and begins
  another; then the block is cleared or synchronised and the progress counter moves.
\<close>

abbreviation (input) blocksPerTx :: nat where "blocksPerTx \<equiv> 10"

definition sync_round_tx :: "env \<Rightarrow> uint64 \<Rightarrow> nat \<Rightarrow> uint64 \<Rightarrow> nat \<Rightarrow> Store \<Rightarrow> Store \<times> (error + nat)" where
  "sync_round_tx ev lo counter blockNum tx s =
    (if counter mod blocksPerTx = 0 then
       (case (if blockNum \<noteq> lo then CommitTx (ev_sqlio ev) s tx else (s, None)) of
          (s, Some e) \<Rightarrow> (s, Inl e)
        | (s, None) \<Rightarrow> CreateTx (ev_sqlio ev) s False)
     else (s, Inr tx))"

definition sync_round_block ::
  "env \<Rightarrow> BlockChain \<Rightarrow> uint64 \<Rightarrow> bool \<Rightarrow> uint64 \<Rightarrow> nat \<Rightarrow> Store \<Rightarrow> Store \<times> error option" where
  "sync_round_block ev bc lo clear blockNum tx s =
    (if clear \<and> blockNum \<noteq> lo then DeleteOutputs (ev_sqlio ev) s tx blockNum
     else (case GetBlockByNum ev bc blockNum of
         Inl e \<Rightarrow> (s, Some (Wrap e ''GetBlockByNum error''))
       | Inr None \<Rightarrow> (s, Some (Panic ''nil pointer dereference''))
       | Inr (Some block) \<Rightarrow>
          (case syncBlock ev block tx s of
             (s, Some e) \<Rightarrow> (fst (RollbackTx (ev_sqlio ev) s tx), Some e)
           | (s, None) \<Rightarrow> (s, None))))"

fun sync_range_loop :: "env \<Rightarrow> BlockChain \<Rightarrow> uint64 \<Rightarrow> uint64 \<Rightarrow> bool \<Rightarrow> uint64 list \<Rightarrow> nat \<Rightarrow> nat \<Rightarrow>
    OutputManager \<Rightarrow> OutputManager \<times> (error + nat)" where
  "sync_range_loop ev bc lo hi clear [] counter tx om = (om, Inr tx)"
| "sync_range_loop ev bc lo hi clear (blockNum # nums) counter tx om =
    (case sync_round_tx ev lo counter blockNum tx (om_db om) of
       (s, Inl e) \<Rightarrow> (om\<lparr>om_db := s\<rparr>, Inl e)
     | (s, Inr tx) \<Rightarrow>
        (case sync_round_block ev bc lo clear blockNum tx s of
           (s, Some e) \<Rightarrow> (om\<lparr>om_db := s\<rparr>, Inl e)
         | (s, None) \<Rightarrow>
            (let om = om\<lparr>om_db := s,
                         om_minBlockNum := (if om_minBlockNum om < hi then om_minBlockNum om + 1
                                            else om_minBlockNum om)\<rparr>
             in sync_range_loop ev bc lo hi clear nums (Suc counter) tx om)))"

text \<open>The block numbers \<^verbatim>\<open>for blockNum := lo; blockNum <= hi; blockNum++\<close> visits (for \<open>hi\<close> below \<open>2^64 - 1\<close>).\<close>

definition num_range :: "uint64 \<Rightarrow> uint64 \<Rightarrow> uint64 list" where
  "num_range a b = map word_of_nat [unat a..<Suc (unat b)]"

definition syncDataInRange :: "env \<Rightarrow> BlockChain \<Rightarrow> OutputManager \<Rightarrow> uint64 \<Rightarrow> uint64 \<Rightarrow> bool \<Rightarrow>
    OutputManager \<times> error option" where
  "syncDataInRange ev bc om lo hi clear =
    (case sync_range_loop ev bc lo hi clear (num_range lo hi) 0 0 om of
       (om, Inl e) \<Rightarrow> (om, Some e)
     | (om, Inr tx) \<Rightarrow> (case CommitTx (ev_sqlio ev) (om_db om) tx of (s, e) \<Rightarrow> (om\<lparr>om_db := s\<rparr>, e)))"

text \<open>\<open>qerr\<close> is the error of the query for the last block number in the table.\<close>

definition SyncData :: "env \<Rightarrow> error option \<Rightarrow> BlockChain \<Rightarrow> OutputManager \<Rightarrow>
    BlockChain \<times> OutputManager \<times> error option" where
  "SyncData ev qerr bc om = (case FindLastBlockNum qerr (om_db om) of
     Inl e \<Rightarrow> (bc, om, Some e)
   | Inr lastSQLBlockNum \<Rightarrow>
      (let lastKVBlockNum = GetHeadBlockNum bc; om = om\<lparr>om_syncing := True\<rparr> in
       case (if lastSQLBlockNum = lastKVBlockNum then
               (case syncLastBlock ev bc om of (bc, om, e) \<Rightarrow>
                  (bc, om, map_option (\<lambda>e. Wrap e ''SyncLastBlock error'') e))
             else
               (let clear = \<not> lastKVBlockNum > lastSQLBlockNum;
                    mn = (if clear then lastKVBlockNum else lastSQLBlockNum);
                    mx = (if clear then lastSQLBlockNum else lastKVBlockNum);
                    om = om\<lparr>om_minBlockNum := mn, om_maxBlockNum := mx\<rparr>
                in case syncDataInRange ev bc om mn mx clear of (om, e) \<Rightarrow>
                     (bc, om, map_option (\<lambda>e. Wrap e ''syncDataInRange error'') e)))
       of (bc, om, e) \<Rightarrow> (bc, om\<lparr>om_syncing := False\<rparr>, e)))"

subsection \<open>Service (service.go)\<close>

definition NewService :: "KvStore \<Rightarrow> Store \<Rightarrow> Service" where
  "NewService kv sql = \<lparr>sv_bc = NewBlockChain kv, sv_outm = NewOutputManager sql, sv_ready = False,
     sv_startFailure = None\<rparr>"

definition CheckBalance :: "error option \<Rightarrow> Service \<Rightarrow> error option" where
  "CheckBalance qerr s = (case GetAmountStats (sv_bc s) of (rewardAmount, feeAmount, genesisSupply) \<Rightarrow>
     (case GetTotalAmount qerr (om_db (sv_outm s)) of
        Inl e \<Rightarrow> Some e
      | Inr balanceSum \<Rightarrow>
         if genesisSupply + rewardAmount \<noteq> balanceSum + feeAmount
         then Some (Errorf ''Wrong total supply.'') else None))"

definition GetSystemBalance :: "Service \<Rightarrow> uint64" where
  "GetSystemBalance s = (case GetAmountStats (sv_bc s) of (rewardAmount, _, genesisSupply) \<Rightarrow>
     genesisSupply + rewardAmount)"

definition SyncDatabase :: "env \<Rightarrow> error option \<Rightarrow> error option \<Rightarrow> Service \<Rightarrow> Service \<times> error option" where
  "SyncDatabase ev qerr1 qerr2 s = (case SyncData ev qerr1 (sv_bc s) (sv_outm s) of
     (bc, om, Some e) \<Rightarrow> (s\<lparr>sv_bc := bc, sv_outm := om\<rparr>, Some e)
   | (bc, om, None) \<Rightarrow> (let s = s\<lparr>sv_bc := bc, sv_outm := om\<rparr> in (s, CheckBalance qerr2 s)))"

definition Service_Start :: "env \<Rightarrow> error option \<Rightarrow> error option \<Rightarrow> Service \<Rightarrow> Service" where
  "Service_Start ev qerr1 qerr2 s = (case BlockChain_Init ev (sv_bc s) of
     (bc, Some e) \<Rightarrow> s\<lparr>sv_bc := bc, sv_startFailure := Some e\<rparr>
   | (bc, None) \<Rightarrow>
      (case SyncDatabase ev qerr1 qerr2 (s\<lparr>sv_bc := bc\<rparr>) of
         (s, Some e) \<Rightarrow> s\<lparr>sv_startFailure := Some e\<rparr>
       | (s, None) \<Rightarrow> s\<lparr>sv_ready := True\<rparr>))"

definition GetBalance :: "error option \<Rightarrow> Service \<Rightarrow> string \<Rightarrow> error + uint64" where
  "GetBalance qerr s addr = (case FindAllUTxO qerr (om_db (sv_outm s)) addr of
     Inl e \<Rightarrow> Inl e | Inr utxo \<Rightarrow> Inr (sum_list (map uo_Amount utxo)))"

definition FinalizeBlock :: "env \<Rightarrow> error option \<Rightarrow> Service \<Rightarrow> Block \<Rightarrow> Service \<times> error option" where
  "FinalizeBlock ev qerr s block = (case ProcessBlock ev (sv_outm s) block of
     (om, Some e) \<Rightarrow> (s\<lparr>sv_outm := om\<rparr>, Some (Wrap e ''SQL error''))
   | (om, None) \<Rightarrow>
      (case SaveBlock ev (sv_bc s) block of
         (bc, Some e) \<Rightarrow>
           (case SyncData ev qerr bc om of (bc, om, _) \<Rightarrow>
              (s\<lparr>sv_bc := bc, sv_outm := om\<rparr>, Some (Wrap e ''KV error'')))
       | (bc, None) \<Rightarrow> (s\<lparr>sv_bc := bc, sv_outm := om\<rparr>, None)))"

text \<open>
  \<open>cancelled k\<close> tells whether the request's context is cancelled before the \<open>k\<close>-th block is read. The loop compares
  \<open>num \<le> end\<close> and increments, so that it only ends by an error when \<open>end\<close> is \<open>2 ^ 64 - 1\<close>: \<open>None\<close> is a call that does
  not return.
\<close>

partial_function (option) blocks_range_loop :: "env \<Rightarrow> BlockChain \<Rightarrow> (nat \<Rightarrow> error option) \<Rightarrow> nat \<Rightarrow> uint64 \<Rightarrow> uint64 \<Rightarrow>
    (error + Block option list) option" where
  "blocks_range_loop ev bc cancelled k num end' =
    (if \<not> num \<le> end' then Some (Inr [])
     else case cancelled k of Some e \<Rightarrow> Some (Inl e)
     | None \<Rightarrow>
      (case GetBlockByNum ev bc num of
         Inl e \<Rightarrow> if errors_Is e ErrNotForgedBlock then blocks_range_loop ev bc cancelled (Suc k) (num + 1) end' else Some (Inl e)
       | Inr b \<Rightarrow> Option.bind (blocks_range_loop ev bc cancelled (Suc k) (num + 1) end') (\<lambda>r.
           Some (case r of Inl e \<Rightarrow> Inl e | Inr bs \<Rightarrow> Inr (b # bs)))))"

text \<open>
  \<^verbatim>\<open>make\<close> panics when the capacity is negative or the slice would be larger than the address space of the Go runtime,
  \<^verbatim>\<open>2^48\<close> bytes on 64-bit platforms; a pointer takes 8 bytes.
\<close>

definition max_pointers :: int where
  "max_pointers = 2 ^ 48 div 8"

definition GetBlocksRange :: "env \<Rightarrow> Service \<Rightarrow> (nat \<Rightarrow> error option) \<Rightarrow> uint64 \<Rightarrow> uint64 \<Rightarrow> (error + Block option list) option" where
  "GetBlocksRange ev s cancelled start end' =
     (if sint (end' - start + 1) < 0 \<or> sint (end' - start + 1) > max_pointers then Some (Inl (Panic ''makeslice: cap out of range''))
      else blocks_range_loop ev (sv_bc s) cancelled 0 start end')"

subsection \<open>Applying a block to the outputs\<close>

text \<open>The keys a block spends and the outputs it creates, as the specification of \<open>ProcessBlock\<close>.\<close>

definition in_key :: "TxInput \<Rightarrow> string \<times> uint32" where
  "in_key i = (Hash_Hex (BytesToHash (ti_Hash i)), ti_Index i)"

definition spent_inputs :: "PbTransaction list \<Rightarrow> TxInput list" where
  "spent_inputs txs = concat (map pt_Inputs (filter HasInputs txs))"

fun created_outputs :: "env \<Rightarrow> uint64 \<Rightarrow> bytes \<Rightarrow> PbTransaction list \<Rightarrow> UTxO list" where
  "created_outputs ev blockNum from [] = []"
| "created_outputs ev blockNum from (tx # txs) =
    (let from = (if HasInputs tx then BytesToAddress (ti_Address (hd (pt_Inputs tx))) else from)
     in outputs_from ev tx from blockNum 0 (pt_Outputs tx) @ created_outputs ev blockNum from txs)"

lemma SpendOutput_ok:
  assumes "SpendOutput io s i h n = (s', Inr k)" "map_of (ds_tx s) i = Some t"
  shows "map_of (ds_tx s') i = Some (filter (\<lambda>r. row_key r \<noteq> (h, n)) t)" "ds_table s' = ds_table s"
    "k = length (filter (\<lambda>r. row_key r = (h, n)) t)"
  using assms by (auto simp: SpendOutput_def stmt_def map_of_update split: option.splits)

lemma sql_table_simps [simp]:
  "ds_table (fst (SpendOutput io s i h n)) = ds_table s"
  "ds_table (fst (AddOutputBatch io s i rs)) = ds_table s"
  "ds_table (fst (CreateTx io s b)) = ds_table s"
  "ds_table (fst (RollbackTx io s i)) = ds_table s"
  "ds_table (fst (processUpdateError ev s i e)) = ds_table s"
  "ds_table (fst (rollbackAndGetError ev s i e')) = ds_table s"
proof -
  show rb: "ds_table (fst (RollbackTx io s i)) = ds_table s" for io
    using uncommitted_invisible [of "OpRollback i" io s] by simp
  show "ds_table (fst (SpendOutput io s i h n)) = ds_table s"
    using uncommitted_invisible [of "OpSpend i h n" io s] by simp
  show "ds_table (fst (AddOutputBatch io s i rs)) = ds_table s"
    using uncommitted_invisible [of "OpAddBatch i rs" io s] by simp
  show "ds_table (fst (CreateTx io s b)) = ds_table s"
    using uncommitted_invisible [of "OpCreateTx b" io s] by simp
  show "ds_table (fst (processUpdateError ev s i e)) = ds_table s"
    using rb [of "ev_sqlio ev"] by (auto simp: processUpdateError_def split: prod.split)
  show "ds_table (fst (rollbackAndGetError ev s i e')) = ds_table s"
    using rb [of "ev_sqlio ev"] by (auto simp: rollbackAndGetError_def split: prod.split option.split)
qed

lemma sql_keep [dest]:
  "SpendOutput io s i h n = (s', r) \<Longrightarrow> ds_table s' = ds_table s"
  "AddOutputBatch io s i rs = (s', r) \<Longrightarrow> ds_table s' = ds_table s"
  "CreateTx io s b = (s', r) \<Longrightarrow> ds_table s' = ds_table s"
  "processUpdateError ev s i eo = (s', e) \<Longrightarrow> ds_table s' = ds_table s"
  "rollbackAndGetError ev s i e' = (s', e) \<Longrightarrow> ds_table s' = ds_table s"
  by (metis fst_conv sql_table_simps)+

lemma CommitTx_fail: "CommitTx io s i = (s', Some e) \<Longrightarrow> ds_table s' = ds_table s"
  by (auto simp: CommitTx_def stmt_def removeTx_def split: option.splits)

lemma processBlockInputs_table: "processBlockInputs ev s i ins = (s', r) \<Longrightarrow> ds_table s' = ds_table s"
  by (induction ins arbitrary: s) (fastforce split: prod.splits sum.splits if_splits)+

lemma processBlockInputs_ok:
  assumes "processBlockInputs ev s i ins = (s', None)" "map_of (ds_tx s) i = Some t"
  shows "map_of (ds_tx s') i = Some (filter (\<lambda>r. row_key r \<notin> set (map in_key ins)) t) \<and>
    ds_table s' = ds_table s \<and> distinct (map in_key ins) \<and> set (map in_key ins) \<subseteq> row_key ` set t"
  using assms
proof (induction ins arbitrary: s t)
  case (Cons x ins)
  let ?k = "in_key x"
  obtain s1 where s1: "SpendOutput (ev_sqlio ev) s i (fst ?k) (snd ?k) = (s1, Inr 1)"
    and rest: "processBlockInputs ev s1 i ins = (s', None)"
    using Cons.prems(1) by (auto simp: in_key_def split: prod.splits sum.splits if_splits)
  note S = SpendOutput_ok [OF s1 Cons.prems(2)]
  let ?t = "filter (\<lambda>r. row_key r \<noteq> ?k) t"
  have IH: "map_of (ds_tx s') i = Some (filter (\<lambda>r. row_key r \<notin> set (map in_key ins)) ?t)"
    "ds_table s' = ds_table s1" "distinct (map in_key ins)" "set (map in_key ins) \<subseteq> row_key ` set ?t"
    using Cons.IH [OF rest] S(1) by auto
  have "\<exists>r \<in> set t. row_key r = ?k"
    using S(3) by (cases "filter (\<lambda>r. row_key r = ?k) t") (auto simp: filter_eq_Cons_iff)
  then have "?k \<in> row_key ` set t" by (metis image_eqI)
  moreover have "filter (\<lambda>r. row_key r \<notin> set (map in_key ins)) ?t =
      filter (\<lambda>r. row_key r \<notin> set (map in_key (x # ins))) t"
    by (auto intro: filter_cong)
  ultimately show ?case using IH S(2) by auto
qed simp

lemma process_txs_table:
  "process_txs ev i bn txs f0 q s = (s', r) \<Longrightarrow> ds_table s' = ds_table s"
proof (induction txs arbitrary: f0 q s)
  case (Cons tx txs)
  have step: "process_txs ev i bn txs f q1 s1 = (s', r) \<Longrightarrow> ds_table s1 = ds_table s \<Longrightarrow> ?case" for f q1 s1
    using Cons.IH by simp
  show ?case
  proof (cases "HasInputs tx")
    case True
    then show ?thesis
      using Cons.prems step
      by (auto simp: Let_def simp del: processBlockInputs.simps dest: processBlockInputs_table
          split: list.splits prod.splits option.splits)
  qed (use Cons.prems step in simp)
qed simp

lemma spent_inputs_Cons:
  "spent_inputs (tx # txs) = (if HasInputs tx then pt_Inputs tx else []) @ spent_inputs txs"
  by (simp add: spent_inputs_def)

lemma process_txs_ok:
  assumes "process_txs ev i bn txs f0 q s = (s', Inr q')" "map_of (ds_tx s) i = Some t"
  shows "map_of (ds_tx s') i = Some (filter (\<lambda>r. row_key r \<notin> set (map in_key (spent_inputs txs))) t) \<and>
    distinct (map in_key (spent_inputs txs)) \<and> set (map in_key (spent_inputs txs)) \<subseteq> row_key ` set t \<and>
    q' = q @ map ToInsertQuery (created_outputs ev bn f0 txs)"
  using assms
proof (induction txs arbitrary: f0 q s t)
  case (Cons tx txs)
  show ?case
  proof (cases "HasInputs tx")
    case False
    then show ?thesis
      using Cons.IH [of f0 "q @ prepareOutputsQuery ev tx f0 bn" s t] Cons.prems
      by (simp add: spent_inputs_Cons prepareOutputsQuery_def Let_def)
  next
    case True
    with Cons.prems(1) obtain x ins where x: "pt_Inputs tx = x # ins" by (cases "pt_Inputs tx") auto
    let ?f = "BytesToAddress (ti_Address x)"
    obtain s1 where s1: "processBlockInputs ev s i (pt_Inputs tx) = (s1, None)"
      and rest: "process_txs ev i bn txs ?f (q @ prepareOutputsQuery ev tx ?f bn) s1 = (s', Inr q')"
      using Cons.prems(1) True x by (auto simp: Let_def split: prod.splits option.splits)
    let ?t = "filter (\<lambda>r. row_key r \<notin> set (map in_key (pt_Inputs tx))) t"
    have S: "map_of (ds_tx s1) i = Some ?t" "distinct (map in_key (pt_Inputs tx))"
      "set (map in_key (pt_Inputs tx)) \<subseteq> row_key ` set t"
      using processBlockInputs_ok [OF s1 Cons.prems(2)] by auto
    have I: "map_of (ds_tx s') i = Some (filter (\<lambda>r. row_key r \<notin> set (map in_key (spent_inputs txs))) ?t)"
      "distinct (map in_key (spent_inputs txs))" "set (map in_key (spent_inputs txs)) \<subseteq> row_key ` set ?t"
      "q' = (q @ prepareOutputsQuery ev tx ?f bn) @ map ToInsertQuery (created_outputs ev bn ?f txs)"
      using Cons.IH [OF rest S(1)] by blast+
    have "filter (\<lambda>r. row_key r \<notin> set (map in_key (spent_inputs txs))) ?t =
        filter (\<lambda>r. row_key r \<notin> set (map in_key (spent_inputs (tx # txs)))) t"
      using True by (auto simp: spent_inputs_Cons intro: filter_cong)
    moreover have "set (map in_key (pt_Inputs tx)) \<inter> set (map in_key (spent_inputs txs)) = {}"
      using I(3) by fastforce
    ultimately show ?thesis
      using S I True x by (auto simp: spent_inputs_Cons prepareOutputsQuery_def Let_def)
  qed
qed (simp add: spent_inputs_def)

text \<open>\<open>ProcessBlock\<close> refines: remove the spent rows, append the created ones.\<close>

lemma ProcessBlock_ok:
  assumes "ProcessBlock ev om b = (om', None)"
  shows "\<exists>n n'. insert_rows (filter (\<lambda>r. row_key r \<notin> set (map in_key (spent_inputs (bk_Transactions b)))) (ds_table (om_db om)))
      n (map ToInsertQuery (created_outputs ev (bk_Num b) [] (bk_Transactions b))) = Some (ds_table (om_db om'), n')"
    "distinct (map in_key (spent_inputs (bk_Transactions b)))"
    "set (map in_key (spent_inputs (bk_Transactions b))) \<subseteq> row_key ` set (ds_table (om_db om))"
proof -
  let ?ks = "set (map in_key (spent_inputs (bk_Transactions b)))"
  let ?t = "filter (\<lambda>r. row_key r \<notin> ?ks) (ds_table (om_db om))"
  obtain s1 i where c: "CreateTx (ev_sqlio ev) (om_db om) True = (s1, Inr i)"
    using assms by (auto simp: ProcessBlock_def split: prod.splits sum.splits)
  obtain s2 q where p: "process_txs ev i (bk_Num b) (bk_Transactions b) [] [] s1 = (s2, Inr q)"
    using assms c by (auto simp: ProcessBlock_def split: prod.splits sum.splits)
  obtain s3 n where a: "(if q \<noteq> [] then AddOutputBatch (ev_sqlio ev) s2 i q else (s2, Inr 0)) = (s3, Inr n)"
    and f: "CommitTx (ev_sqlio ev) s3 i = (om_db om', None)"
    using assms c p by (auto simp: ProcessBlock_def split: prod.splits sum.splits if_splits option.splits)
  have v1: "map_of (ds_tx s1) i = Some (ds_table (om_db om))"
    using CreateTx_ok [OF c] by (simp add: map_of_update)
  note P = process_txs_ok [OF p v1]
  show "distinct (map in_key (spent_inputs (bk_Transactions b)))" "?ks \<subseteq> row_key ` set (ds_table (om_db om))"
    using P by blast+
  have q: "q = map ToInsertQuery (created_outputs ev (bk_Num b) [] (bk_Transactions b))"
    and v2: "map_of (ds_tx s2) i = Some ?t" using P by simp_all
  have "\<exists>t' n n'. insert_rows ?t n q = Some (t', n') \<and> map_of (ds_tx s3) i = Some t'"
  proof (cases "q = []")
    case True
    with a v2 show ?thesis by auto
  next
    case False
    then obtain t' k where "insert_rows ?t (ds_nextId s2) q = Some (t', k)" "ds_tx s3 = gput i t' (ds_tx s2)"
      using a AddOutputBatch_ok [of "ev_sqlio ev" s2 i q s3 n ?t] v2 by auto
    then show ?thesis
      by (intro exI [of _ t'] exI [of _ "ds_nextId s2"] exI [of _ k]) (simp add: map_of_update)
  qed
  then show "\<exists>n n'. insert_rows ?t n (map ToInsertQuery (created_outputs ev (bk_Num b) [] (bk_Transactions b)))
      = Some (ds_table (om_db om'), n')"
    using CommitTx_ok [OF f] q by blast
qed

lemma ProcessBlock_fail:
  "ProcessBlock ev om b = (om', Some e) \<Longrightarrow> ds_table (om_db om') = ds_table (om_db om)"
  by (auto simp: ProcessBlock_def dest!: process_txs_table CommitTx_fail sql_keep
      split: prod.splits sum.splits if_splits option.splits)

lemma ProcessBlock_frame: "ProcessBlock ev om b = (om', e) \<Longrightarrow> om' = om\<lparr>om_db := om_db om'\<rparr>"
  by (auto simp: ProcessBlock_def split: prod.splits sum.splits if_splits option.splits)

subsection \<open>Totals\<close>

text \<open>The amount stored under a key (zero when there is no such row).\<close>

definition amount_at :: "table \<Rightarrow> string \<times> uint32 \<Rightarrow> uint64" where
  "amount_at t k = sum_list (map rw_amount (filter (\<lambda>r. row_key r = k) t))"

lemma amount_at_row: "table_ok t \<Longrightarrow> r \<in> set t \<Longrightarrow> amount_at t (row_key r) = rw_amount r"
  by (simp add: amount_at_def filter_key)

lemma wsum_filter_keys:
  "distinct ks \<Longrightarrow>
   sum_list (map rw_amount (filter (\<lambda>r. row_key r \<in> set ks) t)) = (\<Sum>k\<leftarrow>ks. amount_at t k)"
proof (induction ks)
  case (Cons k ks)
  have "sum_list (map rw_amount (filter (\<lambda>r. row_key r \<in> set (k # ks)) t)) =
      amount_at t k + sum_list (map rw_amount (filter (\<lambda>r. row_key r \<in> set ks) t))"
    using Cons.prems by (induction t) (auto simp: amount_at_def)
  with Cons show ?case by simp
qed simp

lemma wsum_split:
  "sum_list (map rw_amount t) = sum_list (map rw_amount (filter P t)) + sum_list (map rw_amount (filter (\<lambda>r. \<not> P r) t))"
  for t :: table
  by (induction t) auto

lemma insert_rows_wsum:
  "insert_rows t n rs = Some (t', n') \<Longrightarrow>
    sum_list (map rw_amount t') = sum_list (map rw_amount t) + sum_list (map rw_amount rs)"
  by (induction t n rs rule: insert_rows.induct) (auto split: if_splits)

lemma word_total: "word_of_nat (total t) = sum_list (map rw_amount t)"
  by (simp add: total_def word_of_nat_sum_list)

lemma wsum_outputs_from:
  "sum_list (map (rw_amount \<circ> ToInsertQuery) (outputs_from ev tx f bn i outs)) =
   (if pt_Type tx = FeeTxType then 0 else sum_list (map to_Amount outs))"
  by (induction outs arbitrary: i) (auto simp: ToInsertQuery_def NewUTxO_def Let_def)

lemma wsum_created:
  "sum_list (map (rw_amount \<circ> ToInsertQuery) (created_outputs ev bn f txs)) =
   (\<Sum>tx\<leftarrow>txs. if pt_Type tx = FeeTxType then 0 else out_sum tx)"
  by (induction txs arbitrary: f) (simp_all add: Let_def wsum_outputs_from out_sum_def)

lemma ProcessBlock_wsum:
  assumes "ProcessBlock ev om b = (om', None)"
  shows "sum_list (map rw_amount (ds_table (om_db om'))) = sum_list (map rw_amount (ds_table (om_db om)))
    - (\<Sum>i\<leftarrow>spent_inputs (bk_Transactions b). amount_at (ds_table (om_db om)) (in_key i))
    + (\<Sum>tx\<leftarrow>bk_Transactions b. if pt_Type tx = FeeTxType then 0 else out_sum tx)"
proof -
  let ?t = "ds_table (om_db om)" and ?ks = "map in_key (spent_inputs (bk_Transactions b))"
  obtain n n' where ins: "insert_rows (filter (\<lambda>r. row_key r \<notin> set ?ks) ?t) n
      (map ToInsertQuery (created_outputs ev (bk_Num b) [] (bk_Transactions b))) = Some (ds_table (om_db om'), n')"
    and d: "distinct ?ks"
    using ProcessBlock_ok [OF assms] by blast
  have "sum_list (map rw_amount ?t) = (\<Sum>k\<leftarrow>?ks. amount_at ?t k) +
      sum_list (map rw_amount (filter (\<lambda>r. row_key r \<notin> set ?ks) ?t))"
    using wsum_split [of ?t "\<lambda>r. row_key r \<in> set ?ks"] wsum_filter_keys [OF d, of ?t] by simp
  then show ?thesis
    using insert_rows_wsum [OF ins] wsum_created [of ev "bk_Num b" "[]" "bk_Transactions b"]
    by (simp add: comp_def algebra_simps)
qed

subsection \<open>Saving a block\<close>

lemma SaveBlock_ok:
  assumes "SaveBlock ev bc b = (bc', None)"
  shows "\<exists>db1 db2. WriteBlock (ev_codec ev) (ev_kvio ev) b (bc_db bc) = (db1, None) \<and>
      SaveHeadBlockNum (ev_kvio ev) (bk_Num b) db1 = (db2, None) \<and>
      UpdateAmountStats (ev_kvio ev) (block_reward (bk_Transactions b)) (block_fee (bk_Transactions b)) db2 = (bc_db bc', None)"
    and "bc_headBlockNum bc' = bc_headBlockNum bc + 1" "bc_futureBlockNum bc' = bc_futureBlockNum bc + 1"
      "bc_prevHash bc' = bk_Hash b" "bc_headBlock bc' = Some b" "bc_genesisBlock bc' = bc_genesisBlock bc"
      "bc_genesisHash bc' = bc_genesisHash bc"
  using assms by (auto simp: SaveBlock_def bc_saveHeadBlockNum_def split: prod.splits option.splits)

lemma SaveBlock_stats:
  assumes "SaveBlock ev bc b = (bc', None)"
  shows "kv_GetAmountStats (bc_db bc') = (fst (kv_GetAmountStats (bc_db bc)) + block_reward (bk_Transactions b),
    snd (kv_GetAmountStats (bc_db bc)) + block_fee (bk_Transactions b))"
proof -
  obtain db1 db2 where w: "WriteBlock (ev_codec ev) (ev_kvio ev) b (bc_db bc) = (db1, None)"
    and h: "SaveHeadBlockNum (ev_kvio ev) (bk_Num b) db1 = (db2, None)"
    and u: "UpdateAmountStats (ev_kvio ev) (block_reward (bk_Transactions b)) (block_fee (bk_Transactions b)) db2
      = (bc_db bc', None)"
    using SaveBlock_ok(1) [OF assms] by blast
  have "Get AddressBucket statsKey db2 = Get AddressBucket statsKey (bc_db bc)"
    using WriteBlock_ok [OF w] SaveHeadBlockNum_ok [OF h] by auto
  then show ?thesis
    using UpdateAmountStats_ok(1) [OF u] by (simp add: kv_GetAmountStats_def)
qed

text \<open>A block whose inputs and outputs balance, fee outputs included and rewards aside.\<close>

definition block_balanced :: "table \<Rightarrow> PbTransaction list \<Rightarrow> bool" where
  "block_balanced t txs \<longleftrightarrow>
     (\<Sum>i\<leftarrow>spent_inputs txs. amount_at t (in_key i)) =
     (\<Sum>tx\<leftarrow>txs. if pt_Type tx = RewardTxType then 0 else out_sum tx)"

lemma outputs_by_kind:
  "(\<Sum>tx\<leftarrow>txs. if pt_Type tx = FeeTxType then 0 else out_sum tx) + block_fee txs =
   (\<Sum>tx\<leftarrow>txs. if pt_Type tx = RewardTxType then 0 else out_sum tx) + block_reward txs"
  by (induction txs) (auto simp: block_fee_def block_reward_def algebra_simps)

lemma FinalizeBlock_ok:
  assumes "FinalizeBlock ev q s b = (s', None)"
  shows "ProcessBlock ev (sv_outm s) b = (sv_outm s', None)" "SaveBlock ev (sv_bc s) b = (sv_bc s', None)"
  using assms by (auto simp: FinalizeBlock_def split: prod.splits option.splits)

lemma supply_algebra:
  fixes G :: uint64
  assumes "G + r = T + f" "T' = T - I + N" "N + F = O' + R"
  shows "G + (r + R) = T' + (f + F) \<longleftrightarrow> I = O'"
proof -
  have "N = O' + R - F" using assms(3) by (simp add: eq_diff_eq)
  then have T': "T' + (f + F) = (T + f) + R + (O' - I)" using assms(2) by (simp add: algebra_simps)
  have G: "G + (r + R) = (T + f) + R" by (simp only: assms(1) add.assoc [symmetric])
  show ?thesis unfolding T' G by auto
qed

text \<open>The check after a stored block passes exactly if the block is balanced.\<close>

lemma supply_step:
  assumes fin: "FinalizeBlock ev q s b = (s', None)"
    and gen: "bc_genesisBlock (sv_bc s) = Some g"
    and before: "CheckBalance None s = None"
    and fits: "total (ds_table (om_db (sv_outm s'))) < 2 ^ 64"
  shows "CheckBalance None s' = None \<longleftrightarrow> block_balanced (ds_table (om_db (sv_outm s))) (bk_Transactions b)"
proof -
  let ?t = "ds_table (om_db (sv_outm s))" and ?t' = "ds_table (om_db (sv_outm s'))"
  note F = FinalizeBlock_ok [OF fin]
  define r f where "r = fst (kv_GetAmountStats (bc_db (sv_bc s)))" and "f = snd (kv_GetAmountStats (bc_db (sv_bc s)))"
  define G where "G = sum_list (map out_sum (bk_Transactions g))"
  have old: "G + r = sum_list (map rw_amount ?t) + f"
    using before gen
    by (auto simp: CheckBalance_def GetAmountStats_def GetTotalAmount_def word_total G_def r_def f_def
        split: prod.splits if_splits)
  have new: "kv_GetAmountStats (bc_db (sv_bc s')) =
      (r + block_reward (bk_Transactions b), f + block_fee (bk_Transactions b))"
    using SaveBlock_stats [OF F(2)] by (simp add: r_def f_def)
  have "CheckBalance None s' = None \<longleftrightarrow>
      G + (r + block_reward (bk_Transactions b)) = sum_list (map rw_amount ?t') + (f + block_fee (bk_Transactions b))"
    using fits gen SaveBlock_ok(6) [OF F(2)] new
    by (simp add: CheckBalance_def GetAmountStats_def GetTotalAmount_def word_total G_def)
  also have "\<dots> \<longleftrightarrow> block_balanced ?t (bk_Transactions b)"
    unfolding block_balanced_def
    using old ProcessBlock_wsum [OF F(1)] outputs_by_kind [of "bk_Transactions b"] by (rule supply_algebra)
  finally show ?thesis .
qed

subsection \<open>The chain as a \<open>BlockchainReader\<close>\<close>

text \<open>\<open>q\<close> gives the outcome of the SQL query for an address.\<close>

definition chain_reader :: "env \<Rightarrow> (string \<Rightarrow> error option) \<Rightarrow> Service \<Rightarrow> BlockchainReader" where
  "chain_reader ev q s =
     \<lparr>rd_FindAllUTxO = (\<lambda>addr. FindAllUTxO (q addr) (om_db (sv_outm s)) addr),
      rd_FindStakeDepositsOfAddress = (\<lambda>addr node. FindStakeDepositsOfAddress (q addr) (om_db (sv_outm s)) addr node),
      rd_GetBlockByHash = GetBlockByHash ev (sv_bc s), rd_GetBlockByNum = GetBlockByNum ev (sv_bc s),
      rd_GetTransactionsCount = GetTransactionsCount (sv_bc s), rd_GetGenesis = GetGenesis (sv_bc s)\<rparr>"

definition chain_utxo :: "table \<Rightarrow> bytes \<times> uint32 \<Rightarrow> UTxO option" where
  "chain_utxo t k = map_option scanRow (find (\<lambda>r. row_key r = (Hash_Hex (fst k), snd k)) t)"

definition table_wf :: "table \<Rightarrow> bool" where
  "table_wf t \<longleftrightarrow> table_ok t \<and> rows_wf t"

lemma find_key: "table_ok t \<Longrightarrow> r \<in> set t \<Longrightarrow> find (\<lambda>r'. row_key r' = row_key r) t = Some r"
  unfolding table_ok_def by (induction t) (auto simp: image_iff)

lemma chain_utxo_row:
  "table_wf t \<Longrightarrow> r \<in> set t \<Longrightarrow> chain_utxo t (uo_Hash (scanRow r), uo_Index (scanRow r)) = Some (scanRow r)"
  using row_key_scan [of t r] find_key [of t r] by (simp add: chain_utxo_def table_wf_def)

lemma chain_utxo_Some:
  "chain_utxo t (h, i) = Some u \<Longrightarrow> table_ok t \<Longrightarrow> \<exists>r \<in> set t. row_key r = (Hash_Hex h, i) \<and> scanRow r = u"
  by (auto simp: chain_utxo_def find_Some_iff)

lemma row_fields:
  assumes "rows_wf t" "r \<in> set t"
  shows "rw_address_to r = Address_Hex (uo_To (scanRow r))" "rw_address_node r = Address_Hex (uo_Node (scanRow r))"
    "rw_amount r = uo_Amount (scanRow r)"
proof -
  have "ToInsertQuery (scanRow r) = r\<lparr>rw_id := 0\<rparr>" using assms by (simp add: rows_wf_def)
  then show "rw_address_to r = Address_Hex (uo_To (scanRow r))" "rw_address_node r = Address_Hex (uo_Node (scanRow r))"
    by (simp_all add: ToInsertQuery_def Row.simps) (metis Row.select_convs Row.update_convs(1) Row.surjective)+
  show "rw_amount r = uo_Amount (scanRow r)" by (simp add: scanRow_def NewUTxOFull_def)
qed

lemma BlackHole_ne_Nil [simp]: "BlackHoleAddress \<noteq> ''''"
  by (simp add: BlackHoleAddress_def)

lemma FindStake_rows:
  assumes "FindStakeDepositsOfAddress q s a node = Inr us" "u \<in> set us"
  shows "\<exists>r \<in> set (ds_table s). u = scanRow r \<and> rw_address_to r = a \<and> rw_address_node r \<noteq> ''''"
proof (cases "node = ''all''")
  case True
  then show ?thesis
    using assms by (auto simp: FindStakeDepositsOfAddress_def getOutputsList_def Let_def split: option.splits)
next
  case False
  then show ?thesis
    using assms
    by (auto simp: FindStakeDepositsOfAddress_def getOutputsList_def slice_Insert_def Let_def
        numeral_2_eq_2 numeral_3_eq_3 split: option.splits if_splits) (metis BlackHole_ne_Nil)+
qed

interpretation chain: blockchain_reader "chain_reader ev q s" "chain_utxo (ds_table (om_db (sv_outm s)))"
    "table_wf (ds_table (om_db (sv_outm s)))" for ev q s
proof
  let ?t = "ds_table (om_db (sv_outm s))"
  assume wf: "table_wf ?t"
  then have rw: "rows_wf ?t" by (simp add: table_wf_def)
  {
    fix addr us u
    assume "rd_FindAllUTxO (chain_reader ev q s) addr = Inr us" "u \<in> set us"
    then obtain r where r: "r \<in> set ?t" "u = scanRow r" "rw_address_to r = addr" "rw_address_node r = ''''"
      by (auto simp: chain_reader_def FindAllUTxO_def getOutputsList_def split: option.splits)
    then show "chain_utxo ?t (uo_Hash u, uo_Index u) = Some u \<and> Address_Hex (uo_To u) = addr \<and> uo_Node u = []"
      using chain_utxo_row [OF wf r(1)] row_fields [OF rw r(1)] by simp
  next
    fix addr node us u
    assume "rd_FindStakeDepositsOfAddress (chain_reader ev q s) addr node = Inr us" "u \<in> set us"
    then obtain r where r: "r \<in> set ?t" "u = scanRow r" "rw_address_to r = addr" "rw_address_node r \<noteq> ''''"
      using FindStake_rows by (fastforce simp: chain_reader_def)
    then show "chain_utxo ?t (uo_Hash u, uo_Index u) = Some u \<and> Address_Hex (uo_To u) = addr \<and> uo_Node u \<noteq> []"
      using chain_utxo_row [OF wf r(1)] row_fields [OF rw r(1)] by auto
  }
qed

subsection \<open>The abstract set of unspent outputs\<close>

text \<open>
  The specification of the output manager: a partial map from output keys to rows (without the database id);
  a block removes the keys it spends and adds the outputs it creates.
\<close>

definition abs_utxo :: "table \<Rightarrow> (string \<times> uint32) \<rightharpoonup> Row" where
  "abs_utxo t = map_of (map (\<lambda>r. (row_key r, r\<lparr>rw_id := 0\<rparr>)) t)"

definition spec_block :: "env \<Rightarrow> Block \<Rightarrow> ((string \<times> uint32) \<rightharpoonup> Row) \<Rightarrow> ((string \<times> uint32) \<rightharpoonup> Row)" where
  "spec_block ev b m = (m |` (- set (map in_key (spent_inputs (bk_Transactions b)))))
     ++ abs_utxo (map ToInsertQuery (created_outputs ev (bk_Num b) [] (bk_Transactions b)))"

lemma abs_utxo_filter: "abs_utxo (filter (\<lambda>r. row_key r \<notin> K) t) = abs_utxo t |` (- K)"
proof (induction t)
  case (Cons r t)
  then show ?case by (auto simp: abs_utxo_def fun_eq_iff restrict_map_def)
qed (simp add: abs_utxo_def)

lemma abs_utxo_append:
  assumes "table_ok (t @ u)"
  shows "abs_utxo (t @ u) = abs_utxo t ++ abs_utxo u"
proof -
  have "dom (abs_utxo t) \<inter> dom (abs_utxo u) = {}"
    using assms by (auto simp: abs_utxo_def table_ok_def dom_map_of_conv_image_fst image_image)
  then have "abs_utxo t ++ abs_utxo u = abs_utxo u ++ abs_utxo t" by (rule map_add_comm)
  then show ?thesis by (simp add: abs_utxo_def)
qed

lemma abs_utxo_ids:
  "length ns = length rs \<Longrightarrow> \<forall>r \<in> set rs. rw_id r = 0 \<Longrightarrow>
   abs_utxo (map (\<lambda>(i, r). r\<lparr>rw_id := word_of_nat i\<rparr>) (zip ns rs)) = abs_utxo rs"
  by (induction ns rs rule: list_induct2) (auto simp: abs_utxo_def)

lemma insert_rows_abs:
  assumes "insert_rows t n rs = Some (t', n')" "table_ok t" "\<forall>r \<in> set rs. rw_id r = 0"
  shows "abs_utxo t' = abs_utxo t ++ abs_utxo rs"
proof -
  have t': "t' = t @ map (\<lambda>(i, r). r\<lparr>rw_id := word_of_nat i\<rparr>) (zip [n..<n + length rs] rs)"
    using insert_rows_spec [OF assms(1)] by simp
  moreover have "table_ok t'" by (rule insert_rows_ok [OF assms(1,2)])
  ultimately show ?thesis
    using abs_utxo_append [of t "map (\<lambda>(i, r). r\<lparr>rw_id := word_of_nat i\<rparr>) (zip [n..<n + length rs] rs)"]
      abs_utxo_ids [of "[n..<n + length rs]" rs] assms(3) by simp
qed

lemma ProcessBlock_abs:
  assumes "ProcessBlock ev om b = (om', None)" "table_ok (ds_table (om_db om))"
  shows "abs_utxo (ds_table (om_db om')) = spec_block ev b (abs_utxo (ds_table (om_db om)))"
proof -
  let ?ks = "set (map in_key (spent_inputs (bk_Transactions b)))"
  obtain n n' where ins: "insert_rows (filter (\<lambda>r. row_key r \<notin> ?ks) (ds_table (om_db om))) n
      (map ToInsertQuery (created_outputs ev (bk_Num b) [] (bk_Transactions b))) = Some (ds_table (om_db om'), n')"
    using ProcessBlock_ok(1) [OF assms(1)] by blast
  then show ?thesis
    using insert_rows_abs [OF ins] assms(2)
    by (simp add: spec_block_def abs_utxo_filter ToInsertQuery_def)
qed

lemma uo_ok_outputs_from: "u \<in> set (outputs_from ev tx f bn i outs) \<Longrightarrow> uo_ok u"
  by (induction outs arbitrary: i) (auto split: if_splits)

lemma uo_ok_created: "u \<in> set (created_outputs ev bn f txs) \<Longrightarrow> uo_ok u"
  by (induction txs arbitrary: f) (auto simp: Let_def uo_ok_outputs_from split: if_splits)

lemma rows_wf_new:
  "length ns = length us \<Longrightarrow> \<forall>u \<in> set us. uo_ok u \<Longrightarrow>
   rows_wf (map (\<lambda>(i, r). r\<lparr>rw_id := word_of_nat i\<rparr>) (zip ns (map ToInsertQuery us)))"
proof (induction ns us rule: list_induct2)
  case (Cons n ns u us)
  have "rows_wf [(ToInsertQuery u)\<lparr>rw_id := word_of_nat n\<rparr>]" using Cons.prems by (simp add: rows_wf_ToInsert)
  with Cons show ?case by (simp add: rows_wf_def)
qed (simp add: rows_wf_def)

lemma ProcessBlock_wf:
  assumes "ProcessBlock ev om b = (om', e)" "table_wf (ds_table (om_db om))"
  shows "table_wf (ds_table (om_db om'))"
proof (cases e)
  case (Some a)
  then show ?thesis using ProcessBlock_fail assms by auto
next
  case None
  let ?us = "created_outputs ev (bk_Num b) [] (bk_Transactions b)"
  let ?t = "filter (\<lambda>r. row_key r \<notin> set (map in_key (spent_inputs (bk_Transactions b)))) (ds_table (om_db om))"
  obtain n n' where ins: "insert_rows ?t n (map ToInsertQuery ?us) = Some (ds_table (om_db om'), n')"
    using ProcessBlock_ok(1) [OF assms(1) [unfolded None]] by blast
  have "rows_wf (map (\<lambda>(i, r). r\<lparr>rw_id := word_of_nat i\<rparr>) (zip [n..<n + length ?us] (map ToInsertQuery ?us)))"
    using uo_ok_created by (intro rows_wf_new) auto
  then show ?thesis
    using insert_rows_ok [OF ins] insert_rows_spec [OF ins] assms(2) by (simp add: table_wf_def)
qed

subsection \<open>Genesis outputs\<close>

lemma concat_genesis_slices: "0 < n \<Longrightarrow> concat (genesis_slices n outs) = outs"
proof (induction n outs rule: genesis_slices.induct)
  case (1 n outs)
  then show ?case by (subst genesis_slices.simps) auto
qed

lemma genesis_slices_length: "sl \<in> set (genesis_slices n outs) \<Longrightarrow> length sl \<le> n"
proof (induction n outs rule: genesis_slices.induct)
  case (1 n outs)
  then show ?case by (subst (asm) genesis_slices.simps) (auto split: if_splits)
qed

lemma out_sum_concat: "sum_list (map out_sum txs) = sum_list (map to_Amount (concat (map pt_Outputs txs)))"
  by (induction txs) (auto simp: out_sum_def)

lemma genesis_txs_outputs:
  "genesis_txs ev ts sls = Inr txs \<Longrightarrow> map pt_Outputs txs = sls \<and> (\<forall>tx \<in> set txs. pt_Inputs tx = [] \<and> pt_Type tx = GenesisTxType)"
proof (induction sls arbitrary: txs)
  case (Cons outs sls)
  then obtain tx txs' where tx: "NewPbTransaction (ev_crypto ev) (ev_now ev)
        \<lparr>op_Inputs = [], op_Outputs = outs, op_Fee = 0, op_Data = [], op_Num = GenesisBlockNum,
         op_Type = GenesisTxType, op_Timestamp = ts\<rparr> None = Inr tx"
    and txs: "genesis_txs ev ts sls = Inr txs'" "txs = tx # txs'"
    by (auto split: sum.splits)
  show ?case using NewPbTransaction_fields [OF tx] Cons.IH [OF txs(1)] txs(2) by simp
qed simp

lemma SaveBlock_reads:
  assumes "SaveBlock ev bc b = (bc', None)"
  shows "b' = BlocksHashBucket \<or> b' = BlocksNumBucket \<or> b' = BlocksBucket \<and> k \<noteq> lastBlockKey \<Longrightarrow>
    Get b' k (bc_db bc') = Get b' k (fst (WriteBlock (ev_codec ev) (ev_kvio ev) b (bc_db bc)))"
proof -
  obtain db1 db2 where w: "WriteBlock (ev_codec ev) (ev_kvio ev) b (bc_db bc) = (db1, None)"
    and h: "SaveHeadBlockNum (ev_kvio ev) (bk_Num b) db1 = (db2, None)"
    and u: "UpdateAmountStats (ev_kvio ev) (block_reward (bk_Transactions b)) (block_fee (bk_Transactions b)) db2
      = (bc_db bc', None)"
    using SaveBlock_ok(1) [OF assms] by blast
  assume "b' = BlocksHashBucket \<or> b' = BlocksNumBucket \<or> b' = BlocksBucket \<and> k \<noteq> lastBlockKey"
  then show ?thesis
    using UpdateAmountStats_ok(2) [OF u, of b' k] SaveHeadBlockNum_ok [OF h, of b' k] w by auto
qed

lemma SaveBlock_GetBlock:
  assumes "SaveBlock ev bc b = (bc', None)"
  shows "GetBlock cd n h (bc_db bc') = GetBlock cd n h (fst (WriteBlock (ev_codec ev) (ev_kvio ev) b (bc_db bc)))"
    "GetBlockHash n (bc_db bc') = GetBlockHash n (fst (WriteBlock (ev_codec ev) (ev_kvio ev) b (bc_db bc)))"
    "GetBlockNum h (bc_db bc') = GetBlockNum h (fst (WriteBlock (ev_codec ev) (ev_kvio ev) b (bc_db bc)))"
  using SaveBlock_reads [OF assms] by (simp_all add: GetBlock_def GetBlockHash_def GetBlockNum_def)

subsection \<open>Properties of the chain service\<close>

text \<open>
  C33. \<open>ProcessBlock\<close> refines the abstract effect of a block on the set of unspent outputs: on success the
  table represents exactly the old set without the spent keys plus the created outputs, every spent key was
  present and no key was spent twice; on any error, of the block or of the database, the table is unchanged. The
  representation invariant is kept either way.
\<close>

theorem process_block_refines:
  assumes "ProcessBlock ev om b = (om', e)" "table_wf (ds_table (om_db om))"
  shows "table_wf (ds_table (om_db om')) \<and>
    (case e of
       None \<Rightarrow> abs_utxo (ds_table (om_db om')) = spec_block ev b (abs_utxo (ds_table (om_db om)))
         \<and> distinct (map in_key (spent_inputs (bk_Transactions b)))
         \<and> set (map in_key (spent_inputs (bk_Transactions b))) \<subseteq> dom (abs_utxo (ds_table (om_db om)))
     | Some _ \<Rightarrow> ds_table (om_db om') = ds_table (om_db om))"
proof (cases e)
  case None
  have "row_key ` set t = dom (abs_utxo t)" for t
    by (auto simp: abs_utxo_def dom_map_of_conv_image_fst image_image)
  then show ?thesis
    using None assms ProcessBlock_wf [OF assms] ProcessBlock_abs ProcessBlock_ok(2,3) by (simp add: table_wf_def)
next
  case (Some a)
  then show ?thesis using assms ProcessBlock_wf [OF assms] ProcessBlock_fail by auto
qed

definition demo_env :: env where
  "demo_env = \<lparr>ev_crypto = demo_crypto, ev_codec = demo_codec, ev_kvio = (\<lambda>_. None), ev_sqlio = (\<lambda>_. None),
     ev_now = 9, ev_genesis = Inr \<lparr>gn_Outputs = [(''0x05'', 7), (''0x04'', 8)], gn_Hash = ''0x09'', gn_Timestamp = 3\<rparr>\<rparr>"

definition demo_om :: OutputManager where
  "demo_om = NewOutputManager (NewStore\<lparr>ds_table := [(ToInsertQuery (NewUTxO 9 (replicate 32 2) []
     (replicate 20 5) [] 0 10 0 1 7))\<lparr>rw_id := 1\<rparr>]\<rparr>)"

theorem process_block_refines_witness:
  "table_wf (ds_table (om_db (fst (ProcessBlock demo_env demo_om (demo_block 1)))))
   \<and> map rw_amount (ds_table (om_db (fst (ProcessBlock demo_env demo_om (demo_block 1))))) = [9]"
proof
  have "snd (ProcessBlock demo_env demo_om (demo_block 1)) = None" by code_simp
  then have "ProcessBlock demo_env demo_om (demo_block 1) = (fst (ProcessBlock demo_env demo_om (demo_block 1)), None)"
    by (simp add: prod_eq_iff)
  moreover have "table_wf (ds_table (om_db demo_om))" by code_simp
  ultimately show "table_wf (ds_table (om_db (fst (ProcessBlock demo_env demo_om (demo_block 1)))))"
    using process_block_refines by blast
  show "map rw_amount (ds_table (om_db (fst (ProcessBlock demo_env demo_om (demo_block 1))))) = [9]" by code_simp
qed

text \<open>
  Saving the block that follows the head makes it the head: it is returned by number and by hash, its
  hash is the parent hash of the next block, the counters move by one, and every block up to the old head
  reads as before.
\<close>

theorem save_block_extends:
  assumes "SaveBlock ev bc b = (bc', None)" "codec_ok (ev_codec ev)"
    and "bk_Num b = bc_headBlockNum bc + 1" "bk_Num b \<noteq> 0" "bk_Hash b \<noteq> bc_genesisHash bc"
    and "distinct (map pt_Hash (bk_Transactions b))" "length (bk_Transactions b) < 2 ^ 32"
  shows "GetBlockByNum ev bc' (bk_Num b) = Inr (Some b) \<and> GetBlockByHash ev bc' (bk_Hash b) = Inr (Some b)
    \<and> GetHeadBlockNum bc' = bk_Num b \<and> ParentHash bc' = bk_Hash b \<and> GetBlockCount bc' = GetBlockCount bc + 1
    \<and> (n \<le> GetHeadBlockNum bc \<longrightarrow> GetBlockByNum ev bc' n = GetBlockByNum ev bc n)"
proof -
  define db where "db = fst (WriteBlock (ev_codec ev) (ev_kvio ev) b (bc_db bc))"
  have w: "WriteBlock (ev_codec ev) (ev_kvio ev) b (bc_db bc) = (db, None)"
    using SaveBlock_ok(1) [OF assms(1)] by (auto simp: db_def)
  note G = SaveBlock_GetBlock [OF assms(1), folded db_def]
  have num: "kv_GetBlockByNum cd m (bc_db bc') = kv_GetBlockByNum cd m db" for cd m
    by (simp add: kv_GetBlockByNum_def G split: option.split)
  have hash: "kv_GetBlockByHash cd h (bc_db bc') = kv_GetBlockByHash cd h db" for cd h
    by (simp add: kv_GetBlockByHash_def G split: sum.split)
  have read: "kv_GetBlockByNum (ev_codec ev) (bk_Num b) db = Inr (Some b)"
    "kv_GetBlockByHash (ev_codec ev) (bk_Hash b) db = Inr (Some b)"
    using block_reads [OF assms(2) w assms(6,7)] by blast+
  have old: "kv_GetBlockByNum (ev_codec ev) n db = kv_GetBlockByNum (ev_codec ev) n (bc_db bc)" if "n \<noteq> bk_Num b"
    using WriteBlock_ok [OF w] that by (auto simp: kv_GetBlockByNum_def GetBlockHash_def GetBlock_def split: option.split)
  have "bc_headBlockNum bc < bc_headBlockNum bc + 1"
    using assms(3,4) by (intro less_plus_one) simp
  then have le: "n \<le> GetHeadBlockNum bc \<longrightarrow> n \<noteq> bk_Num b \<and> n \<le> bc_headBlockNum bc + 1"
    using assms(3) by (auto simp: GetHeadBlockNum_def)
  then show ?thesis
    using SaveBlock_ok(2-7) [OF assms(1)] assms(3-5) read old
    by (auto simp: GetBlockByNum_def GetBlockByHash_def GetHeadBlockNum_def ParentHash_def GetBlockCount_def num hash
        GetGenesis_def)
qed

theorem save_block_extends_witness:
  "GetBlockByNum demo_env (fst (SaveBlock demo_env (NewBlockChain NewKVStore) (demo_block 1))) 1 = Inr (Some (demo_block 1))"
proof -
  define bc' where "bc' = fst (SaveBlock demo_env (NewBlockChain NewKVStore) (demo_block 1))"
  have "snd (SaveBlock demo_env (NewBlockChain NewKVStore) (demo_block 1)) = None" by code_simp
  then have s: "SaveBlock demo_env (NewBlockChain NewKVStore) (demo_block 1) = (bc', None)"
    by (simp add: bc'_def prod_eq_iff)
  have c: "codec_ok (ev_codec demo_env)" by (simp add: demo_env_def demo_codec_ok)
  have h: "bk_Num (demo_block 1) = bc_headBlockNum (NewBlockChain NewKVStore) + 1" "bk_Num (demo_block 1) \<noteq> 0"
    "bk_Hash (demo_block 1) \<noteq> bc_genesisHash (NewBlockChain NewKVStore)"
    "distinct (map pt_Hash (bk_Transactions (demo_block 1)))" by code_simp+
  have l: "length (bk_Transactions (demo_block 1)) < 2 ^ 32" and n: "bk_Num (demo_block 1) = 1"
    by (simp_all add: demo_block_def)
  show ?thesis using save_block_extends [OF s c h l, of 0] by (simp add: bc'_def n)
qed

text \<open>
  The genesis block distributes exactly the balances of the genesis file: its transactions have no inputs and at
  most 2000 outputs each, their outputs together are the entries of the file, each once, and the genesis supply
  that the balance check uses is the sum of the file's amounts.
\<close>

theorem genesis_distributes_file:
  assumes "createGenesis ev bc = (bc', Some g)" "ev_genesis ev = Inr data"
  shows "mset (concat (map pt_Outputs (bk_Transactions g))) =
      mset (map (\<lambda>(addr, amount). NewOutput (HexToAddress addr) amount []) (gn_Outputs data))
    \<and> (\<forall>tx \<in> set (bk_Transactions g). pt_Inputs tx = [] \<and> length (pt_Outputs tx) \<le> 2000)
    \<and> sum_list (map out_sum (bk_Transactions g)) = sum_list (map snd (gn_Outputs data))
    \<and> bk_Hash g = HexToHash (gn_Hash data)"
proof -
  let ?outs = "castGenesisOutputs data"
  let ?file = "map (\<lambda>(addr, amount). NewOutput (HexToAddress addr) amount []) (gn_Outputs data)"
  have txs: "genesis_txs ev (gn_Timestamp data) (genesis_slices 2000 ?outs) = Inr (bk_Transactions g)"
    and h: "bk_Hash g = HexToHash (gn_Hash data)"
    using assms by (auto simp: createGenesis_def Let_def split: sum.splits)
  note T = genesis_txs_outputs [OF txs]
  have cat: "concat (map pt_Outputs (bk_Transactions g)) = ?outs" using T by (simp add: concat_genesis_slices)
  have m: "mset ?outs = mset ?file" by (simp add: castGenesisOutputs_def)
  have "sum_list (map out_sum (bk_Transactions g)) = sum_list (map to_Amount (concat (map pt_Outputs (bk_Transactions g))))"
    by (rule out_sum_concat)
  also have "\<dots> = sum_mset (image_mset to_Amount (mset ?outs))" by (simp only: cat sum_mset_sum_list [symmetric] mset_map)
  also have "\<dots> = sum_list (map to_Amount ?file)" by (simp only: m sum_mset_sum_list [symmetric] mset_map)
  also have "map to_Amount ?file = map snd (gn_Outputs data)" by (auto simp: NewOutput_def)
  finally have "sum_list (map out_sum (bk_Transactions g)) = sum_list (map snd (gn_Outputs data))" .
  moreover have "length (pt_Outputs tx) \<le> 2000" if "tx \<in> set (bk_Transactions g)" for tx
    using T that by (intro genesis_slices_length [of _ 2000 ?outs]) (metis image_eqI set_map)
  ultimately show ?thesis using T m cat h by simp
qed

theorem genesis_distributes_file_witness:
  "\<exists>bc' g data. createGenesis demo_env (NewBlockChain NewKVStore) = (bc', Some g) \<and> ev_genesis demo_env = Inr data
     \<and> sum_list (map out_sum (bk_Transactions g)) = sum_list (map snd (gn_Outputs data)) \<and> length (gn_Outputs data) = 2"
proof -
  obtain bc' go where c: "createGenesis demo_env (NewBlockChain NewKVStore) = (bc', go)" by (meson surj_pair)
  have slices: "genesis_slices 2000 (castGenesisOutputs d) = [castGenesisOutputs d]"
    if "d = \<lparr>gn_Outputs = [(''0x05'', 7), (''0x04'', 8)], gn_Hash = ''0x09'', gn_Timestamp = 3\<rparr>" for d
    using that by (simp add: castGenesisOutputs_def genesis_slices.simps)
  have "length (HexToAddress ''0x05'') = 20" "length (HexToAddress ''0x04'') = 20" by code_simp+
  then have o: "\<forall>u\<in>set (castGenesisOutputs \<lparr>gn_Outputs = [(''0x05'', 7), (''0x04'', 8)], gn_Hash = ''0x09'', gn_Timestamp = 3\<rparr>). out_sizes u"
    by (simp add: castGenesisOutputs_def out_sizes_def NewOutput_def)
  have "\<forall>d. \<exists>sig. secp_sign demo_crypto d k = Inr sig" for k by (simp add: demo_crypto_def)
  from NewPbTransaction_built(2) [OF demo_sha_ok _ _ this] o
  have "\<exists>tx. NewPbTransaction demo_crypto 9 \<lparr>op_Inputs = [], op_Outputs = castGenesisOutputs \<lparr>gn_Outputs = [(''0x05'', 7), (''0x04'', 8)], gn_Hash = ''0x09'', gn_Timestamp = 3\<rparr>,
      op_Fee = 0, op_Data = [], op_Num = GenesisBlockNum, op_Type = GenesisTxType, op_Timestamp = 3\<rparr> None = Inr tx" by simp
  then have "snd (createGenesis demo_env (NewBlockChain NewKVStore)) \<noteq> None"
    by (auto simp: createGenesis_def demo_env_def slices Let_def split: sum.split)
  then obtain g where g: "go = Some g" using c by auto
  show ?thesis
    using genesis_distributes_file [of demo_env "NewBlockChain NewKVStore" bc' g] c g
    by (auto simp: demo_env_def)
qed

end
