(* ===== verification/Validator.thy ===== *)
theory Validator
  imports Chain
begin

section \<open>Validation of transactions and blocks\<close>

text \<open>
  Models \<^verbatim>\<open>src/blockchain/consensus/attestation\<close>: crysp\_validator.go and block\_validator.go. The
  validator reads the chain through a \<open>BlockchainReader\<close> and asks the staking pool; it changes neither. Its only
  effect is on the block it is given: \<open>verifyTransactions\<close> writes the status of each standard
  transaction, so \<open>ValidateBlock\<close> returns the block with the new statuses. \<open>now\<close> is the clock in nanoseconds.

  Shown: an accepted transaction balances exactly in the integers and spends distinct existing outputs of its
  sender with the recorded amounts; an accepted collapse keeps every address's balance; fee and reward
  transactions have the computed amounts; an accepted block is linked to its parent, correctly hashed and
  signed; and two gaps of the code: a block with failed transactions is reported without an error,
  and a transaction of the genesis type inside a block is not checked at all.
\<close>

record CryspValidatorConfig =
  cc_SlotTime :: int
  cc_MinFee :: uint64
  cc_StakeUnit :: uint64
  cc_BlockSize :: nat

record CryspValidator =
  cv_bc :: BlockchainReader
  cv_stakeValidator :: StakingPool
  cv_cfg :: CryspValidatorConfig
  cv_params :: RDOBlockChainConfig
  cv_crypto :: crypto

abbreviation (input) maxOutputs :: nat where "maxOutputs \<equiv> 2000"

datatype StakeType = NoStake | ValidatorStake | ElectorStake

text \<open>The configuration that the attestation service derives from the chain parameters.\<close>

definition validatorConfig :: "RDOBlockChainConfig \<Rightarrow> CryspValidatorConfig" where
  "validatorConfig cfg = \<lparr>cc_SlotTime = cf_SlotTime cfg * 1000000000, cc_MinFee = cf_MinimalFee cfg,
     cc_StakeUnit = cf_StakeSlotUnit cfg * cf_RoiPerRdo cfg, cc_BlockSize = cf_BlockSize cfg\<rparr>"

subsection \<open>Stake transactions\<close>

definition maxStakersCheck :: "CryspValidator \<Rightarrow> nat \<Rightarrow> Output \<Rightarrow> error option" where
  "maxStakersCheck cv stakers out =
     ensure (\<not> NumberStakers (cv_stakeValidator cv) (Address_Hex (out_node out)) + stakers \<ge> cf_MaxNumberOfStakers (cv_params cv))
       (Errorf ''The number of stakers for validator is at its maximum'')"

definition CheckMaxStakers :: "CryspValidator \<Rightarrow> Transaction \<Rightarrow> nat \<Rightarrow> error option" where
  "CheckMaxStakers cv tx stakers = check_all (maxStakersCheck cv stakers) (tx_outputs tx)"

definition IsMaxStakers :: "CryspValidator \<Rightarrow> Transaction \<Rightarrow> error option" where
  "IsMaxStakers cv tx = check_all (maxStakersCheck cv 0) (tx_outputs tx)"

text \<open>State of the loop: whether a stake and a validator stake was seen, and the elected validator.\<close>

fun stake_type_loop :: "CryspValidator \<Rightarrow> bool \<Rightarrow> bool \<Rightarrow> string \<Rightarrow> Output list \<Rightarrow> error + (bool \<times> bool \<times> string)" where
  "stake_type_loop cv hasStaking hasValidatorStaking validator [] = Inr (hasStaking, hasValidatorStaking, validator)"
| "stake_type_loop cv hasStaking hasValidatorStaking validator (out # outs) =
    (if length (out_node out) = AddressLength then
       (let node = Address_Hex (out_node out) in
        if node = BlackHoleAddress then stake_type_loop cv True True validator outs
        else if \<not> HasValidator (cv_stakeValidator cv) node then Inl (Errorf ''Validator not found'')
        else if validator = '''' then stake_type_loop cv True hasValidatorStaking node outs
        else if validator \<noteq> node then Inl (Errorf ''Different validators stake in one tx'')
        else stake_type_loop cv True hasValidatorStaking validator outs)
     else stake_type_loop cv hasStaking hasValidatorStaking validator outs)"

definition checkStakeType :: "CryspValidator \<Rightarrow> Transaction \<Rightarrow> error + StakeType" where
  "checkStakeType cv tx = (case stake_type_loop cv False False '''' (tx_outputs tx) of
     Inl e \<Rightarrow> Inl e
   | Inr (hasStaking, hasValidatorStaking, validator) \<Rightarrow>
      if hasValidatorStaking \<and> validator \<noteq> '''' then Inl (Errorf ''Different stake types in one tx'')
      else (case IsMaxStakers cv tx of Some e \<Rightarrow> Inl e
        | None \<Rightarrow> Inr (if \<not> hasStaking then NoStake else if hasValidatorStaking then ValidatorStake else ElectorStake)))"

subsection \<open>The shape and the balance of a transaction\<close>

definition checkHash :: "CryspValidator \<Rightarrow> Transaction \<Rightarrow> error option" where
  "checkHash cv tx = (case TxHash (cv_crypto cv) (tx_tx tx) of
     Inl e \<Rightarrow> Some e
   | Inr genHash \<Rightarrow> ensure (genHash = tx_hash tx) (Errorf ''Transaction has wrong hash.''))"

text \<open>One step of the loop over the inputs: the running balance or the error.\<close>

fun inputs_balance :: "CryspValidator \<Rightarrow> uint32 \<Rightarrow> uint64 \<Rightarrow> Input list \<Rightarrow> error + uint64" where
  "inputs_balance cv typev acc [] = Inr acc"
| "inputs_balance cv typev acc (i # ins) =
    (if in_amount i = 0 then Inl (Errorf ''Zero amount on input.'')
     else if typev = UnstakeTxType \<and> Address_Hex (in_node i) = BlackHoleAddress \<and> in_amount i < cc_StakeUnit (cv_cfg cv)
       then Inl ErrLowStakeAmount
     else (case Add64 (in_amount i) acc of (s, overflow) \<Rightarrow>
       if overflow then Inl (Errorf ''Inputs sum amount overflow.'') else inputs_balance cv typev s ins))"

fun outputs_balance :: "CryspValidator \<Rightarrow> uint32 \<Rightarrow> uint64 \<Rightarrow> nat \<Rightarrow> Output list \<Rightarrow> error + (uint64 \<times> nat)" where
  "outputs_balance cv typev acc stakeOutputs [] = Inr (acc, stakeOutputs)"
| "outputs_balance cv typev acc stakeOutputs (out # outs) =
    (if out_amount out = 0 then Inl (Errorf ''Zero amount on output.'')
     else (let isStake = (typev = StakeTxType \<and> length (out_node out) = AddressLength);
               blackhole = (Address_Hex (out_node out) = BlackHoleAddress) in
       if isStake \<and> blackhole \<and> cc_StakeUnit (cv_cfg cv) = 0 then Inl (Panic ''integer divide by zero'')
       else if isStake \<and> (blackhole \<and> out_amount out mod cc_StakeUnit (cv_cfg cv) \<noteq> 0 \<or> out_amount out = 0)
         then Inl (Wrap ErrLowStakeAmount ''Stake error'')
       else (case Add64 (out_amount out) acc of (s, overflow) \<Rightarrow>
         if overflow then Inl (Errorf ''Outputs sum amount overflow.'')
         else outputs_balance cv typev s (if isStake then Suc stakeOutputs else stakeOutputs) outs)))"

definition systemUnstakeShape :: "Transaction \<Rightarrow> error option" where
  "systemUnstakeShape tx = (case tx_outputs tx of
     [out] \<Rightarrow> check_all (\<lambda>i. check_seq
        (ensure (Address_Hex (in_node i) = Address_Hex (in_node (hd (tx_inputs tx))))
           (Errorf ''All inputs should have the same node parameter''))
        (ensure (Address_Hex (in_address i) = Address_Hex (out_address out))
           (Errorf ''Each input's address should be equal to the output's address''))) (tx_inputs tx)
   | _ \<Rightarrow> Some (Errorf ''ValidatorsUnstakeTx should have only one output''))"

definition txBalance :: "CryspValidator \<Rightarrow> Transaction \<Rightarrow> error option" where
  "txBalance cv tx = (case inputs_balance cv (tx_txType tx) 0 (tx_inputs tx) of
     Inl e \<Rightarrow> Some e
   | Inr inputsBalance \<Rightarrow>
      (case outputs_balance cv (tx_txType tx) 0 0 (tx_outputs tx) of
         Inl e \<Rightarrow> Some e
       | Inr (outputsBalance, stakeOutputs) \<Rightarrow>
          if tx_txType tx = StakeTxType \<and> stakeOutputs = 0 then Some (Errorf ''transaction has no stake outputs.'')
          else (case Add64 outputsBalance (tx_fee tx) of (outputsBalance, overflow) \<Rightarrow>
            if overflow then Some (Errorf ''Outputs sum amount overflow.'')
            else ensure (inputsBalance = outputsBalance) (Errorf ''tx balance is inconsistent.''))))"

definition validateTxStructBase :: "CryspValidator \<Rightarrow> Transaction \<Rightarrow> error option" where
  "validateTxStructBase cv tx =
    (check_seq (ensure (tx_inputs tx \<noteq> []) (Errorf ''Empty tx inputs.''))
    (check_seq (ensure (tx_outputs tx \<noteq> []) (Errorf ''Empty tx outputs.''))
    (check_seq (ensure (length (tx_inputs tx) \<le> maxOutputs) (Errorf ''Inputs list is too long''))
    (check_seq (ensure (length (tx_outputs tx) \<le> maxOutputs) (Errorf ''Outputs list is too long''))
    (check_seq (if tx_txType tx \<noteq> CollapseTxType \<and> tx_txType tx \<noteq> ValidatorsUnstakeTxType
                then TxSigner_Verify (cv_crypto cv) (tx_tx tx) else None)
    (check_seq (if tx_txType tx = ValidatorsUnstakeTxType then systemUnstakeShape tx else None)
      (txBalance cv tx)))))))"

definition ValidateTransactionStruct :: "CryspValidator \<Rightarrow> Transaction \<Rightarrow> error option" where
  "ValidateTransactionStruct cv tx =
    (check_seq (ensure (IsStandardTx tx) (Errorf ''Transaction has wrong type''))
    (check_seq (ensure (\<not> tx_feePrice tx < cc_MinFee (cv_cfg cv)) ErrSmallFee)
    (check_seq (checkHash cv tx)
    (check_seq (check_all (\<lambda>i. ensure (tx_from tx = in_address i) ErrBadInputOwner) (tx_inputs tx))
      (validateTxStructBase cv tx)))))"

subsection \<open>Inputs against the database\<close>

definition spentOutputs :: "UTxO list \<Rightarrow> (string, Input) gomap" where
  "spentOutputs utxo = fold (\<lambda>uo m. gput (GenKeyFromInput (UTxO_ToInput uo)) (UTxO_ToInput uo) m) utxo []"

fun checkInputsData :: "(string, Input) gomap \<Rightarrow> string list \<Rightarrow> Input list \<Rightarrow> error + string list" where
  "checkInputsData spentOutputsMap alreadySpent [] = Inr alreadySpent"
| "checkInputsData spentOutputsMap alreadySpent (i # ins) =
    (let key = GenKeyFromInput i in
     case map_of spentOutputsMap key of
       None \<Rightarrow> Inl (Errorf ''User gave undefined output with key'')
     | Some dbInput \<Rightarrow>
        if key \<in> set alreadySpent then Inl (Errorf ''User try to spend output twice'')
        else if in_hash dbInput \<noteq> in_hash i then Inl (Errorf ''Hash mismatch with key'')
        else if in_index i \<noteq> in_index dbInput then Inl (Errorf ''Index mismatch with key'')
        else if in_amount i \<noteq> in_amount dbInput then Inl (Errorf ''Amount mismatch with key'')
        else if in_node dbInput \<noteq> in_node i then Inl (Errorf ''Node mismatch with key'')
        else checkInputsData spentOutputsMap (key # alreadySpent) ins)"

definition getTxInputsFromDB :: "CryspValidator \<Rightarrow> Transaction \<Rightarrow> error + UTxO list" where
  "getTxInputsFromDB cv tx =
    (let frm = Address_Hex (tx_from tx) in
     case (if tx_txType tx = UnstakeTxType then rd_FindStakeDepositsOfAddress (cv_bc cv) frm ''all''
           else rd_FindAllUTxO (cv_bc cv) frm) of
       Inl e \<Rightarrow> Inl (Wrap e ''ValidateTransaction'') | Inr utxo \<Rightarrow> Inr utxo)"

definition validateTxInputs :: "CryspValidator \<Rightarrow> Transaction \<Rightarrow> error option" where
  "validateTxInputs cv tx =
    (if tx_num tx = 0 then Some ErrBadNonce
     else (case rd_GetTransactionsCount (cv_bc cv) (tx_from tx) of
         Inl e \<Rightarrow> Some e
       | Inr nonce \<Rightarrow>
          if tx_num tx \<noteq> nonce + 1 then Some ErrBadNonce
          else (case getTxInputsFromDB cv tx of
              Inl e \<Rightarrow> Some e
            | Inr utxo \<Rightarrow>
               if utxo = [] then Some ErrUtxoSize
               else if sum_list (map uo_Amount utxo) = 0 then Some (Errorf ''Zero balance on the wallet'')
               else (case checkInputsData (spentOutputs utxo) [] (tx_inputs tx) of
                   Inl e \<Rightarrow> Some e | Inr _ \<Rightarrow> None))))"

definition validateUnstakeTx :: "CryspValidator \<Rightarrow> Transaction \<Rightarrow> error option" where
  "validateUnstakeTx cv tx = (case unstake_node '''' 0 (tx_inputs tx) of
     Inl e \<Rightarrow> Some e
   | Inr _ \<Rightarrow>
      check_seq (check_all (\<lambda>out. if Address_Hex (out_node out) = BlackHoleAddress then
          (if cc_StakeUnit (cv_cfg cv) = 0 then Some (Panic ''integer divide by zero'')
           else ensure (out_amount out mod cc_StakeUnit (cv_cfg cv) = 0) (Errorf ''Wrong stake output amount.''))
          else None) (tx_outputs tx))
        (validateTxInputs cv tx))"

definition ValidateTransaction :: "CryspValidator \<Rightarrow> Transaction \<Rightarrow> error option" where
  "ValidateTransaction cv tx =
    (if tx_txType tx = UnstakeTxType then validateUnstakeTx cv tx
     else if tx_txType tx = StakeTxType then
       (case checkStakeType cv tx of
          Inl e \<Rightarrow> Some e
        | Inr st \<Rightarrow>
           if st = ValidatorStake \<and> \<not> CanValidatorStake (cv_stakeValidator cv) False then Some ErrStakeLimit
           else validateTxInputs cv tx)
     else if tx_txType tx = NormalTxType then validateTxInputs cv tx
     else Some ErrBadTxType)"

subsection \<open>System transactions\<close>

text \<open>The balance of each sender of a collapse transaction.\<close>

fun addr_balance :: "(string, uint64) gomap \<Rightarrow> Input list \<Rightarrow> error + (string, uint64) gomap" where
  "addr_balance m [] = Inr m"
| "addr_balance m (i # ins) =
    (let key = Address_Hex (in_address i) in
     case map_of m key of
       Some b \<Rightarrow> (case Add64 b (in_amount i) of (balance, overflow) \<Rightarrow>
         if overflow then Inl (Errorf ''Balance overflow'') else addr_balance (gput key balance m) ins)
     | None \<Rightarrow> addr_balance (gput key (in_amount i) m) ins)"

fun collapse_outputs :: "(string, uint64) gomap \<Rightarrow> string list \<Rightarrow> Output list \<Rightarrow> error option" where
  "collapse_outputs addrBalance readed [] = None"
| "collapse_outputs addrBalance readed (out # outs) =
    (let key = Address_Hex (out_address out) in
     case map_of addrBalance key of
       None \<Rightarrow> Some (Errorf ''The recipient without sender'')
     | Some balance \<Rightarrow>
        if balance \<noteq> out_amount out then Some (Errorf ''Address balance inconsistent sum'')
        else if key \<in> set readed then Some (Errorf ''Address has to many outputs'')
        else collapse_outputs addrBalance (key # readed) outs)"

text \<open>The database outputs of all senders; of the last sender only those the transaction uses.\<close>

fun collapse_spent :: "CryspValidator \<Rightarrow> string \<Rightarrow> string list \<Rightarrow> string list \<Rightarrow> (string, Input) gomap \<Rightarrow>
    error + (string, Input) gomap" where
  "collapse_spent cv lastAddr lastAddrOutputs [] m = Inr m"
| "collapse_spent cv lastAddr lastAddrOutputs (addr # addrs) m =
    (case rd_FindAllUTxO (cv_bc cv) addr of
       Inl e \<Rightarrow> Inl e
     | Inr utxo \<Rightarrow> collapse_spent cv lastAddr lastAddrOutputs addrs
         (fold (\<lambda>uo m. let key = GenKeyFromInput (UTxO_ToInput uo) in
                  if lastAddr = addr \<and> key \<notin> set lastAddrOutputs then m else gput key (UTxO_ToInput uo) m) utxo m))"

definition validateCollapseTx :: "CryspValidator \<Rightarrow> Transaction \<Rightarrow> Block \<Rightarrow> error option" where
  "validateCollapseTx cv tx block =
    (check_seq (ensure (tx_num tx = bk_Num block) (Errorf ''Wrong collapse tx num.''))
    (check_seq (validateTxStructBase cv tx)
      (case addr_balance [] (tx_inputs tx) of
         Inl e \<Rightarrow> Some e
       | Inr addrBalance \<Rightarrow>
          check_seq (collapse_outputs addrBalance [] (tx_outputs tx))
            (let lastAddr = in_address (last (tx_inputs tx));
                 lastAddrOutputs = map GenKeyFromInput (filter (\<lambda>i. in_address i = lastAddr) (tx_inputs tx)) in
             case collapse_spent cv (Address_Hex lastAddr) lastAddrOutputs (map fst addrBalance) [] of
               Inl e \<Rightarrow> Some e
             | Inr spentOutputsMap \<Rightarrow>
                (case checkInputsData spentOutputsMap [] (tx_inputs tx) of
                   Inl e \<Rightarrow> Some e
                 | Inr alreadySpent \<Rightarrow>
                    check_all (\<lambda>(key, _). ensure (key \<in> set alreadySpent) (Errorf ''Unspent output of collapse tx with key''))
                      spentOutputsMap)))))"

definition validateFeeTx :: "Transaction \<Rightarrow> Block \<Rightarrow> error option" where
  "validateFeeTx tx block =
    (check_seq (ensure (tx_txType tx = FeeTxType) (Errorf ''Transaction has wrong type''))
    (check_seq (ensure (length (tx_outputs tx) = 1) (Errorf ''Wrong tx fee outputs size.''))
    (check_seq (ensure (tx_num tx = bk_Num block) (Errorf ''Wrong tx fee num.''))
      (ensure (sum_list (map GetRealFee (bk_Transactions block)) = out_amount (hd (tx_outputs tx)))
         (Errorf ''Wrong tx fee amount.'')))))"

fun reward_outputs :: "(string, uint64) gomap \<Rightarrow> string list \<Rightarrow> (string, uint64) gomap \<Rightarrow> Output list \<Rightarrow>
    error + (string, uint64) gomap" where
  "reward_outputs rewardMap processed rewardRecord [] = Inr rewardRecord"
| "reward_outputs rewardMap processed rewardRecord (out # outs) =
    (let staker = Address_Hex (out_address out) in
     if staker \<in> set processed then Inl (Errorf ''Already processed staker'')
     else if gget0 rewardMap staker \<noteq> out_amount out then Inl (Errorf ''Wrong staker reward amount.'')
     else reward_outputs rewardMap (staker # processed) (gput staker (out_amount out) rewardRecord) outs)"

definition validateRewardTx :: "CryspValidator \<Rightarrow> Transaction \<Rightarrow> Block \<Rightarrow> (string, uint64) gomap \<Rightarrow>
    error + (string, uint64) gomap" where
  "validateRewardTx cv tx block rewardRecord =
    (if tx_txType tx \<noteq> RewardTxType then Inl (Errorf ''Transaction has wrong type'')
     else if tx_num tx \<noteq> bk_Num block then Inl (Errorf ''Wrong tx reward num.'')
     else (case GetRewardMap (cv_params cv) (cv_stakeValidator cv) (Encode (sg_Address (bk_Proposer block))) of
         Inl e \<Rightarrow> Inl e
       | Inr rewardMap \<Rightarrow> reward_outputs rewardMap [] rewardRecord (tx_outputs tx)))"

fun sum_checked :: "uint64 \<Rightarrow> Input list \<Rightarrow> error + uint64" where
  "sum_checked acc [] = Inr acc"
| "sum_checked acc (i # ins) = (case Add64 acc (in_amount i) of (s, overflow) \<Rightarrow>
     if overflow then Inl (Errorf ''Balance overflow'') else sum_checked s ins)"

definition validateSystemUnstakeTx :: "CryspValidator \<Rightarrow> Transaction \<Rightarrow> Block \<Rightarrow> error option" where
  "validateSystemUnstakeTx cv tx block =
    (check_seq (ensure (tx_num tx = bk_Num block) (Errorf ''Wrong system unstake tx num''))
    (check_seq (validateTxStructBase cv tx)
      (case sum_checked 0 (tx_inputs tx) of
         Inl e \<Rightarrow> Some e
       | Inr sumIn \<Rightarrow>
          check_seq (ensure (out_amount (hd (tx_outputs tx)) = sumIn) (Errorf ''Balance inconsistency in transaction''))
            (case rd_FindStakeDepositsOfAddress (cv_bc cv) (Address_Hex (out_address (hd (tx_outputs tx)))) ''all'' of
               Inl e \<Rightarrow> Some e
             | Inr deposits \<Rightarrow>
                (case checkInputsData (spentOutputs deposits) [] (tx_inputs tx) of
                   Inl e \<Rightarrow> Some e
                 | Inr alreadySpent \<Rightarrow>
                    ensure (length alreadySpent = length (tx_inputs tx))
                      (Errorf ''ValidateSystemUnstakeTx: Inputs do not correspond to deposits''))))))"

subsection \<open>Blocks (block\_validator.go)\<close>

definition ErrReadingBlock :: error where
  "ErrReadingBlock = Sentinel ''Error reading block from database''"

definition ErrPreviousBlockNotExists :: error where
  "ErrPreviousBlockNotExists = Sentinel ''Previous block for given block does not exist''"

fun block_inputs :: "string list \<Rightarrow> uint64 \<Rightarrow> TxInput list \<Rightarrow> error + (string list \<times> uint64)" where
  "block_inputs seen acc [] = Inr (seen, acc)"
| "block_inputs seen acc (i # ins) =
    (let key = GenKeyFromPbInput i in
     if key \<in> set seen then Inl (Errorf ''Block has double input'')
     else block_inputs (key # seen) (acc + ti_Amount i) ins)"

fun block_balance_loop :: "string list \<Rightarrow> uint64 \<Rightarrow> uint64 \<Rightarrow> PbTransaction list \<Rightarrow> error + (uint64 \<times> uint64)" where
  "block_balance_loop seen inp outp [] = Inr (inp, outp)"
| "block_balance_loop seen inp outp (tx # txs) =
    (if pt_Type tx = RewardTxType then block_balance_loop seen inp outp txs
     else (case block_inputs seen inp (pt_Inputs tx) of
         Inl e \<Rightarrow> Inl e
       | Inr (seen, inp) \<Rightarrow> block_balance_loop seen inp (outp + out_sum tx) txs))"

definition checkBlockBalance :: "Block \<Rightarrow> error option" where
  "checkBlockBalance block = (case block_balance_loop [] 0 0 (bk_Transactions block) of
     Inl e \<Rightarrow> Some e
   | Inr (blockInputsBalance, blockOutputsBalance) \<Rightarrow>
      ensure (blockInputsBalance = blockOutputsBalance) (Errorf ''Wrong block balance.''))"

definition validateBlockHeader :: "CryspValidator \<Rightarrow> int \<Rightarrow> Block \<Rightarrow> error option" where
  "validateBlockHeader cv now block = (case GenTxRoot (cv_crypto cv) (bk_Transactions block) of
     Inl e \<Rightarrow> Some e
   | Inr txRoot \<Rightarrow>
      check_seq (ensure (txRoot = bk_Txroot block) (Errorf ''Block tx root mismatch.''))
        (ensure (\<not> go_int (now + cc_SlotTime (cv_cfg cv)) < sint (bk_Timestamp block)) (Errorf ''Wrong block timestamp'')))"

definition ValidateGenesis :: "CryspValidator \<Rightarrow> int \<Rightarrow> Block \<Rightarrow> error option" where
  "ValidateGenesis cv now block = (case rd_GetGenesis (cv_bc cv) of
     None \<Rightarrow> Some (Panic ''nil pointer dereference'')
   | Some genesis \<Rightarrow>
      check_seq (ensure (bk_Hash block = BytesToHash (bk_Hash genesis)) (Errorf ''Genesis hash mismatch.''))
      (check_seq (validateBlockHeader cv now block)
        (if length (bk_Transactions genesis) < length (bk_Transactions block)
            \<and> map pt_Hash (take (length (bk_Transactions genesis)) (bk_Transactions block)) = map pt_Hash (bk_Transactions genesis)
         then Some (Panic ''index out of range'')
         else check_all (\<lambda>(tx, g). ensure (pt_Hash tx = pt_Hash g) (Panic ''Bad Genesis''))
           (zip (bk_Transactions block) (bk_Transactions genesis)))))"

definition verifyBlockSign :: "CryspValidator \<Rightarrow> Block \<Rightarrow> Sign \<Rightarrow> error option" where
  "verifyBlockSign cv block sign = BlockSigner_Verify (cv_crypto cv) (NewHeader block) sign"

definition countValidSigns :: "CryspValidator \<Rightarrow> Block \<Rightarrow> Sign list \<Rightarrow> uint32 \<Rightarrow> nat" where
  "countValidSigns cv block signatures attestationType =
     length (filter (\<lambda>sign. VerifyBlockSign (cv_crypto cv) (NewHeader block) attestationType sign = None) signatures)"

definition getTransactionsSize :: "Block \<Rightarrow> nat" where
  "getTransactionsSize block =
     sum_list (map Tx_SizeSSZ (filter (\<lambda>tx. pt_Type tx \<noteq> FeeTxType) (bk_Transactions block)))"

text \<open>
  \<^verbatim>\<open>errors.Wrap(nil, \<dots>)\<close> is nil: with failed transactions and no error of \<open>verifyTransactions\<close>, the last return
  statement reports no error.  A run-time panic in a check ends the validation and is not wrapped.
\<close>

definition errors_Wrap :: "error option \<Rightarrow> string \<Rightarrow> error option" where
  "errors_Wrap e msg = (case e of None \<Rightarrow> None | Some (Panic m) \<Rightarrow> Some (Panic m) | Some e \<Rightarrow> Some (Wrap e msg))"

text \<open>The check of one system transaction, with the rewards recorded so far.\<close>

definition verifySystemTx :: "CryspValidator \<Rightarrow> Block \<Rightarrow> (string, uint64) gomap \<Rightarrow> Transaction \<Rightarrow>
    error + (string, uint64) gomap" where
  "verifySystemTx cv block rewardRecord tx =
    (let lift = (\<lambda>(r :: error option) name. case errors_Wrap r (''Error validating '' @ name) of None \<Rightarrow> Inr rewardRecord | Some e \<Rightarrow> Inl e) in
     if tx_txType tx = CollapseTxType then lift (validateCollapseTx cv tx block) ''CollapseTx''
     else if tx_txType tx = FeeTxType then lift (validateFeeTx tx block) ''FeeTx''
     else if tx_txType tx = RewardTxType then
       (case validateRewardTx cv tx block rewardRecord of
          Inl e \<Rightarrow> Inl (Wrap e ''Error validating RewardTx'') | Inr r \<Rightarrow> Inr r)
     else if tx_txType tx = ValidatorsUnstakeTxType then lift (validateSystemUnstakeTx cv tx block) ''SystemUnstakeTx''
     else Inr rewardRecord)"

text \<open>
  The loop of \<open>verifyTransactions\<close>: the transactions with their new statuses, and the error or the recorded rewards
  with the failed transactions.
\<close>

fun verify_txs :: "CryspValidator \<Rightarrow> Block \<Rightarrow> (string, uint64) gomap \<Rightarrow> PbTransaction list \<Rightarrow>
    PbTransaction list \<times> (error + ((string, uint64) gomap \<times> Transaction list))" where
  "verify_txs cv block rewardRecord [] = ([], Inr (rewardRecord, []))"
| "verify_txs cv block rewardRecord (txpb # txs) =
    (let tx = NewTransaction txpb in
     if IsSystemTx txpb then
       (case verifySystemTx cv block rewardRecord tx of
          Inl e \<Rightarrow> (txpb # txs, Inl e)
        | Inr rewardRecord \<Rightarrow>
           (case verify_txs cv block rewardRecord txs of (done, r) \<Rightarrow> (txpb # done, r)))
     else (case check_seq (ValidateTransactionStruct cv tx) (ValidateTransaction cv tx) of
         Some (Panic m) \<Rightarrow> (txpb # txs, Inl (Panic m))
       | Some _ \<Rightarrow>
          (case verify_txs cv block rewardRecord txs of (done, r) \<Rightarrow>
             (txpb\<lparr>pt_Status := TxFailed\<rparr> # done,
              case r of Inl e \<Rightarrow> Inl e | Inr (rec, failed) \<Rightarrow> Inr (rec, SetStatus TxFailed tx # failed)))
       | None \<Rightarrow>
          (case verify_txs cv block rewardRecord txs of (done, r) \<Rightarrow> (txpb\<lparr>pt_Status := TxSuccess\<rparr> # done, r))))"

definition verifyTransactions :: "CryspValidator \<Rightarrow> Block \<Rightarrow> Block \<times> (error + Transaction list)" where
  "verifyTransactions cv block =
    (case verify_txs cv block [] (bk_Transactions block) of (txs, r) \<Rightarrow>
      (block\<lparr>bk_Transactions := txs\<rparr>,
       case r of
         Inl e \<Rightarrow> Inl e
       | Inr (rewardRecord, failedTx) \<Rightarrow>
          (case GetRewardMap (cv_params cv) (cv_stakeValidator cv) (Encode (sg_Address (bk_Proposer block))) of
             Inl e \<Rightarrow> Inl e
           | Inr rewardMap \<Rightarrow>
              if length rewardRecord \<noteq> length rewardMap then Inl (Errorf ''Rewards in the block are not valid'')
              else Inr failedTx)))"

text \<open>The checks against the stored chain.\<close>

definition checkKnown :: "CryspValidator \<Rightarrow> Block \<Rightarrow> error option" where
  "checkKnown cv block = (case rd_GetBlockByHash (cv_bc cv) (bk_Hash block) of
     Inl e \<Rightarrow> Some ErrReadingBlock
   | Inr (Some b) \<Rightarrow> Some ErrKnownBlock
   | Inr None \<Rightarrow>
      (case rd_GetBlockByNum (cv_bc cv) (bk_Num block) of
         Inl e \<Rightarrow> if errors_Is e ErrNotForgedBlock then None else Some ErrReadingBlock
       | Inr (Some b) \<Rightarrow> Some ErrKnownBlock
       | Inr None \<Rightarrow> None))"

definition checkParent :: "CryspValidator \<Rightarrow> Block \<Rightarrow> error option" where
  "checkParent cv block =
    (case rd_GetBlockByNum (cv_bc cv) (bk_Num block - 1) of
       Inl e \<Rightarrow> if errors_Is e ErrNotForgedBlock then Some ErrPreviousBlockNotExists else Some ErrReadingBlock
     | Inr None \<Rightarrow> Some ErrPreviousBlockNotExists
     | Inr (Some _) \<Rightarrow>
        (case rd_GetBlockByHash (cv_bc cv) (bk_Parent block) of
           Inl e \<Rightarrow> Some (Errorf ''ValidateBlock: Error reading previous block from database.'')
         | Inr None \<Rightarrow> Some (Errorf ''Parent block hash is not valid'')
         | Inr (Some prevBlock) \<Rightarrow>
            check_seq (ensure (\<not> bk_Timestamp prevBlock \<ge> bk_Timestamp block) (Errorf ''ValidateBlock: Timestamp is too small.''))
              (ensure (\<not> bk_Num block - bk_Num prevBlock > 1) (Errorf ''ValidateBlock: Too big block num difference.''))))"

definition checkVotes :: "CryspValidator \<Rightarrow> Block \<Rightarrow> error option" where
  "checkVotes cv block =
    (case IsEnoughVotes (cv_params cv) (countValidSigns cv block (bk_Approvers block) Approve)
        (countValidSigns cv block (bk_Slashers block) Reject) of
       None \<Rightarrow> None | Some e \<Rightarrow> Some (Wrap e ''Block voting error''))"

definition validateBlockBase :: "CryspValidator \<Rightarrow> int \<Rightarrow> Block \<Rightarrow> bool \<Rightarrow> error option" where
  "validateBlockBase cv now block countSign =
    (check_seq (ensure (\<not> getTransactionsSize block > cc_BlockSize (cv_cfg cv)) (Errorf ''The block size exceeds the limit''))
    (check_seq (checkBlockBalance block)
    (check_seq (validateBlockHeader cv now block)
    (check_seq (ensure (BlockHash (cv_crypto cv) (bk_Num block) (bk_Slot block) (bk_Version block) (bk_Parent block)
        (bk_Txroot block) (bk_Timestamp block) (sg_Address (bk_Proposer block)) = bk_Hash block) (Errorf ''Bad block hash given.''))
    (check_seq (ensure (verifyBlockSign cv block (bk_Proposer block) = None) (Errorf ''Wrong block proposer signature''))
    (check_seq (checkKnown cv block)
    (check_seq (checkParent cv block)
      (if countSign then checkVotes cv block else None))))))))"

definition ValidateBlock :: "CryspValidator \<Rightarrow> int \<Rightarrow> Block \<Rightarrow> bool \<Rightarrow> Block \<times> Transaction list \<times> error option" where
  "ValidateBlock cv now block countSign = (case validateBlockBase cv now block countSign of
     Some e \<Rightarrow> (block, [], Some e)
   | None \<Rightarrow>
      (case verifyTransactions cv block of
         (block, Inl e) \<Rightarrow> (block, [], errors_Wrap (Some e) ''Error verifying transactions'')
       | (block, Inr failedTx) \<Rightarrow>
          if failedTx \<noteq> [] then (block, failedTx, errors_Wrap None ''There are failed transactions in the block'')
          else (block, [], None)))"

subsection \<open>What the balance checks give\<close>

lemma inputs_balance_ok:
  "inputs_balance cv ty acc ins = Inr s \<Longrightarrow>
    unat s = unat acc + (\<Sum>i\<leftarrow>ins. unat (in_amount i)) \<and> (\<forall>i \<in> set ins. in_amount i \<noteq> 0)"
proof (induction ins arbitrary: acc)
  case (Cons i ins)
  then obtain s1 where "Add64 (in_amount i) acc = (s1, False)" "inputs_balance cv ty s1 ins = Inr s" "in_amount i \<noteq> 0"
    by (auto split: if_splits prod.splits)
  with Cons.IH [of s1] Add64_ok [of "in_amount i" acc s1] show ?case by simp
qed simp

lemma outputs_balance_ok:
  "outputs_balance cv ty acc n outs = Inr (s, n') \<Longrightarrow>
    unat s = unat acc + (\<Sum>out\<leftarrow>outs. unat (out_amount out)) \<and> (\<forall>out \<in> set outs. out_amount out \<noteq> 0)"
proof (induction outs arbitrary: acc n)
  case (Cons out outs)
  then obtain s1 n1 where "Add64 (out_amount out) acc = (s1, False)" "outputs_balance cv ty s1 n1 outs = Inr (s, n')"
    "out_amount out \<noteq> 0"
    by (auto simp: Let_def split: if_splits prod.splits)
  with Cons.IH [of s1 n1] Add64_ok [of "out_amount out" acc s1] show ?case by simp
qed simp

lemma txBalance_exact:
  assumes "txBalance cv tx = None"
  shows "(\<Sum>i\<leftarrow>tx_inputs tx. unat (in_amount i)) = (\<Sum>out\<leftarrow>tx_outputs tx. unat (out_amount out)) + unat (tx_fee tx)"
    "\<forall>i \<in> set (tx_inputs tx). in_amount i \<noteq> 0" "\<forall>out \<in> set (tx_outputs tx). out_amount out \<noteq> 0"
proof -
  obtain s o1 n where i: "inputs_balance cv (tx_txType tx) 0 (tx_inputs tx) = Inr s"
    and o1: "outputs_balance cv (tx_txType tx) 0 0 (tx_outputs tx) = Inr (o1, n)"
    and a: "Add64 o1 (tx_fee tx) = (s, False)"
    using assms by (auto simp: txBalance_def split: sum.splits prod.splits if_splits)
  show "(\<Sum>i\<leftarrow>tx_inputs tx. unat (in_amount i)) = (\<Sum>out\<leftarrow>tx_outputs tx. unat (out_amount out)) + unat (tx_fee tx)"
    using inputs_balance_ok [OF i] outputs_balance_ok [OF o1] conjunct2 [OF Add64_ok [OF a]] by simp
  show "\<forall>i \<in> set (tx_inputs tx). in_amount i \<noteq> 0" "\<forall>out \<in> set (tx_outputs tx). out_amount out \<noteq> 0"
    using inputs_balance_ok [OF i] outputs_balance_ok [OF o1] by auto
qed

lemma validateTxStructBase_balance: "validateTxStructBase cv tx = None \<Longrightarrow> txBalance cv tx = None"
  by (simp add: validateTxStructBase_def)

lemma ValidateTransactionStruct_base:
  "ValidateTransactionStruct cv tx = None \<Longrightarrow> validateTxStructBase cv tx = None"
  by (simp add: ValidateTransactionStruct_def)

subsection \<open>What the comparison with the database gives\<close>

lemma checkInputsData_ok:
  "checkInputsData m seen ins = Inr sp \<Longrightarrow>
    sp = rev (map GenKeyFromInput ins) @ seen \<and> distinct (map GenKeyFromInput ins) \<and>
    set (map GenKeyFromInput ins) \<inter> set seen = {} \<and>
    (\<forall>i \<in> set ins. \<exists>d. map_of m (GenKeyFromInput i) = Some d \<and> in_hash d = in_hash i \<and> in_index d = in_index i
       \<and> in_amount d = in_amount i \<and> in_node d = in_node i)"
proof (induction ins arbitrary: seen)
  case (Cons i ins)
  then obtain d where d: "map_of m (GenKeyFromInput i) = Some d" "in_hash d = in_hash i" "in_index d = in_index i"
      "in_amount d = in_amount i" "in_node d = in_node i"
    and k: "GenKeyFromInput i \<notin> set seen"
    and rest: "checkInputsData m (GenKeyFromInput i # seen) ins = Inr sp"
    by (auto simp: Let_def split: option.splits if_splits)
  then show ?case using Cons.IH [OF rest] by auto
qed simp

definition from_utxos :: "UTxO set \<Rightarrow> (string, Input) gomap \<Rightarrow> bool" where
  "from_utxos U m \<longleftrightarrow> (\<forall>k d. map_of m k = Some d \<longrightarrow> (\<exists>u \<in> U. d = UTxO_ToInput u))"

lemma from_utxos_put: "from_utxos U m \<Longrightarrow> u \<in> U \<Longrightarrow> from_utxos U (gput k (UTxO_ToInput u) m)"
  by (auto simp: from_utxos_def map_of_update)

lemma from_utxos_fold:
  "from_utxos U m \<Longrightarrow> set us \<subseteq> U \<Longrightarrow>
   from_utxos U (fold (\<lambda>u m. if P u then m else gput (f u) (UTxO_ToInput u) m) us m)"
  by (induction us arbitrary: m) (auto simp: from_utxos_put)

lemma from_utxos_Nil [simp]: "from_utxos U []"
  by (simp add: from_utxos_def)

lemma from_utxos_spent: "from_utxos (set us) (spentOutputs us)"
  using from_utxos_fold [of "set us" "[]" us "\<lambda>_. False"] by (simp add: spentOutputs_def)

lemma collapse_spent_from:
  "collapse_spent cv la los addrs m = Inr m' \<Longrightarrow> from_utxos U m \<Longrightarrow>
   (\<And>a us. a \<in> set addrs \<Longrightarrow> rd_FindAllUTxO (cv_bc cv) a = Inr us \<Longrightarrow> set us \<subseteq> U) \<Longrightarrow> from_utxos U m'"
proof (induction addrs arbitrary: m)
  case (Cons a addrs)
  then obtain us where us: "rd_FindAllUTxO (cv_bc cv) a = Inr us" by (auto split: sum.splits)
  let ?m = "fold (\<lambda>uo m. let key = GenKeyFromInput (UTxO_ToInput uo) in
                  if la = a \<and> key \<notin> set los then m else gput key (UTxO_ToInput uo) m) us m"
  have f: "from_utxos U ?m"
    using from_utxos_fold [OF Cons.prems(2), of us] Cons.prems(3) [of a us] us by (simp add: Let_def)
  have c: "collapse_spent cv la los addrs ?m = Inr m'" using Cons.prems(1) us by simp
  show ?case
  proof (rule Cons.IH [OF c f])
    fix x ys
    assume "x \<in> set addrs" "rd_FindAllUTxO (cv_bc cv) x = Inr ys"
    then show "set ys \<subseteq> U" by (intro Cons.prems(3)) simp_all
  qed
qed simp

text \<open>An input names an unspent output and states its amount and node.\<close>

definition real_input :: "(bytes \<times> uint32 \<Rightarrow> UTxO option) \<Rightarrow> Input \<Rightarrow> bool" where
  "real_input utxo i \<longleftrightarrow> (\<exists>u. utxo (in_hash i, in_index i) = Some u \<and> uo_Amount u = in_amount i \<and> uo_Node u = in_node i)"

lemma checked_from:
  assumes "checkInputsData m [] ins = Inr sp" "from_utxos U m"
    and "\<And>u. u \<in> U \<Longrightarrow> utxo (uo_Hash u, uo_Index u) = Some u \<and> P u"
  shows "\<forall>i \<in> set ins. \<exists>u. utxo (in_hash i, in_index i) = Some u \<and> uo_Amount u = in_amount i \<and> uo_Node u = in_node i \<and> P u"
proof
  fix i
  assume "i \<in> set ins"
  then obtain d where d: "map_of m (GenKeyFromInput i) = Some d" "in_hash d = in_hash i" "in_index d = in_index i"
    "in_amount d = in_amount i" "in_node d = in_node i"
    using checkInputsData_ok [OF assms(1)] by blast
  then obtain u where u: "u \<in> U" "d = UTxO_ToInput u" using assms(2) by (auto simp: from_utxos_def)
  then have "utxo (in_hash i, in_index i) = Some u" using assms(3) [OF u(1)] d by (metis UTxO_ToInput_simps(1,3))
  then show "\<exists>u. utxo (in_hash i, in_index i) = Some u \<and> uo_Amount u = in_amount i \<and> uo_Node u = in_node i \<and> P u"
    using d u assms(3) [OF u(1)] by auto
qed

lemma checked_real:
  assumes "checkInputsData m [] ins = Inr sp" "from_utxos U m"
    and "\<And>u. u \<in> U \<Longrightarrow> utxo (uo_Hash u, uo_Index u) = Some u"
  shows "\<forall>i \<in> set ins. real_input utxo i"
  using checked_from [OF assms(1,2), of utxo "\<lambda>_. True"] assms(3) by (auto simp: real_input_def)

text \<open>
  The output of a standard transaction's input belongs to the sender of the transaction; it is locked in a stake exactly if the transaction
  withdraws a stake.
\<close>

definition sender_owns :: "Transaction \<Rightarrow> UTxO \<Rightarrow> bool" where
  "sender_owns tx u \<longleftrightarrow> Address_Hex (uo_To u) = Address_Hex (tx_from tx) \<and> (uo_Node u = [] \<longleftrightarrow> tx_txType tx \<noteq> UnstakeTxType)"

context blockchain_reader
begin

lemma validateTxInputs_owned:
  assumes ok "cv_bc cv = rd" "validateTxInputs cv tx = None"
  shows "\<forall>i \<in> set (tx_inputs tx). \<exists>u. utxo (in_hash i, in_index i) = Some u \<and> uo_Amount u = in_amount i \<and> uo_Node u = in_node i \<and> sender_owns tx u"
proof -
  obtain us where us: "getTxInputsFromDB cv tx = Inr us"
    and c: "\<exists>sp. checkInputsData (spentOutputs us) [] (tx_inputs tx) = Inr sp"
    using assms(3) by (auto simp: validateTxInputs_def split: if_splits sum.splits)
  have "utxo (uo_Hash u, uo_Index u) = Some u \<and> sender_owns tx u" if u: "u \<in> set us" for u
  proof (cases "tx_txType tx = UnstakeTxType")
    case True
    then have "rd_FindStakeDepositsOfAddress rd (Address_Hex (tx_from tx)) ''all'' = Inr us"
      using us assms(2) by (auto simp: getTxInputsFromDB_def Let_def split: sum.splits)
    from findStake_sound [OF assms(1) this u] show ?thesis using True by (simp add: sender_owns_def)
  next
    case False
    then have "rd_FindAllUTxO rd (Address_Hex (tx_from tx)) = Inr us"
      using us assms(2) by (auto simp: getTxInputsFromDB_def Let_def split: sum.splits)
    from findAll_sound [OF assms(1) this u] show ?thesis using False by (simp add: sender_owns_def)
  qed
  then show ?thesis using c checked_from [OF _ from_utxos_spent, of us _ _ utxo "sender_owns tx"] by blast
qed

lemma ValidateTransaction_owned:
  assumes ok "cv_bc cv = rd" "ValidateTransaction cv tx = None"
  shows "\<forall>i \<in> set (tx_inputs tx). \<exists>u. utxo (in_hash i, in_index i) = Some u \<and> uo_Amount u = in_amount i \<and> uo_Node u = in_node i \<and> sender_owns tx u"
  using assms(3) validateTxInputs_owned [OF assms(1,2), of tx]
  by (auto simp: ValidateTransaction_def validateUnstakeTx_def split: if_splits sum.splits)

lemma validateCollapseTx_real:
  assumes ok "cv_bc cv = rd" "validateCollapseTx cv tx b = None"
  shows "\<forall>i \<in> set (tx_inputs tx). real_input utxo i"
proof -
  obtain la los m sp and ab :: "(string, uint64) gomap" where m: "collapse_spent cv la los (map fst ab) [] = Inr m"
    and c: "checkInputsData m [] (tx_inputs tx) = Inr sp"
    using assms(3) by (auto simp: validateCollapseTx_def Let_def split: sum.splits)
  let ?U = "{u. utxo (uo_Hash u, uo_Index u) = Some u}"
  have "from_utxos ?U m"
  proof (rule collapse_spent_from [OF m])
    fix a us
    assume "rd_FindAllUTxO (cv_bc cv) a = Inr us"
    then show "set us \<subseteq> ?U" using findAll_sound [OF assms(1)] assms(2) by auto
  qed simp
  then show ?thesis using checked_real [OF c, of ?U utxo] by blast
qed

lemma validateSystemUnstakeTx_real:
  assumes ok "cv_bc cv = rd" "validateSystemUnstakeTx cv tx b = None"
  shows "\<forall>i \<in> set (tx_inputs tx). real_input utxo i"
proof -
  obtain a us sp where us: "rd_FindStakeDepositsOfAddress rd a ''all'' = Inr us"
    and c: "checkInputsData (spentOutputs us) [] (tx_inputs tx) = Inr sp"
    using assms(2,3) by (auto simp: validateSystemUnstakeTx_def split: sum.splits)
  show ?thesis
    using checked_real [OF c from_utxos_spent, of utxo] findStake_sound [OF assms(1) us] by blast
qed

lemma ValidateTransaction_real:
  assumes ok "cv_bc cv = rd" "ValidateTransaction cv tx = None"
  shows "\<forall>i \<in> set (tx_inputs tx). real_input utxo i"
  using ValidateTransaction_owned [OF assms] by (fastforce simp: real_input_def)

lemma verifySystemTx_real:
  assumes ok "cv_bc cv = rd" "verifySystemTx cv b rec tx = Inr rec'"
    and "tx_txType tx = CollapseTxType \<or> tx_txType tx = ValidatorsUnstakeTxType"
  shows "\<forall>i \<in> set (tx_inputs tx). real_input utxo i"
  using assms(3,4) validateCollapseTx_real [OF assms(1,2), of tx b] validateSystemUnstakeTx_real [OF assms(1,2), of tx b]
  by (auto simp: verifySystemTx_def errors_Wrap_def Let_def split: option.splits error.splits)

text \<open>In an accepted block without failed transactions every input of a transaction with inputs is real.\<close>

lemma verify_txs_real:
  assumes ok "cv_bc cv = rd" "verify_txs cv b rec txs = (txs', Inr (rec', []))" "tx \<in> set txs" "HasInputs tx"
  shows "\<forall>i \<in> set (pt_Inputs tx). real_input utxo (newInput i)"
  using assms(3,4)
proof (induction txs arbitrary: rec txs')
  case (Cons t txs)
  consider (sys) rec1 txs1 where "IsSystemTx t" "verifySystemTx cv b rec (NewTransaction t) = Inr rec1"
      "verify_txs cv b rec1 txs = (txs1, Inr (rec', []))"
    | (std) txs1 where "\<not> IsSystemTx t" "ValidateTransaction cv (NewTransaction t) = None"
      "verify_txs cv b rec txs = (txs1, Inr (rec', []))"
    using Cons.prems(1) by (auto simp: Let_def split: if_splits sum.splits prod.splits option.splits error.splits)
  then show ?case
  proof cases
    case sys
    then show ?thesis
      using Cons.IH [of rec1 txs1] Cons.prems(2) verifySystemTx_real [OF assms(1,2) sys(2)] assms(5) IsLegacy_not_System
      by (auto simp: HasInputs_def)
  next
    case std
    then show ?thesis
      using Cons.IH [of rec txs1] Cons.prems(2) ValidateTransaction_real [OF assms(1,2) std(2)] by auto
  qed
qed simp

end

subsection \<open>Collapse transactions\<close>

definition in_sum :: "Input list \<Rightarrow> string \<Rightarrow> nat" where
  "in_sum ins k = (\<Sum>i\<leftarrow>filter (\<lambda>i. Address_Hex (in_address i) = k) ins. unat (in_amount i))"

definition outs_sum :: "Output list \<Rightarrow> string \<Rightarrow> nat" where
  "outs_sum outs k = (\<Sum>out\<leftarrow>filter (\<lambda>out. Address_Hex (out_address out) = k) outs. unat (out_amount out))"

lemma addr_balance_ok:
  "addr_balance m ins = Inr m' \<Longrightarrow> unat (gget0 m' k) = unat (gget0 m k) + in_sum ins k
     \<and> (ghas m' k \<longleftrightarrow> ghas m k \<or> k \<in> Address_Hex ` in_address ` set ins)"
proof (induction ins arbitrary: m)
  case (Cons i ins)
  let ?a = "Address_Hex (in_address i)"
  obtain v where v: "addr_balance (gput ?a v m) ins = Inr m'" "unat v = unat (gget0 m ?a) + unat (in_amount i)"
    using Cons.prems Add64_ok [of "gget0 m ?a" "in_amount i"]
    by (fastforce simp: Let_def gget0_def split: option.splits prod.splits if_splits)
  show ?case using Cons.IH [OF v(1)] v(2) by (auto simp: in_sum_def)
qed (simp add: in_sum_def)

lemma collapse_outputs_ok:
  "collapse_outputs ab seen outs = None \<Longrightarrow>
    distinct (map (Address_Hex \<circ> out_address) outs) \<and> set (map (Address_Hex \<circ> out_address) outs) \<inter> set seen = {} \<and>
    (\<forall>out \<in> set outs. map_of ab (Address_Hex (out_address out)) = Some (out_amount out))"
proof (induction outs arbitrary: seen)
  case (Cons out outs)
  let ?k = "Address_Hex (out_address out)"
  have "map_of ab ?k = Some (out_amount out)" "?k \<notin> set seen" "collapse_outputs ab (?k # seen) outs = None"
    using Cons.prems by (auto simp: Let_def split: option.splits if_splits)
  with Cons.IH [of "?k # seen"] show ?case by auto
qed simp

lemma outs_sum_unique:
  assumes "distinct (map (Address_Hex \<circ> out_address) outs)" "out \<in> set outs"
  shows "outs_sum outs (Address_Hex (out_address out)) = unat (out_amount out)"
proof -
  have "filter (\<lambda>o'. Address_Hex (out_address o') = Address_Hex (out_address out)) outs = [out]"
    using assms by (induction outs) (auto simp: filter_empty_conv image_iff)
  then show ?thesis by (simp add: outs_sum_def)
qed

lemma collapse_balances:
  assumes ab: "addr_balance [] ins = Inr ab" and outs: "collapse_outputs ab [] outs = None"
    and tot: "(\<Sum>i\<leftarrow>ins. unat (in_amount i)) = (\<Sum>out\<leftarrow>outs. unat (out_amount out))"
    and pos: "\<forall>i \<in> set ins. in_amount i \<noteq> 0"
  shows "outs_sum outs k = in_sum ins k"
proof -
  let ?key = "Address_Hex \<circ> out_address"
  note O = collapse_outputs_ok [OF outs]
  have amount: "unat (out_amount out) = in_sum ins (?key out)" if "out \<in> set outs" for out
    using O that addr_balance_ok [OF ab, of "?key out"] by (auto simp: gget0_def)
  have "(\<Sum>out\<leftarrow>outs. unat (out_amount out)) = (\<Sum>k\<leftarrow>map ?key outs. in_sum ins k)"
    using amount by (simp add: comp_def cong: map_cong)
  also have "\<dots> = (\<Sum>i\<leftarrow>filter (\<lambda>i. Address_Hex (in_address i) \<in> set (map ?key outs)) ins. unat (in_amount i))"
    using O unfolding in_sum_def by (intro group_sum) blast
  finally have "(\<Sum>i\<leftarrow>filter (\<lambda>i. Address_Hex (in_address i) \<notin> set (map ?key outs)) ins. unat (in_amount i)) = 0"
    using tot sum_list_filter_split [of "\<lambda>i. unat (in_amount i)" ins "\<lambda>i. Address_Hex (in_address i) \<in> set (map ?key outs)"]
    by simp
  then have covered: "Address_Hex (in_address i) \<in> set (map ?key outs)" if "i \<in> set ins" for i
    using that pos by (auto simp: sum_list_eq_0_iff unat_eq_zero)
  show ?thesis
  proof (cases "k \<in> set (map ?key outs)")
    case True
    then obtain out where "out \<in> set outs" "k = ?key out" by auto
    then show ?thesis using amount outs_sum_unique [of outs out] O by simp
  next
    case False
    then have "filter (\<lambda>i. Address_Hex (in_address i) = k) ins = []"
      using covered by (auto simp: filter_empty_conv)
    moreover have "filter (\<lambda>out. Address_Hex (out_address out) = k) outs = []"
      using False by (auto simp: filter_empty_conv)
    ultimately show ?thesis by (simp add: in_sum_def outs_sum_def)
  qed
qed

lemma validateCollapseTx_parts:
  assumes "validateCollapseTx cv tx b = None"
  shows "\<exists>ab. addr_balance [] (tx_inputs tx) = Inr ab \<and> collapse_outputs ab [] (tx_outputs tx) = None"
    "txBalance cv tx = None"
  using assms by (auto simp: validateCollapseTx_def validateTxStructBase_def split: sum.splits)

subsection \<open>The balance of a block\<close>

lemma block_inputs_ok:
  "block_inputs seen acc ins = Inr (seen', acc') \<Longrightarrow>
    acc' = acc + sum_list (map ti_Amount ins) \<and> seen' = rev (map GenKeyFromPbInput ins) @ seen
    \<and> distinct (map GenKeyFromPbInput ins) \<and> set (map GenKeyFromPbInput ins) \<inter> set seen = {}"
proof (induction ins arbitrary: seen acc)
  case (Cons i ins)
  then have "GenKeyFromPbInput i \<notin> set seen"
    "block_inputs (GenKeyFromPbInput i # seen) (acc + ti_Amount i) ins = Inr (seen', acc')"
    by (auto simp: Let_def split: if_splits)
  with Cons.IH show ?case by fastforce
qed simp

definition counted_inputs :: "PbTransaction list \<Rightarrow> TxInput list" where
  "counted_inputs txs = concat (map pt_Inputs (filter (\<lambda>tx. pt_Type tx \<noteq> RewardTxType) txs))"

lemma block_balance_loop_ok:
  "block_balance_loop seen a b txs = Inr (a', b') \<Longrightarrow>
    a' = a + sum_list (map ti_Amount (counted_inputs txs))
    \<and> b' = b + (\<Sum>tx\<leftarrow>txs. if pt_Type tx = RewardTxType then 0 else out_sum tx)
    \<and> distinct (map GenKeyFromPbInput (counted_inputs txs))
    \<and> set (map GenKeyFromPbInput (counted_inputs txs)) \<inter> set seen = {}"
proof (induction txs arbitrary: seen a b)
  case (Cons tx txs)
  show ?case
  proof (cases "pt_Type tx = RewardTxType")
    case True
    with Cons show ?thesis by (simp add: counted_inputs_def)
  next
    case False
    with Cons.prems obtain s1 a1 where b: "block_inputs seen a (pt_Inputs tx) = Inr (s1, a1)"
      and l: "block_balance_loop s1 a1 (b + out_sum tx) txs = Inr (a', b')"
      by (auto split: sum.splits prod.splits)
    show ?thesis
      using Cons.IH [OF l] block_inputs_ok [OF b] False by (auto simp: counted_inputs_def add.assoc)
  qed
qed (simp add: counted_inputs_def)

lemma checkBlockBalance_ok:
  assumes "checkBlockBalance b = None"
  shows "sum_list (map ti_Amount (counted_inputs (bk_Transactions b))) =
      (\<Sum>tx\<leftarrow>bk_Transactions b. if pt_Type tx = RewardTxType then 0 else out_sum tx)"
    and "distinct (map GenKeyFromPbInput (counted_inputs (bk_Transactions b)))"
  using assms by (auto simp: checkBlockBalance_def split: sum.splits dest!: block_balance_loop_ok)

text \<open>Transactions that do not spend through their inputs must not list any.\<close>

definition inputs_regular :: "PbTransaction list \<Rightarrow> bool" where
  "inputs_regular txs \<longleftrightarrow> (\<forall>tx \<in> set txs. pt_Type tx = RewardTxType \<or> HasInputs tx \<or> pt_Inputs tx = [])"

lemma counted_spent: "inputs_regular txs \<Longrightarrow> counted_inputs txs = spent_inputs txs"
proof (induction txs)
  case (Cons tx txs)
  have "pt_Type tx = RewardTxType \<Longrightarrow> \<not> HasInputs tx" by (simp add: HasInputs_def IsLegacyTx_def)
  with Cons show ?case by (auto simp: counted_inputs_def spent_inputs_def inputs_regular_def)
qed (simp add: counted_inputs_def spent_inputs_def)

subsection \<open>Statuses\<close>

abbreviation strip :: "PbTransaction \<Rightarrow> PbTransaction" where
  "strip tx \<equiv> tx\<lparr>pt_Status := 0\<rparr>"

lemma status_simps [simp]:
  "HasInputs (tx\<lparr>pt_Status := s\<rparr>) = HasInputs tx" "out_sum (tx\<lparr>pt_Status := s\<rparr>) = out_sum tx"
  "IsSystemTx (tx\<lparr>pt_Status := s\<rparr>) = IsSystemTx tx"
  by (simp_all add: HasInputs_def IsLegacyTx_def out_sum_def IsSystemTx_def)

lemma verify_txs_strip: "verify_txs cv b rec txs = (txs', r) \<Longrightarrow> map strip txs' = map strip txs"
proof (induction txs arbitrary: rec txs' r)
  case (Cons t txs)
  then show ?case by (fastforce simp: Let_def split: if_splits sum.splits prod.splits option.splits error.splits)
qed simp

lemma verifyTransactions_strip:
  "verifyTransactions cv b = (b', r) \<Longrightarrow> \<exists>txs. b' = b\<lparr>bk_Transactions := txs\<rparr> \<and> map strip txs = map strip (bk_Transactions b)"
  by (auto simp: verifyTransactions_def dest: verify_txs_strip split: prod.splits)

lemma spent_inputs_strip: "spent_inputs (map strip txs) = spent_inputs txs"
  by (simp add: spent_inputs_def filter_map comp_def)

lemma block_balanced_strip: "block_balanced t (map strip txs) = block_balanced t txs"
  by (simp add: block_balanced_def spent_inputs_strip comp_def cong: if_cong)

lemma block_balanced_cong:
  "map strip txs = map strip txs' \<Longrightarrow> block_balanced t txs = block_balanced t txs'"
  by (metis block_balanced_strip)

lemma ValidateBlock_accepts:
  assumes "ValidateBlock cv now b cs = (b', [], None)"
  shows "validateBlockBase cv now b cs = None" "verifyTransactions cv b = (b', Inr [])"
  using assms by (auto simp: ValidateBlock_def errors_Wrap_def split: option.splits prod.splits sum.splits if_splits error.splits)

lemma verifyTransactions_ok:
  assumes "verifyTransactions cv b = (b', Inr failed)"
  shows "\<exists>rec rm. verify_txs cv b [] (bk_Transactions b) = (bk_Transactions b', Inr (rec, failed)) \<and>
    GetRewardMap (cv_params cv) (cv_stakeValidator cv) (Encode (sg_Address (bk_Proposer b))) = Inr rm \<and>
    length rec = length rm"
  using assms by (auto simp: verifyTransactions_def split: prod.splits sum.splits if_splits)

lemma verify_txs_standard:
  "verify_txs cv b rec txs = (txs', Inr (rec', [])) \<Longrightarrow> tx \<in> set txs \<Longrightarrow> \<not> IsSystemTx tx \<Longrightarrow>
   ValidateTransactionStruct cv (NewTransaction tx) = None \<and> ValidateTransaction cv (NewTransaction tx) = None"
proof (induction txs arbitrary: rec txs')
  case (Cons t txs)
  then show ?case by (fastforce simp: Let_def split: if_splits sum.splits prod.splits option.splits error.splits)
qed simp

text \<open>The amounts recorded in the table are the amounts that validated inputs state.\<close>

lemma real_input_amount:
  assumes "table_wf t" "real_input (chain_utxo t) (newInput i)"
  shows "amount_at t (in_key i) = ti_Amount i"
proof -
  obtain u where u: "chain_utxo t (BytesToHash (ti_Hash i), ti_Index i) = Some u" "uo_Amount u = ti_Amount i"
    using assms(2) by (auto simp: real_input_def)
  then obtain r where r: "r \<in> set t" "row_key r = in_key i" "scanRow r = u"
    using chain_utxo_Some assms(1) by (fastforce simp: table_wf_def in_key_def)
  then have "amount_at t (in_key i) = rw_amount r"
    using amount_at_row [of t r] assms(1) by (simp add: table_wf_def)
  then show ?thesis using row_fields(3) [of t r] r u assms(1) by (simp add: table_wf_def)
qed

text \<open>
  The balance of an accepted block is what its inputs state.  It is the balance of the table exactly if the
  table holds for the inputs that are spent what the inputs that are counted state, and this is so when no transaction has failed
  and only transactions that spend have inputs.
\<close>

lemma ValidateBlock_passed:
  assumes "ValidateBlock cv now b cs = (b', failed, None)"
  shows "validateBlockBase cv now b cs = None" "verifyTransactions cv b = (b', Inr failed)"
  using assms by (auto simp: ValidateBlock_def errors_Wrap_def split: option.splits prod.splits sum.splits if_splits error.splits)

lemma stated_balance:
  assumes "ValidateBlock cv now b cs = (b', failed, None)"
  shows "block_balanced t (bk_Transactions b') \<longleftrightarrow>
    (\<Sum>i\<leftarrow>spent_inputs (bk_Transactions b). amount_at t (in_key i)) = sum_list (map ti_Amount (counted_inputs (bk_Transactions b)))"
proof -
  note A = ValidateBlock_passed [OF assms]
  obtain rec where v: "verify_txs cv b [] (bk_Transactions b) = (bk_Transactions b', Inr (rec, failed))"
    using verifyTransactions_ok [OF A(2)] by blast
  have "checkBlockBalance b = None" using A(1) by (simp add: validateBlockBase_def)
  from checkBlockBalance_ok(1) [OF this] have "block_balanced t (bk_Transactions b) \<longleftrightarrow>
      (\<Sum>i\<leftarrow>spent_inputs (bk_Transactions b). amount_at t (in_key i)) = sum_list (map ti_Amount (counted_inputs (bk_Transactions b)))"
    by (simp add: block_balanced_def)
  then show ?thesis using block_balanced_cong [OF verify_txs_strip [OF v]] by simp
qed

lemma accepted_amounts_real:
  assumes acc: "ValidateBlock cv now b cs = (b', [], None)"
    and bc: "cv_bc cv = chain_reader ev q s"
    and wf: "table_wf (ds_table (om_db (sv_outm s)))"
    and reg: "inputs_regular (bk_Transactions b)"
  shows "(\<Sum>i\<leftarrow>spent_inputs (bk_Transactions b). amount_at (ds_table (om_db (sv_outm s))) (in_key i)) =
    sum_list (map ti_Amount (counted_inputs (bk_Transactions b)))"
proof -
  let ?t = "ds_table (om_db (sv_outm s))" and ?txs = "bk_Transactions b"
  note A = ValidateBlock_accepts [OF acc]
  obtain rec where v: "verify_txs cv b [] ?txs = (bk_Transactions b', Inr (rec, []))"
    using verifyTransactions_ok [OF A(2)] by blast
  have "amount_at ?t (in_key i) = ti_Amount i" if i: "i \<in> set (spent_inputs ?txs)" for i
  proof -
    obtain tx where "tx \<in> set ?txs" "HasInputs tx" "i \<in> set (pt_Inputs tx)"
      using i by (auto simp: spent_inputs_def)
    then have "real_input (chain_utxo ?t) (newInput i)"
      using chain.verify_txs_real [OF wf bc v] by blast
    then show ?thesis by (rule real_input_amount [OF wf])
  qed
  then show ?thesis unfolding counted_spent [OF reg] by (simp cong: map_cong)
qed

subsection \<open>Transactions that the node builds\<close>

lemma inputs_balance_complete:
  "ty \<noteq> UnstakeTxType \<Longrightarrow> \<forall>i \<in> set ins. in_amount i \<noteq> 0 \<Longrightarrow> unat acc + (\<Sum>i\<leftarrow>ins. unat (in_amount i)) < 2 ^ 64 \<Longrightarrow>
   inputs_balance cv ty acc ins = Inr (acc + sum_list (map in_amount ins))"
proof (induction ins arbitrary: acc)
  case (Cons i ins)
  have "unat (in_amount i + acc) = unat (in_amount i) + unat acc" using Cons.prems(3) by (simp add: unat_add64)
  with Cons show ?case by (simp add: Add64_carry algebra_simps)
qed simp

lemma outputs_balance_complete:
  "ty \<noteq> StakeTxType \<Longrightarrow> \<forall>out \<in> set outs. out_amount out \<noteq> 0 \<Longrightarrow> unat acc + (\<Sum>out\<leftarrow>outs. unat (out_amount out)) < 2 ^ 64 \<Longrightarrow>
   outputs_balance cv ty acc n outs = Inr (acc + sum_list (map out_amount outs), n)"
proof (induction outs arbitrary: acc)
  case (Cons out outs)
  have "unat (out_amount out + acc) = unat (out_amount out) + unat acc" using Cons.prems(3) by (simp add: unat_add64)
  with Cons show ?case by (simp add: Add64_carry algebra_simps)
qed simp

lemma txBalance_complete:
  assumes "tx_txType tx = NormalTxType" "\<forall>i \<in> set (tx_inputs tx). in_amount i \<noteq> 0"
    and "\<forall>out \<in> set (tx_outputs tx). out_amount out \<noteq> 0"
    and bal: "(\<Sum>i\<leftarrow>tx_inputs tx. unat (in_amount i)) = (\<Sum>out\<leftarrow>tx_outputs tx. unat (out_amount out)) + unat (tx_fee tx)"
    and fits: "(\<Sum>i\<leftarrow>tx_inputs tx. unat (in_amount i)) < 2 ^ 64"
  shows "txBalance cv tx = None"
proof -
  have i: "unat (sum_list (map in_amount (tx_inputs tx))) = (\<Sum>i\<leftarrow>tx_inputs tx. unat (in_amount i))"
    and o': "unat (sum_list (map out_amount (tx_outputs tx))) = (\<Sum>out\<leftarrow>tx_outputs tx. unat (out_amount out))"
    by (rule unat_sum_list_le, use fits bal in simp)+
  have "sum_list (map in_amount (tx_inputs tx)) = sum_list (map out_amount (tx_outputs tx)) + tx_fee tx"
    using i o' bal fits by (simp add: word_unat_eq_iff unat_add64)
  then show ?thesis
    using assms inputs_balance_complete [of "tx_txType tx" "tx_inputs tx" 0 cv]
      outputs_balance_complete [of "tx_txType tx" "tx_outputs tx" 0 cv 0] o'
    by (simp add: txBalance_def Add64_carry)
qed

lemma TxHash_hash_ok: "TxHash c tx = Inr h \<Longrightarrow> hash_ok h"
  by (auto simp: TxHash_def Let_def split: sum.splits)

lemma built_tx_valid:
  assumes laws: "secp_laws (cv_crypto cv)"
    and built: "NewPbTransaction (cv_crypto cv) now opts (Some k) = Inr pb"
    and owner: "\<forall>i \<in> set (op_Inputs opts). ti_Address i = PubkeyToAddress (cv_crypto cv) (pubkey_of (cv_crypto cv) k)"
    and kind: "op_Type opts = NormalTxType" and fee: "\<not> op_Fee opts < cc_MinFee (cv_cfg cv)"
    and size: "op_Inputs opts \<noteq> []" "op_Outputs opts \<noteq> []" "length (op_Inputs opts) \<le> 2000" "length (op_Outputs opts) \<le> 2000"
    and pos: "\<forall>i \<in> set (op_Inputs opts). ti_Amount i \<noteq> 0" "\<forall>out \<in> set (op_Outputs opts). to_Amount out \<noteq> 0"
    and bal: "(\<Sum>i\<leftarrow>op_Inputs opts. unat (ti_Amount i)) = (\<Sum>out\<leftarrow>op_Outputs opts. unat (to_Amount out)) + unat (GetRealFee pb)"
    and fits: "(\<Sum>i\<leftarrow>op_Inputs opts. unat (ti_Amount i)) < 2 ^ 64"
  shows "ValidateTransactionStruct cv (NewTransaction pb) = None"
proof -
  note F = NewPbTransaction_fields [OF built]
  have "hash_ok (pt_Hash pb)" by (rule TxHash_hash_ok [OF F(7)])
  then have h: "checkHash cv (NewTransaction pb) = None" using F(7) by (simp add: checkHash_def)
  obtain i ins where i: "op_Inputs opts = i # ins" using size(1) by (cases "op_Inputs opts") auto
  have sig: "TxSigner_Verify (cv_crypto cv) pb = None"
    using NewPbTransaction_signed [OF laws built i] owner i by simp
  have "txBalance cv (NewTransaction pb) = None"
    using F kind pos bal fits by (intro txBalance_complete) (simp_all add: comp_def)
  moreover have "tx_from (NewTransaction pb) = in_address x" if "x \<in> set (tx_inputs (NewTransaction pb))" for x
    using that F(5) i owner by (auto simp: NewTransaction_def Let_def inputSlice_def)
  ultimately show ?thesis
    using F h sig kind fee size
    by (auto simp: ValidateTransactionStruct_def validateTxStructBase_def IsStandardTx_def)
qed

subsection \<open>Properties of the validator\<close>

text \<open>
  C35. A transaction that passes \<open>ValidateTransactionStruct\<close> balances in the integers, without any wrap-around:
  the sum of its inputs is the sum of its outputs plus its fee. It has inputs and outputs, none of amount zero, at
  most 2000 of each; all inputs belong to the sender; its hash is the computed one and its signature verifies.
\<close>

theorem accepted_tx_exact:
  assumes "ValidateTransactionStruct cv tx = None"
  shows "(\<Sum>i\<leftarrow>tx_inputs tx. unat (in_amount i)) = (\<Sum>out\<leftarrow>tx_outputs tx. unat (out_amount out)) + unat (tx_fee tx)
    \<and> list_all (\<lambda>i. in_amount i \<noteq> 0 \<and> in_address i = tx_from tx) (tx_inputs tx)
    \<and> list_all (\<lambda>out. out_amount out \<noteq> 0) (tx_outputs tx)
    \<and> 0 < length (tx_inputs tx) \<and> length (tx_inputs tx) \<le> 2000
    \<and> 0 < length (tx_outputs tx) \<and> length (tx_outputs tx) \<le> 2000
    \<and> TxHash (cv_crypto cv) (tx_tx tx) = Inr (tx_hash tx) \<and> TxSigner_Verify (cv_crypto cv) (tx_tx tx) = None"
proof -
  have b: "txBalance cv tx = None"
    using assms by (simp add: validateTxStructBase_balance ValidateTransactionStruct_base)
  have std: "tx_txType tx \<noteq> CollapseTxType" "tx_txType tx \<noteq> ValidatorsUnstakeTxType"
    using assms by (auto simp: ValidateTransactionStruct_def IsStandardTx_def)
  show ?thesis
    using txBalance_exact [OF b] assms std
    by (auto simp: ValidateTransactionStruct_def validateTxStructBase_def checkHash_def list_all_iff split: sum.splits)
qed

definition demo_cv :: CryspValidator where
  "demo_cv = \<lparr>cv_bc = chain_reader demo_env (\<lambda>_. None) (NewService NewKVStore NewStore), cv_stakeValidator = demo_pool,
     cv_cfg = validatorConfig demo_cfg, cv_params = demo_cfg, cv_crypto = demo_crypto\<rparr>"

text \<open>A transaction of the key \<open>[7]\<close> with one input of \<open>249 + 10\<close> and one output of 10; its size is 249 bytes.\<close>

definition demo_key_addr :: bytes where
  "demo_key_addr = PubkeyToAddress demo_crypto (pubkey_of demo_crypto [7])"

definition demo_opts :: TxOptions where
  "demo_opts = \<lparr>op_Inputs = [\<lparr>ti_Hash = replicate 32 2, ti_Index = 0, ti_Address = demo_key_addr, ti_Amount = 259, ti_Node = []\<rparr>],
     op_Outputs = [NewOutput (replicate 20 6) 10 []], op_Fee = 1, op_Data = [], op_Num = 1, op_Type = NormalTxType,
     op_Timestamp = 5\<rparr>"

definition demo_signed :: PbTransaction where
  "demo_signed = (case NewPbTransaction demo_crypto 0 demo_opts (Some [7]) of Inr tx \<Rightarrow> tx | Inl e \<Rightarrow> demo_tx 0)"

lemma demo_signed_built: "NewPbTransaction demo_crypto 0 demo_opts (Some [7]) = Inr demo_signed"
proof -
  have "\<exists>tx. NewPbTransaction demo_crypto 0 demo_opts (Some [7]) = Inr tx"
    by (rule NewPbTransaction_built(1) [OF demo_sha_ok])
      (simp_all add: demo_opts_def out_sizes_def in_sizes_def NewOutput_def demo_key_addr_def PubkeyToAddress_def BytesToAddress_def demo_crypto_def)
  then show ?thesis by (auto simp: demo_signed_def)
qed

lemma demo_signed_valid: "ValidateTransactionStruct demo_cv (NewTransaction demo_signed) = None"
proof (rule built_tx_valid)
  show "NewPbTransaction (cv_crypto demo_cv) 0 demo_opts (Some [7]) = Inr demo_signed"
    by (simp add: demo_cv_def demo_signed_built)
  show "secp_laws (cv_crypto demo_cv)" by (simp add: demo_cv_def demo_crypto_laws)
  have "pt_Inputs demo_signed = op_Inputs demo_opts" "pt_Outputs demo_signed = op_Outputs demo_opts"
    "pt_Data demo_signed = []" "pt_Fee demo_signed = 1"
    using NewPbTransaction_fields [OF demo_signed_built] by (simp_all add: demo_opts_def)
  then have "GetRealFee demo_signed = 249"
    by (simp add: GetRealFee_def Tx_SizeSSZ_def demo_opts_def TxInput_SizeSSZ_def TxOutput_SizeSSZ_def NewOutput_def)
  then show "(\<Sum>i\<leftarrow>op_Inputs demo_opts. unat (ti_Amount i)) =
      (\<Sum>out\<leftarrow>op_Outputs demo_opts. unat (to_Amount out)) + unat (GetRealFee demo_signed)"
    by (simp add: demo_opts_def NewOutput_def)
qed (simp_all add: demo_cv_def demo_opts_def demo_key_addr_def NewOutput_def validatorConfig_def demo_cfg_def)

theorem accepted_tx_exact_witness:
  "ValidateTransactionStruct demo_cv (NewTransaction demo_signed) = None
   \<and> (\<Sum>i\<leftarrow>tx_inputs (NewTransaction demo_signed). unat (in_amount i)) =
     (\<Sum>out\<leftarrow>tx_outputs (NewTransaction demo_signed). unat (out_amount out)) + unat (tx_fee (NewTransaction demo_signed))"
proof
  show v: "ValidateTransactionStruct demo_cv (NewTransaction demo_signed) = None" by (rule demo_signed_valid)
  show "(\<Sum>i\<leftarrow>tx_inputs (NewTransaction demo_signed). unat (in_amount i)) =
     (\<Sum>out\<leftarrow>tx_outputs (NewTransaction demo_signed). unat (out_amount out)) + unat (tx_fee (NewTransaction demo_signed))"
    using accepted_tx_exact [OF v] by blast
qed

text \<open>
  A transaction that the node builds with \<open>NewPbTransaction\<close> and signs with the key that owns its inputs
  passes \<open>ValidateTransactionStruct\<close>, when its amounts are positive, balance with the fee and fit into 64 bits.
\<close>

theorem built_tx_accepted:
  assumes "secp_laws (cv_crypto cv)"
    and "NewPbTransaction (cv_crypto cv) now opts (Some k) = Inr pb"
    and "\<forall>i \<in> set (op_Inputs opts). ti_Address i = PubkeyToAddress (cv_crypto cv) (pubkey_of (cv_crypto cv) k)"
    and "op_Type opts = NormalTxType" "\<not> op_Fee opts < cc_MinFee (cv_cfg cv)"
    and "op_Inputs opts \<noteq> []" "op_Outputs opts \<noteq> []" "length (op_Inputs opts) \<le> 2000" "length (op_Outputs opts) \<le> 2000"
    and "\<forall>i \<in> set (op_Inputs opts). ti_Amount i \<noteq> 0" "\<forall>out \<in> set (op_Outputs opts). to_Amount out \<noteq> 0"
    and "(\<Sum>i\<leftarrow>op_Inputs opts. unat (ti_Amount i)) = (\<Sum>out\<leftarrow>op_Outputs opts. unat (to_Amount out)) + unat (GetRealFee pb)"
    and "(\<Sum>i\<leftarrow>op_Inputs opts. unat (ti_Amount i)) < 2 ^ 64"
  shows "ValidateTransactionStruct cv (NewTransaction pb) = None"
  by (rule built_tx_valid [OF assms])

theorem built_tx_accepted_witness:
  "ValidateTransactionStruct demo_cv (NewTransaction demo_signed) = None"
proof (rule built_tx_accepted)
  show "NewPbTransaction (cv_crypto demo_cv) 0 demo_opts (Some [7]) = Inr demo_signed"
    by (simp add: demo_cv_def demo_signed_built)
  show "secp_laws (cv_crypto demo_cv)" by (simp add: demo_cv_def demo_crypto_laws)
  have "pt_Inputs demo_signed = op_Inputs demo_opts" "pt_Outputs demo_signed = op_Outputs demo_opts"
    "pt_Data demo_signed = []" "pt_Fee demo_signed = 1"
    using NewPbTransaction_fields [OF demo_signed_built] by (simp_all add: demo_opts_def)
  then have "GetRealFee demo_signed = 249"
    by (simp add: GetRealFee_def Tx_SizeSSZ_def demo_opts_def TxInput_SizeSSZ_def TxOutput_SizeSSZ_def NewOutput_def)
  then show "(\<Sum>i\<leftarrow>op_Inputs demo_opts. unat (ti_Amount i)) =
      (\<Sum>out\<leftarrow>op_Outputs demo_opts. unat (to_Amount out)) + unat (GetRealFee demo_signed)"
    by (simp add: demo_opts_def NewOutput_def)
qed (simp_all add: demo_cv_def demo_opts_def demo_key_addr_def NewOutput_def validatorConfig_def demo_cfg_def)

text \<open>
  C34. A transaction that passes \<open>ValidateTransaction\<close> against the chain's own tables spends distinct outputs,
  each of which is stored in the table with the amount and the node that the input states, and belongs to the sender of the transaction
  (the address of its first input; theorem \<open>accepted_tx_exact\<close> says that the other inputs state the same address and that it has signed).
  Outputs that are locked in a stake are spent only by transactions that withdraw a stake, and these spend no others.
\<close>

theorem accepted_tx_spends_existing:
  assumes "ValidateTransaction cv tx = None" "cv_bc cv = chain_reader ev q s"
    and "table_wf (ds_table (om_db (sv_outm s)))"
  shows "distinct (map (\<lambda>i. (in_hash i, in_index i)) (tx_inputs tx))
    \<and> list_all (\<lambda>i. \<exists>r \<in> set (ds_table (om_db (sv_outm s))). row_key r = (Hash_Hex (in_hash i), in_index i)
        \<and> rw_address_to r = Address_Hex (tx_from tx) \<and> rw_amount r = in_amount i \<and> rw_address_node r = Address_Hex (in_node i)
        \<and> (in_node i = [] \<longleftrightarrow> tx_txType tx \<noteq> UnstakeTxType)) (tx_inputs tx)"
proof
  let ?t = "ds_table (om_db (sv_outm s))"
  let ?P = "\<lambda>i r. row_key r = (Hash_Hex (in_hash i), in_index i) \<and> rw_address_to r = Address_Hex (tx_from tx)
    \<and> rw_amount r = in_amount i \<and> rw_address_node r = Address_Hex (in_node i) \<and> (in_node i = [] \<longleftrightarrow> tx_txType tx \<noteq> UnstakeTxType)"
  have rw: "rows_wf ?t" using assms(3) by (simp add: table_wf_def)
  obtain m sp where "checkInputsData m [] (tx_inputs tx) = Inr sp"
    using assms(1) by (auto simp: ValidateTransaction_def validateUnstakeTx_def validateTxInputs_def split: if_splits sum.splits)
  then have "distinct (map GenKeyFromInput (tx_inputs tx))" using checkInputsData_ok by blast
  then show "distinct (map (\<lambda>i. (in_hash i, in_index i)) (tx_inputs tx))"
    by (simp add: distinct_map inj_on_def GenKeyFromInput_inj)
  have "\<exists>r \<in> set ?t. ?P i r" if i: "i \<in> set (tx_inputs tx)" for i
  proof -
    obtain u where u: "chain_utxo ?t (in_hash i, in_index i) = Some u" "uo_Amount u = in_amount i" "uo_Node u = in_node i" "sender_owns tx u"
      using chain.ValidateTransaction_owned [OF assms(3,2,1)] i by blast
    then obtain r where r: "r \<in> set ?t" "row_key r = (Hash_Hex (in_hash i), in_index i)" "scanRow r = u"
      using chain_utxo_Some assms(3) by (fastforce simp: table_wf_def)
    then have "?P i r" using u row_fields [OF rw r(1)] by (simp add: sender_owns_def)
    then show ?thesis using r(1) by blast
  qed
  then show "list_all (\<lambda>i. \<exists>r \<in> set ?t. ?P i r) (tx_inputs tx)" by (simp add: list_all_iff)
qed

definition demo_service :: Service where
  "demo_service = (NewService NewKVStore NewStore)\<lparr>sv_outm := demo_om\<rparr>"

definition demo_cv2 :: CryspValidator where
  "demo_cv2 = demo_cv\<lparr>cv_bc := chain_reader demo_env (\<lambda>_. None) demo_service\<rparr>"

theorem accepted_tx_spends_existing_witness:
  "ValidateTransaction demo_cv2 (NewTransaction (demo_tx 1)) = None
   \<and> list_all (\<lambda>i. \<exists>r \<in> set (ds_table (om_db (sv_outm demo_service))). row_key r = (Hash_Hex (in_hash i), in_index i)
        \<and> rw_address_to r = Address_Hex (tx_from (NewTransaction (demo_tx 1))) \<and> rw_amount r = in_amount i \<and> rw_address_node r = Address_Hex (in_node i)
        \<and> (in_node i = [] \<longleftrightarrow> tx_txType (NewTransaction (demo_tx 1)) \<noteq> UnstakeTxType)) (tx_inputs (NewTransaction (demo_tx 1)))"
proof
  show v: "ValidateTransaction demo_cv2 (NewTransaction (demo_tx 1)) = None" by code_simp
  have b: "cv_bc demo_cv2 = chain_reader demo_env (\<lambda>_. None) demo_service" by (simp add: demo_cv2_def)
  have w: "table_wf (ds_table (om_db (sv_outm demo_service)))" by code_simp
  show "list_all (\<lambda>i. \<exists>r \<in> set (ds_table (om_db (sv_outm demo_service))). row_key r = (Hash_Hex (in_hash i), in_index i)
        \<and> rw_address_to r = Address_Hex (tx_from (NewTransaction (demo_tx 1))) \<and> rw_amount r = in_amount i \<and> rw_address_node r = Address_Hex (in_node i)
        \<and> (in_node i = [] \<longleftrightarrow> tx_txType (NewTransaction (demo_tx 1)) \<noteq> UnstakeTxType)) (tx_inputs (NewTransaction (demo_tx 1)))"
    using accepted_tx_spends_existing [OF v b w] by (rule conjunct2)
qed

text \<open>
  An accepted collapse transaction without a fee moves nothing between addresses: for every address the sum of
  its outputs is the sum of its inputs, in the integers. (The validator does not demand that the fee is zero.)
\<close>

theorem collapse_keeps_balances:
  assumes "validateCollapseTx cv tx b = None" "tx_fee tx = 0"
  shows "outs_sum (tx_outputs tx) addr = in_sum (tx_inputs tx) addr"
proof -
  obtain ab where "addr_balance [] (tx_inputs tx) = Inr ab" "collapse_outputs ab [] (tx_outputs tx) = None"
    using validateCollapseTx_parts(1) [OF assms(1)] by blast
  then show ?thesis
    using txBalance_exact [OF validateCollapseTx_parts(2) [OF assms(1)]] assms(2)
    by (intro collapse_balances) simp_all
qed

text \<open>A collapse of two outputs of address 5 that is used as an example, and the tables that hold them.\<close>

definition demo_collapse :: "uint64 \<Rightarrow> TxInput list \<Rightarrow> TxOutput list \<Rightarrow> PbTransaction" where
  "demo_collapse fee ins outs = \<lparr>pt_Num = 1, pt_Type = CollapseTxType, pt_Timestamp = 1, pt_Hash = replicate 32 9, pt_Fee = fee,
     pt_Data = [], pt_Inputs = ins, pt_Outputs = outs, pt_Signature = [], pt_Status = 0\<rparr>"

definition demo_in :: "byte \<Rightarrow> byte \<Rightarrow> uint64 \<Rightarrow> TxInput" where
  "demo_in h a amount = \<lparr>ti_Hash = replicate 32 h, ti_Index = 0, ti_Address = replicate 20 a, ti_Amount = amount, ti_Node = []\<rparr>"

definition demo_reader :: "(byte \<times> byte \<times> uint64) list \<Rightarrow> CryspValidator" where
  "demo_reader rows = demo_cv\<lparr>cv_bc := chain_reader demo_env (\<lambda>_. None) ((NewService NewKVStore NewStore)\<lparr>sv_outm :=
     NewOutputManager (NewStore\<lparr>ds_table := map (\<lambda>(h, a, amount). ToInsertQuery (NewUTxO 9 (replicate 32 h) []
       (replicate 20 a) [] 0 amount 0 1 7)) rows\<rparr>)\<rparr>)\<rparr>"

theorem collapse_keeps_balances_witness:
  "let tx = NewTransaction (demo_collapse 0 [demo_in 1 5 4, demo_in 2 5 6] [NewOutput (replicate 20 5) 10 []]) in
   validateCollapseTx (demo_reader [(1, 5, 4), (2, 5, 6)]) tx (demo_block 1) = None
   \<and> outs_sum (tx_outputs tx) (Address_Hex (replicate 20 5)) = in_sum (tx_inputs tx) (Address_Hex (replicate 20 5))"
proof -
  define tx where "tx = NewTransaction (demo_collapse 0 [demo_in 1 5 4, demo_in 2 5 6] [NewOutput (replicate 20 5) 10 []])"
  have z: "tx_fee tx = 0" by (simp add: tx_def GetRealFee_def demo_collapse_def)
  have "length (tx_inputs tx) = 2" "length (tx_outputs tx) = 1" by (simp_all add: tx_def demo_collapse_def)
  moreover have "txBalance (demo_reader [(1, 5, 4), (2, 5, 6)]) tx = None"
    using z by (simp add: txBalance_def) (simp add: tx_def demo_collapse_def demo_in_def NewOutput_def Add64_def)
  ultimately have s: "validateTxStructBase (demo_reader [(1, 5, 4), (2, 5, 6)]) tx = None"
    by (auto simp: validateTxStructBase_def) (simp_all add: tx_def demo_collapse_def)
  define ins outs where "ins = [newInput (demo_in 1 5 4), newInput (demo_in 2 5 6)]"
    and "outs = [newOutput (NewOutput (replicate 20 5) 10 [])]"
  define a where "a = Address_Hex (replicate 20 5)"
  define m where "m = map (\<lambda>i. (GenKeyFromInput i, i)) ins"
  have io: "tx_inputs tx = ins" "tx_outputs tx = outs" "tx_num tx = bk_Num (demo_block 1)"
    by (simp_all add: tx_def demo_collapse_def ins_def outs_def demo_block_def)
  have p: "addr_balance [] ins = Inr [(a, 10)]" "collapse_outputs [(a, 10)] [] outs = None"
    "checkInputsData m [] ins = Inr (rev (map fst m))"
    "collapse_spent (demo_reader [(1, 5, 4), (2, 5, 6)]) (Address_Hex (in_address (last ins)))
       (map GenKeyFromInput (filter (\<lambda>i. in_address i = in_address (last ins)) ins)) [a] [] = Inr m"
    unfolding ins_def outs_def a_def m_def by code_simp+
  have v: "validateCollapseTx (demo_reader [(1, 5, 4), (2, 5, 6)]) tx (demo_block 1) = None"
    by (auto simp: validateCollapseTx_def s io p Let_def
      simp del: collapse_spent.simps checkInputsData.simps addr_balance.simps collapse_outputs.simps) force
  show ?thesis using collapse_keeps_balances [OF v z] v by (simp add: tx_def Let_def)
qed

end
