(* ===== verification/Chain_Growth.thy ===== *)
theory Chain_Growth
  imports Validator
begin

text \<open>
  The chain that the validator and the chain service build together.  \<open>chain_of\<close> says that a block chain stores
  exactly a list of consecutively numbered blocks with distinct hashes, by number and by hash; \<open>linked\<close> that every block of the list
  names its predecessor as its parent and has a later timestamp.  A fresh database with a genesis block represents
  the list of that block, and a block that passes \<open>ValidateBlock\<close> and is finalized extends the list by itself: no
  accepted block forks the stored chain, skips a number or replaces a block.
\<close>

subsection \<open>The stored chain as a list\<close>

fun linked :: "Block list \<Rightarrow> bool" where
  "linked (a # b # bs) \<longleftrightarrow> bk_Parent b = bk_Hash a \<and> bk_Timestamp a < bk_Timestamp b \<and> linked (b # bs)"
| "linked _ \<longleftrightarrow> True"

lemma linked_snoc:
  "linked (bs @ [b]) \<longleftrightarrow> (bs \<noteq> [] \<longrightarrow> linked bs \<and> bk_Parent b = bk_Hash (last bs) \<and> bk_Timestamp (last bs) < bk_Timestamp b)"
  by (induction bs rule: linked.induct) auto

definition by_hash :: "Block list \<Rightarrow> bytes \<Rightarrow> Block option" where
  "by_hash bs h = map_of (map (\<lambda>p. (bk_Hash p, p)) bs) h"

lemma by_hash_Some: "by_hash bs h = Some p \<Longrightarrow> p \<in> set bs \<and> bk_Hash p = h"
  by (auto simp: by_hash_def dest: map_of_SomeD)

lemma by_hash_None: "by_hash bs h = None \<longleftrightarrow> h \<notin> bk_Hash ` set bs"
  by (simp add: by_hash_def map_of_eq_None_iff image_image)

lemma by_hash_mem: "distinct (map bk_Hash bs) \<Longrightarrow> p \<in> set bs \<Longrightarrow> by_hash bs (bk_Hash p) = Some p"
  by (simp add: by_hash_def comp_def)

lemma by_hash_snoc: "h \<noteq> bk_Hash b \<Longrightarrow> by_hash (bs @ [b]) h = by_hash bs h"
  "bk_Hash b \<notin> bk_Hash ` set bs \<Longrightarrow> by_hash (bs @ [b]) (bk_Hash b) = Some b"
  using by_hash_None [of bs "bk_Hash b"] by (auto simp: by_hash_def map_add_def split: option.split)

definition chain_of :: "env \<Rightarrow> BlockChain \<Rightarrow> Block list \<Rightarrow> bool" where
  "chain_of ev bc bs \<longleftrightarrow> Suc (unat (bc_headBlockNum bc)) = length bs \<and> linked bs
    \<and> bc_futureBlockNum bc = bc_headBlockNum bc + 1 \<and> bc_prevHash bc = bk_Hash (last bs)
    \<and> bc_genesisBlock bc = Some (hd bs) \<and> bc_genesisHash bc = bk_Hash (hd bs)
    \<and> (\<forall>n < length bs. bk_Num (bs ! n) = word_of_nat n \<and> GetBlockByNum ev bc (word_of_nat n) = Inr (Some (bs ! n)))
    \<and> distinct (map bk_Hash bs) \<and> (\<forall>h. GetBlockByHash ev bc h = Inr (by_hash bs h))
    \<and> (\<forall>n h. h \<notin> bk_Hash ` set bs \<longrightarrow> Get BlocksBucket (genBlockKey n h) (bc_db bc) = None)"

lemma chain_ofD:
  assumes "chain_of ev bc bs"
  shows "length bs = Suc (unat (bc_headBlockNum bc))" "bs \<noteq> []" "linked bs" "bc_genesisBlock bc = Some (hd bs)"
    "bc_prevHash bc = bk_Hash (last bs)" "bc_genesisHash bc = bk_Hash (hd bs)"
    "n < length bs \<Longrightarrow> bk_Num (bs ! n) = word_of_nat n"
    "n < length bs \<Longrightarrow> GetBlockByNum ev bc (word_of_nat n) = Inr (Some (bs ! n))"
    "GetBlockByHash ev bc h = Inr (Some p) \<Longrightarrow> p \<in> set bs \<and> bk_Hash p = h"
    "bc_futureBlockNum bc = bc_headBlockNum bc + 1" "distinct (map bk_Hash bs)" "GetBlockByHash ev bc h = Inr (by_hash bs h)"
    "h \<notin> bk_Hash ` set bs \<Longrightarrow> Get BlocksBucket (genBlockKey num h) (bc_db bc) = None"
  using assms by_hash_Some [of bs h p] by (auto simp: chain_of_def)

lemma chain_of_num:
  assumes "chain_of ev bc bs" "num \<le> bc_headBlockNum bc"
  shows "GetBlockByNum ev bc num = Inr (Some (bs ! unat num))"
proof -
  have "unat num < length bs" using assms chain_ofD(1) [OF assms(1)] by (simp add: word_le_nat_alt)
  then show ?thesis using chain_ofD(8) [OF assms(1), of "unat num"] by simp
qed

lemma chain_of_last:
  assumes "chain_of ev bc bs" "p \<in> set bs" "bk_Num p = bc_headBlockNum bc"
  shows "p = last bs"
proof -
  obtain n where n: "n < length bs" "p = bs ! n" using assms(2) by (metis in_set_conv_nth)
  have "n < 2 ^ 64" using n chain_ofD(1) [OF assms(1)] unat64_less [of "bc_headBlockNum bc"] by simp
  then have "unat (bk_Num p) = n" using chain_ofD(7) [OF assms(1) n(1)] n(2) by (simp add: unat_of_nat)
  then show ?thesis using n assms(3) chain_ofD(1,2) [OF assms(1)] by (simp add: last_conv_nth)
qed

lemma chain_of_num_le:
  assumes "chain_of ev bc bs" "p \<in> set bs"
  shows "bk_Num p \<le> bc_headBlockNum bc"
proof -
  obtain n where n: "n < length bs" "p = bs ! n" using assms(2) by (metis in_set_conv_nth)
  have "n < 2 ^ 64" using n chain_ofD(1) [OF assms(1)] unat64_less [of "bc_headBlockNum bc"] by simp
  then show ?thesis
    using chain_ofD(7) [OF assms(1) n(1)] n chain_ofD(1) [OF assms(1)] by (simp add: word_le_nat_alt unat_of_nat)
qed

subsection \<open>Saving a block\<close>

lemma WriteBlock_reads:
  assumes c: "codec_ok cd" and w: "WriteBlock cd io b s = (s', None)"
  shows "GetBlock cd n h s' = (if n = bk_Num b \<and> h = bk_Hash b then Inr (Some b) else GetBlock cd n h s)"
    "GetBlockHash n s' = (if n = bk_Num b then Some (bk_Hash b) else GetBlockHash n s)"
    "GetBlockNum h s' = (if h = bk_Hash b then Inr (bk_Num b) else GetBlockNum h s)"
proof -
  obtain data where d: "MarshalBlock cd (Some b) = Inr data"
    and g: "\<And>k. Get BlocksBucket k s' = (if k = genBlockKey (bk_Num b) (bk_Hash b) then Some data else Get BlocksBucket k s)"
      "\<And>k. Get BlocksNumBucket k s' = (if k = genNumKey (bk_Hash b) then Some (MarshalUint64 [] (bk_Num b)) else Get BlocksNumBucket k s)"
      "\<And>k. Get BlocksHashBucket k s' = (if k = genHashKey (bk_Num b) then Some (bk_Hash b) else Get BlocksHashBucket k s)"
    using WriteBlock_ok [OF w] by auto
  show "GetBlock cd n h s' = (if n = bk_Num b \<and> h = bk_Hash b then Inr (Some b) else GetBlock cd n h s)"
    by (simp add: GetBlock_def g UnmarshalBlock_Marshal [OF c d])
  show "GetBlockHash n s' = (if n = bk_Num b then Some (bk_Hash b) else GetBlockHash n s)"
    by (simp add: GetBlockHash_def g)
  show "GetBlockNum h s' = (if h = bk_Hash b then Inr (bk_Num b) else GetBlockNum h s)"
    by (simp add: GetBlockNum_def g)
qed

lemma SaveBlock_by:
  assumes s: "SaveBlock ev bc b = (bc', None)" and c: "codec_ok (ev_codec ev)"
  shows "kv_GetBlockByNum (ev_codec ev) n (bc_db bc') =
      (if n = bk_Num b then Inr (Some b) else kv_GetBlockByNum (ev_codec ev) n (bc_db bc))"
    and "kv_GetBlockByHash (ev_codec ev) h (bc_db bc') =
      (if h = bk_Hash b then Inr (Some b) else kv_GetBlockByHash (ev_codec ev) h (bc_db bc))"
proof -
  define db where "db = fst (WriteBlock (ev_codec ev) (ev_kvio ev) b (bc_db bc))"
  have w: "WriteBlock (ev_codec ev) (ev_kvio ev) b (bc_db bc) = (db, None)"
    using SaveBlock_ok(1) [OF s] by (auto simp: db_def)
  note G = SaveBlock_GetBlock [OF s, folded db_def] WriteBlock_reads [OF c w]
  show "kv_GetBlockByNum (ev_codec ev) n (bc_db bc') =
      (if n = bk_Num b then Inr (Some b) else kv_GetBlockByNum (ev_codec ev) n (bc_db bc))"
    by (simp add: kv_GetBlockByNum_def G split: option.split)
  show "kv_GetBlockByHash (ev_codec ev) h (bc_db bc') =
      (if h = bk_Hash b then Inr (Some b) else kv_GetBlockByHash (ev_codec ev) h (bc_db bc))"
    by (simp add: kv_GetBlockByHash_def G split: sum.split)
qed

lemma chain_of_extend:
  assumes inv: "chain_of ev bc bs" and s: "SaveBlock ev bc b = (bc', None)" and c: "codec_ok (ev_codec ev)"
    and b: "bk_Num b = bc_headBlockNum bc + 1" "bk_Num b \<noteq> 0" "bk_Hash b \<notin> bk_Hash ` set bs"
      "bk_Parent b = bc_prevHash bc" "bk_Timestamp (last bs) < bk_Timestamp b"
  shows "chain_of ev bc' (bs @ [b])"
proof -
  note I = chain_ofD [OF inv] and F = SaveBlock_ok(2-7) [OF s]
  have lt: "bc_headBlockNum bc < bc_headBlockNum bc + 1" using b(1,2) by (intro less_plus_one) simp
  then have u: "unat (bc_headBlockNum bc + 1) = length bs"
    using I(1) b(1,2) unatSuc [of "bc_headBlockNum bc"] by (simp add: add.commute)
  have num: "GetBlockByNum ev bc' (word_of_nat n) = Inr (Some ((bs @ [b]) ! n))" if n: "n < length bs" for n
  proof -
    have n64: "unat (word_of_nat n :: uint64) = n"
      using n I(1) unat64_less [of "bc_headBlockNum bc"] by (simp add: unat_of_nat)
    then have "word_of_nat n \<noteq> bk_Num b" using n u b(1) by (auto dest: arg_cong [where f = unat])
    moreover have "word_of_nat n \<le> bc_headBlockNum bc" using n n64 I(1) by (simp add: word_le_nat_alt)
    ultimately show ?thesis
      using I(8) [OF n] SaveBlock_by(1) [OF s c, of "word_of_nat n"] F lt n
      by (auto simp: GetBlockByNum_def GetGenesis_def GetHeadBlockNum_def nth_append split: if_splits)
  qed
  have last: "GetBlockByNum ev bc' (word_of_nat (length bs)) = Inr (Some b)" "word_of_nat (length bs) = bk_Num b"
  proof -
    show e: "word_of_nat (length bs) = bk_Num b" by (simp add: b(1) u [symmetric])
    show "GetBlockByNum ev bc' (word_of_nat (length bs)) = Inr (Some b)"
      using SaveBlock_by(1) [OF s c, of "bk_Num b"] F b e by (simp add: GetBlockByNum_def GetHeadBlockNum_def)
  qed
  have nums: "bk_Num ((bs @ [b]) ! n) = word_of_nat n \<and> GetBlockByNum ev bc' (word_of_nat n) = Inr (Some ((bs @ [b]) ! n))"
    if "n < length (bs @ [b])" for n
    using that num [of n] last I(7) [of n] by (cases "n < length bs") (auto simp: nth_append less_Suc_eq)
  have ne: "bk_Hash b \<noteq> bc_genesisHash bc" using I(2,6) b(3) by auto
  have hash: "GetBlockByHash ev bc' h = Inr (by_hash (bs @ [b]) h)" for h
    using I(12) [of h] SaveBlock_by(2) [OF s c, of h] F ne by_hash_snoc(1) [of h b bs] by_hash_snoc(2) [OF b(3)]
    by (cases "h = bk_Hash b") (simp_all add: GetBlockByHash_def GetGenesis_def split: if_splits)
  have db: "Get BlocksBucket (genBlockKey n h) (bc_db bc') = None" if "h \<notin> bk_Hash ` set (bs @ [b])" for n h
  proof -
    obtain db e where "WriteBlock (ev_codec ev) (ev_kvio ev) b (bc_db bc) = (db, e)" by fastforce
    moreover have "e = None" using SaveBlock_ok(1) [OF s] calculation by auto
    ultimately show ?thesis
      using that I(13) [of h n] SaveBlock_reads [OF s, of BlocksBucket "genBlockKey n h"] WriteBlock_ok [of "ev_codec ev" "ev_kvio ev" b "bc_db bc" db] by auto
  qed
  show ?thesis
    unfolding chain_of_def
    using I(1-7,10,11) db F u b nums hash linked_snoc [of bs b] by (auto simp: hd_append)
qed

subsection \<open>An accepted block follows the head\<close>

lemma validateBlockBase_ok:
  assumes "validateBlockBase cv now b cs = None"
  shows "checkBlockBalance b = None" "validateBlockHeader cv now b = None" "checkKnown cv b = None" "checkParent cv b = None"
    "verifyBlockSign cv b (bk_Proposer b) = None" "cs \<Longrightarrow> checkVotes cv b = None"
    "getTransactionsSize b \<le> cc_BlockSize (cv_cfg cv)"
    "BlockHash (cv_crypto cv) (bk_Num b) (bk_Slot b) (bk_Version b) (bk_Parent b) (bk_Txroot b) (bk_Timestamp b)
       (sg_Address (bk_Proposer b)) = bk_Hash b"
  using assms by (auto simp: validateBlockBase_def not_less)

lemma not_forged_error: "errors_Is ErrNotForgedBlock ErrNotForgedBlock"
  by (simp add: ErrNotForgedBlock_def)

lemma word_successor:
  fixes n h :: uint64
  assumes "h < n" "\<not> n - 1 > h"
  shows "n = h + 1"
proof -
  have "1 \<le> n" using assms(1) by (simp add: word_le_nat_alt word_less_nat_alt)
  then have "unat (n - 1) = unat n - 1" by (simp add: unat_sub)
  then have "unat n = unat h + 1" using assms by (simp add: word_less_nat_alt)
  moreover have "unat (h + 1) = unat h + 1" using calculation unat64_less [of n] by (simp add: unat_add64)
  ultimately show ?thesis by (simp add: word_unat_eq_iff)
qed

lemma word_predecessor:
  fixes n p h :: uint64
  assumes "p \<le> h" "h < n" "n = h + 1" "\<not> n - p > 1"
  shows "p = h"
proof -
  have "unat (n - p) = unat n - unat p" using assms(1,2) by (intro unat_sub) simp
  moreover have "unat n = unat h + 1"
    using assms(2,3) unatSuc [of h] word_not_simps(1) [of h] by (cases "1 + h = 0") (auto simp: add.commute)
  ultimately have "unat p = unat h" using assms(1,4) by (simp add: word_le_nat_alt word_less_nat_alt)
  then show ?thesis by (simp add: word_unat_eq_iff)
qed

lemma accepted_follows_head:
  assumes inv: "chain_of ev (sv_bc s) bs" and bc: "cv_bc cv = chain_reader ev q s"
    and known: "checkKnown cv b = None" and parent: "checkParent cv b = None"
  shows "bk_Num b = bc_headBlockNum (sv_bc s) + 1" "bk_Num b \<noteq> 0" "bk_Hash b \<notin> bk_Hash ` set bs"
    "bk_Parent b = bc_prevHash (sv_bc s)" "bk_Timestamp (last bs) < bk_Timestamp b"
proof -
  let ?bc = "sv_bc s" and ?h = "bc_headBlockNum (sv_bc s)"
  note I = chain_ofD [OF inv]
  have rd: "rd_GetBlockByNum (cv_bc cv) = GetBlockByNum ev ?bc" "rd_GetBlockByHash (cv_bc cv) = GetBlockByHash ev ?bc"
    by (simp_all add: bc chain_reader_def)
  have gt: "?h < bk_Num b"
    using known chain_of_num [OF inv, of "bk_Num b"]
    by (cases "bk_Num b \<le> ?h") (auto simp: checkKnown_def rd split: sum.splits option.splits)
  then show "bk_Num b \<noteq> 0" by auto
  have "\<not> bk_Num b - 1 > ?h"
    using parent by (auto simp: checkParent_def rd GetBlockByNum_def GetHeadBlockNum_def split: if_splits)
  then show num: "bk_Num b = ?h + 1"
    by (rule word_successor [OF gt])
  show "bk_Hash b \<notin> bk_Hash ` set bs"
    using known I(12) [of "bk_Hash b"] by (auto simp: checkKnown_def rd by_hash_None [symmetric] split: option.splits)
  obtain p where p: "GetBlockByHash ev ?bc (bk_Parent b) = Inr (Some p)" "bk_Timestamp p < bk_Timestamp b"
    "\<not> bk_Num b - bk_Num p > 1"
    using parent by (auto simp: checkParent_def rd split: sum.splits option.splits if_splits)
  have "p \<in> set bs" "bk_Hash p = bk_Parent b" using I(9) [OF p(1)] by auto
  moreover have "bk_Num p = ?h"
    by (rule word_predecessor [OF chain_of_num_le [OF inv \<open>p \<in> set bs\<close>] gt num p(3)])
  ultimately have "p = last bs" using chain_of_last [OF inv] by blast
  then show "bk_Parent b = bc_prevHash ?bc" "bk_Timestamp (last bs) < bk_Timestamp b"
    using p(2) I(5) \<open>bk_Hash p = bk_Parent b\<close> by simp_all
qed

lemma ValidateBlock_None:
  assumes "ValidateBlock cv now b cs = (b', failed, None)"
  shows "validateBlockBase cv now b cs = None"
    "\<exists>txs. b' = b\<lparr>bk_Transactions := txs\<rparr> \<and> map strip txs = map strip (bk_Transactions b)"
  using assms
  by (auto simp: ValidateBlock_def errors_Wrap_def split: option.splits prod.splits sum.splits if_splits
      dest!: verifyTransactions_strip)

lemma growth_step:
  assumes inv: "chain_of ev (sv_bc s) bs" and bc: "cv_bc cv = chain_reader ev q s" and c: "codec_ok (ev_codec ev)"
    and acc: "ValidateBlock cv now b cs = (b', failed, None)" and fin: "FinalizeBlock ev qerr s b' = (s', None)"
  shows "chain_of ev (sv_bc s') (bs @ [b'])"
proof -
  obtain txs where b': "b' = b\<lparr>bk_Transactions := txs\<rparr>" using ValidateBlock_None(2) [OF acc] by blast
  note V = validateBlockBase_ok [OF ValidateBlock_None(1) [OF acc]]
  show ?thesis
    using accepted_follows_head [OF inv bc V(3,4)]
    by (intro chain_of_extend [OF inv FinalizeBlock_ok(2) [OF fin] c]) (simp_all add: b')
qed

subsection \<open>A proper successor passes\<close>

lemma GetBlockByNum_next:
  assumes "chain_of ev bc bs" "bc_headBlockNum bc + 1 \<noteq> 0"
  shows "GetBlockByNum ev bc (bc_headBlockNum bc + 1) = Inl ErrNotForgedBlock"
proof -
  have "bc_headBlockNum bc < bc_headBlockNum bc + 1" using assms(2) by (intro less_plus_one) simp
  then show ?thesis using assms(2) by (simp add: GetBlockByNum_def GetHeadBlockNum_def)
qed

lemma successor_known:
  assumes inv: "chain_of ev (sv_bc s) bs" and bc: "cv_bc cv = chain_reader ev q s"
    and b: "bk_Num b = bc_headBlockNum (sv_bc s) + 1" "bk_Num b \<noteq> 0" "bk_Hash b \<notin> bk_Hash ` set bs"
  shows "checkKnown cv b = None"
  using GetBlockByNum_next [OF inv] chain_ofD(12) [OF inv, of "bk_Hash b"] b by_hash_None [of bs "bk_Hash b"]
  by (simp add: checkKnown_def bc chain_reader_def not_forged_error)

lemma successor_parent:
  assumes inv: "chain_of ev (sv_bc s) bs" and bc: "cv_bc cv = chain_reader ev q s"
    and b: "bk_Num b = bc_headBlockNum (sv_bc s) + 1" "bk_Parent b = bc_prevHash (sv_bc s)" "bk_Timestamp (last bs) < bk_Timestamp b"
  shows "checkParent cv b = None"
proof -
  note I = chain_ofD [OF inv]
  have "last bs \<in> set bs" using I(2) by simp
  then have h: "GetBlockByHash ev (sv_bc s) (bk_Parent b) = Inr (Some (last bs))"
    using I(12) [of "bk_Parent b"] by_hash_mem [OF I(11)] b(2) I(5) by simp
  have "bk_Num (last bs) = bc_headBlockNum (sv_bc s)"
    using I(1,2) I(7) [of "length bs - 1"] by (simp add: last_conv_nth)
  moreover have "GetBlockByNum ev (sv_bc s) (bk_Num b - 1) = Inr (Some (bs ! unat (bc_headBlockNum (sv_bc s))))"
    using chain_of_num [OF inv, of "bk_Num b - 1"] b(1) by simp
  ultimately show ?thesis
    using h b(1,3) by (simp add: checkParent_def bc chain_reader_def)
qed

text \<open>The checks of a block that do not concern its transactions accept every proper successor of the head.\<close>

lemma successor_base:
  assumes inv: "chain_of ev (sv_bc s) bs" and bc: "cv_bc cv = chain_reader ev q s"
    and b: "bk_Num b = bc_headBlockNum (sv_bc s) + 1" "bk_Num b \<noteq> 0" "bk_Parent b = bc_prevHash (sv_bc s)"
      "bk_Timestamp (last bs) < bk_Timestamp b" "bk_Hash b \<notin> bk_Hash ` set bs"
    and h: "bk_Hash b = BlockHash (cv_crypto cv) (bk_Num b) (bk_Slot b) (bk_Version b) (bk_Parent b) (bk_Txroot b) (bk_Timestamp b)
       (sg_Address (bk_Proposer b))"
    and r: "GenTxRoot (cv_crypto cv) (bk_Transactions b) = Inr (bk_Txroot b)" "getTransactionsSize b \<le> cc_BlockSize (cv_cfg cv)"
      "checkBlockBalance b = None"
    and t: "sint (bk_Timestamp b) \<le> go_int (now + cc_SlotTime (cv_cfg cv))"
    and v: "verifyBlockSign cv b (bk_Proposer b) = None" "cs \<Longrightarrow> checkVotes cv b = None"
  shows "validateBlockBase cv now b cs = None"
  using successor_known [OF inv bc b(1,2,5)] successor_parent [OF inv bc b(1,3,4)] h r t v
  by (simp add: validateBlockBase_def validateBlockHeader_def)

subsection \<open>The first block\<close>

lemma createGenesis_fields:
  "createGenesis ev bc = (bc', Some g) \<Longrightarrow> bk_Num g = 0 \<and> bc' = bc\<lparr>bc_genesisHash := bk_Hash g\<rparr>"
  by (auto simp: createGenesis_def Let_def split: sum.splits)

lemma Init_fresh:
  assumes "BlockChain_Init ev (NewBlockChain NewKVStore) = (bc, None)" and c: "codec_ok (ev_codec ev)"
  shows "\<exists>g db1 db2 db3. SaveHeadBlockNum (ev_kvio ev) 0 NewKVStore = (db1, None)
    \<and> SaveGenesis (ev_codec ev) (ev_kvio ev) g db1 = (db2, None) \<and> WriteBlock (ev_codec ev) (ev_kvio ev) g db2 = (db3, None)
    \<and> bk_Num g = 0 \<and> bc = \<lparr>bc_db = db3, bc_prevHash = bk_Hash g, bc_futureBlockNum = 1, bc_headBlockNum = 0,
          bc_headBlock = Some g, bc_genesisBlock = Some g, bc_genesisHash = bk_Hash g\<rparr>"
proof -
  let ?bc0 = "NewBlockChain NewKVStore" and ?io = "ev_kvio ev" and ?cd = "ev_codec ev"
  have "kv_GetHeadBlockNum NewKVStore = Inl ErrNoHead" "CountBlocks NewKVStore = 0" "errors_Is ErrNoHead ErrNoHead"
    by (simp_all add: kv_GetHeadBlockNum_def NewKVStore_def Get_def CountBlocks_def ErrNoHead_def)
  then obtain db1 where h: "SaveHeadBlockNum ?io 0 NewKVStore = (db1, None)"
    and i: "init_head ev ?bc0 = (?bc0\<lparr>bc_db := db1\<rparr>, Inr 0)"
    using assms(1)
    by (auto simp: BlockChain_Init_def init_head_def bc_saveHeadBlockNum_def NewBlockChain_def Let_def split: prod.splits option.splits)
  have "kv_GetGenesis ?cd db1 = Inr None"
    using SaveHeadBlockNum_ok [OF h, of BlocksBucket genesisBlockKey] by (simp add: kv_GetGenesis_def NewKVStore_def Get_def)
  then obtain g db2 db3 where g: "createGenesis ev (?bc0\<lparr>bc_db := db1\<rparr>) = (?bc0\<lparr>bc_db := db1, bc_genesisHash := bk_Hash g\<rparr>, Some g)"
    and sg: "SaveGenesis ?cd ?io g db1 = (db2, None)" and w: "WriteBlock ?cd ?io g db2 = (db3, None)"
    and ig: "insertGenesis ev (?bc0\<lparr>bc_db := db1\<rparr>) =
      (?bc0\<lparr>bc_genesisHash := bk_Hash g, bc_db := db3, bc_genesisBlock := Some g\<rparr>, None)"
    using assms(1) i
    by (auto simp: BlockChain_Init_def insertGenesis_def NewBlockChain_def split: prod.splits option.splits dest!: createGenesis_fields)
  have "kv_GetGenesis ?cd db3 = Inr (Some g)"
    using SaveGenesis_ok [OF sg] WriteBlock_ok [OF w] by (auto simp: kv_GetGenesis_def UnmarshalBlock_Marshal [OF c])
  then have "bc = ?bc0\<lparr>bc_db := db3, bc_genesisHash := bk_Hash g, bc_genesisBlock := Some g, bc_headBlockNum := 0,
      bc_futureBlockNum := 1, bc_prevHash := bk_Hash g, bc_headBlock := Some g\<rparr>"
    using assms(1) i ig by (simp add: BlockChain_Init_def Let_def NewBlockChain_def)
  then show ?thesis using h sg w createGenesis_fields [OF g] by (auto simp: NewBlockChain_def)
qed

lemma chain_of_fresh:
  assumes "BlockChain_Init ev (NewBlockChain NewKVStore) = (bc, None)" and c: "codec_ok (ev_codec ev)"
  shows "\<exists>g. chain_of ev bc [g]"
proof -
  obtain g db1 db2 db3 where h: "SaveHeadBlockNum (ev_kvio ev) 0 NewKVStore = (db1, None)"
    and sg: "SaveGenesis (ev_codec ev) (ev_kvio ev) g db1 = (db2, None)"
    and w: "WriteBlock (ev_codec ev) (ev_kvio ev) g db2 = (db3, None)" and num: "bk_Num g = 0"
    and bc: "bc = \<lparr>bc_db = db3, bc_prevHash = bk_Hash g, bc_futureBlockNum = 1, bc_headBlockNum = 0,
          bc_headBlock = Some g, bc_genesisBlock = Some g, bc_genesisHash = bk_Hash g\<rparr>"
    using Init_fresh [OF assms] by blast
  have "GetBlockNum k db2 = Inl (Errorf ''Not found block num connected to given hash'')" for k
    using SaveGenesis_ok [OF sg] SaveHeadBlockNum_ok [OF h, of BlocksNumBucket]
    by (auto simp: GetBlockNum_def NewKVStore_def Get_def [of _ _ "\<lparr>kv_data = [], kv_calls = 0\<rparr>"])
  then have "kv_GetBlockByHash (ev_codec ev) k db3 = (if k = bk_Hash g then Inr (Some g) else Inr None)" for k
    by (simp add: kv_GetBlockByHash_def WriteBlock_reads [OF c w] num)
  moreover have "Get BlocksBucket (genBlockKey n h) db3 = None" if "h \<noteq> bk_Hash g" for n h
    using that WriteBlock_ok [OF w] SaveGenesis_ok [OF sg] SaveHeadBlockNum_ok [OF h, of BlocksBucket]
    by (auto simp: NewKVStore_def Get_def [of _ _ "\<lparr>kv_data = [], kv_calls = 0\<rparr>"])
  ultimately show ?thesis
    using num by (intro exI [of _ g]) (auto simp: chain_of_def bc GetBlockByHash_def GetGenesis_def GetBlockByNum_def by_hash_def)
qed

end
