(* ===== verification/TxPool.thy ===== *)
theory TxPool
  imports Validator
begin

text \<open>
  The pool of pending transactions (\<^verbatim>\<open>blockchain/core/attestation/pool.go\<close>).  The three maps and the
  pending slice of the code share pointers to transaction objects whose \<open>forged\<close> and \<open>dropped\<close> flags change, so
  the model has an explicit store of objects and pointers into it.  Every operation is atomic here, as one goroutine
  runs it between its lock and its unlock; the mutex \<open>mu\<close> is a field all the same, because one path of \<open>Insert\<close>
  returns without releasing it. An operation that waits for a mutex that is held has the result \<open>None\<close>.

  The lemmas show the invariant of the pool over every sequence of calls: the pending transactions have different
  hashes and different senders, the hash and sender maps point to exactly them and to the reserved collapse
  transactions; what \<open>Finalize\<close> removes; that the queue is ordered by fee price; and where the pool does
  not do what it means to: the replacement rule and the mutex that is never released.
\<close>

subsection \<open>Data\<close>

type_synonym ptr = nat

record Pool =
  tp_heap :: "Transaction list"
  tp_txSenderMap :: "(string, ptr) gomap"
  tp_txHashMap :: "(string, ptr) gomap"
  tp_stakeTxMap :: "(string, ptr) gomap"
  tp_pending :: "ptr list"
  tp_mu :: bool
  tp_swapLock :: bool

type_synonym pool_call = "(Pool \<times> error option) option"

abbreviation (input) maxTxCount :: nat where "maxTxCount \<equiv> 1000"

definition NewPool :: Pool where
  "NewPool = \<lparr>tp_heap = [], tp_txSenderMap = [], tp_txHashMap = [], tp_stakeTxMap = [], tp_pending = [],
     tp_mu = False, tp_swapLock = False\<rparr>"

definition deref :: "Pool \<Rightarrow> ptr \<Rightarrow> Transaction" where
  "deref p q = tp_heap p ! q"

definition from_hex :: "Transaction \<Rightarrow> string" where
  "from_hex tx = Address_Hex (tx_from tx)"

definition hash_hex :: "Transaction \<Rightarrow> string" where
  "hash_hex tx = Hash_Hex (tx_hash tx)"

subsection \<open>The pending slice\<close>

definition txLess :: "Transaction \<Rightarrow> Transaction \<Rightarrow> bool" where
  "txLess a b = (if tx_feePrice a = tx_feePrice b then tx_timestamp a < tx_timestamp b
                 else tx_feePrice a > tx_feePrice b)"

definition GetIndex :: "Pool \<Rightarrow> Transaction \<Rightarrow> nat option" where
  "GetIndex p tx = find (\<lambda>i. tx_hash (deref p (tp_pending p ! i)) = tx_hash tx) [0..<length (tp_pending p)]"

definition SwapByHash :: "Pool \<Rightarrow> Transaction \<Rightarrow> ptr \<Rightarrow> Pool \<times> error option" where
  "SwapByHash p old newTx = (case GetIndex p old of
     None \<Rightarrow> (p, Some (Errorf ''Not found tx''))
   | Some i \<Rightarrow> (p\<lparr>tp_pending := (tp_pending p)[i := newTx]\<rparr>, None))"

definition SwapAndRemove :: "ptr list \<Rightarrow> nat option \<Rightarrow> ptr list" where
  "SwapAndRemove txs index = (case index of
     None \<Rightarrow> txs
   | Some i \<Rightarrow> if i \<ge> length txs then txs
              else (let last = length txs - 1 in take last (txs[i := txs ! last, last := txs ! i])))"

text \<open>
  \<^verbatim>\<open>sort.Slice\<close> is not stable: it is a parameter, of which only the documented contract is used, that it returns a
  permutation that is ordered by \<open>less\<close>.
\<close>

type_synonym sorter = "(ptr \<Rightarrow> ptr \<Rightarrow> bool) \<Rightarrow> ptr list \<Rightarrow> ptr list"

definition sort_ok :: "(('a \<Rightarrow> 'a \<Rightarrow> bool) \<Rightarrow> 'a list \<Rightarrow> 'a list) \<Rightarrow> bool" where
  "sort_ok srt \<longleftrightarrow> (\<forall>lt xs. mset (srt lt xs) = mset xs \<and>
     (asymp lt \<and> transp lt \<and> transp (\<lambda>x y. \<not> lt y x) \<longrightarrow> sorted_wrt (\<lambda>x y. \<not> lt y x) (srt lt xs)))"

definition GetQueue :: "sorter \<Rightarrow> Pool \<Rightarrow> Pool" where
  "GetQueue srt p = p\<lparr>tp_pending := srt (\<lambda>i j. txLess (deref p i) (deref p j)) (tp_pending p)\<rparr>"

definition GetFeePrice :: "RDOBlockChainConfig \<Rightarrow> sorter \<Rightarrow> Pool \<Rightarrow> Pool \<times> uint64" where
  "GetFeePrice cfg srt p =
    (let p = GetQueue srt p; queue = tp_pending p; size = length queue in
     (p, if size = 0 then cf_MinimalFee cfg
         else if size = 1 then tx_feePrice (deref p (hd queue))
         else (tx_feePrice (deref p (hd queue)) + tx_feePrice (deref p (queue ! (size - 1)))) div 2))"

subsection \<open>Inserting\<close>

definition Pool_CheckMaxStakers :: "CryspValidator \<Rightarrow> Pool \<Rightarrow> Transaction \<Rightarrow> error option" where
  "Pool_CheckMaxStakers cv p tx = CheckMaxStakers cv tx (length (tp_stakeTxMap p))"

definition validateTx :: "CryspValidator \<Rightarrow> Pool \<Rightarrow> Transaction \<Rightarrow> error option" where
  "validateTx cv p tx =
    (check_seq (ValidateTransactionStruct cv tx)
      (if tx_txType tx = StakeTxType then check_seq (ValidateTransaction cv tx) (Pool_CheckMaxStakers cv p tx)
       else ValidateTransaction cv tx))"

definition new_object :: "Pool \<Rightarrow> Transaction \<Rightarrow> Pool \<times> ptr" where
  "new_object p tx = (p\<lparr>tp_heap := tp_heap p @ [tx]\<rparr>, length (tp_heap p))"

definition swap :: "Pool \<Rightarrow> ptr \<Rightarrow> Transaction \<Rightarrow> pool_call" where
  "swap p old newTx =
    (if tp_swapLock p then None
     else if tx_forged (deref p old) then Some (p, None)
     else let oldTx = deref p old; (p, q) = new_object p newTx in
       (case SwapByHash p oldTx q of
          (p, Some e) \<Rightarrow> Some (p, Some e)
        | (p, None) \<Rightarrow>
           (let stake = (if tx_txType newTx = StakeTxType then gput (from_hex newTx) q (tp_stakeTxMap p) else tp_stakeTxMap p);
                stake = (if tx_txType oldTx = StakeTxType then gdel (from_hex oldTx) stake else stake) in
            Some (p\<lparr>tp_stakeTxMap := stake,
                    tp_txHashMap := gput (hash_hex newTx) q (gdel (hash_hex oldTx) (tp_txHashMap p)),
                    tp_txSenderMap := gput (from_hex newTx) q (tp_txSenderMap p)\<rparr>, None))))"

definition processDoubleSpend :: "CryspValidator \<Rightarrow> Pool \<Rightarrow> ptr \<Rightarrow> Transaction \<Rightarrow> pool_call" where
  "processDoubleSpend cv p old newTx =
    (let oldTx = deref p old in
     if tx_txType oldTx = CollapseTxType then Some (p, Some (Errorf ''Outputs cleaning. Try later''))
     else if tx_num oldTx = tx_num newTx then
       (if \<not> txLess oldTx newTx then Some (p, Some (Errorf ''Too cheap tx''))
        else (case validateTx cv p newTx of Some e \<Rightarrow> Some (p, Some e) | None \<Rightarrow> swap p old newTx))
     else Some (p, None))"

definition finalizeInsert :: "Pool \<Rightarrow> Transaction \<Rightarrow> Pool" where
  "finalizeInsert p tx = (let (p, q) = new_object p tx in
     p\<lparr>tp_stakeTxMap := (if tx_txType tx = StakeTxType then gput (from_hex tx) q (tp_stakeTxMap p) else tp_stakeTxMap p),
       tp_txSenderMap := gput (from_hex tx) q (tp_txSenderMap p),
       tp_txHashMap := gput (hash_hex tx) q (tp_txHashMap p),
       tp_pending := tp_pending p @ [q]\<rparr>)"

definition cleanWorst :: "sorter \<Rightarrow> Pool \<Rightarrow> Pool \<times> error option" where
  "cleanWorst srt p =
    (let p = GetQueue srt p; queue = tp_pending p in
     if queue = [] then (p, Some (Panic ''index out of range''))
     else let lastIndex = length queue - 1; worst = queue ! lastIndex; tx = deref p worst in
       (p\<lparr>tp_txHashMap := gdel (hash_hex tx) (tp_txHashMap p), tp_txSenderMap := gdel (from_hex tx) (tp_txSenderMap p),
          tp_pending := take lastIndex (tp_pending p), tp_heap := (tp_heap p)[worst := Drop tx]\<rparr>, None))"

definition Insert :: "sorter \<Rightarrow> CryspValidator \<Rightarrow> Pool \<Rightarrow> Transaction \<Rightarrow> pool_call" where
  "Insert srt cv p tx =
    (if tp_mu p then None
     else if ghas (tp_txHashMap p) (hash_hex tx) then Some (p, Some (Errorf ''Already exists''))
     else if from_hex tx = '''' then Some (p\<lparr>tp_mu := True\<rparr>, Some (Errorf ''Wrong sender''))
     else (case map_of (tp_txSenderMap p) (from_hex tx) of
         Some oldTx \<Rightarrow> processDoubleSpend cv p oldTx tx
       | None \<Rightarrow>
          (case validateTx cv p tx of
             Some e \<Rightarrow> Some (p, Some e)
           | None \<Rightarrow>
              (let p = finalizeInsert p tx in
               Some (if length (tp_txHashMap p) + 1 = maxTxCount then cleanWorst srt p else (p, None))))))"

text \<open>\<open>InsertCollapseTx\<close>: the transactions before the first conflict stay reserved.\<close>

definition input_senders :: "Transaction \<Rightarrow> string list" where
  "input_senders tx = remdups (map (Address_Hex \<circ> in_address) (tx_inputs tx))"

fun insert_collapse_loop :: "Pool \<Rightarrow> Transaction list \<Rightarrow> Pool \<times> error option" where
  "insert_collapse_loop p [] = (p, None)"
| "insert_collapse_loop p (tx # txs) =
    (if tx_txType tx \<noteq> CollapseTxType then (p, Some (Errorf ''Wrong tx type given''))
     else let senders = input_senders tx in
       if \<exists>s \<in> set senders. ghas (tp_txSenderMap p) s then (p, Some (Errorf ''CollapseTx can trigger double spend''))
       else let (p, q) = new_object p tx in
         insert_collapse_loop (p\<lparr>tp_txHashMap := gput (hash_hex tx) q (tp_txHashMap p),
           tp_txSenderMap := fold (\<lambda>s m. gput s q m) senders (tp_txSenderMap p)\<rparr>) txs)"

definition InsertCollapseTx :: "Pool \<Rightarrow> Transaction list \<Rightarrow> pool_call" where
  "InsertCollapseTx p txs = (if tp_mu p then None else Some (insert_collapse_loop p txs))"

subsection \<open>Removing\<close>

definition cleanTransactionMap :: "Pool \<Rightarrow> Transaction \<Rightarrow> Pool" where
  "cleanTransactionMap p tx =
    p\<lparr>tp_txHashMap := gdel (hash_hex tx) (tp_txHashMap p),
      tp_txSenderMap :=
        (if tx_txType tx \<noteq> CollapseTxType then gdel (from_hex tx) (tp_txSenderMap p)
         else fold gdel (map Address_Hex (AllSenders tx)) (tp_txSenderMap p)),
      tp_stakeTxMap := (if tx_txType tx = StakeTxType then gdel (from_hex tx) (tp_stakeTxMap p) else tp_stakeTxMap p)\<rparr>"

definition findPoolTransaction :: "Pool \<Rightarrow> Transaction \<Rightarrow> error + (Transaction \<times> nat option)" where
  "findPoolTransaction p tx =
    (if tx_txType tx = ValidatorsUnstakeTxType \<and> tx_inputs tx = [] then Inl (Panic ''index out of range'')
     else let sender = (if tx_txType tx = ValidatorsUnstakeTxType then Address_Hex (in_address (hd (tx_inputs tx)))
                        else from_hex tx) in
       case (if ghas (tp_txHashMap p) (hash_hex tx) then Some tx else map_option (deref p) (map_of (tp_txSenderMap p) sender)) of
         None \<Rightarrow> Inl (Errorf ''Undefined sender and transaction'')
       | Some poolTx \<Rightarrow>
          (let index = GetIndex p poolTx in
           if index = None \<and> tx_txType poolTx \<noteq> CollapseTxType then Inl (Errorf ''Undefined pending transaction'')
           else Inr (poolTx, index)))"

definition remove_found :: "Pool \<Rightarrow> Transaction \<Rightarrow> nat option \<Rightarrow> Pool" where
  "remove_found p rtx index = cleanTransactionMap (p\<lparr>tp_pending := SwapAndRemove (tp_pending p) index\<rparr>) rtx"

definition pool_finalize_tx :: "Pool \<Rightarrow> Transaction \<Rightarrow> Pool \<times> error option" where
  "pool_finalize_tx p tx =
    (if utypes_IsSystemTx tx \<and> tx_txType tx \<noteq> CollapseTxType \<and> tx_txType tx \<noteq> ValidatorsUnstakeTxType then (p, None)
     else (case findPoolTransaction p tx of
         Inl (Panic m) \<Rightarrow> (p, Some (Panic m))
       | Inl e \<Rightarrow> (p, None)
       | Inr (rtx, index) \<Rightarrow> (remove_found p rtx index, None)))"

fun pool_finalize_loop :: "Pool \<Rightarrow> Transaction list \<Rightarrow> Pool \<times> error option" where
  "pool_finalize_loop p [] = (p, None)"
| "pool_finalize_loop p (tx # txs) = (case pool_finalize_tx p tx of
     (p, Some e) \<Rightarrow> (p, Some e) | (p, None) \<Rightarrow> pool_finalize_loop p txs)"

definition findProblematicStakeTx :: "Pool \<Rightarrow> string \<Rightarrow> string \<Rightarrow> error + (Transaction \<times> nat option)" where
  "findProblematicStakeTx p address node =
    (let none = Inl (Errorf ''No problematic transaction found in tx pool'') in
     case map_of (tp_txSenderMap p) address of
       None \<Rightarrow> none
     | Some q \<Rightarrow>
        (let tx = deref p q in
         if tx_txType tx \<noteq> StakeTxType \<and> tx_txType tx \<noteq> UnstakeTxType then none
         else if (\<exists>out \<in> set (tx_outputs tx). Address_Hex (out_node out) = node)
              \<or> (\<exists>i \<in> set (tx_inputs tx). Address_Hex (in_node i) = node)
           then Inr (tx, GetIndex p tx)
         else none))"

definition cleanUpSystemUnstake :: "Pool \<Rightarrow> Transaction \<Rightarrow> Pool \<times> error option" where
  "cleanUpSystemUnstake p tx = (case tx_inputs tx of
     [] \<Rightarrow> (p, Some (Panic ''index out of range''))
   | i # _ \<Rightarrow>
      (case findProblematicStakeTx p (Address_Hex (in_address i)) (Address_Hex (in_node i)) of
         Inl e \<Rightarrow> (p, None)
       | Inr (rtx, index) \<Rightarrow> (remove_found p rtx index, None)))"

fun clean_unstakes :: "Pool \<Rightarrow> Transaction list \<Rightarrow> Pool \<times> error option" where
  "clean_unstakes p [] = (p, None)"
| "clean_unstakes p (tx # txs) = (case cleanUpSystemUnstake p tx of
     (p, Some e) \<Rightarrow> (p, Some e) | (p, None) \<Rightarrow> clean_unstakes p txs)"

definition Pool_Finalize :: "Pool \<Rightarrow> Transaction list \<Rightarrow> pool_call" where
  "Pool_Finalize p txarr =
    (if tp_mu p then None
     else Some (case pool_finalize_loop p txarr of
         (p, Some e) \<Rightarrow> (p, Some e)
       | (p, None) \<Rightarrow> clean_unstakes p (filter (\<lambda>tx. tx_txType tx = ValidatorsUnstakeTxType) txarr)))"

definition DeleteTransaction :: "Pool \<Rightarrow> Transaction \<Rightarrow> pool_call" where
  "DeleteTransaction p tx = (case GetIndex p tx of
     None \<Rightarrow> Some (p, Some (Errorf ''Not found tx''))
   | Some i \<Rightarrow> if tp_mu p then None else Some (remove_found p tx (Some i), None))"

subsection \<open>Locking and forging\<close>

definition LockPool :: "Pool \<Rightarrow> pool_call" where
  "LockPool p = (if tp_swapLock p then None else Some (p\<lparr>tp_swapLock := True\<rparr>, None))"

definition UnlockPool :: "Pool \<Rightarrow> pool_call" where
  "UnlockPool p = Some (p\<lparr>tp_swapLock := False\<rparr>, if tp_swapLock p then None else Some (Panic ''unlock of unlocked mutex''))"

definition forge_object :: "Pool \<Rightarrow> ptr \<Rightarrow> Pool" where
  "forge_object p q = p\<lparr>tp_heap := (tp_heap p)[q := Forge (deref p q)]\<rparr>"

fun clear_forged_loop :: "Pool \<Rightarrow> PbTransaction list \<Rightarrow> Pool" where
  "clear_forged_loop p [] = p"
| "clear_forged_loop p (ptx # txs) = clear_forged_loop (case map_of (tp_txHashMap p) (Encode (pt_Hash ptx)) of
     None \<Rightarrow> p
   | Some q \<Rightarrow> if tx_forged (deref p q) then p\<lparr>tp_heap := (tp_heap p)[q := DiscardForge (deref p q)]\<rparr> else p) txs"

definition ClearForged :: "Pool \<Rightarrow> Block \<Rightarrow> pool_call" where
  "ClearForged p block = (if tp_mu p then None else Some (clear_forged_loop p (bk_Transactions block), None))"

subsection \<open>The invariant\<close>

text \<open>A map that points from every key of every object of a set to that object, and from nowhere else.\<close>

definition idx :: "('k \<rightharpoonup> ptr) \<Rightarrow> ptr set \<Rightarrow> (ptr \<Rightarrow> 'k set) \<Rightarrow> bool" where
  "idx M L K \<longleftrightarrow> (\<forall>k q. M k = Some q \<longleftrightarrow> q \<in> L \<and> k \<in> K q)"

lemma idxD: "idx M L K \<Longrightarrow> M k = Some q \<longleftrightarrow> q \<in> L \<and> k \<in> K q"
  by (simp add: idx_def)

lemma idx_unique: "idx M L K \<Longrightarrow> q \<in> L \<Longrightarrow> q' \<in> L \<Longrightarrow> k \<in> K q \<Longrightarrow> k \<in> K q' \<Longrightarrow> q = q'"
  by (metis idxD option.inject)

lemma idx_drop: "idx M L K \<Longrightarrow> q \<in> L \<Longrightarrow> idx (M |` (- K q)) (L - {q}) K"
  by (auto simp: idx_def restrict_map_def) (metis option.inject)

lemma idx_add:
  assumes "idx M L K" "\<forall>k \<in> K q. M k = None" "q \<notin> L"
  shows "idx (\<lambda>k. if k \<in> K q then Some q else M k) (insert q L) K"
  using assms unfolding idx_def by (metis insert_iff option.distinct(1) option.inject)

lemma idx_cong: "idx M L K \<Longrightarrow> \<forall>q \<in> L. K q = K' q \<Longrightarrow> idx M L K'"
  by (simp add: idx_def) metis

text \<open>
  The addresses a pooled transaction reserves: its sender, or all senders of a collapse transaction. \<open>L\<close> are the live
  objects, those the hash map points to; the pending ones \<open>P\<close> are exactly the live ones that are no collapse transactions.
\<close>

abbreviation is_collapse :: "Transaction \<Rightarrow> bool" where
  "is_collapse tx \<equiv> tx_txType tx = CollapseTxType"

definition owners :: "Transaction \<Rightarrow> string set" where
  "owners tx = (if is_collapse tx then set (input_senders tx) else {from_hex tx})"

definition pool_rel :: "nat \<Rightarrow> (ptr \<Rightarrow> Transaction) \<Rightarrow> (string \<rightharpoonup> ptr) \<Rightarrow> (string \<rightharpoonup> ptr) \<Rightarrow> ptr set \<Rightarrow> ptr set \<Rightarrow> bool" where
  "pool_rel n d S H P L \<longleftrightarrow> L \<subseteq> {..<n} \<and> P = {q \<in> L. \<not> is_collapse (d q)}
     \<and> idx H L (\<lambda>q. {hash_hex (d q)}) \<and> idx S L (\<lambda>q. owners (d q))"

definition pool_inv :: "Pool \<Rightarrow> bool" where
  "pool_inv p \<longleftrightarrow> distinct (tp_pending p) \<and> gomap_ok (tp_txSenderMap p) \<and> gomap_ok (tp_txHashMap p)
    \<and> (\<exists>L. pool_rel (length (tp_heap p)) (deref p) (map_of (tp_txSenderMap p)) (map_of (tp_txHashMap p))
              (set (tp_pending p)) L)"

definition same_key :: "Transaction \<Rightarrow> Transaction \<Rightarrow> bool" where
  "same_key a b \<longleftrightarrow> hash_hex a = hash_hex b \<and> (is_collapse a \<longleftrightarrow> is_collapse b) \<and> owners a = owners b"

lemma pool_rel_cong:
  assumes "pool_rel n d S H P L" "n \<le> n'" "\<forall>q < n. same_key (d q) (d' q)"
  shows "pool_rel n' d' S H P L"
proof -
  have k: "\<forall>q \<in> L. same_key (d q) (d' q)" using assms by (auto simp: pool_rel_def)
  show ?thesis
    using assms k unfolding pool_rel_def same_key_def by (auto intro: idx_cong)
qed

lemma pool_rel_drop:
  "pool_rel n d S H P L \<Longrightarrow> q \<in> L \<Longrightarrow>
   pool_rel n d (S |` (- owners (d q))) (H |` (- {hash_hex (d q)})) (P - {q}) (L - {q})"
  unfolding pool_rel_def using idx_drop [of S L] idx_drop [of H L] by auto

lemma pool_rel_add:
  assumes "pool_rel n d S H P L" "q < n" "q \<notin> L" "H (hash_hex (d q)) = None" "\<forall>s \<in> owners (d q). S s = None"
  shows "pool_rel n d (\<lambda>s. if s \<in> owners (d q) then Some q else S s) (H(hash_hex (d q) \<mapsto> q))
    (if is_collapse (d q) then P else insert q P) (insert q L)"
proof -
  have "H(hash_hex (d q) \<mapsto> q) = (\<lambda>k. if k \<in> {hash_hex (d q)} then Some q else H k)" by auto
  then show ?thesis
    using assms idx_add [of S L] idx_add [of H L "\<lambda>q. {hash_hex (d q)}" q] by (auto simp: pool_rel_def)
qed

lemma deref_simps [simp]:
  "deref (p\<lparr>tp_pending := x\<rparr>) = deref p" "deref (p\<lparr>tp_txHashMap := m\<rparr>) = deref p" "deref (p\<lparr>tp_txSenderMap := m\<rparr>) = deref p"
  "deref (p\<lparr>tp_stakeTxMap := m\<rparr>) = deref p" "deref (p\<lparr>tp_mu := b\<rparr>) = deref p" "deref (p\<lparr>tp_swapLock := b\<rparr>) = deref p"
  by (simp_all add: deref_def fun_eq_iff)

lemma pool_inv_new: "pool_inv NewPool"
  by (simp add: pool_inv_def NewPool_def pool_rel_def idx_def)

text \<open>What the invariant says of a pending transaction.\<close>

lemma pending_facts:
  assumes "pool_inv p" "q \<in> set (tp_pending p)"
  shows "map_of (tp_txHashMap p) (hash_hex (deref p q)) = Some q" "map_of (tp_txSenderMap p) (from_hex (deref p q)) = Some q"
    "\<not> is_collapse (deref p q)" "q < length (tp_heap p)"
  using assms by (auto simp: pool_inv_def pool_rel_def idx_def owners_def)

lemma pool_inv_distinct:
  assumes "pool_inv p"
  shows "distinct (map (\<lambda>q. hash_hex (deref p q)) (tp_pending p))" "distinct (map (\<lambda>q. from_hex (deref p q)) (tp_pending p))"
proof -
  have d: "distinct (tp_pending p)" using assms by (simp add: pool_inv_def)
  have "inj_on (\<lambda>q. hash_hex (deref p q)) (set (tp_pending p))"
    by (rule inj_onI) (metis pending_facts(1) [OF assms] option.inject)
  moreover have "inj_on (\<lambda>q. from_hex (deref p q)) (set (tp_pending p))"
    by (rule inj_onI) (metis pending_facts(2) [OF assms] option.inject)
  ultimately show "distinct (map (\<lambda>q. hash_hex (deref p q)) (tp_pending p))" "distinct (map (\<lambda>q. from_hex (deref p q)) (tp_pending p))"
    using d by (simp_all add: distinct_map)
qed

text \<open>Objects whose flags alone change keep the invariant.\<close>

lemma same_key_flags:
  "same_key tx (Drop tx)" "same_key tx (Forge tx)" "same_key tx (DiscardForge tx)" "same_key tx tx"
  by (simp_all add: same_key_def owners_def input_senders_def hash_hex_def from_hex_def Drop_def Forge_def DiscardForge_def)

lemma pool_inv_flag:
  assumes "pool_inv p" "same_key (deref p q) tx"
  shows "pool_inv (p\<lparr>tp_heap := (tp_heap p)[q := tx]\<rparr>)"
proof -
  obtain L where L: "pool_rel (length (tp_heap p)) (deref p) (map_of (tp_txSenderMap p)) (map_of (tp_txHashMap p))
      (set (tp_pending p)) L"
    using assms(1) by (auto simp: pool_inv_def)
  have "\<forall>i < length (tp_heap p). same_key (deref p i) (deref (p\<lparr>tp_heap := (tp_heap p)[q := tx]\<rparr>) i)"
    using assms(2) by (cases "q < length (tp_heap p)") (auto simp: deref_def nth_list_update same_key_flags)
  from pool_rel_cong [OF L order_refl this] show ?thesis
    using assms(1) by (auto simp: pool_inv_def)
qed

lemma pool_inv_perm:
  "pool_inv p \<Longrightarrow> mset ps = mset (tp_pending p) \<Longrightarrow> pool_inv (p\<lparr>tp_pending := ps\<rparr>)"
  using mset_eq_setD [of ps "tp_pending p"] mset_eq_imp_distinct_iff [of ps "tp_pending p"] by (simp add: pool_inv_def)

lemma GetQueue_inv: "sort_ok srt \<Longrightarrow> pool_inv p \<Longrightarrow> pool_inv (GetQueue srt p)"
  unfolding GetQueue_def by (intro pool_inv_perm) (simp_all add: sort_ok_def)

subsection \<open>Removing an entry keeps the invariant\<close>

text \<open>Both maps lose the keys of the object, the pending list loses its pointer.\<close>

lemma pool_inv_remove:
  assumes inv: "pool_inv p" and q: "map_of (tp_txHashMap p) (hash_hex (deref p q)) = Some q"
    and H: "map_of H = map_of (tp_txHashMap p) |` (- {hash_hex (deref p q)})" "gomap_ok H"
    and S: "map_of S = map_of (tp_txSenderMap p) |` (- owners (deref p q))" "gomap_ok S"
    and P: "set P = set (tp_pending p) - {q}" "distinct P"
  shows "pool_inv (p\<lparr>tp_txHashMap := H, tp_txSenderMap := S, tp_pending := P\<rparr>)"
proof -
  obtain L where L: "pool_rel (length (tp_heap p)) (deref p) (map_of (tp_txSenderMap p)) (map_of (tp_txHashMap p))
      (set (tp_pending p)) L"
    using inv by (auto simp: pool_inv_def)
  have "q \<in> L" using L q by (simp add: pool_rel_def idx_def)
  from pool_rel_drop [OF L this] show ?thesis
    using H S P by (auto simp: pool_inv_def)
qed

lemma map_of_gdel: "map_of (gdel k m) = map_of m |` (- {k})"
  by (auto simp: map_of_delete restrict_map_def)

lemma map_of_fold_gdel: "map_of (fold gdel ks m) = map_of m |` (- set ks)"
  by (induction ks arbitrary: m) (auto simp: map_of_delete restrict_map_def fun_eq_iff)

lemma gomap_ok_fold_gdel: "gomap_ok m \<Longrightarrow> gomap_ok (fold gdel ks m)"
  by (induction ks arbitrary: m) auto

lemma allSenders_loop_set: "Address_Hex ` set (allSenders_loop seen ins) = Address_Hex ` in_address ` set ins - set seen"
  by (induction seen ins rule: allSenders_loop.induct) (auto simp: Let_def)

lemma AllSenders_senders: "set (map Address_Hex (AllSenders tx)) = set (input_senders tx)"
  using allSenders_loop_set [of "[]" "tx_inputs tx"] by (simp add: AllSenders_def input_senders_def image_image)

text \<open>\<open>SwapAndRemove\<close> removes one position, up to the order.\<close>

lemma SwapAndRemove_mset:
  assumes "i < length xs"
  shows "mset (SwapAndRemove xs (Some i)) = mset xs - {#xs ! i#}"
proof -
  define n where "n = length xs - 1"
  have n: "n < length xs" "length xs = Suc n" using assms by (auto simp: n_def)
  define ys where "ys = xs[i := xs ! n, n := xs ! i]"
  have m: "mset ys = mset xs" using mset_swap [OF n(1) assms] by (simp add: ys_def)
  have "length ys = Suc n" using n by (simp add: ys_def)
  then have "ys = take n ys @ [ys ! n]" by (metis lessI order_refl take_Suc_conv_app_nth take_all)
  moreover have "ys ! n = xs ! i" using n by (simp add: ys_def)
  ultimately have "mset ys = mset (take n ys @ [xs ! i])" by simp
  then have "mset (take n ys) = mset xs - {#xs ! i#}" using m by simp
  then show ?thesis using assms by (simp add: SwapAndRemove_def Let_def ys_def n_def)
qed

lemma GetIndex_Some:
  assumes "GetIndex p tx = Some i"
  shows "i < length (tp_pending p)" "hash_hex (deref p (tp_pending p ! i)) = hash_hex tx"
  using assms by (auto simp: GetIndex_def hash_hex_def find_Some_iff)

lemma GetIndex_None: "GetIndex p tx = None \<longleftrightarrow> (\<forall>q \<in> set (tp_pending p). hash_hex (deref p q) \<noteq> hash_hex tx)"
  by (auto simp: GetIndex_def hash_hex_def find_None_iff in_set_conv_nth dest: nth_mem)

text \<open>
  A transaction agrees with the pool when the pooled transaction with its hash, if any, has the same type and senders.
  That is what the hash of a transaction guarantees as long as no two transactions collide.
\<close>

definition agrees :: "Pool \<Rightarrow> Transaction \<Rightarrow> bool" where
  "agrees p tx \<longleftrightarrow> (case map_of (tp_txHashMap p) (hash_hex tx) of None \<Rightarrow> True | Some q \<Rightarrow> same_key tx (deref p q))"

lemma remove_found_inv:
  assumes inv: "pool_inv p" and q: "map_of (tp_txHashMap p) (hash_hex tx) = Some q" and k: "same_key tx (deref p q)"
  shows "pool_inv (remove_found p tx (GetIndex p tx))"
    and "set (tp_pending (remove_found p tx (GetIndex p tx))) = set (tp_pending p) - {q}"
proof -
  have kh: "hash_hex tx = hash_hex (deref p q)" "owners tx = owners (deref p q)" "is_collapse tx \<longleftrightarrow> is_collapse (deref p q)"
    using k by (auto simp: same_key_def)
  have d: "distinct (tp_pending p)" and oks: "gomap_ok (tp_txSenderMap p)" "gomap_ok (tp_txHashMap p)"
    using inv by (auto simp: pool_inv_def)
  have P: "set (SwapAndRemove (tp_pending p) (GetIndex p tx)) = set (tp_pending p) - {q}
      \<and> distinct (SwapAndRemove (tp_pending p) (GetIndex p tx))"
  proof (cases "GetIndex p tx")
    case None
    have "q \<notin> set (tp_pending p)" using None kh(1) by (auto simp: GetIndex_None)
    then show ?thesis using None d by (simp add: SwapAndRemove_def)
  next
    case (Some i)
    have i: "i < length (tp_pending p)" "hash_hex (deref p (tp_pending p ! i)) = hash_hex tx"
      using GetIndex_Some [OF Some] by auto
    have "tp_pending p ! i = q"
      using pending_facts(1) [OF inv, of "tp_pending p ! i"] i q by simp
    then have m: "mset (SwapAndRemove (tp_pending p) (Some i)) = mset (tp_pending p) - {#q#}"
      using SwapAndRemove_mset [OF i(1)] by simp
    have "mset (SwapAndRemove (tp_pending p) (Some i)) = mset (remove1 q (tp_pending p))" using m by simp
    then show ?thesis
      using Some d mset_eq_setD mset_eq_imp_distinct_iff [of "SwapAndRemove (tp_pending p) (Some i)" "remove1 q (tp_pending p)"]
      by (metis distinct_remove1 set_remove1_eq)
  qed
  show "set (tp_pending (remove_found p tx (GetIndex p tx))) = set (tp_pending p) - {q}"
    using P by (simp add: remove_found_def cleanTransactionMap_def)
  let ?S = "if \<not> is_collapse tx then gdel (from_hex tx) (tp_txSenderMap p)
            else fold gdel (map Address_Hex (AllSenders tx)) (tp_txSenderMap p)"
  have S: "map_of ?S = map_of (tp_txSenderMap p) |` (- owners (deref p q))"
    unfolding kh(2) [symmetric] using AllSenders_senders [of tx] by (simp add: owners_def map_of_gdel map_of_fold_gdel)
  have "pool_inv (p\<lparr>tp_txHashMap := gdel (hash_hex tx) (tp_txHashMap p), tp_txSenderMap := ?S,
      tp_pending := SwapAndRemove (tp_pending p) (GetIndex p tx)\<rparr>)"
    using oks P q kh(1) S by (intro pool_inv_remove [OF inv]) (simp_all add: map_of_gdel gomap_ok_fold_gdel)
  then show "pool_inv (remove_found p tx (GetIndex p tx))"
    by (cases "is_collapse tx") (simp_all add: remove_found_def cleanTransactionMap_def pool_inv_def)
qed

subsection \<open>Finalizing\<close>

lemma sender_facts:
  assumes "pool_inv p" "map_of (tp_txSenderMap p) s = Some q"
  shows "map_of (tp_txHashMap p) (hash_hex (deref p q)) = Some q" "s \<in> owners (deref p q)" "q < length (tp_heap p)"
    "\<not> is_collapse (deref p q) \<Longrightarrow> q \<in> set (tp_pending p) \<and> s = from_hex (deref p q)"
  using assms by (auto simp: pool_inv_def pool_rel_def idx_def owners_def)

lemma hash_facts:
  assumes "pool_inv p" "map_of (tp_txHashMap p) h = Some q"
  shows "h = hash_hex (deref p q)" "\<not> is_collapse (deref p q) \<Longrightarrow> q \<in> set (tp_pending p)"
    "s \<in> owners (deref p q) \<Longrightarrow> map_of (tp_txSenderMap p) s = Some q"
  using assms by (auto simp: pool_inv_def pool_rel_def idx_def)

lemma remove_found_maps:
  "map_of (tp_txHashMap (remove_found p tx i)) = map_of (tp_txHashMap p) |` (- {hash_hex tx})"
  "map_of (tp_txSenderMap (remove_found p tx i)) = map_of (tp_txSenderMap p) |` (- owners tx)"
  "deref (remove_found p tx i) = deref p" "tp_mu (remove_found p tx i) = tp_mu p"
  using AllSenders_senders [of tx]
  by (simp_all add: remove_found_def cleanTransactionMap_def map_of_gdel map_of_fold_gdel owners_def)

lemma agrees_remove: "agrees p tx \<Longrightarrow> agrees (remove_found p rtx i) tx"
  by (simp add: agrees_def remove_found_maps restrict_map_def split: option.splits)

text \<open>The key under which \<open>findPoolTransaction\<close> looks for the sender of a transaction of a block.\<close>

definition lookup_sender :: "Transaction \<Rightarrow> string" where
  "lookup_sender tx = (if tx_txType tx = ValidatorsUnstakeTxType then Address_Hex (in_address (hd (tx_inputs tx))) else from_hex tx)"

lemma findPoolTransaction_Inr:
  assumes inv: "pool_inv p" and a: "agrees p tx" and f: "findPoolTransaction p tx = Inr (rtx, i)"
  obtains q where "i = GetIndex p rtx" "map_of (tp_txHashMap p) (hash_hex rtx) = Some q" "same_key rtx (deref p q)"
    "hash_hex rtx = hash_hex tx \<and> rtx = tx \<or>
      map_of (tp_txHashMap p) (hash_hex tx) = None \<and> lookup_sender tx \<in> owners rtx \<and> rtx = deref p q"
proof (cases "map_of (tp_txHashMap p) (hash_hex tx)")
  case None
  then obtain q where q: "map_of (tp_txSenderMap p) (lookup_sender tx) = Some q" "rtx = deref p q" "i = GetIndex p rtx"
    using f by (auto simp: findPoolTransaction_def Let_def ghas_def lookup_sender_def split: if_splits option.splits)
  show ?thesis
    using that [of q] q None sender_facts(1,2) [OF inv q(1)] by (simp add: same_key_flags)
next
  case (Some q)
  then have "rtx = tx" "i = GetIndex p rtx"
    using f by (auto simp: findPoolTransaction_def Let_def ghas_def split: if_splits option.splits)
  then show ?thesis using that [of q] Some a by (simp add: agrees_def)
qed

lemma findPoolTransaction_Inl:
  assumes inv: "pool_inv p" and a: "agrees p tx" and f: "findPoolTransaction p tx = Inl e" and e: "\<nexists>m. e = Panic m"
  shows "map_of (tp_txHashMap p) (hash_hex tx) = None" "map_of (tp_txSenderMap p) (lookup_sender tx) = None"
proof -
  define m where "m = (if ghas (tp_txHashMap p) (hash_hex tx) then Some tx
    else map_option (deref p) (map_of (tp_txSenderMap p) (lookup_sender tx)))"
  have "m = None"
  proof (rule ccontr)
    assume "m \<noteq> None"
    then obtain x where x: "m = Some x" by blast
    with f e have n: "GetIndex p x = None" "\<not> is_collapse x"
      by (auto simp: findPoolTransaction_def Let_def m_def lookup_sender_def split: if_splits option.splits)
    show False
    proof (cases "map_of (tp_txHashMap p) (hash_hex tx)")
      case None
      then obtain q where "map_of (tp_txSenderMap p) (lookup_sender tx) = Some q" "x = deref p q"
        using x by (auto simp: m_def ghas_def)
      then show False using n sender_facts(4) [OF inv] by (auto simp: GetIndex_None)
    next
      case (Some q)
      then have "x = tx" "same_key tx (deref p q)" using x a by (auto simp: m_def ghas_def agrees_def)
      then show False using n hash_facts(2) [OF inv Some] by (auto simp: GetIndex_None same_key_def)
    qed
  qed
  then show "map_of (tp_txHashMap p) (hash_hex tx) = None" "map_of (tp_txSenderMap p) (lookup_sender tx) = None"
    by (auto simp: m_def ghas_def split: if_splits)
qed

text \<open>
  \<open>removed_only p X Y p'\<close>: the pool \<open>p'\<close> is \<open>p\<close> without some transactions, and every pending transaction that has
  none of the hashes \<open>X\<close> and none of the senders \<open>Y\<close> is still there.
\<close>

definition removed_only :: "Pool \<Rightarrow> string set \<Rightarrow> string set \<Rightarrow> Pool \<Rightarrow> bool" where
  "removed_only p X Y p' \<longleftrightarrow> pool_inv p' \<and> deref p' = deref p \<and> tp_mu p' = tp_mu p
    \<and> map_of (tp_txHashMap p') \<subseteq>\<^sub>m map_of (tp_txHashMap p) \<and> map_of (tp_txSenderMap p') \<subseteq>\<^sub>m map_of (tp_txSenderMap p)
    \<and> set (tp_pending p') \<subseteq> set (tp_pending p)
    \<and> (\<forall>q \<in> set (tp_pending p). hash_hex (deref p q) \<notin> X \<and> from_hex (deref p q) \<notin> Y \<longrightarrow> q \<in> set (tp_pending p'))"

lemma removed_only_refl: "pool_inv p \<Longrightarrow> removed_only p X Y p"
  by (simp add: removed_only_def)

lemma removed_only_trans:
  assumes "removed_only p X Y p'" "removed_only p' X' Y' p''"
  shows "removed_only p (X \<union> X') (Y \<union> Y') p''"
  using assms map_le_trans unfolding removed_only_def by (auto intro: map_le_trans)

lemma removed_only_mono: "removed_only p X Y p' \<Longrightarrow> X \<subseteq> X' \<Longrightarrow> Y \<subseteq> Y' \<Longrightarrow> removed_only p X' Y' p'"
  unfolding removed_only_def by blast

lemma removed_only_inv: "removed_only p X Y p' \<Longrightarrow> pool_inv p'"
  by (simp add: removed_only_def)

lemma map_le_restrict: "m |` A \<subseteq>\<^sub>m m"
  by (auto simp: map_le_def restrict_map_def)

lemma map_le_None: "m \<subseteq>\<^sub>m m' \<Longrightarrow> m' k = None \<Longrightarrow> m k = None"
  by (metis domIff map_le_def)

lemma remove_found_only:
  assumes inv: "pool_inv p" and q: "map_of (tp_txHashMap p) (hash_hex rtx) = Some q" and k: "same_key rtx (deref p q)"
    and y: "hash_hex rtx \<in> X \<or> (\<not> is_collapse rtx \<longrightarrow> owners rtx \<subseteq> Y)"
  shows "removed_only p X Y (remove_found p rtx (GetIndex p rtx))"
proof -
  have "hash_hex (deref p q) \<in> X \<or> from_hex (deref p q) \<in> Y" if "q \<in> set (tp_pending p)"
  proof -
    have "\<not> is_collapse rtx" "owners rtx = {from_hex (deref p q)}" "hash_hex (deref p q) = hash_hex rtx"
      using k pending_facts(3) [OF inv that] unfolding same_key_def owners_def [of "deref p q"] by auto
    then show ?thesis using y by simp
  qed
  then show ?thesis
    using remove_found_inv [OF inv q k] unfolding removed_only_def
    by (auto simp: remove_found_maps map_le_restrict)
qed

text \<open>
  \<open>Finalize\<close> handles every transaction but fees and rewards.  A transaction is gone when its hash is not in the pool and, for a standard
  transaction, its sender is free.
\<close>

abbreviation handled :: "Transaction \<Rightarrow> bool" where
  "handled tx \<equiv> tx_txType tx \<notin> {FeeTxType, RewardTxType}"

definition gone :: "Pool \<Rightarrow> Transaction \<Rightarrow> bool" where
  "gone p tx \<longleftrightarrow> map_of (tp_txHashMap p) (hash_hex tx) = None \<and> (IsStandardTx tx \<longrightarrow> map_of (tp_txSenderMap p) (from_hex tx) = None)"

lemma finalize_found:
  assumes inv: "pool_inv p" and a: "agrees p tx" and f: "findPoolTransaction p tx = Inr (rtx, i)"
  shows "removed_only p {hash_hex tx} {lookup_sender tx} (remove_found p rtx i)" "gone (remove_found p rtx i) tx"
proof -
  obtain q where q: "i = GetIndex p rtx" "map_of (tp_txHashMap p) (hash_hex rtx) = Some q" "same_key rtx (deref p q)"
    and c: "hash_hex rtx = hash_hex tx \<and> rtx = tx \<or>
      map_of (tp_txHashMap p) (hash_hex tx) = None \<and> lookup_sender tx \<in> owners rtx \<and> rtx = deref p q"
    using findPoolTransaction_Inr [OF inv a f] by blast
  have y: "hash_hex rtx \<in> {hash_hex tx} \<or> (\<not> is_collapse rtx \<longrightarrow> owners rtx \<subseteq> {lookup_sender tx})"
    using c by (elim disjE) (auto simp: owners_def)
  show "removed_only p {hash_hex tx} {lookup_sender tx} (remove_found p rtx i)"
    unfolding q(1) by (rule remove_found_only [OF inv q(2,3) y])
  have "from_hex tx \<in> owners rtx" if "IsStandardTx tx"
    using c that by (elim disjE) (auto simp: lookup_sender_def owners_def IsStandardTx_def)
  then show "gone (remove_found p rtx i) tx"
    using c by (elim disjE) (simp_all add: gone_def remove_found_maps restrict_map_def)
qed

lemma pool_finalize_tx_ok:
  assumes inv: "pool_inv p" and a: "agrees p tx" and f: "pool_finalize_tx p tx = (p', e)"
  shows "removed_only p {hash_hex tx} {lookup_sender tx} p'" "e = None \<Longrightarrow> handled tx \<Longrightarrow> gone p' tx"
proof -
  show "removed_only p {hash_hex tx} {lookup_sender tx} p'"
    using f removed_only_refl [OF inv] finalize_found(1) [OF inv a]
    by (auto simp: pool_finalize_tx_def split: if_splits sum.splits error.splits)
  assume e: "e = None" and s: "handled tx"
  then have h: "\<not> (utypes_IsSystemTx tx \<and> tx_txType tx \<noteq> CollapseTxType \<and> tx_txType tx \<noteq> ValidatorsUnstakeTxType)"
    by (auto simp: utypes_IsSystemTx_def)
  show "gone p' tx"
  proof (cases "findPoolTransaction p tx")
    case (Inl x)
    then have "p' = p" "\<nexists>m. x = Panic m" using f e h by (auto simp: pool_finalize_tx_def split: error.splits)
    then show ?thesis
      using findPoolTransaction_Inl [OF inv a Inl] by (auto simp: gone_def lookup_sender_def IsStandardTx_def)
  next
    case (Inr r)
    then show ?thesis
      using f h finalize_found(2) [OF inv a] by (cases r) (auto simp: pool_finalize_tx_def)
  qed
qed

lemma gone_mono: "removed_only p X Y p' \<Longrightarrow> gone p tx \<Longrightarrow> gone p' tx"
  by (auto simp: removed_only_def gone_def intro: map_le_None)

lemma agrees_mono: "removed_only p X Y p' \<Longrightarrow> agrees p tx \<Longrightarrow> agrees p' tx"
  unfolding removed_only_def agrees_def
  by (auto split: option.splits) (metis domI map_le_def option.inject option.distinct(1))+

lemma pool_finalize_loop_ok:
  "pool_finalize_loop p txs = (p', e) \<Longrightarrow> pool_inv p \<Longrightarrow> \<forall>tx \<in> set txs. agrees p tx \<Longrightarrow>
    removed_only p (hash_hex ` set txs) (lookup_sender ` set txs) p' \<and>
    (e = None \<longrightarrow> (\<forall>tx \<in> set txs. handled tx \<longrightarrow> gone p' tx))"
proof (induction txs arbitrary: p)
  case (Cons tx txs)
  obtain p1 e1 where t: "pool_finalize_tx p tx = (p1, e1)" by fastforce
  note T = pool_finalize_tx_ok [OF Cons.prems(2) _ t]
  have r: "removed_only p {hash_hex tx} {lookup_sender tx} p1" using T(1) Cons.prems(3) by simp
  show ?case
  proof (cases e1)
    case None
    then have l: "pool_finalize_loop p1 txs = (p', e)" using Cons.prems(1) t by simp
    have "\<forall>tx \<in> set txs. agrees p1 tx" using agrees_mono [OF r] Cons.prems(3) by simp
    note ih = Cons.IH [OF l removed_only_inv [OF r] this]
    have "removed_only p (hash_hex ` set (tx # txs)) (lookup_sender ` set (tx # txs)) p'"
      using removed_only_trans [OF r conjunct1 [OF ih]] by simp
    moreover have "gone p' tx" if "e = None" "handled tx"
      using gone_mono [OF conjunct1 [OF ih]] T(2) that None Cons.prems(3) by simp
    ultimately show ?thesis using ih by simp
  next
    case (Some x)
    then show ?thesis
      using Cons.prems(1) t removed_only_mono [OF r, of "hash_hex ` set (tx # txs)" "lookup_sender ` set (tx # txs)"] by auto
  qed
qed (simp add: removed_only_refl)

lemma cleanUpSystemUnstake_ok:
  assumes inv: "pool_inv p" and c: "cleanUpSystemUnstake p tx = (p', e)"
  shows "removed_only p {} {Address_Hex (in_address (hd (tx_inputs tx)))} p'"
proof (cases "p' = p")
  case True
  then show ?thesis by (simp add: removed_only_refl [OF inv])
next
  case False
  define a where "a = Address_Hex (in_address (hd (tx_inputs tx)))"
  obtain q where q: "map_of (tp_txSenderMap p) a = Some q" and t: "\<not> is_collapse (deref p q)"
    and p': "p' = remove_found p (deref p q) (GetIndex p (deref p q))"
    using c False
    by (auto simp: cleanUpSystemUnstake_def findProblematicStakeTx_def Let_def a_def
        split: list.splits sum.splits option.splits if_splits)
  have "owners (deref p q) \<subseteq> {a}" using sender_facts(2) [OF inv q] t by (simp add: owners_def)
  then show ?thesis
    unfolding p' a_def [symmetric]
    by (intro remove_found_only [OF inv sender_facts(1) [OF inv q]]) (simp_all add: same_key_flags)
qed

lemma clean_unstakes_ok:
  "clean_unstakes p txs = (p', e) \<Longrightarrow> pool_inv p \<Longrightarrow>
   removed_only p {} ((\<lambda>tx. Address_Hex (in_address (hd (tx_inputs tx)))) ` set txs) p'"
proof (induction txs arbitrary: p)
  case (Cons tx txs)
  obtain p1 e1 where t: "cleanUpSystemUnstake p tx = (p1, e1)" by fastforce
  note r = cleanUpSystemUnstake_ok [OF Cons.prems(2) t]
  show ?case
  proof (cases e1)
    case None
    then have "clean_unstakes p1 txs = (p', e)" using Cons.prems(1) t by simp
    from removed_only_trans [OF r Cons.IH [OF this removed_only_inv [OF r]]] show ?thesis by simp
  next
    case (Some x)
    then show ?thesis using Cons.prems(1) t removed_only_mono [OF r, of "{}"] by auto
  qed
qed (simp add: removed_only_refl)

lemma Pool_Finalize_ok:
  assumes "Pool_Finalize p txs = Some (p', e)" "pool_inv p" "\<forall>tx \<in> set txs. agrees p tx"
  shows "removed_only p (hash_hex ` set txs) (lookup_sender ` set txs) p'"
    "e = None \<Longrightarrow> tx \<in> set txs \<Longrightarrow> handled tx \<Longrightarrow> gone p' tx"
proof -
  obtain p1 e1 where l: "pool_finalize_loop p txs = (p1, e1)" by fastforce
  note L = pool_finalize_loop_ok [OF l assms(2,3)]
  let ?V = "filter (\<lambda>tx. tx_txType tx = ValidatorsUnstakeTxType) txs"
  have c: "removed_only p1 {} (lookup_sender ` set txs) p'" if "clean_unstakes p1 ?V = (p', e)"
    by (rule removed_only_mono [OF clean_unstakes_ok [OF that removed_only_inv [OF conjunct1 [OF L]]]])
      (auto simp: lookup_sender_def)
  have r: "removed_only p1 {} (lookup_sender ` set txs) p' \<and> (e = None \<longrightarrow> e1 = None)"
    using assms(1) l c removed_only_refl [OF removed_only_inv [OF conjunct1 [OF L]]]
    by (auto simp: Pool_Finalize_def split: if_splits option.splits)
  show "removed_only p (hash_hex ` set txs) (lookup_sender ` set txs) p'"
    using removed_only_trans [OF conjunct1 [OF L] conjunct1 [OF r]] by simp
  show "e = None \<Longrightarrow> tx \<in> set txs \<Longrightarrow> handled tx \<Longrightarrow> gone p' tx"
    using L r gone_mono [OF conjunct1 [OF r]] by blast
qed

lemma DeleteTransaction_ok:
  assumes inv: "pool_inv p" and a: "agrees p tx" and d: "DeleteTransaction p tx = Some (p', e)"
  shows "pool_inv p'"
proof (cases "GetIndex p tx")
  case None
  then show ?thesis using d inv by (simp add: DeleteTransaction_def)
next
  case (Some i)
  then have p': "p' = remove_found p tx (GetIndex p tx)" using d by (simp add: DeleteTransaction_def split: if_splits)
  have "map_of (tp_txHashMap p) (hash_hex tx) = Some (tp_pending p ! i)"
    using pending_facts(1) [OF inv, of "tp_pending p ! i"] GetIndex_Some [OF Some] by simp
  then show ?thesis unfolding p' using a by (intro remove_found_inv(1) [OF inv]) (auto simp: agrees_def)
qed

subsection \<open>Inserting keeps the invariant\<close>

text \<open>A new object at the end of the store that takes over the pending list \<open>P\<close>.\<close>

lemma pool_inv_add:
  assumes inv: "pool_inv p" and H: "map_of (tp_txHashMap p) (hash_hex tx) = None"
    and S: "\<forall>s \<in> owners tx. map_of (tp_txSenderMap p) s = None"
    and ok: "gomap_ok H'" "map_of H' = (map_of (tp_txHashMap p))(hash_hex tx \<mapsto> length (tp_heap p))"
      "gomap_ok S'" "map_of S' = (\<lambda>s. if s \<in> owners tx then Some (length (tp_heap p)) else map_of (tp_txSenderMap p) s)"
    and P: "distinct P" "set P = (if is_collapse tx then set (tp_pending p) else insert (length (tp_heap p)) (set (tp_pending p)))"
  shows "pool_inv (p\<lparr>tp_heap := tp_heap p @ [tx], tp_txHashMap := H', tp_txSenderMap := S', tp_pending := P\<rparr>)"
proof -
  define n where "n = length (tp_heap p)"
  define d where "d = deref (p\<lparr>tp_heap := tp_heap p @ [tx]\<rparr>)"
  obtain L where L: "pool_rel n (deref p) (map_of (tp_txSenderMap p)) (map_of (tp_txHashMap p)) (set (tp_pending p)) L"
    using inv by (auto simp: pool_inv_def n_def)
  have "\<forall>q < n. same_key (deref p q) (d q)" by (simp add: d_def deref_def nth_append n_def same_key_flags)
  then have L': "pool_rel (Suc n) d (map_of (tp_txSenderMap p)) (map_of (tp_txHashMap p)) (set (tp_pending p)) L"
    by (rule pool_rel_cong [OF L, rotated]) simp
  have dn: "d n = tx" by (simp add: d_def deref_def n_def)
  have "n \<notin> L" using L by (auto simp: pool_rel_def)
  with pool_rel_add [OF L', of n] H S have r: "pool_rel (Suc n) d (map_of S') (map_of H') (set P) (insert n L)"
    unfolding dn ok(2,4) P(2) n_def [symmetric] by simp
  have "deref (p\<lparr>tp_heap := tp_heap p @ [tx], tp_txHashMap := H', tp_txSenderMap := S', tp_pending := P\<rparr>) = d"
    by (simp add: d_def deref_def)
  with r ok P show ?thesis by (auto simp: pool_inv_def n_def)
qed

lemma pool_inv_other [simp]:
  "pool_inv (p\<lparr>tp_stakeTxMap := m\<rparr>) = pool_inv p" "pool_inv (p\<lparr>tp_mu := b\<rparr>) = pool_inv p"
  "pool_inv (p\<lparr>tp_swapLock := b\<rparr>) = pool_inv p"
  by (simp_all add: pool_inv_def)

lemma pool_inv_same:
  "pool_inv p \<Longrightarrow> tp_heap p' = tp_heap p \<Longrightarrow> tp_txHashMap p' = tp_txHashMap p \<Longrightarrow> tp_txSenderMap p' = tp_txSenderMap p \<Longrightarrow>
   tp_pending p' = tp_pending p \<Longrightarrow> pool_inv p'"
  by (simp add: pool_inv_def deref_def [abs_def])

lemma map_of_gput: "map_of (gput k v m) = (map_of m)(k \<mapsto> v)"
  by (auto simp: map_of_update)

lemma finalizeInsert_inv:
  assumes "pool_inv p" "\<not> is_collapse tx" "map_of (tp_txHashMap p) (hash_hex tx) = None" "map_of (tp_txSenderMap p) (from_hex tx) = None"
  shows "pool_inv (finalizeInsert p tx)"
proof -
  let ?n = "length (tp_heap p)"
  have "?n \<notin> set (tp_pending p)" using pending_facts(4) [OF assms(1)] by blast
  then have "pool_inv (p\<lparr>tp_heap := tp_heap p @ [tx], tp_txHashMap := gput (hash_hex tx) ?n (tp_txHashMap p),
      tp_txSenderMap := gput (from_hex tx) ?n (tp_txSenderMap p), tp_pending := tp_pending p @ [?n]\<rparr>)"
    using assms by (intro pool_inv_add) (auto simp: pool_inv_def owners_def map_of_gput)
  then show ?thesis
    by (cases "tx_txType tx = StakeTxType") (simp_all add: finalizeInsert_def new_object_def pool_inv_def deref_def)
qed

lemma cleanWorst_inv:
  assumes s: "sort_ok srt" and inv: "pool_inv p" and c: "cleanWorst srt p = (p', e)"
  shows "pool_inv p'"
proof -
  define r where "r = GetQueue srt p"
  have ri: "pool_inv r" using GetQueue_inv [OF s inv] by (simp add: r_def)
  show ?thesis
  proof (cases "tp_pending r = []")
    case True
    then show ?thesis using c ri by (simp add: cleanWorst_def Let_def r_def)
  next
    case False
    define i q where "i = length (tp_pending r) - 1" and "q = tp_pending r ! i"
    define tx where "tx = deref r q"
    have i: "tp_pending r = take i (tp_pending r) @ [q]"
      using False append_butlast_last_id [of "tp_pending r"] by (simp add: i_def q_def last_conv_nth butlast_conv_take)
    have d: "distinct (tp_pending r)" using ri by (simp add: pool_inv_def)
    have "set (tp_pending r) = insert q (set (take i (tp_pending r)))" using i by (metis list.set(1,2) set_append Un_insert_right sup_bot.right_neutral)
    moreover have "q \<notin> set (take i (tp_pending r))" using d i by (metis distinct_append disjoint_insert(1) list.set(2) Int_commute)
    ultimately have P: "set (take i (tp_pending r)) = set (tp_pending r) - {q}" "q \<in> set (tp_pending r)" by auto
    note f = pending_facts [OF ri P(2)]
    have "pool_inv (r\<lparr>tp_txHashMap := gdel (hash_hex tx) (tp_txHashMap r), tp_txSenderMap := gdel (from_hex tx) (tp_txSenderMap r),
        tp_pending := take i (tp_pending r)\<rparr>)"
      using ri f P d by (intro pool_inv_remove [OF ri f(1)]) (auto simp: tx_def map_of_gdel owners_def pool_inv_def)
    then have "pool_inv ((r\<lparr>tp_txHashMap := gdel (hash_hex tx) (tp_txHashMap r), tp_txSenderMap := gdel (from_hex tx) (tp_txSenderMap r),
        tp_pending := take i (tp_pending r)\<rparr>)\<lparr>tp_heap := (tp_heap r)[q := Drop tx]\<rparr>)" (is "pool_inv ?z")
      using pool_inv_flag [of "r\<lparr>tp_txHashMap := gdel (hash_hex tx) (tp_txHashMap r), tp_txSenderMap := gdel (from_hex tx) (tp_txSenderMap r),
        tp_pending := take i (tp_pending r)\<rparr>" q "Drop tx"] by (simp add: tx_def same_key_flags)
    moreover have "p' = ?z"
      using c False by (auto simp: cleanWorst_def Let_def r_def [symmetric] i_def q_def tx_def)
    ultimately show ?thesis by simp
  qed
qed

lemma validateTx_standard: "validateTx cv p tx = None \<Longrightarrow> IsStandardTx tx"
  by (auto simp: validateTx_def ValidateTransactionStruct_def)

lemma standard_not_collapse: "IsStandardTx tx \<Longrightarrow> \<not> is_collapse tx"
  by (auto simp: IsStandardTx_def)

lemma swap_inv:
  assumes inv: "pool_inv p" and std: "IsStandardTx tx" and h: "map_of (tp_txHashMap p) (hash_hex tx) = None"
    and q: "map_of (tp_txSenderMap p) (from_hex tx) = Some q" "\<not> is_collapse (deref p q)"
    and s: "swap p q tx = Some (p', e)"
  shows "pool_inv p'"
proof -
  let ?n = "length (tp_heap p)" and ?old = "deref p q"
  note f = sender_facts [OF inv q(1)]
  have qp: "q \<in> set (tp_pending p)" "from_hex ?old = from_hex tx" using f(4) q(2) by auto
  define r where "r = p\<lparr>tp_txHashMap := gdel (hash_hex ?old) (tp_txHashMap p), tp_txSenderMap := gdel (from_hex tx) (tp_txSenderMap p),
    tp_pending := remove1 q (tp_pending p)\<rparr>"
  have r: "pool_inv r"
    unfolding r_def using inv q(2) qp by (intro pool_inv_remove [OF inv f(1)]) (auto simp: map_of_gdel owners_def pool_inv_def)
  have n: "?n \<notin> set (tp_pending p)" using pending_facts(4) [OF inv] by blast
  have d: "distinct (tp_pending p)" using inv by (simp add: pool_inv_def)
  let ?p1 = "p\<lparr>tp_heap := tp_heap p @ [tx]\<rparr>"
  consider "tp_swapLock p \<or> tx_forged ?old" | (old) i where "GetIndex ?p1 ?old = Some i" "\<not> (tp_swapLock p \<or> tx_forged ?old)"
    | "GetIndex ?p1 ?old = None" "\<not> (tp_swapLock p \<or> tx_forged ?old)" by fastforce
  then show ?thesis
  proof cases
    case 1
    then show ?thesis using inv s by (auto simp: swap_def split: if_splits)
  next
    case (old i)
    have p': "tp_heap p' = tp_heap p @ [tx]" "tp_txHashMap p' = gput (hash_hex tx) ?n (gdel (hash_hex ?old) (tp_txHashMap p))"
      "tp_txSenderMap p' = gput (from_hex tx) ?n (tp_txSenderMap p)" "tp_pending p' = (tp_pending p)[i := ?n]"
      using s old by (auto simp: swap_def new_object_def Let_def SwapByHash_def)
    have i: "i < length (tp_pending p)" "tp_pending p ! i = q"
    proof -
      note gi = GetIndex_Some [OF old(1)]
      show i: "i < length (tp_pending p)" using gi(1) by simp
      then have "tp_pending p ! i \<in> set (tp_pending p)" by simp
      note pf = pending_facts [OF inv this]
      have "deref (p\<lparr>tp_heap := tp_heap p @ [tx]\<rparr>) (tp_pending p ! i) = deref p (tp_pending p ! i)"
        using pf(4) by (simp add: deref_def nth_append)
      then have "hash_hex (deref p (tp_pending p ! i)) = hash_hex ?old" using gi(2) by simp
      then have "Some (tp_pending p ! i) = Some q" by (simp only: pf(1) [symmetric] f(1) [symmetric])
      then show "tp_pending p ! i = q" by simp
    qed
    have "pool_inv (r\<lparr>tp_heap := tp_heap r @ [tx], tp_txHashMap := gput (hash_hex tx) ?n (gdel (hash_hex ?old) (tp_txHashMap p)),
        tp_txSenderMap := gput (from_hex tx) ?n (tp_txSenderMap p), tp_pending := (tp_pending p)[i := ?n]\<rparr>)" (is "pool_inv ?z")
      using inv r h n d i std
      by (intro pool_inv_add [OF r])
        (auto simp: r_def map_of_gdel map_of_gput owners_def pool_inv_def restrict_map_def standard_not_collapse
          set_update_distinct distinct_list_update)
    then show ?thesis by (rule pool_inv_same) (simp_all add: p' r_def)
  next
    case 3
    have p': "p' = ?p1" using s 3 by (simp add: swap_def new_object_def Let_def SwapByHash_def)
    have "pool_inv (p\<lparr>tp_heap := tp_heap p @ [tx]\<rparr>)"
      using inv pool_rel_cong [of ?n "deref p" _ _ _ _ "Suc ?n" "deref (p\<lparr>tp_heap := tp_heap p @ [tx]\<rparr>)"]
      by (fastforce simp: pool_inv_def deref_def nth_append same_key_flags)
    then show ?thesis using p' by simp
  qed
qed

lemma Insert_inv:
  assumes s: "sort_ok srt" and inv: "pool_inv p" and i: "Insert srt cv p tx = Some (p', e)"
  shows "pool_inv p'"
proof (cases "map_of (tp_txSenderMap p) (from_hex tx)")
  case None
  have fin: "pool_inv (finalizeInsert p tx)" if "validateTx cv p tx = None" "map_of (tp_txHashMap p) (hash_hex tx) = None"
    using that None by (intro finalizeInsert_inv [OF inv]) (simp_all add: validateTx_standard standard_not_collapse)
  then show ?thesis
    using i None inv cleanWorst_inv [OF s fin]
    by (auto simp: Insert_def ghas_def Let_def split: if_splits option.splits)
next
  case (Some q)
  have "pool_inv p'" if "processDoubleSpend cv p q tx = Some (p', e)" "map_of (tp_txHashMap p) (hash_hex tx) = None"
    using that inv swap_inv [OF inv _ that(2) Some] validateTx_standard [of cv p tx]
    by (auto simp: processDoubleSpend_def Let_def split: if_splits option.splits)
  then show ?thesis using i Some inv by (auto simp: Insert_def ghas_def split: if_splits)
qed

lemma map_of_fold_gput: "map_of (fold (\<lambda>s m. gput s q m) ks m) = (\<lambda>s. if s \<in> set ks then Some q else map_of m s)"
  by (induction ks arbitrary: m) (auto simp: map_of_update fun_eq_iff)

lemma gomap_ok_fold_gput: "gomap_ok m \<Longrightarrow> gomap_ok (fold (\<lambda>s m. gput s q m) ks m)"
  by (induction ks arbitrary: m) auto

definition fresh_hashes :: "Pool \<Rightarrow> Transaction list \<Rightarrow> bool" where
  "fresh_hashes p txs \<longleftrightarrow> distinct (map hash_hex txs) \<and> (\<forall>tx \<in> set txs. \<not> ghas (tp_txHashMap p) (hash_hex tx))"

lemma insert_collapse_inv:
  "insert_collapse_loop p txs = (p', e) \<Longrightarrow> pool_inv p \<Longrightarrow> fresh_hashes p txs \<Longrightarrow> pool_inv p'"
proof (induction txs arbitrary: p)
  case (Cons tx txs)
  let ?n = "length (tp_heap p)"
  define r where "r = p\<lparr>tp_heap := tp_heap p @ [tx], tp_txHashMap := gput (hash_hex tx) ?n (tp_txHashMap p),
    tp_txSenderMap := fold (\<lambda>s m. gput s ?n m) (input_senders tx) (tp_txSenderMap p), tp_pending := tp_pending p\<rparr>"
  show ?case
  proof (cases "is_collapse tx \<and> \<not> (\<exists>s \<in> set (input_senders tx). ghas (tp_txSenderMap p) s)")
    case True
    then have l: "insert_collapse_loop r txs = (p', e)"
      using Cons.prems(1) by (simp add: new_object_def Let_def r_def)
    have "pool_inv r"
      unfolding r_def using True Cons.prems(2,3)
      by (intro pool_inv_add [OF Cons.prems(2)])
        (auto simp: owners_def ghas_def fresh_hashes_def map_of_gput map_of_fold_gput gomap_ok_fold_gput pool_inv_def)
    moreover have "fresh_hashes r txs" using Cons.prems(3) by (auto simp: fresh_hashes_def r_def) (metis image_eqI)
    ultimately show ?thesis using Cons.IH [OF l] by blast
  next
    case False
    then show ?thesis using Cons.prems(1,2) by (auto simp: Let_def split: if_splits)
  qed
qed simp

lemma clear_forged_inv: "pool_inv p \<Longrightarrow> pool_inv (clear_forged_loop p txs)"
  by (induction txs arbitrary: p) (auto simp: pool_inv_flag same_key_flags split: option.split)

subsection \<open>Sequences of calls\<close>

datatype pool_op =
    PInsert CryspValidator Transaction
  | PCollapse "Transaction list"
  | PFinalize "Transaction list"
  | PDelete Transaction
  | PForge ptr
  | PClearForged Block
  | PQueue
  | PLock
  | PUnlock

fun pool_apply :: "sorter \<Rightarrow> Pool \<Rightarrow> pool_op \<Rightarrow> pool_call" where
  "pool_apply srt p (PInsert cv tx) = Insert srt cv p tx"
| "pool_apply srt p (PCollapse txs) = InsertCollapseTx p txs"
| "pool_apply srt p (PFinalize txs) = Pool_Finalize p txs"
| "pool_apply srt p (PDelete tx) = DeleteTransaction p tx"
| "pool_apply srt p (PForge q) = Some (forge_object p q, None)"
| "pool_apply srt p (PClearForged b) = ClearForged p b"
| "pool_apply srt p PQueue = Some (GetQueue srt p, None)"
| "pool_apply srt p PLock = LockPool p"
| "pool_apply srt p PUnlock = UnlockPool p"

text \<open>A call that waits for a mutex changes nothing. Transactions that are removed agree with the pooled ones of their hash.\<close>

definition pool_step :: "sorter \<Rightarrow> Pool \<Rightarrow> pool_op \<Rightarrow> Pool" where
  "pool_step srt p c = (case pool_apply srt p c of None \<Rightarrow> p | Some (p, _) \<Rightarrow> p)"

fun pool_guard :: "Pool \<Rightarrow> pool_op \<Rightarrow> bool" where
  "pool_guard p (PCollapse txs) = fresh_hashes p txs"
| "pool_guard p (PFinalize txs) = (\<forall>tx \<in> set txs. agrees p tx)"
| "pool_guard p (PDelete tx) = agrees p tx"
| "pool_guard p _ = True"

lemma pool_step_inv:
  assumes "sort_ok srt" "pool_inv p" "pool_guard p c"
  shows "pool_inv (pool_step srt p c)"
proof (cases "pool_apply srt p c")
  case None
  then show ?thesis using assms(2) by (simp add: pool_step_def)
next
  case (Some r)
  obtain p' e where r: "r = (p', e)" by fastforce
  have "pool_inv p'"
  proof (cases c)
    case (PInsert cv tx)
    then show ?thesis using Some r Insert_inv [OF assms(1,2)] by simp
  next
    case (PCollapse txs)
    then show ?thesis
      using Some r insert_collapse_inv [OF _ assms(2)] assms(3) by (auto simp: InsertCollapseTx_def split: if_splits)
  next
    case (PFinalize txs)
    then show ?thesis using Some r removed_only_inv [OF Pool_Finalize_ok(1)] assms(2,3) by simp
  next
    case (PDelete tx)
    then show ?thesis using Some r DeleteTransaction_ok [OF assms(2)] assms(3) by simp
  next
    case (PForge q)
    then show ?thesis
      using Some r pool_inv_flag [OF assms(2) same_key_flags(2)] by (auto simp: forge_object_def)
  next
    case (PClearForged b)
    then show ?thesis using Some r clear_forged_inv [OF assms(2)] by (auto simp: ClearForged_def split: if_splits)
  next
    case PQueue
    then show ?thesis using Some r GetQueue_inv [OF assms(1,2)] by auto
  next
    case PLock
    then show ?thesis using Some r assms(2) by (auto simp: LockPool_def split: if_splits)
  next
    case PUnlock
    then show ?thesis using Some r assms(2) by (auto simp: UnlockPool_def)
  qed
  then show ?thesis using Some r by (simp add: pool_step_def)
qed

text \<open>A call sequence with a sort function that keeps its contract is a guarded system with the pool's invariant.\<close>

definition pool_ok :: "sorter \<Rightarrow> Pool \<Rightarrow> bool" where
  "pool_ok srt p \<longleftrightarrow> sort_ok srt \<and> pool_inv p"

interpretation pool_calls: guarded_system "pool_step srt" pool_guard "pool_ok srt" for srt
  by unfold_locales (auto simp: pool_ok_def intro: pool_step_inv)

subsection \<open>The order of the queue\<close>

lemma txLess_order:
  "asymp (\<lambda>i j. txLess (d i) (d j))" "transp (\<lambda>i j. txLess (d i) (d j))" "transp (\<lambda>i j. \<not> txLess (d j) (d i))"
  by (auto simp: txLess_def intro!: asympI transpI split: if_splits)

lemma GetQueue_sorted:
  assumes "sort_ok srt"
  shows "sorted_wrt (\<lambda>i j. \<not> txLess (deref p j) (deref p i)) (tp_pending (GetQueue srt p))"
    "mset (tp_pending (GetQueue srt p)) = mset (tp_pending p)"
  using assms txLess_order [of "deref p"] by (simp_all add: sort_ok_def GetQueue_def)

lemma not_txLess_fee: "\<not> txLess b a \<Longrightarrow> tx_feePrice b \<le> tx_feePrice a \<and> (tx_feePrice b = tx_feePrice a \<longrightarrow> tx_timestamp a \<le> tx_timestamp b)"
  by (auto simp: txLess_def split: if_splits)

text \<open>An insertion sort, as an instance of the parameter.\<close>

fun insert_by :: "('a \<Rightarrow> 'a \<Rightarrow> bool) \<Rightarrow> 'a \<Rightarrow> 'a list \<Rightarrow> 'a list" where
  "insert_by lt x [] = [x]"
| "insert_by lt x (y # ys) = (if lt y x then y # insert_by lt x ys else x # y # ys)"

definition insertion_sort :: "('a \<Rightarrow> 'a \<Rightarrow> bool) \<Rightarrow> 'a list \<Rightarrow> 'a list" where
  "insertion_sort lt xs = foldr (insert_by lt) xs []"

lemma mset_insert_by [simp]: "mset (insert_by lt x ys) = add_mset x (mset ys)"
  by (induction ys) auto

lemma set_insert_by [simp]: "set (insert_by lt x ys) = insert x (set ys)"
  by (induction ys) auto

lemma sorted_insert_by:
  assumes "asymp lt" "transp (\<lambda>x y. \<not> lt y x)"
  shows "sorted_wrt (\<lambda>x y. \<not> lt y x) ys \<Longrightarrow> sorted_wrt (\<lambda>x y. \<not> lt y x) (insert_by lt x ys)"
proof (induction ys)
  case (Cons y ys)
  then show ?case using assms by (auto dest: asympD) (metis transpD)
qed simp

lemma insertion_sort_ok: "sort_ok insertion_sort"
proof -
  have "mset (insertion_sort lt xs) = mset xs" for lt xs
    by (induction xs) (simp_all add: insertion_sort_def)
  moreover have "asymp lt \<Longrightarrow> transp (\<lambda>x y. \<not> lt y x) \<Longrightarrow> sorted_wrt (\<lambda>x y. \<not> lt y x) (insertion_sort lt xs)" for lt xs
    by (induction xs) (simp_all add: insertion_sort_def sorted_insert_by)
  ultimately show ?thesis by (auto simp: sort_ok_def)
qed

subsection \<open>Properties of the transaction pool\<close>

text \<open>
  C6. Whatever calls the pool gets from the network, the forger and the block finalization, the pending transactions have
  pairwise different hashes and pairwise different senders, the hash and the sender map point to every one of them,
  and every sender entry leads to a transaction that is still in the pool and that spends for that sender.  (Collapse transactions enter with new hashes,
  and a transaction of a block that has the hash of a pooled one is supposed to have its kind and senders.  The map of pending stakes is not covered.)
\<close>

theorem pool_consistent:
  assumes "sort_ok srt" "legal_ops pool_guard (pool_step srt) NewPool ops" "p = run_ops (pool_step srt) NewPool ops"
  shows "distinct (map (\<lambda>q. hash_hex (deref p q)) (tp_pending p)) \<and> distinct (map (\<lambda>q. from_hex (deref p q)) (tp_pending p))
    \<and> (\<forall>q \<in> set (tp_pending p). map_of (tp_txHashMap p) (hash_hex (deref p q)) = Some q
         \<and> map_of (tp_txSenderMap p) (from_hex (deref p q)) = Some q)
    \<and> (\<forall>s q. map_of (tp_txSenderMap p) s = Some q \<longrightarrow>
         map_of (tp_txHashMap p) (hash_hex (deref p q)) = Some q \<and> s \<in> owners (deref p q))"
proof -
  have "pool_ok srt NewPool" using assms(1) by (simp add: pool_ok_def pool_inv_new)
  from pool_calls.run_inv [OF this assms(2)] have i: "pool_inv p" by (simp add: pool_ok_def assms(3))
  show ?thesis
    using pool_inv_distinct [OF i] pending_facts(1,2) [OF i] sender_facts(1,2) [OF i] by blast
qed

theorem pool_consistent_witness:
  "let tx = NewTransaction (demo_collapse 0 [demo_in 1 5 4, demo_in 2 6 6] []);
       p = run_ops (pool_step insertion_sort) NewPool [PLock, PCollapse [tx], PQueue, PUnlock] in
   (\<forall>s q. map_of (tp_txSenderMap p) s = Some q \<longrightarrow>
      map_of (tp_txHashMap p) (hash_hex (deref p q)) = Some q \<and> s \<in> owners (deref p q))
   \<and> map_of (tp_txSenderMap p) (Address_Hex (replicate 20 6)) = Some 0"
proof -
  define tx where "tx = NewTransaction (demo_collapse 0 [demo_in 1 5 4, demo_in 2 6 6] [])"
  define ops where "ops = [PLock, PCollapse [tx], PQueue, PUnlock]"
  have l: "legal_ops pool_guard (pool_step insertion_sort) NewPool ops"
    by (simp add: ops_def pool_step_def LockPool_def fresh_hashes_def NewPool_def)
  have "map_of (tp_txSenderMap (run_ops (pool_step insertion_sort) NewPool ops)) (Address_Hex (replicate 20 6)) = Some 0"
    unfolding ops_def tx_def by code_simp
  then show ?thesis
    using pool_consistent [OF insertion_sort_ok l refl] by (simp add: Let_def ops_def tx_def)
qed

text \<open>
  The map of pending stakes is not covered by the invariant, because \<open>swap\<close> breaks its agreement with the queue: a stake that replaces a stake of
  the same sender is entered and then deleted with the old one, so that it is pending but not counted.
\<close>

lemma swap_loses_stake:
  assumes "swap p old tx = Some (p', None)" "\<not> tx_forged (deref p old)"
    and "tx_txType tx = StakeTxType" "tx_txType (deref p old) = StakeTxType" "from_hex (deref p old) = from_hex tx"
  shows "map_of (tp_txSenderMap p') (from_hex tx) = Some (length (tp_heap p)) \<and> \<not> ghas (tp_stakeTxMap p') (from_hex tx)"
  using assms by (auto simp: swap_def new_object_def Let_def map_of_update map_of_gdel ghas_def split: if_splits prod.splits option.splits)

text \<open>
  A pooled transaction whose hash has been removed has released all addresses that it had reserved, every sender of a collapse
  transaction included.
\<close>

lemma removed_releases:
  assumes r: "removed_only p X Y p'" and inv: "pool_inv p" and a: "agrees p tx" and q: "map_of (tp_txHashMap p) (hash_hex tx) = Some q"
    and g: "map_of (tp_txHashMap p') (hash_hex tx) = None" and s: "s \<in> owners tx"
  shows "map_of (tp_txSenderMap p') s = None"
proof (rule ccontr)
  assume "map_of (tp_txSenderMap p') s \<noteq> None"
  then obtain q' where q': "map_of (tp_txSenderMap p') s = Some q'" by blast
  have k: "same_key tx (deref p q)" using a q by (simp add: agrees_def)
  have "map_of (tp_txSenderMap p) s = Some q" using hash_facts(3) [OF inv q] s k by (simp add: same_key_def)
  moreover have "map_of (tp_txSenderMap p) s = Some q'" using r q' by (metis domI map_le_def removed_only_def)
  ultimately have "deref p' q' = deref p q" using r by (simp add: removed_only_def)
  then have "map_of (tp_txHashMap p') (hash_hex tx) = Some q'"
    using sender_facts(1) [OF removed_only_inv [OF r] q'] k by (simp add: same_key_def)
  then show False using g by simp
qed

text \<open>
  C7. After \<open>Finalize\<close> no transaction of the pool has the hash of a transaction of the block, fees and rewards aside (\<open>Finalize\<close> passes over
  these); a transaction of the block that was in the pool has released every address that it had reserved, all senders of a collapse transaction included; and no transaction of
  the pool has the sender of a standard transaction of the block.  Every pending transaction whose hash and sender do not occur in the block stays pending; nothing is added.
\<close>

theorem finalize_clears_block:
  assumes "pool_inv p" "Pool_Finalize p txs = Some (p', None)" "\<forall>tx \<in> set txs. agrees p tx"
  shows "(\<forall>tx \<in> set txs. tx_txType tx \<notin> {FeeTxType, RewardTxType} \<longrightarrow> \<not> ghas (tp_txHashMap p') (hash_hex tx)
      \<and> (\<forall>q \<in> set (tp_pending p'). hash_hex (deref p' q) \<noteq> hash_hex tx)
      \<and> (ghas (tp_txHashMap p) (hash_hex tx) \<longrightarrow> (\<forall>s \<in> owners tx. \<not> ghas (tp_txSenderMap p') s)))
    \<and> (\<forall>tx \<in> set txs. IsStandardTx tx \<longrightarrow> \<not> ghas (tp_txSenderMap p') (from_hex tx)
      \<and> (\<forall>q \<in> set (tp_pending p'). from_hex (deref p' q) \<noteq> from_hex tx))
    \<and> set (tp_pending p') \<subseteq> set (tp_pending p)
    \<and> (\<forall>q \<in> set (tp_pending p). hash_hex (deref p q) \<notin> hash_hex ` set txs \<and> from_hex (deref p q) \<notin> lookup_sender ` set txs
         \<longrightarrow> q \<in> set (tp_pending p'))"
proof -
  note F = Pool_Finalize_ok [OF assms(2,1,3)]
  have i: "pool_inv p'" by (rule removed_only_inv [OF F(1)])
  have g: "gone p' tx" if "tx \<in> set txs" "handled tx" for tx using F(2) [OF refl that] .
  have std: "handled tx" if "IsStandardTx tx" for tx using that by (auto simp: IsStandardTx_def)
  have 1: "\<not> ghas (tp_txHashMap p') (hash_hex tx) \<and> (\<forall>q \<in> set (tp_pending p'). hash_hex (deref p' q) \<noteq> hash_hex tx)
      \<and> (ghas (tp_txHashMap p) (hash_hex tx) \<longrightarrow> (\<forall>s \<in> owners tx. \<not> ghas (tp_txSenderMap p') s))" if tx: "tx \<in> set txs" "handled tx" for tx
    using g [OF tx] pending_facts(1) [OF i] removed_releases [OF F(1) assms(1) bspec [OF assms(3) tx(1)]]
    by (fastforce simp: gone_def ghas_def)
  have 2: "\<not> ghas (tp_txSenderMap p') (from_hex tx) \<and> (\<forall>q \<in> set (tp_pending p'). from_hex (deref p' q) \<noteq> from_hex tx)"
    if tx: "tx \<in> set txs" "IsStandardTx tx" for tx
    using g [OF tx(1) std [OF tx(2)]] tx(2) pending_facts(2) [OF i] by (fastforce simp: gone_def ghas_def)
  show ?thesis using 1 2 F(1) by (simp add: removed_only_def)
qed

text \<open>A pool with one pending transaction.\<close>

definition demo_txpool :: Pool where
  "demo_txpool = finalizeInsert NewPool (NewTransaction (demo_tx 1))"

lemma demo_txpool_inv: "pool_inv demo_txpool"
  unfolding demo_txpool_def
  by (rule finalizeInsert_inv [OF pool_inv_new]) (simp_all add: NewPool_def demo_tx_def)

theorem finalize_clears_block_witness:
  "\<exists>p'. Pool_Finalize demo_txpool [NewTransaction (demo_tx 1)] = Some (p', None) \<and> tp_pending demo_txpool = [0]
     \<and> \<not> ghas (tp_txSenderMap p') (from_hex (NewTransaction (demo_tx 1)))"
proof -
  have e: "map_option snd (Pool_Finalize demo_txpool [NewTransaction (demo_tx 1)]) = Some None" by code_simp
  then obtain p' where f: "Pool_Finalize demo_txpool [NewTransaction (demo_tx 1)] = Some (p', None)" by auto
  have a: "\<forall>tx \<in> set [NewTransaction (demo_tx 1)]. agrees demo_txpool tx" by code_simp
  have "tp_pending demo_txpool = [0]" by code_simp
  moreover have "IsStandardTx (NewTransaction (demo_tx 1))" by code_simp
  ultimately show ?thesis using finalize_clears_block [OF demo_txpool_inv f a] f by auto
qed

text \<open>
  The queue that the forger reads holds the pending transactions, all of them and nothing else, by falling fee price and
  among equal prices by rising timestamp, whichever order the unstable sort gives to equal ones.
\<close>

theorem queue_by_fee:
  assumes "sort_ok srt" "i < j" "j < length (tp_pending (GetQueue srt p))"
  shows "(let queue = tp_pending (GetQueue srt p) in
     tx_feePrice (deref p (queue ! j)) \<le> tx_feePrice (deref p (queue ! i))
     \<and> (tx_feePrice (deref p (queue ! j)) = tx_feePrice (deref p (queue ! i)) \<longrightarrow>
          tx_timestamp (deref p (queue ! i)) \<le> tx_timestamp (deref p (queue ! j)))
     \<and> mset queue = mset (tp_pending p) \<and> deref (GetQueue srt p) = deref p)"
proof -
  have "\<not> txLess (deref p (tp_pending (GetQueue srt p) ! j)) (deref p (tp_pending (GetQueue srt p) ! i))"
    using GetQueue_sorted(1) [OF assms(1), of p] assms(2,3) by (simp add: sorted_wrt_iff_nth_less)
  from not_txLess_fee [OF this] show ?thesis
    using GetQueue_sorted(2) [OF assms(1), of p] by (simp add: Let_def) (simp add: GetQueue_def)
qed

theorem queue_by_fee_witness:
  "let p = NewPool\<lparr>tp_heap := [NewTransaction (demo_tx 1), NewTransaction ((demo_tx 2)\<lparr>pt_Fee := 3\<rparr>)], tp_pending := [0, 1]\<rparr> in
   length (tp_pending (GetQueue insertion_sort p)) = 2 \<and>
   tx_feePrice (deref p (tp_pending (GetQueue insertion_sort p) ! 1)) \<le> tx_feePrice (deref p (tp_pending (GetQueue insertion_sort p) ! 0))"
proof -
  define p where "p = NewPool\<lparr>tp_heap := [NewTransaction (demo_tx 1), NewTransaction ((demo_tx 2)\<lparr>pt_Fee := 3\<rparr>)], tp_pending := [0, 1]\<rparr>"
  have l: "length (tp_pending (GetQueue insertion_sort p)) = 2" unfolding p_def by code_simp
  then show ?thesis
    using queue_by_fee [OF insertion_sort_ok, of 0 1 p] unfolding p_def [symmetric] Let_def by simp
qed

text \<open>
  A second transaction of a sender with the same number replaces the pending one only if it pays less: with a higher
  fee price it is refused as too cheap, with a lower one and a valid content it takes the place of the pending one.
\<close>

theorem replacement_prefers_cheaper:
  assumes "pool_inv p" "\<not> tp_mu p" "\<not> tp_swapLock p" "\<not> ghas (tp_txHashMap p) (hash_hex tx)" "from_hex tx \<noteq> ''''"
    and "map_of (tp_txSenderMap p) (from_hex tx) = Some q" "\<not> is_collapse (deref p q)" "\<not> tx_forged (deref p q)"
    and "tx_num (deref p q) = tx_num tx"
  shows "(tx_feePrice (deref p q) < tx_feePrice tx \<longrightarrow> Insert srt cv p tx = Some (p, Some (Errorf ''Too cheap tx'')))
    \<and> (tx_feePrice tx < tx_feePrice (deref p q) \<longrightarrow> validateTx cv p tx = None \<longrightarrow>
        (\<exists>p' n. Insert srt cv p tx = Some (p', None) \<and> map_of (tp_txSenderMap p') (from_hex tx) = Some n
           \<and> deref p' n = tx \<and> n \<in> set (tp_pending p') \<and> \<not> ghas (tp_txHashMap p') (hash_hex (deref p q))))"
proof -
  let ?n = "length (tp_heap p)" and ?p1 = "p\<lparr>tp_heap := tp_heap p @ [tx]\<rparr>"
  have i: "Insert srt cv p tx = processDoubleSpend cv p q tx" using assms by (simp add: Insert_def)
  note f = sender_facts [OF assms(1,6)]
  have dq: "deref ?p1 q = deref p q" using f(3) by (simp add: deref_def nth_append)
  have "GetIndex ?p1 (deref p q) \<noteq> None"
    using f(4) assms(7) dq unfolding GetIndex_None by fastforce
  then obtain k where k: "GetIndex ?p1 (deref p q) = Some k" by blast
  then have kl: "k < length (tp_pending p)" using GetIndex_Some(1) [OF k] by simp
  have h: "hash_hex tx \<noteq> hash_hex (deref p q)" using assms(4) f(1) by (auto simp: ghas_def)
  define p' where "p' = fst (the (swap p q tx))"
  have s: "swap p q tx = Some (p', None)" "tp_txSenderMap p' = gput (from_hex tx) ?n (tp_txSenderMap p)"
    "tp_txHashMap p' = gput (hash_hex tx) ?n (gdel (hash_hex (deref p q)) (tp_txHashMap p))"
    "tp_heap p' = tp_heap p @ [tx]" "tp_pending p' = (tp_pending p)[k := ?n]"
    using assms k by (auto simp: p'_def swap_def new_object_def Let_def SwapByHash_def)
  have "deref p' ?n = tx" "map_of (tp_txSenderMap p') (from_hex tx) = Some ?n" "\<not> ghas (tp_txHashMap p') (hash_hex (deref p q))"
    "?n \<in> set (tp_pending p')"
    using s h kl by (auto simp: deref_def map_of_gput ghas_def map_of_update map_of_delete set_update_memI)
  moreover have "tx_feePrice (deref p q) < tx_feePrice tx \<Longrightarrow> Insert srt cv p tx = Some (p, Some (Errorf ''Too cheap tx''))"
    using i assms(7,9) by (auto simp: processDoubleSpend_def Let_def txLess_def)
  moreover have "Insert srt cv p tx = Some (p', None)" if "tx_feePrice tx < tx_feePrice (deref p q)" "validateTx cv p tx = None"
    using i s(1) assms(7,9) that by (auto simp: processDoubleSpend_def Let_def txLess_def)
  ultimately show ?thesis by blast
qed

theorem replacement_prefers_cheaper_witness:
  "Insert insertion_sort demo_cv demo_txpool (NewTransaction ((demo_tx 1)\<lparr>pt_Fee := 2, pt_Hash := replicate 32 9\<rparr>))
     = Some (demo_txpool, Some (Errorf ''Too cheap tx''))"
proof -
  define tx where "tx = NewTransaction ((demo_tx 1)\<lparr>pt_Fee := 2, pt_Hash := replicate 32 9\<rparr>)"
  have h: "\<not> tp_mu demo_txpool" "\<not> tp_swapLock demo_txpool" "\<not> ghas (tp_txHashMap demo_txpool) (hash_hex tx)" "from_hex tx \<noteq> ''''"
    "map_of (tp_txSenderMap demo_txpool) (from_hex tx) = Some 0" "\<not> is_collapse (deref demo_txpool 0)"
    "\<not> tx_forged (deref demo_txpool 0)" "tx_num (deref demo_txpool 0) = tx_num tx"
    "tx_feePrice (deref demo_txpool 0) < tx_feePrice tx"
    unfolding tx_def by code_simp+
  show ?thesis
    unfolding tx_def [symmetric]
    using replacement_prefers_cheaper [OF demo_txpool_inv h(1-8), of insertion_sort demo_cv] h(9) by blast
qed

text \<open>
  A transaction without inputs stops the pool: \<open>Insert\<close> refuses it but keeps the mutex, and from then on inserting,
  finalizing a block, reserving collapse transactions and clearing the forged marks wait forever.
\<close>

theorem inputless_tx_blocks_pool:
  assumes "\<not> tp_mu p" "\<not> ghas (tp_txHashMap p) (hash_hex (NewTransaction pb))" "pt_Inputs pb = []"
  shows "\<exists>p'. Insert srt cv p (NewTransaction pb) = Some (p', Some (Errorf ''Wrong sender''))
    \<and> Insert srt cv' p' tx = None \<and> Pool_Finalize p' txs = None \<and> InsertCollapseTx p' txs = None \<and> ClearForged p' b = None"
proof -
  have "from_hex (NewTransaction pb) = ''''"
    using assms(3) by (simp add: from_hex_def NewTransaction_def Address_Hex_def Let_def)
  then show ?thesis
    using assms by (simp add: Insert_def Pool_Finalize_def InsertCollapseTx_def ClearForged_def)
qed

theorem inputless_tx_blocks_pool_witness:
  "\<exists>p'. Insert insertion_sort demo_cv demo_txpool (NewTransaction ((demo_tx 2)\<lparr>pt_Inputs := []\<rparr>)) = Some (p', Some (Errorf ''Wrong sender''))
     \<and> Pool_Finalize p' [NewTransaction (demo_tx 1)] = None"
proof -
  have "\<not> tp_mu demo_txpool" "\<not> ghas (tp_txHashMap demo_txpool) (hash_hex (NewTransaction ((demo_tx 2)\<lparr>pt_Inputs := []\<rparr>)))" by code_simp+
  from inputless_tx_blocks_pool [OF this, of insertion_sort demo_cv demo_cv "NewTransaction (demo_tx 1)" "[NewTransaction (demo_tx 1)]"]
  show ?thesis by fastforce
qed

end
