(* ===== verification/Slot.thy ===== *)
theory Slot
  imports Consensus
begin

text \<open>
  The slot ticker (\<^verbatim>\<open>blockchain/core/slot/slot.go\<close>): how it starts from the genesis time, which slot number every tick
  delivers, and the epoch bookkeeping.  A point in time is the number of nanoseconds since the Unix epoch, a duration a
  number of nanoseconds kept in 64 bits.  The readings of the clock are arguments: \<open>t1\<close> is the first one, \<open>t2\<close> the one
  after the wait of \<open>calculateTimeSince\<close>, \<open>t3\<close> the one of \<open>currentSlot\<close>.  The goroutine that \<open>Start\<close> leaves behind is the
  pair of the ticker and its local \<open>nextTickTime\<close>.  The clock drift check, which only logs, is not modelled.
\<close>

subsection \<open>Times and durations\<close>

definition second :: int where "second = 1000000000"

text \<open>\<^verbatim>\<open>%\<close> and \<^verbatim>\<open>/\<close> truncate towards zero.\<close>

definition go_rem :: "int \<Rightarrow> int \<Rightarrow> int" where
  "go_rem a b = a - go_quot a b * b"

definition dur_Truncate :: "int \<Rightarrow> int \<Rightarrow> int" where
  "dur_Truncate d m = (if m \<le> 0 then d else d - go_rem d m)"

definition Unix :: "int \<Rightarrow> int" where
  "Unix t = t div second"

text \<open>The zero time of Go is the start of the year 1.\<close>

definition IsZero :: "int \<Rightarrow> bool" where
  "IsZero t \<longleftrightarrow> t = -62135596800 * second"

subsection \<open>The ticker\<close>

record SlotTicker =
  sk_slot :: uint64
  sk_epoch :: uint64
  sk_startEpochSlot :: uint64
  sk_lastEpochSlot :: uint64
  sk_slotDuration :: int
  sk_slotSec :: int
  sk_genesisTime :: int

definition NewSlotTicker :: "RDOBlockChainConfig \<Rightarrow> SlotTicker" where
  "NewSlotTicker cfg = \<lparr>sk_slot = 0, sk_epoch = 0, sk_startEpochSlot = 0, sk_lastEpochSlot = 0,
     sk_slotDuration = go_int (cf_SlotTime cfg * second), sk_slotSec = cf_SlotTime cfg,
     sk_genesisTime = -62135596800 * second\<rparr>"

definition calculateTimeSince :: "SlotTicker \<Rightarrow> int \<Rightarrow> int \<Rightarrow> int \<Rightarrow> error + int" where
  "calculateTimeSince st genesisTime t1 t2 =
    (let timePassed = dur_sat (t1 - genesisTime); interval = go_quot (sk_slotDuration st) 5 in
     if interval = 0 then Inl (Panic ''integer divide by zero'')
     else (let zone = go_rem (go_quot timePassed interval) 5 in
       if zone = 0 \<or> zone = 4 then Inr (dur_sat (t2 - genesisTime)) else Inr timePassed))"

definition currentSlot :: "SlotTicker \<Rightarrow> int \<Rightarrow> int \<Rightarrow> error + uint64" where
  "currentSlot st genesisTime t3 =
    (if Unix t3 < Unix genesisTime then Inr 0
     else if sk_slotSec st = 0 then Inl (Panic ''integer divide by zero'')
     else Inr (word_of_int (go_quot (Unix t3 - Unix genesisTime) (sk_slotSec st))))"

definition currentEpoch :: "RDOBlockChainConfig \<Rightarrow> SlotTicker \<Rightarrow> error + uint64" where
  "currentEpoch cfg st = (if cf_SlotsPerEpoch cfg = 0 then Inl (Panic ''integer divide by zero'')
     else Inr (sk_slot st div cf_SlotsPerEpoch cfg))"

definition nextTick :: "SlotTicker \<Rightarrow> int \<Rightarrow> int \<Rightarrow> int" where
  "nextTick st genesisTime timePassed =
    (if timePassed < sk_slotDuration st then genesisTime
     else genesisTime + go_int (dur_Truncate timePassed (sk_slotDuration st) + sk_slotDuration st))"

definition Start :: "RDOBlockChainConfig \<Rightarrow> SlotTicker \<Rightarrow> int \<Rightarrow> int \<Rightarrow> int \<Rightarrow> int \<Rightarrow> error + SlotTicker \<times> int" where
  "Start cfg st genesisTime t1 t2 t3 =
    (if IsZero genesisTime then Inl (Errorf ''zero Genesis time'')
     else (let st = st\<lparr>sk_genesisTime := genesisTime\<rparr> in
       case calculateTimeSince st genesisTime t1 t2 of
         Inl e \<Rightarrow> Inl e
       | Inr timePassed \<Rightarrow>
          (case currentSlot st genesisTime t3 of
             Inl e \<Rightarrow> Inl e
           | Inr slot \<Rightarrow>
              (let st = st\<lparr>sk_slot := slot\<rparr> in
               case currentEpoch cfg st of
                 Inl e \<Rightarrow> Inl e
               | Inr epoch \<Rightarrow>
                  (let start = epoch * cf_SlotsPerEpoch cfg in
                   Inr (st\<lparr>sk_epoch := epoch, sk_startEpochSlot := start, sk_lastEpochSlot := start + cf_SlotsPerEpoch cfg\<rparr>,
                        nextTick st genesisTime timePassed))))))"

definition StartFromTimestamp :: "RDOBlockChainConfig \<Rightarrow> SlotTicker \<Rightarrow> uint64 \<Rightarrow> int \<Rightarrow> int \<Rightarrow> int \<Rightarrow> error + SlotTicker \<times> int" where
  "StartFromTimestamp cfg st tstamp t1 t2 t3 = Start cfg st (sint tstamp) t1 t2 t3"

text \<open>One round of the goroutine: the slot number that is delivered, the ticker and the time of the next round.\<close>

definition tick :: "RDOBlockChainConfig \<Rightarrow> SlotTicker \<times> int \<Rightarrow> uint64 \<times> SlotTicker \<times> int" where
  "tick cfg g = (case g of (st, next) \<Rightarrow>
    (let slot = sk_slot st + 1; st' = st\<lparr>sk_slot := slot\<rparr>;
         st' = (if slot mod cf_SlotsPerEpoch cfg = 0 \<and> 0 < slot
                then st'\<lparr>sk_epoch := sk_epoch st + 1, sk_startEpochSlot := slot, sk_lastEpochSlot := slot + cf_SlotsPerEpoch cfg\<rparr>
                else st') in
     (sk_slot st, st', next + sk_slotDuration st)))"

definition Slot :: "SlotTicker \<Rightarrow> uint64" where "Slot st = sk_slot st"

definition Epoch :: "SlotTicker \<Rightarrow> uint64" where "Epoch st = sk_epoch st"

definition IsLastEpochSlot :: "SlotTicker \<Rightarrow> bool" where
  "IsLastEpochSlot st \<longleftrightarrow> sk_slot st = sk_lastEpochSlot st"

definition GenesisAfter :: "SlotTicker \<Rightarrow> int \<Rightarrow> bool" where
  "GenesisAfter st now \<longleftrightarrow> now < sk_genesisTime st"

definition GenesisTime :: "SlotTicker \<Rightarrow> int" where
  "GenesisTime st = sk_genesisTime st"

text \<open>The goroutine after a number of rounds.\<close>

fun ticks :: "RDOBlockChainConfig \<Rightarrow> nat \<Rightarrow> SlotTicker \<times> int \<Rightarrow> SlotTicker \<times> int" where
  "ticks cfg 0 g = g"
| "ticks cfg (Suc n) g = snd (tick cfg (ticks cfg n g))"

subsection \<open>Epochs\<close>

text \<open>\<open>far\<close>: the slot number is far enough from \<open>2 ^ 64\<close> for \<open>n\<close> more rounds.\<close>

definition far :: "RDOBlockChainConfig \<Rightarrow> SlotTicker \<Rightarrow> nat \<Rightarrow> bool" where
  "far cfg st n \<longleftrightarrow> unat (sk_slot st) + unat (cf_SlotsPerEpoch cfg) + n < 2 ^ 64"

definition epoch_inv :: "RDOBlockChainConfig \<Rightarrow> SlotTicker \<Rightarrow> bool" where
  "epoch_inv cfg st \<longleftrightarrow> cf_SlotsPerEpoch cfg \<noteq> 0 \<and> unat (sk_epoch st) = unat (sk_slot st) div unat (cf_SlotsPerEpoch cfg)
    \<and> unat (sk_startEpochSlot st) = unat (sk_epoch st) * unat (cf_SlotsPerEpoch cfg)
    \<and> unat (sk_lastEpochSlot st) = unat (sk_startEpochSlot st) + unat (cf_SlotsPerEpoch cfg)"

lemma Start_fields:
  assumes "Start cfg st g t1 t2 t3 = Inr (st', next)"
  shows "sk_genesisTime st' = g" "cf_SlotsPerEpoch cfg \<noteq> 0" "sk_epoch st' = sk_slot st' div cf_SlotsPerEpoch cfg"
    "sk_startEpochSlot st' = sk_epoch st' * cf_SlotsPerEpoch cfg"
    "sk_lastEpochSlot st' = sk_startEpochSlot st' + cf_SlotsPerEpoch cfg"
    "sk_slotDuration st' = sk_slotDuration st" "currentSlot st g t3 = Inr (sk_slot st')"
    "\<exists>p. calculateTimeSince st g t1 t2 = Inr p \<and> next = nextTick st g p"
  using assms
  by (auto simp: Start_def Let_def currentEpoch_def currentSlot_def calculateTimeSince_def nextTick_def
      split: sum.splits if_splits)

lemma epoch_inv_Start:
  assumes "Start cfg st g t1 t2 t3 = Inr (st', next)" "far cfg st' 0"
  shows "epoch_inv cfg st'"
proof -
  note F = Start_fields(2-5) [OF assms(1)]
  let ?n = "unat (cf_SlotsPerEpoch cfg)" and ?s = "unat (sk_slot st')"
  have e: "unat (sk_epoch st') = ?s div ?n" by (simp add: F(2) unat_div)
  have le: "?s div ?n * ?n \<le> ?s" by (rule div_times_less_eq_dividend)
  have b: "unat (sk_startEpochSlot st') = ?s div ?n * ?n"
    using order.strict_trans1 [OF le, of "2 ^ 64"] assms(2) by (simp add: F(3) unat_word_ariths e far_def del: div_mult_self1_is_m)
  moreover have "?s div ?n * ?n + ?n < 2 ^ 64" using le assms(2) unfolding far_def by linarith
  ultimately have "unat (sk_lastEpochSlot st') = ?s div ?n * ?n + ?n" by (simp add: F(4) unat_add64)
  then show ?thesis using F(1) e b by (simp add: epoch_inv_def)
qed

lemma tick_fields:
  "sk_slot (fst (snd (tick cfg (st, next)))) = sk_slot st + 1"
  "sk_slotDuration (fst (snd (tick cfg (st, next)))) = sk_slotDuration st"
  "fst (tick cfg (st, next)) = sk_slot st" "snd (snd (tick cfg (st, next))) = next + sk_slotDuration st"
  by (simp_all add: tick_def Let_def)

lemma div_Suc_mod: "0 < n \<Longrightarrow> Suc s div n = (if Suc s mod n = 0 then Suc (s div n) else s div (n::nat))"
  by (simp add: div_Suc)

lemma epoch_inv_tick:
  assumes "epoch_inv cfg st" "far cfg st 1"
  shows "epoch_inv cfg (fst (snd (tick cfg (st, next))))"
proof -
  let ?n = "unat (cf_SlotsPerEpoch cfg)" and ?s = "unat (sk_slot st)"
  have n: "0 < ?n" using assms(1) by (simp add: epoch_inv_def unat_gt_0)
  have s1: "unat (sk_slot st + 1) = Suc ?s" using assms(2) by (simp add: unat_add64 far_def)
  have pos: "0 < sk_slot st + 1" using s1 by (simp add: word_less_nat_alt)
  have m: "(sk_slot st + 1) mod cf_SlotsPerEpoch cfg = 0 \<longleftrightarrow> Suc ?s mod ?n = 0"
    using unat_mod [of "sk_slot st + 1" "cf_SlotsPerEpoch cfg"] s1 by (metis unat_0 unat_eq_zero)
  show ?thesis
  proof (cases "Suc ?s mod ?n = 0")
    case True
    have "Suc (?s div ?n) < 2 ^ 64" using div_le_dividend [of ?s ?n] assms(2) unfolding far_def by linarith
    then have e: "unat (sk_epoch st + 1) = Suc (?s div ?n)"
      using assms(1) by (simp add: epoch_inv_def unat_add64)
    have l: "unat (sk_slot st + 1 + cf_SlotsPerEpoch cfg) = Suc ?s + ?n"
      using assms(2) s1 by (simp add: far_def unat_add64 [of "sk_slot st + 1"])
    have "Suc ?s = Suc ?s div ?n * ?n" using True by (metis add.right_neutral div_mult_mod_eq)
    then have "Suc ?s = Suc (?s div ?n) * ?n" using True n by (simp add: div_Suc_mod)
    then show ?thesis
      using assms(1) True m pos s1 e l n by (simp add: tick_def Let_def epoch_inv_def div_Suc_mod)
  next
    case False
    then show ?thesis
      using assms(1) m s1 n by (simp add: tick_def Let_def epoch_inv_def div_Suc_mod)
  qed
qed

lemma far_tick: "far cfg st (Suc n) \<Longrightarrow> far cfg (fst (snd (tick cfg (st, next)))) n"
  by (simp add: far_def tick_fields unat_add64)

lemma ticks_slot:
  "sk_slot (fst (ticks cfg n (st, next))) = sk_slot st + word_of_nat n"
  "sk_slotDuration (fst (ticks cfg n (st, next))) = sk_slotDuration st"
  "snd (ticks cfg n (st, next)) = next + int n * sk_slotDuration st"
proof (induction n)
  case (Suc n)
  { case 1
    then show ?case using Suc by (cases "ticks cfg n (st, next)") (simp add: tick_fields) }
  { case 2
    then show ?case using Suc by (cases "ticks cfg n (st, next)") (simp add: tick_fields) }
  { case 3
    then show ?case using Suc by (cases "ticks cfg n (st, next)") (simp add: tick_fields algebra_simps) }
qed simp_all

lemma ticks_far: "far cfg st (n + m) \<Longrightarrow> far cfg (fst (ticks cfg n (st, next))) m"
  by (simp add: far_def ticks_slot unat_add64 unat_of_nat)

lemma ticks_inv: "epoch_inv cfg st \<Longrightarrow> far cfg st n \<Longrightarrow> epoch_inv cfg (fst (ticks cfg n (st, next)))"
proof (induction n)
  case (Suc n)
  have "epoch_inv cfg (fst (ticks cfg n (st, next)))" using Suc by (simp add: far_def)
  moreover have "far cfg (fst (ticks cfg n (st, next))) 1" using Suc.prems(2) by (intro ticks_far) simp
  ultimately show ?case by (cases "ticks cfg n (st, next)") (simp add: epoch_inv_tick)
qed simp

lemma epoch_inv_not_last:
  assumes "epoch_inv cfg st"
  shows "sk_startEpochSlot st \<le> sk_slot st" "sk_slot st < sk_lastEpochSlot st" "\<not> IsLastEpochSlot st"
proof -
  let ?n = "unat (cf_SlotsPerEpoch cfg)" and ?s = "unat (sk_slot st)"
  have n: "0 < ?n" using assms by (simp add: epoch_inv_def unat_gt_0)
  have i: "unat (sk_startEpochSlot st) = ?s div ?n * ?n" "unat (sk_lastEpochSlot st) = ?s div ?n * ?n + ?n"
    using assms by (simp_all add: epoch_inv_def)
  show "sk_startEpochSlot st \<le> sk_slot st" using i(1) by (simp add: word_le_nat_alt)
  have "?s < ?s div ?n * ?n + ?n" using n by (metis add.commute dividend_less_div_times)
  then show l: "sk_slot st < sk_lastEpochSlot st" using i(2) by (simp add: word_less_nat_alt)
  then show "\<not> IsLastEpochSlot st" by (simp add: IsLastEpochSlot_def)
qed

subsection \<open>Which slot a tick delivers\<close>

text \<open>A reading of the clock that lies in slot number \<open>s\<close>, counted from genesis.\<close>

definition in_slot :: "RDOBlockChainConfig \<Rightarrow> int \<Rightarrow> nat \<Rightarrow> int \<Rightarrow> bool" where
  "in_slot cfg g s t \<longleftrightarrow> (t - g) div (cf_SlotTime cfg * second) = int s"

text \<open>A genesis time of whole seconds, as \<open>currentSlot\<close> compares seconds, and a slot length that fits.\<close>

definition clock_ok :: "RDOBlockChainConfig \<Rightarrow> int \<Rightarrow> nat \<Rightarrow> bool" where
  "clock_ok cfg g s \<longleftrightarrow> 0 < cf_SlotTime cfg \<and> g mod second = 0 \<and> (int s + 1) * (cf_SlotTime cfg * second) < 2 ^ 63"

lemma second_pos [simp]: "0 < second" "second \<noteq> 0" "0 \<le> second"
  by (simp_all add: second_def)

lemma in_slot_bounds:
  assumes "in_slot cfg g s t" "0 < cf_SlotTime cfg"
  shows "int s * (cf_SlotTime cfg * second) \<le> t - g" "t - g < (int s + 1) * (cf_SlotTime cfg * second)"
proof -
  let ?D = "cf_SlotTime cfg * second"
  have D: "0 < ?D" using assms(2) by simp
  have "int s * ?D + (t - g) mod ?D = t - g"
    using assms(1) div_mult_mod_eq [of "t - g" ?D] by (simp only: in_slot_def)
  moreover have "0 \<le> (t - g) mod ?D" "(t - g) mod ?D < ?D"
    using pos_mod_bound [OF D] pos_mod_sign [OF D] by simp_all
  moreover have "(int s + 1) * ?D = int s * ?D + ?D" by (simp add: distrib_right)
  ultimately show "int s * ?D \<le> t - g" "t - g < (int s + 1) * ?D" by linarith+
qed

lemma dur_sat_nonneg: "0 \<le> d \<Longrightarrow> d < 2 ^ 63 \<Longrightarrow> dur_sat d = d"
  by (simp add: dur_sat_def)

lemma clock_ok_0:
  assumes "clock_ok cfg g s"
  shows "clock_ok cfg g 0"
proof -
  let ?D = "cf_SlotTime cfg * second"
  have "0 \<le> int s * ?D" "(int s + 1) * ?D = int s * ?D + ?D" using assms by (simp_all add: clock_ok_def distrib_right)
  moreover have "(int s + 1) * ?D < 2 ^ 63" using assms by (simp add: clock_ok_def)
  ultimately have "?D < 2 ^ 63" by linarith
  then show ?thesis using assms by (simp add: clock_ok_def)
qed

lemma slot_duration:
  assumes "clock_ok cfg g s"
  shows "sk_slotDuration (NewSlotTicker cfg) = cf_SlotTime cfg * second" "0 < cf_SlotTime cfg * second"
proof -
  show p: "0 < cf_SlotTime cfg * second" using assms by (simp add: clock_ok_def)
  then show "sk_slotDuration (NewSlotTicker cfg) = cf_SlotTime cfg * second"
    using clock_ok_0 [OF assms] go_int_id [of "cf_SlotTime cfg * second"] by (simp add: NewSlotTicker_def clock_ok_def)
qed

lemma Unix_diff:
  assumes "g mod second = 0"
  shows "Unix t - Unix g = (t - g) div second"
proof -
  obtain q where "g = second * q" using assms by (auto simp: mod_eq_0_iff_dvd)
  moreover have "(t - second * q) div second = t div second - q"
    using div_mult_self1 [of second t "- q"] by (simp add: algebra_simps)
  ultimately show ?thesis by (simp add: Unix_def)
qed

lemma currentSlot_in_slot:
  assumes "clock_ok cfg g s" "in_slot cfg g s t" "currentSlot (NewSlotTicker cfg) g t = Inr w"
  shows "w = word_of_nat s"
proof -
  have S: "0 < cf_SlotTime cfg" "g mod second = 0" using assms(1) by (auto simp: clock_ok_def)
  have "0 \<le> int s * (cf_SlotTime cfg * second)" using S by simp
  then have "0 \<le> t - g" using in_slot_bounds(1) [OF assms(2) S(1)] by linarith
  then have "0 \<le> (t - g) div second" by (simp add: pos_imp_zdiv_nonneg_iff)
  then have nn: "0 \<le> Unix t - Unix g" by (simp only: Unix_diff [OF S(2)])
  have "(t - g) div second div cf_SlotTime cfg = int s"
    using assms(2) S(1) by (simp add: in_slot_def zdiv_zmult2_eq [symmetric] mult.commute)
  then have "go_quot (Unix t - Unix g) (cf_SlotTime cfg) = int s"
    using nn S(1) by (simp add: go_quot_nonneg Unix_diff [OF S(2)])
  then show ?thesis
    using assms(3) nn S(1) by (simp add: currentSlot_def NewSlotTicker_def split: if_splits)
qed

lemma timeSince_in_slot:
  assumes "clock_ok cfg g s" "in_slot cfg g s t1" "in_slot cfg g s t2"
    "calculateTimeSince (NewSlotTicker cfg) g t1 t2 = Inr p"
  shows "in_slot cfg 0 s p" "0 \<le> p" "p < 2 ^ 63"
proof -
  have S: "0 < cf_SlotTime cfg" using assms(1) by (simp add: clock_ok_def)
  have r: "0 \<le> t - g \<and> t - g < 2 ^ 63" if t: "in_slot cfg g s t" for t
  proof -
    have "0 \<le> int s * (cf_SlotTime cfg * second)" using S by simp
    then show ?thesis using in_slot_bounds [OF t S] assms(1) unfolding clock_ok_def by linarith
  qed
  have "p = t1 - g \<or> p = t2 - g"
    using assms(4) r [OF assms(2)] r [OF assms(3)]
    by (auto simp: calculateTimeSince_def Let_def dur_sat_nonneg split: if_splits)
  then show "in_slot cfg 0 s p" "0 \<le> p" "p < 2 ^ 63"
    using r [OF assms(2)] r [OF assms(3)] assms(2,3) by (auto simp: in_slot_def)
qed

lemma nextTick_in_slot:
  assumes ok: "clock_ok cfg g s" and p: "in_slot cfg 0 s p" "0 \<le> p"
  shows "nextTick (NewSlotTicker cfg) g p = (if s = 0 then g else g + (int s + 1) * (cf_SlotTime cfg * second))"
proof -
  let ?D = "cf_SlotTime cfg * second"
  note D = slot_duration [OF ok]
  have S: "0 < cf_SlotTime cfg" and b: "(int s + 1) * ?D < 2 ^ 63" using ok by (auto simp: clock_ok_def)
  note B = in_slot_bounds [OF p(1) S, simplified]
  have z: "p < ?D \<longleftrightarrow> s = 0"
  proof
    assume "p < ?D"
    then have "int s * ?D < 1 * ?D" using B by linarith
    then show "s = 0" using mult_less_cancel_right_pos [OF D(2), of "int s" 1] by simp
  qed (use B in simp)
  have "dur_Truncate p ?D = int s * ?D"
    using p D(2) by (simp add: dur_Truncate_def go_rem_def go_quot_nonneg in_slot_def)
  then have "go_int (dur_Truncate p ?D + ?D) = (int s + 1) * ?D"
  proof -
    have "0 \<le> (int s + 1) * ?D" by (rule mult_nonneg_nonneg [OF _ less_imp_le [OF D(2)]]) simp
    then show ?thesis
      using b \<open>dur_Truncate p ?D = int s * ?D\<close> go_int_id [of "(int s + 1) * ?D"] by (simp add: distrib_right)
  qed
  then show ?thesis using z by (simp add: nextTick_def D(1))
qed

lemma Start_in_slot:
  assumes ok: "clock_ok cfg g s" and t: "in_slot cfg g s t1" "in_slot cfg g s t2" "in_slot cfg g s t3"
    and st: "Start cfg (NewSlotTicker cfg) g t1 t2 t3 = Inr (st, next)"
  shows "sk_slot st = word_of_nat s" "sk_slotDuration st = cf_SlotTime cfg * second"
    "next = (if s = 0 then g else g + (int s + 1) * (cf_SlotTime cfg * second))"
proof -
  note F = Start_fields [OF st]
  show "sk_slot st = word_of_nat s" by (rule currentSlot_in_slot [OF ok t(3) F(7)])
  show "sk_slotDuration st = cf_SlotTime cfg * second" by (simp add: F(6) slot_duration [OF ok])
  obtain p where "calculateTimeSince (NewSlotTicker cfg) g t1 t2 = Inr p" "next = nextTick (NewSlotTicker cfg) g p"
    using F(8) by blast
  then show "next = (if s = 0 then g else g + (int s + 1) * (cf_SlotTime cfg * second))"
    using nextTick_in_slot [OF ok] timeSince_in_slot [OF ok t(1,2)] by simp
qed

lemma ticks_emit:
  "fst (tick cfg (ticks cfg n (st, next))) = sk_slot st + word_of_nat n"
  "snd (ticks cfg n (st, next)) = next + int n * sk_slotDuration st"
  using ticks_slot [of cfg n st "next"] by (cases "ticks cfg n (st, next)"; simp add: tick_fields)+

subsection \<open>Properties\<close>

text \<open>
  C22. From its start on, for as long as the slot numbers stay below \<open>2 ^ 64\<close>, the ticker's epoch is the slot number divided
  by the slots per epoch and the current slot lies between the first slot of the epoch and the first slot of the next;
  therefore \<open>IsLastEpochSlot\<close>, which compares with the latter, is never true.
\<close>

theorem epochs_follow_slots:
  assumes "Start cfg st g t1 t2 t3 = Inr (st0, next0)" "far cfg st0 n"
  defines "st' \<equiv> fst (ticks cfg n (st0, next0))"
  shows "sk_slot st' = sk_slot st0 + word_of_nat n \<and> unat (Epoch st') = unat (Slot st') div unat (cf_SlotsPerEpoch cfg)
    \<and> sk_startEpochSlot st' \<le> Slot st' \<and> Slot st' < sk_lastEpochSlot st' \<and> \<not> IsLastEpochSlot st'"
proof -
  have "epoch_inv cfg st0" using assms(2) by (intro epoch_inv_Start [OF assms(1)]) (simp add: far_def)
  then have i: "epoch_inv cfg st'" unfolding st'_def by (rule ticks_inv [OF _ assms(2)])
  then have "unat (Epoch st') = unat (Slot st') div unat (cf_SlotsPerEpoch cfg)" by (simp add: epoch_inv_def Epoch_def Slot_def)
  then show ?thesis
    using epoch_inv_not_last [OF i] ticks_slot(1) [of cfg n st0 next0] by (simp add: Slot_def st'_def)
qed

text \<open>The ticker of a node with 7 second slots that starts 24 seconds, in slot 3, or 3 seconds after genesis.\<close>

definition demo_started :: "int \<Rightarrow> error + SlotTicker \<times> int" where
  "demo_started t = Start mainnetRDOConfig (NewSlotTicker mainnetRDOConfig) 0 (t * second) (t * second) (t * second)"

lemma demo_started:
  "demo_started 24 = Inr (\<lparr>sk_slot = 3, sk_epoch = 0, sk_startEpochSlot = 0, sk_lastEpochSlot = 200,
     sk_slotDuration = 7000000000, sk_slotSec = 7, sk_genesisTime = 0\<rparr>, 28000000000)"
  "demo_started 3 = Inr (\<lparr>sk_slot = 0, sk_epoch = 0, sk_startEpochSlot = 0, sk_lastEpochSlot = 200,
     sk_slotDuration = 7000000000, sk_slotSec = 7, sk_genesisTime = 0\<rparr>, 0)"
  by (simp_all add: demo_started_def Start_def Let_def IsZero_def second_def calculateTimeSince_def NewSlotTicker_def
      mainnetRDOConfig_def go_int_id go_quot_def go_rem_def dur_sat_def currentSlot_def Unix_def currentEpoch_def nextTick_def
      dur_Truncate_def)

theorem epochs_follow_slots_witness:
  "\<exists>st0 next0. demo_started 24 = Inr (st0, next0) \<and> \<not> IsLastEpochSlot (fst (ticks mainnetRDOConfig 500 (st0, next0)))"
proof -
  obtain st0 next0 where s: "demo_started 24 = Inr (st0, next0)" and "sk_slot st0 = 3" by (simp add: demo_started)
  then have "far mainnetRDOConfig st0 500" by (simp add: far_def mainnetRDOConfig_def)
  then show ?thesis using epochs_follow_slots [OF s [unfolded demo_started_def]] s by blast
qed

text \<open>
  The slot number of a moment depends on when the node was started.  A node started in the first slot after genesis
  and a node started in any later slot \<open>s\<close> tick at the same times from slot \<open>s + 1\<close> on, but at every such tick the first
  delivers a slot number that is one larger than the number the second delivers.
\<close>

theorem slot_depends_on_start:
  assumes "clock_ok cfg g s" "0 < s"
    and "in_slot cfg g 0 a1" "in_slot cfg g 0 a2" "in_slot cfg g 0 a3"
    and "in_slot cfg g s b1" "in_slot cfg g s b2" "in_slot cfg g s b3"
    and "Start cfg (NewSlotTicker cfg) g a1 a2 a3 = Inr A" "Start cfg (NewSlotTicker cfg) g b1 b2 b3 = Inr B"
  shows "snd (ticks cfg (s + 1 + k) A) = snd (ticks cfg k B)
    \<and> fst (tick cfg (ticks cfg (s + 1 + k) A)) = fst (tick cfg (ticks cfg k B)) + 1"
proof -
  obtain a na b nb where ab: "A = (a, na)" "B = (b, nb)" by (cases A; cases B)
  note I = Start_in_slot [OF clock_ok_0 [OF assms(1)] assms(3-5) assms(9) [unfolded ab]] Start_in_slot [OF assms(1,6-8) assms(10) [unfolded ab]]
  show ?thesis using I assms(2) unfolding ab ticks_emit by (simp add: algebra_simps)
qed

theorem slot_depends_on_start_witness:
  "\<exists>A B. demo_started 3 = Inr A \<and> demo_started 24 = Inr B
    \<and> snd (ticks mainnetRDOConfig 5 A) = snd (ticks mainnetRDOConfig 1 B)
    \<and> fst (tick mainnetRDOConfig (ticks mainnetRDOConfig 5 A)) = fst (tick mainnetRDOConfig (ticks mainnetRDOConfig 1 B)) + 1"
proof -
  obtain A B where s: "demo_started 3 = Inr A" "demo_started 24 = Inr B" by (simp add: demo_started)
  have c: "clock_ok mainnetRDOConfig 0 3" "in_slot mainnetRDOConfig 0 0 (3 * second)" "in_slot mainnetRDOConfig 0 3 (24 * second)"
    by (simp_all add: clock_ok_def in_slot_def mainnetRDOConfig_def second_def)
  show ?thesis
    using slot_depends_on_start [OF c(1) _ c(2,2,2) c(3,3,3) s [unfolded demo_started_def], of 1] s by auto
qed

end
