(* ===== verification/Ssz.thy ===== *)
theory Ssz
  imports Kv_Store
begin

text \<open>
  The SSZ byte encoding of blocks, transactions, attestations and network messages
  (\<^verbatim>\<open>proto/prototype/types.pb_encoding.go\<close>, \<^verbatim>\<open>validator/types/attestation_encoding.go\<close>) on top of the library functions of
  \<^verbatim>\<open>vendor/github.com/ferranbt/fastssz/encode.go\<close>, and \<^verbatim>\<open>utils/serialize\<close> on top of it.  An encoder appends to a buffer; a decoder
  fills the object it is called on, appending to its byte fields as the code does.  Sizes and offsets are \<open>nat\<close>; offsets
  are written with 32 bits.

  The locale \<open>ssz_object\<close> is the contract of one encodable type; every type of the wire format interprets it.  Shown: an
  object is encoded exactly when its fields have the sizes of the schema, the encoding has the announced size, decoding
  gives the object back, and whatever bytes are accepted decode to an object that can be encoded again.
\<close>

subsection \<open>The library\<close>

text \<open>\<^verbatim>\<open>buf[a:b]\<close> within the length of the buffer.\<close>

definition slice :: "nat \<Rightarrow> nat \<Rightarrow> bytes \<Rightarrow> bytes" where
  "slice a b buf = take (b - a) (drop a buf)"

definition ErrOffset :: error where "ErrOffset = Sentinel ''incorrect offset''"
definition ErrSize :: error where "ErrSize = Sentinel ''incorrect size''"
definition ErrBytesLength :: error where "ErrBytesLength = Sentinel ''bytes array does not have the correct length''"
definition ErrInvalidVariableOffset :: error where
  "ErrInvalidVariableOffset = Sentinel ''invalid ssz encoding. first variable element offset indexes into fixed value data''"



definition ErrListTooBigFn :: "string \<Rightarrow> nat \<Rightarrow> nat \<Rightarrow> error" where
  "ErrListTooBigFn nm found limit = Errorf (nm @ '' (list length is higher than max value): max expected ''
     @ itoa limit @ '' and '' @ itoa found @ '' found'')"

definition WriteOffset :: "bytes \<Rightarrow> nat \<Rightarrow> bytes" where
  "WriteOffset dst i = MarshalUint32 dst (word_of_nat i)"

definition ReadOffset :: "bytes \<Rightarrow> nat" where
  "ReadOffset buf = unat (UnmarshallUint32 buf)"

definition safeReadOffset :: "bytes \<Rightarrow> error + nat \<times> bytes" where
  "safeReadOffset buf = (if length buf < 4 then Inl (Errorf '''') else Inr (ReadOffset buf, drop 4 buf))"

definition DivideInt2 :: "nat \<Rightarrow> nat \<Rightarrow> nat \<Rightarrow> error + nat" where
  "DivideInt2 a b limit = (if a mod b \<noteq> 0 then Inl (Errorf ''xx'') else if a div b > limit then Inl (Errorf ''yy'') else Inr (a div b))"

definition DecodeDynamicLength :: "bytes \<Rightarrow> nat \<Rightarrow> error + nat" where
  "DecodeDynamicLength buf maxSize =
    (if buf = [] then Inr 0
     else if length buf < 4 then Inl (Errorf ''not enough data'')
     else (let offset = ReadOffset (take 4 buf) in
       if offset mod 4 \<noteq> 0 then Inl (Errorf ''bad'')
       else if offset div 4 > maxSize then Inl (Errorf ''too big for the list'')
       else Inr (offset div 4)))"

text \<open>The loop of \<open>UnmarshalDynamic\<close>; the callback decodes one element into a new object.\<close>

fun unmarshal_dyn_loop :: "(bytes \<Rightarrow> error + 'a) \<Rightarrow> bytes \<Rightarrow> nat \<Rightarrow> nat \<Rightarrow> bytes \<Rightarrow> error + 'a list" where
  "unmarshal_dyn_loop f src 0 offset dst = Inr []"
| "unmarshal_dyn_loop f src (Suc n) offset dst =
    ebind (if n \<noteq> 0 then safeReadOffset dst else Inr (length src, dst)) (\<lambda>r. case r of (endOffset, dst) \<Rightarrow>
      if offset > endOffset then Inl (Errorf ''four'')
      else if endOffset > length src then Inl (Errorf ''five'')
      else ebind (f (slice offset endOffset src)) (\<lambda>x.
        ebind (unmarshal_dyn_loop f src n endOffset dst) (\<lambda>xs. Inr (x # xs))))"

definition UnmarshalDynamic :: "bytes \<Rightarrow> nat \<Rightarrow> (bytes \<Rightarrow> error + 'a) \<Rightarrow> error + 'a list" where
  "UnmarshalDynamic src n f = (if n = 0 then Inr [] else unmarshal_dyn_loop f src n (ReadOffset src) (drop 4 src))"

text \<open>The pieces of the generated code: a byte field of fixed size, the loops over the elements of a list.\<close>

definition append_field :: "string \<Rightarrow> nat \<Rightarrow> bytes \<Rightarrow> bytes \<Rightarrow> error + bytes" where
  "append_field nm n v dst = (if length v \<noteq> n then Inl (ErrBytesLengthFn nm (length v) n) else Inr (dst @ v))"

definition append_bounded :: "string \<Rightarrow> nat \<Rightarrow> bytes \<Rightarrow> bytes \<Rightarrow> error + bytes" where
  "append_bounded nm n v dst = (if length v > n then Inl (ErrBytesLengthFn nm (length v) n) else Inr (dst @ v))"

fun marshal_each :: "(bytes \<Rightarrow> 'a \<Rightarrow> error + bytes) \<Rightarrow> bytes \<Rightarrow> 'a list \<Rightarrow> error + bytes" where
  "marshal_each f dst [] = Inr dst"
| "marshal_each f dst (x # xs) = ebind (f dst x) (\<lambda>dst. marshal_each f dst xs)"

fun write_offsets :: "('a \<Rightarrow> nat) \<Rightarrow> bytes \<Rightarrow> nat \<Rightarrow> 'a list \<Rightarrow> bytes" where
  "write_offsets sz dst offset [] = dst"
| "write_offsets sz dst offset (x # xs) = write_offsets sz (WriteOffset dst offset) (offset + sz x) xs"

text \<open>A list of elements of variable size, and one of elements of fixed size.\<close>

definition marshal_dynamic :: "string \<Rightarrow> nat \<Rightarrow> ('a \<Rightarrow> nat) \<Rightarrow> (bytes \<Rightarrow> 'a \<Rightarrow> error + bytes) \<Rightarrow> 'a list \<Rightarrow> bytes \<Rightarrow> error + bytes" where
  "marshal_dynamic nm limit sz f xs dst =
    (if length xs > limit then Inl (ErrListTooBigFn nm (length xs) limit)
     else marshal_each f (write_offsets sz dst (4 * length xs) xs) xs)"

definition unmarshal_dynamic :: "nat \<Rightarrow> (bytes \<Rightarrow> error + 'a) \<Rightarrow> bytes \<Rightarrow> error + 'a list" where
  "unmarshal_dynamic limit f buf = ebind (DecodeDynamicLength buf limit) (\<lambda>num. UnmarshalDynamic buf num f)"

definition marshal_static :: "string \<Rightarrow> nat \<Rightarrow> (bytes \<Rightarrow> 'a \<Rightarrow> error + bytes) \<Rightarrow> 'a list \<Rightarrow> bytes \<Rightarrow> error + bytes" where
  "marshal_static nm limit f xs dst =
    (if length xs > limit then Inl (ErrListTooBigFn nm (length xs) limit) else marshal_each f dst xs)"

fun unmarshal_static_loop :: "nat \<Rightarrow> (bytes \<Rightarrow> error + 'a) \<Rightarrow> bytes \<Rightarrow> nat \<Rightarrow> nat \<Rightarrow> error + 'a list" where
  "unmarshal_static_loop sz f buf ii 0 = Inr []"
| "unmarshal_static_loop sz f buf ii (Suc n) = ebind (f (slice (ii * sz) ((ii + 1) * sz) buf)) (\<lambda>x.
     ebind (unmarshal_static_loop sz f buf (ii + 1) n) (\<lambda>xs. Inr (x # xs)))"

definition unmarshal_static :: "nat \<Rightarrow> nat \<Rightarrow> (bytes \<Rightarrow> error + 'a) \<Rightarrow> bytes \<Rightarrow> error + 'a list" where
  "unmarshal_static sz limit f buf = ebind (DivideInt2 (length buf) sz limit) (\<lambda>num. unmarshal_static_loop sz f buf 0 num)"

subsection \<open>Signatures, inputs and outputs\<close>

definition new_Sign :: Sign where "new_Sign = \<lparr>sg_Address = [], sg_Signature = []\<rparr>"

definition Sign_MarshalSSZTo :: "bytes \<Rightarrow> Sign \<Rightarrow> error + bytes" where
  "Sign_MarshalSSZTo buf s =
    ebind (append_field ''Sign.Address'' 20 (sg_Address s) buf) (\<lambda>dst.
    append_field ''Sign.Signature'' 65 (sg_Signature s) dst)"

definition Sign_UnmarshalSSZ :: "Sign \<Rightarrow> bytes \<Rightarrow> error + Sign" where
  "Sign_UnmarshalSSZ s buf =
    (if length buf \<noteq> 85 then Inl ErrSize
     else Inr (s\<lparr>sg_Address := sg_Address s @ slice 0 20 buf, sg_Signature := sg_Signature s @ slice 20 85 buf\<rparr>))"

definition Sign_SizeSSZ :: "Sign \<Rightarrow> nat" where "Sign_SizeSSZ s = 85"

definition new_TxInput :: TxInput where
  "new_TxInput = \<lparr>ti_Hash = [], ti_Index = 0, ti_Address = [], ti_Amount = 0, ti_Node = []\<rparr>"

definition TxInput_MarshalSSZTo :: "bytes \<Rightarrow> TxInput \<Rightarrow> error + bytes" where
  "TxInput_MarshalSSZTo buf t =
    (let offset = 68 in
     ebind (append_field ''TxInput.Hash'' 32 (ti_Hash t) buf) (\<lambda>dst.
     let dst = MarshalUint32 dst (ti_Index t) in
     ebind (append_field ''TxInput.Address'' 20 (ti_Address t) dst) (\<lambda>dst.
     let dst = MarshalUint64 dst (ti_Amount t); dst = WriteOffset dst offset in
     append_bounded ''TxInput.Node'' 20 (ti_Node t) dst)))"

definition TxInput_UnmarshalSSZ :: "TxInput \<Rightarrow> bytes \<Rightarrow> error + TxInput" where
  "TxInput_UnmarshalSSZ t buf =
    (let size = length buf; o4 = ReadOffset (slice 64 68 buf) in
     if size < 68 then Inl ErrSize
     else if o4 > size then Inl ErrOffset
     else if o4 < 68 then Inl ErrInvalidVariableOffset
     else if size - o4 > 20 then Inl ErrBytesLength
     else Inr (t\<lparr>ti_Hash := ti_Hash t @ slice 0 32 buf, ti_Index := UnmarshallUint32 (slice 32 36 buf),
        ti_Address := ti_Address t @ slice 36 56 buf, ti_Amount := UnmarshallUint64 (slice 56 64 buf),
        ti_Node := ti_Node t @ drop o4 buf\<rparr>))"

definition new_TxOutput :: TxOutput where
  "new_TxOutput = \<lparr>to_Address = [], to_Amount = 0, to_Node = []\<rparr>"

definition TxOutput_MarshalSSZTo :: "bytes \<Rightarrow> TxOutput \<Rightarrow> error + bytes" where
  "TxOutput_MarshalSSZTo buf t =
    (let offset = 32 in
     ebind (append_field ''TxOutput.Address'' 20 (to_Address t) buf) (\<lambda>dst.
     let dst = MarshalUint64 dst (to_Amount t); dst = WriteOffset dst offset in
     append_bounded ''TxOutput.Node'' 20 (to_Node t) dst))"

definition TxOutput_UnmarshalSSZ :: "TxOutput \<Rightarrow> bytes \<Rightarrow> error + TxOutput" where
  "TxOutput_UnmarshalSSZ t buf =
    (let size = length buf; o2 = ReadOffset (slice 28 32 buf) in
     if size < 32 then Inl ErrSize
     else if o2 > size then Inl ErrOffset
     else if o2 < 32 then Inl ErrInvalidVariableOffset
     else if size - o2 > 20 then Inl ErrBytesLength
     else Inr (t\<lparr>to_Address := to_Address t @ slice 0 20 buf, to_Amount := UnmarshallUint64 (slice 20 28 buf),
        to_Node := to_Node t @ drop o2 buf\<rparr>))"

subsection \<open>Transactions and blocks\<close>

definition new_Transaction :: PbTransaction where
  "new_Transaction = \<lparr>pt_Num = 0, pt_Type = 0, pt_Timestamp = 0, pt_Hash = [], pt_Fee = 0, pt_Data = [], pt_Inputs = [],
     pt_Outputs = [], pt_Signature = [], pt_Status = 0\<rparr>"

definition Transaction_MarshalSSZTo :: "bytes \<Rightarrow> PbTransaction \<Rightarrow> error + bytes" where
  "Transaction_MarshalSSZTo buf t =
    (let offset = 141; dst = MarshalUint64 buf (pt_Num t); dst = MarshalUint32 dst (pt_Type t);
         dst = MarshalUint64 dst (pt_Timestamp t) in
     ebind (append_field ''Transaction.Hash'' 32 (pt_Hash t) dst) (\<lambda>dst.
     let dst = MarshalUint64 dst (pt_Fee t);
         dst = WriteOffset dst offset; offset = offset + length (pt_Data t);
         dst = WriteOffset dst offset; offset = offset + sum_list (map (\<lambda>i. 4 + TxInput_SizeSSZ i) (pt_Inputs t));
         dst = WriteOffset dst offset in
     ebind (append_field ''Transaction.Signature'' 65 (pt_Signature t) dst) (\<lambda>dst.
     let dst = MarshalUint32 dst (pt_Status t) in
     ebind (append_bounded ''Transaction.Data'' 1000000 (pt_Data t) dst) (\<lambda>dst.
     ebind (marshal_dynamic ''Transaction.Inputs'' 2000 TxInput_SizeSSZ TxInput_MarshalSSZTo (pt_Inputs t) dst) (\<lambda>dst.
     marshal_dynamic ''Transaction.Outputs'' 2000 TxOutput_SizeSSZ TxOutput_MarshalSSZTo (pt_Outputs t) dst)))))"

definition Transaction_UnmarshalSSZ :: "PbTransaction \<Rightarrow> bytes \<Rightarrow> error + PbTransaction" where
  "Transaction_UnmarshalSSZ t buf =
    (let size = length buf; o5 = ReadOffset (slice 60 64 buf); o6 = ReadOffset (slice 64 68 buf); o7 = ReadOffset (slice 68 72 buf) in
     if size < 141 then Inl ErrSize
     else if o5 > size then Inl ErrOffset
     else if o5 < 141 then Inl ErrInvalidVariableOffset
     else if o6 > size \<or> o5 > o6 then Inl ErrOffset
     else if o7 > size \<or> o6 > o7 then Inl ErrOffset
     else if length (slice o5 o6 buf) > 1000000 then Inl ErrBytesLength
     else ebind (unmarshal_dynamic 2000 (TxInput_UnmarshalSSZ new_TxInput) (slice o6 o7 buf)) (\<lambda>inputs.
       ebind (unmarshal_dynamic 2000 (TxOutput_UnmarshalSSZ new_TxOutput) (drop o7 buf)) (\<lambda>outputs.
       Inr (t\<lparr>pt_Num := UnmarshallUint64 (slice 0 8 buf), pt_Type := UnmarshallUint32 (slice 8 12 buf),
         pt_Timestamp := UnmarshallUint64 (slice 12 20 buf), pt_Hash := pt_Hash t @ slice 20 52 buf,
         pt_Fee := UnmarshallUint64 (slice 52 60 buf), pt_Signature := pt_Signature t @ slice 72 137 buf,
         pt_Status := UnmarshallUint32 (slice 137 141 buf), pt_Data := pt_Data t @ slice o5 o6 buf,
         pt_Inputs := inputs, pt_Outputs := outputs\<rparr>))))"

definition new_Block :: Block where
  "new_Block = \<lparr>bk_Num = 0, bk_Slot = 0, bk_Version = [], bk_Hash = [], bk_Parent = [], bk_Timestamp = 0, bk_Txroot = [],
     bk_Proposer = new_Sign, bk_Approvers = [], bk_Slashers = [], bk_Transactions = []\<rparr>"

definition Block_MarshalSSZTo :: "bytes \<Rightarrow> Block \<Rightarrow> error + bytes" where
  "Block_MarshalSSZTo buf b =
    (let offset = 220; dst = MarshalUint64 buf (bk_Num b); dst = MarshalUint64 dst (bk_Slot b) in
     ebind (append_field ''Block.Version'' 3 (bk_Version b) dst) (\<lambda>dst.
     ebind (append_field ''Block.Hash'' 32 (bk_Hash b) dst) (\<lambda>dst.
     ebind (append_field ''Block.Parent'' 32 (bk_Parent b) dst) (\<lambda>dst.
     let dst = MarshalUint64 dst (bk_Timestamp b) in
     ebind (append_field ''Block.Txroot'' 32 (bk_Txroot b) dst) (\<lambda>dst.
     ebind (Sign_MarshalSSZTo dst (bk_Proposer b)) (\<lambda>dst.
     let dst = WriteOffset dst offset; offset = offset + length (bk_Approvers b) * 85;
         dst = WriteOffset dst offset; offset = offset + length (bk_Slashers b) * 85;
         dst = WriteOffset dst offset in
     ebind (marshal_static ''Block.Approvers'' 128 Sign_MarshalSSZTo (bk_Approvers b) dst) (\<lambda>dst.
     ebind (marshal_static ''Block.Slashers'' 128 Sign_MarshalSSZTo (bk_Slashers b) dst) (\<lambda>dst.
     marshal_dynamic ''Block.Transactions'' 1500 Tx_SizeSSZ Transaction_MarshalSSZTo (bk_Transactions b) dst))))))))"

definition Block_UnmarshalSSZ :: "Block \<Rightarrow> bytes \<Rightarrow> error + Block" where
  "Block_UnmarshalSSZ b buf =
    (let size = length buf; o8 = ReadOffset (slice 208 212 buf); o9 = ReadOffset (slice 212 216 buf); o10 = ReadOffset (slice 216 220 buf) in
     if size < 220 then Inl ErrSize
     else ebind (Sign_UnmarshalSSZ (bk_Proposer b) (slice 123 208 buf)) (\<lambda>proposer.
       if o8 > size then Inl ErrOffset
       else if o8 < 220 then Inl ErrInvalidVariableOffset
       else if o9 > size \<or> o8 > o9 then Inl ErrOffset
       else if o10 > size \<or> o9 > o10 then Inl ErrOffset
       else ebind (unmarshal_static 85 128 (Sign_UnmarshalSSZ new_Sign) (slice o8 o9 buf)) (\<lambda>approvers.
         ebind (unmarshal_static 85 128 (Sign_UnmarshalSSZ new_Sign) (slice o9 o10 buf)) (\<lambda>slashers.
         ebind (unmarshal_dynamic 1500 (Transaction_UnmarshalSSZ new_Transaction) (drop o10 buf)) (\<lambda>txs.
         Inr (b\<lparr>bk_Num := UnmarshallUint64 (slice 0 8 buf), bk_Slot := UnmarshallUint64 (slice 8 16 buf),
           bk_Version := bk_Version b @ slice 16 19 buf, bk_Hash := bk_Hash b @ slice 19 51 buf,
           bk_Parent := bk_Parent b @ slice 51 83 buf, bk_Timestamp := UnmarshallUint64 (slice 83 91 buf),
           bk_Txroot := bk_Txroot b @ slice 91 123 buf, bk_Proposer := proposer, bk_Approvers := approvers,
           bk_Slashers := slashers, bk_Transactions := txs\<rparr>))))))"

subsection \<open>Attestations, seeds and requests\<close>

definition Attestation_SizeSSZ :: "Attestation \<Rightarrow> nat" where
  "Attestation_SizeSSZ a = 32 + Block_SizeSSZ (at_Block a) + Sign_SizeSSZ (at_Signature a)"

definition new_Attestation :: Attestation where
  "new_Attestation = \<lparr>at_Validator = [], at_Block = new_Block, at_Signature = new_Sign, at_Type = 0\<rparr>"

definition Attestation_MarshalSSZTo :: "bytes \<Rightarrow> Attestation \<Rightarrow> error + bytes" where
  "Attestation_MarshalSSZTo buf a =
    (let offset = 32 in
     ebind (append_field ''Attestation.Validator'' 20 (at_Validator a) buf) (\<lambda>dst.
     let dst = WriteOffset dst offset; offset = offset + Block_SizeSSZ (at_Block a);
         dst = WriteOffset dst offset; dst = MarshalUint32 dst (at_Type a) in
     ebind (Block_MarshalSSZTo dst (at_Block a)) (\<lambda>dst.
     Sign_MarshalSSZTo dst (at_Signature a))))"

definition Attestation_UnmarshalSSZ :: "Attestation \<Rightarrow> bytes \<Rightarrow> error + Attestation" where
  "Attestation_UnmarshalSSZ a buf =
    (let size = length buf; o1 = ReadOffset (slice 20 24 buf); o2 = ReadOffset (slice 24 28 buf) in
     if size < 32 then Inl ErrSize
     else if o1 > size then Inl ErrOffset
     else if o1 < 32 then Inl ErrInvalidVariableOffset
     else if o2 > size \<or> o1 > o2 then Inl ErrOffset
     else ebind (Block_UnmarshalSSZ (at_Block a) (slice o1 o2 buf)) (\<lambda>block.
       ebind (Sign_UnmarshalSSZ (at_Signature a) (drop o2 buf)) (\<lambda>sign.
       Inr (a\<lparr>at_Validator := at_Validator a @ slice 0 20 buf, at_Type := UnmarshallUint32 (slice 28 32 buf),
         at_Block := block, at_Signature := sign\<rparr>))))"

definition new_Seed :: Seed where "new_Seed = \<lparr>sd_Seed = 0, sd_Proposer = new_Sign\<rparr>"

definition Seed_SizeSSZ :: "Seed \<Rightarrow> nat" where "Seed_SizeSSZ s = 89"

definition Seed_MarshalSSZTo :: "bytes \<Rightarrow> Seed \<Rightarrow> error + bytes" where
  "Seed_MarshalSSZTo buf s = Sign_MarshalSSZTo (MarshalUint32 buf (sd_Seed s)) (sd_Proposer s)"

definition Seed_UnmarshalSSZ :: "Seed \<Rightarrow> bytes \<Rightarrow> error + Seed" where
  "Seed_UnmarshalSSZ s buf =
    (if length buf \<noteq> 89 then Inl ErrSize
     else ebind (Sign_UnmarshalSSZ (sd_Proposer s) (slice 4 89 buf)) (\<lambda>p.
       Inr (s\<lparr>sd_Seed := UnmarshallUint32 (slice 0 4 buf), sd_Proposer := p\<rparr>)))"

record Metadata =
  md_HeadSlot :: uint64
  md_HeadBlockNum :: uint64
  md_HeadBlockHash :: bytes

definition new_Metadata :: Metadata where
  "new_Metadata = \<lparr>md_HeadSlot = 0, md_HeadBlockNum = 0, md_HeadBlockHash = []\<rparr>"

definition Metadata_SizeSSZ :: "Metadata \<Rightarrow> nat" where "Metadata_SizeSSZ m = 48"

definition Metadata_MarshalSSZTo :: "bytes \<Rightarrow> Metadata \<Rightarrow> error + bytes" where
  "Metadata_MarshalSSZTo buf m =
    append_field ''Metadata.HeadBlockHash'' 32 (md_HeadBlockHash m)
      (MarshalUint64 (MarshalUint64 buf (md_HeadSlot m)) (md_HeadBlockNum m))"

definition Metadata_UnmarshalSSZ :: "Metadata \<Rightarrow> bytes \<Rightarrow> error + Metadata" where
  "Metadata_UnmarshalSSZ m buf =
    (if length buf \<noteq> 48 then Inl ErrSize
     else Inr (m\<lparr>md_HeadSlot := UnmarshallUint64 (slice 0 8 buf), md_HeadBlockNum := UnmarshallUint64 (slice 8 16 buf),
       md_HeadBlockHash := md_HeadBlockHash m @ slice 16 48 buf\<rparr>))"

record BlockRequest =
  br_StartSlot :: uint64
  br_Count :: uint64
  br_Step :: uint64

definition new_BlockRequest :: BlockRequest where
  "new_BlockRequest = \<lparr>br_StartSlot = 0, br_Count = 0, br_Step = 0\<rparr>"

definition BlockRequest_SizeSSZ :: "BlockRequest \<Rightarrow> nat" where "BlockRequest_SizeSSZ b = 24"

definition BlockRequest_MarshalSSZTo :: "bytes \<Rightarrow> BlockRequest \<Rightarrow> error + bytes" where
  "BlockRequest_MarshalSSZTo buf b =
    Inr (MarshalUint64 (MarshalUint64 (MarshalUint64 buf (br_StartSlot b)) (br_Count b)) (br_Step b))"

definition BlockRequest_UnmarshalSSZ :: "BlockRequest \<Rightarrow> bytes \<Rightarrow> error + BlockRequest" where
  "BlockRequest_UnmarshalSSZ b buf =
    (if length buf \<noteq> 24 then Inl ErrSize
     else Inr (b\<lparr>br_StartSlot := UnmarshallUint64 (slice 0 8 buf), br_Count := UnmarshallUint64 (slice 8 16 buf),
       br_Step := UnmarshallUint64 (slice 16 24 buf)\<rparr>))"

text \<open>
  \<^verbatim>\<open>utils/serialize\<close>: the snappy compression of blocks and seeds is a parameter, as in the block store; transactions and
  attestations are not compressed.
\<close>

definition ssz_codec :: "(bytes \<Rightarrow> bytes) \<Rightarrow> (bytes \<Rightarrow> error + bytes) \<Rightarrow> codec" where
  "ssz_codec enc dec = \<lparr>ssz_marshal = Block_MarshalSSZTo [], ssz_unmarshal = Block_UnmarshalSSZ new_Block,
     snappy_encode = enc, snappy_decode = dec\<rparr>"

definition MarshalTx :: "PbTransaction option \<Rightarrow> error + bytes" where
  "MarshalTx tx = (case tx of None \<Rightarrow> Inl (Errorf ''empty tx given'') | Some t \<Rightarrow> Transaction_MarshalSSZTo [] t)"

definition UnmarshalTx :: "bytes \<Rightarrow> error + PbTransaction" where
  "UnmarshalTx buf = Transaction_UnmarshalSSZ new_Transaction buf"

definition MarshalAttestation :: "Attestation option \<Rightarrow> error + bytes" where
  "MarshalAttestation att = (case att of None \<Rightarrow> Inl (Errorf ''empty attestation given'') | Some a \<Rightarrow> Attestation_MarshalSSZTo [] a)"

definition UnmarshalAttestation :: "bytes \<Rightarrow> error + Attestation" where
  "UnmarshalAttestation buf = Attestation_UnmarshalSSZ new_Attestation buf"

definition MarshalSeed :: "codec \<Rightarrow> Seed option \<Rightarrow> error + bytes" where
  "MarshalSeed cd seed = (case seed of None \<Rightarrow> Inl (Errorf ''empty block given'')
     | Some s \<Rightarrow> ebind (Seed_MarshalSSZTo [] s) (\<lambda>obj. Inr (snappy_encode cd obj)))"

definition UnmarshalSeed :: "codec \<Rightarrow> bytes \<Rightarrow> error + Seed" where
  "UnmarshalSeed cd enc = ebind (snappy_decode cd enc) (\<lambda>raw. Seed_UnmarshalSSZ new_Seed raw)"

subsection \<open>Byte lists\<close>

lemma length_MarshalUint32 [simp]: "length (MarshalUint32 dst i) = length dst + 4"
  by (simp add: MarshalUint32_def)

lemma UnmarshallUint32_append [simp]: "UnmarshallUint32 (le_nat 4 (unat i) @ r) = i"
  using UnmarshallUint32_le [of i] by (simp add: UnmarshallUint32_def)

lemma UnmarshallUint64_append [simp]: "UnmarshallUint64 (le_nat 8 (unat i) @ r) = i"
  using UnmarshallUint64_Marshal [of i] by (simp add: UnmarshallUint64_def MarshalUint64_def)

lemma UnmarshallUint64_le [simp]: "UnmarshallUint64 (le_nat 8 (unat i)) = i"
  using UnmarshallUint64_append [of i "[]"] by simp

definition off4 :: "nat \<Rightarrow> bytes" where
  "off4 n = le_nat 4 (unat (word_of_nat n :: uint32))"

lemma length_off4 [simp]: "length (off4 n) = 4"
  by (simp add: off4_def)

lemma off4_ne: "off4 n \<noteq> []"
  using length_off4 [of n] by (metis list.size(3) zero_neq_numeral)

lemma WriteOffset_off4 [simp]: "WriteOffset dst n = dst @ off4 n"
  by (simp add: WriteOffset_def MarshalUint32_def off4_def)

lemma ReadOffset_off4 [simp]: "n < 2 ^ 32 \<Longrightarrow> ReadOffset (off4 n @ r) = n"
  unfolding ReadOffset_def off4_def UnmarshallUint32_append by (simp add: unat_of_nat)

lemma ReadOffset_off4_Nil [simp]: "n < 2 ^ 32 \<Longrightarrow> ReadOffset (off4 n) = n"
  using ReadOffset_off4 [of n "[]"] by simp

lemma ReadOffset_take [simp]: "ReadOffset (take 4 buf) = ReadOffset buf"
  by (simp add: ReadOffset_def UnmarshallUint32_def)

text \<open>A slice of a concatenation whose first part has a known length.\<close>

lemma slice_skip: "length u \<le> a \<Longrightarrow> slice a b (u @ v) = slice (a - length u) (b - length u) v"
  by (simp add: slice_def)

lemma slice_hit: "length u = b - a \<Longrightarrow> a = 0 \<Longrightarrow> slice a b (u @ v) = u"
  by (simp add: slice_def)

lemma slice_all: "length u = b - a \<Longrightarrow> a = 0 \<Longrightarrow> slice a b u = u"
  by (simp add: slice_def)

lemma drop_skip: "length u \<le> a \<Longrightarrow> drop a (u @ v) = drop (a - length u) v"
  by simp

lemmas slice_simps = slice_skip slice_hit slice_all

lemma length_slice [simp]: "length (slice a b buf) = min (b - a) (length buf - a)"
  by (simp add: slice_def)

lemma append_field_iff: "append_field nm n v dst = Inr d \<longleftrightarrow> length v = n \<and> d = dst @ v"
  by (auto simp: append_field_def)

lemma append_bounded_iff: "append_bounded nm n v dst = Inr d \<longleftrightarrow> length v \<le> n \<and> d = dst @ v"
  by (auto simp: append_bounded_def)

fun offs :: "('a \<Rightarrow> nat) \<Rightarrow> nat \<Rightarrow> 'a list \<Rightarrow> bytes" where
  "offs sz off [] = []"
| "offs sz off (x # xs) = off4 off @ offs sz (off + sz x) xs"

lemma length_offs [simp]: "length (offs sz off xs) = 4 * length xs"
  by (induction xs arbitrary: off) simp_all

lemma write_offsets_offs: "write_offsets sz dst off xs = dst @ offs sz off xs"
  by (induction xs arbitrary: off dst) simp_all

definition all_ok :: "('a \<Rightarrow> bool) \<Rightarrow> nat \<Rightarrow> 'a list \<Rightarrow> bool" where
  "all_ok ok limit xs \<longleftrightarrow> length xs \<le> limit \<and> (\<forall>x\<in>set xs. ok x)"

definition enc_all :: "('a \<Rightarrow> bytes) \<Rightarrow> 'a list \<Rightarrow> bytes" where
  "enc_all enc xs = concat (map enc xs)"

definition enc_dyn :: "('a \<Rightarrow> nat) \<Rightarrow> ('a \<Rightarrow> bytes) \<Rightarrow> 'a list \<Rightarrow> bytes" where
  "enc_dyn sz enc xs = offs sz (4 * length xs) xs @ enc_all enc xs"

subsection \<open>The contract of an encodable type\<close>

locale ssz_object =
  fixes marshal :: "bytes \<Rightarrow> 'a \<Rightarrow> error + bytes"
    and unmarshal :: "bytes \<Rightarrow> error + 'a"
    and sz :: "'a \<Rightarrow> nat"
    and ok :: "'a \<Rightarrow> bool"
    and enc :: "'a \<Rightarrow> bytes"
  assumes marshal_iff: "marshal buf x = Inr d \<longleftrightarrow> ok x \<and> d = buf @ enc x"
    and enc_size: "ok x \<Longrightarrow> length (enc x) = sz x"
    and dec_enc: "ok x \<Longrightarrow> unmarshal (enc x) = Inr x"
    and dec_ok: "unmarshal raw = Inr x \<Longrightarrow> ok x"
begin

lemma each_iff: "marshal_each marshal dst xs = Inr d \<longleftrightarrow> (\<forall>x\<in>set xs. ok x) \<and> d = dst @ enc_all enc xs"
  by (induction xs arbitrary: dst) (auto simp: ebind_Inr marshal_iff enc_all_def)

lemma dynamic_iff: "marshal_dynamic nm limit sz marshal xs dst = Inr d \<longleftrightarrow> all_ok ok limit xs \<and> d = dst @ enc_dyn sz enc xs"
  by (auto simp: marshal_dynamic_def each_iff write_offsets_offs all_ok_def enc_dyn_def)

lemma static_iff: "marshal_static nm limit marshal xs dst = Inr d \<longleftrightarrow> all_ok ok limit xs \<and> d = dst @ enc_all enc xs"
  by (auto simp: marshal_static_def each_iff all_ok_def)

lemma length_enc_all: "\<forall>x\<in>set xs. ok x \<Longrightarrow> length (enc_all enc xs) = sum_list (map sz xs)"
  by (induction xs) (simp_all add: enc_all_def enc_size)

lemma length_enc_dyn: "\<forall>x\<in>set xs. ok x \<Longrightarrow> length (enc_dyn sz enc xs) = sum_list (map (\<lambda>x. 4 + sz x) xs)"
  by (simp add: enc_dyn_def length_enc_all sum_list_addf sum_list_triv)

lemma dyn_loop:
  assumes "\<forall>y\<in>set (x # xs). ok y" "length (pre @ enc_all enc (x # xs)) < 2 ^ 32"
  shows "unmarshal_dyn_loop unmarshal (pre @ enc_all enc (x # xs)) (length (x # xs)) (length pre)
    (offs sz (length pre + sz x) xs @ rest) = Inr (x # xs)"
  using assms
proof (induction xs arbitrary: x pre)
  case Nil
  then show ?case by (simp add: enc_all_def slice_simps dec_enc)
next
  case (Cons y ys)
  have e: "length (enc x) = sz x" "length (enc y) = sz y" using Cons.prems(1) by (simp_all add: enc_size)
  have src: "pre @ enc_all enc (x # y # ys) = (pre @ enc x) @ enc_all enc (y # ys)" by (simp add: enc_all_def)
  have "unmarshal_dyn_loop unmarshal ((pre @ enc x) @ enc_all enc (y # ys)) (length (y # ys)) (length (pre @ enc x))
      (offs sz (length (pre @ enc x) + sz y) ys @ rest) = Inr (y # ys)"
    using Cons.prems by (intro Cons.IH) (simp_all add: enc_all_def)
  then have "unmarshal_dyn_loop unmarshal (pre @ enc_all enc (x # y # ys)) (Suc (length ys)) (length pre + sz x)
      (offs sz (length pre + sz x + sz y) ys @ rest) = Inr (y # ys)"
    by (simp only: src length_append e list.size add_Suc_right add_0_right)
  moreover have "slice (length pre) (length pre + sz x) (pre @ enc_all enc (x # y # ys)) = enc x"
    using e by (simp add: enc_all_def slice_simps)
  moreover have "length pre + sz x < 2 ^ 32" using Cons.prems(2) e by (simp add: enc_all_def)
  moreover have "length pre + sz x \<le> length (pre @ enc_all enc (x # y # ys))" using e by (simp add: enc_all_def)
  ultimately show ?case using Cons.prems(1) by (simp add: safeReadOffset_def dec_enc)
qed

lemma dynamic_dec:
  assumes "all_ok ok limit xs" "length (enc_dyn sz enc xs) < 2 ^ 32"
  shows "unmarshal_dynamic limit unmarshal (enc_dyn sz enc xs) = Inr xs"
proof (cases xs)
  case Nil
  then show ?thesis
    by (simp add: unmarshal_dynamic_def enc_dyn_def enc_all_def DecodeDynamicLength_def UnmarshalDynamic_def)
next
  case (Cons x ys)
  let ?n = "length xs" and ?o = "offs sz (4 * length xs) xs"
  have n: "4 * ?n < 2 ^ 32" using assms(2) by (simp add: enc_dyn_def)
  have src: "enc_dyn sz enc xs = ?o @ enc_all enc (x # ys)" using Cons by (simp add: enc_dyn_def)
  have o: "?o = off4 (4 * ?n) @ offs sz (4 * ?n + sz x) ys" using Cons by simp
  have d: "DecodeDynamicLength (enc_dyn sz enc xs) limit = Inr ?n"
    using n assms(1) off4_ne by (simp add: DecodeDynamicLength_def src o all_ok_def)
  have "unmarshal_dyn_loop unmarshal (?o @ enc_all enc (x # ys)) (length (x # ys)) (length ?o)
      (offs sz (length ?o + sz x) ys @ enc_all enc (x # ys)) = Inr (x # ys)"
    using assms Cons by (intro dyn_loop) (simp_all add: all_ok_def enc_dyn_def)
  moreover have "drop 4 (enc_dyn sz enc xs) = offs sz (length ?o + sz x) ys @ enc_all enc (x # ys)" "ReadOffset (enc_dyn sz enc xs) = length ?o"
    unfolding src o using n arg_cong [OF Cons, of length] by simp_all
  ultimately show ?thesis
    using d Cons src by (simp add: unmarshal_dynamic_def UnmarshalDynamic_def)
qed

lemma dyn_loop_ok:
  "unmarshal_dyn_loop unmarshal src n off dst = Inr xs \<Longrightarrow> length xs = n \<and> (\<forall>x\<in>set xs. ok x)"
proof (induction n arbitrary: off dst xs)
  case (Suc n)
  then obtain off' dst' x ys where "unmarshal (slice off off' src) = Inr x"
    "unmarshal_dyn_loop unmarshal src n off' dst' = Inr ys" "xs = x # ys"
    by (auto simp: ebind_Inr split: if_splits)
  then show ?case using Suc.IH [of off' dst' ys] dec_ok by auto
qed simp

lemma dynamic_ok:
  assumes "unmarshal_dynamic limit unmarshal buf = Inr xs"
  shows "all_ok ok limit xs"
proof -
  obtain num where n: "DecodeDynamicLength buf limit = Inr num" "UnmarshalDynamic buf num unmarshal = Inr xs"
    using assms by (auto simp: unmarshal_dynamic_def ebind_Inr)
  then have "num \<le> limit" by (auto simp: DecodeDynamicLength_def Let_def split: if_splits)
  then show ?thesis using n(2) dyn_loop_ok by (auto simp: UnmarshalDynamic_def all_ok_def split: if_splits)
qed

lemma static_loop:
  assumes "\<forall>x\<in>set xs. ok x" "\<And>x. ok x \<Longrightarrow> sz x = k" "length pre = i * k"
  shows "unmarshal_static_loop k unmarshal (pre @ enc_all enc xs) i (length xs) = Inr xs"
  using assms(1,3)
proof (induction xs arbitrary: pre i)
  case (Cons x xs)
  have l: "length (enc x) = k" using Cons.prems(1) assms(2) by (simp add: enc_size)
  have "unmarshal_static_loop k unmarshal ((pre @ enc x) @ enc_all enc xs) (Suc i) (length xs) = Inr xs"
    using Cons.prems l by (intro Cons.IH) simp_all
  moreover have "slice (i * k) ((i + 1) * k) (pre @ enc_all enc (x # xs)) = enc x"
    using Cons.prems(2) l by (simp add: enc_all_def slice_simps)
  ultimately show ?case using Cons.prems(1) by (simp add: dec_enc enc_all_def)
qed simp

lemma static_dec:
  assumes "all_ok ok limit xs" "\<And>x. ok x \<Longrightarrow> sz x = k" "0 < k"
  shows "unmarshal_static k limit unmarshal (enc_all enc xs) = Inr xs"
proof -
  have "map sz xs = map (\<lambda>_. k) xs" using assms(1,2) by (simp add: all_ok_def)
  then have "sum_list (map sz xs) = length xs * k" by (simp only: sum_list_triv of_nat_id)
  then have "length (enc_all enc xs) = length xs * k"
    using assms(1) length_enc_all [of xs] by (simp add: all_ok_def)
  then show ?thesis
    using static_loop [OF _ assms(2), of xs "[]" 0] assms(1,3) by (simp add: unmarshal_static_def DivideInt2_def all_ok_def)
qed

lemma static_loop_ok:
  "unmarshal_static_loop k unmarshal buf i n = Inr xs \<Longrightarrow> length xs = n \<and> (\<forall>x\<in>set xs. ok x)"
proof (induction n arbitrary: i xs)
  case (Suc n)
  then obtain x ys where "unmarshal (slice (i * k) ((i + 1) * k) buf) = Inr x"
    "unmarshal_static_loop k unmarshal buf (i + 1) n = Inr ys" "xs = x # ys"
    by (auto simp: ebind_Inr)
  then show ?case using Suc.IH [of "i + 1" ys] dec_ok by auto
qed simp

lemma static_ok: "unmarshal_static k limit unmarshal buf = Inr xs \<Longrightarrow> all_ok ok limit xs"
  using static_loop_ok by (auto simp: unmarshal_static_def ebind_Inr DivideInt2_def all_ok_def split: if_splits)

end

subsection \<open>The types of the wire format\<close>

text \<open>For every type: the field sizes of its schema and its encoding as one expression.\<close>

definition Sign_ok :: "Sign \<Rightarrow> bool" where
  "Sign_ok s \<longleftrightarrow> length (sg_Address s) = 20 \<and> length (sg_Signature s) = 65"

definition Sign_enc :: "Sign \<Rightarrow> bytes" where
  "Sign_enc s = sg_Address s @ sg_Signature s"

interpretation sign_ssz: ssz_object Sign_MarshalSSZTo "Sign_UnmarshalSSZ new_Sign" Sign_SizeSSZ Sign_ok Sign_enc
proof
  fix buf x d raw
  show "Sign_MarshalSSZTo buf x = Inr d \<longleftrightarrow> Sign_ok x \<and> d = buf @ Sign_enc x"
    by (auto simp: Sign_MarshalSSZTo_def ebind_Inr append_field_iff Sign_ok_def Sign_enc_def)
  show "Sign_ok x \<Longrightarrow> length (Sign_enc x) = Sign_SizeSSZ x"
    by (simp add: Sign_ok_def Sign_enc_def Sign_SizeSSZ_def)
  show "Sign_ok x \<Longrightarrow> Sign_UnmarshalSSZ new_Sign (Sign_enc x) = Inr x"
    by (simp add: Sign_ok_def Sign_enc_def Sign_UnmarshalSSZ_def new_Sign_def slice_simps)
  show "Sign_UnmarshalSSZ new_Sign raw = Inr x \<Longrightarrow> Sign_ok x"
    by (auto simp: Sign_ok_def Sign_UnmarshalSSZ_def new_Sign_def split: if_splits)
qed

definition TxInput_ok :: "TxInput \<Rightarrow> bool" where
  "TxInput_ok t \<longleftrightarrow> length (ti_Hash t) = 32 \<and> length (ti_Address t) = 20 \<and> length (ti_Node t) \<le> 20"

definition TxInput_enc :: "TxInput \<Rightarrow> bytes" where
  "TxInput_enc t = ti_Hash t @ le_nat 4 (unat (ti_Index t)) @ ti_Address t @ le_nat 8 (unat (ti_Amount t)) @ off4 68 @ ti_Node t"

interpretation input_ssz: ssz_object TxInput_MarshalSSZTo "TxInput_UnmarshalSSZ new_TxInput" TxInput_SizeSSZ TxInput_ok TxInput_enc
proof
  fix buf x d raw
  show "TxInput_MarshalSSZTo buf x = Inr d \<longleftrightarrow> TxInput_ok x \<and> d = buf @ TxInput_enc x"
    by (auto simp: TxInput_MarshalSSZTo_def Let_def ebind_Inr append_field_iff append_bounded_iff TxInput_ok_def TxInput_enc_def
        MarshalUint32_def MarshalUint64_def)
  show "TxInput_ok x \<Longrightarrow> length (TxInput_enc x) = TxInput_SizeSSZ x"
    by (simp add: TxInput_ok_def TxInput_enc_def TxInput_SizeSSZ_def)
  show "TxInput_ok x \<Longrightarrow> TxInput_UnmarshalSSZ new_TxInput (TxInput_enc x) = Inr x"
    by (simp add: TxInput_ok_def TxInput_enc_def TxInput_UnmarshalSSZ_def new_TxInput_def slice_simps)
  show "TxInput_UnmarshalSSZ new_TxInput raw = Inr x \<Longrightarrow> TxInput_ok x"
    by (auto simp: TxInput_ok_def TxInput_UnmarshalSSZ_def new_TxInput_def Let_def split: if_splits)
qed

definition TxOutput_ok :: "TxOutput \<Rightarrow> bool" where
  "TxOutput_ok t \<longleftrightarrow> length (to_Address t) = 20 \<and> length (to_Node t) \<le> 20"

definition TxOutput_enc :: "TxOutput \<Rightarrow> bytes" where
  "TxOutput_enc t = to_Address t @ le_nat 8 (unat (to_Amount t)) @ off4 32 @ to_Node t"

interpretation output_ssz: ssz_object TxOutput_MarshalSSZTo "TxOutput_UnmarshalSSZ new_TxOutput" TxOutput_SizeSSZ TxOutput_ok TxOutput_enc
proof
  fix buf x d raw
  show "TxOutput_MarshalSSZTo buf x = Inr d \<longleftrightarrow> TxOutput_ok x \<and> d = buf @ TxOutput_enc x"
    by (auto simp: TxOutput_MarshalSSZTo_def Let_def ebind_Inr append_field_iff append_bounded_iff TxOutput_ok_def TxOutput_enc_def
        MarshalUint64_def)
  show "TxOutput_ok x \<Longrightarrow> length (TxOutput_enc x) = TxOutput_SizeSSZ x"
    by (simp add: TxOutput_ok_def TxOutput_enc_def TxOutput_SizeSSZ_def)
  show "TxOutput_ok x \<Longrightarrow> TxOutput_UnmarshalSSZ new_TxOutput (TxOutput_enc x) = Inr x"
    by (simp add: TxOutput_ok_def TxOutput_enc_def TxOutput_UnmarshalSSZ_def new_TxOutput_def slice_simps)
  show "TxOutput_UnmarshalSSZ new_TxOutput raw = Inr x \<Longrightarrow> TxOutput_ok x"
    by (auto simp: TxOutput_ok_def TxOutput_UnmarshalSSZ_def new_TxOutput_def Let_def split: if_splits)
qed

definition Transaction_ok :: "PbTransaction \<Rightarrow> bool" where
  "Transaction_ok t \<longleftrightarrow> length (pt_Hash t) = 32 \<and> length (pt_Signature t) = 65 \<and> length (pt_Data t) \<le> 1000000
    \<and> all_ok TxInput_ok 2000 (pt_Inputs t) \<and> all_ok TxOutput_ok 2000 (pt_Outputs t)"

definition inputs_enc :: "PbTransaction \<Rightarrow> bytes" where
  "inputs_enc t = enc_dyn TxInput_SizeSSZ TxInput_enc (pt_Inputs t)"

definition outputs_enc :: "PbTransaction \<Rightarrow> bytes" where
  "outputs_enc t = enc_dyn TxOutput_SizeSSZ TxOutput_enc (pt_Outputs t)"

definition Transaction_enc :: "PbTransaction \<Rightarrow> bytes" where
  "Transaction_enc t = le_nat 8 (unat (pt_Num t)) @ le_nat 4 (unat (pt_Type t)) @ le_nat 8 (unat (pt_Timestamp t))
    @ pt_Hash t @ le_nat 8 (unat (pt_Fee t)) @ off4 141 @ off4 (141 + length (pt_Data t))
    @ off4 (141 + length (pt_Data t) + sum_list (map (\<lambda>i. 4 + TxInput_SizeSSZ i) (pt_Inputs t)))
    @ pt_Signature t @ le_nat 4 (unat (pt_Status t)) @ pt_Data t @ inputs_enc t @ outputs_enc t"

lemma sum_list_le: "(\<And>x. x \<in> set xs \<Longrightarrow> f x \<le> c) \<Longrightarrow> sum_list (map f xs) \<le> length xs * (c::nat)"
proof (induction xs)
  case (Cons x xs)
  have "f x \<le> c" "sum_list (map f xs) \<le> length xs * c" using Cons by simp_all
  then show ?case by (simp add: add_mono)
qed simp

lemma all_ok_size:
  assumes "all_ok ok limit xs" "\<And>x. ok x \<Longrightarrow> f x \<le> c"
  shows "sum_list (map f xs) \<le> limit * (c::nat)"
  using sum_list_le [of xs f c] assms by (auto simp: all_ok_def intro: order_trans mult_le_mono1)

lemma inputs_enc_length:
  assumes "Transaction_ok t"
  shows "length (inputs_enc t) = sum_list (map (\<lambda>i. 4 + TxInput_SizeSSZ i) (pt_Inputs t))"
    "length (outputs_enc t) = sum_list (map (\<lambda>i. 4 + TxOutput_SizeSSZ i) (pt_Outputs t))"
    "length (inputs_enc t) \<le> 184000" "length (outputs_enc t) \<le> 112000"
proof -
  have a: "all_ok TxInput_ok 2000 (pt_Inputs t)" "all_ok TxOutput_ok 2000 (pt_Outputs t)"
    using assms by (simp_all add: Transaction_ok_def)
  show l: "length (inputs_enc t) = sum_list (map (\<lambda>i. 4 + TxInput_SizeSSZ i) (pt_Inputs t))"
    "length (outputs_enc t) = sum_list (map (\<lambda>i. 4 + TxOutput_SizeSSZ i) (pt_Outputs t))"
    using a by (simp_all add: inputs_enc_def outputs_enc_def all_ok_def input_ssz.length_enc_dyn output_ssz.length_enc_dyn)
  show "length (inputs_enc t) \<le> 184000"
    using all_ok_size [OF a(1), of "\<lambda>i. 4 + TxInput_SizeSSZ i" 92] l(1) by (simp add: TxInput_ok_def TxInput_SizeSSZ_def)
  show "length (outputs_enc t) \<le> 112000"
    using all_ok_size [OF a(2), of "\<lambda>i. 4 + TxOutput_SizeSSZ i" 56] l(2) by (simp add: TxOutput_ok_def TxOutput_SizeSSZ_def)
qed

lemma Transaction_size: "Transaction_ok t \<Longrightarrow> length (Transaction_enc t) = Tx_SizeSSZ t \<and> Tx_SizeSSZ t \<le> 1296141"
  using inputs_enc_length [of t] by (simp add: Transaction_enc_def Tx_SizeSSZ_def Transaction_ok_def)

lemma Transaction_marshal: "Transaction_MarshalSSZTo buf x = Inr d \<longleftrightarrow> Transaction_ok x \<and> d = buf @ Transaction_enc x"
  by (auto simp: Transaction_MarshalSSZTo_def Let_def ebind_Inr append_field_iff append_bounded_iff Transaction_ok_def
      Transaction_enc_def MarshalUint32_def MarshalUint64_def input_ssz.dynamic_iff output_ssz.dynamic_iff inputs_enc_def outputs_enc_def)

lemma Transaction_dec:
  assumes ok: "Transaction_ok x"
  shows "Transaction_UnmarshalSSZ new_Transaction (Transaction_enc x) = Inr x"
proof -
  let ?o6 = "141 + length (pt_Data x)" and ?o7 = "141 + length (pt_Data x) + length (inputs_enc x)"
  note L = inputs_enc_length [OF ok]
  have f: "length (pt_Hash x) = 32" "length (pt_Signature x) = 65" "length (pt_Data x) \<le> 1000000"
    using ok by (simp_all add: Transaction_ok_def)
  have e: "Transaction_enc x = le_nat 8 (unat (pt_Num x)) @ le_nat 4 (unat (pt_Type x)) @ le_nat 8 (unat (pt_Timestamp x))
    @ pt_Hash x @ le_nat 8 (unat (pt_Fee x)) @ off4 141 @ off4 ?o6 @ off4 ?o7
    @ pt_Signature x @ le_nat 4 (unat (pt_Status x)) @ pt_Data x @ inputs_enc x @ outputs_enc x"
    by (simp add: Transaction_enc_def L(1))
  have o: "ReadOffset (slice 60 64 (Transaction_enc x)) = 141" "ReadOffset (slice 64 68 (Transaction_enc x)) = ?o6"
    "ReadOffset (slice 68 72 (Transaction_enc x)) = ?o7"
    using f L(3) by (simp_all add: e slice_simps)
  have s: "slice 141 ?o6 (Transaction_enc x) = pt_Data x" "slice ?o6 ?o7 (Transaction_enc x) = inputs_enc x"
    "drop ?o7 (Transaction_enc x) = outputs_enc x" "length (Transaction_enc x) = ?o7 + length (outputs_enc x)"
    using f by (simp_all add: e slice_simps)
  have v: "slice 0 8 (Transaction_enc x) = le_nat 8 (unat (pt_Num x))" "slice 8 12 (Transaction_enc x) = le_nat 4 (unat (pt_Type x))"
    "slice 12 20 (Transaction_enc x) = le_nat 8 (unat (pt_Timestamp x))" "slice 20 52 (Transaction_enc x) = pt_Hash x"
    "slice 52 60 (Transaction_enc x) = le_nat 8 (unat (pt_Fee x))" "slice 72 137 (Transaction_enc x) = pt_Signature x"
    "slice 137 141 (Transaction_enc x) = le_nat 4 (unat (pt_Status x))"
    using f by (simp_all add: e slice_simps)
  have "unmarshal_dynamic 2000 (TxInput_UnmarshalSSZ new_TxInput) (inputs_enc x) = Inr (pt_Inputs x)"
    using ok L(3) unfolding inputs_enc_def Transaction_ok_def by (intro input_ssz.dynamic_dec) simp_all
  moreover have "unmarshal_dynamic 2000 (TxOutput_UnmarshalSSZ new_TxOutput) (outputs_enc x) = Inr (pt_Outputs x)"
    using ok L(4) unfolding outputs_enc_def Transaction_ok_def by (intro output_ssz.dynamic_dec) simp_all
  ultimately show ?thesis
    using f(3) by (simp add: Transaction_UnmarshalSSZ_def Let_def o s v new_Transaction_def)
qed

lemma Transaction_dec_ok:
  assumes "Transaction_UnmarshalSSZ new_Transaction raw = Inr x"
  shows "Transaction_ok x"
proof -
  define o5 o6 o7 where "o5 = ReadOffset (slice 60 64 raw)" and "o6 = ReadOffset (slice 64 68 raw)" and "o7 = ReadOffset (slice 68 72 raw)"
  have "\<not> length raw < 141" "\<not> length (slice o5 o6 raw) > 1000000" "\<not> o5 > length raw" "\<not> o5 < 141"
      "\<not> (o6 > length raw \<or> o5 > o6)" "\<not> (o7 > length raw \<or> o6 > o7)"
    using assms by (auto simp: Transaction_UnmarshalSSZ_def Let_def o5_def o6_def o7_def split: if_splits)
  moreover from this obtain inputs outputs where d: "unmarshal_dynamic 2000 (TxInput_UnmarshalSSZ new_TxInput) (slice o6 o7 raw) = Inr inputs"
    "unmarshal_dynamic 2000 (TxOutput_UnmarshalSSZ new_TxOutput) (drop o7 raw) = Inr outputs" and
    x: "pt_Hash x = slice 20 52 raw" "pt_Signature x = slice 72 137 raw" "pt_Data x = slice o5 o6 raw" "pt_Inputs x = inputs" "pt_Outputs x = outputs"
    using assms by (auto simp: Transaction_UnmarshalSSZ_def Let_def o5_def o6_def o7_def ebind_Inr new_Transaction_def split: if_splits)
  ultimately show ?thesis
    using input_ssz.dynamic_ok [OF d(1)] output_ssz.dynamic_ok [OF d(2)] by (simp add: Transaction_ok_def) linarith
qed

interpretation tx_ssz: ssz_object Transaction_MarshalSSZTo "Transaction_UnmarshalSSZ new_Transaction" Tx_SizeSSZ Transaction_ok Transaction_enc
  by unfold_locales (simp_all add: Transaction_marshal Transaction_size Transaction_dec Transaction_dec_ok)

definition Block_ok :: "Block \<Rightarrow> bool" where
  "Block_ok b \<longleftrightarrow> length (bk_Version b) = 3 \<and> length (bk_Hash b) = 32 \<and> length (bk_Parent b) = 32 \<and> length (bk_Txroot b) = 32
    \<and> Sign_ok (bk_Proposer b) \<and> all_ok Sign_ok 128 (bk_Approvers b) \<and> all_ok Sign_ok 128 (bk_Slashers b)
    \<and> all_ok Transaction_ok 1500 (bk_Transactions b)"

definition Block_enc :: "Block \<Rightarrow> bytes" where
  "Block_enc b = le_nat 8 (unat (bk_Num b)) @ le_nat 8 (unat (bk_Slot b)) @ bk_Version b @ bk_Hash b @ bk_Parent b
    @ le_nat 8 (unat (bk_Timestamp b)) @ bk_Txroot b @ Sign_enc (bk_Proposer b)
    @ off4 220 @ off4 (220 + length (bk_Approvers b) * 85) @ off4 (220 + length (bk_Approvers b) * 85 + length (bk_Slashers b) * 85)
    @ enc_all Sign_enc (bk_Approvers b) @ enc_all Sign_enc (bk_Slashers b)
    @ enc_dyn Tx_SizeSSZ Transaction_enc (bk_Transactions b)"

lemma signs_enc_length: "all_ok Sign_ok n xs \<Longrightarrow> length (enc_all Sign_enc xs) = length xs * 85"
  using sign_ssz.length_enc_all [of xs] by (simp add: all_ok_def sum_list_triv Sign_SizeSSZ_def [abs_def])

lemma txs_enc_length:
  assumes "all_ok Transaction_ok 1500 txs"
  shows "length (enc_dyn Tx_SizeSSZ Transaction_enc txs) = sum_list (map (\<lambda>t. 4 + Tx_SizeSSZ t) txs)"
    "length (enc_dyn Tx_SizeSSZ Transaction_enc txs) \<le> 1944217500"
proof -
  show l: "length (enc_dyn Tx_SizeSSZ Transaction_enc txs) = sum_list (map (\<lambda>t. 4 + Tx_SizeSSZ t) txs)"
    using assms by (simp add: all_ok_def tx_ssz.length_enc_dyn)
  show "length (enc_dyn Tx_SizeSSZ Transaction_enc txs) \<le> 1944217500"
    using all_ok_size [OF assms, of "\<lambda>t. 4 + Tx_SizeSSZ t" 1296145] l Transaction_size by simp
qed

lemma Sign_enc_length: "Sign_ok s \<Longrightarrow> length (Sign_enc s) = 85"
  using sign_ssz.enc_size [of s] by (simp add: Sign_SizeSSZ_def)

lemma Block_size: "Block_ok b \<Longrightarrow> length (Block_enc b) = Block_SizeSSZ b \<and> Block_SizeSSZ b < 2 ^ 31"
  using txs_enc_length [of "bk_Transactions b"] signs_enc_length [of 128 "bk_Approvers b"] signs_enc_length [of 128 "bk_Slashers b"]
  by (simp add: Block_enc_def Block_ok_def Block_SizeSSZ_def Sign_enc_length all_ok_def)

lemma Block_marshal: "Block_MarshalSSZTo buf x = Inr d \<longleftrightarrow> Block_ok x \<and> d = buf @ Block_enc x"
  by (auto simp: Block_MarshalSSZTo_def Let_def ebind_Inr append_field_iff Block_ok_def Block_enc_def
      MarshalUint64_def sign_ssz.marshal_iff sign_ssz.static_iff tx_ssz.dynamic_iff)

lemma Block_dec:
  assumes ok: "Block_ok x"
  shows "Block_UnmarshalSSZ new_Block (Block_enc x) = Inr x"
proof -
  let ?A = "enc_all Sign_enc (bk_Approvers x)" and ?S = "enc_all Sign_enc (bk_Slashers x)"
    and ?T = "enc_dyn Tx_SizeSSZ Transaction_enc (bk_Transactions x)"
  let ?o9 = "220 + length ?A" and ?o10 = "220 + length ?A + length ?S"
  have f: "length (bk_Version x) = 3" "length (bk_Hash x) = 32" "length (bk_Parent x) = 32" "length (bk_Txroot x) = 32"
    "length (Sign_enc (bk_Proposer x)) = 85" and a: "all_ok Sign_ok 128 (bk_Approvers x)" "all_ok Sign_ok 128 (bk_Slashers x)"
      "all_ok Transaction_ok 1500 (bk_Transactions x)"
    using ok by (simp_all add: Block_ok_def Sign_enc_length)
  note L = signs_enc_length [OF a(1)] signs_enc_length [OF a(2)] txs_enc_length(2) [OF a(3)]
  have e: "Block_enc x = le_nat 8 (unat (bk_Num x)) @ le_nat 8 (unat (bk_Slot x)) @ bk_Version x @ bk_Hash x @ bk_Parent x
    @ le_nat 8 (unat (bk_Timestamp x)) @ bk_Txroot x @ Sign_enc (bk_Proposer x) @ off4 220 @ off4 ?o9 @ off4 ?o10 @ ?A @ ?S @ ?T"
    by (simp add: Block_enc_def L)
  have "length ?A \<le> 10880" "length ?S \<le> 10880" using a L by (simp_all add: all_ok_def)
  then have o: "ReadOffset (slice 208 212 (Block_enc x)) = 220" "ReadOffset (slice 212 216 (Block_enc x)) = ?o9"
    "ReadOffset (slice 216 220 (Block_enc x)) = ?o10"
    using f by (simp_all add: e slice_simps)
  have s: "slice 220 ?o9 (Block_enc x) = ?A" "slice ?o9 ?o10 (Block_enc x) = ?S" "drop ?o10 (Block_enc x) = ?T"
    "length (Block_enc x) = ?o10 + length ?T" "slice 123 208 (Block_enc x) = Sign_enc (bk_Proposer x)"
    using f by (simp_all add: e slice_simps)
  have v: "slice 0 8 (Block_enc x) = le_nat 8 (unat (bk_Num x))" "slice 8 16 (Block_enc x) = le_nat 8 (unat (bk_Slot x))"
    "slice 16 19 (Block_enc x) = bk_Version x" "slice 19 51 (Block_enc x) = bk_Hash x" "slice 51 83 (Block_enc x) = bk_Parent x"
    "slice 83 91 (Block_enc x) = le_nat 8 (unat (bk_Timestamp x))" "slice 91 123 (Block_enc x) = bk_Txroot x"
    using f by (simp_all add: e slice_simps)
  have d: "Sign_UnmarshalSSZ new_Sign (Sign_enc (bk_Proposer x)) = Inr (bk_Proposer x)"
    using ok by (intro sign_ssz.dec_enc) (simp add: Block_ok_def)
  have l: "unmarshal_static 85 128 (Sign_UnmarshalSSZ new_Sign) ?A = Inr (bk_Approvers x)"
    "unmarshal_static 85 128 (Sign_UnmarshalSSZ new_Sign) ?S = Inr (bk_Slashers x)"
    "unmarshal_dynamic 1500 (Transaction_UnmarshalSSZ new_Transaction) ?T = Inr (bk_Transactions x)"
    using a L(3) by (auto intro!: sign_ssz.static_dec tx_ssz.dynamic_dec simp: Sign_SizeSSZ_def)
  show ?thesis
    by (simp add: Block_UnmarshalSSZ_def Let_def o s v l d new_Block_def)
qed

lemma Block_dec_ok:
  assumes "Block_UnmarshalSSZ new_Block raw = Inr x"
  shows "Block_ok x"
proof -
  define o8 o9 o10 where "o8 = ReadOffset (slice 208 212 raw)" and "o9 = ReadOffset (slice 212 216 raw)" and "o10 = ReadOffset (slice 216 220 raw)"
  have r: "\<not> length raw < 220" using assms by (auto simp: Block_UnmarshalSSZ_def Let_def split: if_splits)
  then obtain p as ss txs where d: "Sign_UnmarshalSSZ new_Sign (slice 123 208 raw) = Inr p"
    "unmarshal_static 85 128 (Sign_UnmarshalSSZ new_Sign) (slice o8 o9 raw) = Inr as"
    "unmarshal_static 85 128 (Sign_UnmarshalSSZ new_Sign) (slice o9 o10 raw) = Inr ss"
    "unmarshal_dynamic 1500 (Transaction_UnmarshalSSZ new_Transaction) (drop o10 raw) = Inr txs" and
    x: "bk_Version x = slice 16 19 raw" "bk_Hash x = slice 19 51 raw" "bk_Parent x = slice 51 83 raw" "bk_Txroot x = slice 91 123 raw"
      "bk_Proposer x = p" "bk_Approvers x = as" "bk_Slashers x = ss" "bk_Transactions x = txs"
    using assms by (auto simp: Block_UnmarshalSSZ_def Let_def o8_def o9_def o10_def ebind_Inr new_Block_def split: if_splits)
  then show ?thesis
    using r sign_ssz.dec_ok [OF d(1)] sign_ssz.static_ok [OF d(2)] sign_ssz.static_ok [OF d(3)] tx_ssz.dynamic_ok [OF d(4)]
    by (simp add: Block_ok_def)
qed

interpretation block_ssz: ssz_object Block_MarshalSSZTo "Block_UnmarshalSSZ new_Block" Block_SizeSSZ Block_ok Block_enc
  by unfold_locales (simp_all add: Block_marshal Block_size Block_dec Block_dec_ok)

definition Attestation_ok :: "Attestation \<Rightarrow> bool" where
  "Attestation_ok a \<longleftrightarrow> length (at_Validator a) = 20 \<and> Block_ok (at_Block a) \<and> Sign_ok (at_Signature a)"

definition Attestation_enc :: "Attestation \<Rightarrow> bytes" where
  "Attestation_enc a = at_Validator a @ off4 32 @ off4 (32 + Block_SizeSSZ (at_Block a)) @ le_nat 4 (unat (at_Type a))
    @ Block_enc (at_Block a) @ Sign_enc (at_Signature a)"

interpretation attestation_ssz: ssz_object Attestation_MarshalSSZTo "Attestation_UnmarshalSSZ new_Attestation" Attestation_SizeSSZ
    Attestation_ok Attestation_enc
proof
  fix buf x d raw
  show "Attestation_MarshalSSZTo buf x = Inr d \<longleftrightarrow> Attestation_ok x \<and> d = buf @ Attestation_enc x"
    by (auto simp: Attestation_MarshalSSZTo_def Let_def ebind_Inr append_field_iff Attestation_ok_def Attestation_enc_def
        MarshalUint32_def block_ssz.marshal_iff sign_ssz.marshal_iff)
  show "Attestation_ok x \<Longrightarrow> length (Attestation_enc x) = Attestation_SizeSSZ x"
    by (simp add: Attestation_ok_def Attestation_enc_def Attestation_SizeSSZ_def block_ssz.enc_size sign_ssz.enc_size)
  show "Attestation_UnmarshalSSZ new_Attestation (Attestation_enc x) = Inr x" if ok: "Attestation_ok x"
  proof -
    let ?e = "Attestation_enc x" and ?o2 = "32 + Block_SizeSSZ (at_Block x)"
    have f: "length (at_Validator x) = 20" "Block_ok (at_Block x)" "Sign_ok (at_Signature x)" using ok by (simp_all add: Attestation_ok_def)
    have l: "length (Block_enc (at_Block x)) = Block_SizeSSZ (at_Block x)" "Block_SizeSSZ (at_Block x) < 2 ^ 31"
      using Block_size [OF f(2)] by simp_all
    have o: "ReadOffset (slice 20 24 ?e) = 32" "ReadOffset (slice 24 28 ?e) = ?o2"
      using f(1) l by (simp_all add: Attestation_enc_def slice_simps)
    have v: "slice 0 20 ?e = at_Validator x" "slice 28 32 ?e = le_nat 4 (unat (at_Type x))" "slice 32 ?o2 ?e = Block_enc (at_Block x)"
      "drop ?o2 ?e = Sign_enc (at_Signature x)" "length ?e = ?o2 + 85"
      using f l by (simp_all add: Attestation_enc_def slice_simps Sign_enc_length)
    show ?thesis
      using block_ssz.dec_enc [OF f(2)] sign_ssz.dec_enc [OF f(3)]
      by (simp add: Attestation_UnmarshalSSZ_def Let_def o v new_Attestation_def)
  qed
  show "Attestation_ok x" if dec: "Attestation_UnmarshalSSZ new_Attestation raw = Inr x"
  proof -
    define o1 o2 where "o1 = ReadOffset (slice 20 24 raw)" and "o2 = ReadOffset (slice 24 28 raw)"
    have r: "\<not> length raw < 32" using dec by (auto simp: Attestation_UnmarshalSSZ_def Let_def split: if_splits)
    then obtain b s where d: "Block_UnmarshalSSZ new_Block (slice o1 o2 raw) = Inr b" "Sign_UnmarshalSSZ new_Sign (drop o2 raw) = Inr s"
      and x: "at_Validator x = slice 0 20 raw" "at_Block x = b" "at_Signature x = s"
      using dec by (auto simp: Attestation_UnmarshalSSZ_def Let_def o1_def o2_def ebind_Inr new_Attestation_def split: if_splits)
    then show ?thesis using r block_ssz.dec_ok [OF d(1)] sign_ssz.dec_ok [OF d(2)] by (simp add: Attestation_ok_def)
  qed
qed

definition Seed_ok :: "Seed \<Rightarrow> bool" where "Seed_ok s \<longleftrightarrow> Sign_ok (sd_Proposer s)"

definition Seed_enc :: "Seed \<Rightarrow> bytes" where
  "Seed_enc s = le_nat 4 (unat (sd_Seed s)) @ Sign_enc (sd_Proposer s)"

interpretation seed_ssz: ssz_object Seed_MarshalSSZTo "Seed_UnmarshalSSZ new_Seed" Seed_SizeSSZ Seed_ok Seed_enc
proof
  fix buf x d raw
  show "Seed_MarshalSSZTo buf x = Inr d \<longleftrightarrow> Seed_ok x \<and> d = buf @ Seed_enc x"
    by (auto simp: Seed_MarshalSSZTo_def Seed_ok_def Seed_enc_def MarshalUint32_def sign_ssz.marshal_iff)
  show "Seed_ok x \<Longrightarrow> length (Seed_enc x) = Seed_SizeSSZ x"
    by (simp add: Seed_ok_def Seed_enc_def Seed_SizeSSZ_def Sign_enc_length)
  show "Seed_ok x \<Longrightarrow> Seed_UnmarshalSSZ new_Seed (Seed_enc x) = Inr x"
    using sign_ssz.dec_enc [of "sd_Proposer x"]
    by (simp add: Seed_ok_def Seed_enc_def Seed_UnmarshalSSZ_def new_Seed_def slice_simps Sign_enc_length)
  show "Seed_UnmarshalSSZ new_Seed raw = Inr x \<Longrightarrow> Seed_ok x"
    by (auto simp: Seed_ok_def Seed_UnmarshalSSZ_def new_Seed_def ebind_Inr sign_ssz.dec_ok split: if_splits)
qed

definition Metadata_ok :: "Metadata \<Rightarrow> bool" where "Metadata_ok m \<longleftrightarrow> length (md_HeadBlockHash m) = 32"

definition Metadata_enc :: "Metadata \<Rightarrow> bytes" where
  "Metadata_enc m = le_nat 8 (unat (md_HeadSlot m)) @ le_nat 8 (unat (md_HeadBlockNum m)) @ md_HeadBlockHash m"

interpretation metadata_ssz: ssz_object Metadata_MarshalSSZTo "Metadata_UnmarshalSSZ new_Metadata" Metadata_SizeSSZ Metadata_ok Metadata_enc
proof
  fix buf x d raw
  show "Metadata_MarshalSSZTo buf x = Inr d \<longleftrightarrow> Metadata_ok x \<and> d = buf @ Metadata_enc x"
    by (auto simp: Metadata_MarshalSSZTo_def append_field_iff Metadata_ok_def Metadata_enc_def MarshalUint64_def)
  show "Metadata_ok x \<Longrightarrow> length (Metadata_enc x) = Metadata_SizeSSZ x"
    by (simp add: Metadata_ok_def Metadata_enc_def Metadata_SizeSSZ_def)
  show "Metadata_ok x \<Longrightarrow> Metadata_UnmarshalSSZ new_Metadata (Metadata_enc x) = Inr x"
    by (simp add: Metadata_ok_def Metadata_enc_def Metadata_UnmarshalSSZ_def new_Metadata_def slice_simps)
  show "Metadata_UnmarshalSSZ new_Metadata raw = Inr x \<Longrightarrow> Metadata_ok x"
    by (auto simp: Metadata_ok_def Metadata_UnmarshalSSZ_def new_Metadata_def split: if_splits)
qed

definition BlockRequest_ok :: "BlockRequest \<Rightarrow> bool" where "BlockRequest_ok b \<longleftrightarrow> True"

definition BlockRequest_enc :: "BlockRequest \<Rightarrow> bytes" where
  "BlockRequest_enc b = le_nat 8 (unat (br_StartSlot b)) @ le_nat 8 (unat (br_Count b)) @ le_nat 8 (unat (br_Step b))"

interpretation request_ssz: ssz_object BlockRequest_MarshalSSZTo "BlockRequest_UnmarshalSSZ new_BlockRequest" BlockRequest_SizeSSZ
    BlockRequest_ok BlockRequest_enc
  by unfold_locales
    (auto simp: BlockRequest_MarshalSSZTo_def BlockRequest_ok_def BlockRequest_enc_def BlockRequest_SizeSSZ_def MarshalUint64_def
      BlockRequest_UnmarshalSSZ_def new_BlockRequest_def slice_simps)

subsection \<open>Properties\<close>

lemma ssz_codec_ok:
  assumes "\<And>raw. dec (enc raw) = Inr raw"
  shows "codec_ok (ssz_codec enc dec)"
  using assms block_ssz.dec_enc by (auto simp: codec_ok_def ssz_codec_def block_ssz.marshal_iff)

text \<open>A block with one transaction, with one input and two outputs, and a vote.\<close>

definition wire_sign :: Sign where
  "wire_sign = \<lparr>sg_Address = replicate 20 7, sg_Signature = replicate 65 9\<rparr>"

definition wire_tx :: PbTransaction where
  "wire_tx = \<lparr>pt_Num = 5, pt_Type = 1, pt_Timestamp = 77, pt_Hash = replicate 32 3, pt_Fee = 1, pt_Data = [1, 2, 3],
     pt_Inputs = [\<lparr>ti_Hash = replicate 32 4, ti_Index = 1, ti_Address = replicate 20 7, ti_Amount = 900, ti_Node = []\<rparr>],
     pt_Outputs = [\<lparr>to_Address = replicate 20 8, to_Amount = 500, to_Node = replicate 20 5\<rparr>,
       \<lparr>to_Address = replicate 20 7, to_Amount = 100, to_Node = []\<rparr>],
     pt_Signature = replicate 65 1, pt_Status = 0\<rparr>"

definition wire_block :: Block where
  "wire_block = \<lparr>bk_Num = 12, bk_Slot = 13, bk_Version = [1, 0, 0], bk_Hash = replicate 32 1, bk_Parent = replicate 32 2,
     bk_Timestamp = 99, bk_Txroot = replicate 32 6, bk_Proposer = wire_sign, bk_Approvers = [wire_sign], bk_Slashers = [],
     bk_Transactions = [wire_tx]\<rparr>"

lemma wire_ok: "Block_ok wire_block" "Transaction_ok wire_tx" "Sign_ok wire_sign"
  by (simp_all add: Block_ok_def Transaction_ok_def all_ok_def TxInput_ok_def TxOutput_ok_def Sign_ok_def wire_block_def wire_tx_def wire_sign_def)

text \<open>
  C25. A block that \<open>MarshalSSZ\<close> encodes has exactly the announced size in bytes, less than \<open>2 ^ 31\<close>, so that no offset is
  truncated to 32 bits, and \<open>UnmarshalSSZ\<close> into a new object gives the same block back, transactions and votes included.
\<close>

theorem block_ssz_roundtrip:
  assumes "Block_MarshalSSZTo [] b = Inr raw"
  shows "Block_UnmarshalSSZ new_Block raw = Inr b \<and> length raw = Block_SizeSSZ b \<and> Block_SizeSSZ b < 2 ^ 31"
  using assms Block_size [of b] block_ssz.dec_enc by (auto simp: block_ssz.marshal_iff)

theorem block_ssz_roundtrip_witness:
  "\<exists>raw. Block_MarshalSSZTo [] wire_block = Inr raw \<and> Block_UnmarshalSSZ new_Block raw = Inr wire_block"
proof -
  have "Block_MarshalSSZTo [] wire_block = Inr (Block_enc wire_block)" using wire_ok by (simp add: block_ssz.marshal_iff)
  then show ?thesis using block_ssz_roundtrip [of wire_block "Block_enc wire_block"] by blast
qed

text \<open>
  C26. What the network can deliver is what the node can send: a block is the result of decoding some bytes exactly when it
  can be encoded, and that is exactly when every field has the size of the schema (3 byte version, 32 byte hashes, 20
  byte addresses, 65 byte signatures) and the lists stay within their limits (128 votes, 1500 transactions, 2000 inputs
  and outputs, 20 byte node fields, one million bytes of data).
\<close>

theorem decodable_iff_encodable:
  "((\<exists>raw. Block_UnmarshalSSZ new_Block raw = Inr b) \<longleftrightarrow> (\<exists>raw. Block_MarshalSSZTo [] b = Inr raw))
    \<and> ((\<exists>raw. Block_MarshalSSZTo [] b = Inr raw) \<longleftrightarrow>
      length (bk_Version b) = 3 \<and> length (bk_Hash b) = 32 \<and> length (bk_Parent b) = 32 \<and> length (bk_Txroot b) = 32
      \<and> Sign_ok (bk_Proposer b) \<and> length (bk_Approvers b) \<le> 128 \<and> list_all Sign_ok (bk_Approvers b)
      \<and> length (bk_Slashers b) \<le> 128 \<and> list_all Sign_ok (bk_Slashers b)
      \<and> length (bk_Transactions b) \<le> 1500 \<and> list_all Transaction_ok (bk_Transactions b))"
proof -
  have "(\<exists>raw. Block_MarshalSSZTo [] b = Inr raw) \<longleftrightarrow> Block_ok b" by (simp add: block_ssz.marshal_iff)
  moreover have "(\<exists>raw. Block_UnmarshalSSZ new_Block raw = Inr b) \<longleftrightarrow> Block_ok b"
    using block_ssz.dec_ok block_ssz.dec_enc by blast
  moreover have "Block_ok b \<longleftrightarrow> length (bk_Version b) = 3 \<and> length (bk_Hash b) = 32 \<and> length (bk_Parent b) = 32 \<and> length (bk_Txroot b) = 32
      \<and> Sign_ok (bk_Proposer b) \<and> length (bk_Approvers b) \<le> 128 \<and> list_all Sign_ok (bk_Approvers b)
      \<and> length (bk_Slashers b) \<le> 128 \<and> list_all Sign_ok (bk_Slashers b)
      \<and> length (bk_Transactions b) \<le> 1500 \<and> list_all Transaction_ok (bk_Transactions b)"
    by (auto simp: Block_ok_def all_ok_def list_all_iff)
  ultimately show ?thesis by blast
qed

text \<open>
  The messages of the validators survive the network: a transaction, an attestation with its block, and a seed
  (compressed) that are serialized are read back unchanged by the receiving node.
\<close>

theorem gossip_roundtrip:
  assumes "codec_ok cd" "MarshalTx (Some tx) = Inr d1" "MarshalAttestation (Some att) = Inr d2" "MarshalSeed cd (Some seed) = Inr d3"
  shows "UnmarshalTx d1 = Inr tx \<and> UnmarshalAttestation d2 = Inr att \<and> UnmarshalSeed cd d3 = Inr seed"
proof -
  have "UnmarshalTx d1 = Inr tx" using assms(2) by (auto simp: MarshalTx_def UnmarshalTx_def tx_ssz.marshal_iff tx_ssz.dec_enc)
  moreover have "UnmarshalAttestation d2 = Inr att"
    using assms(3) by (auto simp: MarshalAttestation_def UnmarshalAttestation_def attestation_ssz.marshal_iff attestation_ssz.dec_enc)
  moreover have "UnmarshalSeed cd d3 = Inr seed"
    using assms(1,4) by (auto simp: MarshalSeed_def UnmarshalSeed_def ebind_Inr seed_ssz.marshal_iff seed_ssz.dec_enc codec_ok_def)
  ultimately show ?thesis by blast
qed

theorem gossip_roundtrip_witness:
  "\<exists>d1 d2 d3. let cd = ssz_codec (\<lambda>x. 0 # x) (\<lambda>x. Inr (tl x));
      att = \<lparr>at_Validator = replicate 20 7, at_Block = wire_block, at_Signature = wire_sign, at_Type = 1\<rparr>;
      seed = \<lparr>sd_Seed = 3, sd_Proposer = wire_sign\<rparr> in
    MarshalTx (Some wire_tx) = Inr d1 \<and> MarshalAttestation (Some att) = Inr d2 \<and> MarshalSeed cd (Some seed) = Inr d3
    \<and> UnmarshalTx d1 = Inr wire_tx \<and> UnmarshalAttestation d2 = Inr att \<and> UnmarshalSeed cd d3 = Inr seed"
proof -
  define cd where "cd = ssz_codec (\<lambda>x. 0 # x) (\<lambda>x. Inr (tl x))"
  define att where "att = \<lparr>at_Validator = replicate 20 7, at_Block = wire_block, at_Signature = wire_sign, at_Type = 1\<rparr>"
  define seed where "seed = \<lparr>sd_Seed = 3, sd_Proposer = wire_sign\<rparr>"
  have "codec_ok cd" unfolding cd_def by (rule ssz_codec_ok) simp
  moreover have "MarshalTx (Some wire_tx) = Inr (Transaction_enc wire_tx)" "MarshalAttestation (Some att) = Inr (Attestation_enc att)"
    "MarshalSeed cd (Some seed) = Inr (snappy_encode cd (Seed_enc seed))"
    using wire_ok tx_ssz.marshal_iff [of "[]" wire_tx "Transaction_enc wire_tx"]
      attestation_ssz.marshal_iff [of "[]" att "Attestation_enc att"] seed_ssz.marshal_iff [of "[]" seed "Seed_enc seed"]
    by (simp_all add: MarshalTx_def MarshalAttestation_def MarshalSeed_def Attestation_ok_def Seed_ok_def att_def seed_def)
  ultimately show ?thesis using gossip_roundtrip [of cd wire_tx _ att _ seed] by (auto simp: Let_def cd_def att_def seed_def)
qed

end
