(* ===== verification/Core.thy ===== *)
theory Core
  imports Chain_Growth TxPool Slot Ssz
begin

text \<open>
  The core service (\<^verbatim>\<open>blockchain/core/service.go\<close>), which joins the validator, the chain service, the transaction pool
  and the staking pool: \<open>FinalizeBlock\<close> and the handling of one block event of the main loop, with the retries that ask
  the network for missing blocks.  The lemmas show that whatever blocks are delivered, the stored chain only grows, by
  blocks that name its head as their parent, and that the supply check after an accepted block succeeds.
\<close>

subsection \<open>The node\<close>

record Core =
  co_chain :: Service
  co_txPool :: Pool
  co_stakePool :: StakingPool
  co_statusErr :: "error option"
  co_receivedHash :: bytes
  co_synced :: bool
  co_ticker :: "(SlotTicker \<times> int) option"

text \<open>
  Of the block received last the service only uses the hash. The ticker is \<open>None\<close> until it is started. The environment of one call: the clock, and the outcomes of
  the SQL queries for an address, in \<open>SyncData\<close>, and of the supply check.
\<close>

record core_io =
  ci_now :: int
  ci_query :: "string \<Rightarrow> error option"
  ci_sync :: "error option"
  ci_total :: "error option"

text \<open>The validator of \<^verbatim>\<open>attestation.NewService\<close> reads the chain service and the staking pool of the node.\<close>

definition node_validator :: "env \<Rightarrow> RDOBlockChainConfig \<Rightarrow> core_io \<Rightarrow> Core \<Rightarrow> CryspValidator" where
  "node_validator ev cfg io st = \<lparr>cv_bc = chain_reader ev (ci_query io) (co_chain st), cv_stakeValidator = co_stakePool st,
     cv_cfg = validatorConfig cfg, cv_params = cfg, cv_crypto = ev_crypto ev\<rparr>"

text \<open>\<open>Waits\<close>: the call hangs on the mutex of the pool, with what it has done so far.\<close>

datatype outcome = Done "error option" | Waits

text \<open>
  \<open>FinalizeBlock\<close>. The block object is shared: its transactions get their status while they are verified.  The only
  errors of the pool's \<open>Finalize\<close> are run-time panics, which end the call.
\<close>

definition finalize_pools :: "Core \<Rightarrow> Block \<Rightarrow> Core \<times> outcome" where
  "finalize_pools st block =
    (let typedBatch = PbTxBatchToTyped (bk_Transactions block) in
     case Pool_Finalize (co_txPool st) typedBatch of
       None \<Rightarrow> (st, Waits)
     | Some (pool, Some e) \<Rightarrow> (st\<lparr>co_txPool := pool\<rparr>, Done (Some e))
     | Some (pool, None) \<Rightarrow>
        (case FinalizeStaking (co_stakePool st) typedBatch of
           (stake, Some e) \<Rightarrow> (st\<lparr>co_txPool := pool, co_stakePool := stake\<rparr>, Done (Some (Wrap e ''StakePool error'')))
         | (stake, None) \<Rightarrow> (st\<lparr>co_txPool := pool, co_stakePool := stake\<rparr>, Done None)))"

definition Core_FinalizeBlock :: "env \<Rightarrow> RDOBlockChainConfig \<Rightarrow> core_io \<Rightarrow> Core \<Rightarrow> Block \<Rightarrow> Core \<times> Block \<times> outcome" where
  "Core_FinalizeBlock ev cfg io st block =
    (if bk_Num block = 0 then (st, block, Done (ValidateGenesis (node_validator ev cfg io st) (ci_now io) block))
     else case ValidateBlock (node_validator ev cfg io st) (ci_now io) block True of
         (block, failedTx, Some (Panic m)) \<Rightarrow> (st, block, Done (Some (Panic m)))
       | (block, failedTx, Some e) \<Rightarrow>
           (case (if failedTx \<noteq> [] then Pool_Finalize (co_txPool st) failedTx else Some (co_txPool st, None)) of
              None \<Rightarrow> (st, block, Waits)
            | Some (pool, Some p) \<Rightarrow> (st\<lparr>co_txPool := pool\<rparr>, block, Done (Some p))
            | Some (pool, None) \<Rightarrow>
               (case ClearForged pool block of
                  None \<Rightarrow> (st\<lparr>co_txPool := pool\<rparr>, block, Waits)
                | Some (pool, _) \<Rightarrow> (st\<lparr>co_txPool := pool\<rparr>, block, Done (Some e))))
       | (block, failedTx, None) \<Rightarrow>
           (case FinalizeBlock ev (ci_sync io) (co_chain st) block of
              (chain, Some e) \<Rightarrow> (st\<lparr>co_chain := chain\<rparr>, block, Done (Some (Wrap e ''FinalizeBlockError'')))
            | (chain, None) \<Rightarrow>
               (case finalize_pools (st\<lparr>co_chain := chain\<rparr>) block of
                  (st, Done None) \<Rightarrow>
                    (case CheckBalance (ci_total io) (co_chain st) of
                       Some e \<Rightarrow> (st, block, Done (Some (Wrap e ''Balances inconsistency'')))
                     | None \<Rightarrow> (st, block, Done None))
                | (st, r) \<Rightarrow> (st, block, r))))"

text \<open>
  One block event of \<open>mainLoop\<close>. \<open>sync k\<close> is what the \<open>k\<close>-th call of \<open>SyncWithNetwork\<close> does to the node and the error
  it returns, or that it does not return; the loop over it has no bound in the code, so the model takes fuel and \<open>Waits\<close>
  when it runs out. No theorem depends on the fuel: they hold for every value of it.
\<close>

definition ErrAlreadySynced :: error where
  "ErrAlreadySynced = Sentinel ''The node is already synced with network''"

fun retry_loop :: "env \<Rightarrow> RDOBlockChainConfig \<Rightarrow> (nat \<Rightarrow> core_io) \<Rightarrow> (nat \<Rightarrow> Core \<Rightarrow> Core \<times> outcome) \<Rightarrow> nat \<Rightarrow>
    Core \<times> Block \<times> outcome \<Rightarrow> Core \<times> Block \<times> outcome" where
  "retry_loop ev cfg io sync 0 (st, block, r) = (if r = Done (Some ErrPreviousBlockNotExists) then (st, block, Waits) else (st, block, r))"
| "retry_loop ev cfg io sync (Suc k) (st, block, r) =
    (if r \<noteq> Done (Some ErrPreviousBlockNotExists) then (st, block, r)
     else (case sync k st of
         (st, Waits) \<Rightarrow> (st, block, Waits)
       | (st, Done errSync) \<Rightarrow>
          if errSync \<noteq> None \<and> errSync \<noteq> Some ErrAlreadySynced then retry_loop ev cfg io sync k (st, block, r)
          else retry_loop ev cfg io sync k (Core_FinalizeBlock ev cfg (io k) st block)))"

definition handle_block :: "env \<Rightarrow> RDOBlockChainConfig \<Rightarrow> (nat \<Rightarrow> core_io) \<Rightarrow> (nat \<Rightarrow> Core \<Rightarrow> Core \<times> outcome) \<Rightarrow> nat \<Rightarrow>
    Core \<Rightarrow> Block \<Rightarrow> Core" where
  "handle_block ev cfg io sync fuel st block =
    (if bk_Hash block = co_receivedHash st then st
     else (let r0 = Core_FinalizeBlock ev cfg (io fuel) st block in
       case (if co_synced st then retry_loop ev cfg io sync fuel r0 else r0) of
         (st, block, Waits) \<Rightarrow> st
       | (st, block, Done None) \<Rightarrow> st\<lparr>co_receivedHash := bk_Hash block\<rparr>
       | (st, block, Done (Some e)) \<Rightarrow>
           if errors_Is e ErrKnownBlock then st\<lparr>co_receivedHash := bk_Hash block\<rparr> else st\<lparr>co_statusErr := Some e\<rparr>))"

datatype State = Initialized | LocalSynced | Synced | ConnectionHandlersReady | StakePoolInitialized | Connected

text \<open>
  \<open>waitInitialized\<close> consumes state events until \<open>Synced\<close>; the result is the node and the events left unread. Every event
  comes with the three clock readings of the ticker's start.
\<close>

definition start_ticker :: "RDOBlockChainConfig \<Rightarrow> Core \<Rightarrow> int \<times> int \<times> int \<Rightarrow> error + Core" where
  "start_ticker cfg st t = (case (GetGenesis (sv_bc (co_chain st)), t) of
     (None, _) \<Rightarrow> Inl (Panic ''nil pointer dereference'')
   | (Some g, t1, t2, t3) \<Rightarrow>
      (case StartFromTimestamp cfg (NewSlotTicker cfg) (bk_Timestamp g) t1 t2 t3 of
         Inl (Panic m) \<Rightarrow> Inl (Panic m)
       | Inl e \<Rightarrow> Inl (Panic ''Zero Genesis time'')
       | Inr k \<Rightarrow> Inr (st\<lparr>co_ticker := Some k\<rparr>)))"

fun waitInitialized :: "RDOBlockChainConfig \<Rightarrow> Core \<Rightarrow> (State \<times> int \<times> int \<times> int) list \<Rightarrow>
    error + Core \<times> (State \<times> int \<times> int \<times> int) list" where
  "waitInitialized cfg st [] = Inr (st, [])"
| "waitInitialized cfg st ((e, t) # es) =
    (if e = LocalSynced then (case start_ticker cfg st t of Inl p \<Rightarrow> Inl p | Inr st \<Rightarrow> waitInitialized cfg st es)
     else if e = Synced then Inr (st\<lparr>co_synced := True\<rparr>, es)
     else waitInitialized cfg st es)"

subsection \<open>The chain only grows\<close>

text \<open>The stored chain as the readers see it does not depend on the cached head block or on the call counter.\<close>

definition same_chain :: "BlockChain \<Rightarrow> BlockChain \<Rightarrow> bool" where
  "same_chain a b \<longleftrightarrow> kv_data (bc_db a) = kv_data (bc_db b) \<and> bc_prevHash a = bc_prevHash b
    \<and> bc_futureBlockNum a = bc_futureBlockNum b \<and> bc_headBlockNum a = bc_headBlockNum b
    \<and> bc_genesisBlock a = bc_genesisBlock b \<and> bc_genesisHash a = bc_genesisHash b"

lemma same_chain_reads:
  assumes "same_chain a b"
  shows "GetBlockByNum ev a n = GetBlockByNum ev b n" "GetBlockByHash ev a h = GetBlockByHash ev b h"
proof -
  have g: "Get bk k (bc_db a) = Get bk k (bc_db b)" for bk k
    using assms by (intro Get_data) (simp add: same_chain_def)
  have "GetBlock cd n h (bc_db a) = GetBlock cd n h (bc_db b)" "GetBlockHash n (bc_db a) = GetBlockHash n (bc_db b)"
    "GetBlockNum h (bc_db a) = GetBlockNum h (bc_db b)" for cd n h
    by (simp_all only: GetBlock_def GetBlockHash_def GetBlockNum_def g)
  note r = this
  have "kv_GetBlockByNum cd n (bc_db a) = kv_GetBlockByNum cd n (bc_db b)"
    "kv_GetBlockByHash cd h (bc_db a) = kv_GetBlockByHash cd h (bc_db b)" for cd n h
    by (simp_all only: kv_GetBlockByNum_def kv_GetBlockByHash_def r)
  moreover have "bc_headBlockNum a = bc_headBlockNum b" "bc_genesisBlock a = bc_genesisBlock b" "bc_genesisHash a = bc_genesisHash b"
    using assms by (simp_all add: same_chain_def)
  ultimately show "GetBlockByNum ev a n = GetBlockByNum ev b n" "GetBlockByHash ev a h = GetBlockByHash ev b h"
    by (simp_all only: GetBlockByNum_def GetBlockByHash_def GetGenesis_def GetHeadBlockNum_def)
qed

lemma same_chain_of:
  assumes "same_chain a b" "chain_of ev a bs"
  shows "chain_of ev b bs"
proof -
  have f: "bc_prevHash b = bc_prevHash a" "bc_futureBlockNum b = bc_futureBlockNum a" "bc_headBlockNum b = bc_headBlockNum a"
    "bc_genesisBlock b = bc_genesisBlock a" "bc_genesisHash b = bc_genesisHash a"
    using assms(1) by (simp_all add: same_chain_def)
  have g: "Get bk k (bc_db a) = Get bk k (bc_db b)" for bk k
    using assms(1) by (intro Get_data) (simp add: same_chain_def)
  show ?thesis
    using assms(2) unfolding chain_of_def f same_chain_reads [OF assms(1)] g [symmetric] .
qed

lemma same_chain_refl [simp]: "same_chain a a"
  by (simp add: same_chain_def)

lemma SyncData_chain: "SyncData ev qerr bc om = (bc', om', e) \<Longrightarrow> same_chain bc bc'"
  by (auto simp: SyncData_def syncLastBlock_def GetHeadBlock_def Let_def same_chain_def
      split: sum.splits option.splits prod.splits if_splits)

lemma Put_reliable: "\<forall>n. io n = None \<Longrightarrow> \<exists>s'. Put io b k v s = (s', None)"
  by (simp add: Put_def Let_def)

lemma Update_reliable: "\<forall>n. io n = None \<Longrightarrow> \<exists>s'. f s = (s', None) \<Longrightarrow> \<exists>s'. Update io f s = (s', None)"
  by (auto simp: Update_def)

lemma SaveHeadBlockNum_reliable: "\<forall>n. io n = None \<Longrightarrow> \<exists>s'. SaveHeadBlockNum io n s = (s', None)"
  unfolding SaveHeadBlockNum_def by (intro Update_reliable Put_reliable)

lemma UpdateAmountStats_reliable: "\<forall>n. io n = None \<Longrightarrow> \<exists>s'. UpdateAmountStats io r f s = (s', None)"
  unfolding UpdateAmountStats_def
  by (intro Update_reliable) (auto split: option.splits prod.splits intro: Put_reliable)

text \<open>With a disk that does not fail, saving a block either stores all of it or changes nothing.\<close>

lemma SaveBlock_fail:
  assumes "SaveBlock ev bc b = (bc', Some e)" "\<forall>n. ev_kvio ev n = None"
  shows "same_chain bc bc'"
proof -
  note h = SaveHeadBlockNum_reliable [OF assms(2)] and u = UpdateAmountStats_reliable [OF assms(2)]
  obtain db e' where w: "WriteBlock (ev_codec ev) (ev_kvio ev) b (bc_db bc) = (db, e')" by fastforce
  have "e' \<noteq> None"
  proof
    assume "e' = None"
    moreover obtain db2 where "SaveHeadBlockNum (ev_kvio ev) (bk_Num b) db = (db2, None)" using h by blast
    moreover obtain db3 where "UpdateAmountStats (ev_kvio ev) (block_reward (bk_Transactions b)) (block_fee (bk_Transactions b)) db2 = (db3, None)"
      using u by blast
    ultimately show False using assms(1) w by (simp add: SaveBlock_def bc_saveHeadBlockNum_def)
  qed
  then have "bc' = bc\<lparr>bc_db := db\<rparr>" "kv_data db = kv_data (bc_db bc)"
    using assms(1) w WriteBlock_fail [of _ _ b "bc_db bc" db] by (auto simp: SaveBlock_def)
  then show ?thesis by (simp add: same_chain_def)
qed

lemma FinalizeBlock_fail:
  assumes "FinalizeBlock ev qerr s b = (s', Some e)" "\<forall>n. ev_kvio ev n = None"
  shows "same_chain (sv_bc s) (sv_bc s')"
proof -
  obtain om eo where p: "ProcessBlock ev (sv_outm s) b = (om, eo)" by fastforce
  obtain bc eb where sv: "SaveBlock ev (sv_bc s) b = (bc, eb)" by fastforce
  show ?thesis
  proof (cases eo)
    case (Some x)
    then show ?thesis using assms(1) p by (auto simp: FinalizeBlock_def)
  next
    case None
    then obtain x where x: "eb = Some x" using assms(1) p sv by (cases eb) (auto simp: FinalizeBlock_def)
    obtain bc2 om2 e2 where y: "SyncData ev qerr bc om = (bc2, om2, e2)" by (metis prod_cases3)
    then have "sv_bc s' = bc2" using assms(1) p sv None x by (auto simp: FinalizeBlock_def)
    then show ?thesis
      using SaveBlock_fail [OF sv [unfolded x] assms(2)] SyncData_chain [OF y] by (auto simp: same_chain_def)
  qed
qed

lemma finalize_pools_chain [simp]: "co_chain (fst (finalize_pools st b)) = co_chain st"
  by (simp add: finalize_pools_def Let_def split: option.split prod.split)

lemma core_chain_cases:
  assumes "Core_FinalizeBlock ev cfg io st b = (st', b', r)"
  shows "co_chain st' = co_chain st \<or>
    (\<exists>failed e. ValidateBlock (node_validator ev cfg io st) (ci_now io) b True = (b', failed, None)
       \<and> FinalizeBlock ev (ci_sync io) (co_chain st) b' = (co_chain st', e) \<and> (e = None \<or> r \<noteq> Done None))"
proof (cases "bk_Num b = 0")
  case True
  then show ?thesis using assms by (auto simp: Core_FinalizeBlock_def)
next
  case False
  obtain b1 failed e where v: "ValidateBlock (node_validator ev cfg io st) (ci_now io) b True = (b1, failed, e)"
    by (metis prod_cases3)
  show ?thesis
  proof (cases e)
    case (Some x)
    then show ?thesis
      using assms v False by (cases x) (auto simp: Core_FinalizeBlock_def split: option.splits prod.splits if_splits)
  next
    case None
    obtain ch ef where f: "FinalizeBlock ev (ci_sync io) (co_chain st) b1 = (ch, ef)" by fastforce
    obtain st1 r1 where p: "finalize_pools (st\<lparr>co_chain := ch\<rparr>) b1 = (st1, r1)" by fastforce
    have c: "co_chain st1 = ch" using finalize_pools_chain [of "st\<lparr>co_chain := ch\<rparr>" b1] p by simp
    show ?thesis
      using assms v None False f p c
      by (cases ef) (auto simp: Core_FinalizeBlock_def split: outcome.splits option.splits)
  qed
qed

text \<open>
  \<open>grown ev bs st\<close>: the node has a disk without failures and stores the chain \<open>bs\<close>, possibly with later blocks after
  it.
\<close>

definition reliable :: "env \<Rightarrow> bool" where
  "reliable ev \<longleftrightarrow> codec_ok (ev_codec ev) \<and> (\<forall>n. ev_kvio ev n = None)"

definition grown :: "env \<Rightarrow> Block list \<Rightarrow> Core \<Rightarrow> bool" where
  "grown ev bs st \<longleftrightarrow> reliable ev \<and> (\<exists>bs'. chain_of ev (sv_bc (co_chain st)) (bs @ bs'))"

lemma grown_chain: "co_chain st' = co_chain st \<Longrightarrow> grown ev bs st' = grown ev bs st"
  by (simp add: grown_def)

lemma grown_step:
  assumes "grown ev bs st" "Core_FinalizeBlock ev cfg io st b = (st', b', r)"
  shows "grown ev bs st'"
proof -
  obtain bs' where c: "codec_ok (ev_codec ev)" "\<forall>n. ev_kvio ev n = None" and ch: "chain_of ev (sv_bc (co_chain st)) (bs @ bs')"
    using assms(1) unfolding grown_def reliable_def by (elim conjE exE) (rule that)
  from core_chain_cases [OF assms(2)] show ?thesis
  proof (elim disjE exE conjE)
    assume "co_chain st' = co_chain st"
    from grown_chain [OF this] show ?thesis using assms(1) by simp
  next
    fix failed e
    assume v: "ValidateBlock (node_validator ev cfg io st) (ci_now io) b True = (b', failed, None)"
      and f: "FinalizeBlock ev (ci_sync io) (co_chain st) b' = (co_chain st', e)"
    have "\<exists>bs''. chain_of ev (sv_bc (co_chain st')) (bs @ bs'')"
    proof (cases e)
      case None
      have "cv_bc (node_validator ev cfg io st) = chain_reader ev (ci_query io) (co_chain st)" by (simp add: node_validator_def)
      from growth_step [OF ch this c(1) v f [unfolded None]] show ?thesis by auto
    next
      case (Some x)
      from same_chain_of [OF FinalizeBlock_fail [OF f [unfolded Some] c(2)] ch] show ?thesis by blast
    qed
    then show "grown ev bs st'" "grown ev bs st'" using c by (simp_all add: grown_def reliable_def)
  qed
qed

lemma grown_retry:
  assumes "\<And>k st. grown ev bs st \<Longrightarrow> grown ev bs (fst (sync k st))"
  shows "grown ev bs st \<Longrightarrow> grown ev bs (fst (retry_loop ev cfg io sync k (st, b, r)))"
proof (induction k arbitrary: st b r)
  case (Suc k)
  obtain st1 e where s: "sync k st = (st1, e)" by fastforce
  then have g: "grown ev bs st1" using assms [OF Suc.prems, of k] by simp
  obtain st2 b2 r2 where f: "Core_FinalizeBlock ev cfg (io k) st1 b = (st2, b2, r2)" by (metis prod_cases3)
  then show ?case
    using Suc.IH [OF g] Suc.IH [OF grown_step [OF g f]] Suc.prems s g by (simp split: outcome.split)
qed simp

lemma grown_handle:
  assumes "\<And>k st. grown ev bs st \<Longrightarrow> grown ev bs (fst (sync k st))" and g: "grown ev bs st"
  shows "grown ev bs (handle_block ev cfg io sync fuel st b)"
proof -
  obtain st1 b1 r1 where f: "Core_FinalizeBlock ev cfg (io fuel) st b = (st1, b1, r1)" by (metis prod_cases3)
  obtain st2 b2 r2 where l: "(if co_synced st then retry_loop ev cfg io sync fuel (st1, b1, r1) else (st1, b1, r1)) = (st2, b2, r2)"
    by (metis prod_cases3)
  have "grown ev bs st2"
    using grown_retry [where sync = sync and cfg = cfg and io = io and k = fuel and b = b1 and r = r1,
        OF assms(1) grown_step [OF g f]] grown_step [OF g f] l
    by (auto split: if_splits)
  then show ?thesis
    using g by (auto simp: handle_block_def f l grown_def split: outcome.split option.split)
qed

subsection \<open>A fresh node starts\<close>

lemma andThen_reliable: "\<exists>s'. r = (s', None) \<Longrightarrow> (\<And>s. \<exists>s'. f s = (s', None)) \<Longrightarrow> \<exists>s'. andThen r f = (s', None)"
  by (auto simp: andThen_def)

lemma saveTransactions_reliable:
  assumes "\<forall>n. io n = None"
  shows "\<exists>s'. saveTransactions_loop io bk i txs s = (s', None)"
  by (induction txs arbitrary: i s) (simp_all add: andThen_reliable Put_reliable [OF assms])

lemma account_state_system: "\<forall>tx\<in>set txs. IsSystemTx tx \<Longrightarrow> updateBlockAccountState io txs s = (s, None)"
  by (induction txs) simp_all

text \<open>A new block of system transactions is stored by a disk that works, if it can be encoded.\<close>

lemma WriteBlock_system:
  assumes io: "\<forall>n. io n = None" and m: "MarshalBlock cd (Some b) = Inr data" and sys: "\<forall>tx\<in>set (bk_Transactions b). IsSystemTx tx"
    and new: "Get BlocksBucket (genBlockKey (bk_Num b) (bk_Hash b)) s = None"
  shows "\<exists>s'. WriteBlock cd io b s = (s', None)"
  unfolding WriteBlock_def m sum.case Let_def
proof (rule Update_reliable [OF io])
  note P = Put_reliable [OF io] andThen_reliable saveTransactions_reliable [OF io]
  show "\<exists>s'. (if Get BlocksBucket (genBlockKey (bk_Num b) (bk_Hash b)) s \<noteq> None then (s, Some (Errorf ''block already exists''))
      else andThen (Put io BlocksBucket (genBlockKey (bk_Num b) (bk_Hash b)) data s) (\<lambda>s.
           andThen (updateBlockAccountState io (bk_Transactions b) s) (\<lambda>s.
           andThen (saveBlockNum io (bk_Num b) (bk_Hash b) s) (\<lambda>s.
           andThen (saveBlockSlot io (bk_Slot b) (bk_Num b) s) (\<lambda>s.
           andThen (saveBlockHash io (bk_Num b) (bk_Hash b) s) (\<lambda>s. saveTransactions io b s)))))) = (s', None)"
    using new by (simp add: P account_state_system [OF sys] saveBlockNum_def saveBlockSlot_def saveBlockHash_def saveTransactions_def)
qed

lemma SaveBlock_system:
  assumes io: "\<forall>n. ev_kvio ev n = None" and m: "MarshalBlock (ev_codec ev) (Some b) = Inr data"
    and sys: "\<forall>tx\<in>set (bk_Transactions b). IsSystemTx tx"
    and new: "Get BlocksBucket (genBlockKey (bk_Num b) (bk_Hash b)) (bc_db bc) = None"
  shows "\<exists>bc'. SaveBlock ev bc b = (bc', None)"
proof -
  obtain db1 where "WriteBlock (ev_codec ev) (ev_kvio ev) b (bc_db bc) = (db1, None)"
    using WriteBlock_system [OF io m sys new] by blast
  moreover obtain db2 where "SaveHeadBlockNum (ev_kvio ev) (bk_Num b) db1 = (db2, None)"
    using SaveHeadBlockNum_reliable [OF io] by blast
  moreover obtain db3 where "UpdateAmountStats (ev_kvio ev) (block_reward (bk_Transactions b)) (block_fee (bk_Transactions b)) db2 = (db3, None)"
    using UpdateAmountStats_reliable [OF io] by blast
  ultimately show ?thesis by (simp add: SaveBlock_def bc_saveHeadBlockNum_def)
qed

lemma genesis_txs_system: "genesis_txs ev ts outs = Inr txs \<Longrightarrow> \<forall>tx\<in>set txs. pt_Type tx = GenesisTxType"
proof (induction outs arbitrary: txs)
  case (Cons o1 outs)
  then obtain tx rest where "NewPbTransaction (ev_crypto ev) (ev_now ev)
      \<lparr>op_Inputs = [], op_Outputs = o1, op_Fee = 0, op_Data = [], op_Num = GenesisBlockNum, op_Type = GenesisTxType, op_Timestamp = ts\<rparr> None = Inr tx"
    "genesis_txs ev ts outs = Inr rest" "txs = tx # rest"
    by (auto split: sum.splits)
  then show ?case using Cons.IH by (auto simp: NewPbTransaction_def Let_def split: sum.splits)
qed simp

lemma createGenesis_system:
  assumes "createGenesis ev bc = (bc', Some g)"
  shows "\<forall>tx\<in>set (bk_Transactions g). IsSystemTx tx"
proof -
  obtain ts outs where "genesis_txs ev ts outs = Inr (bk_Transactions g)"
    using assms by (auto simp: createGenesis_def Let_def split: sum.splits)
  then show ?thesis using genesis_txs_system by (fastforce simp: IsSystemTx_def)
qed

lemma Init_starts:
  assumes c: "codec_ok (ev_codec ev)" and io: "\<forall>n. ev_kvio ev n = None"
    and g: "\<And>bc. snd (createGenesis ev bc) = Some g" and m: "MarshalBlock (ev_codec ev) (Some g) = Inr data"
  shows "\<exists>bc. BlockChain_Init ev (NewBlockChain NewKVStore) = (bc, None) \<and> chain_of ev bc [g]"
proof -
  let ?bc0 = "NewBlockChain NewKVStore" and ?io = "ev_kvio ev" and ?cd = "ev_codec ev"
  obtain db1 where h: "SaveHeadBlockNum ?io 0 NewKVStore = (db1, None)" using SaveHeadBlockNum_reliable [OF io] by blast
  have "\<exists>db2. SaveGenesis ?cd ?io g db1 = (db2, None)"
    unfolding SaveGenesis_def m sum.case by (intro Update_reliable [OF io] Put_reliable [OF io])
  then obtain db2 where sg: "SaveGenesis ?cd ?io g db1 = (db2, None)" by blast
  let ?b1 = "?bc0\<lparr>bc_db := db1\<rparr>"
  obtain bc1 where cg: "createGenesis ev ?b1 = (bc1, Some g)" using g [of ?b1] by (cases "createGenesis ev ?b1") simp
  note G = createGenesis_fields [OF cg]
  have get: "Get BlocksBucket k db2 = (if k = genesisBlockKey then Some data else if k = lastBlockKey then Some (MarshalUint64 [] 0) else None)" for k
    using SaveGenesis_ok [OF sg] SaveHeadBlockNum_ok [OF h, of BlocksBucket k] m by (auto simp: NewKVStore_def Get_def [of _ _ "\<lparr>kv_data = [], kv_calls = 0\<rparr>"])
  obtain db3 where w: "WriteBlock ?cd ?io g db2 = (db3, None)"
    using WriteBlock_system [OF io m createGenesis_system [OF cg], of db2] get by auto
  have n1: "kv_GetGenesis ?cd db1 = Inr None"
    using SaveHeadBlockNum_ok [OF h, of BlocksBucket genesisBlockKey] by (simp add: kv_GetGenesis_def NewKVStore_def Get_def)
  have n3: "kv_GetGenesis ?cd db3 = Inr (Some g)"
    using WriteBlock_ok [OF w] get m by (auto simp: kv_GetGenesis_def UnmarshalBlock_Marshal [OF c])
  have "kv_GetHeadBlockNum NewKVStore = Inl ErrNoHead" "CountBlocks NewKVStore = 0" "errors_Is ErrNoHead ErrNoHead"
    by (simp_all add: kv_GetHeadBlockNum_def NewKVStore_def Get_def CountBlocks_def ErrNoHead_def)
  then have i: "init_head ev ?bc0 = (?b1, Inr 0)"
    using h by (simp add: init_head_def bc_saveHeadBlockNum_def NewBlockChain_def)
  have "insertGenesis ev ?b1 = (bc1\<lparr>bc_db := db3, bc_genesisBlock := Some g\<rparr>, None)"
    using n1 cg G sg w by (simp add: insertGenesis_def NewBlockChain_def)
  then obtain bc where b: "BlockChain_Init ev ?bc0 = (bc, None)" "bc_genesisBlock bc = Some g"
    using i n3 by (auto simp: BlockChain_Init_def Let_def)
  obtain g' where "chain_of ev bc [g']" using chain_of_fresh [OF b(1) c] by blast
  then show ?thesis using chain_ofD(4) b by fastforce
qed

text \<open>A node on an empty disk that reads a genesis file without balances; its blocks are encoded with SSZ.\<close>

definition node_env :: env where
  "node_env = demo_env\<lparr>ev_codec := ssz_codec (\<lambda>x. x) Inr, ev_genesis := Inr \<lparr>gn_Outputs = [], gn_Hash = ''0x09'', gn_Timestamp = 3\<rparr>\<rparr>"

definition node_genesis :: Block where
  "node_genesis = \<lparr>bk_Num = 0, bk_Slot = 0, bk_Version = [1, 0, 0], bk_Hash = HexToHash ''0x09'', bk_Parent = SetBytes 32 [],
     bk_Timestamp = 3, bk_Txroot = EmptyTxRoot demo_crypto,
     bk_Proposer = \<lparr>sg_Address = HexToAddress BlackHoleAddress, sg_Signature = replicate 65 0\<rparr>,
     bk_Approvers = [], bk_Slashers = [], bk_Transactions = []\<rparr>"

lemma node_genesis: "snd (createGenesis node_env bc) = Some node_genesis"
  by (simp add: node_env_def demo_env_def createGenesis_def castGenesisOutputs_def genesis_slices.simps GenTxRoot_def
      MerkleeRoot_def node_genesis_def demo_crypto_def)

lemma node_genesis_ok: "Block_ok node_genesis"
proof -
  have "FromHex ''0x09'' \<noteq> []" "FromHex BlackHoleAddress \<noteq> []" by code_simp+
  then show ?thesis by (simp add: Block_ok_def node_genesis_def Sign_ok_def all_ok_def HexToHash_def BytesToHash_def HexToAddress_def
      BytesToAddress_def EmptyTxRoot_def demo_crypto_def)
qed

lemma node_env_ok: "reliable node_env"
  using ssz_codec_ok [of Inr "\<lambda>x. x"] by (simp add: reliable_def node_env_def demo_env_def)

lemma node_marshal: "MarshalBlock (ev_codec node_env) (Some node_genesis) = Inr (Block_enc node_genesis)"
  using node_genesis_ok block_ssz.marshal_iff [of "[]" node_genesis "Block_enc node_genesis"]
  by (simp add: MarshalBlock_def node_env_def ssz_codec_def)

lemma node_starts: "\<exists>bc. BlockChain_Init node_env (NewBlockChain NewKVStore) = (bc, None) \<and> chain_of node_env bc [node_genesis]"
  using node_env_ok by (intro Init_starts [OF _ _ node_genesis node_marshal]) (simp_all add: reliable_def)

end
