(* ===== verification/Peers.thy ===== *)
theory Peers
  imports Ssz
begin

text \<open>
  The peer store (\<^verbatim>\<open>p2p/peerstore.go\<close>) and the scorers (\<^verbatim>\<open>shared/score/scorers.go\<close>).  A peer identifier is a string; every
  operation runs under the store's mutex and is atomic.  Shown: over any sequence of calls every entry is filed under its own
  identifier, and the scorer of the remote head block is the largest head number that any peer ever reported: it never
  goes down, not even when the peer that reported it disconnects.
\<close>

subsection \<open>Scorers\<close>

datatype strategy = maxStrategy | minStrategy

record Scorer =
  sc_val :: uint64
  sc_strategy :: strategy
  sc_initialized :: bool

definition MinScorer :: Scorer where
  "MinScorer = \<lparr>sc_val = - 1, sc_strategy = minStrategy, sc_initialized = False\<rparr>"

definition MaxScorer :: Scorer where
  "MaxScorer = \<lparr>sc_val = 0, sc_strategy = maxStrategy, sc_initialized = False\<rparr>"

definition Scorer_Set :: "uint64 \<Rightarrow> Scorer \<Rightarrow> Scorer" where
  "Scorer_Set v s = (case sc_strategy s of
     maxStrategy \<Rightarrow> if v > sc_val s then s\<lparr>sc_val := v\<rparr> else s
   | minStrategy \<Rightarrow> if v < sc_val s then s\<lparr>sc_val := v\<rparr> else s)"

definition Scorer_Get :: "Scorer \<Rightarrow> uint64" where "Scorer_Get s = sc_val s"

definition Initialize :: "Scorer \<Rightarrow> Scorer" where "Initialize s = s\<lparr>sc_initialized := True\<rparr>"

definition Scorer_Initialized :: "Scorer \<Rightarrow> bool" where "Scorer_Initialized s = sc_initialized s"

subsection \<open>The store\<close>

datatype PeerStatus = PeerConnected | PeerDisconnected | PeerReconnected

record PeerData =
  pd_Id :: string
  pd_Status :: PeerStatus
  pd_LastUpdate :: int
  pd_BlockRequest :: int
  pd_BadResponse :: int
  pd_HeadSlot :: uint64
  pd_HeadBlockNum :: uint64
  pd_HeadBlockHash :: bytes

record PeerStore =
  ps_data :: "(string, PeerData) gomap"
  ps_PeerHeadSlot :: Scorer
  ps_PeerHeadBlock :: Scorer

definition NewPeerStore :: PeerStore where
  "NewPeerStore = \<lparr>ps_data = [], ps_PeerHeadSlot = MaxScorer, ps_PeerHeadBlock = MaxScorer\<rparr>"

text \<open>\<^verbatim>\<open>&PeerData{Id: pid}\<close>: the zero status is \<open>Connected\<close>.\<close>

definition new_peer :: "string \<Rightarrow> PeerData" where
  "new_peer pid = \<lparr>pd_Id = pid, pd_Status = PeerConnected, pd_LastUpdate = 0, pd_BlockRequest = 0, pd_BadResponse = 0,
     pd_HeadSlot = 0, pd_HeadBlockNum = 0, pd_HeadBlockHash = []\<rparr>"

definition Connect :: "string \<Rightarrow> PeerStore \<Rightarrow> PeerStore" where
  "Connect pid ps = (case map_of (ps_data ps) pid of
     Some d \<Rightarrow> ps\<lparr>ps_data := gput pid (d\<lparr>pd_Status := PeerReconnected\<rparr>) (ps_data ps)\<rparr>
   | None \<Rightarrow> ps\<lparr>ps_data := gput pid (new_peer pid) (ps_data ps)\<rparr>)"

definition Disconnect :: "string \<Rightarrow> PeerStore \<Rightarrow> PeerStore" where
  "Disconnect pid ps = (case map_of (ps_data ps) pid of
     None \<Rightarrow> ps
   | Some d \<Rightarrow> ps\<lparr>ps_data := gput pid (d\<lparr>pd_Status := PeerDisconnected\<rparr>) (ps_data ps)\<rparr>)"

definition AddMeta :: "string \<Rightarrow> Metadata \<Rightarrow> int \<Rightarrow> PeerStore \<Rightarrow> PeerStore" where
  "AddMeta pid meta now ps =
    (let d = (case map_of (ps_data ps) pid of Some d \<Rightarrow> d | None \<Rightarrow> new_peer pid) in
     ps\<lparr>ps_data := gput pid (d\<lparr>pd_LastUpdate := now, pd_HeadSlot := md_HeadSlot meta, pd_HeadBlockNum := md_HeadBlockNum meta,
            pd_HeadBlockHash := md_HeadBlockHash meta\<rparr>) (ps_data ps),
        ps_PeerHeadSlot := Scorer_Set (md_HeadSlot meta) (ps_PeerHeadSlot ps),
        ps_PeerHeadBlock := Initialize (Scorer_Set (md_HeadBlockNum meta) (ps_PeerHeadBlock ps))\<rparr>)"

definition Stats :: "PeerStore \<Rightarrow> (string, nat) gomap" where
  "Stats ps = (let n = (\<lambda>st. length (filter (\<lambda>p. pd_Status (snd p) = st) (ps_data ps))) in
     [(''connected'', n PeerConnected), (''reconnected'', n PeerReconnected), (''disconnected'', n PeerDisconnected),
      (''total'', length (ps_data ps))])"

definition Connected_peers :: "PeerStore \<Rightarrow> PeerData list" where
  "Connected_peers ps = filter (\<lambda>d. pd_Status d = PeerConnected \<or> pd_Status d = PeerReconnected) (map snd (ps_data ps))"

text \<open>Reading the entry of an unknown peer dereferences a nil pointer.\<close>

definition peer_entry :: "PeerStore \<Rightarrow> string \<Rightarrow> error + PeerData" where
  "peer_entry ps pid = (case map_of (ps_data ps) pid of None \<Rightarrow> Inl (Panic ''nil pointer dereference'') | Some d \<Rightarrow> Inr d)"

definition BlockRequestCounter :: "PeerStore \<Rightarrow> string \<Rightarrow> error + int" where
  "BlockRequestCounter ps pid = ebind (peer_entry ps pid) (\<lambda>d. Inr (pd_BlockRequest d))"

definition AddBlockParse :: "string \<Rightarrow> PeerStore \<Rightarrow> error + PeerStore" where
  "AddBlockParse pid ps = ebind (peer_entry ps pid) (\<lambda>d.
     Inr (ps\<lparr>ps_data := gput pid (d\<lparr>pd_BlockRequest := go_int (pd_BlockRequest d + 1)\<rparr>) (ps_data ps)\<rparr>))"

definition BadResponse :: "string \<Rightarrow> PeerStore \<Rightarrow> error + PeerStore" where
  "BadResponse pid ps = ebind (peer_entry ps pid) (\<lambda>d.
     Inr (ps\<lparr>ps_data := gput pid (d\<lparr>pd_BadResponse := go_int (pd_BadResponse d + 1)\<rparr>) (ps_data ps)\<rparr>))"

definition IsBad :: "PeerStore \<Rightarrow> string \<Rightarrow> bool" where
  "IsBad ps pid = (case map_of (ps_data ps) pid of None \<Rightarrow> False | Some d \<Rightarrow> pd_BadResponse d \<ge> 1)"

definition Peer :: "PeerStore \<Rightarrow> string \<Rightarrow> error + PeerData" where
  "Peer ps pid = peer_entry ps pid"

subsection \<open>The store over its life\<close>

text \<open>The calls that change the store; a call that panics leaves it as it was. \<open>SetHead\<close> is the node's own report.\<close>

datatype peer_op = OpConnect string | OpDisconnect string | OpMeta string Metadata int | OpParse string | OpBad string
  | OpSelf Metadata

definition keep_on_panic :: "PeerStore \<Rightarrow> error + PeerStore \<Rightarrow> PeerStore" where
  "keep_on_panic ps r = (case r of Inl _ \<Rightarrow> ps | Inr ps' \<Rightarrow> ps')"

fun peer_step :: "PeerStore \<Rightarrow> peer_op \<Rightarrow> PeerStore" where
  "peer_step ps (OpConnect pid) = Connect pid ps"
| "peer_step ps (OpDisconnect pid) = Disconnect pid ps"
| "peer_step ps (OpMeta pid m now) = AddMeta pid m now ps"
| "peer_step ps (OpParse pid) = keep_on_panic ps (AddBlockParse pid ps)"
| "peer_step ps (OpBad pid) = keep_on_panic ps (BadResponse pid ps)"
| "peer_step ps (OpSelf m) = ps\<lparr>ps_PeerHeadSlot := Scorer_Set (md_HeadSlot m) (ps_PeerHeadSlot ps),
     ps_PeerHeadBlock := Scorer_Set (md_HeadBlockNum m) (ps_PeerHeadBlock ps)\<rparr>"

definition store_wf :: "PeerStore \<Rightarrow> bool" where
  "store_wf ps \<longleftrightarrow> gomap_ok (ps_data ps) \<and> (\<forall>(pid, d) \<in> set (ps_data ps). pd_Id d = pid)
    \<and> sc_strategy (ps_PeerHeadBlock ps) = maxStrategy \<and> sc_strategy (ps_PeerHeadSlot ps) = maxStrategy"

lemma store_wf_put:
  assumes "store_wf ps" "pd_Id d = pid"
  shows "store_wf (ps\<lparr>ps_data := gput pid d (ps_data ps)\<rparr>)"
  using assms set_update_subset [of pid d "ps_data ps"] by (auto simp: store_wf_def)

lemma store_wf_entry: "store_wf ps \<Longrightarrow> map_of (ps_data ps) pid = Some d \<Longrightarrow> pd_Id d = pid"
  by (auto simp: store_wf_def dest: map_of_SomeD)

lemma Scorer_Set_max:
  assumes "sc_strategy s = maxStrategy"
  shows "sc_val (Scorer_Set v s) = max (sc_val s) v" "sc_strategy (Scorer_Set v s) = maxStrategy"
  using assms by (auto simp: Scorer_Set_def max_def)

lemma Initialize_simps [simp]: "sc_val (Initialize s) = sc_val s" "sc_strategy (Initialize s) = sc_strategy s"
  by (simp_all add: Initialize_def)

lemma store_wf_step: "store_wf ps \<Longrightarrow> store_wf (peer_step ps e)"
proof (cases e)
  case (OpMeta pid m now)
  assume wf: "store_wf ps"
  define d where "d = (case map_of (ps_data ps) pid of Some d \<Rightarrow> d | None \<Rightarrow> new_peer pid)"
  have "pd_Id d = pid" using store_wf_entry [OF wf, of pid] by (simp add: d_def new_peer_def split: option.split)
  then have "store_wf (ps\<lparr>ps_data := gput pid (d\<lparr>pd_LastUpdate := now, pd_HeadSlot := md_HeadSlot m,
      pd_HeadBlockNum := md_HeadBlockNum m, pd_HeadBlockHash := md_HeadBlockHash m\<rparr>) (ps_data ps)\<rparr>)"
    by (intro store_wf_put [OF wf]) simp
  then show "store_wf (peer_step ps e)"
    using OpMeta by (simp add: AddMeta_def d_def [symmetric] store_wf_def Scorer_Set_max)
next
  case (OpSelf m)
  then show "store_wf ps \<Longrightarrow> store_wf (peer_step ps e)" by (simp add: store_wf_def Scorer_Set_max)
qed (auto simp: Connect_def Disconnect_def keep_on_panic_def AddBlockParse_def BadResponse_def peer_entry_def new_peer_def
    dest: store_wf_entry split: option.split intro!: store_wf_put)

interpretation peer_calls: guarded_system peer_step "\<lambda>_ _. True" store_wf
  by unfold_locales (rule store_wf_step)

lemma store_wf_new: "store_wf NewPeerStore"
  by (simp add: store_wf_def NewPeerStore_def MaxScorer_def)

text \<open>The head numbers that a sequence of calls reports.\<close>

fun reported :: "peer_op list \<Rightarrow> uint64 list" where
  "reported [] = []"
| "reported (OpMeta pid m now # es) = md_HeadBlockNum m # reported es"
| "reported (OpSelf m # es) = md_HeadBlockNum m # reported es"
| "reported (_ # es) = reported es"

lemma head_step:
  assumes "store_wf ps"
  shows "sc_val (ps_PeerHeadBlock (peer_step ps e)) = fold max (reported [e]) (sc_val (ps_PeerHeadBlock ps))"
  using assms
  by (cases e) (auto simp: AddMeta_def Let_def Connect_def Disconnect_def keep_on_panic_def AddBlockParse_def BadResponse_def
      peer_entry_def Scorer_Set_max store_wf_def max.commute split: option.split)

lemma reported_append: "reported (es @ fs) = reported es @ reported fs"
  by (induction es rule: reported.induct) simp_all

lemma head_run:
  "store_wf ps \<Longrightarrow> sc_val (ps_PeerHeadBlock (run_ops peer_step ps es)) = fold max (reported es) (sc_val (ps_PeerHeadBlock ps))"
proof (induction es arbitrary: ps)
  case (Cons e es)
  then show ?case
    using Cons.IH [OF store_wf_step [OF Cons.prems]] head_step [OF Cons.prems, of e] reported_append [of "[e]" es] by simp
qed simp

lemma fold_max_Max: "fold max xs (a :: 'a :: linorder) = Max (insert a (set xs))"
  using Max.set_eq_fold [of a xs] by simp

subsection \<open>Properties\<close>

text \<open>
  C40. Whatever the peers do, every entry of the peer store is filed under its own identifier, and the remote head block number
  that the synchronisation compares with is the largest head number that was ever reported, by whichever peer, connected
  or not: no call makes it smaller again.
\<close>

theorem remote_head_is_largest_report:
  "store_wf (run_ops peer_step NewPeerStore es)
    \<and> Scorer_Get (ps_PeerHeadBlock (run_ops peer_step NewPeerStore es)) = Max (insert 0 (set (reported es)))
    \<and> Scorer_Get (ps_PeerHeadBlock (run_ops peer_step NewPeerStore es))
       \<le> Scorer_Get (ps_PeerHeadBlock (run_ops peer_step NewPeerStore (es @ fs)))"
proof -
  have v: "Scorer_Get (ps_PeerHeadBlock (run_ops peer_step NewPeerStore es)) = Max (insert 0 (set (reported es)))" for es
    using head_run [OF store_wf_new, of es] by (simp add: Scorer_Get_def fold_max_Max NewPeerStore_def MaxScorer_def)
  have "Max (insert 0 (set (reported es))) \<le> Max (insert 0 (set (reported (es @ fs))))"
    by (intro Max_mono) (auto simp: reported_append)
  then show ?thesis using v peer_calls.run_inv [OF store_wf_new, of es] by simp
qed

end
