(* ===== verification/Curve.thy ===== *)
theory Curve
  imports Hashing
begin

text \<open>
  The elliptic curve behind the addresses and signatures (\<^verbatim>\<open>shared/crypto/secp256k1/curve.go\<close>): points in affine coordinates are added
  in Jacobian coordinates, where \<open>x = X / Z\<^sup>2\<close> and \<open>y = Y / Z\<^sup>3\<close>, with \<open>(0, 0)\<close> for the point at infinity.  The theorem compares
  the program's formulas with the chord and tangent construction.  Multiplication by a scalar and the signatures themselves are
  functions of a C library.  Points are written out as bytes by \<open>Marshal\<close> and read back by \<open>Unmarshal\<close>.
\<close>

subsection \<open>Arithmetic of the library (math/big)\<close>

text \<open>
  The integers of \<^verbatim>\<open>math/big\<close> are unbounded, and \<^verbatim>\<open>Mod\<close> is the Euclidean remainder.  \<open>ModInverse g n\<close> is computed by the extended
  Euclidean algorithm; it is nil when \<open>g\<close> and \<open>n\<close> are not coprime.
\<close>

function inverse_loop :: "int \<Rightarrow> int \<Rightarrow> int \<Rightarrow> int \<Rightarrow> int \<times> int" where
  "inverse_loop r0 r1 t0 t1 = (if r1 \<le> 0 then (r0, t0) else inverse_loop r1 (r0 mod r1) t1 (t0 - (r0 div r1) * t1))"
  by pat_completeness auto
termination
  by (relation "measure (\<lambda>(r0, r1, t0, t1). nat r1)") auto

declare inverse_loop.simps [simp del]

definition ModInverse :: "int \<Rightarrow> int \<Rightarrow> int option" where
  "ModInverse g n = (case inverse_loop n (g mod n) 0 1 of (r, t) \<Rightarrow> if r = 1 then Some (t mod n) else None)"

lemma inverse_loop_gcd: "0 \<le> r1 \<Longrightarrow> 0 < r0 \<or> 0 < r1 \<Longrightarrow> 0 \<le> r0 \<Longrightarrow> fst (inverse_loop r0 r1 t0 t1) = gcd r0 r1"
proof (induction r0 r1 t0 t1 rule: inverse_loop.induct)
  case (1 r0 r1 t0 t1)
  show ?case
  proof (cases "r1 \<le> 0")
    case False
    then have "gcd r1 (r0 mod r1) = gcd r0 r1" by (metis gcd.commute gcd_red_int)
    then show ?thesis using "1.IH" False by (simp add: inverse_loop.simps [of r0 r1])
  qed (use "1.prems" in \<open>simp add: inverse_loop.simps [of r0 r1] inverse_loop.simps [of r0 0]\<close>)
qed

lemma inverse_loop_bezout:
  "n dvd t0 * g - r0 \<Longrightarrow> n dvd t1 * g - r1 \<Longrightarrow> (case inverse_loop r0 r1 t0 t1 of (r, t) \<Rightarrow> n dvd t * g - r)"
proof (induction r0 r1 t0 t1 rule: inverse_loop.induct)
  case (1 r0 r1 t0 t1)
  have "(t0 - r0 div r1 * t1) * g - r0 mod r1 = (t0 * g - r0) - (r0 div r1) * (t1 * g - r1)"
    using div_mult_mod_eq [of r0 r1] by (simp add: algebra_simps)
  then have "n dvd (t0 - r0 div r1 * t1) * g - r0 mod r1" using "1.prems" by (simp add: dvd_mult dvd_diff)
  then show ?case using 1 by (cases "r1 \<le> 0") (simp_all add: inverse_loop.simps [of r0 r1])
qed

lemma ModInverse_coprime:
  assumes "coprime z n" "1 < n"
  shows "\<exists>i. ModInverse z n = Some i \<and> 0 \<le> i \<and> i < n \<and> n dvd z * i - 1"
proof -
  obtain r t where l: "inverse_loop n (z mod n) 0 1 = (r, t)" by fastforce
  have "r = gcd n (z mod n)" using inverse_loop_gcd [of "z mod n" n 0 1] assms(2) by (simp add: l)
  also have "\<dots> = gcd z n" by (metis gcd.commute gcd_red_int)
  finally have r: "r = 1" using assms(1) by simp
  have "n dvd z * 1 - z mod n" by (simp add: minus_mod_eq_mult_div)
  then have "n dvd t * z - r" using inverse_loop_bezout [of n 0 z n 1 "z mod n"] by (simp add: l)
  then have "n dvd z * t - 1" using r by (simp add: mult.commute)
  moreover have "z * (t mod n) - 1 = (z * t - 1) - n * (z * (t div n))" by (simp add: minus_mult_div_eq_mod [symmetric] algebra_simps)
  ultimately have "n dvd z * (t mod n) - 1" by (metis dvd_diff dvd_triv_left)
  then show ?thesis using assms(2) by (auto simp: ModInverse_def l r)
qed

subsection \<open>The curve\<close>

record BitCurve =
  cu_P :: int
  cu_N :: int
  cu_B :: int
  cu_Gx :: int
  cu_Gy :: int
  cu_BitSize :: nat

definition theCurve :: BitCurve where
  "theCurve = \<lparr>cu_P = 0xFFFFFFFFFFFFFFFFFFFFFFFFFFFFFFFFFFFFFFFFFFFFFFFFFFFFFFFEFFFFFC2F,
     cu_N = 0xFFFFFFFFFFFFFFFFFFFFFFFFFFFFFFFEBAAEDCE6AF48A03BBFD25E8CD0364141, cu_B = 7,
     cu_Gx = 0x79BE667EF9DCBBAC55A06295CE870B07029BFCDB2DCE28D959F2815B16F81798,
     cu_Gy = 0x483ADA7726A3C4655DA4FBFC0E1108A8FD17B448A68554199C47D08FFB10D4B8, cu_BitSize = 256\<rparr>"

definition IsOnCurve :: "BitCurve \<Rightarrow> int \<Rightarrow> int \<Rightarrow> bool" where
  "IsOnCurve c x y = (let y2 = (y * y) mod cu_P c; x3 = x * x * x + cu_B c in x3 mod cu_P c = y2)"

definition affineFromJacobian :: "BitCurve \<Rightarrow> int \<times> int \<times> int \<Rightarrow> error + (int \<times> int)" where
  "affineFromJacobian c p = (case p of (x, y, z) \<Rightarrow>
     if z = 0 then Inr (0, 0)
     else (case ModInverse z (cu_P c) of
         None \<Rightarrow> Inl (Panic ''invalid memory address or nil pointer dereference'')
       | Some zinv \<Rightarrow>
         (let zinvsq = zinv * zinv; xOut = (x * zinvsq) mod cu_P c; zinvsq = zinvsq * zinv; yOut = (y * zinvsq) mod cu_P c
          in Inr (xOut, yOut))))"

definition doubleJacobian :: "BitCurve \<Rightarrow> int \<times> int \<times> int \<Rightarrow> int \<times> int \<times> int" where
  "doubleJacobian cu p = (case p of (x, y, z) \<Rightarrow>
    (let a = x * x; b = y * y; c = b * b; d = ((x + b) * (x + b) - a - c) * 2; e = 3 * a; f = e * e;
         x3 = (f - 2 * d) mod cu_P cu; y3 = (e * (d - x3) - 8 * c) mod cu_P cu; z3 = (2 * (y * z)) mod cu_P cu
     in (x3, y3, z3)))"

definition wrap_neg :: "int \<Rightarrow> int \<Rightarrow> int" where
  "wrap_neg p x = (if x < 0 then x + p else x)"

definition addJacobian :: "BitCurve \<Rightarrow> int \<times> int \<times> int \<Rightarrow> int \<times> int \<times> int \<Rightarrow> int \<times> int \<times> int" where
  "addJacobian cu p1 p2 = (case (p1, p2) of ((x1, y1, z1), (x2, y2, z2)) \<Rightarrow>
    (let p = cu_P cu; z1z1 = (z1 * z1) mod p; z2z2 = (z2 * z2) mod p;
         u1 = (x1 * z2z2) mod p; u2 = (x2 * z1z1) mod p; h = wrap_neg p (u2 - u1);
         i = h * 2; i = i * i; j = h * i;
         s1 = (y1 * z2 * z2z2) mod p; s2 = (y2 * z1 * z1z1) mod p; r = wrap_neg p (s2 - s1) * 2; v = u1 * i;
         x3 = (r * r - j - v - v) mod p;
         v = v - x3; y3 = (r * v - s1 * j * 2) mod p;
         z3 = (z1 + z2) * (z1 + z2); z3 = wrap_neg p (z3 - z1z1); z3 = wrap_neg p (z3 - z2z2); z3 = (z3 * h) mod p
     in (x3, y3, z3)))"

definition curve_Add :: "BitCurve \<Rightarrow> int \<Rightarrow> int \<Rightarrow> int \<Rightarrow> int \<Rightarrow> error + (int \<times> int)" where
  "curve_Add c x1 y1 x2 y2 =
    (if x1 = 0 \<and> y1 = 0 then Inr (x2, y2)
     else if x2 = 0 \<and> y2 = 0 then Inr (x1, y1)
     else if x1 = x2 \<and> y1 = y2 then affineFromJacobian c (doubleJacobian c (x1, y1, 1))
     else affineFromJacobian c (addJacobian c (x1, y1, 1) (x2, y2, 1)))"

definition curve_Double :: "BitCurve \<Rightarrow> int \<Rightarrow> int \<Rightarrow> error + (int \<times> int)" where
  "curve_Double c x1 y1 = affineFromJacobian c (doubleJacobian c (x1, y1, 1))"

lemma base_point: "IsOnCurve theCurve (cu_Gx theCurve) (cu_Gy theCurve)"
  by (simp add: IsOnCurve_def theCurve_def)

subsection \<open>Congruences\<close>

definition eqm :: "int \<Rightarrow> int \<Rightarrow> int \<Rightarrow> bool" where
  "eqm p a b \<longleftrightarrow> a mod p = b mod p"

lemma eqm_refl [simp, intro]: "eqm p a a"
  by (simp add: eqm_def)

lemma eqm_mod [simp]: "eqm p (a mod p) b \<longleftrightarrow> eqm p a b" "eqm p a (b mod p) \<longleftrightarrow> eqm p a b"
  by (simp_all add: eqm_def)

lemma eqm_sym: "eqm p a b \<Longrightarrow> eqm p b a"
  by (simp add: eqm_def)

lemma eqm_trans [trans]: "eqm p a b \<Longrightarrow> eqm p b c \<Longrightarrow> eqm p a c"
  by (simp add: eqm_def)

lemma eqm_add: "eqm p a b \<Longrightarrow> eqm p c d \<Longrightarrow> eqm p (a + c) (b + d)"
  unfolding eqm_def by (rule mod_add_cong)

lemma eqm_diff: "eqm p a b \<Longrightarrow> eqm p c d \<Longrightarrow> eqm p (a - c) (b - d)"
  unfolding eqm_def by (rule mod_diff_cong)

lemma eqm_mult: "eqm p a b \<Longrightarrow> eqm p c d \<Longrightarrow> eqm p (a * c) (b * d)"
  unfolding eqm_def by (rule mod_mult_cong)

lemma eqm_power: "eqm p a b \<Longrightarrow> eqm p (a ^ n) (b ^ n)"
  unfolding eqm_def by (metis power_mod)

lemmas eqm_cong = eqm_add eqm_diff eqm_mult eqm_power eqm_refl

lemma eqm_dvd: "eqm p a b \<longleftrightarrow> p dvd a - b"
  by (simp add: eqm_def mod_eq_dvd_iff)

lemma eqm_zero: "eqm p a 0 \<longleftrightarrow> p dvd a"
  by (simp add: eqm_dvd)

lemma eqm_cancel: "eqm p (h * d) 1 \<Longrightarrow> eqm p (a * h) 0 \<Longrightarrow> eqm p a 0"
proof -
  assume hd: "eqm p (h * d) 1" and "eqm p (a * h) 0"
  have "eqm p (a * 1) (a * (h * d))" by (intro eqm_mult eqm_refl eqm_sym [OF hd])
  also have "a * (h * d) = (a * h) * d" by simp
  also have "eqm p ((a * h) * d) (0 * d)" by (intro eqm_mult eqm_refl \<open>eqm p (a * h) 0\<close>)
  finally show ?thesis by simp
qed

lemma wrap_neg_eqm: "eqm p (wrap_neg p x) x"
  by (simp add: wrap_neg_def eqm_def)

lemma ModInverse_eqm: "eqm p a b \<Longrightarrow> ModInverse a p = ModInverse b p"
  by (simp add: ModInverse_def eqm_def)

subsection \<open>The chord and tangent construction\<close>

text \<open>
  \<open>field_curve\<close> says what the comments of \<^verbatim>\<open>BitCurve\<close> say of its numbers: \<open>P\<close> is the order of a field, so that every non-zero residue has
  an inverse, and the curve does not go through the point \<open>(0, 0)\<close> that stands for infinity.  \<open>chord_tangent\<close> is the addition of two
  points as a textbook draws it: the third point of the line through them, or of the tangent, mirrored.
\<close>

definition field_curve :: "BitCurve \<Rightarrow> bool" where
  "field_curve c \<longleftrightarrow> 2 < cu_P c \<and> cu_B c mod cu_P c \<noteq> 0 \<and> (\<forall>z \<in> {0<..<cu_P c}. coprime z (cu_P c))"

definition on_curve :: "BitCurve \<Rightarrow> int \<times> int \<Rightarrow> bool" where
  "on_curve c p \<longleftrightarrow> (case p of (x, y) \<Rightarrow> 0 \<le> x \<and> x < cu_P c \<and> 0 \<le> y \<and> y < cu_P c \<and> (x = 0 \<and> y = 0 \<or> IsOnCurve c x y))"

definition inverse_mod :: "int \<Rightarrow> int \<Rightarrow> int" where
  "inverse_mod p z = (case ModInverse z p of Some i \<Rightarrow> i | None \<Rightarrow> 0)"

definition third_point :: "int \<Rightarrow> int \<Rightarrow> int \<times> int \<Rightarrow> int \<Rightarrow> int \<times> int" where
  "third_point p l q x2 = (case q of (x1, y1) \<Rightarrow> (let x3 = (l\<^sup>2 - x1 - x2) mod p in (x3, (l * (x1 - x3) - y1) mod p)))"

definition chord_tangent :: "BitCurve \<Rightarrow> int \<times> int \<Rightarrow> int \<times> int \<Rightarrow> int \<times> int" where
  "chord_tangent c p q = (case (p, q) of ((x1, y1), (x2, y2)) \<Rightarrow>
     if p = (0, 0) then q
     else if q = (0, 0) then p
     else if x1 = x2 then
       (if y1 = y2 \<and> y1 \<noteq> 0 then third_point (cu_P c) (3 * x1\<^sup>2 * inverse_mod (cu_P c) (2 * y1)) p x1 else (0, 0))
     else third_point (cu_P c) ((y2 - y1) * inverse_mod (cu_P c) (x2 - x1)) p x2)"

lemma IsOnCurve_eqm: "IsOnCurve c x y \<longleftrightarrow> eqm (cu_P c) (y\<^sup>2 - x ^ 3 - cu_B c) 0"
  by (auto simp: IsOnCurve_def eqm_def power2_eq_square power3_eq_cube mod_eq_dvd_iff dvd_eq_mod_eq_0 [symmetric] Let_def
      algebra_simps intro: dvd_diff_commute [THEN iffD1])

lemma field_inverse:
  assumes "field_curve c" "\<not> eqm (cu_P c) z 0"
  shows "ModInverse z (cu_P c) = Some (inverse_mod (cu_P c) z)" "eqm (cu_P c) (z * inverse_mod (cu_P c) z) 1"
proof -
  have p: "2 < cu_P c" using assms(1) by (simp add: field_curve_def)
  have "z mod cu_P c \<in> {0<..<cu_P c}" using assms(2) p pos_mod_bound [of "cu_P c" z] pos_mod_sign [of "cu_P c" z]
    by (auto simp: eqm_def simp del: pos_mod_bound pos_mod_sign)
  then have "coprime (z mod cu_P c) (cu_P c)" using assms(1) unfolding field_curve_def by blast
  then have "coprime z (cu_P c)" using p by simp
  then obtain i where "ModInverse z (cu_P c) = Some i" "cu_P c dvd z * i - 1" using ModInverse_coprime [of z "cu_P c"] p by auto
  then show "ModInverse z (cu_P c) = Some (inverse_mod (cu_P c) z)" "eqm (cu_P c) (z * inverse_mod (cu_P c) z) 1"
    by (simp_all add: inverse_mod_def eqm_dvd)
qed

lemma field_product:
  assumes "field_curve c" "\<not> eqm (cu_P c) a 0" "\<not> eqm (cu_P c) b 0"
  shows "\<not> eqm (cu_P c) (a * b) 0"
  using eqm_cancel [OF field_inverse(2) [OF assms(1,3)]] assms(2) by blast

lemma chord_on_curve:
  fixes l x1 y1 x2 b :: int
  assumes "eqm p (y1\<^sup>2 - x1 ^ 3 - b) 0" "eqm p (y2\<^sup>2 - x2 ^ 3 - b) 0" "eqm p (l * (x2 - x1)) (y2 - y1)" "eqm p ((x2 - x1) * d) 1"
  shows "eqm p ((l * (x1 - (l\<^sup>2 - x1 - x2)) - y1)\<^sup>2 - (l\<^sup>2 - x1 - x2) ^ 3 - b) 0"
proof -
  define x3 where "x3 = l\<^sup>2 - x1 - x2"
  define y2' where "y2' = y1 + l * (x2 - x1)"
  define e1 where "e1 = y1\<^sup>2 - x1 ^ 3 - b"
  define e2 where "e2 = y2'\<^sup>2 - x2 ^ 3 - b"
  have "eqm p y2' (y1 + (y2 - y1))" unfolding y2'_def using assms(3) by (intro eqm_add eqm_refl)
  then have "eqm p y2' y2" by simp
  then have "eqm p e2 (y2\<^sup>2 - x2 ^ 3 - b)" unfolding e2_def by (intro eqm_diff eqm_power eqm_refl)
  then have "eqm p e2 0" using assms(2) by (rule eqm_trans)
  moreover have "eqm p e1 0" using assms(1) by (simp add: e1_def)
  ultimately have "eqm p (e1 * (x2 - x1) + (e2 - e1) * (x3 - x1)) (0 * (x2 - x1) + (0 - 0) * (x3 - x1))"
    by (intro eqm_add eqm_mult eqm_diff eqm_refl)
  moreover have "((l * (x1 - x3) - y1)\<^sup>2 - x3 ^ 3 - b) * (x2 - x1) = e1 * (x2 - x1) + (e2 - e1) * (x3 - x1)"
    unfolding e1_def e2_def y2'_def x3_def by (simp add: algebra_simps power2_eq_square power3_eq_cube)
  ultimately have "eqm p (((l * (x1 - x3) - y1)\<^sup>2 - x3 ^ 3 - b) * (x2 - x1)) 0" by simp
  then show ?thesis using eqm_cancel [OF assms(4)] by (simp add: x3_def)
qed

lemma tangent_on_curve:
  fixes l x y b :: int
  assumes "eqm p (y\<^sup>2 - x ^ 3 - b) 0" "eqm p (l * (2 * y)) (3 * x\<^sup>2)"
  shows "eqm p ((l * (x - (l\<^sup>2 - x - x)) - y)\<^sup>2 - (l\<^sup>2 - x - x) ^ 3 - b) 0"
proof -
  define x3 where "x3 = l\<^sup>2 - x - x"
  have "eqm p (l * (2 * y) - 3 * x\<^sup>2) (3 * x\<^sup>2 - 3 * x\<^sup>2)" by (intro eqm_diff eqm_refl assms(2))
  then have "eqm p ((y\<^sup>2 - x ^ 3 - b) + (l * (2 * y) - 3 * x\<^sup>2) * (x3 - x)) (0 + 0 * (x3 - x))"
    by (intro eqm_add eqm_mult eqm_refl assms(1)) simp
  moreover have "(l * (x - x3) - y)\<^sup>2 - x3 ^ 3 - b = (y\<^sup>2 - x ^ 3 - b) + (l * (2 * y) - 3 * x\<^sup>2) * (x3 - x)"
    unfolding x3_def by (simp add: algebra_simps power2_eq_square power3_eq_cube)
  ultimately have "eqm p ((l * (x - x3) - y)\<^sup>2 - x3 ^ 3 - b) (0 + 0 * (x3 - x))" by (simp only:)
  then show ?thesis unfolding x3_def by simp
qed

subsection \<open>The Jacobian formulas\<close>

lemma double_jacobian_eqm:
  fixes x y :: int
  assumes "doubleJacobian c (x, y, 1) = (x3, y3, z3)" "p = cu_P c"
  shows "eqm p x3 (9 * x ^ 4 - 8 * x * y\<^sup>2)"
    and "eqm p y3 (3 * x\<^sup>2 * (4 * x * y\<^sup>2 - (9 * x ^ 4 - 8 * x * y\<^sup>2)) - 8 * y ^ 4)"
    and "eqm p z3 (2 * y)"
    and "z3 = 2 * y mod p"
proof -
  define d where "d = ((x + y * y) * (x + y * y) - x * x - y * y * (y * y)) * 2"
  have d: "d = 4 * x * y\<^sup>2" by (simp add: d_def algebra_simps power2_eq_square)
  have x3: "x3 = (3 * (x * x) * (3 * (x * x)) - 2 * d) mod p"
    and y3: "y3 = (3 * (x * x) * (d - x3) - 8 * (y * y * (y * y))) mod p" and z3: "z3 = (2 * y) mod p"
    using assms(1) unfolding doubleJacobian_def Let_def case_prod_conv prod.inject d_def mult_1_right assms(2) by (auto simp only:)
  have "3 * (x * x) * (3 * (x * x)) - 2 * d = 9 * x ^ 4 - 8 * x * y\<^sup>2" by (simp add: d power2_eq_square power4_eq_xxxx algebra_simps)
  then show xe: "eqm p x3 (9 * x ^ 4 - 8 * x * y\<^sup>2)" by (simp add: x3)
  have "eqm p (3 * (x * x) * (d - x3) - 8 * (y * y * (y * y)))
          (3 * (x * x) * (4 * x * y\<^sup>2 - (9 * x ^ 4 - 8 * x * y\<^sup>2)) - 8 * (y * y * (y * y)))"
    unfolding d by (intro eqm_diff eqm_mult eqm_refl xe)
  then show "eqm p y3 (3 * x\<^sup>2 * (4 * x * y\<^sup>2 - (9 * x ^ 4 - 8 * x * y\<^sup>2)) - 8 * y ^ 4)"
    by (simp add: y3 power2_eq_square power4_eq_xxxx mult.assoc)
  show "eqm p z3 (2 * y)" "z3 = 2 * y mod p" by (simp_all add: z3)
qed

lemma add_jacobian_eqm:
  fixes x1 y1 x2 y2 :: int
  assumes "addJacobian c (x1, y1, 1) (x2, y2, 1) = (x3, y3, z3)" "p = cu_P c" "2 < p" "h = x2 - x1" "q = y2 - y1"
  shows "eqm p x3 (4 * q\<^sup>2 - 4 * h ^ 3 - 8 * x1 * h\<^sup>2)"
    and "eqm p y3 (2 * q * (4 * x1 * h\<^sup>2 - (4 * q\<^sup>2 - 4 * h ^ 3 - 8 * x1 * h\<^sup>2)) - 8 * y1 * h ^ 3)"
    and "eqm p z3 (2 * h)"
    and "z3 = z3 mod p"
proof -
  define k where "k = wrap_neg p (x2 mod p - x1 mod p)"
  define r where "r = wrap_neg p (y2 mod p - y1 mod p) * 2"
  have one: "1 mod p = 1" using assms(3) by simp
  have three: "wrap_neg p (wrap_neg p ((1 + 1) * (1 + 1) - 1) - 1) = 2" by (simp add: wrap_neg_def)
  have x3: "x3 = (r * r - k * (k * 2 * (k * 2)) - x1 mod p * (k * 2 * (k * 2)) - x1 mod p * (k * 2 * (k * 2))) mod p"
    and y3: "y3 = (r * (x1 mod p * (k * 2 * (k * 2)) - x3) - y1 mod p * (k * (k * 2 * (k * 2))) * 2) mod p"
    and z3: "z3 = (2 * k) mod p"
    using assms(1) unfolding addJacobian_def Let_def case_prod_conv prod.inject k_def r_def mult_1_right assms(2) [symmetric] one three
    by (auto simp only:)
  have "eqm p k (x2 mod p - x1 mod p)" unfolding k_def by (rule wrap_neg_eqm)
  also have "eqm p (x2 mod p - x1 mod p) h" unfolding assms(4) by (intro eqm_diff) simp_all
  finally have k: "eqm p k h" .
  have "eqm p r ((y2 mod p - y1 mod p) * 2)" unfolding r_def by (intro eqm_mult eqm_refl wrap_neg_eqm)
  also have "eqm p ((y2 mod p - y1 mod p) * 2) (q * 2)" unfolding assms(5) by (intro eqm_mult eqm_diff) simp_all
  finally have r: "eqm p r (q * 2)" .
  have m: "eqm p (a mod p) a" for a by simp
  have "eqm p (r * r - k * (k * 2 * (k * 2)) - x1 mod p * (k * 2 * (k * 2)) - x1 mod p * (k * 2 * (k * 2)))
          (q * 2 * (q * 2) - h * (h * 2 * (h * 2)) - x1 * (h * 2 * (h * 2)) - x1 * (h * 2 * (h * 2)))"
    by (intro eqm_diff eqm_mult eqm_refl k r m)
  moreover have "q * 2 * (q * 2) - h * (h * 2 * (h * 2)) - x1 * (h * 2 * (h * 2)) - x1 * (h * 2 * (h * 2))
    = 4 * q\<^sup>2 - 4 * h ^ 3 - 8 * x1 * h\<^sup>2" by (simp add: power2_eq_square power3_eq_cube algebra_simps)
  ultimately show xe: "eqm p x3 (4 * q\<^sup>2 - 4 * h ^ 3 - 8 * x1 * h\<^sup>2)" by (simp add: x3)
  have "eqm p (r * (x1 mod p * (k * 2 * (k * 2)) - x3) - y1 mod p * (k * (k * 2 * (k * 2))) * 2)
          (q * 2 * (x1 * (h * 2 * (h * 2)) - (4 * q\<^sup>2 - 4 * h ^ 3 - 8 * x1 * h\<^sup>2)) - y1 * (h * (h * 2 * (h * 2))) * 2)"
    by (intro eqm_diff eqm_mult eqm_refl k r m xe)
  moreover have "q * 2 * (x1 * (h * 2 * (h * 2)) - a) - y1 * (h * (h * 2 * (h * 2))) * 2
    = 2 * q * (4 * x1 * h\<^sup>2 - a) - 8 * y1 * h ^ 3" for a by (simp add: power2_eq_square power3_eq_cube algebra_simps)
  ultimately show "eqm p y3 (2 * q * (4 * x1 * h\<^sup>2 - (4 * q\<^sup>2 - 4 * h ^ 3 - 8 * x1 * h\<^sup>2)) - 8 * y1 * h ^ 3)" by (simp add: y3)
  show "eqm p z3 (2 * h)" unfolding z3 eqm_mod by (intro eqm_mult eqm_refl k)
  show "z3 = z3 mod p" by (simp add: z3)
qed

lemma affine_point:
  assumes "field_curve c" "\<not> eqm (cu_P c) z 0" "i = inverse_mod (cu_P c) z"
  shows "affineFromJacobian c (x, y, z) = Inr (x * i\<^sup>2 mod cu_P c, y * i ^ 3 mod cu_P c)"
proof -
  have "z \<noteq> 0" using assms(2) by auto
  then show ?thesis using field_inverse(1) [OF assms(1,2)]
    by (simp add: affineFromJacobian_def assms(3) Let_def power2_eq_square power3_eq_cube)
qed

text \<open>In the fractions \<open>X / Z\<^sup>2\<close> and \<open>Y / Z\<^sup>3\<close> the denominators cancel against the slope of the line.\<close>

lemma chord_cancel:
  fixes h d q x1 y1 :: int
  assumes hd: "eqm p (h * d) 1" and i: "eqm p (2 * i) d"
    and x3: "eqm p x3 (4 * q\<^sup>2 - 4 * h ^ 3 - 8 * x1 * h\<^sup>2)"
    and y3: "eqm p y3 (2 * q * (4 * x1 * h\<^sup>2 - (4 * q\<^sup>2 - 4 * h ^ 3 - 8 * x1 * h\<^sup>2)) - 8 * y1 * h ^ 3)"
  shows "eqm p (x3 * i\<^sup>2) ((q * d)\<^sup>2 - x1 - (x1 + h))"
    and "eqm p (y3 * i ^ 3) (q * d * (x1 - ((q * d)\<^sup>2 - x1 - (x1 + h))) - y1)"
proof -
  have "eqm p (x3 * i\<^sup>2) ((4 * q\<^sup>2 - 4 * h ^ 3 - 8 * x1 * h\<^sup>2) * i\<^sup>2)" by (intro eqm_mult eqm_refl x3)
  also have "(4 * q\<^sup>2 - 4 * h ^ 3 - 8 * x1 * h\<^sup>2) * i\<^sup>2 = (q\<^sup>2 - h ^ 3 - 2 * x1 * h\<^sup>2) * (2 * i)\<^sup>2"
    by (simp add: power2_eq_square power3_eq_cube algebra_simps)
  also have "eqm p \<dots> ((q\<^sup>2 - h ^ 3 - 2 * x1 * h\<^sup>2) * d\<^sup>2)" by (intro eqm_mult eqm_power eqm_refl i)
  also have "(q\<^sup>2 - h ^ 3 - 2 * x1 * h\<^sup>2) * d\<^sup>2 = (q * d)\<^sup>2 - (h * d)\<^sup>2 * (h + 2 * x1)"
    by (simp add: power2_eq_square power3_eq_cube algebra_simps)
  also have "eqm p \<dots> ((q * d)\<^sup>2 - 1\<^sup>2 * (h + 2 * x1))" by (intro eqm_diff eqm_mult eqm_power eqm_refl hd)
  finally show "eqm p (x3 * i\<^sup>2) ((q * d)\<^sup>2 - x1 - (x1 + h))" by (simp add: algebra_simps)
  have "eqm p (y3 * i ^ 3) ((2 * q * (4 * x1 * h\<^sup>2 - (4 * q\<^sup>2 - 4 * h ^ 3 - 8 * x1 * h\<^sup>2)) - 8 * y1 * h ^ 3) * i ^ 3)"
    by (intro eqm_mult eqm_refl y3)
  also have "(2 * q * (4 * x1 * h\<^sup>2 - (4 * q\<^sup>2 - 4 * h ^ 3 - 8 * x1 * h\<^sup>2)) - 8 * y1 * h ^ 3) * i ^ 3
      = (q * (3 * x1 * h\<^sup>2 - q\<^sup>2 + h ^ 3) - y1 * h ^ 3) * (2 * i) ^ 3"
    by (simp add: power2_eq_square power3_eq_cube algebra_simps)
  also have "eqm p \<dots> ((q * (3 * x1 * h\<^sup>2 - q\<^sup>2 + h ^ 3) - y1 * h ^ 3) * d ^ 3)" by (intro eqm_mult eqm_power eqm_refl i)
  also have "(q * (3 * x1 * h\<^sup>2 - q\<^sup>2 + h ^ 3) - y1 * h ^ 3) * d ^ 3
      = q * d * ((h * d)\<^sup>2 * (3 * x1 + h) - (q * d)\<^sup>2) - (h * d) ^ 3 * y1"
    by (simp add: power2_eq_square power3_eq_cube algebra_simps)
  also have "eqm p \<dots> (q * d * (1\<^sup>2 * (3 * x1 + h) - (q * d)\<^sup>2) - 1 ^ 3 * y1)" by (intro eqm_diff eqm_mult eqm_power eqm_refl hd)
  finally show "eqm p (y3 * i ^ 3) (q * d * (x1 - ((q * d)\<^sup>2 - x1 - (x1 + h))) - y1)" by (simp add: algebra_simps)
qed

lemma tangent_cancel:
  fixes x y i :: int
  assumes i: "eqm p (2 * y * i) 1" and x3: "eqm p x3 (9 * x ^ 4 - 8 * x * y\<^sup>2)"
    and y3: "eqm p y3 (3 * x\<^sup>2 * (4 * x * y\<^sup>2 - (9 * x ^ 4 - 8 * x * y\<^sup>2)) - 8 * y ^ 4)"
  shows "eqm p (x3 * i\<^sup>2) ((3 * x\<^sup>2 * i)\<^sup>2 - x - x)"
    and "eqm p (y3 * i ^ 3) (3 * x\<^sup>2 * i * (x - ((3 * x\<^sup>2 * i)\<^sup>2 - x - x)) - y)"
proof -
  have "eqm p (x3 * i\<^sup>2) ((9 * x ^ 4 - 8 * x * y\<^sup>2) * i\<^sup>2)" by (intro eqm_mult eqm_refl x3)
  also have "(9 * x ^ 4 - 8 * x * y\<^sup>2) * i\<^sup>2 = (3 * x\<^sup>2 * i)\<^sup>2 - 2 * x * (2 * y * i)\<^sup>2"
    by (simp add: power2_eq_square power4_eq_xxxx algebra_simps)
  also have "eqm p \<dots> ((3 * x\<^sup>2 * i)\<^sup>2 - 2 * x * 1\<^sup>2)" by (intro eqm_diff eqm_mult eqm_power eqm_refl i)
  finally show "eqm p (x3 * i\<^sup>2) ((3 * x\<^sup>2 * i)\<^sup>2 - x - x)" by (simp add: algebra_simps)
  have "eqm p (y3 * i ^ 3) ((3 * x\<^sup>2 * (4 * x * y\<^sup>2 - (9 * x ^ 4 - 8 * x * y\<^sup>2)) - 8 * y ^ 4) * i ^ 3)" by (intro eqm_mult eqm_refl y3)
  also have "(3 * x\<^sup>2 * (4 * x * y\<^sup>2 - (9 * x ^ 4 - 8 * x * y\<^sup>2)) - 8 * y ^ 4) * i ^ 3
      = 3 * x\<^sup>2 * i * (3 * x * (2 * y * i)\<^sup>2 - (3 * x\<^sup>2 * i)\<^sup>2) - (2 * y * i) ^ 3 * y"
    by (simp add: power2_eq_square power3_eq_cube power4_eq_xxxx algebra_simps)
  also have "eqm p \<dots> (3 * x\<^sup>2 * i * (3 * x * 1\<^sup>2 - (3 * x\<^sup>2 * i)\<^sup>2) - 1 ^ 3 * y)" by (intro eqm_diff eqm_mult eqm_power eqm_refl i)
  finally show "eqm p (y3 * i ^ 3) (3 * x\<^sup>2 * i * (x - ((3 * x\<^sup>2 * i)\<^sup>2 - x - x)) - y)" by (simp add: algebra_simps)
qed

lemma third_point_eqm:
  assumes "eqm p x ((l\<^sup>2 - x1) - x2)" "eqm p y (l * (x1 - (l\<^sup>2 - x1 - x2)) - y1)"
  shows "(x mod p, y mod p) = third_point p l (x1, y1) x2"
proof -
  have "eqm p (l * (x1 - (l\<^sup>2 - x1 - x2)) - y1) (l * (x1 - (l\<^sup>2 - x1 - x2) mod p) - y1)" by (intro eqm_diff eqm_mult eqm_refl) simp
  with assms(2) have "eqm p y (l * (x1 - (l\<^sup>2 - x1 - x2) mod p) - y1)" by (rule eqm_trans)
  then show ?thesis using assms(1) by (simp add: third_point_def eqm_def Let_def)
qed

lemma chord_added:
  assumes f: "field_curve c" and h: "\<not> eqm (cu_P c) (x2 - x1) 0"
  shows "affineFromJacobian c (addJacobian c (x1, y1, 1) (x2, y2, 1))
    = Inr (third_point (cu_P c) ((y2 - y1) * inverse_mod (cu_P c) (x2 - x1)) (x1, y1) x2)"
proof -
  obtain x3 y3 z3 where j: "addJacobian c (x1, y1, 1) (x2, y2, 1) = (x3, y3, z3)" by (metis prod_cases3)
  define p d i where "p = cu_P c" and "d = inverse_mod p (x2 - x1)" and "i = inverse_mod p z3"
  have p: "2 < p" using f by (simp add: field_curve_def p_def)
  note e = add_jacobian_eqm [OF j p_def p refl refl]
  have "\<not> eqm p 2 0" using p by (simp add: eqm_def)
  then have "\<not> eqm p (2 * (x2 - x1)) 0" using field_product [OF f] h unfolding p_def by blast
  then have z: "\<not> eqm p z3 0" using e(3) eqm_sym eqm_trans by blast
  have hd: "eqm p ((x2 - x1) * d) 1" using field_inverse(2) [OF f h] by (simp add: p_def d_def)
  have zi: "eqm p (z3 * i) 1" using field_inverse(2) [OF f z [unfolded p_def]] by (simp add: p_def i_def)
  have "eqm p (2 * i * 1) (2 * i * ((x2 - x1) * d))" by (intro eqm_mult eqm_refl eqm_sym [OF hd])
  also have "2 * i * ((x2 - x1) * d) = 2 * (x2 - x1) * i * d" by (simp add: algebra_simps)
  also have "eqm p \<dots> (z3 * i * d)" by (intro eqm_mult eqm_refl eqm_sym [OF e(3)])
  also have "eqm p (z3 * i * d) (1 * d)" by (intro eqm_mult eqm_refl zi)
  finally have i: "eqm p (2 * i) d" by simp
  note k = chord_cancel [OF hd i e(1,2)]
  have "(x3 * i\<^sup>2 mod p, y3 * i ^ 3 mod p) = third_point p ((y2 - y1) * d) (x1, y1) x2"
    by (rule third_point_eqm) (use k in simp_all)
  then show ?thesis using affine_point [OF f z [unfolded p_def] refl] by (simp add: j p_def d_def i_def)
qed

lemma tangent_added:
  assumes f: "field_curve c" and y: "\<not> eqm (cu_P c) y 0"
  shows "affineFromJacobian c (doubleJacobian c (x, y, 1))
    = Inr (third_point (cu_P c) (3 * x\<^sup>2 * inverse_mod (cu_P c) (2 * y)) (x, y) x)"
proof -
  obtain x3 y3 z3 where j: "doubleJacobian c (x, y, 1) = (x3, y3, z3)" by (metis prod_cases3)
  define p i where "p = cu_P c" and "i = inverse_mod p (2 * y)"
  have p: "2 < p" using f by (simp add: field_curve_def p_def)
  note e = double_jacobian_eqm [OF j p_def]
  have "\<not> eqm p 2 0" using p by (simp add: eqm_def)
  then have y2: "\<not> eqm p (2 * y) 0" using field_product [OF f] y unfolding p_def by blast
  then have z: "\<not> eqm p z3 0" using e(3) eqm_sym eqm_trans by blast
  have "eqm p (2 * y * i) 1" using field_inverse(2) [OF f y2 [unfolded p_def]] by (simp add: p_def i_def)
  note k = tangent_cancel [OF this e(1,2)]
  have "inverse_mod p z3 = i" using ModInverse_eqm [OF e(3)] by (simp add: inverse_mod_def i_def)
  moreover have "(x3 * i\<^sup>2 mod p, y3 * i ^ 3 mod p) = third_point p (3 * x\<^sup>2 * i) (x, y) x" by (rule third_point_eqm) (use k in simp_all)
  ultimately show ?thesis using affine_point [OF f z [unfolded p_def] refl] by (simp add: j p_def i_def)
qed

lemma third_point_on_curve:
  assumes "0 < cu_P c" "eqm (cu_P c) ((l * (x1 - (l\<^sup>2 - x1 - x2)) - y1)\<^sup>2 - (l\<^sup>2 - x1 - x2) ^ 3 - cu_B c) 0"
  shows "on_curve c (third_point (cu_P c) l (x1, y1) x2)"
proof -
  define p x3 y3 where "p = cu_P c" and "x3 = l\<^sup>2 - x1 - x2" and "y3 = l * (x1 - (l\<^sup>2 - x1 - x2)) - y1"
  have "third_point p l (x1, y1) x2 = (x3 mod p, y3 mod p)"
    by (rule third_point_eqm [symmetric]) (simp_all add: x3_def y3_def)
  moreover have "eqm p ((y3 mod p)\<^sup>2 - (x3 mod p) ^ 3 - cu_B c) (y3\<^sup>2 - x3 ^ 3 - cu_B c)" by (intro eqm_diff eqm_power eqm_refl) simp_all
  then have "IsOnCurve c (x3 mod p) (y3 mod p)" using assms(2) unfolding IsOnCurve_eqm p_def x3_def y3_def by (rule eqm_trans)
  ultimately show ?thesis using assms(1) by (simp add: on_curve_def p_def)
qed

lemma eqm_small: "0 \<le> a \<Longrightarrow> a < p \<Longrightarrow> 0 \<le> b \<Longrightarrow> b < p \<Longrightarrow> eqm p (a - b) 0 \<longleftrightarrow> a = b"
  by (auto simp: eqm_def mod_eq_dvd_iff dest: zdvd_imp_le) (metis mod_eq_dvd_iff mod_pos_pos_trivial dvd_eq_mod_eq_0)

lemma vertical_added:
  assumes "2 < cu_P c" "y1 \<noteq> y2"
  shows "affineFromJacobian c (addJacobian c (x, y1, 1) (x, y2, 1)) = Inr (0, 0)"
proof -
  obtain x3 y3 z3 where j: "addJacobian c (x, y1, 1) (x, y2, 1) = (x3, y3, z3)" by (metis prod_cases3)
  then have "z3 = 0" using add_jacobian_eqm(3,4) [OF j refl assms(1) refl refl] by (simp add: eqm_def)
  then show ?thesis by (simp add: j affineFromJacobian_def)
qed

lemma horizontal_doubled: "affineFromJacobian c (doubleJacobian c (x, 0, 1)) = Inr (0, 0)"
  by (simp add: doubleJacobian_def affineFromJacobian_def Let_def)

lemma doubled_point:
  assumes f: "field_curve c" and o: "on_curve c (x, y)"
  shows "curve_Double c x y = Inr (chord_tangent c (x, y) (x, y))"
proof (cases "y = 0")
  case True
  then show ?thesis by (simp add: curve_Double_def horizontal_doubled chord_tangent_def)
next
  case False
  then have "\<not> eqm (cu_P c) y 0" using o eqm_small [of y "cu_P c" 0] by (simp add: on_curve_def)
  then show ?thesis using tangent_added [OF f] False by (simp add: curve_Double_def chord_tangent_def)
qed

lemma added_point:
  assumes f: "field_curve c" and o: "on_curve c (x1, y1)" "on_curve c (x2, y2)"
  shows "curve_Add c x1 y1 x2 y2 = Inr (chord_tangent c (x1, y1) (x2, y2))"
proof (cases "x1 = x2")
  case True
  then show ?thesis using doubled_point [OF f o(1)] f
    by (auto simp: curve_Add_def curve_Double_def chord_tangent_def vertical_added field_curve_def)
next
  case False
  then have "\<not> eqm (cu_P c) (x2 - x1) 0" using o eqm_small [of x2 "cu_P c" x1] by (simp add: on_curve_def)
  then show ?thesis using chord_added [OF f] False by (auto simp: curve_Add_def chord_tangent_def)
qed

lemma chord_tangent_on_curve:
  assumes f: "field_curve c" and o: "on_curve c (x1, y1)" "on_curve c (x2, y2)"
  shows "on_curve c (chord_tangent c (x1, y1) (x2, y2))"
proof -
  define p where "p = cu_P c"
  have p: "2 < p" using f by (simp add: field_curve_def p_def)
  have zero: "on_curve c (0, 0)" using p by (simp add: on_curve_def p_def)
  have on: "(x1, y1) \<noteq> (0, 0) \<Longrightarrow> eqm p (y1\<^sup>2 - x1 ^ 3 - cu_B c) 0" "(x2, y2) \<noteq> (0, 0) \<Longrightarrow> eqm p (y2\<^sup>2 - x2 ^ 3 - cu_B c) 0"
    using o by (auto simp: on_curve_def IsOnCurve_eqm p_def)
  have tangent: "on_curve c (third_point p (3 * x1\<^sup>2 * inverse_mod p (2 * y1)) (x1, y1) x1)" if "(x1, y1) \<noteq> (0, 0)" "y1 \<noteq> 0"
  proof -
    have "\<not> eqm p y1 0" using o(1) that(2) eqm_small [of y1 p 0] p by (simp add: on_curve_def p_def)
    moreover have "\<not> eqm p 2 0" using p by (simp add: eqm_def)
    ultimately have "eqm p (2 * y1 * inverse_mod p (2 * y1)) 1" using field_inverse(2) [OF f] field_product [OF f] unfolding p_def by blast
    then have "eqm p (3 * x1\<^sup>2 * (2 * y1 * inverse_mod p (2 * y1))) (3 * x1\<^sup>2 * 1)" by (intro eqm_mult eqm_refl)
    then have "eqm p (3 * x1\<^sup>2 * inverse_mod p (2 * y1) * (2 * y1)) (3 * x1\<^sup>2)" by (simp add: mult_ac)
    note tangent_on_curve [OF on(1) [OF that(1)] this]
    then show ?thesis using third_point_on_curve p unfolding p_def by simp
  qed
  have chord: "on_curve c (third_point p ((y2 - y1) * inverse_mod p (x2 - x1)) (x1, y1) x2)"
    if "(x1, y1) \<noteq> (0, 0)" "(x2, y2) \<noteq> (0, 0)" "x1 \<noteq> x2"
  proof -
    have "\<not> eqm p (x2 - x1) 0" using o that(3) eqm_small [of x2 p x1] by (simp add: on_curve_def p_def)
    then have d: "eqm p ((x2 - x1) * inverse_mod p (x2 - x1)) 1" using field_inverse(2) [OF f] unfolding p_def by blast
    then have "eqm p ((y2 - y1) * ((x2 - x1) * inverse_mod p (x2 - x1))) ((y2 - y1) * 1)" by (intro eqm_mult eqm_refl)
    then have "eqm p ((y2 - y1) * inverse_mod p (x2 - x1) * (x2 - x1)) (y2 - y1)" by (simp add: mult_ac)
    note chord_on_curve [OF on(1) [OF that(1)] on(2) [OF that(2)] this d]
    then show ?thesis using third_point_on_curve p unfolding p_def by simp
  qed
  show ?thesis using tangent chord o zero unfolding chord_tangent_def p_def by auto
qed

text \<open>
  C18. On a curve over a field, the sum that \<open>Add\<close> computes with its Jacobian formulas and one modular inversion is the point of the chord and
  tangent construction: the other point when one is infinity, infinity for a point and its mirror image, otherwise the third point of
  the line or tangent.  \<open>Double\<close> agrees with \<open>Add\<close>, neither fails, and the sum is again a point of the curve (or infinity), reduced modulo \<open>P\<close>.
\<close>

theorem curve_addition:
  assumes "field_curve c" "on_curve c (x1, y1)" "on_curve c (x2, y2)"
  shows "curve_Add c x1 y1 x2 y2 = Inr (chord_tangent c (x1, y1) (x2, y2)) \<and>
    on_curve c (chord_tangent c (x1, y1) (x2, y2)) \<and>
    curve_Double c x1 y1 = Inr (chord_tangent c (x1, y1) (x1, y1))"
  using added_point [OF assms] chord_tangent_on_curve [OF assms] doubled_point [OF assms(1,2)] by blast

definition curve17 :: BitCurve where
  "curve17 = \<lparr>cu_P = 17, cu_N = 18, cu_B = 7, cu_Gx = 1, cu_Gy = 5, cu_BitSize = 5\<rparr>"

lemma field_curve17: "field_curve curve17"
proof -
  have "\<forall>z \<in> set [1..16]. gcd z (17::int) = 1" by code_simp
  then have "\<forall>z \<in> {0<..<17::int}. coprime z 17" by (auto simp: coprime_iff_gcd_eq_1)
  then show ?thesis by (simp add: field_curve_def curve17_def)
qed

theorem curve_addition_witness:
  "curve_Add curve17 1 5 3 0 = Inr (15, 13) \<and> on_curve curve17 (chord_tangent curve17 (1, 5) (3, 0))"
proof -
  have "on_curve curve17 (1, 5)" "on_curve curve17 (3, 0)" by (simp_all add: on_curve_def IsOnCurve_def curve17_def)
  then show ?thesis using curve_addition [OF field_curve17, of 1 5 3 0] by code_simp
qed

subsection \<open>Big-endian bytes\<close>

text \<open>
  \<open>big_Bits\<close> is \<^verbatim>\<open>big.Int.Bits\<close>: the 64-bit words of the absolute value, least significant first, without leading zero words.  \<open>SetBytes\<close>
  of \<^verbatim>\<open>math/big\<close> reads big-endian bytes.
\<close>

function big_Bits :: "nat \<Rightarrow> uint64 list" where
  "big_Bits n = (if n = 0 then [] else word_of_nat (n mod 2 ^ 64) # big_Bits (n div 2 ^ 64))"
  by pat_completeness auto
termination
  by (relation "measure (\<lambda>n. n)") auto

declare big_Bits.simps [simp del]

definition big_SetBytes :: "bytes \<Rightarrow> nat" where
  "big_SetBytes b = nat_le (rev b)"

primrec read_word :: "nat \<Rightarrow> uint64 \<Rightarrow> nat \<times> bytes \<Rightarrow> nat \<times> bytes" where
  "read_word 0 d s = s"
| "read_word (Suc j) d s = (case s of (i, buf) \<Rightarrow>
     if i > 0 then read_word j (drop_bit 8 d) (i - 1, buf[i - 1 := ucast d]) else (i, buf))"

definition readBits :: "int \<Rightarrow> bytes \<Rightarrow> bytes" where
  "readBits bigint buf = snd (fold (read_word 8) (big_Bits (nat \<bar>bigint\<bar>)) (length buf, buf))"

definition Marshal :: "BitCurve \<Rightarrow> int \<Rightarrow> int \<Rightarrow> bytes" where
  "Marshal c x y = (let byteLen = (cu_BitSize c + 7) div 8; ret = replicate (1 + 2 * byteLen) 0; ret = ret[0 := 4];
     ret = take 1 ret @ readBits x (take byteLen (drop 1 ret)) @ drop (1 + byteLen) ret;
     ret = take (1 + byteLen) ret @ readBits y (drop (1 + byteLen) ret)
   in ret)"

definition Unmarshal :: "BitCurve \<Rightarrow> bytes \<Rightarrow> (int \<times> int) option" where
  "Unmarshal c data = (let byteLen = (cu_BitSize c + 7) div 8 in
     if length data \<noteq> 1 + 2 * byteLen then None
     else if data ! 0 \<noteq> 4 then None
     else Some (int (big_SetBytes (take byteLen (drop 1 data))), int (big_SetBytes (drop (1 + byteLen) data))))"

lemma le_nat_0: "le_nat n 0 = replicate n 0"
  by (induction n) auto

lemma le_nat_add: "le_nat (m + n) x = le_nat m x @ le_nat n (x div 256 ^ m)"
  by (induction m arbitrary: x) (auto simp: div_mult2_eq)

lemma le_nat_mod: "m \<le> n \<Longrightarrow> le_nat m (x mod 256 ^ n) = le_nat m x"
proof (induction m arbitrary: x n)
  case (Suc m)
  then obtain k where n: "n = Suc k" "m \<le> k" by (cases n) auto
  have "x mod (256 * 256 ^ k) mod 256 = x mod 256" by (simp add: mod_mod_cancel)
  moreover have "x mod (256 * 256 ^ k) div 256 = x div 256 mod 256 ^ k" by (simp add: mod_mult2_eq)
  ultimately show ?case using Suc.IH [OF n(2)] by (simp add: n(1))
qed simp

lemma byte_of_unat: "word_of_nat (unat (d :: uint64)) = (ucast d :: byte)"
  by (rule bit_word_eqI) (auto simp: bit_simps)

lemma byte_of_nat_mod: "word_of_nat (n mod 256) = (word_of_nat n :: byte)"
  by (simp add: word_of_nat_eq_iff take_bit_eq_mod)

lemma read_word:
  "read_word j d (length pre, pre @ post) =
    (length pre - j, take (length pre - j) pre @ rev (le_nat (min j (length pre)) (unat d)) @ post)"
proof (induction j arbitrary: d pre post)
  case (Suc j)
  show ?case
  proof (cases pre rule: rev_exhaust)
    case (snoc ys b)
    have "(pre @ post)[length ys := ucast d] = ys @ (ucast d # post)" by (simp add: snoc list_update_append)
    moreover have "word_of_nat (unat d mod 256) = (ucast d :: byte)"
      by (metis (no_types) byte_of_nat_mod byte_of_unat)
    moreover have "unat (drop_bit 8 d) = unat d div 256" by (simp add: drop_bit_eq_div unat_div)
    ultimately show ?thesis using Suc.IH [of "drop_bit 8 d" ys "ucast d # post"] by (simp add: snoc)
  qed simp
qed simp

lemma fold_read_word:
  "snd (fold (read_word 8) (big_Bits n) (length pre, pre @ post)) =
    (let k = 8 * length (big_Bits n) in take (length pre - k) pre @ rev (le_nat (min k (length pre)) n) @ post)"
proof (induction n arbitrary: pre post rule: big_Bits.induct)
  case (1 n)
  show ?case
  proof (cases "n = 0")
    case False
    define l where "l = length pre"
    define q where "q = take (l - 8) pre"
    have q: "length q = l - 8" by (simp add: q_def l_def)
    have w: "unat (word_of_nat (n mod 2 ^ 64) :: uint64) = n mod 256 ^ 8" by (simp add: unat_of_nat)
    have "read_word 8 (word_of_nat (n mod 2 ^ 64)) (l, pre @ post) = (length q, q @ rev (le_nat (min 8 l) n) @ post)"
      using read_word [of 8 "word_of_nat (n mod 2 ^ 64)" pre post] le_nat_mod [of "min 8 l" 8 n]
      unfolding w by (simp add: q l_def [symmetric]) (simp add: q_def)
    moreover have "min (8 * Suc k) l = min 8 l + min (8 * k) (l - 8)" for k by simp
    moreover have "le_nat (min 8 l + min (8 * k) (l - 8)) n = le_nat (min 8 l) n @ le_nat (min (8 * k) (l - 8)) (n div 2 ^ 64)" for k
      unfolding le_nat_add by (cases "8 \<le> l") simp_all
    moreover have "take (length q - 8 * k) q = take (l - 8 * Suc k) pre" for k by (simp add: q_def l_def min_def)
    ultimately show ?thesis using 1 [OF False, of q "rev (le_nat (min 8 l) n) @ post"] False
      by (simp add: big_Bits.simps [of n] l_def [symmetric] Let_def q)
  qed (simp add: big_Bits.simps [of 0])
qed

text \<open>The buffer gets the low-order bytes of the number, most significant first; the leading bytes that the number does not reach stay zero.\<close>

lemma le_nat_pad: "n < 256 ^ k \<Longrightarrow> le_nat (k + m) n = le_nat k n @ replicate m 0"
  by (simp add: le_nat_add le_nat_0)

lemma big_Bits_bound: "n < 256 ^ (8 * length (big_Bits n))"
proof (induction n rule: big_Bits.induct)
  case (1 n)
  show ?case
  proof (cases "n = 0")
    case False
    have "n div 2 ^ 64 < 256 ^ (8 * length (big_Bits (n div 2 ^ 64)))" by (rule 1 [OF False])
    then have "n < 2 ^ 64 * 256 ^ (8 * length (big_Bits (n div 2 ^ 64)))" by (simp add: div_less_iff_less_mult mult.commute)
    then show ?thesis using False by (simp add: big_Bits.simps [of n] power_add)
  qed simp
qed

lemma readBits_zero: "readBits x (replicate len 0) = rev (le_nat len (nat \<bar>x\<bar>))"
proof -
  define n k where "n = nat \<bar>x\<bar>" and "k = 8 * length (big_Bits n)"
  have e: "readBits x (replicate len 0) = replicate (len - k) 0 @ rev (le_nat (min k len) n)"
    using fold_read_word [of n "replicate len 0" "[]"] by (simp add: readBits_def n_def k_def Let_def take_replicate)
  show ?thesis
  proof (cases "k \<le> len")
    case True
    then have "le_nat len n = le_nat k n @ replicate (len - k) 0" using le_nat_pad [of n k "len - k"] big_Bits_bound [of n] by (simp add: k_def)
    then show ?thesis using True by (simp add: e n_def [symmetric] min_def)
  qed (simp add: e n_def [symmetric] min_def)
qed

lemma length_readBits [simp]: "length (readBits x buf) = length buf"
  using fold_read_word [of "nat \<bar>x\<bar>" buf "[]"] by (simp add: readBits_def Let_def)

lemma Marshal_bytes:
  "Marshal c x y = (let n = (cu_BitSize c + 7) div 8 in 4 # rev (le_nat n (nat \<bar>x\<bar>)) @ rev (le_nat n (nat \<bar>y\<bar>)))"
  by (simp add: Marshal_def Let_def readBits_zero flip: replicate_add)

lemma big_SetBytes_le: "n < 256 ^ k \<Longrightarrow> big_SetBytes (rev (le_nat k n)) = n"
  by (simp add: big_SetBytes_def nat_le_le_nat)

lemma le_nat_nat_le: "le_nat (length b) (nat_le b) = b"
  by (induction b) (auto simp: byte_of_nat_mod unsigned_less [THEN order_less_le_trans])

lemma Unmarshal_Marshal:
  assumes "0 \<le> x" "x < 256 ^ ((cu_BitSize c + 7) div 8)" "0 \<le> y" "y < 256 ^ ((cu_BitSize c + 7) div 8)"
  shows "Unmarshal c (Marshal c x y) = Some (x, y)"
proof -
  define k where "k = (cu_BitSize c + 7) div 8"
  have "nat x < 256 ^ k" "nat y < 256 ^ k" using assms by (simp_all add: k_def nat_less_iff)
  then show ?thesis using assms(1,3)
    by (simp add: Unmarshal_def Marshal_bytes Let_def k_def [symmetric] big_SetBytes_le)
qed

subsection \<open>Calls of the C library (secp256.go, scalar\_mult\_cgo.go)\<close>

text \<open>
  The functions of libsecp256k1 that the package calls are the fields of \<open>secp_lib\<close>; \<open>None\<close> is a return value that says failure.
  A recoverable signature is given in the compact form that \<^verbatim>\<open>serialize_compact\<close> writes: 64 bytes and the recovery id.
\<close>

record secp_lib =
  lib_seckey_verify :: "bytes \<Rightarrow> bool"
  lib_sign_recoverable :: "bytes \<Rightarrow> bytes \<Rightarrow> (bytes \<times> int) option"
  lib_recover :: "bytes \<Rightarrow> bytes \<Rightarrow> bytes option"
  lib_verify :: "bytes \<Rightarrow> bytes \<Rightarrow> bytes \<Rightarrow> bool"
  lib_scalar_mul :: "bytes \<Rightarrow> bytes \<Rightarrow> bytes option"
  lib_reencode_pubkey :: "nat \<Rightarrow> bytes \<Rightarrow> bytes option"

abbreviation (input) ErrInvalidMsgLen :: error where "ErrInvalidMsgLen \<equiv> Sentinel ''invalid message length, need 32 bytes''"
abbreviation (input) ErrInvalidSignatureLen :: error where "ErrInvalidSignatureLen \<equiv> Sentinel ''invalid signature length''"
abbreviation (input) ErrInvalidRecoveryID :: error where "ErrInvalidRecoveryID \<equiv> Sentinel ''invalid signature recovery id''"
abbreviation (input) ErrInvalidKey :: error where "ErrInvalidKey \<equiv> Sentinel ''invalid private key''"
abbreviation (input) ErrSignFailed :: error where "ErrSignFailed \<equiv> Sentinel ''signing failed''"
abbreviation (input) ErrRecoverFailed :: error where "ErrRecoverFailed \<equiv> Sentinel ''recovery failed''"

definition secp_Sign :: "secp_lib \<Rightarrow> bytes \<Rightarrow> bytes \<Rightarrow> error + bytes" where
  "secp_Sign L msg seckey =
    (if length msg \<noteq> 32 then Inl ErrInvalidMsgLen
     else if length seckey \<noteq> 32 then Inl ErrInvalidKey
     else if \<not> lib_seckey_verify L seckey then Inl ErrInvalidKey
     else (case lib_sign_recoverable L msg seckey of
         None \<Rightarrow> Inl ErrSignFailed
       | Some (sigdata, recid) \<Rightarrow> Inr (sigdata @ [word_of_int recid])))"

definition checkSignature :: "bytes \<Rightarrow> error option" where
  "checkSignature sig =
    (if length sig \<noteq> 65 then Some ErrInvalidSignatureLen
     else if sig ! 64 \<ge> 4 then Some ErrInvalidRecoveryID
     else None)"

definition RecoverPubkey :: "secp_lib \<Rightarrow> bytes \<Rightarrow> bytes \<Rightarrow> error + bytes" where
  "RecoverPubkey L msg sig =
    (if length msg \<noteq> 32 then Inl ErrInvalidMsgLen
     else (case checkSignature sig of
         Some e \<Rightarrow> Inl e
       | None \<Rightarrow> (case lib_recover L sig msg of None \<Rightarrow> Inl ErrRecoverFailed | Some pubkey \<Rightarrow> Inr pubkey)))"

definition secp_VerifySignature :: "secp_lib \<Rightarrow> bytes \<Rightarrow> bytes \<Rightarrow> bytes \<Rightarrow> bool" where
  "secp_VerifySignature L pubkey msg signature =
    (if length msg \<noteq> 32 \<or> length signature \<noteq> 64 \<or> length pubkey = 0 then False else lib_verify L signature msg pubkey)"

definition DecompressPubkey :: "secp_lib \<Rightarrow> bytes \<Rightarrow> (int \<times> int) option" where
  "DecompressPubkey L pubkey =
    (if length pubkey \<noteq> 33 then None
     else (case lib_reencode_pubkey L 65 pubkey of
         None \<Rightarrow> None
       | Some out \<Rightarrow> Some (int (big_SetBytes (take 32 (drop 1 out))), int (big_SetBytes (drop 33 out)))))"

definition secp_CompressPubkey :: "secp_lib \<Rightarrow> int \<Rightarrow> int \<Rightarrow> error + bytes" where
  "secp_CompressPubkey L x y = (case lib_reencode_pubkey L 33 (Marshal theCurve x y) of
     None \<Rightarrow> Inl (Panic ''libsecp256k1 error'') | Some out \<Rightarrow> Inr out)"

definition ScalarMult :: "secp_lib \<Rightarrow> int \<Rightarrow> int \<Rightarrow> bytes \<Rightarrow> error + (int \<times> int) option" where
  "ScalarMult L Bx By scalar =
    (if length scalar > 32 then Inl (Panic ''can't handle scalars > 256 bits'')
     else (let padded = replicate (32 - length scalar) 0 @ scalar; point = replicate 64 0;
               point = readBits Bx (take 32 point) @ drop 32 point; point = take 32 point @ readBits By (drop 32 point)
           in (case lib_scalar_mul L point padded of
                 None \<Rightarrow> Inr None
               | Some point \<Rightarrow> Inr (Some (int (big_SetBytes (take 32 point)), int (big_SetBytes (drop 32 point)))))))"

definition ScalarBaseMult :: "secp_lib \<Rightarrow> BitCurve \<Rightarrow> bytes \<Rightarrow> error + (int \<times> int) option" where
  "ScalarBaseMult L c k = ScalarMult L (cu_Gx c) (cu_Gy c) k"

text \<open>
  \<open>elliptic_Marshal\<close> and \<open>elliptic_Unmarshal\<close> are the functions of the standard library's \<^verbatim>\<open>crypto/elliptic\<close>, which check that the
  point lies on the curve.
\<close>

definition elliptic_Marshal :: "BitCurve \<Rightarrow> int \<Rightarrow> int \<Rightarrow> error + bytes" where
  "elliptic_Marshal c x y = (let n = (cu_BitSize c + 7) div 8 in
     if \<not> (x = 0 \<and> y = 0) \<and> \<not> IsOnCurve c x y then Inl (Panic ''crypto/elliptic: attempted operation on invalid point'')
     else if \<bar>x\<bar> \<ge> 256 ^ n \<or> \<bar>y\<bar> \<ge> 256 ^ n then Inl (Panic ''math/big: buffer too small to fit value'')
     else Inr (4 # rev (le_nat n (nat \<bar>x\<bar>)) @ rev (le_nat n (nat \<bar>y\<bar>))))"

definition elliptic_Unmarshal :: "BitCurve \<Rightarrow> bytes \<Rightarrow> (int \<times> int) option" where
  "elliptic_Unmarshal c data = (case Unmarshal c data of
     None \<Rightarrow> None
   | Some (x, y) \<Rightarrow> if x \<ge> cu_P c \<or> y \<ge> cu_P c then None else if \<not> IsOnCurve c x y then None else Some (x, y))"

lemma base_point_reduced [simp]: "0 \<le> cu_Gx theCurve" "0 \<le> cu_Gy theCurve" "cu_BitSize theCurve = 256"
  by (simp_all add: theCurve_def)

lemma ScalarMult_point:
  "length scalar = 32 \<Longrightarrow> ScalarMult L Bx By scalar = (case lib_scalar_mul L (drop 1 (Marshal theCurve Bx By)) scalar of
     None \<Rightarrow> Inr None
   | Some point \<Rightarrow> Inr (Some (int (big_SetBytes (take 32 point)), int (big_SetBytes (drop 32 point)))))"
  by (simp add: ScalarMult_def Marshal_bytes Let_def readBits_zero split: option.split)

lemma nat_le_bound: "nat_le b < 256 ^ length b"
proof (induction b)
  case (Cons a b)
  have "unat a < 256" using unsigned_less [of a, where 'a = nat] by simp
  then show ?case using Cons.IH by (simp add: algebra_simps)
qed simp

lemma big_SetBytes_bound: "length b = n \<Longrightarrow> big_SetBytes b < 256 ^ n"
  unfolding big_SetBytes_def by (metis length_rev nat_le_bound)

lemma le_big_SetBytes: "length b = n \<Longrightarrow> rev (le_nat n (big_SetBytes b)) = b"
  unfolding big_SetBytes_def by (metis le_nat_nat_le length_rev rev_rev_ident)

lemma elliptic_roundtrip:
  assumes "elliptic_Unmarshal c (4 # pt) = Some (x, y)"
  shows "elliptic_Marshal c x y = Inr (4 # pt)"
proof -
  define n where "n = (cu_BitSize c + 7) div 8"
  have l: "length pt = 2 * n" and xy: "x = int (big_SetBytes (take n pt))" "y = int (big_SetBytes (drop n pt))" "IsOnCurve c x y"
    using assms by (auto simp: elliptic_Unmarshal_def Unmarshal_def Let_def n_def split: if_splits)
  have "big_SetBytes (take n pt) < 256 ^ n" "big_SetBytes (drop n pt) < 256 ^ n"
    using big_SetBytes_bound [of "take n pt" n] big_SetBytes_bound [of "drop n pt" n] l by auto
  moreover have "rev (le_nat n (big_SetBytes (take n pt))) @ rev (le_nat n (big_SetBytes (drop n pt))) = pt"
    using le_big_SetBytes [of "take n pt" n] le_big_SetBytes [of "drop n pt" n] l by simp
  ultimately show ?thesis using xy by (simp add: elliptic_Marshal_def n_def [symmetric] Let_def not_le)
qed

end
