(* ===== verification/Keys.thy ===== *)
theory Keys
  imports Curve "HOL-Library.List_Lexorder" "HOL-Library.Char_ord"
begin

text \<open>
  Private keys: their encoding (\<^verbatim>\<open>shared/crypto/crypto.go\<close>, \<^verbatim>\<open>shared/math/big.go\<close>), the functions that call the C library through
  \<^verbatim>\<open>secp256k1\<close> (\<^verbatim>\<open>shared/crypto/signature_cgo.go\<close>), key files and the file helpers (\<^verbatim>\<open>utils/file/file.go\<close>), and the store of accounts
  (\<^verbatim>\<open>keystore/accounts.go\<close>, \<^verbatim>\<open>keystore/validator.go\<close>).

  A private key is its number \<open>D\<close>; its public key is \<open>pubkey_of\<close> of the signature scheme at the 32 bytes of \<open>D\<close>, and the empty
  list stands for a public key without coordinates.
\<close>

subsection \<open>Padded numbers (shared/math/big.go)\<close>

definition big_Bytes :: "nat \<Rightarrow> bytes" where
  "big_Bytes n = rev (le_nat ((bit_len n + 7) div 8) n)"

definition ReadBits :: "nat \<Rightarrow> bytes \<Rightarrow> bytes" where
  "ReadBits bigint buf = snd (fold (read_word 8) (big_Bits bigint) (length buf, buf))"

definition PaddedBigBytes :: "nat \<Rightarrow> nat \<Rightarrow> bytes" where
  "PaddedBigBytes bigint n = (if bit_len bigint div 8 \<ge> n then big_Bytes bigint else ReadBits bigint (replicate n 0))"

lemma PaddedBigBytes_fits: "n < 256 ^ k \<Longrightarrow> PaddedBigBytes n k = rev (le_nat k n)"
proof -
  assume "n < 256 ^ k"
  then have b: "bit_len n \<le> 8 * k" by (simp add: bit_len_le power_mult)
  have r: "ReadBits n (replicate k 0) = rev (le_nat k n)"
    using readBits_zero [of "int n" k] by (simp add: ReadBits_def readBits_def)
  show ?thesis
  proof (cases "bit_len n div 8 \<ge> k")
    case True
    then have "bit_len n = 8 * k" using b by simp
    then show ?thesis by (simp add: PaddedBigBytes_def big_Bytes_def)
  qed (simp add: PaddedBigBytes_def r)
qed

subsection \<open>Private keys (shared/crypto/crypto.go)\<close>

definition secp256k1N :: nat where
  "secp256k1N = 0xfffffffffffffffffffffffffffffffebaaedce6af48a03bbfd25e8cd0364141"

definition secp256k1halfN :: nat where
  "secp256k1halfN = secp256k1N div 2"

definition FromECDSA :: "nat option \<Rightarrow> bytes" where
  "FromECDSA priv = (case priv of None \<Rightarrow> [] | Some D \<Rightarrow> PaddedBigBytes D (256 div 8))"

definition toECDSA :: "crypto \<Rightarrow> bytes \<Rightarrow> bool \<Rightarrow> error + nat" where
  "toECDSA c d strict =
    (if strict \<and> 8 * length d \<noteq> 256 then Inl (Errorf ''invalid length, need 256 bits'')
     else (let D = big_SetBytes d in
       if D \<ge> secp256k1N then Inl (Errorf ''invalid private keyAcc, >=N'')
       else if D = 0 then Inl (Errorf ''invalid private keyAcc, zero or negative'')
       else if pubkey_of c d = [] then Inl (Errorf ''invalid private keyAcc'')
       else Inr D))"

definition ToECDSA :: "crypto \<Rightarrow> bytes \<Rightarrow> error + nat" where
  "ToECDSA c d = toECDSA c d True"

definition HexToECDSA :: "crypto \<Rightarrow> string \<Rightarrow> error + nat" where
  "HexToECDSA c hexkey = (case hexDecode hexkey of (b, err) \<Rightarrow>
     if err = Some (Errorf ''encoding/hex: invalid byte'') then Inl (Errorf ''invalid hex character in private keyAcc'')
     else if err \<noteq> None then Inl (Errorf ''invalid hex data for private keyAcc'')
     else ToECDSA c b)"

definition ValidateSignatureValues :: "byte \<Rightarrow> int \<Rightarrow> int \<Rightarrow> bool \<Rightarrow> bool" where
  "ValidateSignatureValues v r s homestead =
    (if r < 1 \<or> s < 1 then False
     else if homestead \<and> s > int secp256k1halfN then False
     else r < int secp256k1N \<and> s < int secp256k1N \<and> (v = 0 \<or> v = 1))"

definition valid_key :: "crypto \<Rightarrow> nat \<Rightarrow> bool" where
  "valid_key c D \<longleftrightarrow> 0 < D \<and> D < secp256k1N \<and> pubkey_of c (FromECDSA (Some D)) \<noteq> []"

lemma secp256k1N_bound: "secp256k1N < 256 ^ 32"
  by (simp add: secp256k1N_def)

lemma FromECDSA_bytes: "D < secp256k1N \<Longrightarrow> FromECDSA (Some D) = rev (le_nat 32 D)"
  using secp256k1N_bound PaddedBigBytes_fits [of D 32] by (simp add: FromECDSA_def)

lemma toECDSA_FromECDSA: "valid_key c D \<Longrightarrow> toECDSA c (FromECDSA (Some D)) strict = Inr D"
proof -
  assume v: "valid_key c D"
  then have "FromECDSA (Some D) = rev (le_nat 32 D)" "D < 256 ^ 32" using secp256k1N_bound by (simp_all add: valid_key_def FromECDSA_bytes)
  then have "length (FromECDSA (Some D)) = 32" "big_SetBytes (FromECDSA (Some D)) = D" by (simp_all add: big_SetBytes_le)
  then show ?thesis using v by (simp add: toECDSA_def valid_key_def)
qed

lemma FromECDSA_toECDSA: "toECDSA c d True = Inr D \<Longrightarrow> FromECDSA (Some D) = d \<and> valid_key c D"
  using le_big_SetBytes [of d 32] by (auto simp: toECDSA_def valid_key_def Let_def FromECDSA_bytes split: if_splits)

lemma HexToECDSA_hex: "HexToECDSA c (hexEncode b) = toECDSA c b True"
  by (simp add: HexToECDSA_def hexDecode_Encode ToECDSA_def)

subsection \<open>Files (utils/file/file.go)\<close>

text \<open>
  The disk maps clean absolute paths to files and directories with their permission bits.  \<open>os_expand\<close> is \<^verbatim>\<open>filepath.Abs\<close> of the path with its
  environment variables and home directory expanded, which depends on the environment of the process; \<open>os_fault\<close> gives the error, if any, that the operating
  system reports for an operation on a path (no permission, a missing parent directory, a full disk).
\<close>

datatype fnode = DirNode nat | FileNode nat bytes

type_synonym disk = "(string, fnode) gomap"

record osenv =
  os_expand :: "string \<Rightarrow> error + string"
  os_fault :: "string \<Rightarrow> error option"

abbreviation (input) ErrNotExist :: error where "ErrNotExist \<equiv> Sentinel ''file does not exist''"
abbreviation (input) ErrIsDir :: error where "ErrIsDir \<equiv> Errorf ''is a directory''"
abbreviation (input) ReadWritePermissions :: nat where "ReadWritePermissions \<equiv> 384"
abbreviation (input) ReadWriteExecutePermissions :: nat where "ReadWriteExecutePermissions \<equiv> 448"

text \<open>Calls of the operating system: \<open>os_Stat\<close> returns \<open>None\<close> for a path that does not exist.\<close>

definition os_Stat :: "osenv \<Rightarrow> disk \<Rightarrow> string \<Rightarrow> error + fnode option" where
  "os_Stat E d p = (case os_fault E p of Some e \<Rightarrow> Inl e | None \<Rightarrow> Inr (map_of d p))"

definition os_WriteFile :: "osenv \<Rightarrow> disk \<Rightarrow> string \<Rightarrow> bytes \<Rightarrow> error + disk" where
  "os_WriteFile E d p data = (case os_fault E p of
     Some e \<Rightarrow> Inl e
   | None \<Rightarrow> (case map_of d p of
       Some (DirNode m) \<Rightarrow> Inl ErrIsDir
     | Some (FileNode m old) \<Rightarrow> Inr (gput p (FileNode m data) d)
     | None \<Rightarrow> Inr (gput p (FileNode ReadWritePermissions data) d)))"

definition os_MkdirAll :: "osenv \<Rightarrow> disk \<Rightarrow> string \<Rightarrow> error + disk" where
  "os_MkdirAll E d p = (case os_fault E p of
     Some e \<Rightarrow> Inl e
   | None \<Rightarrow> (case map_of d p of
       Some (DirNode m) \<Rightarrow> Inr d
     | Some (FileNode m b) \<Rightarrow> Inl (Errorf ''not a directory'')
     | None \<Rightarrow> Inr (gput p (DirNode ReadWriteExecutePermissions) d)))"

definition filepath_Join :: "string \<Rightarrow> string \<Rightarrow> string" where
  "filepath_Join a b = (if a = '''' then b else a @ ''/'' @ b)"

text \<open>\<open>ioutil.ReadDir\<close> lists the names of a directory in alphabetical order.\<close>

definition dir_names :: "disk \<Rightarrow> string \<Rightarrow> (string \<times> bool) list" where
  "dir_names d dir = map (\<lambda>(p, n). (drop (length dir + 1) p, case n of DirNode m \<Rightarrow> True | FileNode m b \<Rightarrow> False))
     (filter (\<lambda>(p, n). take (length dir + 1) p = dir @ ''/'' \<and> drop (length dir + 1) p \<noteq> '''' \<and> CHR ''/'' \<notin> set (drop (length dir + 1) p)) d)"

definition os_ReadDir :: "osenv \<Rightarrow> disk \<Rightarrow> string \<Rightarrow> error + (string \<times> bool) list" where
  "os_ReadDir E d dir = (case os_fault E dir of
     Some e \<Rightarrow> Inl e
   | None \<Rightarrow> (case map_of d dir of
       Some (DirNode m) \<Rightarrow> Inr (sort_key fst (dir_names d dir))
     | Some (FileNode m b) \<Rightarrow> Inl (Errorf ''not a directory'')
     | None \<Rightarrow> Inl ErrNotExist))"

definition HasDir :: "osenv \<Rightarrow> disk \<Rightarrow> string \<Rightarrow> error + bool" where
  "HasDir E d dirPath = (case os_expand E dirPath of
     Inl e \<Rightarrow> Inl e
   | Inr fullPath \<Rightarrow> (case os_Stat E d fullPath of
       Inl e \<Rightarrow> Inl e
     | Inr None \<Rightarrow> Inr False
     | Inr (Some info) \<Rightarrow> Inr (case info of DirNode m \<Rightarrow> True | FileNode m b \<Rightarrow> False)))"

definition FileExists :: "osenv \<Rightarrow> disk \<Rightarrow> string \<Rightarrow> bool" where
  "FileExists E d filename = (case os_expand E filename of
     Inl e \<Rightarrow> False
   | Inr filePath \<Rightarrow> (case os_Stat E d filePath of
       Inl e \<Rightarrow> False
     | Inr None \<Rightarrow> False
     | Inr (Some info) \<Rightarrow> (case info of DirNode m \<Rightarrow> False | FileNode m b \<Rightarrow> True)))"

definition MkdirAll :: "osenv \<Rightarrow> disk \<Rightarrow> string \<Rightarrow> error + disk" where
  "MkdirAll E d dirPath = (case os_expand E dirPath of
     Inl e \<Rightarrow> Inl e
   | Inr expanded \<Rightarrow> (case HasDir E d expanded of
       Inl e \<Rightarrow> Inl e
     | Inr exists \<Rightarrow>
       if exists then (case os_Stat E d expanded of
           Inl e \<Rightarrow> Inl e
         | Inr (Some (DirNode m)) \<Rightarrow>
             if m \<noteq> ReadWriteExecutePermissions then Inl (Errorf ''dir already exists without proper 0700 permissions'')
             else os_MkdirAll E d expanded
         | Inr (Some (FileNode m b)) \<Rightarrow>
             if m \<noteq> ReadWriteExecutePermissions then Inl (Errorf ''dir already exists without proper 0700 permissions'')
             else os_MkdirAll E d expanded
         | Inr None \<Rightarrow> Inl ErrNotExist)
       else os_MkdirAll E d expanded))"

definition file_WriteFile :: "osenv \<Rightarrow> disk \<Rightarrow> string \<Rightarrow> bytes \<Rightarrow> error + disk" where
  "file_WriteFile E d file data = (case os_expand E file of
     Inl e \<Rightarrow> Inl e
   | Inr expanded \<Rightarrow>
     if FileExists E d expanded then (case os_Stat E d expanded of
         Inl e \<Rightarrow> Inl e
       | Inr (Some (FileNode m b)) \<Rightarrow>
           if m \<noteq> ReadWritePermissions then Inl (Errorf ''file already exists without proper 0600 permissions'')
           else os_WriteFile E d expanded data
       | Inr _ \<Rightarrow> Inl (Errorf ''file already exists without proper 0600 permissions''))
     else os_WriteFile E d expanded data)"

text \<open>The home directory of the user and the default place of the data; \<open>current\<close> is the home that \<^verbatim>\<open>user.Current\<close> reports, if any.\<close>

definition HomeDir :: "string \<Rightarrow> string option \<Rightarrow> string" where
  "HomeDir home current = (if home \<noteq> [] then home else (case current of Some usr \<Rightarrow> usr | None \<Rightarrow> []))"

definition DefaultDataDir :: "string \<Rightarrow> string \<Rightarrow> string option \<Rightarrow> string" where
  "DefaultDataDir GOOS env current = (let home = HomeDir env current in
     if home \<noteq> [] then
       (if GOOS = ''darwin'' then filepath_Join (filepath_Join home ''Library'') ''RDO''
        else if GOOS = ''windows'' then filepath_Join (filepath_Join (filepath_Join home ''AppData'') ''Local'') ''RDO''
        else filepath_Join home ''.rdo'')
     else [])"

subsection \<open>Key files\<close>

text \<open>
  A \<open>reader\<close> is what is left of an open file, with the error that ends it unless it is the end of the file; \<^verbatim>\<open>bufio\<close>'s \<open>ReadByte\<close>
  returns the byte zero together with an error.
\<close>

type_synonym reader = "bytes \<times> error option"

abbreviation (input) io_EOF :: error where "io_EOF \<equiv> Sentinel ''EOF''"

definition ReadByte :: "reader \<Rightarrow> byte \<times> error option \<times> reader" where
  "ReadByte r = (case r of
     (b # bs, e) \<Rightarrow> (b, None, (bs, e))
   | ([], e) \<Rightarrow> (0, Some (case e of None \<Rightarrow> io_EOF | Some e \<Rightarrow> e), ([], e)))"

definition os_Open :: "osenv \<Rightarrow> disk \<Rightarrow> string \<Rightarrow> error + reader" where
  "os_Open E d p = (case os_fault E p of
     Some e \<Rightarrow> Inl e
   | None \<Rightarrow> (case map_of d p of
       None \<Rightarrow> Inl ErrNotExist | Some (DirNode m) \<Rightarrow> Inr ([], Some ErrIsDir) | Some (FileNode m b) \<Rightarrow> Inr (b, None)))"

text \<open>The loop of \<open>readASCII\<close>: \<open>k\<close> bytes of the buffer are still to be filled, \<open>buf\<close> holds the \<open>n\<close> bytes read so far.\<close>

primrec readASCII :: "nat \<Rightarrow> bytes \<Rightarrow> reader \<Rightarrow> bytes \<times> error option \<times> reader" where
  "readASCII 0 buf r = (buf, None, r)"
| "readASCII (Suc k) buf r = (case ReadByte r of (b, err, r) \<Rightarrow>
     if err = Some io_EOF \<or> b < 33 then (buf, None, r)
     else (case err of Some e \<Rightarrow> (buf, Some e, r) | None \<Rightarrow> readASCII k (buf @ [b]) r))"

function key_file_end :: "nat \<Rightarrow> reader \<Rightarrow> error option" where
  "key_file_end i r = (case ReadByte r of (b, err, r') \<Rightarrow>
     if err = Some io_EOF then None
     else if err \<noteq> None then err
     else if b \<noteq> 10 \<and> b \<noteq> 13 then Some (Errorf ''invalid character at end of keyAcc file'')
     else if i \<ge> 2 then Some (Errorf ''keyAcc file too long, want 64 hex characters'')
     else key_file_end (i + 1) r')"
  by pat_completeness auto
termination
  by (relation "measure (\<lambda>(i, r). 2 - i)") auto

declare key_file_end.simps [simp del]

definition checkKeyFileEnd :: "reader \<Rightarrow> error option" where
  "checkKeyFileEnd r = key_file_end 0 r"

definition loadKey :: "osenv \<Rightarrow> disk \<Rightarrow> string \<Rightarrow> nat \<Rightarrow> error + bytes" where
  "loadKey E d file n = (case os_Open E d file of
     Inl e \<Rightarrow> Inl e
   | Inr r \<Rightarrow> (case readASCII n [] r of
       (buf, Some e, r) \<Rightarrow> Inl e
     | (buf, None, r) \<Rightarrow>
         if length buf \<noteq> n then Inl (Errorf ''keyAcc file too short'')
         else (case checkKeyFileEnd r of Some e \<Rightarrow> Inl e | None \<Rightarrow> Inr buf)))"

definition bytes_string :: "bytes \<Rightarrow> string" where
  "bytes_string b = map (\<lambda>x. char_of (unat x)) b"

definition string_bytes :: "string \<Rightarrow> bytes" where
  "string_bytes s = map (\<lambda>c. word_of_nat (of_char c)) s"

definition LoadECDSA :: "crypto \<Rightarrow> osenv \<Rightarrow> disk \<Rightarrow> string \<Rightarrow> error + nat" where
  "LoadECDSA c E d file = (case loadKey E d file 64 of Inl e \<Rightarrow> Inl e | Inr buf \<Rightarrow> HexToECDSA c (bytes_string buf))"

definition SaveECDSA :: "osenv \<Rightarrow> disk \<Rightarrow> string \<Rightarrow> nat option \<Rightarrow> error + disk" where
  "SaveECDSA E d file key = (let k = hexEncode (FromECDSA key) in os_WriteFile E d file (string_bytes k))"

text \<open>The key of the peer-to-peer host: \<open>raw\<close> and \<open>unmarshal\<close> are functions of the libp2p library.\<close>

definition SaveP2PKey :: "osenv \<Rightarrow> disk \<Rightarrow> string \<Rightarrow> error + bytes \<Rightarrow> error + disk" where
  "SaveP2PKey E d file raw = (case raw of Inl e \<Rightarrow> Inl e | Inr raw \<Rightarrow> os_WriteFile E d file (string_bytes (hexEncode raw)))"

definition LoadP2PKey :: "(bytes \<Rightarrow> error + 'k) \<Rightarrow> osenv \<Rightarrow> disk \<Rightarrow> string \<Rightarrow> error + 'k" where
  "LoadP2PKey unmarshal E d file = (case loadKey E d file 128 of
     Inl e \<Rightarrow> Inl e
   | Inr buf \<Rightarrow> (case hexDecode (bytes_string buf) of (ks, Some e) \<Rightarrow> Inl e | (ks, None) \<Rightarrow> unmarshal ks))"

lemma bytes_string_string_bytes [simp]: "bytes_string (string_bytes s) = s"
proof -
  have "unat (word_of_nat (of_char c) :: byte) = of_char c" for c :: char
    by (simp add: unat_of_nat)
  then show ?thesis by (simp add: bytes_string_def string_bytes_def comp_def)
qed

lemma length_string_bytes [simp]: "length (string_bytes s) = length s"
  by (simp add: string_bytes_def)

lemma hexByte_printable: "b \<in> set (string_bytes (hexByte x)) \<Longrightarrow> 33 \<le> b"
proof -
  have "\<forall>n \<in> {0..<16}. 33 \<le> (word_of_nat (of_char (hexDigit n)) :: byte)" by (simp add: hexDigit_def atLeastLessThan_nat_numeral)
  moreover have "unat x div 16 < 16" using unsigned_less [of x, where 'a = nat] by simp
  ultimately show "b \<in> set (string_bytes (hexByte x)) \<Longrightarrow> 33 \<le> b" by (auto simp: string_bytes_def hexByte_def)
qed

lemma hexEncode_printable: "b \<in> set (string_bytes (hexEncode bs)) \<Longrightarrow> 33 \<le> b"
  using hexByte_printable by (fastforce simp: string_bytes_def hexEncode_def)

text \<open>
  A read error never leaves \<open>readASCII\<close>: the byte that comes with it is zero, so that it passes for a control character that ends the key.
\<close>

lemma readASCII_no_error: "fst (snd (readASCII k buf r)) = None"
  by (induction k arbitrary: buf r) (auto simp: ReadByte_def split: list.splits prod.splits)

lemma readASCII_full:
  "\<forall>b \<in> set bs. 33 \<le> b \<Longrightarrow> readASCII (length bs) buf (bs @ rest, e) = (buf @ bs, None, (rest, e))"
proof (induction bs arbitrary: buf)
  case (Cons b bs)
  then show ?case using Cons.IH [of "buf @ [b]"] by (simp add: ReadByte_def not_less)
qed simp

lemma readASCII_inv:
  "readASCII k buf (data, e) = (buf', err, r) \<Longrightarrow> length buf' = length buf + k \<Longrightarrow>
    \<exists>bs rest. data = bs @ rest \<and> buf' = buf @ bs \<and> r = (rest, e) \<and> (\<forall>b \<in> set bs. 33 \<le> b)"
proof (induction k arbitrary: buf data)
  case (Suc k)
  show ?case
  proof (cases data)
    case (Cons b bs)
    then have b: "33 \<le> b" and r: "readASCII k (buf @ [b]) (bs, e) = (buf', err, r)"
      using Suc.prems by (auto simp: ReadByte_def not_less split: if_splits)
    obtain cs rest where "bs = cs @ rest" "buf' = (buf @ [b]) @ cs" "r = (rest, e)" "\<forall>x \<in> set cs. 33 \<le> x"
      using Suc.IH [OF r] Suc.prems(2) by auto
    then show ?thesis using b Cons by (intro exI [of _ "b # cs"] exI [of _ rest]) simp
  qed (use Suc.prems in \<open>auto simp: ReadByte_def split: if_splits option.splits\<close>)
qed auto

lemma key_file_end_ok: "i \<le> 2 \<Longrightarrow> key_file_end i (data, None) = None \<longleftrightarrow> length data \<le> 2 - i \<and> set data \<subseteq> {10, 13}"
proof (induction data arbitrary: i)
  case (Cons b bs)
  show ?case
  proof (cases "i = 2")
    case False
    then have "key_file_end (i + 1) (bs, None) = None \<longleftrightarrow> length bs \<le> 2 - (i + 1) \<and> set bs \<subseteq> {10, 13}" using Cons by simp
    then show ?thesis using False Cons.prems by (auto simp: key_file_end.simps [of i] ReadByte_def)
  qed (simp add: key_file_end.simps [of 2] ReadByte_def)
qed (simp add: key_file_end.simps [where r = "([], None)"] ReadByte_def)

text \<open>The files that hold a key: its characters, none of them blank, and at most two ends of line.\<close>

definition key_file :: "bytes \<Rightarrow> bytes \<Rightarrow> bool" where
  "key_file buf data \<longleftrightarrow> (\<exists>nl. data = buf @ nl \<and> (\<forall>b \<in> set buf. 33 \<le> b) \<and> length nl \<le> 2 \<and> set nl \<subseteq> {10, 13})"

lemma loadKey_iff:
  assumes "os_fault E file = None" "map_of d file = Some (FileNode m data)"
  shows "loadKey E d file n = Inr buf \<longleftrightarrow> length buf = n \<and> key_file buf data"
proof
  assume l: "loadKey E d file n = Inr buf"
  obtain b err r where r: "readASCII n [] (data, None) = (b, err, r)" by (metis prod_cases3)
  have "err = None" using readASCII_no_error [of n "[]" "(data, None)"] by (simp add: r)
  then have b: "b = buf" "length buf = n" "checkKeyFileEnd r = None"
    using l assms r by (auto simp: loadKey_def os_Open_def split: if_splits option.splits)
  then obtain rest where "data = buf @ rest" "r = (rest, None)" "\<forall>b \<in> set buf. 33 \<le> b" using readASCII_inv [OF r] by auto
  then show "length buf = n \<and> key_file buf data"
    using b key_file_end_ok [of 0 rest] by (auto simp: key_file_def checkKeyFileEnd_def)
next
  assume k: "length buf = n \<and> key_file buf data"
  then obtain nl where "data = buf @ nl" "\<forall>b \<in> set buf. 33 \<le> b" "length nl \<le> 2" "set nl \<subseteq> {10, 13}" by (auto simp: key_file_def)
  then show "loadKey E d file n = Inr buf"
    using k assms readASCII_full [of buf "[]" nl None] key_file_end_ok [of 0 nl] by (simp add: loadKey_def os_Open_def checkKeyFileEnd_def)
qed

definition saved_key :: "nat \<Rightarrow> bytes" where
  "saved_key D = string_bytes (hexEncode (FromECDSA (Some D)))"

lemma load_saved_key:
  assumes "os_fault E file = None" "map_of d file = Some (FileNode m (saved_key D))" "valid_key c D"
  shows "LoadECDSA c E d file = Inr D"
proof -
  have "length (FromECDSA (Some D)) = 32" using assms(3) by (simp add: valid_key_def FromECDSA_bytes)
  then have "length (saved_key D) = 64 \<and> key_file (saved_key D) (saved_key D)"
    using hexEncode_printable by (auto simp: key_file_def saved_key_def)
  then have "loadKey E d file 64 = Inr (saved_key D)" using loadKey_iff [OF assms(1,2)] by blast
  then show ?thesis using toECDSA_FromECDSA [OF assms(3)] by (simp add: LoadECDSA_def saved_key_def HexToECDSA_hex)
qed

subsection \<open>Accounts (keystore/accounts.go, keystore/validator.go)\<close>

definition key_address :: "crypto \<Rightarrow> nat \<Rightarrow> bytes" where
  "key_address c D = PubkeyToAddress c (pubkey_of c (FromECDSA (Some D)))"

record KeyPair =
  kp_Address :: bytes
  kp_Private :: nat

record AccountManager =
  am_store :: "(string, KeyPair) gomap"
  am_list :: "KeyPair list"
  am_keyPath :: string
  am_dataDir :: string

abbreviation (input) ErrEmptyStore :: error where "ErrEmptyStore \<equiv> Sentinel ''Can't save empty store.''"
abbreviation (input) ErrEmptyKeyDir :: error where "ErrEmptyKeyDir \<equiv> Sentinel ''Key dir is empty.''"

definition NewAccountManager :: "string \<Rightarrow> AccountManager" where
  "NewAccountManager dataDir = \<lparr>am_store = [], am_list = [], am_keyPath = '''', am_dataDir = dataDir\<rparr>"

text \<open>\<open>gen\<close> is the result of \<^verbatim>\<open>crypto.GenerateKey\<close>, a random key of the standard library.\<close>

definition CreateAccount :: "crypto \<Rightarrow> error + nat \<Rightarrow> AccountManager \<Rightarrow> (error + string) \<times> AccountManager" where
  "CreateAccount c gen am = (case gen of
     Inl e \<Rightarrow> (Inl e, am)
   | Inr key \<Rightarrow>
     (let addr = key_address c key; hash = Address_Hex addr in
      if ghas (am_store am) hash then (Inl (Errorf (''key '' @ hash @ '' already exists!'')), am)
      else (let kpair = \<lparr>kp_Address = addr, kp_Private = key\<rparr>
            in (Inr hash, am\<lparr>am_store := gput hash kpair (am_store am), am_list := am_list am @ [kpair]\<rparr>))))"

primrec CreatePairs :: "crypto \<Rightarrow> (error + nat) list \<Rightarrow> AccountManager \<Rightarrow> error option \<times> AccountManager" where
  "CreatePairs c [] am = (None, am)"
| "CreatePairs c (gen # gens) am = (case CreateAccount c gen am of
     (Inl e, am) \<Rightarrow> (Some e, am) | (Inr h, am) \<Rightarrow> CreatePairs c gens am)"

definition GetAccounts :: "AccountManager \<Rightarrow> (string, KeyPair) gomap" where
  "GetAccounts am = am_store am"

definition GetPairsList :: "AccountManager \<Rightarrow> KeyPair list \<times> AccountManager" where
  "GetPairsList am =
    (let am = (if length (am_list am) = 0 \<or> length (am_list am) \<noteq> length (am_store am)
               then am\<lparr>am_list := map snd (am_store am)\<rparr> else am)
     in (am_list am, am))"

definition GetKey :: "AccountManager \<Rightarrow> string \<Rightarrow> nat option" where
  "GetKey am addr = map_option kp_Private (map_of (am_store am) addr)"

definition createKeyDir :: "osenv \<Rightarrow> disk \<Rightarrow> AccountManager \<Rightarrow> error option \<times> disk \<times> AccountManager" where
  "createKeyDir E d am = (let keyPath = filepath_Join (am_dataDir am) ''keys'' in
     (case HasDir E d keyPath of
        Inl e \<Rightarrow> (Some e, d, am)
      | Inr hasDir \<Rightarrow>
        (case (if hasDir then Inr d else MkdirAll E d keyPath) of
           Inl e \<Rightarrow> (Some e, d, am)
         | Inr d \<Rightarrow> (None, d, am\<lparr>am_keyPath := keyPath\<rparr>))))"

definition ensureKeyDir :: "osenv \<Rightarrow> disk \<Rightarrow> AccountManager \<Rightarrow> error option \<times> disk \<times> AccountManager" where
  "ensureKeyDir E d am = (if am_keyPath am = '''' then createKeyDir E d am else (None, d, am))"

definition account_file :: "string \<Rightarrow> nat \<Rightarrow> string" where
  "account_file keyPath i = filepath_Join keyPath (''account_'' @ itoa i)"

primrec store_keys :: "osenv \<Rightarrow> string \<Rightarrow> nat \<Rightarrow> KeyPair list \<Rightarrow> disk \<Rightarrow> error option \<times> disk" where
  "store_keys E keyPath i [] d = (None, d)"
| "store_keys E keyPath i (kpair # ks) d = (case SaveECDSA E d (account_file keyPath i) (Some (kp_Private kpair)) of
     Inl e \<Rightarrow> (Some e, d) | Inr d \<Rightarrow> store_keys E keyPath (i + 1) ks d)"

definition StoreToDisk :: "osenv \<Rightarrow> disk \<Rightarrow> AccountManager \<Rightarrow> error option \<times> disk \<times> AccountManager" where
  "StoreToDisk E d am = (case ensureKeyDir E d am of
     (Some e, d, am) \<Rightarrow> (Some e, d, am)
   | (None, d, am) \<Rightarrow>
     if length (am_store am) = 0 then (Some ErrEmptyStore, d, am)
     else (case store_keys E (am_keyPath am) 0 (map snd (am_store am)) d of (err, d) \<Rightarrow> (err, d, am)))"

primrec load_keys ::
  "crypto \<Rightarrow> osenv \<Rightarrow> disk \<Rightarrow> string \<Rightarrow> nat \<Rightarrow> (string \<times> bool) list \<Rightarrow> (string, KeyPair) gomap \<Rightarrow> error option \<times> nat \<times> (string, KeyPair) gomap"
where
  "load_keys c E d keyPath flen [] store = (None, flen, store)"
| "load_keys c E d keyPath flen (f # fs) store =
    (if snd f \<or> hd (fst f) = CHR ''.'' then load_keys c E d keyPath (flen - 1) fs store
     else (case LoadECDSA c E d (filepath_Join keyPath (fst f)) of
         Inl e \<Rightarrow> (Some e, flen, store)
       | Inr key \<Rightarrow> (let addr = key_address c key in
           load_keys c E d keyPath flen fs (gput (Address_Hex addr) \<lparr>kp_Address = addr, kp_Private = key\<rparr> store))))"

definition LoadFromDisk :: "crypto \<Rightarrow> osenv \<Rightarrow> disk \<Rightarrow> AccountManager \<Rightarrow> error option \<times> disk \<times> AccountManager" where
  "LoadFromDisk c E d am = (case ensureKeyDir E d am of
     (Some e, d, am) \<Rightarrow> (Some e, d, am)
   | (None, d, am) \<Rightarrow> (case os_ReadDir E d (am_keyPath am) of
       Inl e \<Rightarrow> (Some e, d, am)
     | Inr files \<Rightarrow>
       if length files = 0 then (Some ErrEmptyKeyDir, d, am)
       else (case load_keys c E d (am_keyPath am) (length files) files (am_store am) of (err, flen, store) \<Rightarrow>
         (if err \<noteq> None then err else if flen = 0 then Some ErrEmptyKeyDir else None, d, am\<lparr>am_store := store\<rparr>))))"

definition GetHexPrivateKey :: "AccountManager \<Rightarrow> string \<Rightarrow> string" where
  "GetHexPrivateKey am pubKey = (case GetKey am pubKey of None \<Rightarrow> '''' | Some key \<Rightarrow> ''0x'' @ hexEncode (FromECDSA (Some key)))"

definition StoreKey :: "osenv \<Rightarrow> disk \<Rightarrow> AccountManager \<Rightarrow> string \<Rightarrow> string \<Rightarrow> error + disk" where
  "StoreKey E d am addr path = (case GetKey am addr of
     None \<Rightarrow> Inl (Errorf ''Undefined key'') | Some key \<Rightarrow> SaveECDSA E d path (Some key))"

text \<open>The account of the validator: the zero account, with a nil key, when there is no key file.\<close>

record ValidatorAccount =
  ac_key :: "nat option"
  ac_addr :: bytes

definition NewValidatorAccount :: "crypto \<Rightarrow> nat \<Rightarrow> ValidatorAccount" where
  "NewValidatorAccount c key = \<lparr>ac_key = Some key, ac_addr = key_address c key\<rparr>"

definition NewValidatorAccountFromFile :: "crypto \<Rightarrow> osenv \<Rightarrow> disk \<Rightarrow> string \<Rightarrow> error + ValidatorAccount" where
  "NewValidatorAccountFromFile c E d path =
    (if \<not> FileExists E d path then Inr \<lparr>ac_key = None, ac_addr = []\<rparr>
     else (case LoadECDSA c E d path of Inl e \<Rightarrow> Inl e | Inr key \<Rightarrow> Inr (NewValidatorAccount c key)))"

subsection \<open>The invariant of the accounts\<close>

definition pair_ok :: "crypto \<Rightarrow> string \<times> KeyPair \<Rightarrow> bool" where
  "pair_ok c p \<longleftrightarrow> (case p of (a, kp) \<Rightarrow> kp_Address kp = key_address c (kp_Private kp) \<and> a = Address_Hex (kp_Address kp) \<and> valid_key c (kp_Private kp))"

definition pairs_ok :: "crypto \<Rightarrow> (string, KeyPair) gomap \<Rightarrow> bool" where
  "pairs_ok c s \<longleftrightarrow> gomap_ok s \<and> (\<forall>p \<in> set s. pair_ok c p)"

definition accounts_ok :: "crypto \<Rightarrow> AccountManager \<Rightarrow> bool" where
  "accounts_ok c am \<longleftrightarrow> pairs_ok c (am_store am)"

definition key_pair :: "crypto \<Rightarrow> nat \<Rightarrow> string \<times> KeyPair" where
  "key_pair c D = (Address_Hex (key_address c D), \<lparr>kp_Address = key_address c D, kp_Private = D\<rparr>)"

lemma pair_ok_iff: "pair_ok c p \<longleftrightarrow> p = key_pair c (kp_Private (snd p)) \<and> valid_key c (kp_Private (snd p))"
proof (cases p)
  case (Pair a kp)
  then show ?thesis by (cases kp) (auto simp: pair_ok_def key_pair_def)
qed

lemma gput_pairs_ok:
  assumes "pairs_ok c s" "valid_key c D"
  shows "pairs_ok c (gput (Address_Hex (key_address c D)) \<lparr>kp_Address = key_address c D, kp_Private = D\<rparr> s)"
proof -
  have "set (gput a v s) \<subseteq> insert (a, v) (set s)" for a v
    by (induction s) auto
  moreover have "pair_ok c (Address_Hex (key_address c D), \<lparr>kp_Address = key_address c D, kp_Private = D\<rparr>)"
    using assms(2) by (simp add: pair_ok_def)
  ultimately show ?thesis using assms(1) distinct_update unfolding pairs_ok_def by blast
qed

lemma LoadECDSA_valid: "LoadECDSA c E d file = Inr D \<Longrightarrow> valid_key c D"
  using FromECDSA_toECDSA by (auto simp: LoadECDSA_def HexToECDSA_def ToECDSA_def split: sum.splits prod.splits if_splits)

lemma CreateAccount_ok:
  "accounts_ok c am \<Longrightarrow> (\<And>D. gen = Inr D \<Longrightarrow> valid_key c D) \<Longrightarrow> accounts_ok c (snd (CreateAccount c gen am))"
  by (simp add: accounts_ok_def CreateAccount_def Let_def gput_pairs_ok split: sum.split)

lemma load_keys_ok: "pairs_ok c store \<Longrightarrow> pairs_ok c (snd (snd (load_keys c E d kp n fs store)))"
proof (induction fs arbitrary: n store)
  case (Cons f fs)
  show ?case
  proof (cases "LoadECDSA c E d (filepath_Join kp (fst f))")
    case (Inr D)
    show ?thesis using Cons.IH Cons.prems gput_pairs_ok [OF Cons.prems LoadECDSA_valid [OF Inr]] Inr by (simp add: Let_def)
  qed (use Cons in simp)
qed simp

lemma ensureKeyDir_store: "ensureKeyDir E d am = (e, d', am') \<Longrightarrow> am_store am' = am_store am"
  by (auto simp: ensureKeyDir_def createKeyDir_def Let_def split: if_splits sum.splits)

lemma LoadFromDisk_ok: "accounts_ok c am \<Longrightarrow> accounts_ok c (snd (snd (LoadFromDisk c E d am)))"
proof -
  assume ok: "accounts_ok c am"
  obtain e d1 am1 where k: "ensureKeyDir E d am = (e, d1, am1)" by (metis prod_cases3)
  have "pairs_ok c (am_store am1)" using ok ensureKeyDir_store [OF k] by (simp add: accounts_ok_def)
  then show ?thesis using load_keys_ok unfolding LoadFromDisk_def k accounts_ok_def
    by (simp add: case_prod_beta split: option.split sum.split)
qed

subsection \<open>Saving and loading all accounts\<close>

definition account_node :: "string \<Rightarrow> nat \<times> KeyPair \<Rightarrow> string \<times> fnode" where
  "account_node kp p = (account_file kp (fst p), FileNode ReadWritePermissions (saved_key (kp_Private (snd p))))"

lemma account_file_inj [simp]: "account_file kp i = account_file kp j \<longleftrightarrow> i = j"
  by (auto simp: account_file_def filepath_Join_def split: if_splits)

lemma gput_fresh: "map_of s a = None \<Longrightarrow> gput a v s = s @ [(a, v)]"
  by (induction s) (auto split: if_splits)

lemma store_keys_fresh:
  assumes "\<forall>p. os_fault E p = None" "\<forall>j \<ge> i. map_of d (account_file kp j) = None"
  shows "store_keys E kp i ks d = (None, d @ map (account_node kp) (enumerate i ks))"
  using assms(2)
proof (induction ks arbitrary: i d)
  case (Cons k ks)
  define d1 where "d1 = d @ [account_node kp (i, k)]"
  have "SaveECDSA E d (account_file kp i) (Some (kp_Private k)) = Inr d1"
    using assms(1) Cons.prems by (simp add: SaveECDSA_def os_WriteFile_def gput_fresh d1_def account_node_def saved_key_def Let_def)
  moreover have "\<forall>j \<ge> i + 1. map_of d1 (account_file kp j) = None" using Cons.prems by (simp add: d1_def account_node_def map_add_def)
  then have "store_keys E kp (i + 1) ks d1 = (None, d1 @ map (account_node kp) (enumerate (i + 1) ks))" by (rule Cons.IH)
  ultimately show ?case by (simp add: d1_def)
qed simp

lemma load_keys_all:
  assumes "\<forall>f \<in> set fs. \<not> snd f \<and> hd (fst f) \<noteq> CHR ''.'' \<and> LoadECDSA c E d (filepath_Join kp (fst f)) = Inr (k (fst f))"
  shows "load_keys c E d kp n fs store = (None, n, fold (\<lambda>p s. gput (fst p) (snd p) s) (map (\<lambda>f. key_pair c (k (fst f))) fs) store)"
  using assms by (induction fs arbitrary: store) (auto simp: key_pair_def Let_def)

lemma map_of_gput_pairs: "map_of (fold (\<lambda>p s. gput (fst p) (snd p) s) ps s) = map_of s ++ map_of (rev ps)"
  by (induction ps arbitrary: s) (auto simp: update_conv' map_add_def fun_eq_iff split: option.splits)

definition key_dir :: "string \<Rightarrow> string" where
  "key_dir dataDir = filepath_Join dataDir ''keys''"

text \<open>A data directory that holds no keys yet: its key directory is missing or empty.\<close>

definition no_keys :: "osenv \<Rightarrow> disk \<Rightarrow> string \<Rightarrow> bool" where
  "no_keys E d dataDir \<longleftrightarrow> os_expand E (key_dir dataDir) = Inr (key_dir dataDir) \<and> dir_names d (key_dir dataDir) = [] \<and>
     (case map_of d (key_dir dataDir) of None \<Rightarrow> True | Some (DirNode m) \<Rightarrow> True | Some (FileNode m b) \<Rightarrow> False)"

lemma dir_names_append: "dir_names (d @ d') dir = dir_names d dir @ dir_names d' dir"
  by (simp add: dir_names_def)

lemma dir_names_self: "dir_names [(dir, n)] dir = []"
  by (simp add: dir_names_def)

lemma key_dir_ne: "key_dir dataDir \<noteq> ''''"
  by (simp add: key_dir_def filepath_Join_def)

lemma account_file_split: "kp \<noteq> '''' \<Longrightarrow> account_file kp i = kp @ ''/'' @ ''account_'' @ itoa i"
  by (simp add: account_file_def filepath_Join_def)

lemma itoa_no_slash: "CHR ''/'' \<notin> set (itoa n)"
proof (induction n rule: itoa.induct)
  case (1 n)
  have "hexDigit k \<noteq> CHR ''/''" if "k < 10" for k
    using that by (auto simp: hexDigit_def less_Suc_eq numeral_eq_Suc)
  moreover have "n mod 10 < 10" by simp
  ultimately show ?case using 1 by (auto simp: itoa.simps [of n] dest: sym)
qed

lemma dir_names_nodes:
  "kp \<noteq> '''' \<Longrightarrow> dir_names (map (account_node kp) ps) kp = map (\<lambda>p. (''account_'' @ itoa (fst p), False)) ps"
  by (induction ps) (auto simp: dir_names_def account_node_def account_file_split itoa_no_slash)

lemma no_keys_fresh: "kp \<noteq> '''' \<Longrightarrow> dir_names d kp = [] \<Longrightarrow> map_of d (account_file kp i) = None"
proof (rule ccontr)
  assume kp: "kp \<noteq> ''''" and e: "dir_names d kp = []" and "map_of d (account_file kp i) \<noteq> None"
  then obtain n where "(account_file kp i, n) \<in> set d" by (auto dest: map_of_SomeD)
  then have "dir_names d kp \<noteq> []" using kp by (force simp: dir_names_def filter_empty_conv account_file_split itoa_no_slash)
  then show False using e by blast
qed

lemma createKeyDir_no_keys:
  assumes nk: "no_keys E d (am_dataDir am)" and nf: "\<forall>p. os_fault E p = None" and "am_keyPath am = ''''"
  shows "\<exists>d1 m. ensureKeyDir E d am = (None, d1, am\<lparr>am_keyPath := key_dir (am_dataDir am)\<rparr>) \<and>
    dir_names d1 (key_dir (am_dataDir am)) = [] \<and> map_of d1 (key_dir (am_dataDir am)) = Some (DirNode m)"
proof (cases "map_of d (key_dir (am_dataDir am))")
  case None
  define d1 where "d1 = d @ [(key_dir (am_dataDir am), DirNode ReadWriteExecutePermissions)]"
  have "HasDir E d (key_dir (am_dataDir am)) = Inr False" "MkdirAll E d (key_dir (am_dataDir am)) = Inr d1"
    using nk nf None by (simp_all add: HasDir_def MkdirAll_def no_keys_def os_Stat_def os_MkdirAll_def gput_fresh d1_def)
  moreover have "dir_names d1 (key_dir (am_dataDir am)) = []" "map_of d1 (key_dir (am_dataDir am)) = Some (DirNode 448)"
    using nk None by (simp_all add: d1_def dir_names_append dir_names_self no_keys_def map_add_def)
  ultimately show ?thesis using assms(3) by (simp add: ensureKeyDir_def createKeyDir_def Let_def key_dir_def [symmetric])
next
  case (Some n)
  then obtain m where "n = DirNode m" using nk by (cases n) (auto simp: no_keys_def)
  then show ?thesis using assms Some
    by (simp add: ensureKeyDir_def createKeyDir_def HasDir_def no_keys_def os_Stat_def Let_def key_dir_def [symmetric])
qed

lemma ensureKeyDir_exists:
  assumes "os_expand E (key_dir (am_dataDir am)) = Inr (key_dir (am_dataDir am))" "\<forall>p. os_fault E p = None"
    "map_of d (key_dir (am_dataDir am)) = Some (DirNode m)" "am_keyPath am = ''''"
  shows "ensureKeyDir E d am = (None, d, am\<lparr>am_keyPath := key_dir (am_dataDir am)\<rparr>)"
  using assms by (simp add: ensureKeyDir_def createKeyDir_def HasDir_def os_Stat_def Let_def key_dir_def [symmetric])

lemma enumerate_map: "enumerate i ks = map (\<lambda>j. (i + j, ks ! j)) [0..<length ks]"
  by (rule nth_equalityI) (simp_all add: nth_enumerate_eq)

lemma map_of_rev_mset: "mset xs = mset ys \<Longrightarrow> distinct (map fst ys) \<Longrightarrow> map_of (rev xs) = map_of ys"
proof -
  assume m: "mset xs = mset ys" and d: "distinct (map fst ys)"
  have "mset (map fst (rev xs)) = mset (map fst ys)" using m by simp
  then have "distinct (map fst (rev xs))" using d mset_eq_imp_distinct_iff by blast
  moreover have "set (rev xs) = set ys" using mset_eq_setD [OF m] by simp
  ultimately show ?thesis using d map_of_inject_set by blast
qed

lemma saved_node:
  assumes "kp \<noteq> ''''" "dir_names d kp = []" "d1 = d @ map (account_node kp) (enumerate 0 (map snd store))" "j < length store"
  shows "map_of d1 (account_file kp j) = Some (FileNode ReadWritePermissions (saved_key (kp_Private (snd (store ! j)))))"
proof -
  have "distinct (map fst (map (account_node kp) (enumerate 0 (map snd store))))"
    by (simp add: enumerate_map account_node_def comp_def distinct_map inj_on_def)
  moreover have "account_node kp (j, snd (store ! j)) \<in> set (map (account_node kp) (enumerate 0 (map snd store)))"
    using assms(4) by (auto simp: enumerate_map)
  ultimately have "map_of (map (account_node kp) (enumerate 0 (map snd store))) (account_file kp j)
    = Some (FileNode ReadWritePermissions (saved_key (kp_Private (snd (store ! j)))))"
    by (intro map_of_is_SomeI) (simp_all add: account_node_def)
  then show ?thesis by (simp add: assms(3) map_add_def no_keys_fresh [OF assms(1,2)])
qed

lemma loaded_accounts:
  assumes ok: "pairs_ok c store" and nf: "\<forall>p. os_fault E p = None" and kp: "kp \<noteq> ''''" and fresh: "dir_names d kp = []"
    and d1: "d1 = d @ map (account_node kp) (enumerate 0 (map snd store))"
    and fs: "fs = sort_key fst (dir_names d1 kp)"
  shows "\<exists>s. load_keys c E d1 kp n fs [] = (None, n, s) \<and> length fs = length store \<and> map_of s = map_of store"
proof -
  define k where "k name = kp_Private (snd (store ! atoi (drop 8 name)))" for name :: string
  have "dir_names d1 kp = map (\<lambda>j. (''account_'' @ itoa j, False)) [0..<length store]"
    by (simp add: d1 dir_names_append fresh dir_names_nodes [OF kp]) (simp add: enumerate_map)
  then have "mset fs = mset (map (\<lambda>j. (''account_'' @ itoa j, False)) [0..<length store])" by (simp add: fs)
  note ms = this
  have set_fs: "set fs = (\<lambda>j. (''account_'' @ itoa j, False)) ` {0..<length store}" and len: "length fs = length store"
    using mset_eq_setD [OF ms] mset_eq_length [OF ms] by simp_all
  have "mset (map (\<lambda>f. key_pair c (k (fst f))) fs) = image_mset (\<lambda>f. key_pair c (k (fst f))) (mset fs)" by simp
  also have "\<dots> = mset (map (\<lambda>j. key_pair c (k (''account_'' @ itoa j))) [0..<length store])" unfolding ms by (simp add: image_mset.compositionality comp_def)
  finally have pm: "mset (map (\<lambda>f. key_pair c (k (fst f))) fs) = mset (map (\<lambda>j. key_pair c (k (''account_'' @ itoa j))) [0..<length store])" .
  have entry: "key_pair c (kp_Private (snd (store ! j))) = store ! j" "valid_key c (kp_Private (snd (store ! j)))" if "j < length store" for j
    using ok that pair_ok_iff [of c "store ! j"] by (simp_all add: pairs_ok_def)
  have ld: "LoadECDSA c E d1 (account_file kp j) = Inr (kp_Private (snd (store ! j)))" if "j < length store" for j
    using load_saved_key [OF _ saved_node [OF kp fresh d1 that] entry(2) [OF that]] nf by blast
  have "\<forall>f \<in> set fs. \<not> snd f \<and> hd (fst f) \<noteq> CHR ''.'' \<and> LoadECDSA c E d1 (filepath_Join kp (fst f)) = Inr (k (fst f))"
    using ld by (auto simp: set_fs k_def account_file_def)
  note load = load_keys_all [OF this, of n "[]"]
  have "map (\<lambda>j. key_pair c (k (''account_'' @ itoa j))) [0..<length store] = store"
    by (rule nth_equalityI) (simp_all add: k_def entry)
  then have "mset (map (\<lambda>f. key_pair c (k (fst f))) fs) = mset store" using pm by simp
  then have "map_of (rev (map (\<lambda>f. key_pair c (k (fst f))) fs)) = map_of store"
    using ok map_of_rev_mset unfolding pairs_ok_def by blast
  then show ?thesis using load len by (simp add: map_of_gput_pairs)
qed

text \<open>
  C20. A key store saved to a data directory without keys is found again: \<open>StoreToDisk\<close> succeeds, and a new account manager on the same
  data directory loads exactly the same accounts, with their addresses and keys, whatever the order of the map when they were written
  and of the file names when they are read.
\<close>

theorem accounts_saved_and_loaded:
  assumes "accounts_ok c am" "am_store am \<noteq> []" "am_keyPath am = ''''" "no_keys E d (am_dataDir am)" "\<forall>p. os_fault E p = None"
  shows "\<exists>d' am' am''. StoreToDisk E d am = (None, d', am') \<and>
    LoadFromDisk c E d' (NewAccountManager (am_dataDir am)) = (None, d', am'') \<and>
    map_of (am_store am'') = map_of (am_store am) \<and> accounts_ok c am''"
proof -
  define kp where "kp = key_dir (am_dataDir am)"
  define new where "new = NewAccountManager (am_dataDir am)"
  have ne: "kp \<noteq> ''''" by (simp add: kp_def key_dir_ne)
  obtain d1 m where k: "ensureKeyDir E d am = (None, d1, am\<lparr>am_keyPath := kp\<rparr>)" and e: "dir_names d1 kp = []" "map_of d1 kp = Some (DirNode m)"
    using createKeyDir_no_keys [OF assms(4,5,3)] unfolding kp_def by blast
  define d2 where "d2 = d1 @ map (account_node kp) (enumerate 0 (map snd (am_store am)))"
  have "store_keys E kp 0 (map snd (am_store am)) d1 = (None, d2)"
    using store_keys_fresh [OF assms(5)] no_keys_fresh [OF ne e(1)] unfolding d2_def by blast
  then have st: "StoreToDisk E d am = (None, d2, am\<lparr>am_keyPath := kp\<rparr>)" using assms(2) by (simp add: StoreToDisk_def k)
  have "kp \<notin> fst ` set (map (account_node kp) ps)" for ps by (auto simp: account_node_def account_file_split [OF ne])
  then have "map_of (map (account_node kp) ps) kp = None" for ps unfolding map_of_eq_None_iff by blast
  then have dir: "map_of d2 kp = Some (DirNode m)" using e(2) by (simp add: d2_def map_add_def)
  have k2: "ensureKeyDir E d2 new = (None, d2, new\<lparr>am_keyPath := kp\<rparr>)"
    using ensureKeyDir_exists [of E new d2 m] assms(4,5) dir by (simp add: no_keys_def new_def NewAccountManager_def kp_def)
  define fs where "fs = sort_key fst (dir_names d2 kp)"
  obtain s where "load_keys c E d2 kp (length fs) fs [] = (None, length fs, s)" "length fs = length (am_store am)" "map_of s = map_of (am_store am)"
    using loaded_accounts [OF _ assms(5) ne e(1) d2_def fs_def] assms(1) unfolding accounts_ok_def by blast
  then have ld: "LoadFromDisk c E d2 new = (None, d2, new\<lparr>am_keyPath := kp, am_store := s\<rparr>)"
    using assms(2,5) dir by (simp add: LoadFromDisk_def k2 os_ReadDir_def fs_def [symmetric]) (simp add: new_def NewAccountManager_def)
  have "accounts_ok c new" by (simp add: accounts_ok_def pairs_ok_def new_def NewAccountManager_def)
  then have "accounts_ok c (new\<lparr>am_keyPath := kp, am_store := s\<rparr>)" using LoadFromDisk_ok [of c new E d2] by (simp add: ld)
  then show ?thesis using st ld \<open>map_of s = map_of (am_store am)\<close> unfolding new_def by fastforce
qed

definition demo_os :: osenv where
  "demo_os = \<lparr>os_expand = Inr, os_fault = (\<lambda>p. None)\<rparr>"

definition demo_accounts :: AccountManager where
  "demo_accounts = snd (CreateAccount demo_crypto (Inr 5) (NewAccountManager ''data''))"

lemma demo_accounts_ok: "accounts_ok demo_crypto demo_accounts"
proof -
  have "valid_key demo_crypto 5" by (simp add: valid_key_def FromECDSA_bytes demo_crypto_def SetBytes_def secp256k1N_def)
  moreover have "accounts_ok demo_crypto (NewAccountManager ''data'')" by (simp add: accounts_ok_def pairs_ok_def NewAccountManager_def)
  ultimately show ?thesis unfolding demo_accounts_def by (intro CreateAccount_ok) auto
qed

theorem accounts_saved_and_loaded_witness:
  "\<exists>d' am' am''. StoreToDisk demo_os [] demo_accounts = (None, d', am') \<and>
    LoadFromDisk demo_crypto demo_os d' (NewAccountManager ''data'') = (None, d', am'') \<and>
    map_of (am_store am'') = map_of (am_store demo_accounts) \<and> accounts_ok demo_crypto am''"
proof -
  have dd: "am_dataDir demo_accounts = ''data''" "am_keyPath demo_accounts = ''''" "am_store demo_accounts \<noteq> []"
    by (simp_all add: demo_accounts_def CreateAccount_def NewAccountManager_def Let_def ghas_def)
  moreover have "no_keys demo_os [] ''data''" "\<forall>p. os_fault demo_os p = None" by (simp_all add: no_keys_def demo_os_def dir_names_def)
  ultimately show ?thesis using accounts_saved_and_loaded [OF demo_accounts_ok, of demo_os "[]"] by simp
qed

text \<open>
  The file names start at zero in every session, so that a manager which has not loaded the directory first replaces the keys that are
  there: its first key ends up in the file of the first key of the earlier session.
\<close>

lemma store_overwrites:
  assumes "\<forall>p. os_fault E p = None" "map_of d (account_file kp 0) = Some (FileNode m old)"
  shows "map_of (snd (store_keys E kp 0 [k] d)) (account_file kp 0) = Some (FileNode m (saved_key (kp_Private k)))"
  using assms by (simp add: SaveECDSA_def os_WriteFile_def saved_key_def Let_def update_conv')

subsection \<open>The signature scheme (crypto.go, signature\_cgo.go)\<close>

text \<open>
  The functions of the package \<^verbatim>\<open>crypto\<close> over the calls of the C library.  A public key is given by its coordinates, which may be nil.
\<close>

definition UnmarshalPubkey :: "bytes \<Rightarrow> error + (int \<times> int)" where
  "UnmarshalPubkey pub = (case elliptic_Unmarshal theCurve pub of
     None \<Rightarrow> Inl (Sentinel ''invalid secp256k1 public keyAcc'') | Some p \<Rightarrow> Inr p)"

definition FromECDSAPub :: "(int \<times> int) option \<Rightarrow> error + bytes" where
  "FromECDSAPub pub = (case pub of None \<Rightarrow> Inr [] | Some (x, y) \<Rightarrow> elliptic_Marshal theCurve x y)"

definition Ecrecover :: "secp_lib \<Rightarrow> bytes \<Rightarrow> bytes \<Rightarrow> error + bytes" where
  "Ecrecover L hash sig = RecoverPubkey L hash sig"

definition SigToPubkey :: "secp_lib \<Rightarrow> bytes \<Rightarrow> bytes \<Rightarrow> error + (int \<times> int) option" where
  "SigToPubkey L hash sig = (case Ecrecover L hash sig of Inl e \<Rightarrow> Inl e | Inr s \<Rightarrow> Inr (elliptic_Unmarshal theCurve s))"

definition CompressPubkey :: "secp_lib \<Rightarrow> int \<times> int \<Rightarrow> error + bytes" where
  "CompressPubkey L pubkey = secp_CompressPubkey L (fst pubkey) (snd pubkey)"

definition crypto_Sign :: "secp_lib \<Rightarrow> bytes \<Rightarrow> nat \<Rightarrow> error + bytes" where
  "crypto_Sign L digestHash D =
    (if length digestHash \<noteq> 32 then Inl (Errorf ''hash is required to be exactly 32 bytes'')
     else (let seckey = PaddedBigBytes D (256 div 8) in secp_Sign L digestHash seckey))"

definition VerifySignature :: "secp_lib \<Rightarrow> bytes \<Rightarrow> bytes \<Rightarrow> bytes \<Rightarrow> bool" where
  "VerifySignature L pubkey digestHash signature = secp_VerifySignature L pubkey digestHash signature"

text \<open>
  \<open>crypto_of\<close> makes the parameters of the rest of the development from these functions: a key is the 32 bytes of its number, a public key
  its uncompressed encoding, and the empty encoding a public key without coordinates.
\<close>

definition public_key :: "secp_lib \<Rightarrow> bytes \<Rightarrow> bytes" where
  "public_key L d = (case ScalarBaseMult L theCurve d of
     Inl e \<Rightarrow> []
   | Inr p \<Rightarrow> (case FromECDSAPub p of Inl e \<Rightarrow> [] | Inr b \<Rightarrow> b))"

definition crypto_of :: "secp_lib \<Rightarrow> crypto \<Rightarrow> crypto" where
  "crypto_of L c = c\<lparr>
     secp_sign := (\<lambda>digest key. crypto_Sign L digest (big_SetBytes key)),
     ecrecover := (\<lambda>hash sig. case SigToPubkey L hash sig of Inl e \<Rightarrow> Inl e | Inr p \<Rightarrow> FromECDSAPub p),
     pubkey_of := (\<lambda>key. public_key L (FromECDSA (Some (big_SetBytes key))))\<rparr>"

text \<open>
  What the documentation of libsecp256k1 says of the functions used: a signature under a valid key is 64 bytes and a recovery id from 0
  to 3; recovering from it gives the uncompressed encoding of the public key; the public key is the base point times the key, a point of the curve.
\<close>

definition lib_point :: "bytes \<Rightarrow> bool" where
  "lib_point pt \<longleftrightarrow> elliptic_Unmarshal theCurve (4 # pt) \<noteq> None"

definition lib_laws :: "secp_lib \<Rightarrow> bool" where
  "lib_laws L \<longleftrightarrow> (\<forall>msg key sig recid. length msg = 32 \<and> length key = 32 \<and> lib_seckey_verify L key \<and>
     lib_sign_recoverable L msg key = Some (sig, recid) \<longrightarrow>
     length sig = 64 \<and> 0 \<le> recid \<and> recid < 4 \<and>
     (\<exists>pt. lib_scalar_mul L (drop 1 (Marshal theCurve (cu_Gx theCurve) (cu_Gy theCurve))) key = Some pt \<and> lib_point pt \<and>
        lib_recover L (sig @ [word_of_int recid]) msg = Some (4 # pt)))"

lemma lib_point_coordinates:
  assumes "lib_point pt"
  shows "FromECDSAPub (Some (int (big_SetBytes (take 32 pt)), int (big_SetBytes (drop 32 pt)))) = Inr (4 # pt)"
    "elliptic_Unmarshal theCurve (4 # pt) = Some (int (big_SetBytes (take 32 pt)), int (big_SetBytes (drop 32 pt)))"
proof -
  show u: "elliptic_Unmarshal theCurve (4 # pt) = Some (int (big_SetBytes (take 32 pt)), int (big_SetBytes (drop 32 pt)))"
    using assms by (auto simp: lib_point_def elliptic_Unmarshal_def Unmarshal_def Let_def split: if_splits)
  show "FromECDSAPub (Some (int (big_SetBytes (take 32 pt)), int (big_SetBytes (drop 32 pt)))) = Inr (4 # pt)"
    using elliptic_roundtrip [OF u] by (simp add: FromECDSAPub_def)
qed

lemma recid_byte: "0 \<le> r \<Longrightarrow> r < 4 \<Longrightarrow> (word_of_int r :: byte) < 4"
  by (simp add: word_less_def unsigned_of_int take_bit_int_eq_self)

lemma signature_recovers:
  assumes laws: "lib_laws L" and sign: "crypto_Sign L d D = Inr s"
  shows "length s = SignatureLength \<and> (\<exists>pt. public_key L (FromECDSA (Some D)) = 4 # pt \<and> lib_point pt \<and> SigToPubkey L d s = Inr (elliptic_Unmarshal theCurve (4 # pt)))"
proof -
  define key where "key = FromECDSA (Some D)"
  obtain sig r where k: "length d = 32" "length key = 32" "lib_seckey_verify L key" "lib_sign_recoverable L d key = Some (sig, r)"
    and s: "s = sig @ [word_of_int r]"
    using sign by (auto simp: crypto_Sign_def secp_Sign_def key_def FromECDSA_def Let_def split: if_splits option.splits)
  obtain pt where l: "length sig = 64" "0 \<le> r" "r < 4" and pt: "lib_point pt" "lib_recover L s d = Some (4 # pt)"
    "lib_scalar_mul L (drop 1 (Marshal theCurve (cu_Gx theCurve) (cu_Gy theCurve))) key = Some pt"
    using laws k unfolding lib_laws_def s by blast
  have "checkSignature s = None" using l recid_byte [of r] by (simp add: checkSignature_def s nth_append not_le)
  then have "SigToPubkey L d s = Inr (elliptic_Unmarshal theCurve (4 # pt))"
    using k(1) pt(2) by (simp add: SigToPubkey_def Ecrecover_def RecoverPubkey_def)
  moreover have "public_key L key = 4 # pt"
    using pt(3) k(2) lib_point_coordinates(1) [OF pt(1)] by (simp add: public_key_def ScalarBaseMult_def ScalarMult_point)
  ultimately show ?thesis using pt(1) l(1) by (auto simp: key_def s)
qed

text \<open>
  C19. The package's own code turns the documented behaviour of the C library into the contract that the rest of the node relies on: every
  signature it returns has 65 bytes and recovers the encoded public key of the signer, because keys are padded to 32 bytes before they are
  signed with or multiplied, the recovery id is appended and checked, and encoding and decoding of points invert each other.
\<close>

theorem signature_contract:
  assumes "lib_laws L"
  shows "secp_laws (crypto_of L c)"
proof -
  have "length s = SignatureLength \<and> ecrecover (crypto_of L c) d s = Inr (pubkey_of (crypto_of L c) k)"
    if s: "secp_sign (crypto_of L c) d k = Inr s" for d k s
  proof -
    have "crypto_Sign L d (big_SetBytes k) = Inr s" using s by (simp add: crypto_of_def)
    then obtain pt where "length s = SignatureLength" "public_key L (FromECDSA (Some (big_SetBytes k))) = 4 # pt" "lib_point pt"
      "SigToPubkey L d s = Inr (elliptic_Unmarshal theCurve (4 # pt))" using signature_recovers [OF assms] by blast
    then show ?thesis using lib_point_coordinates [of pt] by (simp add: crypto_of_def)
  qed
  then show ?thesis unfolding secp_laws_def by blast
qed

definition demo_lib :: secp_lib where
  "demo_lib = (let G = drop 1 (Marshal theCurve (cu_Gx theCurve) (cu_Gy theCurve)) in
     \<lparr>lib_seckey_verify = (\<lambda>k. True), lib_sign_recoverable = (\<lambda>m k. Some (replicate 64 0, 1)), lib_recover = (\<lambda>s m. Some (4 # G)),
      lib_verify = (\<lambda>s m k. True), lib_scalar_mul = (\<lambda>p k. Some G), lib_reencode_pubkey = (\<lambda>n k. None)\<rparr>)"

lemma base_point_lib: "lib_point (drop 1 (Marshal theCurve (cu_Gx theCurve) (cu_Gy theCurve)))"
proof -
  have "Unmarshal theCurve (Marshal theCurve (cu_Gx theCurve) (cu_Gy theCurve)) = Some (cu_Gx theCurve, cu_Gy theCurve)"
    by (rule Unmarshal_Marshal) (simp_all add: theCurve_def)
  moreover have "4 # drop 1 (Marshal theCurve (cu_Gx theCurve) (cu_Gy theCurve)) = Marshal theCurve (cu_Gx theCurve) (cu_Gy theCurve)"
    by (simp add: Marshal_bytes Let_def)
  ultimately show ?thesis using base_point by (simp add: lib_point_def elliptic_Unmarshal_def) (simp add: theCurve_def)
qed

theorem signature_contract_witness:
  "lib_laws demo_lib \<and> secp_laws (crypto_of demo_lib demo_crypto) \<and> secp_sign (crypto_of demo_lib demo_crypto) (replicate 32 7) [5] \<noteq> Inl ErrInvalidKey"
proof -
  have "lib_laws demo_lib" using base_point_lib by (simp add: lib_laws_def demo_lib_def Let_def)
  moreover have "crypto_Sign demo_lib (replicate 32 7) 5 = Inr (replicate 64 0 @ [1])"
    using PaddedBigBytes_fits [of 5 32] by (simp add: crypto_Sign_def secp_Sign_def demo_lib_def Let_def)
  ultimately show ?thesis using signature_contract [of demo_lib demo_crypto] by (simp add: crypto_of_def big_SetBytes_def)
qed

end
