(* ===== verification/Wire.thy ===== *)
theory Wire
  imports Ssz Keys
begin

text \<open>
  Messages on a stream between two nodes (\<^verbatim>\<open>p2p/decoder.go\<close>, \<open>EncodeStream\<close>, \<open>DecodeStream\<close> and \<open>CreateStream\<close> of \<^verbatim>\<open>p2p/service.go\<close>,
  \<^verbatim>\<open>blockchain/sync/stream.go\<close>) and the names of topics and protocols (\<^verbatim>\<open>p2p/topics.go\<close>): a message is its length as a
  variable-length integer and its SSZ bytes in the framing format of snappy.  A stream is what is left to read of it, with the
  error that ends it.  Libp2p and snappy are third-party libraries: what they answer is an argument, and \<open>snappy_laws\<close> is what
  the framing format documents.  Shown: what is encoded is decoded again, whatever follows it on the stream, and nothing that
  announces more than a mebibyte is read.
\<close>

subsection \<open>Variable-length integers (decoder.go and protowire)\<close>

fun AppendVarint :: "nat \<Rightarrow> bytes" where
  "AppendVarint v = (if v < 128 then [word_of_nat v] else word_of_nat (v mod 128 + 128) # AppendVarint (v div 128))"

declare AppendVarint.simps [simp del]

fun consume_varint :: "nat \<Rightarrow> nat \<Rightarrow> bytes \<Rightarrow> (nat \<times> nat) option" where
  "consume_varint i v [] = None"
| "consume_varint i v (y # ys) = (let v = v + unat y * 128 ^ i in
     if i = 9 then (if y < 2 then Some (v, 10) else None)
     else if y < 128 then Some (v, i + 1)
     else consume_varint (i + 1) (v - 128 * 128 ^ i) ys)"

definition ConsumeVarint :: "bytes \<Rightarrow> (nat \<times> nat) option" where
  "ConsumeVarint b = consume_varint 0 0 b"

abbreviation (input) maxVarintLength :: nat where "maxVarintLength \<equiv> 10"

definition errExcessMaxLength :: error where
  "errExcessMaxLength = Sentinel ''provided header exceeds the max varint length of 10 bytes''"

text \<open>The loop of \<open>readVarint\<close>; \<open>k\<close> is the number of rounds that are left.\<close>

primrec varint_bytes :: "nat \<Rightarrow> bytes \<Rightarrow> reader \<Rightarrow> error + bytes \<times> reader" where
  "varint_bytes 0 b r = Inr (b, r)"
| "varint_bytes (Suc k) b r = (case ReadByte r of
     (b1, Some e, r) \<Rightarrow> Inl e
   | (b1, None, r) \<Rightarrow>
     (let b = b @ [b1] in
      if b1 < 128 then Inr (b, r) else if k = 0 then Inl errExcessMaxLength else varint_bytes k b r))"

definition readVarint :: "reader \<Rightarrow> error + nat \<times> reader" where
  "readVarint r = (case varint_bytes maxVarintLength [] r of
     Inl e \<Rightarrow> Inl e
   | Inr (b, r) \<Rightarrow> (case ConsumeVarint b of
       Some (vi, n) \<Rightarrow> if n \<noteq> length b then Inl (Errorf ''varint did not decode entire byte slice'') else Inr (vi, r)
     | None \<Rightarrow> Inl (Errorf ''varint did not decode entire byte slice'')))"

definition writeVarint :: "nat \<Rightarrow> bytes" where
  "writeVarint n = AppendVarint n"

lemma small_byte: "v < 256 \<Longrightarrow> unat (word_of_nat v :: byte) = v"
  by (simp add: unat_of_nat)

lemma byte_less: "v < 256 \<Longrightarrow> k < 256 \<Longrightarrow> (word_of_nat v :: byte) < word_of_nat k \<longleftrightarrow> v < k"
  by (simp add: word_less_nat_alt unat_of_nat)

lemma varint_high: "\<not> word_of_nat (v mod 128 + 128) < (128 :: byte)"
  using byte_less [of "v mod 128 + 128" 128] by simp

lemma consume_AppendVarint:
  "v * 128 ^ i < 2 ^ 64 \<Longrightarrow> i \<le> 9 \<Longrightarrow> consume_varint i acc (AppendVarint v) = Some (acc + v * 128 ^ i, i + length (AppendVarint v))"
proof (induction v arbitrary: i acc rule: AppendVarint.induct)
  case (1 v)
  show ?case
  proof (cases "v < 128")
    case True
    have "i = 9 \<Longrightarrow> v < 2" using "1.prems"(1) by simp
    then show ?thesis using True byte_less [of v 2] byte_less [of v 128] by (simp add: AppendVarint.simps [of v] small_byte Let_def)
  next
    case False
    have "i \<noteq> 9" using "1.prems"(1) False by auto
    moreover have "v div 128 * 128 ^ (i + 1) \<le> v * 128 ^ i" by (simp add: div_times_less_eq_dividend)
    ultimately have "consume_varint (i + 1) a (AppendVarint (v div 128)) = Some (a + v div 128 * 128 ^ (i + 1), i + 1 + length (AppendVarint (v div 128)))" for a
      using "1.prems" by (intro "1.IH" [OF False]) (rule order.strict_trans1, assumption+, simp)
    moreover have "acc + (v mod 128 + 128) * 128 ^ i - 128 * 128 ^ i + v div 128 * 128 ^ (i + 1) = acc + v * 128 ^ i"
    proof -
      define r q where "r = v mod 128" and "q = v div 128"
      have "v = r + 128 * q" by (simp add: r_def q_def)
      then have "v * 128 ^ i = r * 128 ^ i + 128 * (q * 128 ^ i)" by (simp add: algebra_simps)
      then show ?thesis by (simp add: r_def [symmetric] q_def [symmetric] algebra_simps)
    qed
    moreover define y :: byte where "y = word_of_nat (v mod 128 + 128)"
    have "unat y = v mod 128 + 128" "\<not> y < 128" "AppendVarint v = y # AppendVarint (v div 128)"
      using False varint_high [of v] small_byte [of "v mod 128 + 128"] unfolding y_def by (simp_all add: AppendVarint.simps [of v])
    ultimately show ?thesis using \<open>i \<noteq> 9\<close> by (simp add: Let_def)
  qed
qed

lemma varint_bytes_Append:
  "v < 128 ^ k \<Longrightarrow> 0 < k \<Longrightarrow> varint_bytes k b (AppendVarint v @ rest, e) = Inr (b @ AppendVarint v, (rest, e))"
proof (induction v arbitrary: k b rule: AppendVarint.induct)
  case (1 v)
  then obtain j where k: "k = Suc j" by (cases k) auto
  show ?case
  proof (cases "v < 128")
    case True
    then show ?thesis using byte_less [of v 128] by (simp add: AppendVarint.simps [of v] k ReadByte_def)
  next
    case False
    then have "j \<noteq> 0" using "1.prems"(1) k by (cases j) auto
    moreover have "v div 128 < 128 ^ j" using "1.prems"(1) k by (simp add: less_mult_imp_div_less mult.commute)
    ultimately show ?thesis using "1.IH" [OF False, of j "b @ [word_of_nat (v mod 128 + 128)]"] False varint_high [of v]
      by (simp add: AppendVarint.simps [of v] k ReadByte_def)
  qed
qed

lemma readVarint_write: "v < 2 ^ 64 \<Longrightarrow> readVarint (writeVarint v @ rest, e) = Inr (v, (rest, e))"
  using varint_bytes_Append [of v 10 "[]" rest e] consume_AppendVarint [of v 0 0]
  by (simp add: readVarint_def writeVarint_def ConsumeVarint_def)

subsection \<open>Messages on a stream (service.go)\<close>

text \<open>
  \<open>sn_write\<close> is what a snappy writer writes for some data until it is closed; \<open>sn_read n\<close> reads \<open>n\<close> bytes of decompressed data and
  returns them with the rest of the compressed ones.
\<close>

record snappy_lib =
  sn_write :: "bytes \<Rightarrow> bytes"
  sn_read :: "nat \<Rightarrow> reader \<Rightarrow> error + bytes \<times> bytes"

definition MaxEncodedLen :: "nat \<Rightarrow> int" where
  "MaxEncodedLen n = (if n > 0xffffffff then - 1 else (let m = 32 + n + n div 6 in if m > 0xffffffff then - 1 else int m))"

definition maxLength :: "nat \<Rightarrow> error + nat" where
  "maxLength len =
    (if len > 2 ^ 63 - 1 then Inl (Errorf ''invalid length provided'')
     else (let maxLen = MaxEncodedLen len in if maxLen < 0 then Inl (Errorf ''max encoded length is negative'') else Inr (nat maxLen)))"

abbreviation (input) MaxChunkSize :: nat where "MaxChunkSize \<equiv> 2 ^ 20"

definition DecodeStream :: "snappy_lib \<Rightarrow> (bytes \<Rightarrow> error + 'a) \<Rightarrow> reader \<Rightarrow> error + 'a \<times> reader" where
  "DecodeStream sl unmarshal r = (case readVarint r of
     Inl e \<Rightarrow> Inl e
   | Inr (msgLen, r) \<Rightarrow>
     if msgLen > MaxChunkSize then Inl (Errorf ''remaining bytes goes over the provided max limit'')
     else (case maxLength msgLen of
         Inl e \<Rightarrow> Inl e
       | Inr msgMax \<Rightarrow> (case r of (bs, e) \<Rightarrow>
         (case sn_read sl msgLen (take msgMax bs, if length bs < msgMax then e else None) of
            Inl e \<Rightarrow> Inl e
          | Inr (buf, rest) \<Rightarrow> (case unmarshal buf of Inl e \<Rightarrow> Inl e | Inr msg \<Rightarrow> Inr (msg, (rest @ drop msgMax bs, e)))))))"

text \<open>\<open>EncodeStream\<close> returns the bytes that it writes.\<close>

definition EncodeStream :: "snappy_lib \<Rightarrow> (bytes \<Rightarrow> 'a \<Rightarrow> error + bytes) \<Rightarrow> 'a option \<Rightarrow> error + bytes" where
  "EncodeStream sl marshal msg = (case msg of
     None \<Rightarrow> Inr []
   | Some msg \<Rightarrow> (case marshal [] msg of
       Inl e \<Rightarrow> Inl e
     | Inr b \<Rightarrow>
       if length b > MaxChunkSize then Inl (Errorf ''size of encoded message is larger than the provided max limit'')
       else Inr (writeVarint (length b) @ sn_write sl b)))"

text \<open>What a message whose encoding is \<open>raw\<close> is on the stream.\<close>

definition frame :: "snappy_lib \<Rightarrow> bytes \<Rightarrow> bytes" where
  "frame sl raw = writeVarint (length raw) @ sn_write sl raw"

text \<open>
  The framing format of snappy: a stream identifier of 10 bytes, then chunks of at most 65536 bytes of data, each with a
  header of 8 bytes and stored uncompressed when compression does not make it smaller.
\<close>

definition snappy_laws :: "snappy_lib \<Rightarrow> bool" where
  "snappy_laws sl \<longleftrightarrow>
     (\<forall>b rest e. sn_read sl (length b) (sn_write sl b @ rest, e) = Inr (b, rest)) \<and>
     (\<forall>b. length (sn_write sl b) \<le> 10 + length b + 8 * ((length b + 65535) div 65536))"

lemma frame_fits: "10 + n + 8 * ((n + 65535) div 65536) \<le> 32 + n + n div (6::nat)"
proof -
  have "(n + 65535) div 65536 \<le> n div 65536 + 1" by simp
  moreover have "8 * (n div 65536) \<le> n div 6"
    unfolding less_eq_div_iff_mult_less_eq [of 6, simplified] using div_times_less_eq_dividend [of n 65536] by linarith
  ultimately show ?thesis by linarith
qed

context ssz_object
begin

lemma stream_roundtrip:
  assumes sl: "snappy_laws sl" and w: "EncodeStream sl marshal (Some x) = Inr w"
  shows "DecodeStream sl unmarshal (w @ rest, e) = Inr (x, (rest, e))"
proof -
  have ok: "ok x" and b: "length (enc x) \<le> MaxChunkSize" and w: "w = writeVarint (length (enc x)) @ sn_write sl (enc x)"
  proof -
    obtain b where b: "marshal [] x = Inr b" using w by (cases "marshal [] x") (simp_all add: EncodeStream_def)
    then have "ok x" "b = enc x" using marshal_iff [of "[]" x b] by simp_all
    then show "ok x" "length (enc x) \<le> MaxChunkSize" "w = writeVarint (length (enc x)) @ sn_write sl (enc x)"
      using w b by (simp_all add: EncodeStream_def not_less split: if_splits)
  qed
  define m where "m = 32 + length (enc x) + length (enc x) div 6"
  have "m \<le> 0xffffffff" using b div_le_dividend [of "length (enc x)" 6] unfolding m_def by simp
  then have m: "maxLength (length (enc x)) = Inr m" using b by (simp add: maxLength_def MaxEncodedLen_def Let_def m_def [symmetric])
  define s where "s = sn_write sl (enc x)"
  have "length s \<le> m" using sl frame_fits [of "length (enc x)"] unfolding snappy_laws_def s_def m_def by (meson order_trans)
  then have "take m (s @ rest) = s @ take (m - length s) rest" and d: "drop m (s @ rest) = drop (m - length s) rest" by simp_all
  then have "sn_read sl (length (enc x)) (take m (s @ rest), e') = Inr (enc x, take (m - length s) rest)" for e'
    using sl by (simp add: snappy_laws_def s_def)
  moreover have "readVarint (w @ rest, e) = Inr (length (enc x), (s @ rest, e))" using b readVarint_write [of "length (enc x)"] by (simp add: w s_def)
  ultimately show ?thesis using b m d dec_enc [OF ok] by (simp add: DecodeStream_def)
qed

lemma stream_encodes: "ok x \<Longrightarrow> sz x \<le> MaxChunkSize \<Longrightarrow> EncodeStream sl marshal (Some x) = Inr (frame sl (enc x))"
  using marshal_iff [of "[]" x "enc x"] enc_size by (simp add: EncodeStream_def frame_def)

lemma frame_decodes:
  assumes "snappy_laws sl" "ok x" "sz x \<le> MaxChunkSize"
  shows "DecodeStream sl unmarshal (frame sl (enc x) @ rest, e) = Inr (x, (rest, e))"
  by (rule stream_roundtrip [OF assms(1) stream_encodes [OF assms(2,3)]])

end

text \<open>A frame that announces more than a mebibyte is refused before anything is read or allocated for it.\<close>

lemma oversized_refused: "readVarint r = Inr (n, r') \<Longrightarrow> MaxChunkSize < n \<Longrightarrow> \<exists>e. DecodeStream sl unmarshal r = Inl e"
  by (simp add: DecodeStream_def)

subsection \<open>Topics and protocols (topics.go)\<close>

definition mainPrefix :: string where "mainPrefix = ''/raido/''"
definition MetaProtocol :: string where "MetaProtocol = mainPrefix @ ''metadata''"
definition BlockTopic :: string where "BlockTopic = mainPrefix @ ''block-forge''"
definition BlockRangeProtocol :: string where "BlockRangeProtocol = mainPrefix @ ''block-range''"
definition TxTopic :: string where "TxTopic = mainPrefix @ ''tx''"
definition SeedTopic :: string where "SeedTopic = mainPrefix @ ''seed''"
definition AttestationTopic :: string where "AttestationTopic = mainPrefix @ ''attestation''"
definition ProposalTopic :: string where "ProposalTopic = mainPrefix @ ''proposal''"

subsection \<open>Opening a stream (service.go)\<close>

text \<open>
  A stream that is opened hands what is written on it to the peer and returns what the peer answers, or the error of closing
  it for writing.
\<close>

type_synonym opened = "error + (bytes \<Rightarrow> error + reader)"

definition CreateStream :: "snappy_lib \<Rightarrow> (bytes \<Rightarrow> 'a \<Rightarrow> error + bytes) \<Rightarrow> 'a option \<Rightarrow> opened \<Rightarrow> error + reader" where
  "CreateStream sl marshal msg stream =
    ebind stream (\<lambda>peer. ebind (EncodeStream sl marshal msg) (\<lambda>w. peer w))"

subsection \<open>Status codes (blockchain/sync/stream.go)\<close>

abbreviation (input) codeSuccess :: byte where "codeSuccess \<equiv> 0"
abbreviation (input) codeInternalError :: byte where "codeInternalError \<equiv> 1"
abbreviation (input) codeValidationError :: byte where "codeValidationError \<equiv> 2"

definition ReadStatusCode :: "reader \<Rightarrow> error + byte \<times> string \<times> reader" where
  "ReadStatusCode r = (case ReadByte r of
     (b, Some e, r) \<Rightarrow> Inl e
   | (b, None, r) \<Rightarrow>
     if b = codeSuccess then Inr (0, [], r)
     else Inr (b, if b = codeInternalError then ''Internal peer error'' else if b = codeValidationError then ''Bad request given'' else [], r))"

text \<open>A run-time panic leaves every function at once: it is neither wrapped nor followed by a status code.\<close>

definition wrapped :: "error \<Rightarrow> string \<Rightarrow> error" where
  "wrapped e m = (case e of Panic p \<Rightarrow> e | _ \<Rightarrow> Wrap e m)"

definition failure_code :: "error \<Rightarrow> bytes" where
  "failure_code e = (case e of Panic p \<Rightarrow> [] | _ \<Rightarrow> [codeInternalError])"

text \<open>
  The function that \<open>addStreamHandler\<close> registers for a protocol: it decodes the message of the protocol's type and hands it to the
  handler; it recovers from panics, and in every case closes the stream, so that the peer reads what was written and then the end.
  \<open>None\<close> is a handler that does not return.
\<close>

definition stream_handler :: "snappy_lib \<Rightarrow> (bytes \<Rightarrow> error + 'a) \<Rightarrow> ('a \<Rightarrow> ('s \<times> bytes \<times> error option) option) \<Rightarrow> 's \<Rightarrow> bytes \<Rightarrow>
    ('s \<times> bytes) option" where
  "stream_handler sl unmarshal handle st w = (case DecodeStream sl unmarshal (w, None) of
     Inl e \<Rightarrow> Some (st, [])
   | Inr (msg, r) \<Rightarrow> map_option (\<lambda>(st, resp, e). (st, resp)) (handle msg))"

end
