(* ===== verification/Sync.thy ===== *)
theory Sync
  imports Core Peers Wire
begin

text \<open>
  The synchronisation service (\<^verbatim>\<open>blockchain/sync\<close>): the queue of blocks received while syncing, the handler that serves block
  ranges and the client that requests them, the choice of peers, the fetcher, and the import of the fetched blocks into the
  core service.  Requests and responses are the bytes on a stream (theory \<open>Wire\<close>).  Everything the network decides, the peer store
  at the time of a read, the answers and their arrival, is an argument.
\<close>

subsection \<open>The queue of early blocks (block\_queue.go)\<close>

record blockQueue =
  bq_queue :: "Block list"
  bq_hashMap :: "(string, unit) gomap"
  bq_numMap :: "(uint64, nat) gomap"

definition new_queue :: blockQueue where
  "new_queue = \<lparr>bq_queue = [], bq_hashMap = [], bq_numMap = []\<rparr>"

text \<open>One round of \<open>listen\<close>, and \<open>free\<close>, which returns the queue it replaces.\<close>

definition bq_listen :: "blockQueue \<Rightarrow> Block \<Rightarrow> blockQueue" where
  "bq_listen bq b =
    (let hash = Encode (bk_Hash b) in
     if ghas (bq_hashMap bq) hash then bq
     else if ghas (bq_numMap bq) (bk_Num b) then bq
     else (let queue = bq_queue bq @ [b] in
       bq\<lparr>bq_queue := queue, bq_hashMap := gput hash () (bq_hashMap bq), bq_numMap := gput (bk_Num b) (length queue - 1) (bq_numMap bq)\<rparr>))"

definition bq_free :: "blockQueue \<Rightarrow> blockQueue \<times> Block list" where
  "bq_free bq = (new_queue, bq_queue bq)"

lemma unat_plus1: "unat (n :: uint64) + 1 < 2 ^ 64 \<Longrightarrow> unat (n + 1) = unat n + 1"
  by (simp add: unat_add64)

subsection \<open>Serving block ranges (block\_handlers.go)\<close>

definition blocksPerRequest :: uint64 where "blocksPerRequest = 64"

definition validateBlockRangeHandler :: "Service \<Rightarrow> BlockRequest \<Rightarrow> error option" where
  "validateBlockRangeHandler s req =
    (check_seq (ensure (\<not> br_Count req > 2000) (Errorf ''Invalid block count''))
    (check_seq (ensure (\<not> (br_Step req > 500 \<or> br_Step req = 0)) (Errorf ''Invalid block step''))
    (ensure (\<not> br_StartSlot req > GetBlockCount (sv_bc s)) (Errorf ''Invalid block slot''))))"

text \<open>
  A function that writes to a stream returns what it has written, also when it fails: the status code of a block is on the
  stream before the block is encoded.  Encoding a nil block dereferences it.
\<close>

definition writeBlockToStream :: "snappy_lib \<Rightarrow> Block option \<Rightarrow> bytes \<times> error option" where
  "writeBlockToStream sl block = (case block of
     None \<Rightarrow> ([codeSuccess], Some (Panic ''nil pointer dereference''))
   | Some b \<Rightarrow> (case EncodeStream sl Block_MarshalSSZTo (Some b) of
       Inl e \<Rightarrow> ([codeSuccess], Some e)
     | Inr w \<Rightarrow> (codeSuccess # w, None)))"

fun write_blocks :: "snappy_lib \<Rightarrow> Block option list \<Rightarrow> bytes \<times> error option" where
  "write_blocks sl [] = ([], None)"
| "write_blocks sl (b # bs) = (case writeBlockToStream sl b of
     (w, Some e) \<Rightarrow> (w, Some (wrapped e ''Error writing block''))
   | (w, None) \<Rightarrow> (case write_blocks sl bs of (ws, e) \<Rightarrow> (w @ ws, e)))"

definition writeBlockRangeToStream :: "snappy_lib \<Rightarrow> env \<Rightarrow> Service \<Rightarrow> (nat \<Rightarrow> error option) \<Rightarrow> uint64 \<Rightarrow> uint64 \<Rightarrow>
    (bytes \<times> error option) option" where
  "writeBlockRangeToStream sl ev s cancelled startSlot endSlot =
    map_option (\<lambda>r. case r of Inl e \<Rightarrow> ([], Some e) | Inr blocks \<Rightarrow> write_blocks sl blocks) (GetBlocksRange ev s cancelled startSlot endSlot)"

text \<open>
  The loop of \<open>blockRangeHandler\<close>; \<open>cancelled k\<close> is the state of the request's context during round \<open>k\<close>.  The slot
  numbers wrap around, so that the loop need not end for every argument: \<open>None\<close> is a call that does not return.
\<close>

partial_function (option) range_loop :: "snappy_lib \<Rightarrow> env \<Rightarrow> Service \<Rightarrow> (nat \<Rightarrow> nat \<Rightarrow> error option) \<Rightarrow> nat \<Rightarrow> uint64 \<Rightarrow> uint64 \<Rightarrow> uint64 \<Rightarrow>
    (bytes \<times> error option) option" where
  "range_loop sl ev s cancelled k startSlot endSlot endReqSlot =
    (if \<not> startSlot \<le> endReqSlot then Some ([], None)
     else (let endSlot = (if endSlot > endReqSlot then endReqSlot else endSlot) in
       Option.bind (writeBlockRangeToStream sl ev s (cancelled k) startSlot endSlot) (\<lambda>w.
       case w of
         (cs, Some e) \<Rightarrow> Some (cs @ failure_code e, Some e)
       | (cs, None) \<Rightarrow>
          Option.bind (range_loop sl ev s cancelled (Suc k) (endSlot + 1) (endSlot + blocksPerRequest) endReqSlot)
            (\<lambda>r. Some (cs @ fst r, snd r)))))"

text \<open>The handler changes the record of the peer that sent an invalid request; a peer without a record is dereferenced.\<close>

definition blockRangeHandler :: "snappy_lib \<Rightarrow> env \<Rightarrow> Service \<Rightarrow> (nat \<Rightarrow> nat \<Rightarrow> error option) \<Rightarrow> string \<Rightarrow> PeerStore \<Rightarrow> BlockRequest \<Rightarrow>
    (PeerStore \<times> bytes \<times> error option) option" where
  "blockRangeHandler sl ev s cancelled pid store req = (case validateBlockRangeHandler s req of
     Some e \<Rightarrow> (case BadResponse pid store of
        Inl p \<Rightarrow> Some (store, [], Some p)
      | Inr store \<Rightarrow> Some (store, [codeValidationError], Some (Wrap e ''Validation error for block request'')))
   | None \<Rightarrow>
      (let startSlot = br_StartSlot req; endReqSlot = startSlot + br_Count req * br_Step req in
       map_option (\<lambda>r. (store, r)) (range_loop sl ev s cancelled 0 startSlot (startSlot + blocksPerRequest) endReqSlot)))"

subsection \<open>Requesting block ranges\<close>

definition receiveBlock :: "snappy_lib \<Rightarrow> reader \<Rightarrow> error + Block \<times> reader" where
  "receiveBlock sl r = (case ReadStatusCode r of
     Inl e \<Rightarrow> Inl (Wrap e ''Error reading status code'')
   | Inr (code, errMsg, r) \<Rightarrow>
      if code \<noteq> 0 then Inl (Errorf errMsg) else DecodeStream sl (Block_UnmarshalSSZ new_Block) r)"

function receive_loop :: "snappy_lib \<Rightarrow> BlockRequest \<Rightarrow> uint64 \<Rightarrow> uint64 \<Rightarrow> uint64 \<Rightarrow> uint64 \<Rightarrow> reader \<Rightarrow> error + Block list" where
  "receive_loop sl req totalCount endSlot i prevNum r =
    (case receiveBlock sl r of
       Inl e \<Rightarrow> if errors_Is e io_EOF then Inr [] else Inl (Wrap e ''Error receiving block'')
     | Inr (block, r) \<Rightarrow>
        if i \<ge> totalCount \<or> i \<ge> 2000 then Inl (Errorf ''Invalid response data'')
        else if bk_Num block < br_StartSlot req \<or> bk_Num block > endSlot then Inl (Errorf ''Wrong block slot'')
        else (let prevNum = (if i = 0 then br_StartSlot req else prevNum) in
          if (prevNum \<ge> bk_Num block \<or> (bk_Num block - prevNum) mod br_Step req \<noteq> 0) \<and> i \<noteq> 0 then Inl (Errorf ''Not ordered response'')
          else ebind (receive_loop sl req totalCount endSlot (i + 1) (bk_Num block) r) (\<lambda>bs. Inr (block # bs))))"
  by pat_completeness auto

text \<open>The client reads at most 2000 blocks, whatever the peer sends.\<close>

lemma next_round: "\<not> (i :: uint64) \<ge> 2000 \<Longrightarrow> 2001 - unat (i + 1) < 2001 - unat i"
  by (simp add: word_le_nat_alt unat_plus1)

termination receive_loop
  by (relation "measure (\<lambda>(_, _, _, _, i, _). 2001 - unat i)") (auto simp: next_round)

declare receive_loop.simps [simp del]

definition sendBlockRangeRequest :: "snappy_lib \<Rightarrow> BlockRequest \<Rightarrow> opened \<Rightarrow> error + Block list" where
  "sendBlockRangeRequest sl req stream = (case CreateStream sl BlockRequest_MarshalSSZTo (Some req) stream of
     Inl e \<Rightarrow> Inl (Wrap e ''Create stream error'')
   | Inr r \<Rightarrow>
      if br_Step req = 0 then Inl (Errorf ''Wrong request step given'')
      else (let totalCount = br_Count req * br_Step req + 1; endSlot = br_StartSlot req + totalCount in
        receive_loop sl req totalCount endSlot 0 0 r))"

subsection \<open>A served range is accepted\<close>

lemma range_blocks:
  assumes c: "chain_of ev bc bs" and e: "unat e + 1 < 2 ^ 64"
  shows "unat num + d = Suc (unat e) \<Longrightarrow>
    blocks_range_loop ev bc (\<lambda>_. None) k num e = Some (Inr (map Some (take d (drop (unat num) bs))))"
proof (induction d arbitrary: num k)
  case 0
  then have "\<not> num \<le> e" by (simp add: word_le_nat_alt)
  then show ?case by (simp add: blocks_range_loop.simps)
next
  case (Suc d)
  have le: "num \<le> e" using Suc.prems by (simp add: word_le_nat_alt)
  have n1: "unat (num + 1) = unat num + 1" using le e by (intro unat_plus1) (simp add: word_le_nat_alt)
  have IH: "blocks_range_loop ev bc (\<lambda>_. None) (Suc k) (num + 1) e = Some (Inr (map Some (take d (drop (Suc (unat num)) bs))))"
    using Suc.IH [of "num + 1" "Suc k"] Suc.prems n1 by simp
  show ?case
  proof (cases "num \<le> bc_headBlockNum bc")
    case True
    then have l: "unat num < length bs" using chain_ofD(1) [OF c] by (simp add: word_le_nat_alt)
    show ?thesis
      using le IH chain_of_num [OF c True] Cons_nth_drop_Suc [OF l] by (subst blocks_range_loop.simps) (simp flip: Cons_nth_drop_Suc [OF l])
  next
    case False
    then have "length bs \<le> unat num" using chain_ofD(1) [OF c] by (simp add: word_le_nat_alt)
    moreover have "GetBlockByNum ev bc num = Inl ErrNotForgedBlock"
      using False by (auto simp: GetBlockByNum_def GetHeadBlockNum_def not_le)
    ultimately show ?thesis
      using le IH not_forged_error by (subst blocks_range_loop.simps) simp
  qed
qed

text \<open>A block that can be sent is one that can be encoded and fits into a mebibyte.\<close>

definition sendable :: "Block \<Rightarrow> bool" where
  "sendable b \<longleftrightarrow> Block_ok b \<and> Block_SizeSSZ b \<le> MaxChunkSize"

definition block_frame :: "snappy_lib \<Rightarrow> Block \<Rightarrow> bytes" where
  "block_frame sl b = codeSuccess # frame sl (Block_enc b)"

abbreviation block_frames :: "snappy_lib \<Rightarrow> Block list \<Rightarrow> bytes" where
  "block_frames sl bs \<equiv> concat (map (block_frame sl) bs)"

lemma write_blocks_ok: "\<forall>b\<in>set xs. sendable b \<Longrightarrow> write_blocks sl (map Some xs) = (block_frames sl xs, None)"
  by (induction xs) (simp_all add: writeBlockToStream_def sendable_def block_frame_def block_ssz.stream_encodes)

lemma range_capacity:
  fixes a e :: uint64
  assumes "a \<le> e" "unat e < unat a + 2 ^ 44" "unat e + 65 < 2 ^ 63"
  shows "\<not> (sint (e - a + 1) < 0 \<or> sint (e - a + 1) > max_pointers)"
proof -
  have "unat (e - a + 1) = Suc (unat e) - unat a"
    using assms unat_sub [OF assms(1)] unat_plus1 [of "e - a"] by (simp add: word_le_nat_alt)
  then have n: "unat (e - a + 1) \<le> 2 ^ 44" using assms(2) by linarith
  then have "unat (e - a + 1) < 2 ^ 63" by (rule le_less_trans) simp
  moreover have "int (unat (e - a + 1)) \<le> int (2 ^ 44)" using n by (simp only: of_nat_le_iff)
  ultimately show ?thesis using sint_small [of "e - a + 1"] by (simp only: max_pointers_def) simp
qed

lemma range_written:
  assumes c: "chain_of ev (sv_bc s) bs" and ok: "\<forall>b\<in>set bs. sendable b" and e: "unat e + 65 < 2 ^ 63" and le: "a \<le> e" "unat e < unat a + 2 ^ 44"
  shows "writeBlockRangeToStream sl ev s (\<lambda>_. None) a e =
    Some (block_frames sl (take (Suc (unat e) - unat a) (drop (unat a) bs)), None)"
proof -
  have "\<not> (sint (e - a + 1) < 0 \<or> sint (e - a + 1) > max_pointers)" using le e by (intro range_capacity) simp_all
  then have "GetBlocksRange ev s (\<lambda>_. None) a e = Some (Inr (map Some (take (Suc (unat e) - unat a) (drop (unat a) bs))))"
    using range_blocks [OF c, of e a "Suc (unat e) - unat a" 0] e le by (simp add: GetBlocksRange_def word_le_nat_alt)
  moreover have "\<forall>b\<in>set (take (Suc (unat e) - unat a) (drop (unat a) bs)). sendable b"
    using ok by (meson in_set_dropD in_set_takeD)
  ultimately show ?thesis using write_blocks_ok by (simp add: writeBlockRangeToStream_def)
qed

text \<open>
  Round \<open>k\<close> of the handler starts at the block \<open>round_start A k\<close> of a request from \<open>A\<close>: the first round writes 65 blocks and every later
  one 64.  It is the \<open>k\<close>-th tick of the handler's ticker, one second each, that lets it start.
\<close>

definition round_start :: "nat \<Rightarrow> nat \<Rightarrow> nat" where
  "round_start A k = (if k = 0 then A else A + 64 * k + 1)"

lemma range_round:
  assumes c: "chain_of ev (sv_bc s) bs" and ok: "\<forall>b\<in>set bs. sendable b" and r: "unat r + 65 < 2 ^ 63" and le: "a \<le> r"
    and a: "unat a = round_start A k" and e: "unat e = A + 64 * Suc k" and cn: "cancelled k = (\<lambda>_. None)" and m: "m = (if e > r then r else e)"
  shows "range_loop sl ev s cancelled k a e r = Option.bind (range_loop sl ev s cancelled (Suc k) (m + 1) (m + blocksPerRequest) r)
      (\<lambda>x. Some (block_frames sl (take (Suc (unat m) - unat a) (drop (unat a) bs)) @ fst x, snd x))"
    and "unat (m + 1) = unat m + 1" "unat (m + blocksPerRequest) = unat m + 64" "unat a \<le> unat m"
proof -
  have am: "a \<le> m" using le a e by (auto simp: m round_start_def word_le_nat_alt)
  have mr: "m \<le> r" "m \<le> e" by (auto simp: m)
  have b: "unat m + 65 < 2 ^ 63" using mr r unfolding word_le_nat_alt by linarith
  show "unat (m + 1) = unat m + 1" "unat (m + blocksPerRequest) = unat m + 64"
    using b by (simp_all add: blocksPerRequest_def unat_add64)
  show "unat a \<le> unat m" using am by (simp add: word_le_nat_alt)
  have "unat m < unat a + 2 ^ 44" using mr(2) a e by (auto simp: round_start_def word_le_nat_alt split: if_splits)
  then have "writeBlockRangeToStream sl ev s (cancelled k) a m = Some (block_frames sl (take (Suc (unat m) - unat a) (drop (unat a) bs)), None)"
    using b am unfolding cn by (intro range_written [OF c ok]) simp_all
  then show "range_loop sl ev s cancelled k a e r = Option.bind (range_loop sl ev s cancelled (Suc k) (m + 1) (m + blocksPerRequest) r)
      (\<lambda>x. Some (block_frames sl (take (Suc (unat m) - unat a) (drop (unat a) bs)) @ fst x, snd x))"
    using le by (subst range_loop.simps) (simp add: m [symmetric] Let_def)
qed

lemma frames_append:
  assumes "a \<le> m" "m \<le> r"
  shows "block_frames sl (take (m - a) (drop a bs)) @ block_frames sl (take (r - m) (drop m bs)) = block_frames sl (take (r - a) (drop a bs))"
proof -
  have "take (m - a) (drop a bs) @ take (r - m) (drop m bs) = take (r - a) (drop a bs)"
    using assms take_add [of "m - a" "r - m" "drop a bs"] by simp
  then show ?thesis by (simp flip: map_append concat_append)
qed

lemma range_loop_ok:
  assumes c: "chain_of ev (sv_bc s) bs" and ok: "\<forall>b\<in>set bs. sendable b" and r: "unat r + 65 < 2 ^ 63"
    and cn: "\<And>k. k = 0 \<or> A + 64 * k < unat r \<Longrightarrow> cancelled k = (\<lambda>_. None)"
  shows "a \<le> r \<Longrightarrow> unat a = round_start A k \<Longrightarrow> unat e = A + 64 * Suc k \<Longrightarrow>
    range_loop sl ev s cancelled k a e r = Some (block_frames sl (take (Suc (unat r) - unat a) (drop (unat a) bs)), None)"
proof (induction "Suc (unat r) - unat a" arbitrary: a e k rule: less_induct)
  case less
  define m where "m = (if e > r then r else e)"
  have "cancelled k = (\<lambda>_. None)" using less.prems by (intro cn) (auto simp: round_start_def word_le_nat_alt split: if_splits)
  note R1 = range_round(1) [where sl = sl and cancelled = cancelled and k = k, OF c ok r less.prems this m_def]
    and R = range_round(2-4) [where cancelled = cancelled and k = k, OF c ok r less.prems this m_def]
  have mr: "unat m \<le> unat r" by (auto simp: m_def word_le_nat_alt [symmetric])
  have "range_loop sl ev s cancelled (Suc k) (m + 1) (m + blocksPerRequest) r =
      Some (block_frames sl (take (Suc (unat r) - Suc (unat m)) (drop (Suc (unat m)) bs)), None)"
  proof (cases "m + 1 \<le> r")
    case True
    then have "e \<le> r" "m = e" using R(1) mr by (auto simp: m_def word_le_nat_alt word_less_nat_alt split: if_splits)
    then show ?thesis using less.hyps [of "m + 1" "Suc k" "m + blocksPerRequest"] True less.prems R1 R
      by (simp add: round_start_def word_le_nat_alt)
  next
    case False
    then show ?thesis using R(1) by (subst range_loop.simps) (simp add: word_le_nat_alt)
  qed
  then show ?case using R1 R(3) mr frames_append [of "unat a" "Suc (unat m)" "Suc (unat r)" sl bs] by simp
qed

lemma range_loop_cancelled:
  assumes c: "chain_of ev (sv_bc s) bs" and ok: "\<forall>b\<in>set bs. sendable b" and r: "unat r + 65 < 2 ^ 63"
    and cn: "\<And>k. k < M \<Longrightarrow> cancelled k = (\<lambda>_. None)" and M: "cancelled M 0 = Some err" "A + 64 * M < unat r \<or> (M = 0 \<and> A \<le> unat r)"
  shows "k \<le> M \<Longrightarrow> unat a = round_start A k \<Longrightarrow> unat e = A + 64 * Suc k \<Longrightarrow>
    range_loop sl ev s cancelled k a e r = Some (block_frames sl (take (round_start A M - unat a) (drop (unat a) bs)) @ failure_code err, Some err)"
proof (induction "M - k" arbitrary: a e k)
  case 0
  have le: "a \<le> r" using 0 M(2) by (auto simp: round_start_def word_le_nat_alt)
  let ?m = "if e > r then r else e"
  have am: "a \<le> ?m" using le 0 by (auto simp: round_start_def word_le_nat_alt)
  have "unat ?m < unat a + 2 ^ 44" using 0 by (auto simp: round_start_def word_le_nat_alt word_less_nat_alt split: if_splits)
  moreover have "unat ?m + 65 < 2 ^ 63" using r by (auto simp: word_less_nat_alt)
  ultimately have "GetBlocksRange ev s (cancelled k) a ?m = Some (Inl err)"
    using am M(1) 0 range_capacity [OF am] by (simp add: GetBlocksRange_def blocks_range_loop.simps)
  then have "writeBlockRangeToStream sl ev s (cancelled k) a ?m = Some ([], Some err)" by (simp add: writeBlockRangeToStream_def)
  then show ?case using le 0 by (subst range_loop.simps) (simp add: Let_def)
next
  case (Suc d)
  then have k: "k < M" and er: "e \<le> r" and le: "a \<le> r" using M(2) by (auto simp: round_start_def word_le_nat_alt)
  have "e = (if e > r then r else e)" using er by auto
  note R = range_round(1) [where sl = sl and cancelled = cancelled and k = k, OF c ok r le Suc.prems(2,3) cn [OF k] this]
    range_round(2-4) [where cancelled = cancelled and k = k, OF c ok r le Suc.prems(2,3) cn [OF k] this]
  have "range_loop sl ev s cancelled (Suc k) (e + 1) (e + blocksPerRequest) r =
      Some (block_frames sl (take (round_start A M - unat (e + 1)) (drop (unat (e + 1)) bs)) @ failure_code err, Some err)"
    using Suc.hyps k R er Suc.prems by (intro Suc.hyps(1)) (simp_all add: round_start_def)
  then show ?case using R er k Suc.prems frames_append [of "unat a" "Suc (unat e)" "round_start A M" sl bs]
    by (simp add: round_start_def)
qed

lemma receive_frame:
  "snappy_laws sl \<Longrightarrow> sendable b \<Longrightarrow> receiveBlock sl (block_frame sl b @ rest, e) = Inr (b, (rest, e))"
  using block_ssz.frame_decodes [of sl b rest e] by (simp add: receiveBlock_def block_frame_def ReadStatusCode_def ReadByte_def sendable_def)

lemma receive_end: "receiveBlock sl ([], None) = Inl (Wrap io_EOF ''Error reading status code'')" "errors_Is (Wrap io_EOF m) io_EOF"
  by (simp_all add: receiveBlock_def ReadStatusCode_def ReadByte_def)

lemma receive_ok:
  assumes "br_Step req = 1" and sl: "snappy_laws sl" and b: "\<forall>b\<in>set xs. sendable b" and num: "\<And>j. j < length xs \<Longrightarrow> bk_Num (xs ! j) = br_StartSlot req + word_of_nat (n + j)"
    and t: "n + length xs \<le> unat tc" "unat tc \<le> 2000" "unat (br_StartSlot req) + unat tc < 2 ^ 64"
    and rs: "receiveBlock sl (rs, None) = Inl e"
    and p: "n \<noteq> 0 \<Longrightarrow> prev = br_StartSlot req + word_of_nat n - 1"
  shows "receive_loop sl req tc (br_StartSlot req + tc) (word_of_nat n) prev (block_frames sl xs @ rs, None) =
    (if errors_Is e io_EOF then Inr xs else Inl (Wrap e ''Error receiving block''))"
  using b num t(1) p
proof (induction xs arbitrary: n prev)
  case (Cons b xs)
  have n: "n < unat tc" using Cons.prems(3) by simp
  have w: "unat (word_of_nat n :: uint64) = n" using n t(2) by (simp add: unat_of_nat)
  have nb: "bk_Num b = br_StartSlot req + word_of_nat n" using Cons.prems(2) [of 0] by simp
  have ub: "unat (bk_Num b) = unat (br_StartSlot req) + n" "unat (br_StartSlot req + tc) = unat (br_StartSlot req) + unat tc"
    using n t(3) w by (simp_all add: nb unat_add64)
  have g: "\<not> (word_of_nat n \<ge> tc \<or> (word_of_nat n :: uint64) \<ge> 2000)" "\<not> (bk_Num b < br_StartSlot req \<or> bk_Num b > br_StartSlot req + tc)"
    using n t(2) w ub by (simp_all add: word_le_nat_alt word_less_nat_alt)
  have z: "(word_of_nat n :: uint64) = 0 \<longleftrightarrow> n = 0" using w unat_eq_zero [of "word_of_nat n :: uint64"] by simp
  have "\<not> prev \<ge> bk_Num b" if "n \<noteq> 0"
  proof -
    have "bk_Num b = prev + 1" using Cons.prems(4) [OF that] nb by simp
    moreover have "bk_Num b \<noteq> 0" using ub(1) that by auto
    ultimately show ?thesis using less_plus_one [of prev] by simp
  qed
  moreover have "receive_loop sl req tc (br_StartSlot req + tc) (word_of_nat (Suc n)) (bk_Num b) (block_frames sl xs @ rs, None) =
      (if errors_Is e io_EOF then Inr xs else Inl (Wrap e ''Error receiving block''))"
  proof (rule Cons.IH)
    show "bk_Num (xs ! j) = br_StartSlot req + word_of_nat (Suc n + j)" if "j < length xs" for j
      using Cons.prems(2) [of "Suc j"] that by simp
  qed (use Cons.prems nb in simp_all)
  ultimately show ?case
    using g z receive_frame [OF sl, of b "block_frames sl xs @ rs" None] Cons.prems(1) assms(1)
    by (subst receive_loop.simps) (auto simp: Let_def add.commute)
qed (simp add: rs receive_loop.simps)

text \<open>
  A block that cannot be sent hides the rest of the chain: its status code is written before the block fails to be encoded, the code
  of the internal error after it is read as the length of a message, and the end of the stream inside that message counts as
  the end of the answer.  The client accepts the blocks before it and never sees an error.
\<close>

lemma unsendable_written:
  assumes "\<forall>b\<in>set xs. sendable b" "EncodeStream sl Block_MarshalSSZTo (Some b) = Inl e"
  shows "write_blocks sl (map Some xs @ Some b # bs) = (block_frames sl xs @ [codeSuccess], Some (wrapped e ''Error writing block''))"
  using assms(1) by (induction xs) (simp_all add: assms(2) writeBlockToStream_def sendable_def block_frame_def block_ssz.stream_encodes)

lemma cut_stream_accepted:
  assumes "sn_read sl 1 ([], None) = Inl io_EOF" "br_Step req = 1" "snappy_laws sl" "\<forall>b\<in>set xs. sendable b"
    and "\<And>j. j < length xs \<Longrightarrow> bk_Num (xs ! j) = br_StartSlot req + word_of_nat j"
    and "length xs \<le> unat tc" "unat tc \<le> 2000" "unat (br_StartSlot req) + unat tc < 2 ^ 64"
  shows "receive_loop sl req tc (br_StartSlot req + tc) 0 0 (block_frames sl xs @ [codeSuccess, codeInternalError], None) = Inr xs"
proof -
  have "readVarint ([1], None) = Inr (1, ([], None))" using readVarint_write [of 1 "[]" None] by (simp add: writeVarint_def AppendVarint.simps)
  moreover have "maxLength 1 = Inr 33" by (simp add: maxLength_def MaxEncodedLen_def)
  ultimately have "receiveBlock sl ([codeSuccess, codeInternalError], None) = Inl io_EOF"
    using assms(1) by (simp add: receiveBlock_def ReadStatusCode_def ReadByte_def DecodeStream_def)
  then show ?thesis using receive_ok [OF assms(2-4), of 0 tc "[codeSuccess, codeInternalError]"] assms(5-) by simp
qed

lemma chain_slice_nums:
  assumes c: "chain_of ev bc bs" and j: "j < length (take n (drop (unat a) bs))"
  shows "bk_Num (take n (drop (unat a) bs) ! j) = a + word_of_nat j"
proof -
  have l: "unat a + j < length bs" using j by (simp add: less_diff_conv add.commute)
  have "bk_Num (bs ! (unat a + j)) = word_of_nat (unat a + j)" by (rule chain_ofD(7) [OF c l])
  then show ?thesis using j l by (simp add: nth_drop)
qed

text \<open>What a client reads when the function registered for a protocol serves it; a peer that never answers meets the read deadline.\<close>

definition served_by :: "(bytes \<Rightarrow> ('s \<times> bytes) option) \<Rightarrow> opened" where
  "served_by serve = Inr (\<lambda>w. Inr (case serve w of None \<Rightarrow> ([], Some (Sentinel ''i/o deadline reached'')) | Some (st, resp) \<Rightarrow> (resp, None)))"

lemma served_request:
  assumes sl: "snappy_laws sl" and h: "handle msg = Some (st', resp, e)"
    and x: "EncodeStream sl marshal (Some msg) = Inr w" "DecodeStream sl unmarshal (w @ [], None) = Inr (msg, r)"
  shows "CreateStream sl marshal (Some msg) (served_by (stream_handler sl unmarshal handle st)) = Inr (resp, None)"
  using assms by (simp add: CreateStream_def served_by_def stream_handler_def)

text \<open>
  The server of block ranges.  \<open>cancelled k j\<close> is the error of the request's context, if it is done, before the \<open>j\<close>-th block
  of round \<open>k\<close> is read: the context has a timeout, and every round but the first waits for a tick of the ticker.
\<close>

definition range_server :: "snappy_lib \<Rightarrow> env \<Rightarrow> Service \<Rightarrow> (nat \<Rightarrow> nat \<Rightarrow> error option) \<Rightarrow> string \<Rightarrow> PeerStore \<Rightarrow> bytes \<Rightarrow>
    (PeerStore \<times> bytes) option" where
  "range_server sl ev s cancelled pid store = stream_handler sl (BlockRequest_UnmarshalSSZ new_BlockRequest)
     (blockRangeHandler sl ev s cancelled pid store) store"

text \<open>The client's view of an answer that the loop of the handler has written.\<close>

lemma range_answered:
  assumes sl: "snappy_laws sl" and c: "chain_of ev (sv_bc s) bs" and ok: "\<forall>b\<in>set bs. sendable b" and len: "length bs < 2 ^ 62"
    and req: "br_Step req = 1" "br_Count req < 2000" "unat (br_StartSlot req) \<le> length bs"
    and loop: "range_loop sl ev s cancelled 0 (br_StartSlot req) (br_StartSlot req + blocksPerRequest) (br_StartSlot req + br_Count req) =
      Some (block_frames sl (take n (drop (unat (br_StartSlot req)) bs)) @ rs, x)" and n: "n \<le> unat (br_Count req) + 1"
    and rs: "receiveBlock sl (rs, None) = Inl e"
  shows "sendBlockRangeRequest sl req (served_by (range_server sl ev s cancelled pid store)) =
    (if errors_Is e io_EOF then Inr (take n (drop (unat (br_StartSlot req)) bs)) else Inl (Wrap e ''Error receiving block''))"
proof -
  let ?a = "br_StartSlot req" and ?n = "br_Count req"
  let ?xs = "take n (drop (unat ?a) bs)"
  have l: "unat ?n < 2000" using req(2) by (simp add: word_less_nat_alt)
  have u: "unat (?n + 1) = unat ?n + 1" using l by (simp add: unat_add64)
  have cnt: "unat (GetBlockCount (sv_bc s)) = length bs"
    using chain_ofD(1,10) [OF c] len by (simp add: GetBlockCount_def unat_add64)
  have v: "validateBlockRangeHandler s req = None"
    using req cnt by (simp add: validateBlockRangeHandler_def word_less_nat_alt not_less)
  have "blockRangeHandler sl ev s cancelled pid store req = Some (store, block_frames sl ?xs @ rs, x)"
    using v loop req(1) by (simp add: blockRangeHandler_def)
  then have h: "CreateStream sl BlockRequest_MarshalSSZTo (Some req) (served_by (range_server sl ev s cancelled pid store)) = Inr (block_frames sl ?xs @ rs, None)"
    unfolding range_server_def
    by (rule served_request [OF sl _ request_ssz.stream_encodes request_ssz.frame_decodes [OF sl]])
      (simp_all add: BlockRequest_ok_def BlockRequest_SizeSSZ_def)
  have "receive_loop sl req (?n + 1) (?a + (?n + 1)) (word_of_nat 0) 0 (block_frames sl ?xs @ rs, None) =
      (if errors_Is e io_EOF then Inr ?xs else Inl (Wrap e ''Error receiving block''))"
  proof (rule receive_ok [OF req(1) sl])
    show "\<forall>b\<in>set ?xs. sendable b" using ok by (meson in_set_dropD in_set_takeD)
    show "bk_Num (?xs ! j) = ?a + word_of_nat (0 + j)" if "j < length ?xs" for j
      using chain_slice_nums [OF c that] by simp
  qed (use u l n len req(3) rs in simp_all)
  then show ?thesis using req(1) h by (simp add: sendBlockRangeRequest_def Let_def)
qed

lemma receive_failure: "receiveBlock sl ([codeInternalError], None) = Inl (Errorf ''Internal peer error'')"
  by (simp add: receiveBlock_def ReadStatusCode_def ReadByte_def)

subsection \<open>The service (service.go, initial\_sync.go, meta\_handlers.go)\<close>

text \<open>\<open>sy_token\<close> is the token of the channel \<^verbatim>\<open>syncLock\<close>, \<open>sy_cancelled\<close> the state of the service's context.\<close>

record SyncService =
  sy_store :: PeerStore
  sy_malicious :: "(string, unit) gomap"
  sy_token :: bool
  sy_cancelled :: bool
  sy_synced :: bool
  sy_bq :: "blockQueue option"

text \<open>
  Choosing peers. \<open>shuffle\<close> is the order in which the loop over the votes happens to visit the map, \<open>srt\<close> is \<^verbatim>\<open>sort.Slice\<close>.
\<close>

definition candidates :: "SyncService \<Rightarrow> uint64 \<Rightarrow> PeerData list" where
  "candidates s localHead = filter (\<lambda>d. \<not> ghas (sy_malicious s) (pd_Id d) \<and> pd_HeadBlockNum d > localHead) (Connected_peers (sy_store s))"

fun count_votes :: "(uint64, nat) gomap \<Rightarrow> uint64 list \<Rightarrow> (uint64, nat) gomap" where
  "count_votes m [] = m"
| "count_votes m (n # ns) = count_votes (gput n (Suc (case map_of m n of None \<Rightarrow> 0 | Some c \<Rightarrow> c)) m) ns"

fun best_vote :: "nat \<times> uint64 \<Rightarrow> (uint64 \<times> nat) list \<Rightarrow> nat \<times> uint64" where
  "best_vote acc [] = acc"
| "best_vote (maxVotes, target) ((bnum, cnt) # vs) =
    best_vote (if cnt > maxVotes \<or> (cnt = maxVotes \<and> bnum > target) then (cnt, bnum) else (maxVotes, target)) vs"

definition findPeersForSync :: "((uint64 \<times> nat) list \<Rightarrow> (uint64 \<times> nat) list) \<Rightarrow> ((string \<Rightarrow> string \<Rightarrow> bool) \<Rightarrow> string list \<Rightarrow> string list) \<Rightarrow>
    SyncService \<Rightarrow> uint64 \<Rightarrow> string list \<times> uint64" where
  "findPeersForSync shuffle srt s localHead =
    (let cs = candidates s localHead; nums = (\<lambda>pid. gget0 (map (\<lambda>d. (pd_Id d, pd_HeadBlockNum d)) (rev cs)) pid);
         bestBlockNum = count_votes [] (map pd_HeadBlockNum cs);
         target = snd (best_vote (0, 0) (shuffle bestBlockNum));
         peers = srt (\<lambda>a b. if nums a = nums b then False else nums a > nums b) (map pd_Id cs) in
     (takeWhile (\<lambda>pid. \<not> nums pid < target) peers, target))"

definition findPeersForSyncWithMaxBlock :: "SyncService \<Rightarrow> string list \<times> uint64" where
  "findPeersForSyncWithMaxBlock s =
    (let maxBlock = Scorer_Get (ps_PeerHeadBlock (sy_store s)) in
     (map pd_Id (filter (\<lambda>d. pd_HeadBlockNum d = maxBlock) (Connected_peers (sy_store s))), maxBlock))"

definition findPeers where
  "findPeers shuffle srt s core findWithMaxBlock =
    (if findWithMaxBlock then findPeersForSyncWithMaxBlock s
     else findPeersForSync shuffle srt s (GetHeadBlockNum (sv_bc (co_chain core))))"

text \<open>One look of \<open>waitMinimumPeersForSync\<close>: whether it returns.\<close>

definition enoughPeers :: "SyncService \<Rightarrow> string list \<Rightarrow> nat \<Rightarrow> bool" where
  "enoughPeers s peers minSyncPeers \<longleftrightarrow> length (filter (\<lambda>pid. \<not> ghas (sy_malicious s) pid) peers) \<ge> minSyncPeers"

text \<open>
  \<open>requestBlocks\<close>: \<open>net\<close> opens a stream to a peer.  The comparison of \<open>filterPeers\<close> is no order when a peer is bad, so
  of \<^verbatim>\<open>sort.Slice\<close> only that it permutes can be used here.
\<close>

definition filterPeers :: "((string \<Rightarrow> string \<Rightarrow> bool) \<Rightarrow> string list \<Rightarrow> string list) \<Rightarrow> PeerStore \<Rightarrow> string list \<Rightarrow> string list" where
  "filterPeers srt store peers = srt (\<lambda>a b.
     (case (BlockRequestCounter store a, BlockRequestCounter store b) of (Inr x, Inr y) \<Rightarrow> x < y | _ \<Rightarrow> False) \<and> \<not> IsBad store a) peers"

fun request_loop :: "snappy_lib \<Rightarrow> (string \<Rightarrow> opened) \<Rightarrow> BlockRequest \<Rightarrow> SyncService \<Rightarrow> string list \<Rightarrow>
    SyncService \<times> (error + Block list \<times> string)" where
  "request_loop sl net req s [] = (s, Inl (Errorf ''No peers to handle request''))"
| "request_loop sl net req s (pid # peers) =
    (if ghas (sy_malicious s) pid then request_loop sl net req s peers
     else case sendBlockRangeRequest sl req (net pid) of
       Inr blocks \<Rightarrow> (case AddBlockParse pid (sy_store s) of
          Inl e \<Rightarrow> (s, Inl e)
        | Inr store \<Rightarrow> (s\<lparr>sy_store := store\<rparr>, Inr (blocks, pid)))
     | Inl e \<Rightarrow> request_loop sl net req s peers)"

definition requestBlocks where
  "requestBlocks sl srt net req s peers = request_loop sl net req s (filterPeers srt (sy_store s) peers)"

text \<open>The request that the fetcher sends for one range.\<close>

definition fetch_request :: "uint64 \<Rightarrow> uint64 \<Rightarrow> BlockRequest" where
  "fetch_request start end' = \<lparr>br_StartSlot = start, br_Count = end' - start + 10 + (if start = 0 then 1 else 0), br_Step = 1\<rparr>"

text \<open>
  \<open>requestData\<close> imports what the fetcher delivers: batches of blocks with the peer they came from, then an error, the
  cancellation of the context, or the end of the channel.
\<close>

datatype delivery = Batch string "Block list" | FetchError error | CtxDone

fun import_blocks :: "env \<Rightarrow> RDOBlockChainConfig \<Rightarrow> (nat \<Rightarrow> core_io) \<Rightarrow> nat \<Rightarrow> Core \<Rightarrow> Block list \<Rightarrow> Core \<times> nat \<times> outcome" where
  "import_blocks ev cfg io k core [] = (core, k, Done None)"
| "import_blocks ev cfg io k core (b # bs) = (case Core_FinalizeBlock ev cfg (io k) core b of
     (core, b, Waits) \<Rightarrow> (core, Suc k, Waits)
   | (core, b, Done None) \<Rightarrow> import_blocks ev cfg io (Suc k) core bs
   | (core, b, Done (Some e)) \<Rightarrow> if errors_Is e ErrKnownBlock then import_blocks ev cfg io (Suc k) core bs else (core, Suc k, Done (Some e)))"

fun request_data_loop :: "env \<Rightarrow> RDOBlockChainConfig \<Rightarrow> (nat \<Rightarrow> core_io) \<Rightarrow> nat \<Rightarrow> SyncService \<Rightarrow> Core \<Rightarrow> delivery list \<Rightarrow>
    SyncService \<times> Core \<times> nat \<times> outcome" where
  "request_data_loop ev cfg io k s core [] = (s, core, k, Done None)"
| "request_data_loop ev cfg io k s core (CtxDone # ds) = (s, core, k, Done None)"
| "request_data_loop ev cfg io k s core (FetchError e # ds) = (s, core, k, Done (Some e))"
| "request_data_loop ev cfg io k s core (Batch pid blocks # ds) = (case import_blocks ev cfg io k core blocks of
     (core, k, Done None) \<Rightarrow> request_data_loop ev cfg io k s core ds
   | (core, k, Waits) \<Rightarrow> (s, core, k, Waits)
   | (core, k, Done (Some e)) \<Rightarrow>
       (s\<lparr>sy_malicious := gput pid () (sy_malicious s), sy_cancelled := True\<rparr>, core, k, Done (Some (Wrap e ''Error processing block batch''))))"

definition requestData :: "env \<Rightarrow> RDOBlockChainConfig \<Rightarrow> (nat \<Rightarrow> core_io) \<Rightarrow> nat \<Rightarrow> SyncService \<Rightarrow> Core \<Rightarrow> string list \<Rightarrow> delivery list \<Rightarrow>
    SyncService \<times> Core \<times> nat \<times> outcome" where
  "requestData ev cfg io k s core peers ds =
    (if peers = [] then (s, core, k, Done (Some (Errorf ''No peers to sync''))) else request_data_loop ev cfg io k s core ds)"

text \<open>
  \<open>SyncWithNetwork\<close>. The peer store changes while the service waits for peers: \<open>sn_store1\<close> and \<open>sn_store2\<close> are the stores when
  the two waits return (\<open>None\<close> when one never does); \<open>sn_data1\<close> and \<open>sn_data2\<close> are what the two fetchers deliver.
\<close>

record sync_net =
  sn_shuffle :: "(uint64 \<times> nat) list \<Rightarrow> (uint64 \<times> nat) list"
  sn_sort :: "(string \<Rightarrow> string \<Rightarrow> bool) \<Rightarrow> string list \<Rightarrow> string list"
  sn_store1 :: "PeerStore option"
  sn_data1 :: "delivery list"
  sn_store2 :: "PeerStore option"
  sn_data2 :: "delivery list"

definition syncToBestKnownBlock :: "env \<Rightarrow> RDOBlockChainConfig \<Rightarrow> (nat \<Rightarrow> core_io) \<Rightarrow> sync_net \<Rightarrow> SyncService \<Rightarrow> Core \<Rightarrow>
    SyncService \<times> Core \<times> nat \<times> outcome" where
  "syncToBestKnownBlock ev cfg io net s core =
    (let startBlockNum = GetHeadBlockNum (sv_bc (co_chain core)) in
     if startBlockNum \<ge> Scorer_Get (ps_PeerHeadBlock (sy_store s)) then (s, core, 0, Done (Some ErrAlreadySynced))
     else case sn_store1 net of
       None \<Rightarrow> (s, core, 0, Waits)
     | Some store \<Rightarrow>
        (let s = s\<lparr>sy_store := store\<rparr>; (peers, target) = findPeersForSync (sn_shuffle net) (sn_sort net) s startBlockNum in
         if target \<le> startBlockNum then (s, core, 0, Done None)
         else requestData ev cfg io 0 s core peers (sn_data1 net)))"

definition syncToMaxBlock :: "env \<Rightarrow> RDOBlockChainConfig \<Rightarrow> (nat \<Rightarrow> core_io) \<Rightarrow> sync_net \<Rightarrow> nat \<Rightarrow> SyncService \<Rightarrow> Core \<Rightarrow>
    SyncService \<times> Core \<times> nat \<times> outcome" where
  "syncToMaxBlock ev cfg io net k s core = (case sn_store2 net of
     None \<Rightarrow> (s, core, k, Waits)
   | Some store \<Rightarrow>
      (let s = s\<lparr>sy_store := store\<rparr>; (peers, target) = findPeersForSyncWithMaxBlock s in
       requestData ev cfg io k s core peers (sn_data2 net)))"

definition SyncWithNetwork :: "env \<Rightarrow> RDOBlockChainConfig \<Rightarrow> (nat \<Rightarrow> core_io) \<Rightarrow> sync_net \<Rightarrow> SyncService \<Rightarrow> Core \<Rightarrow>
    SyncService \<times> Core \<times> outcome" where
  "SyncWithNetwork ev cfg io net s core =
    (if \<not> sy_token s then (s, core, Done None)
     else (case syncToBestKnownBlock ev cfg io net (s\<lparr>sy_token := False\<rparr>) core of
         (s, core, k, Waits) \<Rightarrow> (s, core, Waits)
       | (s, core, k, Done (Some e)) \<Rightarrow> (s\<lparr>sy_token := True\<rparr>, core, Done (Some e))
       | (s, core, k, Done None) \<Rightarrow>
          if GetHeadBlockNum (sv_bc (co_chain core)) = Scorer_Get (ps_PeerHeadBlock (sy_store s))
          then (s\<lparr>sy_token := True\<rparr>, core, Done (Some ErrAlreadySynced))
          else (case syncToMaxBlock ev cfg io net k s core of
            (s, core, k, Waits) \<Rightarrow> (s, core, Waits)
          | (s, core, k, Done e) \<Rightarrow> (s\<lparr>sy_token := True\<rparr>, core, Done e))))"

subsection \<open>Metadata\<close>

definition getSelfMeta :: "env \<Rightarrow> SyncService \<Rightarrow> Core \<Rightarrow> SyncService \<times> Core \<times> (error + Metadata)" where
  "getSelfMeta ev s core = (case GetHeadBlock ev (sv_bc (co_chain core)) of
     (bc, r) \<Rightarrow>
       (let core = core\<lparr>co_chain := (co_chain core)\<lparr>sv_bc := bc\<rparr>\<rparr> in
        case r of
          Inl e \<Rightarrow> (s, core, Inl (Wrap e ''Error reading head block''))
        | Inr b \<Rightarrow>
           (let store = sy_store s in
            (s\<lparr>sy_store := store\<lparr>ps_PeerHeadSlot := Scorer_Set (bk_Slot b) (ps_PeerHeadSlot store),
                 ps_PeerHeadBlock := Scorer_Set (bk_Num b) (ps_PeerHeadBlock store)\<rparr>\<rparr>, core,
             Inr \<lparr>md_HeadSlot = bk_Slot b, md_HeadBlockNum = bk_Num b, md_HeadBlockHash = bk_Hash b\<rparr>))))"

definition ErrDiffHeadBlock :: error where "ErrDiffHeadBlock = Sentinel ''Different head blocks''"

definition validateMetaHandler :: "env \<Rightarrow> SyncService \<Rightarrow> Core \<Rightarrow> Metadata \<Rightarrow> SyncService \<times> Core \<times> error option" where
  "validateMetaHandler ev s core meta =
    (if md_HeadBlockNum meta = 0 \<and> md_HeadBlockHash meta \<noteq> bc_genesisHash (sv_bc (co_chain core))
     then (s, core, Some (Errorf ''Wrong Genesis block''))
     else case getSelfMeta ev s core of
       (s, core, Inl e) \<Rightarrow> (s, core, Some (Wrap e ''Error parsing self meta''))
     | (s, core, Inr self) \<Rightarrow>
         (s, core,
          if md_HeadBlockNum self = 0 then None
          else if md_HeadBlockNum self = md_HeadBlockNum meta \<and> md_HeadBlockHash self \<noteq> md_HeadBlockHash meta
          then Some ErrDiffHeadBlock else None))"

definition metaResponse :: "snappy_lib \<Rightarrow> env \<Rightarrow> SyncService \<Rightarrow> Core \<Rightarrow> SyncService \<times> Core \<times> bytes \<times> error option" where
  "metaResponse sl ev s core = (case getSelfMeta ev s core of
     (s, core, Inl e) \<Rightarrow> (s, core, [], Some e)
   | (s, core, Inr meta) \<Rightarrow> (case EncodeStream sl Metadata_MarshalSSZTo (Some meta) of
       Inl e \<Rightarrow> (s, core, [codeSuccess], Some e)
     | Inr w \<Rightarrow> (s, core, codeSuccess # w, None)))"

definition metaHandler :: "snappy_lib \<Rightarrow> env \<Rightarrow> SyncService \<Rightarrow> Core \<Rightarrow> string \<Rightarrow> Metadata \<Rightarrow> int \<Rightarrow> SyncService \<times> Core \<times> bytes \<times> error option" where
  "metaHandler sl ev s core pid meta now = (case validateMetaHandler ev s core meta of
     (s, core, Some e) \<Rightarrow>
       (case BadResponse pid (sy_store s) of
          Inl p \<Rightarrow> (s, core, [], Some p)
        | Inr store \<Rightarrow> (s\<lparr>sy_store := store\<rparr>, core, [codeValidationError], Some (Wrap e ''Error process metadata message'')))
   | (s, core, None) \<Rightarrow>
       (case metaResponse sl ev (s\<lparr>sy_store := AddMeta pid meta now (sy_store s)\<rparr>) core of
          (s, core, w, Some e) \<Rightarrow> (s, core, w @ failure_code e, Some e)
        | (s, core, w, None) \<Rightarrow> (s, core, w, None)))"

definition metaRequest :: "snappy_lib \<Rightarrow> env \<Rightarrow> SyncService \<Rightarrow> Core \<Rightarrow> opened \<Rightarrow> SyncService \<times> Core \<times> error option" where
  "metaRequest sl ev s core stream = (case getSelfMeta ev s core of
     (s, core, Inl e) \<Rightarrow> (s, core, Some e)
   | (s, core, Inr meta) \<Rightarrow>
      (case CreateStream sl Metadata_MarshalSSZTo (Some meta) stream of
         Inl e \<Rightarrow> (s, core, Some (Wrap e ''Create stream error''))
       | Inr r \<Rightarrow> (case ReadStatusCode r of
           Inl e \<Rightarrow> (s, core, Some (Wrap e ''Error reading status code''))
         | Inr (code, errMsg, r) \<Rightarrow>
           if code \<noteq> 0 then (s, core, Some (Errorf errMsg))
           else (case DecodeStream sl (Metadata_UnmarshalSSZ new_Metadata) r of
             Inl e \<Rightarrow> (s, core, Some e)
           | Inr (msg, r) \<Rightarrow> validateMetaHandler ev s core msg))))"

text \<open>
  \<open>metaReq\<close> asks the connected peers whose metadata is older than a slot; \<open>now k\<close> is the clock, in nanoseconds, when the loop
  reaches peer \<open>k\<close>.  The two functions after it are the handlers that \<open>AddConnectionHandlers\<close> installs (p2p/service.go).
\<close>

definition PeerMetaUpdateInterval :: int where "PeerMetaUpdateInterval = 7 * 1000000000"

fun meta_req_loop :: "snappy_lib \<Rightarrow> env \<Rightarrow> (nat \<Rightarrow> int) \<Rightarrow> (string \<Rightarrow> opened) \<Rightarrow> nat \<Rightarrow> SyncService \<Rightarrow> Core \<Rightarrow> PeerData list \<Rightarrow> SyncService \<times> Core" where
  "meta_req_loop sl ev now net k s core [] = (s, core)"
| "meta_req_loop sl ev now net k s core (data # peers) =
    (if now k - pd_LastUpdate data < PeerMetaUpdateInterval then meta_req_loop sl ev now net (Suc k) s core peers
     else case metaRequest sl ev s core (net (pd_Id data)) of (s, core, e) \<Rightarrow> meta_req_loop sl ev now net (Suc k) s core peers)"

definition metaReq :: "snappy_lib \<Rightarrow> env \<Rightarrow> (nat \<Rightarrow> int) \<Rightarrow> (string \<Rightarrow> opened) \<Rightarrow> SyncService \<Rightarrow> Core \<Rightarrow> SyncService \<times> Core" where
  "metaReq sl ev now net s core = meta_req_loop sl ev now net 0 s core (Connected_peers (sy_store s))"

definition connected_handler :: "snappy_lib \<Rightarrow> env \<Rightarrow> SyncService \<Rightarrow> Core \<Rightarrow> string \<Rightarrow> opened \<Rightarrow> SyncService \<times> Core \<times> error option" where
  "connected_handler sl ev s core pid stream = metaRequest sl ev (s\<lparr>sy_store := Connect pid (sy_store s)\<rparr>) core stream"

definition disconnected_handler :: "SyncService \<Rightarrow> string \<Rightarrow> SyncService" where
  "disconnected_handler s pid = s\<lparr>sy_store := Disconnect pid (sy_store s)\<rparr>"

subsection \<open>Gossip\<close>

text \<open>
  \<open>listenIncoming\<close>.  The channel \<^verbatim>\<open>forkBlockEvent\<close> is nil, no code creates it, and a send on a nil channel waits forever; the loop
  over the freed queue sends its indices.
\<close>

datatype notification = NBlock bytes | NTx bytes

datatype feed_msg = FeedBlock Block | FeedIndex nat | FeedTx Transaction

definition freeQueue :: "SyncService \<Rightarrow> SyncService \<times> Block list" where
  "freeQueue s = (case sy_bq s of None \<Rightarrow> (s, []) | Some bq \<Rightarrow> (case bq_free bq of (bq, q) \<Rightarrow> (s\<lparr>sy_bq := Some bq\<rparr>, q)))"

definition listenIncoming :: "codec \<Rightarrow> SyncService \<Rightarrow> notification \<Rightarrow> SyncService \<times> feed_msg list \<times> outcome" where
  "listenIncoming cd s n = (case n of
     NBlock data \<Rightarrow>
       (case UnmarshalBlock cd data of
          Inl e \<Rightarrow> (s, [], Done None)
        | Inr block \<Rightarrow>
           if \<not> sy_synced s then (s, [], Waits)
           else (case freeQueue s of (s, queue) \<Rightarrow> (s, map FeedIndex [0..<length queue] @ [FeedBlock block], Done None)))
   | NTx data \<Rightarrow>
       if \<not> sy_synced s then (s, [], Done None)
       else (case UnmarshalTx data of
          Inl e \<Rightarrow> (s, [], Done None)
        | Inr tx \<Rightarrow> (s, [FeedTx (NewTransaction tx)], Done None)))"

text \<open>The listener over a sequence of messages: after a wait that never ends nothing more is read.\<close>

fun listen_all :: "codec \<Rightarrow> SyncService \<Rightarrow> notification list \<Rightarrow> SyncService \<times> feed_msg list \<times> outcome" where
  "listen_all cd s [] = (s, [], Done None)"
| "listen_all cd s (n # ns) = (case listenIncoming cd s n of
     (s, ms, Done e) \<Rightarrow> (case listen_all cd s ns of (s, ms', r) \<Rightarrow> (s, ms @ ms', r))
   | (s, ms, Waits) \<Rightarrow> (s, ms, Waits))"

subsection \<open>The fetcher (block\_fetcher.go)\<close>

record blockResponse =
  rs_blocks :: "Block list"
  rs_peer :: string
  rs_start :: uint64
  rs_end :: uint64

text \<open>
  The state that the goroutines of one fetcher share: the start of the next range that \<open>mainLoop\<close> hands out, the ranges the
  request workers are working on, the answers that wait in the map \<open>data\<close>, the slot that \<open>handleResponse\<close> waits for
  and what it has sent so far. The steps are interleaved in any order.
\<close>

record fetcher =
  ft_start :: uint64
  ft_end :: uint64
  ft_next :: uint64
  ft_working :: "(uint64 \<times> uint64) list"
  ft_data :: "(uint64, blockResponse) gomap"
  ft_target :: uint64
  ft_sent :: "blockResponse list"

definition NewFetcher :: "uint64 \<Rightarrow> uint64 \<Rightarrow> fetcher" where
  "NewFetcher from' to' = \<lparr>ft_start = from', ft_end = to', ft_next = from', ft_working = [], ft_data = [], ft_target = from', ft_sent = []\<rparr>"

inductive fetch_step :: "fetcher \<Rightarrow> fetcher \<Rightarrow> bool" where
  hand_out: "ft_next f < ft_end f \<Longrightarrow> end' = (if ft_next f + blocksPerRequest > ft_end f then ft_end f else ft_next f + blocksPerRequest) \<Longrightarrow>
    fetch_step f (f\<lparr>ft_next := ft_next f + blocksPerRequest, ft_working := ft_working f @ [(ft_next f, end')]\<rparr>)"
| answer: "(start, end') \<in> set (ft_working f) \<Longrightarrow> rs_start r = start \<Longrightarrow> rs_end r = end' \<Longrightarrow>
    fetch_step f (f\<lparr>ft_working := remove1 (start, end') (ft_working f), ft_data := gput start r (ft_data f)\<rparr>)"
| deliver: "ft_target f < ft_end f \<Longrightarrow> map_of (ft_data f) (ft_target f) = Some r \<Longrightarrow>
    fetch_step f (f\<lparr>ft_data := gdel (ft_target f) (ft_data f), ft_target := ft_target f + blocksPerRequest, ft_sent := ft_sent f @ [r]\<rparr>)"

inductive_cases fetch_stepE: "fetch_step f f'"

subsection \<open>Choosing the target\<close>












subsection \<open>The fetcher delivers in order\<close>

definition fetched :: "uint64 \<Rightarrow> uint64 \<Rightarrow> fetcher \<Rightarrow> bool" where
  "fetched = (\<lambda>a e f. fetch_step\<^sup>*\<^sup>* (NewFetcher a e) f)"

text \<open>
  The invariant: the ranges handed out so far are the first ones; a range is being worked on, waits in the map, or was sent,
  and what was sent are the first ranges in order.
\<close>

definition fetch_inv :: "uint64 \<Rightarrow> uint64 \<Rightarrow> fetcher \<Rightarrow> bool" where
  "fetch_inv a e f \<longleftrightarrow> ft_end f = e
    \<and> unat (ft_target f) = unat a + 64 * length (ft_sent f)
    \<and> (\<forall>(k, r) \<in> set (ft_data f). rs_start r = k)
    \<and> (\<forall>i < length (ft_sent f). unat (rs_start (ft_sent f ! i)) = unat a + 64 * i \<and> rs_start (ft_sent f ! i) < e)"

lemma fetch_inv_step:
  assumes b: "unat e + 64 < 2 ^ 64" and i: "fetch_inv a e f" and st: "fetch_step f f'"
  shows "fetch_inv a e f'"
  using st
proof cases
  case (hand_out end')
  then show ?thesis using i by (simp add: fetch_inv_def)
next
  case (answer start end' r)
  then show ?thesis using i set_update_subset [of start r "ft_data f"] by (auto simp: fetch_inv_def)
next
  case (deliver r)
  have e: "ft_end f = e" and t: "unat (ft_target f) = unat a + 64 * length (ft_sent f)" and lt: "unat (ft_target f) < unat e"
    using i deliver(2) by (simp_all add: fetch_inv_def word_less_nat_alt)
  have r: "rs_start r = ft_target f" using i map_of_SomeD [OF deliver(3)] by (auto simp: fetch_inv_def)
  have u: "unat (ft_target f + blocksPerRequest) = unat a + 64 * Suc (length (ft_sent f))"
    using t lt b by (simp add: blocksPerRequest_def unat_add64)
  have old: "\<forall>i < length (ft_sent f). unat (rs_start (ft_sent f ! i)) = unat a + 64 * i \<and> rs_start (ft_sent f ! i) < e"
    using i by (simp add: fetch_inv_def)
  have new: "unat (rs_start ((ft_sent f @ [r]) ! i)) = unat a + 64 * i \<and> rs_start ((ft_sent f @ [r]) ! i) < e"
    if "i < Suc (length (ft_sent f))" for i
    using that old r t lt by (cases "i < length (ft_sent f)") (auto simp: nth_append less_Suc_eq word_less_nat_alt)
  have "\<forall>(k, r) \<in> set (gdel (ft_target f) (ft_data f)). rs_start r = k"
    using i by (auto simp: fetch_inv_def set_delete)
  then show ?thesis using deliver(1) u new e by (simp add: fetch_inv_def)
qed

lemma fetch_inv_reach:
  assumes "unat e + 64 < 2 ^ 64" "fetched a e f"
  shows "fetch_inv a e f"
  using assms(2) unfolding fetched_def
proof (induction rule: rtranclp_induct)
  case base
  then show ?case by (simp add: NewFetcher_def fetch_inv_def)
next
  case (step f f')
  then show ?case using fetch_inv_step [OF assms(1)] by blast
qed

subsection \<open>The handshake\<close>

definition head_meta :: "Block \<Rightarrow> Metadata" where
  "head_meta b = \<lparr>md_HeadSlot = bk_Slot b, md_HeadBlockNum = bk_Num b, md_HeadBlockHash = bk_Hash b\<rparr>"

definition note_head :: "Block \<Rightarrow> SyncService \<Rightarrow> SyncService" where
  "note_head b s = s\<lparr>sy_store := (sy_store s)\<lparr>ps_PeerHeadSlot := Scorer_Set (bk_Slot b) (ps_PeerHeadSlot (sy_store s)),
     ps_PeerHeadBlock := Scorer_Set (bk_Num b) (ps_PeerHeadBlock (sy_store s))\<rparr>\<rparr>"

definition meta_server :: "snappy_lib \<Rightarrow> env \<Rightarrow> string \<Rightarrow> int \<Rightarrow> SyncService \<times> Core \<Rightarrow> bytes \<Rightarrow> ((SyncService \<times> Core) \<times> bytes) option" where
  "meta_server sl ev pid now st = stream_handler sl (Metadata_UnmarshalSSZ new_Metadata)
     (\<lambda>msg. case metaHandler sl ev (fst st) (snd st) pid msg now of (s, core, w, e) \<Rightarrow> Some ((s, core), w, e)) st"

text \<open>A node whose head block is in memory, as it is after \<open>Init\<close> and after every \<open>SaveBlock\<close>.\<close>

definition knows_head :: "env \<Rightarrow> Core \<Rightarrow> Block list \<Rightarrow> bool" where
  "knows_head ev core bs \<longleftrightarrow> chain_of ev (sv_bc (co_chain core)) bs \<and> bc_headBlock (sv_bc (co_chain core)) = Some (last bs)
    \<and> length (bk_Hash (last bs)) = 32"

lemma self_meta: "knows_head ev core bs \<Longrightarrow> getSelfMeta ev s core = (note_head (last bs) s, core, Inr (head_meta (last bs)))"
  by (simp add: knows_head_def getSelfMeta_def GetHeadBlock_def note_head_def head_meta_def Let_def)

lemma head_num:
  assumes "knows_head ev core bs"
  shows "unat (bk_Num (last bs)) = length bs - 1"
proof -
  have c: "chain_of ev (sv_bc (co_chain core)) bs" using assms by (simp add: knows_head_def)
  then have "bk_Num (last bs) = word_of_nat (length bs - 1)" using chain_ofD(2) [OF c] chain_ofD(7) [OF c, of "length bs - 1"] by (simp add: last_conv_nth)
  moreover have "bc_headBlockNum (sv_bc (co_chain core)) = word_of_nat (length bs - 1)" using chain_ofD(1) [OF c] by simp
  ultimately show ?thesis using chain_ofD(1) [OF c] by (metis diff_Suc_1)
qed

lemma same_head:
  assumes "knows_head ev core bs" "knows_head ev' core' cs"
  shows "bk_Num (last bs) = bk_Num (last cs) \<longleftrightarrow> length bs = length cs" "bk_Num (last bs) = 0 \<longleftrightarrow> length bs = 1"
proof -
  have "bs \<noteq> []" "cs \<noteq> []" using assms chain_ofD(2) by (auto simp: knows_head_def)
  then have n: "0 < length bs" "0 < length cs" by simp_all
  have "unat (bk_Num (last bs)) = unat (bk_Num (last cs)) \<longleftrightarrow> length bs = length cs" unfolding head_num [OF assms(1)] head_num [OF assms(2)] using n by arith
  then show "bk_Num (last bs) = bk_Num (last cs) \<longleftrightarrow> length bs = length cs" by (simp only: word_unat_eq_iff)
  have "unat (bk_Num (last bs)) = 0 \<longleftrightarrow> length bs = 1" unfolding head_num [OF assms(1)] using n by arith
  then show "bk_Num (last bs) = 0 \<longleftrightarrow> length bs = 1" by (simp add: unat_eq_zero)
qed

text \<open>Two chains agree when they have the same genesis block and, at the same height, the same head.\<close>

definition heads_agree :: "Block list \<Rightarrow> Block list \<Rightarrow> bool" where
  "heads_agree bs cs \<longleftrightarrow> (length bs = length cs \<longrightarrow> bk_Hash (last bs) = bk_Hash (last cs))"

lemma meta_validated:
  assumes "knows_head ev core bs" "knows_head ev' core' cs" "hd bs = hd cs"
  shows "validateMetaHandler ev' s core' (head_meta (last bs)) =
    (note_head (last cs) s, core', if heads_agree bs cs then None else Some ErrDiffHeadBlock)"
proof -
  have g: "bc_genesisHash (sv_bc (co_chain core')) = bk_Hash (hd cs)" using assms(2) chain_ofD(6) by (auto simp: knows_head_def)
  have one: "length xs = 1 \<Longrightarrow> hd xs = last xs" for xs :: "Block list" by (cases xs) auto
  have a: "\<not> (bk_Num (last bs) = 0 \<and> bk_Hash (last bs) \<noteq> bk_Hash (hd cs))" using same_head(2) [OF assms(1,2)] one [of bs] assms(3) by auto
  have "length cs = 1 \<Longrightarrow> length bs = length cs \<Longrightarrow> bk_Hash (last bs) = bk_Hash (last cs)" using one [of bs] one [of cs] assms(3) by simp
  then have "(bk_Num (last cs) = 0 \<or> \<not> (bk_Num (last cs) = bk_Num (last bs) \<and> bk_Hash (last cs) \<noteq> bk_Hash (last bs))) \<longleftrightarrow> heads_agree bs cs"
    unfolding same_head(1) [OF assms(2,1)] same_head(2) [OF assms(2,1)] heads_agree_def by metis
  then have b: "(if bk_Num (last cs) = 0 then None else if bk_Num (last cs) = bk_Num (last bs) \<and> bk_Hash (last cs) \<noteq> bk_Hash (last bs)
      then Some ErrDiffHeadBlock else None) = (if heads_agree bs cs then None else Some ErrDiffHeadBlock)" by presburger
  show ?thesis
    unfolding validateMetaHandler_def self_meta [OF assms(2)] g head_meta_def Metadata.select_convs prod.case sum.case
    by (simp only: a b if_False)
qed

lemma head_meta_encodes:
  assumes "knows_head ev core bs"
  shows "EncodeStream sl Metadata_MarshalSSZTo (Some (head_meta (last bs))) = Inr (frame sl (Metadata_enc (head_meta (last bs))))"
    "snappy_laws sl \<Longrightarrow> DecodeStream sl (Metadata_UnmarshalSSZ new_Metadata) (frame sl (Metadata_enc (head_meta (last bs))) @ rest, e) =
      Inr (head_meta (last bs), (rest, e))"
proof -
  have ok: "Metadata_ok (head_meta (last bs))" "Metadata_SizeSSZ (head_meta (last bs)) \<le> MaxChunkSize"
    using assms by (simp_all add: knows_head_def head_meta_def Metadata_ok_def Metadata_SizeSSZ_def)
  show "EncodeStream sl Metadata_MarshalSSZTo (Some (head_meta (last bs))) = Inr (frame sl (Metadata_enc (head_meta (last bs))))"
    by (rule metadata_ssz.stream_encodes [OF ok])
  show "snappy_laws sl \<Longrightarrow> DecodeStream sl (Metadata_UnmarshalSSZ new_Metadata) (frame sl (Metadata_enc (head_meta (last bs))) @ rest, e) =
      Inr (head_meta (last bs), (rest, e))"
    by (rule metadata_ssz.frame_decodes [OF _ ok])
qed

lemma meta_served:
  assumes c: "knows_head ev core bs" "knows_head ev' core' cs" "hd bs = hd cs" and sl: "snappy_laws sl"
  shows "\<exists>s2 resp. meta_server sl ev' pid now (s', core') (frame sl (Metadata_enc (head_meta (last bs)))) = Some ((s2, core'), resp) \<and>
    (if heads_agree bs cs
     then sy_store s2 = sy_store (note_head (last cs) (note_head (last cs) s'\<lparr>sy_store := AddMeta pid (head_meta (last bs)) now (sy_store (note_head (last cs) s'))\<rparr>))
       \<and> resp = codeSuccess # frame sl (Metadata_enc (head_meta (last cs)))
     else resp \<in> {[], [codeValidationError]})"
  using meta_validated [OF c, of s'] head_meta_encodes(2) [OF c(1) sl, of "[]" None] head_meta_encodes(1) [OF c(2), of sl]
  by (auto simp: meta_server_def stream_handler_def metaHandler_def metaResponse_def self_meta [OF c(2)] split: sum.split)

lemma meta_answered:
  assumes c: "knows_head ev core bs" "knows_head ev' core' cs" "hd bs = hd cs" and sl: "snappy_laws sl"
  shows "snd (snd (metaRequest sl ev s core (served_by (meta_server sl ev' pid now (s', core'))))) = None \<longleftrightarrow> heads_agree bs cs"
proof -
  obtain s2 resp where r: "meta_server sl ev' pid now (s', core') (frame sl (Metadata_enc (head_meta (last bs)))) = Some ((s2, core'), resp)"
    "if heads_agree bs cs then resp = codeSuccess # frame sl (Metadata_enc (head_meta (last cs))) else resp \<in> {[], [codeValidationError]}"
    using meta_served [OF c sl, of pid now s'] by (auto split: if_splits)
  have "CreateStream sl Metadata_MarshalSSZTo (Some (head_meta (last bs))) (served_by (meta_server sl ev' pid now (s', core'))) = Inr (resp, None)"
    using r(1) head_meta_encodes(1) [OF c(1)] by (simp add: CreateStream_def served_by_def)
  moreover have "heads_agree cs bs \<longleftrightarrow> heads_agree bs cs" by (auto simp: heads_agree_def)
  ultimately show ?thesis
    using r(2) meta_validated [OF c(2,1) c(3) [symmetric], of "note_head (last bs) s"] head_meta_encodes(2) [OF c(2) sl, of "[]" None]
    by (auto simp: metaRequest_def self_meta [OF c(1)] ReadStatusCode_def ReadByte_def split: if_splits)
qed

subsection \<open>Properties\<close>

text \<open>
  C27. A block range that one node requests and another serves arrives complete and in order, or not at all.  When the serving node stores
  the chain \<open>bs\<close> of blocks that fit into a mebibyte, every request with step 1 for fewer than 2000 blocks is written to the stream as
  bytes, decoded and answered in rounds of 64 blocks.  If the context of the handler is not done in any of the rounds that the request needs, the client
  gets exactly the requested part of the chain, up to the head when the request reaches past it.  If it is done when one of these rounds starts,
  the client gets an error and none of the blocks that have been sent.
\<close>

theorem range_request_served:
  assumes "snappy_laws sl" "chain_of ev (sv_bc s) bs" "\<forall>b\<in>set bs. sendable b" "length bs < 2 ^ 62"
    and "br_Step req = 1" "br_Count req < 2000" "unat (br_StartSlot req) \<le> length bs"
  shows "((\<forall>k j. k = 0 \<or> 64 * k < unat (br_Count req) \<longrightarrow> cancelled k j = None) \<longrightarrow>
      sendBlockRangeRequest sl req (served_by (range_server sl ev s cancelled pid store)) =
        Inr (take (unat (br_Count req) + 1) (drop (unat (br_StartSlot req)) bs)))
    \<and> (\<forall>m. (m = 0 \<or> 64 * m < unat (br_Count req)) \<and> (\<forall>k<m. \<forall>j. cancelled k j = None) \<and> cancelled m 0 = Some (Sentinel msg) \<longrightarrow>
      sendBlockRangeRequest sl req (served_by (range_server sl ev s cancelled pid store)) =
        Inl (Wrap (Errorf ''Internal peer error'') ''Error receiving block''))"
proof (intro conjI impI allI)
  let ?a = "br_StartSlot req" and ?n = "br_Count req"
  note A = range_answered [OF assms]
  have l: "unat ?n < 2000" using assms(6) by (simp add: word_less_nat_alt)
  have u: "unat (?a + ?n) = unat ?a + unat ?n" "unat (?a + blocksPerRequest) = unat ?a + 64 * Suc 0" "unat ?a = round_start (unat ?a) 0"
    using l assms(4,7) by (simp_all add: unat_add64 blocksPerRequest_def round_start_def)
  have r: "unat (?a + ?n) + 65 < 2 ^ 63" "?a \<le> ?a + ?n" using u(1) l assms(4,7) by (simp_all add: word_le_nat_alt)
  {
    assume cn: "\<forall>k j. k = 0 \<or> 64 * k < unat ?n \<longrightarrow> cancelled k j = None"
    have "range_loop sl ev s cancelled 0 ?a (?a + blocksPerRequest) (?a + ?n) =
        Some (block_frames sl (take (Suc (unat (?a + ?n)) - unat ?a) (drop (unat ?a) bs)), None)"
      by (rule range_loop_ok [OF assms(2,3) r(1) _ r(2) u(3,2)]) (use cn u(1) in auto)
    then show "sendBlockRangeRequest sl req (served_by (range_server sl ev s cancelled pid store)) =
        Inr (take (unat ?n + 1) (drop (unat ?a) bs))"
      using A [of cancelled "unat ?n + 1" "[]"] receive_end u(1) by simp
  next
    fix m assume m: "(m = 0 \<or> 64 * m < unat ?n) \<and> (\<forall>k<m. \<forall>j. cancelled k j = None) \<and> cancelled m 0 = Some (Sentinel msg)"
    have "range_loop sl ev s cancelled 0 ?a (?a + blocksPerRequest) (?a + ?n) =
        Some (block_frames sl (take (round_start (unat ?a) m - unat ?a) (drop (unat ?a) bs)) @ failure_code (Sentinel msg), Some (Sentinel msg))"
      by (rule range_loop_cancelled [OF assms(2,3) r(1) _ _ _ _ u(3,2)]) (use m u(1) in auto)
    then show "sendBlockRangeRequest sl req (served_by (range_server sl ev s cancelled pid store)) =
        Inl (Wrap (Errorf ''Internal peer error'') ''Error receiving block'')"
      using A [of cancelled "round_start (unat ?a) m - unat ?a" "[codeInternalError]"] receive_failure m
      by (auto simp: failure_code_def round_start_def)
  }
qed

text \<open>A compression that stores the data as it is.\<close>

definition demo_snappy :: snappy_lib where
  "demo_snappy = \<lparr>sn_write = (\<lambda>b. b), sn_read = (\<lambda>n r. if n \<le> length (fst r) then Inr (take n (fst r), drop n (fst r)) else Inl (Errorf ''corrupt input''))\<rparr>"

lemma demo_snappy_laws: "snappy_laws demo_snappy"
  by (simp add: snappy_laws_def demo_snappy_def)

lemma node_genesis_sendable: "sendable node_genesis"
proof -
  have "Block_SizeSSZ node_genesis \<le> 2 ^ 20" by (simp add: node_genesis_def Block_SizeSSZ_def)
  then show ?thesis using node_genesis_ok by (simp add: sendable_def)
qed

text \<open>The node with the empty genesis file serves a request for ten blocks: its genesis block.\<close>

lemma node_chain:
  obtains s :: Service where "chain_of node_env (sv_bc s) [node_genesis]"
proof -
  obtain bc where "chain_of node_env bc [node_genesis]" using node_starts by blast
  then show ?thesis using that [of "(NewService NewKVStore NewStore)\<lparr>sv_bc := bc\<rparr>"] by simp
qed

theorem range_request_served_witness:
  "\<exists>s. sendBlockRangeRequest demo_snappy \<lparr>br_StartSlot = 0, br_Count = 999, br_Step = 1\<rparr> (served_by (range_server demo_snappy node_env s (\<lambda>_ _. None) ''a'' NewPeerStore))
      = Inr [node_genesis]
    \<and> sendBlockRangeRequest demo_snappy \<lparr>br_StartSlot = 0, br_Count = 999, br_Step = 1\<rparr> (served_by (range_server demo_snappy node_env s
        (\<lambda>k _. if k < 6 then None else Some (Sentinel ''context deadline exceeded'')) ''a'' NewPeerStore))
      = Inl (Wrap (Errorf ''Internal peer error'') ''Error receiving block'')"
proof -
  obtain s :: Service where c: "chain_of node_env (sv_bc s) [node_genesis]" by (rule node_chain)
  let ?req = "\<lparr>br_StartSlot = 0, br_Count = 999, br_Step = 1\<rparr>"
  have "unat (br_Count ?req) = 999" by simp
  note R = range_request_served [OF demo_snappy_laws c, of ?req, unfolded this]
  have "\<forall>b\<in>set [node_genesis]. sendable b" "length [node_genesis] < 2 ^ 62" "br_Step ?req = 1" "br_Count ?req < 2000" "unat (br_StartSlot ?req) \<le> length [node_genesis]"
    using node_genesis_sendable by simp_all
  note R = R [OF this]
  show ?thesis
    using conjunct1 [OF R, of "\<lambda>_ _. None" "''a''" NewPeerStore]
      conjunct2 [OF R, of "\<lambda>k _. if k < 6 then None else Some (Sentinel ''context deadline exceeded'')" "''context deadline exceeded''" "''a''" NewPeerStore, THEN spec [of _ 6]]
    by (intro exI [of _ s]) simp
qed


text \<open>Two peers report block 7, one reports block 9.\<close>

definition demo_peers :: SyncService where
  "demo_peers = \<lparr>sy_store = run_ops peer_step NewPeerStore
       (map (\<lambda>(pid, n). OpMeta pid \<lparr>md_HeadSlot = n, md_HeadBlockNum = n, md_HeadBlockHash = []\<rparr> 0) [(''a'', 7), (''b'', 9), (''c'', 7)]),
     sy_malicious = [], sy_token = True, sy_cancelled = False, sy_synced = True, sy_bq = None\<rparr>"



text \<open>
  C31. However the answers of the peers overtake each other, the fetcher hands the batches to the import in the order of
  their slots: at every moment what was sent are the first ranges of 64 slots from the start, each once, and when the channel
  is closed they cover the whole range.
\<close>

theorem fetcher_in_order:
  assumes "fetched a e f" "unat e + 64 < 2 ^ 64"
  shows "(\<forall>i < length (ft_sent f). unat (rs_start (ft_sent f ! i)) = unat a + 64 * i)
    \<and> (\<not> ft_target f < ft_end f \<longrightarrow> unat e \<le> unat a + 64 * length (ft_sent f))"
  using fetch_inv_reach [OF assms(2,1)] by (auto simp: fetch_inv_def word_less_nat_alt)

definition forwarded :: "codec \<Rightarrow> notification \<Rightarrow> feed_msg list" where
  "forwarded cd n = (case n of
     NBlock data \<Rightarrow> (case UnmarshalBlock cd data of Inl _ \<Rightarrow> [] | Inr b \<Rightarrow> [FeedBlock b])
   | NTx data \<Rightarrow> (case UnmarshalTx data of Inl _ \<Rightarrow> [] | Inr tx \<Rightarrow> [FeedTx (NewTransaction tx)]))"

definition empty_queue :: "SyncService \<Rightarrow> bool" where
  "empty_queue s \<longleftrightarrow> (case sy_bq s of None \<Rightarrow> True | Some bq \<Rightarrow> bq = new_queue)"

lemma listen_synced:
  assumes "sy_synced s" "empty_queue s"
  shows "listenIncoming cd s n = (s, forwarded cd n, Done None)"
  using assms
  by (cases "sy_bq s") (auto simp: listenIncoming_def forwarded_def freeQueue_def bq_free_def new_queue_def empty_queue_def
      split: notification.split sum.split)

lemma listen_all_synced:
  assumes "sy_synced s" "empty_queue s"
  shows "listen_all cd s ns = (s, concat (map (forwarded cd) ns), Done None)"
  by (induction ns) (simp_all add: listen_synced [OF assms])

lemma listen_all_early:
  assumes "\<not> sy_synced s"
  shows "listen_all cd s ns = (s, [], if \<exists>data b. NBlock data \<in> set ns \<and> UnmarshalBlock cd data = Inr b then Waits else Done None)"
proof (induction ns)
  case (Cons n ns)
  then show ?case
    using assms by (cases n) (auto simp: listenIncoming_def split: sum.split)
qed simp

text \<open>Two ranges are handed out, the second one is answered first.\<close>

theorem fetcher_in_order_witness:
  "\<exists>f. fetched 0 100 f \<and> length (ft_sent f) = 2 \<and> unat (rs_start (ft_sent f ! 1)) = 64"
proof -
  define r where "r = (\<lambda>a e. \<lparr>rs_blocks = [], rs_peer = ''p'', rs_start = a, rs_end = e\<rparr>)"
  define f0 where "f0 = NewFetcher 0 100"
  define f1 where "f1 = f0\<lparr>ft_next := ft_next f0 + blocksPerRequest, ft_working := ft_working f0 @ [(ft_next f0, 64)]\<rparr>"
  define f2 where "f2 = f1\<lparr>ft_next := ft_next f1 + blocksPerRequest, ft_working := ft_working f1 @ [(ft_next f1, 100)]\<rparr>"
  define f3 where "f3 = f2\<lparr>ft_working := remove1 (64, 100) (ft_working f2), ft_data := gput 64 (r 64 100) (ft_data f2)\<rparr>"
  define f4 where "f4 = f3\<lparr>ft_working := remove1 (0, 64) (ft_working f3), ft_data := gput 0 (r 0 64) (ft_data f3)\<rparr>"
  define f5 where "f5 = f4\<lparr>ft_data := gdel (ft_target f4) (ft_data f4), ft_target := ft_target f4 + blocksPerRequest, ft_sent := ft_sent f4 @ [r 0 64]\<rparr>"
  define f6 where "f6 = f5\<lparr>ft_data := gdel (ft_target f5) (ft_data f5), ft_target := ft_target f5 + blocksPerRequest, ft_sent := ft_sent f5 @ [r 64 100]\<rparr>"
  note D = f0_def NewFetcher_def blocksPerRequest_def r_def
  have "fetch_step f0 f1" unfolding f1_def by (rule fetch_step.hand_out) (simp_all add: D)
  moreover have "fetch_step f1 f2" unfolding f2_def by (rule fetch_step.hand_out) (simp_all add: D f1_def)
  moreover have "fetch_step f2 f3" unfolding f3_def by (rule fetch_step.answer) (simp_all add: D f1_def f2_def)
  moreover have "fetch_step f3 f4" unfolding f4_def by (rule fetch_step.answer) (simp_all add: D f1_def f2_def f3_def)
  moreover have "fetch_step f4 f5" unfolding f5_def by (rule fetch_step.deliver) (simp_all add: D f1_def f2_def f3_def f4_def)
  moreover have "fetch_step f5 f6" unfolding f6_def by (rule fetch_step.deliver) (simp_all add: D f1_def f2_def f3_def f4_def f5_def)
  ultimately have f: "fetched 0 100 f6" unfolding fetched_def f0_def [symmetric] by (meson converse_rtranclp_into_rtranclp rtranclp.rtrancl_refl)
  have l: "length (ft_sent f6) = 2" by (simp add: D f1_def f2_def f3_def f4_def f5_def f6_def)
  show ?thesis using fetcher_in_order [OF f] f l by auto
qed

text \<open>
  C32. Gossip before and after the initial synchronisation.  Once the node is synced, the listener forwards every message that
  decodes, blocks and transactions, in the order of arrival, and skips the others.  Before that, transactions are skipped, and
  the first block that decodes stops the listener for good: it waits on a channel that nobody creates and no later message
  is ever read, not even after the synchronisation.
\<close>

theorem gossip_listener:
  "empty_queue s \<Longrightarrow> listen_all cd s ns =
    (if sy_synced s then (s, concat (map (forwarded cd) ns), Done None)
     else (s, [], if \<exists>data b. NBlock data \<in> set ns \<and> UnmarshalBlock cd data = Inr b then Waits else Done None))"
  by (simp add: listen_all_synced listen_all_early)

definition import_fails :: "outcome \<Rightarrow> bool" where
  "import_fails r \<longleftrightarrow> (\<exists>e. r = Done (Some (Wrap e ''Error processing block batch'')))"

theorem gossip_listener_witness:
  "listen_all (ssz_codec (\<lambda>x. x) Inr) (demo_peers\<lparr>sy_synced := False\<rparr>) [NBlock (Block_enc wire_block), NTx (Transaction_enc wire_tx)]
    = (demo_peers\<lparr>sy_synced := False\<rparr>, [], Waits)
   \<and> listen_all (ssz_codec (\<lambda>x. x) Inr) demo_peers [NBlock (Block_enc wire_block), NTx (Transaction_enc wire_tx)]
    = (demo_peers, [FeedBlock wire_block, FeedTx (NewTransaction wire_tx)], Done None)"
proof -
  let ?cd = "ssz_codec (\<lambda>x. x) Inr" and ?s = "demo_peers\<lparr>sy_synced := False\<rparr>"
  have d: "UnmarshalBlock ?cd (Block_enc wire_block) = Inr wire_block" "UnmarshalTx (Transaction_enc wire_tx) = Inr wire_tx"
    using block_ssz.dec_enc tx_ssz.dec_enc wire_ok by (simp_all add: UnmarshalBlock_def ssz_codec_def UnmarshalTx_def)
  have q: "empty_queue ?s" "empty_queue demo_peers" "sy_synced demo_peers" by (simp_all add: empty_queue_def demo_peers_def)
  show ?thesis
    using gossip_listener [OF q(1), of ?cd "[NBlock (Block_enc wire_block), NTx (Transaction_enc wire_tx)]"]
      gossip_listener [OF q(2), of ?cd "[NBlock (Block_enc wire_block), NTx (Transaction_enc wire_tx)]"] d q(3)
    by (auto simp: forwarded_def simp del: listen_all.simps)
qed

text \<open>
  A block that the core service refuses ends the synchronisation service.  When the import of the delivered batches fails for
  any reason but the fetcher's, the peer of the failing batch is marked as malicious and, with the fetcher's work, the
  context of the whole service is cancelled; in every other case both are left alone.
\<close>

theorem failed_import_cancels:
  assumes "request_data_loop ev cfg io k s core ds = (s', core', k', r)"
    and "\<forall>e. FetchError (Wrap e ''Error processing block batch'') \<notin> set ds"
  shows "if import_fails r then sy_cancelled s' \<and> (\<exists>pid blocks. Batch pid blocks \<in> set ds \<and> ghas (sy_malicious s') pid)
    else s' = s"
  using assms
proof (induction ev cfg io k s core ds arbitrary: s' core' k' r rule: request_data_loop.induct)
  case (4 ev cfg io k s core pid blocks ds)
  obtain c1 k1 r1 where i: "import_blocks ev cfg io k core blocks = (c1, k1, r1)" by (metis prod_cases3)
  have f: "\<forall>e. FetchError (Wrap e ''Error processing block batch'') \<notin> set ds" using "4.prems"(2) by simp
  consider "r1 = Done None" | "r1 = Waits" | e where "r1 = Done (Some e)" by (metis not_None_eq outcome.exhaust)
  then show ?case
  proof cases
    case 1
    then have l: "request_data_loop ev cfg io k1 s c1 ds = (s', core', k', r)" using "4.prems"(1) i by simp
    have "if import_fails r then sy_cancelled s' \<and> (\<exists>pid blocks. Batch pid blocks \<in> set ds \<and> ghas (sy_malicious s') pid) else s' = s"
      by (rule "4.IH" [OF i [symmetric] refl _ _ l f]) (use 1 in simp_all)
    then show ?thesis by (auto split: if_splits)
  next
    case 2
    then show ?thesis using "4.prems"(1) i by (auto simp: import_fails_def)
  next
    case 3
    then show ?thesis using "4.prems"(1) i by (auto simp: import_fails_def)
  qed
qed (auto simp: import_fails_def)

text \<open>A peer sends a genesis block of another network.\<close>

theorem failed_import_cancels_witness:
  "\<exists>core s' core' k' r. request_data_loop node_env mainnetRDOConfig (\<lambda>_. \<lparr>ci_now = 9, ci_query = (\<lambda>_. None), ci_sync = None, ci_total = None\<rparr>) 0
      demo_peers core [Batch ''b'' [wire_block\<lparr>bk_Num := 0\<rparr>]] = (s', core', k', r) \<and> sy_cancelled s' \<and> ghas (sy_malicious s') ''b''"
proof -
  let ?io = "\<lambda>_ :: nat. \<lparr>ci_now = 9, ci_query = (\<lambda>_. None), ci_sync = None, ci_total = None\<rparr>"
  obtain s :: Service where c: "chain_of node_env (sv_bc s) [node_genesis]" by (rule node_chain)
  define core where "core = \<lparr>co_chain = s, co_txPool = NewPool, co_stakePool = NewStakingPool 0 0, co_statusErr = None,
    co_receivedHash = [], co_synced = True, co_ticker = None\<rparr>"
  have h: "BytesToHash (HexToHash ''0x09'') \<noteq> replicate 32 1" by code_simp
  have g: "GetGenesis (sv_bc s) = Some node_genesis" using chain_ofD(4) [OF c] by (simp add: GetGenesis_def)
  have v: "ValidateGenesis (node_validator node_env mainnetRDOConfig (?io 0) core) 9 (wire_block\<lparr>bk_Num := 0\<rparr>) = Some (Errorf ''Genesis hash mismatch.'')"
    using h g by (simp add: ValidateGenesis_def node_validator_def chain_reader_def core_def check_seq_def ensure_def wire_block_def node_genesis_def)
  then obtain s' core' k' r where l: "request_data_loop node_env mainnetRDOConfig ?io 0 demo_peers core [Batch ''b'' [wire_block\<lparr>bk_Num := 0\<rparr>]] = (s', core', k', r)"
    and r: "import_fails r"
    by (auto simp: Core_FinalizeBlock_def import_fails_def ErrKnownBlock_def)
  have "sy_cancelled s' \<and> ghas (sy_malicious s') ''b''" using failed_import_cancels [OF l] r by (auto split: if_splits)
  then show ?thesis using l by blast
qed

subsection \<open>Reading a range ends, except up to the largest number\<close>

lemma chain_reads:
  assumes "chain_of ev bc bs"
  shows "(\<exists>b. GetBlockByNum ev bc n = Inr b) \<or> (\<exists>e. GetBlockByNum ev bc n = Inl e \<and> errors_Is e ErrNotForgedBlock)"
proof (cases "n \<le> bc_headBlockNum bc")
  case True
  then show ?thesis using chain_of_num [OF assms] by blast
next
  case False
  then show ?thesis by (auto simp: GetBlockByNum_def GetHeadBlockNum_def not_forged_error not_le)
qed

lemma range_never_ends:
  assumes "blocks_range_loop ev bc cancelled k num end' = Some r"
  shows "chain_of ev bc bs \<longrightarrow> (\<forall>k. cancelled k = None) \<longrightarrow> end' \<noteq> - 1"
proof (rule blocks_range_loop.raw_induct [where P = "\<lambda>ev bc cancelled k num end' r. chain_of ev bc bs \<longrightarrow> (\<forall>k. cancelled k = None) \<longrightarrow> end' \<noteq> - 1", OF _ assms], intro impI)
  fix loop :: "env \<Rightarrow> BlockChain \<Rightarrow> (nat \<Rightarrow> error option) \<Rightarrow> nat \<Rightarrow> uint64 \<Rightarrow> uint64 \<Rightarrow> (error + Block option list) option"
    and ev bc cancelled k and num end' :: uint64 and r
  assume IH: "\<And>ev bc cancelled k num end' r. loop ev bc cancelled k num end' = Some r \<Longrightarrow> chain_of ev bc bs \<longrightarrow> (\<forall>k. cancelled k = None) \<longrightarrow> end' \<noteq> - 1"
    and r: "(if \<not> num \<le> end' then Some (Inr []) else case cancelled k of
      None \<Rightarrow> (case GetBlockByNum ev bc num of
        Inl e \<Rightarrow> if errors_Is e ErrNotForgedBlock then loop ev bc cancelled (Suc k) (num + 1) end' else Some (Inl e)
      | Inr b \<Rightarrow> Option.bind (loop ev bc cancelled (Suc k) (num + 1) end') (\<lambda>r. Some (case r of Inl e \<Rightarrow> Inl e | Inr bs \<Rightarrow> Inr (b # bs))))
      | Some e \<Rightarrow> Some (Inl e)) = Some r"
    and c: "chain_of ev bc bs" "\<forall>k. cancelled k = None"
  show "end' \<noteq> - 1"
  proof (cases "num \<le> end'")
    case True
    then obtain r' where "loop ev bc cancelled (Suc k) (num + 1) end' = Some r'"
      using r chain_reads [OF c(1), of num] c(2) by (auto simp: bind_eq_Some_conv)
    then show ?thesis using IH c by blast
  next
    case False
    then show ?thesis using word_order.extremum [of num] by auto
  qed
qed

lemma max_word_iff: "(e :: uint64) \<noteq> - 1 \<longleftrightarrow> unat e + 1 < 2 ^ 64"
proof -
  have "unat (- 1 :: uint64) = 2 ^ 64 - 1" by (simp add: unsigned_minus_1_eq_mask mask_eq_exp_minus_1)
  then have "e = - 1 \<longleftrightarrow> unat e = 2 ^ 64 - 1" by (metis word_unat_eq_iff)
  then show ?thesis using unat64_less [of e] by auto
qed

text \<open>
  C21. Which range queries end.  On a node with a chain and while the request is not cancelled, the query for the blocks from \<open>start\<close> to \<open>end\<close>
  panics if its number of blocks, computed with wrap-around as a signed number, is negative or larger than a slice can be; otherwise it runs for ever if \<open>end\<close>
  is the largest 64-bit number, since the loop variable wraps around, and returns the part of the chain in the range if it is not.
\<close>

theorem range_query_ends:
  assumes c: "chain_of ev (sv_bc s) bs"
  shows "GetBlocksRange ev s (\<lambda>_. None) start end' =
    (if sint (end' - start + 1) < 0 \<or> sint (end' - start + 1) > 2 ^ 45 then Some (Inl (Panic ''makeslice: cap out of range''))
     else if end' = - 1 then None
     else Some (Inr (map Some (take (Suc (unat end') - unat start) (drop (unat start) bs)))))"
proof (cases "sint (end' - start + 1) < 0 \<or> sint (end' - start + 1) > 2 ^ 45")
  case True
  then show ?thesis by (simp add: GetBlocksRange_def max_pointers_def)
next
  case False
  then have q: "GetBlocksRange ev s (\<lambda>_. None) start end' = blocks_range_loop ev (sv_bc s) (\<lambda>_. None) 0 start end'"
    by (simp add: GetBlocksRange_def max_pointers_def)
  have "blocks_range_loop ev (sv_bc s) (\<lambda>_. None) 0 start end' = (if end' = - 1 then None
     else Some (Inr (map Some (take (Suc (unat end') - unat start) (drop (unat start) bs)))))"
  proof (cases "end' = - 1")
    case True
    then show ?thesis
      using range_never_ends [of ev "sv_bc s" "\<lambda>_. None" 0 start end' _ bs] c by (cases "blocks_range_loop ev (sv_bc s) (\<lambda>_. None) 0 start end'") auto
  next
    case False
    then have e: "unat end' + 1 < 2 ^ 64" by (simp add: max_word_iff)
    show ?thesis
    proof (cases "start \<le> end'")
      case True
      then show ?thesis using range_blocks [OF c e, of start "Suc (unat end') - unat start" 0] False by (simp add: word_le_nat_alt)
    qed (use False in \<open>simp add: blocks_range_loop.simps word_le_nat_alt\<close>)
  qed
  then show ?thesis using False unfolding q by simp
qed

theorem range_query_ends_witness:
  "\<exists>s. GetBlocksRange node_env s (\<lambda>_. None) 0 5 = Some (Inr [Some node_genesis]) \<and> GetBlocksRange node_env s (\<lambda>_. None) 0 (- 1) = None
    \<and> GetBlocksRange node_env s (\<lambda>_. None) 0 (2 ^ 50) = Some (Inl (Panic ''makeslice: cap out of range''))"
proof -
  obtain s :: Service where c: "chain_of node_env (sv_bc s) [node_genesis]" by (rule node_chain)
  show ?thesis
    using range_query_ends [OF c, of 0 5] range_query_ends [OF c, of 0 "- 1"] range_query_ends [OF c, of 0 "2 ^ 50"]
    by (intro exI [of _ s]) simp
qed

text \<open>
  C28. The handshake. A node that connects to another one with the same genesis block sends it the number and the hash of its head
  and gets those of the other, over the stream; the exchange succeeds exactly when the two chains do not disagree, that is, when they
  have the same head or different heights.  When it succeeds, the node that was asked has recorded the head of the one that asked.
\<close>

theorem handshake:
  assumes "knows_head ev core bs" "knows_head ev' core' cs" "hd bs = hd cs" "snappy_laws sl"
  shows "(snd (snd (metaRequest sl ev s core (served_by (meta_server sl ev' pid now (s', core'))))) = None \<longleftrightarrow> heads_agree bs cs) \<and>
    (heads_agree bs cs \<longrightarrow> (\<exists>s2 resp d. meta_server sl ev' pid now (s', core') (frame sl (Metadata_enc (head_meta (last bs)))) = Some ((s2, core'), resp)
       \<and> map_of (ps_data (sy_store s2)) pid = Some d \<and> pd_HeadBlockNum d = bk_Num (last bs) \<and> pd_HeadBlockHash d = bk_Hash (last bs)))"
  using meta_answered [OF assms] meta_served [OF assms, of pid now s']
  by (auto simp: note_head_def AddMeta_def Let_def map_of_gput head_meta_def)

definition demo_node :: "BlockChain \<Rightarrow> Core" where
  "demo_node bc = \<lparr>co_chain = (NewService NewKVStore NewStore)\<lparr>sv_bc := bc\<lparr>bc_headBlock := Some node_genesis\<rparr>\<rparr>, co_txPool = NewPool,
     co_stakePool = NewStakingPool 2 10, co_statusErr = None, co_receivedHash = [], co_synced = True, co_ticker = None\<rparr>"

lemma demo_node_head: "\<exists>bc. knows_head node_env (demo_node bc) [node_genesis]"
proof -
  obtain bc where c: "chain_of node_env bc [node_genesis]" using node_starts by blast
  have "chain_of node_env (bc\<lparr>bc_headBlock := Some node_genesis\<rparr>) [node_genesis]" by (rule same_chain_of [OF _ c]) (simp add: same_chain_def)
  moreover have "length (bk_Hash node_genesis) = 32" using node_genesis_ok by (simp add: Block_ok_def)
  ultimately show ?thesis by (intro exI [of _ bc]) (simp add: knows_head_def demo_node_def)
qed

theorem handshake_witness:
  "\<exists>bc. knows_head node_env (demo_node bc) [node_genesis] \<and> snd (snd (metaRequest demo_snappy node_env demo_peers (demo_node bc)
     (served_by (meta_server demo_snappy node_env ''z'' 0 (demo_peers, demo_node bc))))) = None"
proof -
  obtain bc where "knows_head node_env (demo_node bc) [node_genesis]" using demo_node_head by blast
  then show ?thesis using handshake [OF _ _ refl demo_snappy_laws, of node_env "demo_node bc" "[node_genesis]" node_env "demo_node bc" demo_peers "''z''" 0 demo_peers]
    by (auto simp: heads_agree_def)
qed

end
