(* ===== verification/Forger.thy ===== *)
theory Forger
  imports Core
begin

text \<open>
  The block forger (\<^verbatim>\<open>blockchain/consensus/forger/forger.go\<close>): which transactions of the pool enter a block, the reward,
  collapse, system unstake and fee transactions the proposer adds, and the block itself.  The forger changes the transaction
  pool, the slots reserved in the staking pool and its own set of addresses to skip; the chain is only read.  The error
  variable of \<open>ForgeBlock\<close> that a refused stake transaction leaves set is part of the loop's state, as in the code.

  The lemmas show that the transactions of a forged block fit into the size limit of the validator and that its fee
  transaction passes the check of the validator, that a block forged on the head of the stored chain passes every check of
  the validator that does not concern its transactions, and what one refused stake transaction does to the later ones.
\<close>

subsection \<open>State\<close>

text \<open>
  \<open>fo_clock\<close> counts the readings of the clock.  A call ends with a value, an error, or hangs on the mutex of the pool.
\<close>

record forge =
  fo_pool :: Pool
  fo_stake :: StakingPool
  fo_skip :: "(string, unit) gomap"
  fo_clock :: nat

datatype 'a forged = Ok 'a | Err error | Hangs

definition fbind :: "forge \<times> 'a forged \<Rightarrow> (forge \<Rightarrow> 'a \<Rightarrow> forge \<times> 'b forged) \<Rightarrow> forge \<times> 'b forged" where
  "fbind r f = (case r of (st, Ok a) \<Rightarrow> f st a | (st, Err e) \<Rightarrow> (st, Err e) | (st, Hangs) \<Rightarrow> (st, Hangs))"

lemma fbind_simps [simp]: "fbind (st, Ok a) f = f st a" "fbind (st, Err e) f = (st, Err e)" "fbind (st, Hangs) f = (st, Hangs)"
  by (simp_all add: fbind_def)

lemma fbind_Ok: "fbind r f = (st', Ok b) \<longleftrightarrow> (\<exists>st a. r = (st, Ok a) \<and> f st a = (st', Ok b))"
  by (cases r; cases "snd r") (auto simp: fbind_def split: forged.splits)

definition lift_pool :: "forge \<Rightarrow> pool_call \<Rightarrow> forge \<times> (error option) forged" where
  "lift_pool st r = (case r of None \<Rightarrow> (st, Hangs) | Some (pool, Some (Panic m)) \<Rightarrow> (st\<lparr>fo_pool := pool\<rparr>, Err (Panic m))
     | Some (pool, err) \<Rightarrow> (st\<lparr>fo_pool := pool\<rparr>, Ok err))"

text \<open>
  What the forger is configured with and reads: the chain, the outcome of its SQL queries, the proposer's account, the
  validators of the engine, the clock and the slot.
\<close>

record Forger =
  fr_bf :: Service
  fr_query :: "string \<Rightarrow> error option"
  fr_crypto :: crypto
  fr_cfg :: RDOBlockChainConfig
  fr_BlockSize :: nat
  fr_Addr :: bytes
  fr_Key :: bytes
  fr_validators :: "bytes list"
  fr_now :: "nat \<Rightarrow> uint64"
  fr_slot :: uint64

definition ErrZeroFeeAmount :: error where
  "ErrZeroFeeAmount = Sentinel ''Block has no transactions with fee.''"

definition ErrNoStakers :: error where
  "ErrNoStakers = Sentinel ''No stake deposit is registered.''"

definition block_count :: "Forger \<Rightarrow> uint64" where
  "block_count m = GetBlockCount (sv_bc (fr_bf m))"

text \<open>\<^verbatim>\<open>types.NewPbTransaction(opts, nil)\<close>: an unsigned transaction with the current time.\<close>

definition new_tx :: "Forger \<Rightarrow> forge \<Rightarrow> TxOptions \<Rightarrow> forge \<times> PbTransaction forged" where
  "new_tx m st opts = (st\<lparr>fo_clock := Suc (fo_clock st)\<rparr>,
     case NewPbTransaction (fr_crypto m) (fr_now m (fo_clock st)) opts None of Inl e \<Rightarrow> Err e | Inr tx \<Rightarrow> Ok tx)"

definition system_opts :: "TxInput list \<Rightarrow> TxOutput list \<Rightarrow> uint64 \<Rightarrow> uint32 \<Rightarrow> TxOptions" where
  "system_opts ins outs num ty = \<lparr>op_Inputs = ins, op_Outputs = outs, op_Fee = 0, op_Data = [], op_Num = num, op_Type = ty, op_Timestamp = 0\<rparr>"

subsection \<open>Fee and reward transactions\<close>

definition createFeeTx :: "Forger \<Rightarrow> forge \<Rightarrow> PbTransaction list \<Rightarrow> forge \<times> PbTransaction forged" where
  "createFeeTx m st txarr =
    (let feeAmount = sum_list (map GetRealFee txarr) in
     if feeAmount = 0 then (st, Err ErrZeroFeeAmount)
     else new_tx m st (system_opts [] [NewOutput (HexToAddress BlackHoleAddress) feeAmount []] (block_count m) FeeTxType))"

text \<open>The loop of \<open>createRewardTxs\<close>; \<open>outs\<close> are the outputs collected for the next transaction.\<close>

fun reward_txs_loop :: "Forger \<Rightarrow> uint64 \<Rightarrow> forge \<Rightarrow> TxOutput list \<Rightarrow> TxOutput list \<Rightarrow> forge \<times> PbTransaction list forged" where
  "reward_txs_loop m num st outs [] =
    (if length outs > 0 then fbind (new_tx m st (system_opts [] outs num RewardTxType)) (\<lambda>st ntx. (st, Ok [ntx])) else (st, Ok []))"
| "reward_txs_loop m num st outs (out # rest) =
    (if length outs \<ge> 2000
     then fbind (new_tx m st (system_opts [] outs num RewardTxType)) (\<lambda>st ntx.
            fbind (reward_txs_loop m num st [out] rest) (\<lambda>st txs. (st, Ok (ntx # txs))))
     else reward_txs_loop m num st (outs @ [out]) rest)"

definition createRewardTxs :: "Forger \<Rightarrow> forge \<Rightarrow> uint64 \<Rightarrow> string \<Rightarrow> forge \<times> PbTransaction list forged" where
  "createRewardTxs m st blockNum proposer = (case GetRewardOutputs (fr_cfg m) (fo_stake st) proposer of
     Inl e \<Rightarrow> (st, Err e)
   | Inr outs \<Rightarrow> if length outs = 0 then (st, Err ErrNoStakers) else reward_txs_loop m blockNum st [] outs)"

subsection \<open>Collapse transactions\<close>

text \<open>
  \<open>createCollapseTx\<close>: for every output address with at least 100 unspent outputs, a transaction that joins up to 1999 of
  them.  The loop stops at the first transaction that does not fit and after 30 transactions.
\<close>

fun collapse_loop :: "Forger \<Rightarrow> uint64 \<Rightarrow> nat \<Rightarrow> forge \<Rightarrow> Transaction list \<Rightarrow> nat \<Rightarrow> Output list \<Rightarrow> forge \<times> Transaction list forged" where
  "collapse_loop m num totalSize st transactions sizeCounter [] = (st, Ok transactions)"
| "collapse_loop m num totalSize st transactions sizeCounter (out # outs) =
    (let addr = Address_Hex (out_address out) in
     if ghas (fo_skip st) addr then collapse_loop m num totalSize st transactions sizeCounter outs
     else case FindAllUTxO (fr_query m addr) (om_db (sv_outm (fr_bf m))) addr of
       Inl e \<Rightarrow> (st, Err e)
     | Inr utxo \<Rightarrow>
        (let st = st\<lparr>fo_skip := gput addr () (fo_skip st)\<rparr> in
         if length utxo < 100 then collapse_loop m num totalSize st transactions sizeCounter outs
         else (let used = take 1999 utxo; balance = sum_list (map uo_Amount used) in
           fbind (new_tx m st (system_opts (map UTxO_ToPbInput used) [NewOutput (out_address out) balance []] num CollapseTxType)) (\<lambda>st collapseTx.
             if Tx_SizeSSZ collapseTx + sizeCounter + totalSize \<ge> fr_BlockSize m then (st, Ok transactions)
             else (let transactions = transactions @ [NewTransaction collapseTx] in
               if length transactions = 30 then (st, Ok transactions)
               else collapse_loop m num totalSize st transactions (sizeCounter + Tx_SizeSSZ collapseTx) outs)))))"

definition createCollapseTx :: "Forger \<Rightarrow> forge \<Rightarrow> Transaction \<Rightarrow> uint64 \<Rightarrow> nat \<Rightarrow> forge \<times> Transaction list forged" where
  "createCollapseTx m st tx blockNum totalSize =
    (let st = (if tx_txType tx \<noteq> RewardTxType then st\<lparr>fo_skip := gput (from_hex tx) () (fo_skip st)\<rparr> else st) in
     collapse_loop m blockNum totalSize st [] 0 (tx_outputs tx))"

text \<open>
  \<open>addRewardsTxToBatch\<close>: when the pool refuses the collapse transactions, the call returns with the batch so far and
  leaves the remaining rewards out.
\<close>

fun rewards_loop :: "Forger \<Rightarrow> forge \<Rightarrow> PbTransaction list \<Rightarrow> PbTransaction list \<Rightarrow> nat \<Rightarrow> PbTransaction list \<Rightarrow>
    forge \<times> (PbTransaction list \<times> PbTransaction list \<times> nat) forged" where
  "rewards_loop m st txBatch collapseBatch totalSize [] = (st, Ok (txBatch, collapseBatch, totalSize))"
| "rewards_loop m st txBatch collapseBatch totalSize (rewardTx # rest) =
    (let txBatch = txBatch @ [rewardTx]; totalSize = totalSize + Tx_SizeSSZ rewardTx in
     case createCollapseTx m st (NewTransaction rewardTx) (block_count m) totalSize of
       (st, Hangs) \<Rightarrow> (st, Hangs)
     | (st, Err e) \<Rightarrow> (st, Err (Wrap e ''Error collapsing tx outputs''))
     | (st, Ok collapseTx) \<Rightarrow>
         fbind (lift_pool st (InsertCollapseTx (fo_pool st) collapseTx)) (\<lambda>st err.
           if err \<noteq> None then (st, Ok (txBatch, collapseBatch, totalSize))
           else rewards_loop m st txBatch (collapseBatch @ map tx_tx collapseTx) (totalSize + sum_list (map tx_size collapseTx)) rest))"

definition addRewardsTxToBatch :: "Forger \<Rightarrow> forge \<Rightarrow> string \<Rightarrow> PbTransaction list \<Rightarrow> PbTransaction list \<Rightarrow> nat \<Rightarrow>
    forge \<times> (PbTransaction list \<times> PbTransaction list \<times> nat) forged" where
  "addRewardsTxToBatch m st proposer txBatch collapseBatch totalSize = (case createRewardTxs m st (block_count m) proposer of
     (st, Hangs) \<Rightarrow> (st, Hangs)
   | (st, Err e) \<Rightarrow> if errors_Is e ErrNoStakers then (st, Ok (txBatch, collapseBatch, totalSize)) else (st, Err e)
   | (st, Ok rewardTxs) \<Rightarrow> rewards_loop m st txBatch collapseBatch totalSize rewardTxs)"

subsection \<open>Stake transactions\<close>

text \<open>
  The loop over the outputs of a stake transaction: the amount staked on a slot, whether an output names a node, and the
  error variable.
\<close>

fun stake_outputs :: "Forger \<Rightarrow> bytes \<Rightarrow> uint64 \<Rightarrow> bool \<Rightarrow> error option \<Rightarrow> Output list \<Rightarrow> uint64 \<times> bool \<times> error option" where
  "stake_outputs m sender amount hasStake err [] = (amount, hasStake, err)"
| "stake_outputs m sender amount hasStake err (out # outs) =
    (let hasStake = (hasStake \<or> length (out_node out) = AddressLength);
         hole = (Address_Hex (out_node out) = BlackHoleAddress) in
     if hole \<and> \<not> IsValidator (fr_validators m) sender
     then (amount, hasStake, Some (Errorf ''Unauthorized slot reservation''))
     else (let amount = (if hole then amount + out_amount out else amount) in
       if IsValidator (fr_validators m) (out_node out) \<and> IsValidator (fr_validators m) sender
       then (amount, hasStake, Some (Errorf ''A validator can only stake on the BlackHoleAddress''))
       else stake_outputs m sender amount hasStake err outs))"

text \<open>
  The check of a stake transaction: the error variable afterwards and whether the transaction stays in the block.
  \<open>err\<close> is what earlier transactions left in the variable.
\<close>

definition check_stake :: "Forger \<Rightarrow> forge \<Rightarrow> error option \<Rightarrow> Transaction \<Rightarrow> forge \<times> (error option \<times> bool) forged" where
  "check_stake m st err tx = (case stake_outputs m (tx_from tx) 0 False err (tx_outputs tx) of
     (amount, hasStake, err) \<Rightarrow>
       if amount > 0 \<and> err = None
       then (case ReserveSlots (fo_stake st) amount of
          (stake, Some (Panic p)) \<Rightarrow> (st\<lparr>fo_stake := stake\<rparr>, Err (Panic p))
        | (stake, err) \<Rightarrow> (st\<lparr>fo_stake := stake\<rparr>, Ok (err, err = None \<and> hasStake)))
       else (st, Ok (err, err = None \<and> hasStake)))"

subsection \<open>The transactions of a block\<close>

text \<open>The collapse transactions that still fit.\<close>

fun fitting :: "Forger \<Rightarrow> nat \<Rightarrow> Transaction list \<Rightarrow> PbTransaction list \<times> nat" where
  "fitting m totalSize [] = ([], totalSize)"
| "fitting m totalSize (colTx # txs) =
    (if totalSize + tx_size colTx \<ge> fr_BlockSize m then ([], totalSize)
     else (case fitting m (totalSize + tx_size colTx) txs of (left, sz) \<Rightarrow> (tx_tx colTx # left, sz)))"

text \<open>
  The loop over the queue, a list of pointers copied before.  The state of the loop: the error variable, the two batches
  and the size.
\<close>

fun forge_loop :: "Forger \<Rightarrow> int \<Rightarrow> forge \<Rightarrow> error option \<Rightarrow> PbTransaction list \<Rightarrow> PbTransaction list \<Rightarrow> nat \<Rightarrow> ptr list \<Rightarrow>
    forge \<times> (PbTransaction list \<times> PbTransaction list \<times> nat) forged" where
  "forge_loop m txCount st err txBatch collapseBatch totalSize [] = (st, Ok (txBatch, collapseBatch, totalSize))"
| "forge_loop m txCount st err txBatch collapseBatch totalSize (q # qs) =
    (let tx = deref (fo_pool st) q in
     if int (length txBatch + length collapseBatch) = txCount then (st, Ok (txBatch, collapseBatch, totalSize))
     else if tx_dropped tx then forge_loop m txCount st err txBatch collapseBatch totalSize qs
     else if totalSize + tx_size tx > fr_BlockSize m then (st, Ok (txBatch, collapseBatch, totalSize))
     else fbind (if tx_txType tx = StakeTxType then check_stake m st err tx else (st, Ok (err, True))) (\<lambda>st (err, keep).
       if \<not> keep
       then fbind (lift_pool st (DeleteTransaction (fo_pool st) tx)) (\<lambda>st derr.
         (case derr of
            Some e \<Rightarrow> (st, Err (Wrap e ''Error creating block''))
          | None \<Rightarrow> forge_loop m txCount st err txBatch collapseBatch totalSize qs))
       else (let totalSize = totalSize + tx_size tx; txBatch = txBatch @ [tx_tx tx];
                 st = st\<lparr>fo_pool := forge_object (fo_pool st) q\<rparr> in
         case createCollapseTx m st tx (block_count m) totalSize of
           (st, Hangs) \<Rightarrow> (st, Hangs)
         | (st, Err e) \<Rightarrow> (st, Err (Wrap e ''Error collapsing tx outputs''))
         | (st, Ok collapseTx) \<Rightarrow>
            (case fitting m totalSize collapseTx of (left, totalSize) \<Rightarrow>
              fbind (lift_pool st (InsertCollapseTx (fo_pool st) collapseTx)) (\<lambda>st ierr.
                forge_loop m txCount st err txBatch (if ierr = None then collapseBatch @ left else collapseBatch) totalSize qs)))))"

subsection \<open>System unstakes\<close>

definition conflicts :: "PbTransaction list \<Rightarrow> string \<Rightarrow> string \<Rightarrow> bool" where
  "conflicts txBatch elector validator \<longleftrightarrow> (\<exists>t \<in> set txBatch.
     pt_Type t = StakeTxType \<or> pt_Type t = UnstakeTxType
     \<or> (\<exists>out \<in> set (pt_Outputs t). Address_Hex (BytesToAddress (to_Address out)) = elector
          \<and> Address_Hex (BytesToAddress (to_Node out)) = validator)
     \<or> (\<exists>i \<in> set (pt_Inputs t). Address_Hex (BytesToAddress (ti_Address i)) = elector
          \<and> Address_Hex (BytesToAddress (ti_Node i)) = validator))"

fun unstakes_loop :: "Forger \<Rightarrow> PbTransaction list \<Rightarrow> nat \<Rightarrow> uint64 \<Rightarrow> forge \<Rightarrow> PbTransaction list \<Rightarrow> nat \<Rightarrow> (string \<times> string) list \<Rightarrow>
    forge \<times> PbTransaction list forged" where
  "unstakes_loop m txBatch totalSize num st unstakeTxs unstakeSize [] = (st, Ok unstakeTxs)"
| "unstakes_loop m txBatch totalSize num st unstakeTxs unstakeSize ((validator, elector) # rest) =
    (if conflicts txBatch elector validator then unstakes_loop m txBatch totalSize num st unstakeTxs unstakeSize rest
     else case FindStakeDepositsOfAddress (fr_query m elector) (om_db (sv_outm (fr_bf m))) elector validator of
       Inl e \<Rightarrow> (st, Err (Errorf ''Could not get stake deposits''))
     | Inr deposits \<Rightarrow>
        (let used = take 2000 deposits; amount = sum_list (map uo_Amount used) in
         case new_tx m st (system_opts (map UTxO_ToPbInput used) [NewOutput (FromHex elector) amount []] num ValidatorsUnstakeTxType) of
           (st, Hangs) \<Rightarrow> (st, Hangs)
         | (st, Err e) \<Rightarrow> (st, Err (Wrap e ''Error when generating unstake tx: ''))
         | (st, Ok unstakeTx) \<Rightarrow>
             if totalSize + unstakeSize + Tx_SizeSSZ unstakeTx > fr_BlockSize m
             then unstakes_loop m txBatch totalSize num st unstakeTxs unstakeSize rest
             else unstakes_loop m txBatch totalSize num st (unstakeTxs @ [unstakeTx]) (unstakeSize + Tx_SizeSSZ unstakeTx) rest))"

definition generateSystemUnstakes :: "Forger \<Rightarrow> forge \<Rightarrow> PbTransaction list \<Rightarrow> nat \<Rightarrow> uint64 \<Rightarrow> forge \<times> PbTransaction list forged" where
  "generateSystemUnstakes m st txBatch totalSize blockNum = unstakes_loop m txBatch totalSize blockNum st [] 0
     (concat (map (\<lambda>(validator, electors). map (\<lambda>(elector, _). (validator, elector)) electors) (GetFullyUnstaked (fo_stake st))))"

subsection \<open>ForgeBlock\<close>

definition tx_count_limit :: "nat \<Rightarrow> nat \<Rightarrow> nat \<Rightarrow> int" where
  "tx_count_limit queueLen batch collapse =
    (if queueLen < 1000 then int queueLen + int batch + int collapse + 1 else 1000 - int batch - int collapse - 1)"

text \<open>The end of the batch: the fee transaction, if there are fees.\<close>

definition add_fee :: "Forger \<Rightarrow> forge \<Rightarrow> PbTransaction list \<Rightarrow> forge \<times> PbTransaction list forged" where
  "add_fee m st txBatch =
    (if length txBatch > 0
     then (case createFeeTx m st txBatch of
         (st, Hangs) \<Rightarrow> (st, Hangs)
       | (st, Err e) \<Rightarrow> if errors_Is e ErrZeroFeeAmount then (st, Ok txBatch) else (st, Err e)
       | (st, Ok txFee) \<Rightarrow> (st, Ok (txBatch @ [txFee])))
     else (st, Ok txBatch))"

definition forge_transactions :: "sorter \<Rightarrow> Forger \<Rightarrow> forge \<Rightarrow> forge \<times> PbTransaction list forged" where
  "forge_transactions srt m st =
    (let st = st\<lparr>fo_pool := GetQueue srt (fo_pool st)\<rparr>; txQueue = tp_pending (fo_pool st) in
     fbind (addRewardsTxToBatch m st (Address_Hex (fr_Addr m)) [] [] 0) (\<lambda>st (txBatch, collapseBatch, totalSize).
     fbind (forge_loop m (tx_count_limit (length txQueue) (length txBatch) (length collapseBatch)) st None txBatch collapseBatch totalSize txQueue)
       (\<lambda>st (txBatch, collapseBatch, totalSize).
     fbind (generateSystemUnstakes m st (txBatch @ collapseBatch) totalSize (block_count m)) (\<lambda>st systemUnstakes.
       add_fee m st ((txBatch @ collapseBatch) @ systemUnstakes)))))"

definition unlock_pool :: "forge \<times> 'a forged \<Rightarrow> forge \<times> 'a forged" where
  "unlock_pool r = (case r of (st, Hangs) \<Rightarrow> (st, Hangs) | (st, x) \<Rightarrow> (st\<lparr>fo_pool := (fo_pool st)\<lparr>tp_swapLock := False\<rparr>\<rparr>, x))"

definition ForgeBlock :: "sorter \<Rightarrow> Forger \<Rightarrow> forge \<Rightarrow> forge \<times> Block forged" where
  "ForgeBlock srt m st = fbind (lift_pool st (LockPool (fo_pool st))) (\<lambda>st _.
     unlock_pool (fbind (forge_transactions srt m st) (\<lambda>st txBatch.
       (let st = st\<lparr>fo_skip := [], fo_clock := Suc (fo_clock st)\<rparr> in
        (st, case NewBlock (fr_crypto m) (fr_now m (fo_clock st - 1)) (block_count m) (fr_slot m) (ParentHash (sv_bc (fr_bf m))) txBatch (fr_Key m) of
               Inl e \<Rightarrow> Err e | Inr block \<Rightarrow> Ok block)))))"

subsection \<open>The size of a block\<close>

definition countTXsSize :: "PbTransaction list \<Rightarrow> nat" where
  "countTXsSize txs = sum_list (map Tx_SizeSSZ txs)"

lemma countTXsSize_simps [simp]: "countTXsSize [] = 0" "countTXsSize (t # ts) = Tx_SizeSSZ t + countTXsSize ts"
  "countTXsSize (ts @ us) = countTXsSize ts + countTXsSize us"
  by (simp_all add: countTXsSize_def)

text \<open>
  A transaction is fair if it is a reward without a fee or pays out what it spends less its fee.  The objects of the pool carry the size and
  type of their transaction, as \<open>NewTransaction\<close> sets it, and are fair when they passed the validator.
\<close>

definition fair :: "PbTransaction \<Rightarrow> bool" where
  "fair t \<longleftrightarrow> (if pt_Type t = RewardTxType then pt_Fee t = 0 else sum_list (map ti_Amount (pt_Inputs t)) = out_sum t + GetRealFee t)"

definition sized :: "Transaction \<Rightarrow> bool" where
  "sized tx \<longleftrightarrow> tx_size tx = Tx_SizeSSZ (tx_tx tx) \<and> tx_txType tx = pt_Type (tx_tx tx) \<and> fair (tx_tx tx)"

lemma sized_new: "fair t \<Longrightarrow> sized (NewTransaction t)"
  by (simp add: sized_def NewTransaction_def Let_def)

lemma sized_sum: "\<forall>tx \<in> set txs. sized tx \<Longrightarrow> sum_list (map tx_size txs) = countTXsSize (map tx_tx txs)"
  by (induction txs) (simp_all add: sized_def)

lemma sized_Forge [simp]: "sized (Forge tx) = sized tx"
  by (simp add: sized_def Forge_def)

definition pool_sized :: "Pool \<Rightarrow> bool" where
  "pool_sized p \<longleftrightarrow> (\<forall>tx \<in> set (tp_heap p). sized tx)"

text \<open>The pool \<open>p'\<close> has the objects of \<open>p\<close>, maybe marked, and more of them.\<close>

definition keeps_objects :: "Pool \<Rightarrow> Pool \<Rightarrow> bool" where
  "keeps_objects p p' \<longleftrightarrow> (pool_sized p \<longrightarrow> pool_sized p') \<and> length (tp_heap p) \<le> length (tp_heap p')"

lemma keeps_refl [simp]: "keeps_objects p p" "keeps_objects p (p\<lparr>tp_swapLock := b\<rparr>)" "keeps_objects p (GetQueue srt p)"
  by (simp_all add: keeps_objects_def pool_sized_def GetQueue_def)

lemma keeps_trans: "keeps_objects p q \<Longrightarrow> keeps_objects q r \<Longrightarrow> keeps_objects p r"
  by (auto simp: keeps_objects_def)

lemma keeps_forge: "keeps_objects p (forge_object p q)"
proof (cases "q < length (tp_heap p)")
  case True
  then have "deref p q \<in> set (tp_heap p)" by (simp add: deref_def)
  then show ?thesis
    using set_update_subset_insert [of "tp_heap p" q "Forge (deref p q)"]
    by (fastforce simp: keeps_objects_def pool_sized_def forge_object_def)
qed (simp add: keeps_objects_def pool_sized_def forge_object_def list_update_beyond)

lemma keeps_delete: "DeleteTransaction p tx = Some (p', e) \<Longrightarrow> keeps_objects p p'"
  by (auto simp: DeleteTransaction_def remove_found_def cleanTransactionMap_def keeps_objects_def pool_sized_def split: option.splits if_splits)

lemma keeps_insert_loop: "insert_collapse_loop p txs = (p', e) \<Longrightarrow> \<forall>tx \<in> set txs. sized tx \<Longrightarrow> keeps_objects p p'"
proof (induction txs arbitrary: p)
  case (Cons tx txs)
  show ?case
  proof (cases "tx_txType tx \<noteq> CollapseTxType \<or> (\<exists>s \<in> set (input_senders tx). ghas (tp_txSenderMap p) s)")
    case True
    then show ?thesis using Cons.prems by (auto simp: Let_def split: if_splits)
  next
    case False
    define p1 where "p1 = p\<lparr>tp_heap := tp_heap p @ [tx], tp_txHashMap := gput (hash_hex tx) (length (tp_heap p)) (tp_txHashMap p),
      tp_txSenderMap := fold (\<lambda>s m. gput s (length (tp_heap p)) m) (input_senders tx) (tp_txSenderMap p)\<rparr>"
    have "insert_collapse_loop p1 txs = (p', e)"
      using Cons.prems(1) False by (simp add: p1_def new_object_def Let_def)
    moreover have "keeps_objects p p1" using Cons.prems(2) by (auto simp: p1_def keeps_objects_def pool_sized_def)
    ultimately show ?thesis
      using Cons.IH [of p1] Cons.prems(2) keeps_trans by (meson list.set_intros(2))
  qed
qed simp

lemma keeps_insert: "InsertCollapseTx p txs = Some (p', e) \<Longrightarrow> \<forall>tx \<in> set txs. sized tx \<Longrightarrow> keeps_objects p p'"
  by (auto simp: InsertCollapseTx_def split: if_splits intro: keeps_insert_loop)

lemma lift_pool_Ok:
  "lift_pool st r = (st', Ok e) \<longleftrightarrow> (\<exists>pool. r = Some (pool, e) \<and> st' = st\<lparr>fo_pool := pool\<rparr> \<and> (\<forall>m. e \<noteq> Some (Panic m)))"
  by (auto simp: lift_pool_def split: option.splits error.splits)

lemma new_tx_Ok:
  assumes "new_tx m st opts = (st', Ok tx)"
  shows "fo_pool st' = fo_pool st" "fo_stake st' = fo_stake st" "pt_Type tx = op_Type opts" "pt_Num tx = op_Num opts"
    "pt_Fee tx = op_Fee opts" "pt_Inputs tx = op_Inputs opts" "pt_Outputs tx = op_Outputs opts"
  using assms by (auto simp: new_tx_def NewPbTransaction_def Let_def split: sum.splits)

lemma joined_fair:
  assumes "new_tx m st (system_opts (map UTxO_ToPbInput us) [NewOutput a (sum_list (map uo_Amount us)) []] num ty) = (st', Ok tx)" "ty \<noteq> RewardTxType"
  shows "fair tx"
proof -
  have "ti_Amount (UTxO_ToPbInput u) = uo_Amount u" for u
    by (simp add: UTxO_ToPbInput_def NewInput_def UTxO_ToOutput_def NewOutput_def)
  then show ?thesis
    using new_tx_Ok [OF assms(1)] assms(2) by (simp add: fair_def out_sum_def GetRealFee_def system_opts_def NewOutput_def comp_def)
qed

lemma collapse_loop_ok:
  assumes "collapse_loop m num T st txs sc outs = (st', Ok R)"
    and "\<forall>tx \<in> set txs. sized tx \<and> pt_Type (tx_tx tx) = CollapseTxType" "sum_list (map tx_size txs) = sc" "txs = [] \<or> sc + T < fr_BlockSize m"
  shows "fo_pool st' = fo_pool st \<and> fo_stake st' = fo_stake st \<and> (\<forall>tx \<in> set R. sized tx \<and> pt_Type (tx_tx tx) = CollapseTxType)
    \<and> (R = [] \<or> sum_list (map tx_size R) + T < fr_BlockSize m)"
  using assms
proof (induction outs arbitrary: st txs sc)
  case (Cons out outs)
  let ?a = "Address_Hex (out_address out)"
  consider (skip) "ghas (fo_skip st) ?a"
    | (few) us where "\<not> ghas (fo_skip st) ?a" "FindAllUTxO (fr_query m ?a) (om_db (sv_outm (fr_bf m))) ?a = Inr us" "length us < 100"
    | (new) us where "\<not> ghas (fo_skip st) ?a" "FindAllUTxO (fr_query m ?a) (om_db (sv_outm (fr_bf m))) ?a = Inr us" "\<not> length us < 100"
    using Cons.prems(1) by (cases "ghas (fo_skip st) ?a") (auto simp: Let_def split: sum.splits)
  then show ?case
  proof cases
    case skip
    then show ?thesis using Cons.prems Cons.IH [of st txs sc] by (simp add: Let_def)
  next
    case few
    then show ?thesis using Cons.prems Cons.IH [of "st\<lparr>fo_skip := gput ?a () (fo_skip st)\<rparr>" txs sc] by (simp add: Let_def)
  next
    case new
    let ?st = "st\<lparr>fo_skip := gput ?a () (fo_skip st)\<rparr>"
    let ?opts = "system_opts (map UTxO_ToPbInput (take 1999 us)) [NewOutput (out_address out) (sum_list (map uo_Amount (take 1999 us))) []] num CollapseTxType"
    obtain st1 tx where n: "new_tx m ?st ?opts = (st1, Ok tx)"
      and rest: "(if Tx_SizeSSZ tx + sc + T \<ge> fr_BlockSize m then (st1, Ok txs)
        else (let transactions = txs @ [NewTransaction tx] in
          if length transactions = 30 then (st1, Ok transactions)
          else collapse_loop m num T st1 transactions (sc + Tx_SizeSSZ tx) outs)) = (st', Ok R)"
      using Cons.prems(1) new by (auto simp: Let_def fbind_Ok)
    note N = new_tx_Ok [OF n]
    have t: "tx_tx (NewTransaction tx) = tx" "tx_size (NewTransaction tx) = Tx_SizeSSZ tx" "pt_Type tx = CollapseTxType"
      "sized (NewTransaction tx)"
      using N sized_new [OF joined_fair [OF n]] by (simp_all add: NewTransaction_def Let_def system_opts_def)
    show ?thesis
      using rest Cons.prems(2-) N(1,2) t Cons.IH [of st1 "txs @ [NewTransaction tx]" "sc + Tx_SizeSSZ tx"]
      by (auto simp: Let_def split: if_splits)
  qed
qed simp

lemma createCollapseTx_ok:
  assumes "createCollapseTx m st tx num T = (st', Ok R)"
  shows "fo_pool st' = fo_pool st" "fo_stake st' = fo_stake st" "\<forall>tx \<in> set R. sized tx \<and> pt_Type (tx_tx tx) = CollapseTxType"
    "R = [] \<or> sum_list (map tx_size R) + T < fr_BlockSize m"
  using assms collapse_loop_ok [of m num T _ "[]" 0 "tx_outputs tx" st' R] by (auto simp: createCollapseTx_def Let_def split: if_splits)

lemma fitting_ok:
  assumes "fitting m T txs = (left, T')" "\<forall>tx \<in> set txs. sized tx"
  shows "T' = T + countTXsSize left" "T' = T \<or> T' < fr_BlockSize m" "set left \<subseteq> tx_tx ` set txs"
  using assms by (induction txs arbitrary: T left) (fastforce simp: sized_def split: if_splits prod.splits)+

text \<open>The batches so far, with the size that the forger counts.\<close>

definition batch_ok :: "Forger \<Rightarrow> PbTransaction list \<times> PbTransaction list \<times> nat \<Rightarrow> bool" where
  "batch_ok m r = (case r of (txs, cs, T) \<Rightarrow> countTXsSize txs + countTXsSize cs \<le> T \<and> (\<forall>t \<in> set (txs @ cs). fair t)
     \<and> (T \<le> fr_BlockSize m \<or> (\<forall>t \<in> set (txs @ cs). pt_Type t = RewardTxType \<or> pt_Type t = CollapseTxType)))"

lemma reward_txs_loop_ok:
  "reward_txs_loop m num st outs rest = (st', Ok txs) \<Longrightarrow>
   fo_pool st' = fo_pool st \<and> fo_stake st' = fo_stake st \<and> (\<forall>t \<in> set txs. pt_Type t = RewardTxType \<and> pt_Fee t = 0)"
proof (induction rest arbitrary: st outs txs)
  case Nil
  then show ?case by (auto simp: fbind_Ok system_opts_def dest: new_tx_Ok split: if_splits)
next
  case (Cons out rest)
  show ?case
  proof (cases "length outs \<ge> 2000")
    case True
    then obtain st1 t ts where n: "new_tx m st (system_opts [] outs num RewardTxType) = (st1, Ok t)"
      and r: "reward_txs_loop m num st1 [out] rest = (st', Ok ts)" "txs = t # ts"
      using Cons.prems by (auto simp: fbind_Ok)
    then show ?thesis using Cons.IH [OF r(1)] new_tx_Ok [OF n] by (simp add: system_opts_def)
  qed (use Cons in simp)
qed

lemma new_tx_pool [simp]: "fo_pool (fst (new_tx m st opts)) = fo_pool st" "fo_stake (fst (new_tx m st opts)) = fo_stake st"
  by (simp_all add: new_tx_def)

lemma fbind_pool:
  "fo_pool (fst r) = p \<Longrightarrow> (\<And>st a. fo_pool st = p \<Longrightarrow> fo_pool (fst (f st a)) = p) \<Longrightarrow> fo_pool (fst (fbind r f)) = p"
  by (cases r) (auto simp: fbind_def split: forged.splits)

lemma reward_txs_loop_pool: "fo_pool (fst (reward_txs_loop m num st outs rest)) = fo_pool st"
proof (induction rest arbitrary: st outs)
  case Nil
  show ?case by (simp add: fbind_pool)
next
  case (Cons out rest)
  then show ?case by (auto intro!: fbind_pool)
qed

lemma createRewardTxs_pool: "fo_pool (fst (createRewardTxs m st num proposer)) = fo_pool st"
  by (simp add: createRewardTxs_def reward_txs_loop_pool split: sum.split)

lemma createRewardTxs_ok:
  "createRewardTxs m st num proposer = (st', Ok txs) \<Longrightarrow>
   fo_pool st' = fo_pool st \<and> fo_stake st' = fo_stake st \<and> (\<forall>t \<in> set txs. pt_Type t = RewardTxType \<and> pt_Fee t = 0)"
  by (auto simp: createRewardTxs_def split: sum.splits if_splits dest: reward_txs_loop_ok)

lemma reward_fair: "pt_Type t = RewardTxType \<Longrightarrow> pt_Fee t = 0 \<Longrightarrow> fair t"
  by (simp add: fair_def)

lemma rewards_loop_ok:
  assumes "rewards_loop m st txs cs T rs = (st', Ok r)" "\<forall>t \<in> set rs. pt_Type t = RewardTxType \<and> pt_Fee t = 0"
    and "countTXsSize txs + countTXsSize cs = T" "\<forall>t \<in> set (txs @ cs). fair t" "\<forall>t \<in> set (txs @ cs). pt_Type t = RewardTxType \<or> pt_Type t = CollapseTxType"
  shows "keeps_objects (fo_pool st) (fo_pool st') \<and> batch_ok m r"
  using assms
proof (induction rs arbitrary: st txs cs T)
  case Nil
  then show ?case by (auto simp: batch_ok_def)
next
  case (Cons rw rs)
  obtain st1 col where c: "createCollapseTx m st (NewTransaction rw) (block_count m) (T + Tx_SizeSSZ rw) = (st1, Ok col)"
    using Cons.prems(1) by (auto simp: Let_def split: prod.splits forged.splits)
  note C = createCollapseTx_ok [OF c]
  have sum: "sum_list (map tx_size col) = countTXsSize (map tx_tx col)"
    using C(3) by (intro sized_sum) blast
  have col: "\<forall>t \<in> set (map tx_tx col). fair t \<and> pt_Type t = CollapseTxType" using C(3) by (auto simp: sized_def)
  obtain pool e where i: "InsertCollapseTx (fo_pool st1) col = Some (pool, e)"
    and rest: "(if e \<noteq> None then (st1\<lparr>fo_pool := pool\<rparr>, Ok (txs @ [rw], cs, T + Tx_SizeSSZ rw))
      else rewards_loop m (st1\<lparr>fo_pool := pool\<rparr>) (txs @ [rw]) (cs @ map tx_tx col) (T + Tx_SizeSSZ rw + sum_list (map tx_size col)) rs) = (st', Ok r)"
    using Cons.prems(1) c by (auto simp: Let_def fbind_Ok lift_pool_Ok)
  have k: "keeps_objects (fo_pool st) pool" using keeps_insert [OF i] C(1,3) by simp
  show ?case
  proof (cases "e = None")
    case True
    then have "keeps_objects pool (fo_pool st') \<and> batch_ok m r"
      using rest Cons.prems col sum reward_fair [of rw] Cons.IH [of "st1\<lparr>fo_pool := pool\<rparr>" "txs @ [rw]" "cs @ map tx_tx col" "T + Tx_SizeSSZ rw + sum_list (map tx_size col)"]
      by auto
    then show ?thesis using keeps_trans [OF k] by blast
  next
    case False
    then show ?thesis using rest Cons.prems k reward_fair [of rw] by (auto simp: batch_ok_def)
  qed
qed

lemma addRewards_ok:
  assumes "addRewardsTxToBatch m st proposer [] [] 0 = (st', Ok r)"
  shows "keeps_objects (fo_pool st) (fo_pool st') \<and> batch_ok m r"
proof -
  obtain st1 x where c: "createRewardTxs m st (block_count m) proposer = (st1, x)" by fastforce
  show ?thesis
  proof (cases x)
    case (Ok rs)
    then show ?thesis
      using assms c createRewardTxs_ok [of m st "block_count m" proposer st1 rs] rewards_loop_ok [of m st1 "[]" "[]" 0 rs st' r]
      by (simp add: addRewardsTxToBatch_def)
  next
    case (Err e)
    have "fo_pool st1 = fo_pool st"
      using createRewardTxs_pool [of m st "block_count m" proposer] c by simp
    then show ?thesis
      using assms c Err by (auto simp: addRewardsTxToBatch_def batch_ok_def split: if_splits)
  qed (use assms c in \<open>simp add: addRewardsTxToBatch_def\<close>)
qed

lemma check_stake_pool: "check_stake m st err tx = (st', Ok r) \<Longrightarrow> fo_pool st' = fo_pool st"
  by (auto simp: check_stake_def split: prod.splits if_splits option.splits error.splits)

text \<open>One transaction that is kept: what it adds to the batches.\<close>

lemma batch_ok_tx:
  assumes "batch_ok m (txs, cs, T)" "T + Tx_SizeSSZ t \<le> fr_BlockSize m" "fair t" "fitting m (T + Tx_SizeSSZ t) col = (left, T')" "\<forall>tx \<in> set col. sized tx"
  shows "batch_ok m (txs @ [t], cs @ left, T')" "batch_ok m (txs @ [t], cs, T')"
proof -
  note F = fitting_ok [OF assms(4,5)]
  have "\<forall>t \<in> set left. fair t" using F(3) assms(5) by (auto simp: sized_def)
  then show "batch_ok m (txs @ [t], cs @ left, T')" "batch_ok m (txs @ [t], cs, T')"
    using assms(1-3) F(1,2) by (auto simp: batch_ok_def)
qed

lemma forge_loop_ok:
  assumes "forge_loop m n st err txs cs T qs = (st', Ok r)" "pool_sized (fo_pool st)" "\<forall>q \<in> set qs. q < length (tp_heap (fo_pool st))"
    and "batch_ok m (txs, cs, T)"
  shows "batch_ok m r"
  using assms
proof (induction qs arbitrary: st err txs cs T)
  case (Cons q qs)
  define tx where "tx = deref (fo_pool st) q"
  have sz: "sized tx" using Cons.prems(2,3) by (simp add: tx_def deref_def pool_sized_def)
  show ?case
  proof (cases "int (length txs + length cs) = n \<or> tx_dropped tx \<or> T + tx_size tx > fr_BlockSize m")
    case True
    then show ?thesis using Cons.prems Cons.IH [of st err txs cs T] by (auto simp: tx_def Let_def split: if_splits)
  next
    case False
    let ?chk = "if tx_txType tx = StakeTxType then check_stake m st err tx else (st, Ok (err, True))"
    obtain st1 err1 keep where c: "?chk = (st1, Ok (err1, keep))"
      and rest: "(if \<not> keep
       then fbind (lift_pool st1 (DeleteTransaction (fo_pool st1) tx)) (\<lambda>st derr.
         (case derr of
            Some e \<Rightarrow> (st, Err (Wrap e ''Error creating block''))
          | None \<Rightarrow> forge_loop m n st err1 txs cs T qs))
       else (let totalSize = T + tx_size tx; txBatch = txs @ [tx_tx tx];
                 st = st1\<lparr>fo_pool := forge_object (fo_pool st1) q\<rparr> in
         case createCollapseTx m st tx (block_count m) totalSize of
           (st, Hangs) \<Rightarrow> (st, Hangs)
         | (st, Err e) \<Rightarrow> (st, Err (Wrap e ''Error collapsing tx outputs''))
         | (st, Ok collapseTx) \<Rightarrow>
            (case fitting m totalSize collapseTx of (left, totalSize) \<Rightarrow>
              fbind (lift_pool st (InsertCollapseTx (fo_pool st) collapseTx)) (\<lambda>st ierr.
                forge_loop m n st err1 txBatch (if ierr = None then cs @ left else cs) totalSize qs)))) = (st', Ok r)"
      using Cons.prems(1) False unfolding forge_loop.simps tx_def [symmetric] Let_def by (auto simp: fbind_Ok)
    have p1: "fo_pool st1 = fo_pool st" using c by (auto split: if_splits dest: check_stake_pool)
    have next_ok: "batch_ok m r"
      if "keeps_objects (fo_pool st) (fo_pool st2)" "forge_loop m n st2 err1 txs2 cs2 T2 qs = (st', Ok r)" "batch_ok m (txs2, cs2, T2)" for st2 txs2 cs2 T2
      using that Cons.prems(2,3) by (intro Cons.IH [of st2 err1 txs2 cs2 T2]) (auto simp: keeps_objects_def)
    show ?thesis
    proof (cases keep)
      case False
      then obtain pool where "DeleteTransaction (fo_pool st1) tx = Some (pool, None)"
        "forge_loop m n (st1\<lparr>fo_pool := pool\<rparr>) err1 txs cs T qs = (st', Ok r)"
        using rest by (auto simp: fbind_Ok lift_pool_Ok split: option.splits)
      then show ?thesis
        using next_ok [of "st1\<lparr>fo_pool := pool\<rparr>"] keeps_delete p1 Cons.prems(4) by simp
    next
      case True
      let ?st = "st1\<lparr>fo_pool := forge_object (fo_pool st1) q\<rparr>"
      obtain st2 col where k: "createCollapseTx m ?st tx (block_count m) (T + tx_size tx) = (st2, Ok col)"
        using rest True by (auto simp: Let_def split: prod.splits forged.splits)
      obtain left T' where f: "fitting m (T + tx_size tx) col = (left, T')" by fastforce
      obtain pool e where i: "InsertCollapseTx (fo_pool st2) col = Some (pool, e)"
        and l: "forge_loop m n (st2\<lparr>fo_pool := pool\<rparr>) err1 (txs @ [tx_tx tx]) (if e = None then cs @ left else cs) T' qs = (st', Ok r)"
        using rest True k f by (auto simp: Let_def fbind_Ok lift_pool_Ok)
      note C = createCollapseTx_ok [OF k]
      have "keeps_objects (fo_pool st) pool"
        using keeps_insert [OF i] C(1,3) keeps_trans [OF keeps_forge [of "fo_pool st" q]] p1 by simp
      moreover have "batch_ok m (txs @ [tx_tx tx], if e = None then cs @ left else cs, T')"
        using batch_ok_tx [OF Cons.prems(4), of "tx_tx tx" col left T'] \<open>\<not> (_ \<or> _ \<or> _)\<close> sz f C(3) by (simp add: sized_def)
      ultimately show ?thesis using next_ok [of "st2\<lparr>fo_pool := pool\<rparr>"] l by simp
    qed
  qed
qed simp

lemma unstakes_loop_ok:
  assumes "unstakes_loop m batch T num st us u ves = (st', Ok r)" "u = countTXsSize us" "us = [] \<or> T + u \<le> fr_BlockSize m"
    and "\<forall>t \<in> set us. fair t"
  shows "(r = [] \<or> T + countTXsSize r \<le> fr_BlockSize m) \<and> (\<forall>t \<in> set r. fair t)"
  using assms
proof (induction ves arbitrary: st us u)
  case (Cons ve ves)
  obtain v e where ve: "ve = (v, e)" by fastforce
  show ?case
  proof (cases "conflicts batch e v")
    case True
    then show ?thesis using Cons.prems Cons.IH [of st us u] by (simp add: ve)
  next
    case False
    obtain ds where d: "FindStakeDepositsOfAddress (fr_query m e) (om_db (sv_outm (fr_bf m))) e v = Inr ds"
      using Cons.prems(1) False by (auto simp: ve split: sum.splits)
    obtain st1 x where n: "new_tx m st (system_opts (map UTxO_ToPbInput (take 2000 ds))
        [NewOutput (FromHex e) (sum_list (map uo_Amount (take 2000 ds))) []] num ValidatorsUnstakeTxType) = (st1, x)" by fastforce
    show ?thesis
    proof (cases x)
      case (Ok t)
      then have "fair t" using n by (auto intro: joined_fair)
      then show ?thesis
        using Cons.prems d False n Ok Cons.IH [of st1 us u] Cons.IH [of st1 "us @ [t]" "u + Tx_SizeSSZ t"]
        by (simp add: ve Let_def split: if_splits)
    qed (use Cons.prems d False n in \<open>simp_all add: ve Let_def\<close>)
  qed
qed simp

text \<open>Collecting the transactions of a block: the batch before the fee transaction, and the fee transaction.\<close>

lemma add_fee_ok:
  assumes "add_fee m st batch = (st', Ok txs)"
  shows "txs = batch \<or> (\<exists>fee. createFeeTx m st batch = (st', Ok fee) \<and> txs = batch @ [fee])"
    and "sha_ok (sha256 (fr_crypto m)) \<Longrightarrow> sum_list (map GetRealFee batch) \<noteq> 0 \<Longrightarrow>
      \<exists>fee. createFeeTx m st batch = (st', Ok fee) \<and> txs = batch @ [fee]"
proof -
  obtain st1 x where f: "createFeeTx m st batch = (st1, x)" by fastforce
  then show "txs = batch \<or> (\<exists>fee. createFeeTx m st batch = (st', Ok fee) \<and> txs = batch @ [fee])"
    using assms by (cases x) (auto simp: add_fee_def split: if_splits)
  assume sha: "sha_ok (sha256 (fr_crypto m))" and nz: "sum_list (map GetRealFee batch) \<noteq> 0"
  have "length (HexToAddress BlackHoleAddress) = 20" by code_simp
  then have "outRoot (fr_crypto m) (NewOutput (HexToAddress BlackHoleAddress) (sum_list (map GetRealFee batch)) []) =
      Inr (TxOutput_root (sha256 (fr_crypto m)) (NewOutput (HexToAddress BlackHoleAddress) (sum_list (map GetRealFee batch)) []))"
    using HashTreeRoot_iff(2) [OF sha] by (simp add: outRoot_def NewOutput_def)
  then obtain rt where rt: "outRoot (fr_crypto m) (NewOutput (HexToAddress BlackHoleAddress) (sum_list (map GetRealFee batch)) []) = Inr rt" by blast
  have "\<exists>y. x = Ok y"
    using f nz rt by (auto simp: createFeeTx_def new_tx_def system_opts_def NewPbTransaction_def TxHash_def Let_def)
  then show "\<exists>fee. createFeeTx m st batch = (st', Ok fee) \<and> txs = batch @ [fee]"
    using assms f nz by (auto simp: add_fee_def split: if_splits)
qed

lemma forge_transactions_ok:
  assumes "forge_transactions srt m st = (st', Ok txs)"
  obtains st1 st2 st3 r txs1 cs T us where "keeps_objects (fo_pool st) (fo_pool st1)" "batch_ok m r"
    "\<exists>n. forge_loop m n st1 None (fst r) (fst (snd r)) (snd (snd r)) (tp_pending (GetQueue srt (fo_pool st))) = (st2, Ok (txs1, cs, T))"
    "us = [] \<or> T + countTXsSize us \<le> fr_BlockSize m" "\<forall>t \<in> set us. fair t" "add_fee m st3 ((txs1 @ cs) @ us) = (st', Ok txs)"
proof -
  let ?st0 = "st\<lparr>fo_pool := GetQueue srt (fo_pool st)\<rparr>" and ?q = "tp_pending (GetQueue srt (fo_pool st))"
  obtain st1 r where a: "addRewardsTxToBatch m ?st0 (Address_Hex (fr_Addr m)) [] [] 0 = (st1, Ok r)"
    and k: "(case r of (txBatch, collapseBatch, totalSize) \<Rightarrow>
     fbind (forge_loop m (tx_count_limit (length ?q) (length txBatch) (length collapseBatch)) st1 None txBatch collapseBatch totalSize ?q)
       (\<lambda>st (txBatch, collapseBatch, totalSize).
     fbind (generateSystemUnstakes m st (txBatch @ collapseBatch) totalSize (block_count m)) (\<lambda>st systemUnstakes.
       add_fee m st ((txBatch @ collapseBatch) @ systemUnstakes)))) = (st', Ok txs)"
    using assms unfolding forge_transactions_def Let_def fbind_Ok by auto
  obtain b0 c0 T0 where r: "r = (b0, c0, T0)" by (cases r)
  obtain st2 r2 where l: "forge_loop m (tx_count_limit (length ?q) (length b0) (length c0)) st1 None b0 c0 T0 ?q = (st2, Ok r2)"
    and k2: "(case r2 of (txBatch, collapseBatch, totalSize) \<Rightarrow>
     fbind (generateSystemUnstakes m st2 (txBatch @ collapseBatch) totalSize (block_count m)) (\<lambda>st systemUnstakes.
       add_fee m st ((txBatch @ collapseBatch) @ systemUnstakes))) = (st', Ok txs)"
    using k unfolding r prod.case fbind_Ok by (elim exE conjE) (rule that)
  obtain txs1 cs T where r2: "r2 = (txs1, cs, T)" by (cases r2)
  obtain st3 us where g: "generateSystemUnstakes m st2 (txs1 @ cs) T (block_count m) = (st3, Ok us)"
    and fe: "add_fee m st3 ((txs1 @ cs) @ us) = (st', Ok txs)"
    using k2 unfolding r2 prod.case fbind_Ok by (elim exE conjE) (rule that)
  have "(us = [] \<or> T + countTXsSize us \<le> fr_BlockSize m) \<and> (\<forall>t \<in> set us. fair t)"
    using g unfolding generateSystemUnstakes_def by (rule unstakes_loop_ok) simp_all
  moreover have "keeps_objects (fo_pool st) (fo_pool st1)" "batch_ok m r"
    using addRewards_ok [OF a] keeps_trans [OF keeps_refl(3) [of "fo_pool st" srt]] by auto
  ultimately show thesis using that [of st1 r st2 txs1 cs T us st3] l fe by (auto simp: r r2)
qed

subsection \<open>What a forged block contains\<close>

text \<open>
  The pool is in order for forging: its pending entries point to objects, and every object carries the size and the
  type of its transaction and is fair.
\<close>

definition forge_ready :: "Pool \<Rightarrow> bool" where
  "forge_ready p \<longleftrightarrow> pool_sized p \<and> (\<forall>q \<in> set (tp_pending p). q < length (tp_heap p))"

lemma queue_set: "sort_ok srt \<Longrightarrow> set (tp_pending (GetQueue srt p)) = set (tp_pending p)"
proof -
  assume "sort_ok srt"
  then have "mset (srt lt xs) = mset xs" for lt xs by (simp add: sort_ok_def)
  then have "set (srt lt xs) = set xs" for lt xs by (rule mset_eq_setD)
  then show ?thesis by (simp add: GetQueue_def)
qed

lemma ForgeBlock_Ok:
  assumes "ForgeBlock srt m st = (st', Ok b)"
  obtains st0 st1 txs where "fo_pool st0 = (fo_pool st)\<lparr>tp_swapLock := True\<rparr>" "forge_transactions srt m st0 = (st1, Ok txs)"
    "NewBlock (fr_crypto m) (fr_now m (fo_clock st1)) (block_count m) (fr_slot m) (ParentHash (sv_bc (fr_bf m))) txs (fr_Key m) = Inr b"
proof -
  obtain st0 x where l: "lift_pool st (LockPool (fo_pool st)) = (st0, Ok x)"
    and u: "unlock_pool (fbind (forge_transactions srt m st0) (\<lambda>st txBatch.
       (let st = st\<lparr>fo_skip := [], fo_clock := Suc (fo_clock st)\<rparr> in
        (st, case NewBlock (fr_crypto m) (fr_now m (fo_clock st - 1)) (block_count m) (fr_slot m) (ParentHash (sv_bc (fr_bf m))) txBatch (fr_Key m) of
               Inl e \<Rightarrow> Err e | Inr block \<Rightarrow> Ok block)))) = (st', Ok b)"
    using assms unfolding ForgeBlock_def fbind_Ok by (elim exE conjE) (rule that)
  have p: "fo_pool st0 = (fo_pool st)\<lparr>tp_swapLock := True\<rparr>"
    using l by (auto simp: LockPool_def lift_pool_Ok split: if_splits)
  obtain st1 y where f: "forge_transactions srt m st0 = (st1, y)" by fastforce
  show thesis
    using that [OF p, of st1] u f by (cases y) (auto simp: unlock_pool_def split: sum.splits)
qed

lemma ForgeBlock_new:
  assumes "ForgeBlock srt m st = (st', Ok b)"
  shows "\<exists>t txs. NewBlock (fr_crypto m) (fr_now m t) (block_count m) (fr_slot m) (ParentHash (sv_bc (fr_bf m))) txs (fr_Key m) = Inr b"
  by (rule ForgeBlock_Ok [OF assms]) blast

lemma forged_fields:
  assumes "NewBlock c t n sl par txs key = Inr b"
  shows "bk_Num b = n" "bk_Parent b = par" "bk_Timestamp b = t" "bk_Transactions b = txs" "bk_Approvers b = []" "bk_Slashers b = []"
    "GenTxRoot c txs = Inr (bk_Txroot b)" "bk_Version b = [1, 0, 0]"
    "bk_Hash b = BlockHash c (bk_Num b) (bk_Slot b) (bk_Version b) (bk_Parent b) (bk_Txroot b) (bk_Timestamp b) (sg_Address (bk_Proposer b))"
    "BlockSigner_Sign c (NewHeader b) key = Inr (bk_Proposer b)"
  using assms by (auto simp: NewBlock_def Let_def signBlock_def NewHeader_def split: sum.splits)

lemma forged_batch:
  assumes f: "ForgeBlock srt m st = (st', Ok b)" and p: "forge_ready (fo_pool st)" "sort_ok srt"
  obtains batch st3 st4 where "\<forall>t \<in> set batch. fair t"
    "countTXsSize batch \<le> fr_BlockSize m \<or> (\<forall>t \<in> set batch. pt_Type t = RewardTxType \<or> pt_Type t = CollapseTxType)"
    "bk_Transactions b = batch \<or> (\<exists>fee. createFeeTx m st3 batch = (st4, Ok fee) \<and> bk_Transactions b = batch @ [fee])"
    "sha_ok (sha256 (fr_crypto m)) \<Longrightarrow> sum_list (map GetRealFee batch) \<noteq> 0 \<Longrightarrow>
      \<exists>fee. createFeeTx m st3 batch = (st4, Ok fee) \<and> bk_Transactions b = batch @ [fee]"
proof -
  obtain st0 st1 txs where p0: "fo_pool st0 = (fo_pool st)\<lparr>tp_swapLock := True\<rparr>" and t: "forge_transactions srt m st0 = (st1, Ok txs)"
    and nb: "NewBlock (fr_crypto m) (fr_now m (fo_clock st1)) (block_count m) (fr_slot m) (ParentHash (sv_bc (fr_bf m))) txs (fr_Key m) = Inr b"
    using ForgeBlock_Ok [OF f] .
  have b: "bk_Transactions b = txs" using nb by (auto simp: NewBlock_def Let_def split: sum.splits)
  obtain sta stb stc r txs1 cs T us where k: "keeps_objects (fo_pool st0) (fo_pool sta)" "batch_ok m r"
    and l: "\<exists>n. forge_loop m n sta None (fst r) (fst (snd r)) (snd (snd r)) (tp_pending (GetQueue srt (fo_pool st0))) = (stb, Ok (txs1, cs, T))"
    and u: "us = [] \<or> T + countTXsSize us \<le> fr_BlockSize m" "\<forall>t \<in> set us. fair t"
    and a: "add_fee m stc ((txs1 @ cs) @ us) = (st1, Ok txs)"
    using forge_transactions_ok [OF t] .
  have "pool_sized (fo_pool sta)" "\<forall>q \<in> set (tp_pending (GetQueue srt (fo_pool st0))). q < length (tp_heap (fo_pool sta))"
    using k(1) p queue_set [OF p(2), of "fo_pool st0"] by (auto simp: p0 forge_ready_def keeps_objects_def pool_sized_def)
  then have ok: "batch_ok m (txs1, cs, T)"
    using l k(2) forge_loop_ok [of m _ sta None "fst r" "fst (snd r)" "snd (snd r)" _ stb "(txs1, cs, T)"] by auto
  show thesis
  proof (rule that [of "(txs1 @ cs) @ us" stc st1])
    show "\<forall>t \<in> set ((txs1 @ cs) @ us). fair t" using ok u(2) by (auto simp: batch_ok_def)
    show "countTXsSize ((txs1 @ cs) @ us) \<le> fr_BlockSize m \<or>
        (\<forall>t \<in> set ((txs1 @ cs) @ us). pt_Type t = RewardTxType \<or> pt_Type t = CollapseTxType)"
      using ok u(1) by (auto simp: batch_ok_def)
  qed (use add_fee_ok [OF a] b in auto)
qed

lemma fee_tx_fields:
  assumes "createFeeTx m st batch = (st', Ok fee)"
  shows "pt_Type fee = FeeTxType" "pt_Num fee = block_count m" "GetRealFee fee = 0" "pt_Inputs fee = []"
    "pt_Outputs fee = [NewOutput (HexToAddress BlackHoleAddress) (sum_list (map GetRealFee batch)) []]"
  using assms by (auto simp: createFeeTx_def Let_def GetRealFee_def system_opts_def dest: new_tx_Ok split: if_splits)

lemma counted_append: "counted_inputs (xs @ ys) = counted_inputs xs @ counted_inputs ys"
  by (simp add: counted_inputs_def)

lemma fair_sums:
  "\<forall>t \<in> set ts. fair t \<Longrightarrow> sum_list (map ti_Amount (counted_inputs ts)) =
     (\<Sum>t\<leftarrow>ts. if pt_Type t = RewardTxType then 0 else out_sum t) + sum_list (map GetRealFee ts)"
proof (induction ts)
  case (Cons t ts)
  then show ?case by (auto simp: counted_inputs_def fair_def GetRealFee_def algebra_simps)
qed (simp add: counted_inputs_def)

lemma block_inputs_complete:
  "distinct (map GenKeyFromPbInput ins) \<Longrightarrow> set (map GenKeyFromPbInput ins) \<inter> set seen = {} \<Longrightarrow>
   \<exists>seen'. block_inputs seen a ins = Inr (seen', a + sum_list (map ti_Amount ins)) \<and> set seen' = set seen \<union> set (map GenKeyFromPbInput ins)"
proof (induction ins arbitrary: seen a)
  case (Cons i ins)
  then show ?case using Cons.IH [of "GenKeyFromPbInput i # seen" "a + ti_Amount i"] by (auto simp: add.assoc)
qed simp

lemma block_balance_loop_complete:
  "distinct (map GenKeyFromPbInput (counted_inputs txs)) \<Longrightarrow> set (map GenKeyFromPbInput (counted_inputs txs)) \<inter> set seen = {} \<Longrightarrow>
   block_balance_loop seen a b txs = Inr (a + sum_list (map ti_Amount (counted_inputs txs)),
     b + (\<Sum>tx\<leftarrow>txs. if pt_Type tx = RewardTxType then 0 else out_sum tx))"
proof (induction txs arbitrary: seen a b)
  case (Cons tx txs)
  show ?case
  proof (cases "pt_Type tx = RewardTxType")
    case True
    then show ?thesis using Cons by (simp add: counted_inputs_def)
  next
    case False
    have c: "counted_inputs (tx # txs) = pt_Inputs tx @ counted_inputs txs" using False by (simp add: counted_inputs_def)
    obtain seen' where i: "block_inputs seen a (pt_Inputs tx) = Inr (seen', a + sum_list (map ti_Amount (pt_Inputs tx)))"
      "set seen' = set seen \<union> set (map GenKeyFromPbInput (pt_Inputs tx))"
      using block_inputs_complete [of "pt_Inputs tx" seen a] Cons.prems by (auto simp: c)
    have "set (map GenKeyFromPbInput (counted_inputs txs)) \<inter> set seen' = {}"
      using Cons.prems unfolding i(2) c by auto
    then show ?thesis
      using False i(1) Cons.prems(1) Cons.IH [of seen' "a + sum_list (map ti_Amount (pt_Inputs tx))" "b + out_sum tx"]
      by (simp add: c add.assoc)
  qed
qed (simp add: counted_inputs_def)

lemma checkBlockBalance_complete:
  assumes "sum_list (map ti_Amount (counted_inputs (bk_Transactions b))) =
      (\<Sum>tx\<leftarrow>bk_Transactions b. if pt_Type tx = RewardTxType then 0 else out_sum tx)"
    and "distinct (map GenKeyFromPbInput (counted_inputs (bk_Transactions b)))"
  shows "checkBlockBalance b = None"
  using assms block_balance_loop_complete [of "bk_Transactions b" "[]" 0 0] by (simp add: checkBlockBalance_def)

subsection \<open>Properties\<close>

lemma size_without_fee: "getTransactionsSize b \<le> countTXsSize (bk_Transactions b)"
  unfolding getTransactionsSize_def countTXsSize_def by (induction "bk_Transactions b" arbitrary: b) (auto simp: sum_list_filter_le_nat)

text \<open>
  The error variable of \<open>ForgeBlock\<close> is not reset: once a stake transaction has been refused, every later stake transaction
  of the queue is refused too, and no slot is reserved any more.
\<close>

lemma stake_outputs_stale: "stake_outputs m sender a h (Some e) outs = (a', h', err) \<Longrightarrow> err \<noteq> None"
  by (induction outs arbitrary: a h) (auto simp: Let_def split: if_splits)

lemma check_stake_stale: "check_stake m st (Some e) tx = (st', r) \<Longrightarrow> st' = st \<and> (\<exists>e'. r = Ok (Some e', False))"
  by (auto simp: check_stake_def split: prod.splits dest!: stake_outputs_stale)

text \<open>
  C12. A forged block is within the size limit: the transactions that the validator counts, all but the fee transaction, are
  together at most as large as the configured block size, unless the block has nothing but rewards, collapse
  transactions and the fee.
\<close>

theorem forged_block_fits:
  assumes "ForgeBlock srt m st = (st', Ok b)" "forge_ready (fo_pool st)" "sort_ok srt"
  shows "getTransactionsSize b \<le> fr_BlockSize m
    \<or> set (map pt_Type (bk_Transactions b)) \<subseteq> {RewardTxType, CollapseTxType, FeeTxType}"
proof -
  obtain batch st3 st4 where b: "countTXsSize batch \<le> fr_BlockSize m \<or> (\<forall>t \<in> set batch. pt_Type t = RewardTxType \<or> pt_Type t = CollapseTxType)"
    "bk_Transactions b = batch \<or> (\<exists>fee. createFeeTx m st3 batch = (st4, Ok fee) \<and> bk_Transactions b = batch @ [fee])"
    using forged_batch [OF assms] by metis
  have sz: "getTransactionsSize b \<le> countTXsSize batch"
    using b(2) size_without_fee [of "b\<lparr>bk_Transactions := batch\<rparr>"] fee_tx_fields(1) by (auto simp: getTransactionsSize_def)
  show ?thesis using b sz fee_tx_fields(1) by (auto dest: le_trans)
qed

text \<open>
  C11. Forging conserves the amounts: if every transaction in the pool pays out what it spends less its fee, then in a forged
  block the inputs of all transactions but the rewards add up to their outputs, the fee transaction included, so that
  the balance check of every other node can only fail on an output that is spent twice.
\<close>

theorem forged_block_conserves:
  assumes "ForgeBlock srt m st = (st', Ok b)" "forge_ready (fo_pool st)" "sort_ok srt" "sha_ok (sha256 (fr_crypto m))"
  shows "sum_list (map ti_Amount (counted_inputs (bk_Transactions b))) =
      (\<Sum>tx\<leftarrow>bk_Transactions b. if pt_Type tx = RewardTxType then 0 else out_sum tx)
    \<and> (distinct (map GenKeyFromPbInput (counted_inputs (bk_Transactions b))) \<longrightarrow> checkBlockBalance b = None)"
proof -
  obtain batch st3 st4 where fr: "\<forall>t \<in> set batch. fair t"
    and b: "bk_Transactions b = batch \<or> (\<exists>fee. createFeeTx m st3 batch = (st4, Ok fee) \<and> bk_Transactions b = batch @ [fee])"
    and z: "sum_list (map GetRealFee batch) \<noteq> 0 \<Longrightarrow> \<exists>fee. createFeeTx m st3 batch = (st4, Ok fee) \<and> bk_Transactions b = batch @ [fee]"
    using forged_batch [OF assms(1-3)] assms(4) by metis
  have s: "sum_list (map ti_Amount (counted_inputs (bk_Transactions b))) =
      (\<Sum>tx\<leftarrow>bk_Transactions b. if pt_Type tx = RewardTxType then 0 else out_sum tx)"
  proof (cases "bk_Transactions b = batch")
    case True
    then show ?thesis using fair_sums [OF fr] z by (cases "sum_list (map GetRealFee batch) = 0") auto
  next
    case False
    then obtain fee where "createFeeTx m st3 batch = (st4, Ok fee)" "bk_Transactions b = batch @ [fee]" using b by blast
    then show ?thesis
      using fair_sums [OF fr] fee_tx_fields by (fastforce simp: counted_append counted_inputs_def [of "[fee]"] out_sum_def [of fee] NewOutput_def)
  qed
  then show ?thesis using checkBlockBalance_complete by blast
qed

text \<open>
  The fee transaction of a forged block collects exactly the fees of the block and passes the check that every other
  node makes; it is missing only when there are no fees.
\<close>

theorem forged_fee_accepted:
  assumes "ForgeBlock srt m st = (st', Ok b)" "forge_ready (fo_pool st)" "sort_ok srt" "sha_ok (sha256 (fr_crypto m))"
    and "sum_list (map GetRealFee (bk_Transactions b)) \<noteq> 0"
  shows "\<exists>batch fee. bk_Transactions b = batch @ [fee] \<and> pt_Type fee = FeeTxType \<and> validateFeeTx (NewTransaction fee) b = None
    \<and> out_sum fee = sum_list (map GetRealFee batch)"
proof -
  obtain batch st3 st4 where
    b: "bk_Transactions b = batch \<or> (\<exists>fee. createFeeTx m st3 batch = (st4, Ok fee) \<and> bk_Transactions b = batch @ [fee])"
    and z: "sum_list (map GetRealFee batch) \<noteq> 0 \<Longrightarrow> \<exists>fee. createFeeTx m st3 batch = (st4, Ok fee) \<and> bk_Transactions b = batch @ [fee]"
    using forged_batch [OF assms(1-3)] assms(4) by metis
  have "sum_list (map GetRealFee batch) \<noteq> 0" using b assms(5) fee_tx_fields(3) by auto
  then obtain fee where f: "createFeeTx m st3 batch = (st4, Ok fee)" and t: "bk_Transactions b = batch @ [fee]" using z by blast
  have "bk_Num b = block_count m" using ForgeBlock_new [OF assms(1)] forged_fields(1) by blast
  then have "validateFeeTx (NewTransaction fee) b = None"
    using fee_tx_fields [OF f] by (simp add: validateFeeTx_def NewTransaction_def Let_def t outputSlice_def newOutput_def NewOutput_def)
  then show ?thesis
    using t fee_tx_fields [OF f] by (intro exI [of _ batch] exI [of _ fee]) (simp add: out_sum_def NewOutput_def)
qed

lemma forged_base:
  assumes nb: "NewBlock (fr_crypto m) t (block_count m) sl (ParentHash (sv_bc (fr_bf m))) txs (fr_Key m) = Inr b"
    and c: "chain_of ev (sv_bc (fr_bf m)) bs" "bc_headBlockNum (sv_bc (fr_bf m)) + 1 \<noteq> 0"
    and cv: "cv_bc cv = chain_reader ev q (fr_bf m)" "cv_crypto cv = fr_crypto m" "secp_laws (fr_crypto m)"
    and t: "bk_Timestamp (last bs) < t" "sint t \<le> go_int (now + cc_SlotTime (cv_cfg cv))"
    and b: "getTransactionsSize b \<le> cc_BlockSize (cv_cfg cv)" "checkBlockBalance b = None" "bk_Hash b \<notin> bk_Hash ` set bs"
    and v: "cs \<Longrightarrow> checkVotes cv b = None"
  shows "validateBlockBase cv now b cs = None"
proof -
  note B = forged_fields [OF nb]
  have "bk_Num b = bc_headBlockNum (sv_bc (fr_bf m)) + 1"
    using B(1) chain_ofD(10) [OF c(1)] by (simp add: block_count_def GetBlockCount_def)
  moreover have "verifyBlockSign cv b (bk_Proposer b) = None"
    using verifyRaw_signRaw [OF cv(3)] B(10) by (auto simp: verifyBlockSign_def BlockSigner_Verify_def BlockSigner_Sign_def cv(2))
  ultimately show ?thesis
    using c cv t b v B by (intro successor_base [OF c(1) cv(1)]) (simp_all add: ParentHash_def)
qed

text \<open>
  A forged block is a proper successor: on a node that stores a chain, and with a clock that is ahead of its last block and
  not ahead of the validators by more than a slot, the block that the proposer forges passes all checks of the
  validators that do not concern its transactions: number, parent, timestamps, hash, transaction root and signature.
\<close>

theorem forged_block_follows_head:
  assumes "ForgeBlock srt m st = (st', Ok b)" "chain_of ev (sv_bc (fr_bf m)) bs" "bc_headBlockNum (sv_bc (fr_bf m)) + 1 \<noteq> 0"
    and "cv_bc cv = chain_reader ev q (fr_bf m)" "cv_crypto cv = fr_crypto m" "secp_laws (fr_crypto m)"
    and "\<forall>n. bk_Timestamp (last bs) < fr_now m n \<and> sint (fr_now m n) \<le> go_int (now + cc_SlotTime (cv_cfg cv))"
    and "getTransactionsSize b \<le> cc_BlockSize (cv_cfg cv)" "checkBlockBalance b = None" "bk_Hash b \<notin> bk_Hash ` set bs"
  shows "validateBlockBase cv now b False = None"
proof -
  obtain t txs where nb: "NewBlock (fr_crypto m) (fr_now m t) (block_count m) (fr_slot m) (ParentHash (sv_bc (fr_bf m))) txs (fr_Key m) = Inr b"
    using ForgeBlock_new [OF assms(1)] by blast
  show ?thesis using assms(7-) by (intro forged_base [OF nb assms(2-6)]) simp_all
qed

text \<open>A proposer with one valid transaction in its pool.\<close>

definition demo_forger :: Forger where
  "demo_forger = \<lparr>fr_bf = demo_service, fr_query = (\<lambda>_. None), fr_crypto = demo_crypto, fr_cfg = demo_cfg, fr_BlockSize = 3000,
     fr_Addr = demo_key_addr, fr_Key = [7], fr_validators = [], fr_now = (\<lambda>n. 9), fr_slot = 1\<rparr>"

definition demo_forge :: forge where
  "demo_forge = \<lparr>fo_pool = finalizeInsert NewPool (NewTransaction demo_signed), fo_stake = NewStakingPool 2 10, fo_skip = [], fo_clock = 0\<rparr>"

definition demo_forged :: Block where
  "demo_forged = (case snd (ForgeBlock insertion_sort demo_forger demo_forge) of Ok b \<Rightarrow> b | _ \<Rightarrow> demo_block 0)"

lemma demo_forged:
  "(case snd (ForgeBlock insertion_sort demo_forger demo_forge) of Ok b \<Rightarrow> map pt_Type (bk_Transactions b) = [1, 3]
      \<and> map GetRealFee (bk_Transactions b) = [249, 0] \<and> distinct (map GenKeyFromPbInput (counted_inputs (bk_Transactions b)))
    | _ \<Rightarrow> False)"
  by code_simp

lemma demo_forged_Ok: "ForgeBlock insertion_sort demo_forger demo_forge = (fst (ForgeBlock insertion_sort demo_forger demo_forge), Ok demo_forged)"
  using demo_forged by (cases "ForgeBlock insertion_sort demo_forger demo_forge") (auto simp: demo_forged_def split: forged.splits)

lemma demo_forged_facts: "map pt_Type (bk_Transactions demo_forged) = [1, 3]" "map GetRealFee (bk_Transactions demo_forged) = [249, 0]"
  "distinct (map GenKeyFromPbInput (counted_inputs (bk_Transactions demo_forged)))"
  using demo_forged [unfolded arg_cong [OF demo_forged_Ok, of snd] snd_conv forged.case] by simp_all

lemma demo_forge_ready: "forge_ready (fo_pool demo_forge)"
proof -
  have "sum_list (map ti_Amount (pt_Inputs demo_signed)) = out_sum demo_signed + GetRealFee demo_signed \<and> pt_Type demo_signed = 1" by code_simp
  then have "sized (NewTransaction demo_signed)" by (intro sized_new) (simp add: fair_def)
  then show ?thesis
    by (simp add: forge_ready_def demo_forge_def finalizeInsert_def new_object_def NewPool_def pool_sized_def)
qed

lemma demo_forger_roots: "sha_ok (sha256 (fr_crypto demo_forger))"
  by (simp add: demo_forger_def demo_sha_ok)

theorem forged_block_fits_witness: "getTransactionsSize demo_forged \<le> 3000"
  using forged_block_fits [OF demo_forged_Ok demo_forge_ready insertion_sort_ok] demo_forged_facts(1) by (simp add: demo_forger_def)

theorem forged_block_conserves_witness: "checkBlockBalance demo_forged = None"
  using forged_block_conserves [OF demo_forged_Ok demo_forge_ready insertion_sort_ok demo_forger_roots] demo_forged_facts(3) by blast

theorem forged_fee_accepted_witness:
  "\<exists>batch fee. bk_Transactions demo_forged = batch @ [fee] \<and> pt_Type fee = FeeTxType \<and> validateFeeTx (NewTransaction fee) demo_forged = None
    \<and> out_sum fee = sum_list (map GetRealFee batch)"
  using forged_fee_accepted [OF demo_forged_Ok demo_forge_ready insertion_sort_ok demo_forger_roots] demo_forged_facts(2) by simp

subsection \<open>Forging without transactions\<close>

lemma idle_transactions:
  assumes "tp_pending (fo_pool st) = []" "sort_ok srt" "GetRewardMap (fr_cfg m) (fo_stake st) (Address_Hex (fr_Addr m)) = Inr []"
    and "sp_unstakedSnapshot (fo_stake st) = []"
  shows "\<exists>p. forge_transactions srt m st = (st\<lparr>fo_pool := p\<rparr>, Ok []) \<and> tp_mu p = tp_mu (fo_pool st)"
proof -
  let ?p = "GetQueue srt (fo_pool st)"
  have "set (tp_pending ?p) = {}" using queue_set [OF assms(2), of "fo_pool st"] assms(1) by simp
  then have q: "tp_pending ?p = []" by simp
  have "addRewardsTxToBatch m (st\<lparr>fo_pool := ?p\<rparr>) (Address_Hex (fr_Addr m)) [] [] 0 = (st\<lparr>fo_pool := ?p\<rparr>, Ok ([], [], 0))"
    using assms(3) by (simp add: addRewardsTxToBatch_def createRewardTxs_def GetRewardOutputs_def ErrNoStakers_def)
  then have "forge_transactions srt m st = (st\<lparr>fo_pool := ?p\<rparr>, Ok [])"
    using q assms(4) by (simp add: forge_transactions_def Let_def generateSystemUnstakes_def GetFullyUnstaked_def add_fee_def)
  moreover have "tp_mu ?p = tp_mu (fo_pool st)" by (simp add: GetQueue_def)
  ultimately show ?thesis by blast
qed

lemma idle_forge:
  assumes "tp_pending (fo_pool st) = []" "sort_ok srt" "GetRewardMap (fr_cfg m) (fo_stake st) (Address_Hex (fr_Addr m)) = Inr []"
    and "sp_unstakedSnapshot (fo_stake st) = []" "\<not> tp_swapLock (fo_pool st)"
    and "\<forall>d. \<exists>s. secp_sign (fr_crypto m) d (fr_Key m) = Inr s"
  shows "\<exists>st' b. ForgeBlock srt m st = (st', Ok b) \<and> bk_Transactions b = [] \<and> fo_stake st' = fo_stake st
    \<and> tp_mu (fo_pool st') = tp_mu (fo_pool st)
    \<and> NewBlock (fr_crypto m) (fr_now m (fo_clock st)) (block_count m) (fr_slot m) (ParentHash (sv_bc (fr_bf m))) [] (fr_Key m) = Inr b"
proof -
  let ?st = "st\<lparr>fo_pool := (fo_pool st)\<lparr>tp_swapLock := True\<rparr>\<rparr>"
  obtain p where t: "forge_transactions srt m ?st = (?st\<lparr>fo_pool := p\<rparr>, Ok [])" "tp_mu p = tp_mu (fo_pool st)"
    using idle_transactions [of ?st srt m] assms by auto
  obtain root where r: "GenTxRoot (fr_crypto m) [] = Inr root" using GenTxRoot_total by blast
  have "\<exists>b. NewBlock (fr_crypto m) t n sl par [] (fr_Key m) = Inr b" for t n sl par
  proof -
    obtain s where "secp_sign (fr_crypto m) (getBlockDomain (fr_crypto m)
        \<lparr>hd_Num = n, hd_Parent = par, hd_Version = [1, 0, 0], hd_TxRoot = root, hd_Hash = [], hd_Slot = sl\<rparr> []) (fr_Key m) = Inr s"
      using assms(6) by blast
    then show ?thesis using r by (simp add: NewBlock_def Let_def signBlock_def BlockSigner_Sign_def signRaw_def)
  qed
  then obtain b where b: "NewBlock (fr_crypto m) (fr_now m (fo_clock st)) (block_count m) (fr_slot m) (ParentHash (sv_bc (fr_bf m))) [] (fr_Key m) = Inr b"
    by blast
  have "lift_pool st (LockPool (fo_pool st)) = (?st, Ok None)" using assms(5) by (simp add: LockPool_def lift_pool_def)
  then have "\<exists>st'. ForgeBlock srt m st = (st', Ok b) \<and> fo_stake st' = fo_stake st \<and> tp_mu (fo_pool st') = tp_mu (fo_pool st)"
    using t b by (simp add: ForgeBlock_def unlock_pool_def Let_def)
  then show ?thesis using b forged_fields(4) [OF b] by blast
qed

text \<open>A proposer without transactions on the node that has only its genesis block.\<close>

lemma idle_hash: "case NewBlock demo_crypto 9 1 1 (bk_Hash node_genesis) [] [7] of Inr b \<Rightarrow> bk_Hash b \<noteq> bk_Hash node_genesis | Inl _ \<Rightarrow> False"
  by code_simp

theorem forged_block_follows_head_witness:
  "\<exists>s b. chain_of node_env (sv_bc s) [node_genesis] \<and> bk_Num b = 1
    \<and> validateBlockBase (demo_cv\<lparr>cv_bc := chain_reader node_env (\<lambda>_. None) s\<rparr>) 100 b False = None"
proof -
  obtain bc where c: "chain_of node_env bc [node_genesis]" using node_starts by blast
  define s where "s = (NewService NewKVStore NewStore)\<lparr>sv_bc := bc\<rparr>"
  define m where "m = demo_forger\<lparr>fr_bf := s\<rparr>"
  let ?st = "demo_forge\<lparr>fo_pool := NewPool\<rparr>" and ?cv = "demo_cv\<lparr>cv_bc := chain_reader node_env (\<lambda>_. None) s\<rparr>"
  have bs: "bc_headBlockNum bc = 0" "bc_futureBlockNum bc = 1" "bc_prevHash bc = bk_Hash node_genesis"
    using chain_ofD(1,5,10) [OF c] by (simp_all add: unat_eq_0)
  obtain st' b where f: "ForgeBlock insertion_sort m ?st = (st', Ok b)" "bk_Transactions b = []"
    and nb: "NewBlock (fr_crypto m) (fr_now m (fo_clock ?st)) (block_count m) (fr_slot m) (ParentHash (sv_bc (fr_bf m))) [] (fr_Key m) = Inr b"
    using idle_forge [of ?st insertion_sort m] insertion_sort_ok
    by (auto simp: m_def demo_forger_def demo_forge_def NewPool_def NewStakingPool_def GetRewardMap_def demo_crypto_def)
  have n: "bk_Num b = 1" using forged_fields(1) [OF nb] by (simp add: m_def s_def block_count_def GetBlockCount_def bs)
  have "bk_Hash b \<noteq> bk_Hash node_genesis"
    using nb idle_hash by (auto simp: m_def s_def demo_forger_def demo_forge_def block_count_def GetBlockCount_def ParentHash_def bs)
  moreover have "9 \<le> go_int (100 + cc_SlotTime (validatorConfig demo_cfg))" by code_simp
  ultimately have "validateBlockBase ?cv 100 b False = None"
    using c f n forged_block_follows_head [OF f(1), of node_env "[node_genesis]" ?cv "\<lambda>_. None" 100]
    by (simp add: m_def s_def bs demo_forger_def demo_cv_def demo_crypto_laws node_genesis_def getTransactionsSize_def checkBlockBalance_def)
  then show ?thesis using c n by (intro exI [of _ s] exI [of _ b]) (simp add: s_def)
qed

end
