(* ===== verification/Voting.thy ===== *)
theory Voting
  imports Forger
begin

text \<open>
  The validator service (\<^verbatim>\<open>validator/service.go\<close>, \<^verbatim>\<open>validator/voting.go\<close>): the seed that the validators agree on before every
  slot, the proposal of a block by the leader, the votes of the other validators and their collection by the proposer.
  All handlers run in one goroutine, \<open>loop\<close>, so an execution is a sequence of events; what the service sends to its feeds
  and the timers it starts are the messages of a step.  Clock readings, random numbers and the validator of the
  node are part of the events.  The lemmas show that nodes that have seen the same seeds agree on the leader,
  that a proposer collects exactly the first vote of every validator, and what the collection does not check.
\<close>

subsection \<open>State (service.go, voting.go)\<close>

record voting =
  vt_approved :: "(string, unit) gomap"
  vt_rejected :: "(string, unit) gomap"
  vt_started :: int

record ValidatorService =
  va_addr :: bytes
  va_key :: bytes
  va_validators :: "bytes list"
  va_statusErr :: "error option"
  va_proposedBlock :: "Block option"
  va_receivedBlock :: "Block option"
  va_votingIsFinished :: bool
  va_blockVoting :: "(string, voting) gomap"
  va_seedMap :: "(string, Seed) gomap"
  va_seed :: int

definition seedPrime :: uint64 where
  "seedPrime = 4294967291"

text \<open>What a step sends to the feeds of the node, and the timers it starts.\<close>

datatype vmsg = SendSeed Seed | Propose Block | Attest Attestation | GossipBlock Block | SleepSeed | SleepVoting

text \<open>Whether the loop goes on, is ended by a run-time panic, or waits for a mutex for ever.\<close>

datatype loop_state = Running | Crashed error | Hung

fun panics :: "error \<Rightarrow> bool" where
  "panics (Panic m) = True"
| "panics (Wrap e m) = panics e"
| "panics e = False"

subsection \<open>Creating the service\<close>

text \<open>\<open>account\<close> is what \<^verbatim>\<open>keystore.NewValidatorAccountFromFile\<close> reads: the address and, if there is one, the key.\<close>

definition New_service :: "RDOBlockChainConfig \<Rightarrow> error + bytes \<times> bytes option \<Rightarrow> error + ValidatorService" where
  "New_service cfg account = (case account of
     Inl e \<Rightarrow> Inl e
   | Inr (addr, None) \<Rightarrow> Inl (Errorf ''Not found validator key file'')
   | Inr (addr, Some key) \<Rightarrow>
      if \<not> IsValidator (backend_New cfg) addr then Inl (Errorf ''Attach validator key to start validator flow'')
      else Inr \<lparr>va_addr = addr, va_key = key, va_validators = backend_New cfg, va_statusErr = None, va_proposedBlock = None,
        va_receivedBlock = None, va_votingIsFinished = False, va_blockVoting = [], va_seedMap = [], va_seed = 0\<rparr>)"

text \<open>\<open>waitInitEvent\<close> reads state events until \<open>Synced\<close> and starts the ticker then; the result is the ticker and the unread events.\<close>

fun waitInitEvent :: "RDOBlockChainConfig \<Rightarrow> Block option \<Rightarrow> (State \<times> int \<times> int \<times> int) list \<Rightarrow>
    (error + (SlotTicker \<times> int) option \<times> (State \<times> int \<times> int \<times> int) list)" where
  "waitInitEvent cfg genesis [] = Inr (None, [])"
| "waitInitEvent cfg genesis ((st, t1, t2, t3) # es) =
    (if st = Synced then
       (case genesis of None \<Rightarrow> Inl (Panic ''nil pointer dereference'')
        | Some g \<Rightarrow> (case StartFromTimestamp cfg (NewSlotTicker cfg) (bk_Timestamp g) t1 t2 t3 of
            Inl (Panic m) \<Rightarrow> Inl (Panic m)
          | Inl e \<Rightarrow> Inl (Panic ''Zero Genesis time'')
          | Inr k \<Rightarrow> Inr (Some k, es)))
     else waitInitEvent cfg genesis es)"

subsection \<open>Seeds\<close>

definition generateSeed :: "crypto \<Rightarrow> error + uint32 \<Rightarrow> ValidatorService \<Rightarrow> ValidatorService \<times> vmsg list" where
  "generateSeed c rnd s = (case NewSeed c rnd (va_addr s) (Some (va_key s)) of
     Inl e \<Rightarrow> (s\<lparr>va_statusErr := Some e\<rparr>, [])
   | Inr seed \<Rightarrow> (s, [SendSeed seed, SleepSeed]))"

text \<open>The loop over the seeds, in whatever order the map is visited.\<close>

fun seed_product :: "uint64 \<Rightarrow> Seed list \<Rightarrow> uint64" where
  "seed_product result [] = result"
| "seed_product result (seed # seeds) = seed_product ((result * ucast (sd_Seed seed)) mod seedPrime) seeds"

definition seed_address :: "Seed \<Rightarrow> string" where
  "seed_address seed = Address_Hex (BytesToAddress (sg_Address (sd_Proposer seed)))"

definition handleSeedEvent :: "crypto \<Rightarrow> ((string, Seed) gomap \<Rightarrow> (string, Seed) gomap) \<Rightarrow> ValidatorService \<Rightarrow> Seed \<Rightarrow> ValidatorService" where
  "handleSeedEvent c order s seed =
    (let address = seed_address seed in
     if (case map_of (va_seedMap s) address of Some se \<Rightarrow> sd_Seed seed = sd_Seed se | None \<Rightarrow> False) then s
     else if SeedSigner_Verify c seed \<noteq> None then s
     else (let seedMap = gput address seed (va_seedMap s) in
       s\<lparr>va_seedMap := seedMap, va_seed := sint (seed_product 1 (map snd (order seedMap)))\<rparr>))"

subsection \<open>Proposing and voting\<close>

definition verifyBlock :: "(int \<Rightarrow> int \<Rightarrow> int) \<Rightarrow> CryspValidator \<Rightarrow> int \<Rightarrow> ValidatorService \<Rightarrow> Block \<Rightarrow> ValidatorService \<times> vmsg list \<times> loop_state" where
  "verifyBlock int63n cv now s block =
    (let blockProposer = BytesToAddress (sg_Address (bk_Proposer block)) in
     if Address_Hex blockProposer = Address_Hex (va_addr s) then (s, [], Running)
     else case pos_IsLeader int63n (cv_params cv) (cv_stakeValidator cv) blockProposer (va_seed s) of
       Inl e \<Rightarrow> (s, [], Crashed e)
     | Inr leader \<Rightarrow>
        if \<not> leader then (s, [], Running)
        else (case ValidateBlock cv now block False of (block, _, err) \<Rightarrow>
          if err = Some ErrPreviousBlockNotExists then (s, [], Running)
          else if (case err of Some e \<Rightarrow> panics e | None \<Rightarrow> False) then (s, [], Crashed (the err))
          else (let attestationType = (if err \<noteq> None then Reject else Approve) in
            case NewAttestation (cv_crypto cv) block (va_addr s) (va_key s) attestationType of
              Inl e \<Rightarrow> (s, [], Crashed (Wrap e ''Attestation error''))
            | Inr att \<Rightarrow>
               (if attestationType = Approve then s\<lparr>va_receivedBlock := Some block\<rparr> else s, [Attest att], Running))))"

text \<open>\<open>add_vote\<close> is the end of \<open>processAttestation\<close>: a proposer that has no block yet dereferences a nil pointer.\<close>

definition add_vote :: "ValidatorService \<Rightarrow> Attestation \<Rightarrow> bool \<Rightarrow> ValidatorService \<times> loop_state" where
  "add_vote s att canUpdateProposedBlock =
    (if \<not> canUpdateProposedBlock then (s, Running)
     else case va_proposedBlock s of
       None \<Rightarrow> (s, Crashed (Panic ''nil pointer dereference''))
     | Some b \<Rightarrow>
        if at_Type att = Approve then (s\<lparr>va_proposedBlock := Some (b\<lparr>bk_Approvers := bk_Approvers b @ [at_Signature att]\<rparr>)\<rparr>, Running)
        else (s\<lparr>va_proposedBlock := Some (b\<lparr>bk_Slashers := bk_Slashers b @ [at_Signature att]\<rparr>)\<rparr>, Running))"

definition processAttestation :: "crypto \<Rightarrow> int \<Rightarrow> ValidatorService \<Rightarrow> Attestation \<Rightarrow> ValidatorService \<times> loop_state" where
  "processAttestation c now s att =
    (let proposer = BytesToAddress (sg_Address (bk_Proposer (at_Block att))); blockHash = Encode (bk_Hash (at_Block att)) in
     if \<not> IsValidator (va_validators s) proposer then (s, Running)
     else if Address_Hex (at_Validator att) \<noteq> Address_Hex (va_addr s) \<and> VerifyAttestationSign c att \<noteq> None then (s, Running)
     else
      (let v = (case map_of (va_blockVoting s) blockHash of Some v \<Rightarrow> v
                | None \<Rightarrow> \<lparr>vt_approved = [], vt_rejected = [], vt_started = now\<rparr>);
           s = s\<lparr>va_blockVoting := gput blockHash v (va_blockVoting s)\<rparr>;
           node = Address_Hex (at_Validator att) in
       if ghas (vt_approved v) node \<or> ghas (vt_rejected v) node then (s, Running)
       else
        (let isLocalProposer = (Address_Hex proposer = Address_Hex (va_addr s));
             canUpdateProposedBlock = (isLocalProposer \<and> \<not> va_votingIsFinished s);
             v = (if at_Type att = Approve then v\<lparr>vt_approved := gput node () (vt_approved v)\<rparr>
                  else v\<lparr>vt_rejected := gput node () (vt_rejected v)\<rparr>) in
         add_vote (s\<lparr>va_blockVoting := gput blockHash v (va_blockVoting s)\<rparr>) att canUpdateProposedBlock)))"

definition forgeBlock :: "(int \<Rightarrow> int \<Rightarrow> int) \<Rightarrow> sorter \<Rightarrow> Forger \<Rightarrow> forge \<Rightarrow> ValidatorService \<Rightarrow> forge \<times> ValidatorService \<times> vmsg list \<times> loop_state" where
  "forgeBlock int63n srt m f s =
    (case pos_IsLeader int63n (fr_cfg m) (fo_stake f) (va_addr s) (va_seed s) of
       Inl e \<Rightarrow> (f, s, [], Crashed e)
     | Inr leader \<Rightarrow>
        if \<not> leader then (f, s, [], Running)
        else (case ForgeBlock srt m f of
            (f, Hangs) \<Rightarrow> (f, s, [], Hung)
          | (f, Err e) \<Rightarrow> if panics e then (f, s, [], Crashed e) else (f, s\<lparr>va_statusErr := Some e\<rparr>, [], Running)
          | (f, Ok block) \<Rightarrow>
              (f, s\<lparr>va_proposedBlock := Some block, va_votingIsFinished := False\<rparr>, [Propose block, SleepVoting], Running)))"

subsection \<open>The loop\<close>

definition clearVoting :: "ValidatorService \<Rightarrow> ValidatorService" where
  "clearVoting s =
    (let proposedBlockHash = (case va_proposedBlock s of Some b \<Rightarrow> Encode (bk_Hash b) | None \<Rightarrow> '''') in
     s\<lparr>va_blockVoting := filter (\<lambda>(hash, v). hash = proposedBlockHash) (va_blockVoting s)\<rparr>)"

definition finishVoting :: "ValidatorService \<Rightarrow> ValidatorService \<times> vmsg list" where
  "finishVoting s =
    (let s = s\<lparr>va_votingIsFinished := True\<rparr> in
     case va_proposedBlock s of
       None \<Rightarrow> (s, [])
     | Some b \<Rightarrow> (s\<lparr>va_blockVoting := gdel (Encode (bk_Hash b)) (va_blockVoting s), va_proposedBlock := None\<rparr>, [GossipBlock b]))"

definition proposeEvent :: "(int \<Rightarrow> int \<Rightarrow> int) \<Rightarrow> CryspValidator \<Rightarrow> int \<Rightarrow> ValidatorService \<Rightarrow> Block \<Rightarrow> ValidatorService \<times> vmsg list \<times> loop_state" where
  "proposeEvent int63n cv now s block =
    (if (case va_receivedBlock s of Some r \<Rightarrow> bk_Hash block = bk_Hash r | None \<Rightarrow> False) then (s, [], Running)
     else verifyBlock int63n cv now s block)"

definition waitSeed :: "(int \<Rightarrow> int \<Rightarrow> int) \<Rightarrow> sorter \<Rightarrow> Forger \<Rightarrow> forge \<Rightarrow> ValidatorService \<Rightarrow> forge \<times> ValidatorService \<times> vmsg list \<times> loop_state" where
  "waitSeed int63n srt m f s = forgeBlock int63n srt m f (s\<lparr>va_seedMap := []\<rparr>)"

datatype vevent =
    SlotTick "error + uint32"
  | SeedArrived "(string, Seed) gomap \<Rightarrow> (string, Seed) gomap" Seed
  | SeedTimer sorter Forger forge
  | BlockProposed CryspValidator int Block
  | AttestationArrived int Attestation
  | VotingTimer
  | ClearInterval

text \<open>
  One round of \<open>loop\<close>.  The transaction pool and the staking pool are shared with the rest of the node: an event brings
  the state in which \<open>ForgeBlock\<close> finds them.
\<close>

fun loop_step :: "crypto \<Rightarrow> (int \<Rightarrow> int \<Rightarrow> int) \<Rightarrow> ValidatorService \<times> loop_state \<Rightarrow> vevent \<Rightarrow> (ValidatorService \<times> loop_state) \<times> vmsg list" where
  "loop_step c int63n (s, Running) (SlotTick rnd) = (case generateSeed c rnd s of (s, ms) \<Rightarrow> ((s, Running), ms))"
| "loop_step c int63n (s, Running) (SeedArrived order seed) = ((handleSeedEvent c order s seed, Running), [])"
| "loop_step c int63n (s, Running) (SeedTimer srt m f) = (case waitSeed int63n srt m f s of (_, s, ms, l) \<Rightarrow> ((s, l), ms))"
| "loop_step c int63n (s, Running) (BlockProposed cv now block) = (case proposeEvent int63n cv now s block of (s, ms, l) \<Rightarrow> ((s, l), ms))"
| "loop_step c int63n (s, Running) (AttestationArrived now att) = (case processAttestation c now s att of (s, l) \<Rightarrow> ((s, l), []))"
| "loop_step c int63n (s, Running) VotingTimer = (case finishVoting s of (s, ms) \<Rightarrow> ((s, Running), ms))"
| "loop_step c int63n (s, Running) ClearInterval = ((clearVoting s, Running), [])"
| "loop_step c int63n (s, l) e = ((s, l), [])"

subsection \<open>The common seed\<close>

lemma unat_seedPrime [simp]: "unat seedPrime = 4294967291"
  by (simp add: seedPrime_def)

text \<open>No product overflows: both factors are below \<open>2\<^sup>3\<^sup>2\<close>.\<close>

lemma seed_factor:
  assumes "unat r < 4294967291"
  shows "unat ((r * ucast (x :: uint32)) mod seedPrime) = (unat r * unat x) mod 4294967291"
proof -
  have "unat x < 2 ^ 32" using unsigned_less [of x] by simp
  then have x: "unat (ucast x :: uint64) = unat x" by (simp add: unsigned_ucast_eq take_bit_nat_eq_self)
  have "unat x < 2 ^ 32" by fact
  then have "unat r * unat x < 4294967291 * 2 ^ 32" using assms by (intro mult_strict_mono) simp_all
  then have "unat (r * ucast x) = unat r * unat x" using unat_mult_lem [of r "ucast x :: uint64"] by (simp add: x)
  then show ?thesis by (simp add: unat_mod)
qed

lemma unat_seed_product:
  "unat r < 4294967291 \<Longrightarrow> unat (seed_product r ss) = (unat r * (\<Prod>s\<leftarrow>ss. unat (sd_Seed s))) mod 4294967291"
proof (induction ss arbitrary: r)
  case (Cons s ss)
  have u: "unat ((r * ucast (sd_Seed s)) mod seedPrime) = (unat r * unat (sd_Seed s)) mod 4294967291" by (rule seed_factor [OF Cons.prems])
  show ?case using Cons.IH [of "(r * ucast (sd_Seed s)) mod seedPrime"] by (simp add: u mod_mult_left_eq mult.assoc)
qed simp

lemma sint_seed_product: "sint (seed_product 1 ss) = int ((\<Prod>s\<leftarrow>ss. unat (sd_Seed s)) mod 4294967291)"
proof -
  have u: "unat (seed_product 1 ss) = (\<Prod>s\<leftarrow>ss. unat (sd_Seed s)) mod 4294967291" using unat_seed_product [of 1 ss] by simp
  then have "unat (seed_product 1 ss) < 2 ^ 63" using mod_less_divisor [of 4294967291] by (simp add: less_trans)
  then have "sint (seed_product 1 ss) = int (unat (seed_product 1 ss))" by (rule sint_small)
  then show ?thesis using u by simp
qed

text \<open>
  The reference: the number in the last correctly signed seed of every address.  A validator that signs two seeds in a slot is counted
  with the one that arrives last.
\<close>

abbreviation seed_ok :: "crypto \<Rightarrow> Seed \<Rightarrow> bool" where
  "seed_ok c seed \<equiv> SeedSigner_Verify c seed = None"

definition latest_seeds :: "crypto \<Rightarrow> Seed list \<Rightarrow> string \<rightharpoonup> uint32" where
  "latest_seeds c ss = foldl (\<lambda>m x. if seed_ok c x then m(seed_address x \<mapsto> sd_Seed x) else m) Map.empty ss"

lemma latest_snoc: "latest_seeds c (ss @ [x]) = (if seed_ok c x then (latest_seeds c ss)(seed_address x \<mapsto> sd_Seed x) else latest_seeds c ss)"
  by (simp add: latest_seeds_def)

lemma prod_map_values:
  assumes "gomap_ok m" "mset l = mset m"
  shows "(\<Prod>s\<leftarrow>map snd l. f s) = (\<Prod>a \<in> dom (map_of m). f (the (map_of m a)))"
proof -
  have "(\<Prod>s\<leftarrow>map snd l. f s) = (\<Prod>x\<leftarrow>m. f (snd x))"
    using arg_cong [OF assms(2), of "\<lambda>M. prod_mset (image_mset (f \<circ> snd) M)"] by (simp add: prod_mset_prod_list [symmetric] o_def)
  also have "\<dots> = (\<Prod>x \<in> set m. f (snd x))" using assms(1) distinct_map [of fst m] by (simp add: prod.distinct_set_conv_list)
  also have "\<dots> = (\<Prod>x \<in> set m. f (the (map_of m (fst x))))" using assms(1) by (intro prod.cong) auto
  also have "\<dots> = (\<Prod>a \<in> fst ` set m. f (the (map_of m a)))"
    using assms(1) by (subst prod.reindex) (auto simp: distinct_map)
  finally show ?thesis by (simp add: dom_map_of_conv_image_fst)
qed

definition seed_value :: "(string \<rightharpoonup> uint32) \<Rightarrow> int" where
  "seed_value L = int ((\<Prod>a \<in> dom L. unat (the (L a))) mod 4294967291)"

lemma seed_round:
  assumes order: "\<And>m. mset (order m) = mset m" and m0: "va_seedMap s = []"
  shows "gomap_ok (va_seedMap (foldl (handleSeedEvent c order) s ss))
    \<and> (\<lambda>a. map_option sd_Seed (map_of (va_seedMap (foldl (handleSeedEvent c order) s ss)) a)) = latest_seeds c ss
    \<and> (latest_seeds c ss \<noteq> Map.empty \<longrightarrow> va_seed (foldl (handleSeedEvent c order) s ss) = seed_value (latest_seeds c ss))"
proof (induction ss rule: rev_induct)
  case Nil
  then show ?case using m0 by (simp add: latest_seeds_def)
next
  case (snoc x ss)
  define t where "t = foldl (handleSeedEvent c order) s ss"
  have ok: "gomap_ok (va_seedMap t)" and L: "\<And>a. map_option sd_Seed (map_of (va_seedMap t) a) = latest_seeds c ss a"
    and v: "latest_seeds c ss \<noteq> Map.empty \<longrightarrow> va_seed t = seed_value (latest_seeds c ss)"
    using snoc unfolding t_def by (simp_all add: fun_eq_iff)
  have st: "foldl (handleSeedEvent c order) s (ss @ [x]) = handleSeedEvent c order t x" by (simp add: t_def)
  show ?case
  proof (cases "latest_seeds c ss (seed_address x) = Some (sd_Seed x) \<or> \<not> seed_ok c x")
    case True
    then have "latest_seeds c (ss @ [x]) = latest_seeds c ss" by (auto simp: latest_snoc fun_upd_idem)
    moreover have "handleSeedEvent c order t x = t" using True L [of "seed_address x"] by (auto simp: handleSeedEvent_def Let_def split: option.splits)
    ultimately show ?thesis unfolding st using ok L v by (simp add: fun_eq_iff)
  next
    case False
    define m where "m = gput (seed_address x) x (va_seedMap t)"
    have h: "handleSeedEvent c order t x = t\<lparr>va_seedMap := m, va_seed := sint (seed_product 1 (map snd (order m)))\<rparr>"
      using False L [of "seed_address x"] by (auto simp: handleSeedEvent_def Let_def m_def split: option.splits)
    have m: "gomap_ok m" "map_of m = (map_of (va_seedMap t))(seed_address x \<mapsto> x)" using ok by (simp_all add: m_def distinct_update map_of_update fun_eq_iff)
    have L': "(\<lambda>a. map_option sd_Seed (map_of m a)) = latest_seeds c (ss @ [x])" using False L by (auto simp: latest_snoc m(2) fun_eq_iff)
    have d: "dom (latest_seeds c (ss @ [x])) = dom (map_of m)" unfolding L' [symmetric] by (auto simp: dom_def)
    have "(\<Prod>s\<leftarrow>map snd (order m). unat (sd_Seed s)) = (\<Prod>a \<in> dom (latest_seeds c (ss @ [x])). unat (the (latest_seeds c (ss @ [x]) a)))"
      unfolding prod_map_values [OF m(1) order] d unfolding L' [symmetric] by (rule prod.cong) (auto simp: dom_def)
    then show ?thesis unfolding st h using m(1) L' by (simp add: sint_seed_product seed_value_def)
  qed
qed

text \<open>When every address has signed one seed only, the order in which the seeds arrive and their repetitions do not matter.\<close>

lemma latest_iff: "latest_seeds c ss a = Some n \<Longrightarrow> \<exists>x \<in> set ss. seed_ok c x \<and> seed_address x = a \<and> sd_Seed x = n"
  by (induction ss rule: rev_induct) (auto simp: latest_seeds_def split: if_splits)

lemma latest_dom: "x \<in> set ss \<Longrightarrow> seed_ok c x \<Longrightarrow> latest_seeds c ss (seed_address x) \<noteq> None"
proof (induction ss rule: rev_induct)
  case (snoc y ss)
  then show ?case by (auto simp: latest_snoc)
qed simp

lemma latest_unordered:
  assumes "{x \<in> set ss. seed_ok c x} = {x \<in> set ss'. seed_ok c x}" "inj_on seed_address {x \<in> set ss. seed_ok c x}"
  shows "latest_seeds c ss = latest_seeds c ss'"
proof
  have *: "latest_seeds c us a = Some n \<Longrightarrow> latest_seeds c vs a = Some n"
    if e: "{x \<in> set us. seed_ok c x} = {x \<in> set vs. seed_ok c x}" and i: "inj_on seed_address {x \<in> set us. seed_ok c x}" for us vs a n
  proof -
    assume "latest_seeds c us a = Some n"
    then obtain x where x: "x \<in> set us" "seed_ok c x" "seed_address x = a" "sd_Seed x = n" using latest_iff by blast
    then have "latest_seeds c vs a \<noteq> None" using latest_dom [of x vs c] e by blast
    then obtain k y where k: "latest_seeds c vs a = Some k" and y: "y \<in> set vs" "seed_ok c y" "seed_address y = a" "sd_Seed y = k"
      using latest_iff by (metis not_None_eq)
    have "x = y" by (rule inj_onD [OF i]) (use x y e in auto)
    then show "latest_seeds c vs a = Some n" using k x y by simp
  qed
  fix a
  show "latest_seeds c ss a = latest_seeds c ss' a"
    using * [OF assms] * [OF assms(1) [symmetric]] assms by (metis not_None_eq)
qed

text \<open>
  C4. The validators agree on the seed. If for every address the last correctly signed seed that two validators have received in
  a slot has the same number, then whatever else and in whatever order the seeds arrived, and whatever order
  Go visits the map in, they compute the same seed and so the same leader: the product of these numbers modulo the prime 4294967291,
  computed without overflow.  This is so in particular when both have received the same correctly signed seeds and no address has signed
  two of them, in any order and with any repetitions.
\<close>

theorem seed_agreement:
  assumes "\<And>m. mset (order m) = mset m" "\<And>m. mset (order' m) = mset m" "va_seedMap s = []" "va_seedMap s' = []"
    and "latest_seeds c ss = latest_seeds c ss'
      \<or> {x \<in> set ss. seed_ok c x} = {x \<in> set ss'. seed_ok c x} \<and> inj_on seed_address {x \<in> set ss. seed_ok c x}"
    and "\<exists>x \<in> set ss. seed_ok c x"
  shows "va_seed (foldl (handleSeedEvent c order) s ss) = seed_value (latest_seeds c ss)
    \<and> va_seed (foldl (handleSeedEvent c order') s' ss') = va_seed (foldl (handleSeedEvent c order) s ss)"
proof -
  have e: "latest_seeds c ss = latest_seeds c ss'" using assms(5) latest_unordered by blast
  obtain x where "x \<in> set ss" "seed_ok c x" using assms(6) by blast
  then have "latest_seeds c ss (seed_address x) \<noteq> None" by (rule latest_dom)
  then have "latest_seeds c ss \<noteq> Map.empty" by metis
  then show ?thesis using seed_round [OF assms(1,3), of c ss] seed_round [OF assms(2,4), of c ss'] e by simp
qed

text \<open>
  The handler does not check that the sender is a validator: a correctly signed seed 0 of any key fixes the seed of
  the slot at 0, and with it the leader.
\<close>

lemma zero_seed:
  assumes "SeedSigner_Verify c z = None" "sd_Seed z = 0" "\<And>m. mset (order m) = mset m"
    and "map_of (va_seedMap s) (seed_address z) = None"
  shows "va_seed (handleSeedEvent c order s z) = 0"
proof -
  let ?m = "gput (seed_address z) z (va_seedMap s)"
  have "map_of ?m (seed_address z) = Some z" by (simp add: map_of_update)
  then have "(seed_address z, z) \<in> set ?m" by (rule map_of_SomeD)
  then have "z \<in> set (map snd (order ?m))" using mset_eq_setD [OF assms(3), of ?m] by force
  then have "0 \<in> set (map (\<lambda>x. unat (sd_Seed x)) (map snd (order ?m)))" using assms(2) by force
  then have "(\<Prod>x\<leftarrow>map snd (order ?m). unat (sd_Seed x)) = 0" by (simp add: prod_list_zero_iff)
  then show ?thesis using assms by (simp add: handleSeedEvent_def Let_def sint_seed_product)
qed

definition demo_seed :: "byte \<Rightarrow> uint32 \<Rightarrow> Seed" where
  "demo_seed k n = (case NewSeed demo_crypto (Inr n) (PubkeyToAddress demo_crypto (pubkey_of demo_crypto [k])) (Some [k]) of
     Inr seed \<Rightarrow> seed | Inl _ \<Rightarrow> \<lparr>sd_Seed = 0, sd_Proposer = \<lparr>sg_Address = [], sg_Signature = []\<rparr>\<rparr>)"

definition demo_validator :: "byte \<Rightarrow> ValidatorService" where
  "demo_validator k = \<lparr>va_addr = PubkeyToAddress demo_crypto (pubkey_of demo_crypto [k]), va_key = [k],
     va_validators = map (\<lambda>j. PubkeyToAddress demo_crypto (pubkey_of demo_crypto [j])) [7, 8, 9], va_statusErr = None,
     va_proposedBlock = None, va_receivedBlock = None, va_votingIsFinished = True, va_blockVoting = [], va_seedMap = [], va_seed = 0\<rparr>"

lemma demo_seed: "demo_seed k n = \<lparr>sd_Seed = n, sd_Proposer = \<lparr>sg_Address = PubkeyToAddress demo_crypto (pubkey_of demo_crypto [k]),
    sg_Signature = SetBytes 65 [k]\<rparr>\<rparr>"
  by (simp add: demo_seed_def NewSeed_def SeedSigner_Sign_def demo_crypto_def)

theorem seed_agreement_witness:
  "va_seed (foldl (handleSeedEvent demo_crypto rev) (demo_validator 7)
      [demo_seed 8 4000000000, demo_seed 7 3000000000, demo_seed 8 4000000000]) = int ((3000000000 * 4000000000) mod 4294967291)"
proof -
  let ?a = "demo_seed 7 3000000000" and ?b = "demo_seed 8 4000000000"
  have n: "sd_Seed ?a = 3000000000" "sd_Seed ?b = 4000000000" by (simp_all add: demo_seed)
  have v: "seed_ok demo_crypto (demo_seed k n)" for k n by (simp add: demo_seed SeedSigner_Verify_def SigToPub_def demo_crypto_def)
  have "Address_Hex (BytesToAddress (PubkeyToAddress demo_crypto (pubkey_of demo_crypto [7]))) \<noteq>
    Address_Hex (BytesToAddress (PubkeyToAddress demo_crypto (pubkey_of demo_crypto [8])))" by code_simp
  then have d: "seed_address ?a \<noteq> seed_address ?b" by (simp add: seed_address_def demo_seed)
  moreover have L: "latest_seeds demo_crypto [?b, ?a, ?b] = [seed_address ?a \<mapsto> 3000000000, seed_address ?b \<mapsto> 4000000000]"
    using v n by (auto simp: latest_seeds_def fun_upd_twist)
  have "{x \<in> set [?b, ?a, ?b]. seed_ok demo_crypto x} = {x \<in> set [?a, ?b]. seed_ok demo_crypto x}" using v by auto
  moreover have "inj_on seed_address {x \<in> set [?b, ?a, ?b]. seed_ok demo_crypto x}" using d by (auto simp: inj_on_def)
  moreover have "va_seedMap (demo_validator k) = []" for k by (simp add: demo_validator_def)
  ultimately have "va_seed (foldl (handleSeedEvent demo_crypto rev) (demo_validator 7) [?b, ?a, ?b]) = seed_value (latest_seeds demo_crypto [?b, ?a, ?b])"
    using seed_agreement [of rev "\<lambda>m. m" "demo_validator 7" "demo_validator 8" demo_crypto "[?b, ?a, ?b]" "[?a, ?b]"] v by simp
  then show ?thesis unfolding L using d by (simp add: seed_value_def)
qed

text \<open>A validator that signs two seeds in one slot splits the network: the one that arrives last is counted.\<close>

lemma double_seed_splits:
  "va_seed (foldl (handleSeedEvent demo_crypto id) (demo_validator 7) [demo_seed 8 2, demo_seed 8 3]) = 3"
  "va_seed (foldl (handleSeedEvent demo_crypto id) (demo_validator 7) [demo_seed 8 3, demo_seed 8 2]) = 2"
  by code_simp+

subsection \<open>Collecting votes\<close>

definition voters :: "(string, voting) gomap \<Rightarrow> string \<Rightarrow> string set" where
  "voters bv h = (case map_of bv h of None \<Rightarrow> {} | Some v \<Rightarrow> fst ` set (vt_approved v) \<union> fst ` set (vt_rejected v))"

text \<open>The reference: the first vote of every validator, and a block with the signatures of votes.\<close>

fun first_votes :: "string set \<Rightarrow> Attestation list \<Rightarrow> Attestation list" where
  "first_votes seen [] = []"
| "first_votes seen (att # atts) =
    (if Address_Hex (at_Validator att) \<in> seen then first_votes seen atts
     else att # first_votes (insert (Address_Hex (at_Validator att)) seen) atts)"

definition with_votes :: "Block \<Rightarrow> Attestation list \<Rightarrow> Block" where
  "with_votes b atts = b\<lparr>bk_Approvers := bk_Approvers b @ map at_Signature (filter (\<lambda>a. at_Type a = Approve) atts),
     bk_Slashers := bk_Slashers b @ map at_Signature (filter (\<lambda>a. at_Type a \<noteq> Approve) atts)\<rparr>"

lemma with_votes_simps [simp]:
  "with_votes b [] = b" "with_votes (with_votes b xs) ys = with_votes b (xs @ ys)"
  "bk_Hash (with_votes b xs) = bk_Hash b" "bk_Proposer (with_votes b xs) = bk_Proposer b"
  by (simp_all add: with_votes_def)

text \<open>The votes that are looked at: signed correctly, or in the name of the node itself.\<close>

definition vote_ok :: "crypto \<Rightarrow> ValidatorService \<Rightarrow> Attestation \<Rightarrow> bool" where
  "vote_ok c s att \<longleftrightarrow> Address_Hex (at_Validator att) = Address_Hex (va_addr s) \<or> VerifyAttestationSign c att = None"

lemma vote_ok_cong [simp]: "vote_ok c (s\<lparr>va_blockVoting := bv\<rparr>) = vote_ok c s" "vote_ok c (s\<lparr>va_proposedBlock := pb\<rparr>) = vote_ok c s"
  by (simp_all add: vote_ok_def fun_eq_iff)

text \<open>The proposer of \<open>b\<close> while the vote on it is open.\<close>

definition voting_on :: "ValidatorService \<Rightarrow> Block \<Rightarrow> bool" where
  "voting_on s b \<longleftrightarrow> \<not> va_votingIsFinished s \<and> IsValidator (va_validators s) (BytesToAddress (sg_Address (bk_Proposer b)))
    \<and> Address_Hex (BytesToAddress (sg_Address (bk_Proposer b))) = Address_Hex (va_addr s)"

lemma voting_on_cong [simp]: "voting_on (s\<lparr>va_blockVoting := bv\<rparr>) b = voting_on s b" "voting_on (s\<lparr>va_proposedBlock := pb\<rparr>) b = voting_on s b"
  by (simp_all add: voting_on_def)

lemma process_ignored: "\<not> vote_ok c s att \<Longrightarrow> processAttestation c t s att = (s, Running)"
  by (simp add: processAttestation_def vote_ok_def Let_def)

definition open_vote :: "int \<Rightarrow> ValidatorService \<Rightarrow> Attestation \<Rightarrow> voting" where
  "open_vote t s att = (case map_of (va_blockVoting s) (Encode (bk_Hash (at_Block att))) of Some v \<Rightarrow> v
     | None \<Rightarrow> \<lparr>vt_approved = [], vt_rejected = [], vt_started = t\<rparr>)"

lemma open_vote_voters: "fst ` set (vt_approved (open_vote t s att)) \<union> fst ` set (vt_rejected (open_vote t s att)) =
    voters (va_blockVoting s) (Encode (bk_Hash (at_Block att)))"
  by (simp add: open_vote_def voters_def split: option.split)

lemma process_open:
  assumes "vote_ok c s att" "voting_on s (at_Block att)"
  shows "processAttestation c t s att =
    (let h = Encode (bk_Hash (at_Block att)); v = open_vote t s att; bv = gput h v (va_blockVoting s); n = Address_Hex (at_Validator att) in
     if n \<in> voters (va_blockVoting s) h then (s\<lparr>va_blockVoting := bv\<rparr>, Running)
     else add_vote (s\<lparr>va_blockVoting := gput h (if at_Type att = Approve then v\<lparr>vt_approved := gput n () (vt_approved v)\<rparr>
       else v\<lparr>vt_rejected := gput n () (vt_rejected v)\<rparr>) bv\<rparr>) att True)"
proof -
  define p where "p = BytesToAddress (sg_Address (bk_Proposer (at_Block att)))"
  have f: "\<not> va_votingIsFinished s" "IsValidator (va_validators s) p" "Address_Hex p = Address_Hex (va_addr s)"
    using assms(2) unfolding voting_on_def p_def by blast+
  then have p: "p = va_addr s" and val: "IsValidator (va_validators s) (va_addr s)" by simp_all
  have sig: "\<not> (Address_Hex (at_Validator att) \<noteq> Address_Hex (va_addr s) \<and> VerifyAttestationSign c att \<noteq> None)"
    using assms(1) unfolding vote_ok_def by (elim disjE) simp_all
  show ?thesis
    unfolding processAttestation_def p_def [symmetric] p Let_def open_vote_def [symmetric] if_not_P [OF sig]
    by (simp add: val f(1) ghas_iff open_vote_voters [symmetric, of s att t])
qed

lemma process_repeated:
  assumes "vote_ok c s att" "voting_on s (at_Block att)" "Address_Hex (at_Validator att) \<in> voters (va_blockVoting s) (Encode (bk_Hash (at_Block att)))"
  shows "\<exists>bv. processAttestation c t s att = (s\<lparr>va_blockVoting := bv\<rparr>, Running)
    \<and> voters bv (Encode (bk_Hash (at_Block att))) = voters (va_blockVoting s) (Encode (bk_Hash (at_Block att)))"
proof -
  let ?h = "Encode (bk_Hash (at_Block att))"
  have "voters (gput ?h (open_vote t s att) (va_blockVoting s)) ?h = voters (va_blockVoting s) ?h"
    unfolding open_vote_voters [symmetric, of s att t] by (simp add: voters_def map_of_update)
  then show ?thesis using assms(3) unfolding process_open [OF assms(1,2)] Let_def by auto
qed

lemma gput_keys: "fst ` set (gput k v m) = insert k (fst ` set m)"
  by (simp add: update_conv' flip: dom_map_of_conv_image_fst)

lemma process_first:
  assumes "vote_ok c s att" "voting_on s (at_Block att)" "va_proposedBlock s = Some b"
    "Address_Hex (at_Validator att) \<notin> voters (va_blockVoting s) (Encode (bk_Hash (at_Block att)))"
  shows "\<exists>bv. processAttestation c t s att = (s\<lparr>va_blockVoting := bv, va_proposedBlock := Some (with_votes b [att])\<rparr>, Running)
    \<and> voters bv (Encode (bk_Hash (at_Block att))) =
        insert (Address_Hex (at_Validator att)) (voters (va_blockVoting s) (Encode (bk_Hash (at_Block att))))"
proof -
  define h n v where "h = Encode (bk_Hash (at_Block att))" and "n = Address_Hex (at_Validator att)" and "v = open_vote t s att"
  define w where "w = (if at_Type att = Approve then v\<lparr>vt_approved := gput n () (vt_approved v)\<rparr> else v\<lparr>vt_rejected := gput n () (vt_rejected v)\<rparr>)"
  let ?bv = "gput h w (gput h v (va_blockVoting s))"
  have "processAttestation c t s att = add_vote (s\<lparr>va_blockVoting := ?bv\<rparr>) att True"
    using assms(4) unfolding process_open [OF assms(1,2)] Let_def h_def [symmetric] n_def [symmetric] v_def [symmetric] w_def by simp
  also have "\<dots> = (s\<lparr>va_blockVoting := ?bv, va_proposedBlock := Some (with_votes b [att])\<rparr>, Running)"
    using assms(3) by (simp add: add_vote_def with_votes_def)
  finally have p: "processAttestation c t s att = \<dots>" .
  have "voters ?bv h = insert n (voters (va_blockVoting s) h)"
    unfolding open_vote_voters [symmetric, of s att t, folded h_def v_def] by (simp add: voters_def map_of_update w_def gput_keys)
  then show ?thesis using p unfolding h_def n_def by blast
qed

abbreviation loop_run :: "crypto \<Rightarrow> (int \<Rightarrow> int \<Rightarrow> int) \<Rightarrow> ValidatorService \<times> loop_state \<Rightarrow> vevent list \<Rightarrow> ValidatorService \<times> loop_state" where
  "loop_run c int63n \<equiv> run_ops (\<lambda>st e. fst (loop_step c int63n st e))"

definition vote_events :: "(int \<times> Attestation) list \<Rightarrow> vevent list" where
  "vote_events vs = map (\<lambda>(t, att). AttestationArrived t att) vs"

lemma collect_votes:
  assumes "voting_on s b" "va_proposedBlock s = Some pb"
    and "\<forall>(t, att) \<in> set vs. bk_Hash (at_Block att) = bk_Hash b \<and> bk_Proposer (at_Block att) = bk_Proposer b"
  shows "\<exists>bv. loop_run c int63n (s, Running) (vote_events vs) =
    (s\<lparr>va_blockVoting := bv, va_proposedBlock := Some (with_votes pb (first_votes (voters (va_blockVoting s) (Encode (bk_Hash b)))
       (filter (vote_ok c s) (map snd vs))))\<rparr>, Running)"
  using assms
proof (induction vs arbitrary: s pb)
  case Nil
  then have "s = s\<lparr>va_blockVoting := va_blockVoting s, va_proposedBlock := Some pb\<rparr>" by simp
  then show ?case by (intro exI [of _ "va_blockVoting s"]) (simp add: vote_events_def)
next
  case (Cons v vs)
  obtain t att where v: "v = (t, att)" by fastforce
  have b: "bk_Hash (at_Block att) = bk_Hash b" "bk_Proposer (at_Block att) = bk_Proposer b"
    and vs: "\<forall>(t, att) \<in> set vs. bk_Hash (at_Block att) = bk_Hash b \<and> bk_Proposer (at_Block att) = bk_Proposer b"
    using Cons.prems(3) by (auto simp: v)
  have on: "voting_on s (at_Block att)" using Cons.prems(1) unfolding voting_on_def b .
  have run: "loop_run c int63n (s, Running) (vote_events (v # vs)) = loop_run c int63n (processAttestation c t s att) (vote_events vs)"
    by (cases "processAttestation c t s att") (simp add: v vote_events_def)
  let ?V = "voters (va_blockVoting s) (Encode (bk_Hash b))"
  consider "\<not> vote_ok c s att" | "vote_ok c s att" "Address_Hex (at_Validator att) \<in> ?V" | "vote_ok c s att" "Address_Hex (at_Validator att) \<notin> ?V"
    by blast
  then show ?case
  proof cases
    case 1
    then show ?thesis unfolding run process_ignored [OF 1] using Cons.IH [OF Cons.prems(1,2) vs] by (simp add: v)
  next
    case 2
    obtain bv where bv: "processAttestation c t s att = (s\<lparr>va_blockVoting := bv\<rparr>, Running)" "voters bv (Encode (bk_Hash b)) = ?V"
      using process_repeated [OF 2(1) on, of t] 2(2) b by auto
    show ?thesis unfolding run bv(1)
      using Cons.IH [of "s\<lparr>va_blockVoting := bv\<rparr>" pb, OF _ _ vs] Cons.prems(1,2) 2 by (simp add: v bv(2))
  next
    case 3
    obtain bv where bv: "processAttestation c t s att = (s\<lparr>va_blockVoting := bv, va_proposedBlock := Some (with_votes pb [att])\<rparr>, Running)"
      "voters bv (Encode (bk_Hash b)) = insert (Address_Hex (at_Validator att)) ?V"
      using process_first [OF 3(1) on Cons.prems(2), of t] 3(2) b by auto
    show ?thesis unfolding run bv(1)
      using Cons.IH [of "s\<lparr>va_blockVoting := bv, va_proposedBlock := Some (with_votes pb [att])\<rparr>" "with_votes pb [att]", OF _ _ vs] Cons.prems(1) 3
      by (simp add: v bv(2))
  qed
qed

lemma round_of_votes:
  assumes "voting_on s b" "va_proposedBlock s = Some b" "voters (va_blockVoting s) (Encode (bk_Hash b)) = {}"
    and "\<forall>(t, att) \<in> set vs. bk_Hash (at_Block att) = bk_Hash b \<and> bk_Proposer (at_Block att) = bk_Proposer b"
  shows "\<exists>s'. loop_step c int63n (loop_run c int63n (s, Running) (vote_events vs)) VotingTimer =
      ((s', Running), [GossipBlock (with_votes b (first_votes {} (filter (vote_ok c s) (map snd vs))))])
    \<and> va_proposedBlock s' = None \<and> va_votingIsFinished s' \<and> voters (va_blockVoting s') (Encode (bk_Hash b)) = {}"
proof -
  obtain bv where "loop_run c int63n (s, Running) (vote_events vs) =
      (s\<lparr>va_blockVoting := bv, va_proposedBlock := Some (with_votes b (first_votes {} (filter (vote_ok c s) (map snd vs))))\<rparr>, Running)"
    using collect_votes [OF assms(1,2,4), of c int63n] assms(3) by auto
  then show ?thesis by (simp add: finishVoting_def Let_def voters_def map_of_delete)
qed


subsection \<open>Voting\<close>

lemma ValidateBlock_header:
  assumes "ValidateBlock cv now b cs = (b', failed, err)"
  shows "\<exists>txs. b' = b\<lparr>bk_Transactions := txs\<rparr>"
proof (cases "validateBlockBase cv now b cs")
  case None
  obtain b1 r where v: "verifyTransactions cv b = (b1, r)" by fastforce
  have "b' = b1" using assms None v by (auto simp: ValidateBlock_def split: sum.splits if_splits)
  then show ?thesis using verifyTransactions_strip [OF v] by blast
next
  case (Some e)
  then have "b' = b\<lparr>bk_Transactions := bk_Transactions b\<rparr>" using assms by (simp add: ValidateBlock_def)
  then show ?thesis by blast
qed

lemma NewHeader_cong: "NewHeader (b\<lparr>bk_Transactions := txs\<rparr>) = NewHeader b" "NewHeader (b\<lparr>bk_Approvers := a\<rparr>) = NewHeader b"
  "NewHeader (b\<lparr>bk_Slashers := l\<rparr>) = NewHeader b" "NewHeader (with_votes b xs) = NewHeader b"
  by (simp_all add: NewHeader_def with_votes_def)

text \<open>An attestation verifies: for a block of the version that the signer writes into the header.\<close>

lemma NewAttestation_verifies:
  assumes "secp_laws c" "NewAttestation c b addr key ty = Inr att" "bk_Version b = [1, 0, 0]"
  shows "VerifyAttestationSign c att = None" "at_Type att = ty" "at_Validator att = addr" "at_Block att = b"
proof -
  obtain mix sig where m: "map_of mixMap ty = Some mix" and s: "signRaw c (getBlockDomain c (GetBlockHeader b) mix) key = Inr sig"
    and a: "att = \<lparr>at_Validator = addr, at_Block = b, at_Signature = sig, at_Type = ty\<rparr>"
    using assms(2) by (auto simp: NewAttestation_def BlockSigner_SignMixed_def split: option.splits sum.splits)
  have "GetBlockHeader b = NewHeader b" using assms(3) by (simp add: GetBlockHeader_def NewHeader_def)
  then have "verifyRaw c (getBlockDomain c (NewHeader b) mix) sig = None" using verifyRaw_signRaw [OF assms(1) s] by simp
  then show "VerifyAttestationSign c att = None"
    by (simp add: VerifyAttestationSign_def VerifyBlockSign_def BlockSigner_VerifyMixed_def m a)
  show "at_Type att = ty" "at_Validator att = addr" "at_Block att = b" by (simp_all add: a)
qed

lemma NewAttestation_total:
  assumes "\<forall>d. \<exists>s. secp_sign c d key = Inr s" "ty = Approve \<or> ty = Reject"
  shows "\<exists>att. NewAttestation c b addr key ty = Inr att"
proof -
  obtain mix where m: "map_of mixMap ty = Some mix" using assms(2) by (auto simp: mixMap_def)
  obtain sig where "secp_sign c (getBlockDomain c (GetBlockHeader b) mix) key = Inr sig" using assms(1) by blast
  then show ?thesis by (simp add: NewAttestation_def m BlockSigner_SignMixed_def signRaw_def)
qed

lemma validator_attests:
  assumes "Address_Hex (BytesToAddress (sg_Address (bk_Proposer b))) \<noteq> Address_Hex (va_addr s)"
    and "pos_IsLeader int63n (cv_params cv) (cv_stakeValidator cv) (BytesToAddress (sg_Address (bk_Proposer b))) (va_seed s) = Inr True"
    and v: "ValidateBlock cv now b False = (b', failed, err)" "err \<noteq> Some ErrPreviousBlockNotExists" "\<forall>e. err = Some e \<longrightarrow> \<not> panics e"
    and c: "secp_laws (cv_crypto cv)" "\<forall>d. \<exists>sig. secp_sign (cv_crypto cv) d (va_key s) = Inr sig"
  shows "\<exists>att. verifyBlock int63n cv now s b = (if err = None then s\<lparr>va_receivedBlock := Some b'\<rparr> else s, [Attest att], Running)
    \<and> at_Type att = (if err = None then Approve else Reject) \<and> at_Validator att = va_addr s \<and> at_Block att = b'
    \<and> (bk_Version b = [1, 0, 0] \<longrightarrow> VerifyAttestationSign (cv_crypto cv) att = None)"
proof -
  define ty where "ty = (if err = None then Approve else Reject)"
  have ty: "ty = Approve \<or> ty = Reject" by (simp add: ty_def)
  obtain att where a: "NewAttestation (cv_crypto cv) b' (va_addr s) (va_key s) ty = Inr att"
    using NewAttestation_total [OF c(2) ty] by blast
  have ver: "bk_Version b' = bk_Version b" using ValidateBlock_header [OF v(1)] by auto
  have "at_Type att = ty \<and> at_Validator att = va_addr s \<and> at_Block att = b'"
    using a by (auto simp: NewAttestation_def split: option.splits sum.splits)
  moreover have "bk_Version b = [1, 0, 0] \<longrightarrow> VerifyAttestationSign (cv_crypto cv) att = None"
    using NewAttestation_verifies [OF c(1) a] ver by simp
  moreover have "verifyBlock int63n cv now s b = (if err = None then s\<lparr>va_receivedBlock := Some b'\<rparr> else s, [Attest att], Running)"
    using assms(1,2) v a by (auto simp: verifyBlock_def Let_def ty_def split: option.splits)
  ultimately show ?thesis by (auto simp: ty_def)
qed

text \<open>
  C9. A validator votes as its checks say. When another node that leads the slot proposes a block, a validator ignores it if it is the block that the
  validator has approved last, and sends no vote if it does not have the block before it; otherwise it sends exactly one vote, an approval if the
  checks of the block report no error and a rejection if they report one, and remembers the block only if it approves it.
  The vote of a block of version 1.0.0, the one that the forger makes, has a signature that every node accepts.
\<close>

theorem validator_votes:
  assumes "Address_Hex (BytesToAddress (sg_Address (bk_Proposer b))) \<noteq> Address_Hex (va_addr s)"
    and "pos_IsLeader int63n (cv_params cv) (cv_stakeValidator cv) (BytesToAddress (sg_Address (bk_Proposer b))) (va_seed s) = Inr True"
    and "ValidateBlock cv now b False = (b', failed, err)" "\<forall>e. err = Some e \<longrightarrow> \<not> panics e"
    and "secp_laws (cv_crypto cv)" "\<forall>d. \<exists>sig. secp_sign (cv_crypto cv) d (va_key s) = Inr sig"
  shows "if map_option bk_Hash (va_receivedBlock s) = Some (bk_Hash b) \<or> err = Some ErrPreviousBlockNotExists
    then loop_step (cv_crypto cv) int63n (s, Running) (BlockProposed cv now b) = ((s, Running), [])
    else \<exists>att. loop_step (cv_crypto cv) int63n (s, Running) (BlockProposed cv now b) =
          ((if err = None then s\<lparr>va_receivedBlock := Some b'\<rparr> else s, Running), [Attest att])
      \<and> at_Type att = (if err = None then Approve else Reject) \<and> at_Validator att = va_addr s \<and> at_Block att = b'
      \<and> (bk_Version b = [1, 0, 0] \<longrightarrow> VerifyAttestationSign (cv_crypto cv) att = None)"
proof (cases "map_option bk_Hash (va_receivedBlock s) = Some (bk_Hash b) \<or> err = Some ErrPreviousBlockNotExists")
  case True
  then show ?thesis using assms(1-3) by (auto simp: proposeEvent_def verifyBlock_def Let_def)
next
  case False
  then have "proposeEvent int63n cv now s b = verifyBlock int63n cv now s b" by (auto simp: proposeEvent_def split: option.splits)
  then show ?thesis using validator_attests [OF assms(1-3) _ assms(4-6)] False by auto
qed

subsection \<open>What the collection does not check\<close>

text \<open>
  A vote on its own block that reaches a proposer before it has proposed anything since its start ends the node: the vote counts as open and
  there is no block to add the signature to.
\<close>

lemma early_vote_crashes:
  assumes "New_service cfg (Inr (addr, Some key)) = Inr s" "VerifyAttestationSign c att = None"
    and "Address_Hex (BytesToAddress (sg_Address (bk_Proposer (at_Block att)))) = Address_Hex addr"
  shows "\<exists>s'. loop_step c int63n (s, Running) (AttestationArrived t att) = ((s', Crashed (Panic ''nil pointer dereference'')), [])"
  using assms by (auto simp: New_service_def processAttestation_def add_vote_def Let_def split: if_splits)

text \<open>The votes of a block that are counted: \<open>n\<close> copies of one correct approval count \<open>n\<close> times.\<close>

lemma count_copies:
  assumes "VerifyAttestationSign (cv_crypto cv) att = None" "at_Type att = Approve" "NewHeader (at_Block att) = NewHeader b"
  shows "countValidSigns cv b (replicate n (at_Signature att)) Approve = n"
  using assms by (simp add: countValidSigns_def VerifyAttestationSign_def filter_replicate)

lemma first_votes_distinct:
  "distinct (map (\<lambda>a. Address_Hex (at_Validator a)) atts) \<Longrightarrow> seen \<inter> (\<lambda>a. Address_Hex (at_Validator a)) ` set atts = {} \<Longrightarrow> first_votes seen atts = atts"
  by (induction atts arbitrary: seen) auto

lemma verify_any_name: "VerifyAttestationSign c (att\<lparr>at_Validator := v\<rparr>) = VerifyAttestationSign c att"
  by (simp add: VerifyAttestationSign_def)

text \<open>
  C10. One key can decide a vote. The name of the validator in a vote is not covered by its signature and not compared with the signer,
  and the signer need not be a validator: whoever has signed one approval of the proposed block can
  send it under as many names as there are seats to fill; the proposer adds every copy, and the block that it sends out passes
  the count of the votes that every node makes.
\<close>

theorem single_signer_decides:
  assumes "voting_on s b" "va_proposedBlock s = Some b" "voters (va_blockVoting s) (Encode (bk_Hash b)) = {}"
    and "bk_Approvers b = []" "bk_Slashers b = []"
    and "VerifyAttestationSign (cv_crypto cv) att = None" "at_Type att = Approve" "at_Block att = b"
    and "distinct names" "60 * cf_CommitteeSize (cv_params cv) \<le> 100 * int (length names)" "0 < cf_CommitteeSize (cv_params cv)"
  shows "\<exists>s' g. loop_step (cv_crypto cv) int63n (loop_run (cv_crypto cv) int63n (s, Running)
        (vote_events (map (\<lambda>n. (t, att\<lparr>at_Validator := n\<rparr>)) names))) VotingTimer = ((s', Running), [GossipBlock g])
    \<and> bk_Hash g = bk_Hash b \<and> set (bk_Approvers g) \<subseteq> {at_Signature att} \<and> checkVotes cv g = None"
proof -
  let ?atts = "map (\<lambda>n. att\<lparr>at_Validator := n\<rparr>) names" and ?vs = "map (\<lambda>n. (t, att\<lparr>at_Validator := n\<rparr>)) names"
  let ?g = "with_votes b ?atts"
  have "filter (vote_ok (cv_crypto cv) s) ?atts = ?atts" using assms(6) by (simp add: vote_ok_def verify_any_name filter_id_conv)
  moreover have "first_votes {} ?atts = ?atts" using assms(9) by (intro first_votes_distinct) (auto simp: comp_def distinct_map inj_on_def)
  moreover have "map snd ?vs = ?atts" by simp
  ultimately have f: "first_votes {} (filter (vote_ok (cv_crypto cv) s) (map snd ?vs)) = ?atts" by (simp only:)
  have vs: "\<forall>(t, a) \<in> set ?vs. bk_Hash (at_Block a) = bk_Hash b \<and> bk_Proposer (at_Block a) = bk_Proposer b" using assms(8) by auto
  obtain s' where run: "loop_step (cv_crypto cv) int63n (loop_run (cv_crypto cv) int63n (s, Running) (vote_events ?vs)) VotingTimer =
      ((s', Running), [GossipBlock ?g])"
    using round_of_votes [OF assms(1-3) vs, of "cv_crypto cv" int63n] unfolding f by blast
  have a: "bk_Approvers ?g = replicate (length names) (at_Signature att)" "bk_Slashers ?g = []"
    using assms(4,5,7) by (simp_all add: with_votes_def comp_def map_replicate_const)
  have h: "NewHeader (at_Block att) = NewHeader ?g" using assms(8) by (simp add: NewHeader_cong)
  have "countValidSigns cv ?g [] Reject = 0" by (simp add: countValidSigns_def)
  then have "checkVotes cv ?g = None"
    unfolding checkVotes_def a count_copies [OF assms(6,7) h] using assms(10,11) by (simp add: IsEnoughVotes_def percent_below_60_def Let_def)
  then show ?thesis using run a(1) by (intro exI [of _ s'] exI [of _ ?g]) auto
qed

subsection \<open>The loop does not lose its block\<close>

text \<open>
  \<open>loop_ok\<close>: the vote is open only while there is a proposed block, and in every vote no name is recorded as approving
  and rejecting.
\<close>

definition consistent :: "voting \<Rightarrow> bool" where
  "consistent v \<longleftrightarrow> fst ` set (vt_approved v) \<inter> fst ` set (vt_rejected v) = {}"

definition loop_ok :: "ValidatorService \<Rightarrow> bool" where
  "loop_ok s \<longleftrightarrow> (va_proposedBlock s = None \<longrightarrow> va_votingIsFinished s) \<and> (\<forall>v \<in> snd ` set (va_blockVoting s). consistent v)"

lemma loop_ok_cong:
  "va_proposedBlock s' = va_proposedBlock s \<Longrightarrow> va_votingIsFinished s' = va_votingIsFinished s \<Longrightarrow> va_blockVoting s' = va_blockVoting s \<Longrightarrow>
   loop_ok s' = loop_ok s"
  by (simp add: loop_ok_def)

lemma generateSeed_ok: "loop_ok (fst (generateSeed c rnd s)) = loop_ok s"
  by (rule loop_ok_cong) (simp_all add: generateSeed_def split: sum.split)

lemma handleSeedEvent_ok: "loop_ok (handleSeedEvent c order s seed) = loop_ok s"
  by (rule loop_ok_cong) (simp_all add: handleSeedEvent_def Let_def)

lemma proposeEvent_ok: "loop_ok (fst (proposeEvent int63n cv now s b)) = loop_ok s"
  by (rule loop_ok_cong) (simp_all add: proposeEvent_def verifyBlock_def Let_def split: option.split sum.split prod.split)

lemma waitSeed_ok: "loop_ok s \<Longrightarrow> waitSeed int63n srt m f s = (f', s', ms, l) \<Longrightarrow> loop_ok s'"
  by (auto simp: waitSeed_def forgeBlock_def loop_ok_def split: sum.splits if_splits prod.splits forged.splits)

lemma in_delete: "x \<in> set (gdel k m) \<Longrightarrow> x \<in> set m"
  by (auto simp: AList.delete_eq)

lemma finishVoting_ok: "loop_ok s \<Longrightarrow> loop_ok (fst (finishVoting s))"
  by (auto simp: loop_ok_def finishVoting_def Let_def split: option.splits dest!: in_delete)

lemma clearVoting_ok: "loop_ok s \<Longrightarrow> loop_ok (clearVoting s)"
  by (auto simp: loop_ok_def clearVoting_def Let_def)

lemma vote_recorded:
  assumes "loop_ok s" "consistent v"
  shows "loop_ok (s\<lparr>va_blockVoting := gput h v (va_blockVoting s)\<rparr>)"
  using assms set_update_subset [of h v "va_blockVoting s"] by (force simp: loop_ok_def)

lemma add_vote_ok:
  assumes "loop_ok s" "upd \<longrightarrow> \<not> va_votingIsFinished s"
  shows "\<exists>s'. add_vote s att upd = (s', Running) \<and> loop_ok s'"
  using assms by (auto simp: add_vote_def loop_ok_def split: option.split)

lemma processAttestation_ok:
  assumes ok: "loop_ok s"
  shows "\<exists>s'. processAttestation c t s att = (s', Running) \<and> loop_ok s'"
proof -
  define h n v where "h = Encode (bk_Hash (at_Block att))" and "n = Address_Hex (at_Validator att)"
    and "v = (case map_of (va_blockVoting s) h of Some v \<Rightarrow> v | None \<Rightarrow> \<lparr>vt_approved = [], vt_rejected = [], vt_started = t\<rparr>)"
  define w where "w = (if at_Type att = Approve then v\<lparr>vt_approved := gput n () (vt_approved v)\<rparr> else v\<lparr>vt_rejected := gput n () (vt_rejected v)\<rparr>)"
  let ?s = "s\<lparr>va_blockVoting := gput h v (va_blockVoting s)\<rparr>"
  have "consistent v'" if "map_of (va_blockVoting s) h = Some v'" for v' using map_of_SomeD [OF that] ok by (force simp: loop_ok_def)
  moreover have "consistent \<lparr>vt_approved = [], vt_rejected = [], vt_started = t\<rparr>" by (simp add: consistent_def)
  ultimately have dis: "consistent v"
    by (simp add: v_def split: option.split)
  then have s1: "loop_ok ?s" by (rule vote_recorded [OF ok])
  have s2: "loop_ok (?s\<lparr>va_blockVoting := gput h w (va_blockVoting ?s)\<rparr>)" if "\<not> ghas (vt_approved v) n" "\<not> ghas (vt_rejected v) n"
    using that dis by (intro vote_recorded [OF s1]) (auto simp: w_def gput_keys ghas_iff consistent_def)
  show ?thesis
    unfolding processAttestation_def Let_def h_def [symmetric] n_def [symmetric] v_def [symmetric] w_def [symmetric]
    using ok s1 s2 by (auto intro!: add_vote_ok)
qed

lemma loop_step_ok:
  assumes "loop_ok (fst st)"
  shows "loop_ok (fst (fst (loop_step c int63n st e)))"
proof (cases st)
  case (Pair s l)
  show ?thesis
  proof (cases l)
    case Running
    have w: "loop_ok (fst (snd (waitSeed int63n srt m f s)))" for srt m f
      using waitSeed_ok [of s int63n srt m f] assms by (cases "waitSeed int63n srt m f s") (simp add: Pair)
    have p: "loop_ok (fst (processAttestation c t s att))" for t att
      using processAttestation_ok [of s c t att] assms by (auto simp: Pair)
    show ?thesis
      using assms generateSeed_ok [of c _ s] proposeEvent_ok [of int63n _ _ s] p finishVoting_ok [of s] w
      by (cases e) (auto simp: Pair Running handleSeedEvent_ok clearVoting_ok split_beta)
  qed (use assms in \<open>simp_all add: Pair\<close>)
qed

interpretation validator_loop: guarded_system "\<lambda>st e. fst (loop_step c int63n st e)" "\<lambda>_ _. True" "\<lambda>st. loop_ok (fst st)"
  by unfold_locales (rule loop_step_ok)

text \<open>
  C8. After its first vote the loop is safe from votes. Once a validator has closed a vote or proposed a block, over any further events in any
  order: an open vote has its block, no name is counted on both sides of one vote, and no vote can end the loop,
  whatever block it names.
\<close>

theorem votes_never_crash:
  assumes "loop_ok s" "loop_run c int63n (s, Running) es = (s', Running)"
  shows "loop_ok s' \<and> (\<exists>s''. loop_step c int63n (s', Running) (AttestationArrived t att) = ((s'', Running), []) \<and> loop_ok s'')"
proof -
  have "loop_ok (fst (loop_run c int63n (s, Running) es))"
    by (rule validator_loop.run_inv) (simp_all add: assms(1))
  then show ?thesis using assms(2) processAttestation_ok [of s' c t att] by auto
qed

subsection \<open>A committee of three\<close>

definition demo_proposal :: Block where
  "demo_proposal = (case NewBlock demo_crypto 9 1 1 (replicate 32 5) [] [7] of Inr b \<Rightarrow> b | Inl _ \<Rightarrow> demo_block 0)"

definition demo_vote :: "byte \<Rightarrow> uint32 \<Rightarrow> Attestation" where
  "demo_vote k ty = (case NewAttestation demo_crypto demo_proposal (PubkeyToAddress demo_crypto (pubkey_of demo_crypto [k])) [k] ty of
     Inr a \<Rightarrow> a | Inl _ \<Rightarrow> \<lparr>at_Validator = [], at_Block = demo_proposal, at_Signature = \<lparr>sg_Address = [], sg_Signature = []\<rparr>, at_Type = 9\<rparr>)"

definition demo_proposer :: ValidatorService where
  "demo_proposer = (demo_validator 7)\<lparr>va_proposedBlock := Some demo_proposal, va_votingIsFinished := False\<rparr>"

lemma demo_proposal_fields: "bk_Approvers demo_proposal = []" "bk_Slashers demo_proposal = []" "bk_Version demo_proposal = [1, 0, 0]"
  by (simp_all add: demo_proposal_def NewBlock_def Let_def signBlock_def BlockSigner_Sign_def signRaw_def demo_crypto_def
      split: sum.split)

lemma demo_vote_ok: "ty = Approve \<or> ty = Reject \<Longrightarrow> VerifyAttestationSign demo_crypto (demo_vote k ty) = None \<and> at_Type (demo_vote k ty) = ty
    \<and> at_Block (demo_vote k ty) = demo_proposal \<and> at_Validator (demo_vote k ty) = PubkeyToAddress demo_crypto (pubkey_of demo_crypto [k])"
proof -
  assume ty: "ty = Approve \<or> ty = Reject"
  obtain a where a: "NewAttestation demo_crypto demo_proposal (PubkeyToAddress demo_crypto (pubkey_of demo_crypto [k])) [k] ty = Inr a"
    using NewAttestation_total [OF _ ty] by (fastforce simp: demo_crypto_def)
  then show ?thesis using NewAttestation_verifies [OF demo_crypto_laws a demo_proposal_fields(3)] by (simp add: demo_vote_def)
qed

lemma demo_voting_on: "voting_on demo_proposer demo_proposal"
  unfolding voting_on_def by code_simp


theorem single_signer_decides_witness:
  "\<exists>s' g. loop_step demo_crypto (\<lambda>_ _. 0) (loop_run demo_crypto (\<lambda>_ _. 0) (demo_proposer, Running)
      (vote_events (map (\<lambda>n. (0, (demo_vote 66 Approve)\<lparr>at_Validator := n\<rparr>)) [[1], [2]]))) VotingTimer = ((s', Running), [GossipBlock g])
    \<and> checkVotes demo_cv g = None"
  using single_signer_decides [OF demo_voting_on, of demo_cv "demo_vote 66 Approve" "[[1], [2]]" "\<lambda>_ _. 0" 0] demo_vote_ok [of Approve 66]
  by (auto simp: demo_proposer_def demo_validator_def voters_def demo_proposal_fields demo_cv_def demo_cfg_def)

theorem votes_never_crash_witness:
  "\<exists>s''. loop_step demo_crypto (\<lambda>_ _. 0) (demo_proposer, Running) (AttestationArrived 5 (demo_vote 8 Approve)) = ((s'', Running), []) \<and> loop_ok s''"
proof -
  have "loop_ok demo_proposer" by (simp add: loop_ok_def demo_proposer_def demo_validator_def)
  then show ?thesis using votes_never_crash [of demo_proposer demo_crypto "\<lambda>_ _. 0" "[]" demo_proposer] by simp
qed

theorem validator_votes_witness:
  "\<exists>s' att. loop_step demo_crypto (\<lambda>_ _. 0) (demo_validator 8, Running) (BlockProposed (demo_cv\<lparr>cv_stakeValidator := NewStakingPool 2 10,
      cv_params := demo_cfg\<lparr>cf_Proposers := [Address_Hex (va_addr (demo_validator 7))]\<rparr>\<rparr>) (- 10000000000) demo_proposal) = ((s', Running), [Attest att])
    \<and> at_Type att = Reject \<and> VerifyAttestationSign demo_crypto att = None"
proof -
  let ?cv = "demo_cv\<lparr>cv_stakeValidator := NewStakingPool 2 10, cv_params := demo_cfg\<lparr>cf_Proposers := [Address_Hex (va_addr (demo_validator 7))]\<rparr>\<rparr>"
  have a: "Address_Hex (BytesToAddress (sg_Address (bk_Proposer demo_proposal))) \<noteq> Address_Hex (va_addr (demo_validator 8))" by code_simp
  have l: "pos_IsLeader (\<lambda>_ _. 0) (cv_params ?cv) (cv_stakeValidator ?cv) (BytesToAddress (sg_Address (bk_Proposer demo_proposal))) (va_seed (demo_validator 8)) = Inr True"
    by code_simp
  have e: "case snd (snd (ValidateBlock ?cv (- 10000000000) demo_proposal False)) of Some e \<Rightarrow> e \<noteq> ErrPreviousBlockNotExists \<and> \<not> panics e | None \<Rightarrow> False" by code_simp
  obtain b' failed err where v: "ValidateBlock ?cv (- 10000000000) demo_proposal False = (b', failed, err)" by (metis prod_cases3)
  have "err \<noteq> None" "err \<noteq> Some ErrPreviousBlockNotExists" "\<forall>e. err = Some e \<longrightarrow> \<not> panics e" using e unfolding v by (auto split: option.splits)
  moreover have "cv_crypto ?cv = demo_crypto" "va_receivedBlock (demo_validator 8) = None" by (simp_all add: demo_cv_def demo_validator_def)
  moreover have "\<forall>d. \<exists>sig. secp_sign demo_crypto d key = Inr sig" for key by (simp add: demo_crypto_def)
  ultimately show ?thesis
    using validator_votes [OF a l v] demo_crypto_laws demo_proposal_fields(3) by auto
qed

end
