(* ===== verification/Node.thy ===== *)
theory Node
  imports Sync Voting
begin

text \<open>
  The node as a whole: the events that reach the core service from the network (\<^verbatim>\<open>blockchain/core/service.go\<close>,
  \<^verbatim>\<open>blockchain/core/attestation/service.go\<close>, \<^verbatim>\<open>blockchain/sync/service.go\<close>) as one step function, with whatever the network, the
  clock and the SQL driver do as part of the event.  Between two events other goroutines change the synchronisation service,
  so an event carries the state of it that the handler finds.  The lemmas show that no event ever removes or changes a block
  of the stored chain, and that a block which conserves the supply passes the check of the supply.
\<close>

subsection \<open>Events\<close>

text \<open>
  \<open>BlockArrived\<close> is a block event of the main loop of the core service with the attempts to fetch missing blocks,
  \<open>SyncRound\<close> a call of \<open>SyncWithNetwork\<close> by \<open>Start\<close> or a round of \<open>maintainSync\<close>, \<open>MetaArrived\<close> a message for
  \<open>metaHandler\<close>, \<open>PeerArrived\<close> a new connection, \<open>MetaRound\<close> a call of \<open>metaReq\<close>, \<open>TxArrived\<close> a round of \<open>txListener\<close>.
\<close>

datatype node_event =
    BlockArrived Block "nat \<Rightarrow> core_io" "nat \<Rightarrow> SyncService \<times> sync_net \<times> (nat \<Rightarrow> core_io)" nat
  | SyncRound SyncService sync_net "nat \<Rightarrow> core_io"
  | MetaArrived snappy_lib SyncService string Metadata int
  | PeerArrived snappy_lib SyncService string opened
  | MetaRound snappy_lib SyncService "nat \<Rightarrow> int" "string \<Rightarrow> opened"
  | TxArrived sorter core_io Transaction

text \<open>The retries of the main loop go through \<open>SyncWithNetwork\<close>.\<close>

definition network_sync :: "env \<Rightarrow> RDOBlockChainConfig \<Rightarrow> (nat \<Rightarrow> SyncService \<times> sync_net \<times> (nat \<Rightarrow> core_io)) \<Rightarrow> nat \<Rightarrow> Core \<Rightarrow> Core \<times> outcome" where
  "network_sync ev cfg nets k st = (case nets k of (svc, net, io) \<Rightarrow> snd (SyncWithNetwork ev cfg io net svc st))"

definition txListener :: "sorter \<Rightarrow> CryspValidator \<Rightarrow> Core \<Rightarrow> Transaction \<Rightarrow> Core" where
  "txListener srt cv st tx = (case Insert srt cv (co_txPool st) tx of None \<Rightarrow> st | Some (pool, err) \<Rightarrow> st\<lparr>co_txPool := pool\<rparr>)"

fun node_step :: "env \<Rightarrow> RDOBlockChainConfig \<Rightarrow> Core \<Rightarrow> node_event \<Rightarrow> Core" where
  "node_step ev cfg st (BlockArrived b io nets fuel) = handle_block ev cfg io (network_sync ev cfg nets) fuel st b"
| "node_step ev cfg st (SyncRound svc net io) = fst (snd (SyncWithNetwork ev cfg io net svc st))"
| "node_step ev cfg st (MetaArrived sl svc pid meta now) = fst (snd (metaHandler sl ev svc st pid meta now))"
| "node_step ev cfg st (PeerArrived sl svc pid stream) = fst (snd (connected_handler sl ev svc st pid stream))"
| "node_step ev cfg st (MetaRound sl svc now net) = snd (metaReq sl ev now net svc st)"
| "node_step ev cfg st (TxArrived srt io tx) = txListener srt (node_validator ev cfg io st) st tx"

subsection \<open>Every event keeps the stored chain\<close>

lemma grown_import: "grown ev bs st \<Longrightarrow> grown ev bs (fst (import_blocks ev cfg io k st blocks))"
proof (induction ev cfg io k st blocks rule: import_blocks.induct)
  case (2 ev cfg io k core b bs')
  obtain st1 b1 r1 where f: "Core_FinalizeBlock ev cfg (io k) core b = (st1, b1, r1)" by (metis prod_cases3)
  have g: "grown ev bs st1" by (rule grown_step [OF "2.prems" f])
  show ?case
  proof (cases r1)
    case (Done e)
    then show ?thesis using "2.IH"(1) [OF f [symmetric] refl] "2.IH"(2) [OF f [symmetric] refl] f g by (cases e) auto
  qed (simp add: f g)
qed simp

lemma grown_request_loop: "grown ev bs st \<Longrightarrow> grown ev bs (fst (snd (request_data_loop ev cfg io k s st ds)))"
proof (induction ev cfg io k s st ds rule: request_data_loop.induct)
  case (4 ev cfg io k s core pid blocks ds)
  obtain st1 k1 r1 where f: "import_blocks ev cfg io k core blocks = (st1, k1, r1)" by (metis prod_cases3)
  have g: "grown ev bs st1" using grown_import [OF "4.prems", of cfg io k blocks] f by simp
  show ?case
  proof (cases r1)
    case (Done e)
    then show ?thesis using "4.IH" f g by (cases e) auto
  qed (simp add: f g)
qed simp_all

lemma grown_requestData: "grown ev bs st \<Longrightarrow> grown ev bs (fst (snd (requestData ev cfg io k s st peers ds)))"
  by (simp add: requestData_def grown_request_loop)

lemma grown_sync:
  assumes "grown ev bs st"
  shows "grown ev bs (fst (snd (SyncWithNetwork ev cfg io net s st)))"
proof -
  let ?best = "syncToBestKnownBlock ev cfg io net (s\<lparr>sy_token := False\<rparr>) st"
  obtain s1 st1 k1 r1 where b: "?best = (s1, st1, k1, r1)" by (metis prod_cases4)
  have "grown ev bs (fst (snd ?best))"
    using assms by (simp add: syncToBestKnownBlock_def Let_def grown_requestData split: option.split prod.split)
  then have g: "grown ev bs st1" by (simp add: b)
  obtain s2 st2 k2 r2 where m: "syncToMaxBlock ev cfg io net k1 s1 st1 = (s2, st2, k2, r2)" by (metis prod_cases4)
  have "grown ev bs (fst (snd (syncToMaxBlock ev cfg io net k1 s1 st1)))"
    using g by (simp add: syncToMaxBlock_def Let_def grown_requestData split: option.split prod.split)
  then have "grown ev bs st2" by (simp add: m)
  then show ?thesis using assms g b m by (simp add: SyncWithNetwork_def split: outcome.split option.split)
qed

lemma grown_same_chain:
  assumes "grown ev bs st" "same_chain (sv_bc (co_chain st)) (sv_bc (co_chain st'))"
  shows "grown ev bs st'"
proof -
  obtain bs' where r: "reliable ev" and c: "chain_of ev (sv_bc (co_chain st)) (bs @ bs')"
    using assms(1) unfolding grown_def by (elim conjE exE) (rule that)
  from same_chain_of [OF assms(2) c] r show ?thesis unfolding grown_def by blast
qed

lemma GetHeadBlock_chain: "same_chain bc (fst (GetHeadBlock ev bc))"
  by (simp add: GetHeadBlock_def Let_def same_chain_def split: sum.split option.split)

lemma grown_self_meta:
  assumes "grown ev bs st"
  shows "grown ev bs (fst (snd (getSelfMeta ev s st)))"
proof (rule grown_same_chain [OF assms])
  obtain bc r where "GetHeadBlock ev (sv_bc (co_chain st)) = (bc, r)" by fastforce
  moreover have "same_chain (sv_bc (co_chain st)) (fst (GetHeadBlock ev (sv_bc (co_chain st))))" by (rule GetHeadBlock_chain)
  ultimately show "same_chain (sv_bc (co_chain st)) (sv_bc (co_chain (fst (snd (getSelfMeta ev s st)))))"
    by (simp add: getSelfMeta_def Let_def split: sum.split)
qed

lemma grown_meta_check: "grown ev bs st \<Longrightarrow> grown ev bs (fst (snd (validateMetaHandler ev s st meta)))"
  using grown_self_meta [of ev bs st s] by (auto simp: validateMetaHandler_def split: prod.split sum.split)

lemma grown_meta_response:
  assumes "grown ev bs st"
  shows "grown ev bs (fst (snd (metaResponse sl ev s st)))"
  using grown_self_meta [OF assms, of s] by (auto simp: metaResponse_def split: prod.split sum.split)

lemma grown_meta:
  assumes "grown ev bs st"
  shows "grown ev bs (fst (snd (metaHandler sl ev s st pid meta now)))"
proof -
  obtain s1 st1 e where v: "validateMetaHandler ev s st meta = (s1, st1, e)" by (metis prod_cases3)
  have g: "grown ev bs st1" using grown_meta_check [OF assms, of s meta] v by simp
  let ?s = "s1\<lparr>sy_store := AddMeta pid meta now (sy_store s1)\<rparr>"
  have "grown ev bs (fst (snd (metaResponse sl ev ?s st1)))" by (rule grown_meta_response [OF g])
  then show ?thesis
    using g v by (auto simp: metaHandler_def split: prod.split sum.split option.split)
qed

lemma grown_meta_request:
  assumes "grown ev bs st"
  shows "grown ev bs (fst (snd (metaRequest sl ev s st stream)))"
proof -
  obtain s1 st1 r where v: "getSelfMeta ev s st = (s1, st1, r)" by (metis prod_cases3)
  have g: "grown ev bs st1" using grown_self_meta [OF assms, of s] v by simp
  then show ?thesis using v grown_meta_check [OF g] by (auto simp: metaRequest_def split: prod.split sum.split option.split)
qed

lemma grown_meta_loop: "grown ev bs st \<Longrightarrow> grown ev bs (snd (meta_req_loop sl ev now net k s st peers))"
proof (induction sl ev now net k s st peers rule: meta_req_loop.induct)
  case (2 sl ev now net k s st d peers)
  obtain s1 st1 e where m: "metaRequest sl ev s st (net (pd_Id d)) = (s1, st1, e)" by (metis prod_cases3)
  have "grown ev bs st1" using grown_meta_request [OF "2.prems", of sl s "net (pd_Id d)"] m by simp
  then show ?case using "2.IH" "2.prems" m by simp
qed simp

lemma txListener_chain [simp]: "co_chain (txListener srt cv st tx) = co_chain st"
  by (simp add: txListener_def split: option.split prod.split)

lemma grown_event:
  assumes "grown ev bs st"
  shows "grown ev bs (node_step ev cfg st e)"
proof (cases e)
  case (BlockArrived b io nets fuel)
  have "grown ev bs (fst (network_sync ev cfg nets k st))" if "grown ev bs st" for k st
    using grown_sync [OF that] by (simp add: network_sync_def split: prod.split)
  from grown_handle [OF this assms] show ?thesis by (simp add: BlockArrived)
next
  case (TxArrived srt io tx)
  have "grown ev bs (txListener srt (node_validator ev cfg io st) st tx) = grown ev bs st"
    by (rule grown_chain) simp
  then show ?thesis using assms by (simp add: TxArrived)
qed (simp_all add: grown_sync grown_meta grown_meta_request grown_meta_loop connected_handler_def metaReq_def assms)

interpretation node_events: guarded_system "node_step ev cfg" "\<lambda>_ _. True" "grown ev bs"
  by unfold_locales (rule grown_event)

subsection \<open>The supply\<close>

text \<open>
  The check at the end of \<open>FinalizeBlock\<close> passes exactly if the table held, for the inputs that the block spends, what the inputs that
  its balance counts state.  The call ends as the pools end it, and with the error of the check if they are done without an error.
\<close>

lemma stored_block_checked:
  assumes acc: "ValidateBlock (node_validator ev cfg io st) (ci_now io) b True = (b', failed, None)" "bk_Num b \<noteq> 0"
    and fin: "FinalizeBlock ev (ci_sync io) (co_chain st) b' = (ch, None)"
    and bal: "bc_genesisBlock (sv_bc (co_chain st)) = Some g" "CheckBalance None (co_chain st) = None"
    and fits: "total (ds_table (om_db (sv_outm ch))) < 2 ^ 64" "ci_total io = None"
  shows "CheckBalance None ch = None \<longleftrightarrow>
      (\<Sum>i\<leftarrow>spent_inputs (bk_Transactions b). amount_at (ds_table (om_db (sv_outm (co_chain st)))) (in_key i)) =
      sum_list (map ti_Amount (counted_inputs (bk_Transactions b)))"
    and "Core_FinalizeBlock ev cfg io st b = (case finalize_pools (st\<lparr>co_chain := ch\<rparr>) b' of
        (st', Done None) \<Rightarrow> (st', b', Done (map_option (\<lambda>e. Wrap e ''Balances inconsistency'') (CheckBalance None ch)))
      | (st', r) \<Rightarrow> (st', b', r))"
    and "bc_genesisBlock (sv_bc ch) = Some g"
proof -
  note F = FinalizeBlock_ok [OF fin]
  show "CheckBalance None ch = None \<longleftrightarrow>
      (\<Sum>i\<leftarrow>spent_inputs (bk_Transactions b). amount_at (ds_table (om_db (sv_outm (co_chain st)))) (in_key i)) =
      sum_list (map ti_Amount (counted_inputs (bk_Transactions b)))"
    using supply_step [OF fin bal fits(1)] stated_balance [OF acc(1)] by simp
  show "bc_genesisBlock (sv_bc ch) = Some g" using SaveBlock_ok [OF F(2)] bal(1) by simp
  obtain st1 r where p: "finalize_pools (st\<lparr>co_chain := ch\<rparr>) b' = (st1, r)" by fastforce
  have "co_chain st1 = ch" using finalize_pools_chain [of "st\<lparr>co_chain := ch\<rparr>" b'] p by simp
  then show "Core_FinalizeBlock ev cfg io st b = (case finalize_pools (st\<lparr>co_chain := ch\<rparr>) b' of
        (st', Done None) \<Rightarrow> (st', b', Done (map_option (\<lambda>e. Wrap e ''Balances inconsistency'') (CheckBalance None ch)))
      | (st', r) \<Rightarrow> (st', b', r))"
    using acc fin p fits(2) by (simp add: Core_FinalizeBlock_def split: outcome.split option.split)
qed

text \<open>Without failed transactions and with inputs only where they are spent, a balanced chain stays balanced.\<close>

lemma accepted_keeps_supply:
  assumes "ValidateBlock (node_validator ev cfg io st) (ci_now io) b True = (b', [], None)" "bk_Num b \<noteq> 0"
    and "FinalizeBlock ev (ci_sync io) (co_chain st) b' = (ch, None)"
    and wf: "table_wf (ds_table (om_db (sv_outm (co_chain st))))" "inputs_regular (bk_Transactions b)"
    and "bc_genesisBlock (sv_bc (co_chain st)) = Some g" "CheckBalance None (co_chain st) = None"
    and "total (ds_table (om_db (sv_outm ch))) < 2 ^ 64" "ci_total io = None"
  shows "CheckBalance None ch = None"
    "Core_FinalizeBlock ev cfg io st b = (fst (finalize_pools (st\<lparr>co_chain := ch\<rparr>) b'), b', snd (finalize_pools (st\<lparr>co_chain := ch\<rparr>) b'))"
proof -
  have "cv_bc (node_validator ev cfg io st) = chain_reader ev (ci_query io) (co_chain st)" by (simp add: node_validator_def)
  note S = stored_block_checked [OF assms(1-3,6-9)] and R = accepted_amounts_real [OF assms(1) this wf]
  show ok: "CheckBalance None ch = None" using S(1) R by blast
  show "Core_FinalizeBlock ev cfg io st b = (fst (finalize_pools (st\<lparr>co_chain := ch\<rparr>) b'), b', snd (finalize_pools (st\<lparr>co_chain := ch\<rparr>) b'))"
    using S(2) ok by (simp split: prod.split outcome.split option.split)
qed

subsection \<open>A block without transactions\<close>

lemma ValidateBlock_empty:
  assumes "validateBlockBase cv now b cs = None" "bk_Transactions b = []" "sp_slotsFilled (cv_stakeValidator cv) = 0"
  shows "ValidateBlock cv now b cs = (b, [], None)"
  using assms by (simp add: ValidateBlock_def verifyTransactions_def GetRewardMap_def)

lemma ProcessBlock_empty:
  assumes "\<forall>n. ev_sqlio ev n = None" "ds_canCreateTx (om_db om)" "bk_Transactions b = []"
  shows "\<exists>om'. ProcessBlock ev om b = (om', None) \<and> ds_table (om_db om') = ds_table (om_db om)"
  using assms by (simp add: ProcessBlock_def CreateTx_def stmt_def CommitTx_def removeTx_def map_of_update)

lemma empty_block_stored:
  assumes "\<forall>n. ev_sqlio ev n = None" "ds_canCreateTx (om_db (sv_outm s))" "\<forall>n. ev_kvio ev n = None"
    and "bk_Transactions b = []" "MarshalBlock (ev_codec ev) (Some b) = Inr data"
    and "Get BlocksBucket (genBlockKey (bk_Num b) (bk_Hash b)) (bc_db (sv_bc s)) = None"
  shows "\<exists>s'. FinalizeBlock ev q s b = (s', None) \<and> ds_table (om_db (sv_outm s')) = ds_table (om_db (sv_outm s))"
proof -
  obtain om where "ProcessBlock ev (sv_outm s) b = (om, None)" "ds_table (om_db om) = ds_table (om_db (sv_outm s))"
    using ProcessBlock_empty [OF assms(1,2,4)] by blast
  moreover obtain bc where "SaveBlock ev (sv_bc s) b = (bc, None)"
    using SaveBlock_system [OF assms(3,5) _ assms(6)] assms(4) by auto
  ultimately show ?thesis by (simp add: FinalizeBlock_def)
qed

lemma finalize_pools_empty:
  assumes "bk_Transactions b = []" "\<not> tp_mu (co_txPool st)"
  shows "snd (finalize_pools st b) = Done None"
  using assms by (simp add: finalize_pools_def PbTxBatchToTyped_def Pool_Finalize_def FinalizeStaking_def)

text \<open>Signatures have the sizes that the encoding of a block asks for.\<close>

lemma signRaw_ok:
  assumes "secp_laws c" "\<forall>x. length (keccak c x) = 32" "signRaw c h key = Inr sig"
  shows "Sign_ok sig" "sg_Address sig = PubkeyToAddress c (pubkey_of c key)"
proof -
  obtain x where x: "secp_sign c h key = Inr x" "sig = \<lparr>sg_Address = PubkeyToAddress c (pubkey_of c key), sg_Signature = x\<rparr>"
    using assms(3) by (auto simp: signRaw_def split: sum.splits)
  then show "Sign_ok sig" using secp_lawsD(1) [OF assms(1) x(1)] assms(2) by (simp add: Sign_ok_def PubkeyToAddress_def BytesToAddress_def)
  show "sg_Address sig = PubkeyToAddress c (pubkey_of c key)" by (simp add: x(2))
qed

text \<open>The forged block of a proposer with an empty pool can be encoded, with up to 128 votes on either side.\<close>

lemma empty_block_encodes:
  assumes nb: "NewBlock c t n sl par [] key = Inr b" and c: "secp_laws c" "\<forall>x. length (keccak c x) = 32" and "length par = 32"
    and votes: "\<forall>a \<in> set atts. Sign_ok (at_Signature a)" "length atts \<le> 128"
  shows "Block_ok (with_votes b atts)"
proof -
  note B = forged_fields [OF nb]
  have "Sign_ok (bk_Proposer b)" using B(10) signRaw_ok(1) [OF c] by (simp add: BlockSigner_Sign_def)
  moreover have "bk_Txroot b = EmptyTxRoot c" using B(7) by (simp add: GenTxRoot_def MerkleeRoot_def)
  moreover have "length (filter P atts) \<le> 128" for P using votes(2) length_filter_le [of P atts] by linarith
  ultimately show ?thesis
    using B c(2) votes(1) assms(4) by (simp add: Block_ok_def all_ok_def EmptyTxRoot_def BlockHash_def Let_def with_votes_def)
qed

text \<open>Nothing but the count of the votes depends on the votes.\<close>

lemma voted_base:
  assumes "validateBlockBase cv now b False = None" "checkVotes cv (with_votes b atts) = None"
  shows "validateBlockBase cv now (with_votes b atts) True = None"
proof -
  have f: "bk_Num (with_votes b atts) = bk_Num b" "bk_Slot (with_votes b atts) = bk_Slot b" "bk_Version (with_votes b atts) = bk_Version b"
    "bk_Parent (with_votes b atts) = bk_Parent b" "bk_Txroot (with_votes b atts) = bk_Txroot b" "bk_Timestamp (with_votes b atts) = bk_Timestamp b"
    "bk_Transactions (with_votes b atts) = bk_Transactions b" "bk_Hash (with_votes b atts) = bk_Hash b"
    "bk_Proposer (with_votes b atts) = bk_Proposer b" by (simp_all add: with_votes_def)
  have "checkBlockBalance (with_votes b atts) = checkBlockBalance b" "getTransactionsSize (with_votes b atts) = getTransactionsSize b"
    "checkKnown cv (with_votes b atts) = checkKnown cv b" "checkParent cv (with_votes b atts) = checkParent cv b"
    "validateBlockHeader cv now (with_votes b atts) = validateBlockHeader cv now b"
    by (simp_all only: checkBlockBalance_def getTransactionsSize_def checkKnown_def checkParent_def validateBlockHeader_def f)
  moreover have "verifyBlockSign cv (with_votes b atts) (bk_Proposer b) = verifyBlockSign cv b (bk_Proposer b)"
    by (simp add: verifyBlockSign_def NewHeader_cong f)
  ultimately show ?thesis using assms by (simp add: validateBlockBase_def f)
qed

lemma approvals_suffice:
  assumes "\<forall>a \<in> set atts. at_Type a = Approve \<and> VerifyAttestationSign (cv_crypto cv) a = None \<and> NewHeader (at_Block a) = NewHeader b"
    and "bk_Approvers b = []" "bk_Slashers b = []"
    and "0 < cf_CommitteeSize (cv_params cv)" "60 * cf_CommitteeSize (cv_params cv) \<le> 100 * int (length atts)"
  shows "checkVotes cv (with_votes b atts) = None"
proof -
  have f: "filter (\<lambda>a. at_Type a = Approve) atts = atts" "filter (\<lambda>a. at_Type a \<noteq> Approve) atts = []" using assms(1) by (simp_all add: filter_id_conv filter_empty_conv)
  have "VerifyBlockSign (cv_crypto cv) (NewHeader b) Approve (at_Signature a) = None" if "a \<in> set atts" for a
    using assms(1) that by (auto simp: VerifyAttestationSign_def)
  then have "filter (\<lambda>sign. VerifyBlockSign (cv_crypto cv) (NewHeader b) Approve sign = None) (map at_Signature atts) = map at_Signature atts"
    by (intro filter_True) auto
  then have "countValidSigns cv (with_votes b atts) (bk_Approvers (with_votes b atts)) Approve = length atts"
    "countValidSigns cv (with_votes b atts) (bk_Slashers (with_votes b atts)) Reject = 0"
    using f assms(2,3) by (simp_all add: countValidSigns_def NewHeader_cong with_votes_def)
  then show ?thesis using assms(4,5) by (simp add: checkVotes_def IsEnoughVotes_def percent_below_60_def Let_def)
qed

text \<open>The votes of a committee on a block: every member sends one vote.\<close>

definition committee_votes :: "(int \<Rightarrow> int \<Rightarrow> int) \<Rightarrow> CryspValidator \<Rightarrow> int \<Rightarrow> Block \<Rightarrow> ValidatorService list \<Rightarrow> Attestation list \<Rightarrow> bool" where
  "committee_votes int63n cv now b vs atts \<longleftrightarrow> list_all2 (\<lambda>v att. \<exists>v'.
     loop_step (cv_crypto cv) int63n (v, Running) (BlockProposed cv now b) = ((v', Running), [Attest att])) vs atts"

text \<open>
  A member of the committee that takes part in the round of \<open>proposer\<close> for the seed of the slot; the block it has approved last, if any, is one of the chain \<open>bs\<close>.
\<close>

definition member :: "crypto \<Rightarrow> Block list \<Rightarrow> bytes \<Rightarrow> int \<Rightarrow> ValidatorService \<Rightarrow> bool" where
  "member c bs proposer seed v \<longleftrightarrow> va_addr v \<noteq> proposer \<and> va_seed v = seed \<and> (\<forall>r. va_receivedBlock v = Some r \<longrightarrow> bk_Hash r \<in> bk_Hash ` set bs)
    \<and> (\<forall>d. \<exists>sig. secp_sign c d (va_key v) = Inr sig)"

lemma member_approves:
  assumes "member (cv_crypto cv) bs proposer seed v" "bk_Hash b \<notin> bk_Hash ` set bs" "BytesToAddress (sg_Address (bk_Proposer b)) = proposer"
    and "pos_IsLeader int63n (cv_params cv) (cv_stakeValidator cv) proposer seed = Inr True"
    and "ValidateBlock cv now b False = (b, [], None)" "secp_laws (cv_crypto cv)" "\<forall>x. length (keccak (cv_crypto cv) x) = 32" "bk_Version b = [1, 0, 0]"
  shows "\<exists>v' att. loop_step (cv_crypto cv) int63n (v, Running) (BlockProposed cv now b) = ((v', Running), [Attest att])
    \<and> at_Type att = Approve \<and> at_Validator att = va_addr v \<and> at_Block att = b \<and> VerifyAttestationSign (cv_crypto cv) att = None
    \<and> Sign_ok (at_Signature att)"
proof -
  have m: "va_addr v \<noteq> proposer" "va_seed v = seed" "\<forall>r. va_receivedBlock v = Some r \<longrightarrow> bk_Hash r \<in> bk_Hash ` set bs" "\<forall>d. \<exists>sig. secp_sign (cv_crypto cv) d (va_key v) = Inr sig"
    using assms(1) by (simp_all add: member_def)
  obtain att where a: "NewAttestation (cv_crypto cv) b (va_addr v) (va_key v) Approve = Inr att"
    using NewAttestation_total [OF m(4), of Approve] by blast
  note A = NewAttestation_verifies [OF assms(6) a assms(8)]
  have "\<exists>h. signRaw (cv_crypto cv) h (va_key v) = Inr (at_Signature att)"
    using a by (auto simp: NewAttestation_def BlockSigner_SignMixed_def split: option.splits sum.splits)
  then have "Sign_ok (at_Signature att)" using signRaw_ok(1) [OF assms(6,7)] by blast
  moreover have "loop_step (cv_crypto cv) int63n (v, Running) (BlockProposed cv now b) = ((v\<lparr>va_receivedBlock := Some b\<rparr>, Running), [Attest att])"
    using m assms(2-5) a by (auto simp: proposeEvent_def verifyBlock_def Let_def split: option.splits)
  ultimately show ?thesis using A by blast
qed

lemma committee_approves:
  assumes "\<forall>v \<in> set vs. member (cv_crypto cv) bs proposer seed v" "bk_Hash b \<notin> bk_Hash ` set bs" "BytesToAddress (sg_Address (bk_Proposer b)) = proposer"
    and "pos_IsLeader int63n (cv_params cv) (cv_stakeValidator cv) proposer seed = Inr True"
    and "ValidateBlock cv now b False = (b, [], None)" "secp_laws (cv_crypto cv)" "\<forall>x. length (keccak (cv_crypto cv) x) = 32" "bk_Version b = [1, 0, 0]"
  shows "\<exists>atts. committee_votes int63n cv now b vs atts \<and> map at_Validator atts = map va_addr vs
    \<and> (\<forall>a \<in> set atts. at_Type a = Approve \<and> at_Block a = b \<and> VerifyAttestationSign (cv_crypto cv) a = None \<and> Sign_ok (at_Signature a))"
  using assms(1)
proof (induction vs)
  case Nil
  then show ?case by (simp add: committee_votes_def)
next
  case (Cons v vs)
  obtain atts where "committee_votes int63n cv now b vs atts" "map at_Validator atts = map va_addr vs"
    "\<forall>a \<in> set atts. at_Type a = Approve \<and> at_Block a = b \<and> VerifyAttestationSign (cv_crypto cv) a = None \<and> Sign_ok (at_Signature a)"
    using Cons by auto
  moreover obtain att where "\<exists>v'. loop_step (cv_crypto cv) int63n (v, Running) (BlockProposed cv now b) = ((v', Running), [Attest att])"
    "at_Type att = Approve" "at_Validator att = va_addr v" "at_Block att = b" "VerifyAttestationSign (cv_crypto cv) att = None" "Sign_ok (at_Signature att)"
    using member_approves [OF _ assms(2-8), of v] Cons.prems by auto
  ultimately show ?case by (intro exI [of _ "att # atts"]) (simp add: committee_votes_def)
qed

subsection \<open>A round without transactions\<close>

text \<open>A node with a chain, disks that work, SSZ for its blocks and an output table that agrees with the supply; a node with nothing to put into a block.\<close>

definition node_ready :: "env \<Rightarrow> core_io \<Rightarrow> Core \<Rightarrow> Block list \<Rightarrow> bool" where
  "node_ready ev io st bs \<longleftrightarrow> chain_of ev (sv_bc (co_chain st)) bs \<and> bc_headBlockNum (sv_bc (co_chain st)) + 1 \<noteq> 0 \<and> length (bk_Hash (last bs)) = 32
    \<and> (\<forall>n. ev_kvio ev n = None \<and> ev_sqlio ev n = None) \<and> (\<exists>enc dec. ev_codec ev = ssz_codec enc dec \<and> (\<forall>raw. dec (enc raw) = Inr raw))
    \<and> ds_canCreateTx (om_db (sv_outm (co_chain st))) \<and> table_wf (ds_table (om_db (sv_outm (co_chain st))))
    \<and> total (ds_table (om_db (sv_outm (co_chain st)))) < 2 ^ 64 \<and> CheckBalance None (co_chain st) = None \<and> ci_total io = None"

definition idle :: "Core \<Rightarrow> bool" where
  "idle st \<longleftrightarrow> tp_pending (co_txPool st) = [] \<and> \<not> tp_mu (co_txPool st) \<and> \<not> tp_swapLock (co_txPool st)
    \<and> sp_slotsFilled (co_stakePool st) = 0 \<and> sp_unstakedSnapshot (co_stakePool st) = []"

lemma ready_codec:
  assumes "node_ready ev io st bs" "Block_ok b"
  shows "codec_ok (ev_codec ev)" "\<exists>data. MarshalBlock (ev_codec ev) (Some b) = Inr data"
proof -
  obtain enc dec where c: "ev_codec ev = ssz_codec enc dec" "\<And>raw. dec (enc raw) = Inr raw" using assms(1) by (auto simp: node_ready_def)
  show "codec_ok (ev_codec ev)" unfolding c(1) by (intro ssz_codec_ok c(2))
  show "\<exists>data. MarshalBlock (ev_codec ev) (Some b) = Inr data"
    using block_ssz.marshal_iff [of "[]" b "Block_enc b"] assms(2) by (simp add: c(1) MarshalBlock_def ssz_codec_def)
qed

lemma empty_block_extends:
  assumes r: "node_ready ev io st bs" and v: "ValidateBlock (node_validator ev cfg io st) (ci_now io) g True = (g, [], None)"
    and g: "bk_Transactions g = []" "Block_ok g" "bk_Hash g \<notin> bk_Hash ` set bs" "bk_Num g \<noteq> 0" and mu: "\<not> tp_mu (co_txPool st)"
  shows "\<exists>st'. Core_FinalizeBlock ev cfg io st g = (st', g, Done None) \<and> chain_of ev (sv_bc (co_chain st')) (bs @ [g])"
proof -
  have R: "chain_of ev (sv_bc (co_chain st)) bs" "\<forall>n. ev_kvio ev n = None" "\<forall>n. ev_sqlio ev n = None"
    "ds_canCreateTx (om_db (sv_outm (co_chain st)))" "table_wf (ds_table (om_db (sv_outm (co_chain st))))"
    "total (ds_table (om_db (sv_outm (co_chain st)))) < 2 ^ 64" "CheckBalance None (co_chain st) = None" "ci_total io = None"
    using r by (simp_all add: node_ready_def)
  obtain data where d: "MarshalBlock (ev_codec ev) (Some g) = Inr data" using ready_codec(2) [OF r g(2)] by blast
  obtain ch where fin: "FinalizeBlock ev (ci_sync io) (co_chain st) g = (ch, None)"
    and t: "ds_table (om_db (sv_outm ch)) = ds_table (om_db (sv_outm (co_chain st)))"
    using empty_block_stored [OF R(3,4,2) g(1) d chain_ofD(13) [OF R(1) g(3)]] by blast
  have bc: "cv_bc (node_validator ev cfg io st) = chain_reader ev (ci_query io) (co_chain st)" by (simp add: node_validator_def)
  have ch: "chain_of ev (sv_bc ch) (bs @ [g])" by (rule growth_step [OF R(1) bc ready_codec(1) [OF r g(2)] v fin])
  have "snd (finalize_pools (st\<lparr>co_chain := ch\<rparr>) g) = Done None" using mu g(1) by (intro finalize_pools_empty) simp_all
  then have "Core_FinalizeBlock ev cfg io st g = (fst (finalize_pools (st\<lparr>co_chain := ch\<rparr>) g), g, Done None)"
    using accepted_keeps_supply(2) [OF v g(4) fin R(5) _ chain_ofD(4) [OF R(1)] R(7) _ R(8)] R(6) by (simp add: t g(1) inputs_regular_def)
  then show ?thesis using ch by simp
qed

lemma proposer_starts:
  assumes "pos_IsLeader int63n (fr_cfg m) (fo_stake f) (va_addr p) (va_seed p) = Inr True" "ForgeBlock srt m f = (f', Ok b)"
  shows "loop_step c int63n (p, Running) (SeedTimer srt m f) =
    ((p\<lparr>va_seedMap := [], va_proposedBlock := Some b, va_votingIsFinished := False\<rparr>, Running), [Propose b, SleepVoting])"
  using assms by (simp add: waitSeed_def forgeBlock_def)

lemma approvals_collected:
  assumes "voting_on p b" "va_proposedBlock p = Some b" "va_blockVoting p = []" "distinct (map at_Validator atts)"
    and "\<forall>a \<in> set atts. at_Block a = b \<and> VerifyAttestationSign c a = None"
  shows "\<exists>p'. loop_step c int63n (loop_run c int63n (p, Running) (vote_events (map (Pair t) atts))) VotingTimer =
    ((p', Running), [GossipBlock (with_votes b atts)])"
proof -
  have "filter (vote_ok c p) atts = atts" using assms(5) by (simp add: filter_id_conv vote_ok_def)
  moreover have "first_votes {} atts = atts" using assms(4) by (intro first_votes_distinct) (auto simp: distinct_map inj_on_def)
  moreover have "map snd (map (Pair t) atts) = atts" by (simp add: comp_def)
  ultimately have f: "first_votes {} (filter (vote_ok c p) (map snd (map (Pair t) atts))) = atts" by (simp only:)
  have "\<forall>(t, a) \<in> set (map (Pair t) atts). bk_Hash (at_Block a) = bk_Hash b \<and> bk_Proposer (at_Block a) = bk_Proposer b" using assms(5) by auto
  from round_of_votes [OF assms(1,2) _ this, of c int63n, unfolded f] show ?thesis using assms(3) by (auto simp: voters_def)
qed

subsection \<open>A fresh node\<close>

lemma Init_stats:
  assumes "BlockChain_Init ev (NewBlockChain NewKVStore) = (bc, None)" "codec_ok (ev_codec ev)"
  shows "kv_GetAmountStats (bc_db bc) = (0, 0)"
proof -
  obtain g db1 db2 db3 where h: "SaveHeadBlockNum (ev_kvio ev) 0 NewKVStore = (db1, None)"
    and sg: "SaveGenesis (ev_codec ev) (ev_kvio ev) g db1 = (db2, None)"
    and w: "WriteBlock (ev_codec ev) (ev_kvio ev) g db2 = (db3, None)" and "bc_db bc = db3"
    using Init_fresh [OF assms] by auto
  then have "Get AddressBucket statsKey (bc_db bc) = Get AddressBucket statsKey NewKVStore"
    using WriteBlock_ok [OF w] SaveGenesis_ok [OF sg] SaveHeadBlockNum_ok [OF h] by auto
  then show ?thesis by (simp add: kv_GetAmountStats_def NewKVStore_def Get_def)
qed

text \<open>The node of \<open>node_env\<close> after its start, in a network of three validators of which the first leads.\<close>

definition node_io :: core_io where
  "node_io = \<lparr>ci_now = 100, ci_query = (\<lambda>_. None), ci_sync = None, ci_total = None\<rparr>"

definition node_cfg :: RDOBlockChainConfig where
  "node_cfg = demo_cfg\<lparr>cf_Proposers := [Address_Hex (va_addr (demo_validator 7))]\<rparr>"

definition node_at :: "BlockChain \<Rightarrow> Core" where
  "node_at bc = \<lparr>co_chain = (NewService NewKVStore NewStore)\<lparr>sv_bc := bc\<rparr>, co_txPool = NewPool, co_stakePool = NewStakingPool 2 10,
     co_statusErr = None, co_receivedHash = [], co_synced = True, co_ticker = None\<rparr>"

lemma node_at_ready:
  assumes i: "BlockChain_Init node_env (NewBlockChain NewKVStore) = (bc, None)" and c: "chain_of node_env bc [node_genesis]"
  shows "node_ready node_env node_io (node_at bc) [node_genesis]"
proof -
  have "codec_ok (ev_codec node_env)" using node_env_ok by (simp add: reliable_def)
  then have s: "kv_GetAmountStats (bc_db bc) = (0, 0)" by (rule Init_stats [OF i])
  have "length (bk_Hash node_genesis) = 32" using node_genesis_ok by (simp add: Block_ok_def)
  moreover have "bc_headBlockNum bc = 0" using chain_ofD(1) [OF c] by (simp add: unat_eq_0)
  moreover have "CheckBalance None (co_chain (node_at bc)) = None"
    using chain_ofD(4) [OF c] by (simp add: CheckBalance_def GetAmountStats_def s node_at_def GetTotalAmount_def NewService_def NewOutputManager_def NewStore_def node_genesis_def)
  moreover have "\<exists>enc dec. ev_codec node_env = ssz_codec enc dec \<and> (\<forall>raw. dec (enc raw) = Inr raw)"
    by (intro exI [of _ "\<lambda>x. x"] exI [of _ Inr]) (simp add: node_env_def)
  ultimately show ?thesis
    using c by (simp add: node_ready_def node_at_def node_io_def node_env_def demo_env_def NewService_def NewOutputManager_def NewStore_def table_wf_def
        table_ok_def rows_wf_def total_def)
qed

lemma node_idle_block:
  obtains bc b where "BlockChain_Init node_env (NewBlockChain NewKVStore) = (bc, None)" "chain_of node_env bc [node_genesis]"
    "bk_Transactions b = []" "Block_ok b" "bk_Hash b \<noteq> bk_Hash node_genesis" "bk_Num b = 1"
    "ValidateBlock (node_validator node_env mainnetRDOConfig node_io (node_at bc)) (ci_now node_io) b True = (b, [], None)"
proof -
  obtain bc where i: "BlockChain_Init node_env (NewBlockChain NewKVStore) = (bc, None)" and c: "chain_of node_env bc [node_genesis]" using node_starts by blast
  let ?m = "demo_forger\<lparr>fr_bf := co_chain (node_at bc)\<rparr>" and ?cv = "node_validator node_env mainnetRDOConfig node_io (node_at bc)"
  have bs: "bc_headBlockNum bc = 0" "bc_futureBlockNum bc = 1" "bc_prevHash bc = bk_Hash node_genesis"
    using chain_ofD(1,5,10) [OF c] by (simp_all add: unat_eq_0)
  obtain b where b: "NewBlock demo_crypto 9 1 1 (bk_Hash node_genesis) [] [7] = Inr b" "bk_Hash b \<noteq> bk_Hash node_genesis"
    using idle_hash by (auto split: sum.splits)
  note B = forged_fields [OF b(1)]
  have nb: "NewBlock (fr_crypto ?m) 9 (block_count ?m) 1 (ParentHash (sv_bc (fr_bf ?m))) [] (fr_Key ?m) = Inr b"
    using b(1) by (simp add: demo_forger_def block_count_def GetBlockCount_def ParentHash_def node_at_def bs)
  have "validateBlockBase ?cv (ci_now node_io) b True = None"
    using c b(2) B(4-6) demo_crypto_laws
    by (intro forged_base [OF nb, of node_env "[node_genesis]" ?cv "\<lambda>_. None"])
      (simp_all add: node_at_def node_validator_def node_io_def demo_forger_def node_env_def demo_env_def node_genesis_def bs getTransactionsSize_def checkBlockBalance_def
        mainnetRDOConfig_def validatorConfig_def go_int_def checkVotes_def IsEnoughVotes_def percent_below_60_def countValidSigns_def)
  then have "ValidateBlock ?cv (ci_now node_io) b True = (b, [], None)"
    using B(4) by (intro ValidateBlock_empty) (simp_all add: node_validator_def node_at_def NewStakingPool_def)
  moreover have "Block_ok b"
    using empty_block_encodes [OF b(1) demo_crypto_laws, of "[]"] node_genesis_ok by (simp add: demo_crypto_def Block_ok_def)
  ultimately show thesis using that [OF i c B(4)] b(2) B(1) by simp
qed

end
