(* ===== verification/Network.thy ===== *)
theory Network
  imports Node
begin

text \<open>
  The peer-to-peer layer (\<^verbatim>\<open>p2p/service.go\<close>, \<^verbatim>\<open>p2p/decoder.go\<close>, \<^verbatim>\<open>p2p/filter.go\<close>, \<^verbatim>\<open>p2p/topics.go\<close>, \<^verbatim>\<open>p2p/utils.go\<close>, \<^verbatim>\<open>p2p/discovery.go\<close>) and the
  parts of the synchronisation service that speak to it (\<^verbatim>\<open>blockchain/sync/service.go\<close>, \<^verbatim>\<open>stream.go\<close>, \<^verbatim>\<open>validator_listener.go\<close>, \<^verbatim>\<open>meta_handlers.go\<close>): the
  framing of messages on a stream, the topics and the subscription filter, publishing, the routing of received messages, and the
  loops that carry blocks, transactions and the messages of validators between the feeds of a node and the network.

  A stream is what is left to read of it, with the error that ends it.  Libp2p and snappy are third-party libraries: what they
  answer is an argument, and \<open>snappy_laws\<close> is what the framing format of snappy documents.
\<close>

subsection \<open>Topics and the subscription filter (topics.go, filter.go)\<close>

definition topicMap :: "(string, nat) gomap" where
  "topicMap = [(BlockTopic, 1), (TxTopic, 2)]"

definition validatorMap :: "(string, nat) gomap" where
  "validatorMap = [(SeedTopic, 3), (AttestationTopic, 4), (ProposalTopic, 5)]"

text \<open>\<open>strings.Split\<close> with a separator of one character.\<close>

fun strings_Split :: "char \<Rightarrow> string \<Rightarrow> string list" where
  "strings_Split sep [] = [[]]"
| "strings_Split sep (c # cs) = (if c = sep then [] # strings_Split sep cs
     else (case strings_Split sep cs of [] \<Rightarrow> [[c]] | w # ws \<Rightarrow> (c # w) # ws))"

definition CanSubscribe :: "bool \<Rightarrow> string \<Rightarrow> bool" where
  "CanSubscribe listenValidatorData topic =
    (let words = strings_Split (CHR ''/'') topic in
     if length words \<noteq> 3 then False
     else if words ! 0 \<noteq> [] \<or> words ! 1 \<noteq> ''raido'' then False
     else (let exists = ghas topicMap topic in
       if listenValidatorData \<and> \<not> exists then ghas validatorMap topic else exists))"

definition ErrTooManySubscriptions :: error where "ErrTooManySubscriptions = Sentinel ''too many subscriptions''"

text \<open>\<open>FilterSubscriptions\<close> is a function of the publish-subscribe library.\<close>

definition FilterIncomingSubscriptions ::
  "('s list \<Rightarrow> (string \<Rightarrow> bool) \<Rightarrow> 's list) \<Rightarrow> bool \<Rightarrow> 's list \<Rightarrow> error + 's list" where
  "FilterIncomingSubscriptions FilterSubscriptions listenValidatorData subs =
    (if length subs > 10 then Inl ErrTooManySubscriptions else Inr (FilterSubscriptions subs (CanSubscribe listenValidatorData)))"

lemma CanSubscribe_iff:
  "CanSubscribe v topic \<longleftrightarrow> topic \<in> {BlockTopic, TxTopic} \<or> v \<and> topic \<in> {SeedTopic, AttestationTopic, ProposalTopic}"
proof
  assume "CanSubscribe v topic"
  then show "topic \<in> {BlockTopic, TxTopic} \<or> v \<and> topic \<in> {SeedTopic, AttestationTopic, ProposalTopic}"
    by (auto simp: CanSubscribe_def Let_def topicMap_def validatorMap_def ghas_iff split: if_splits)
next
  have "CanSubscribe False BlockTopic" "CanSubscribe False TxTopic" "CanSubscribe True BlockTopic" "CanSubscribe True TxTopic"
    "CanSubscribe True SeedTopic" "CanSubscribe True AttestationTopic" "CanSubscribe True ProposalTopic" by code_simp+
  moreover assume "topic \<in> {BlockTopic, TxTopic} \<or> v \<and> topic \<in> {SeedTopic, AttestationTopic, ProposalTopic}"
  ultimately show "CanSubscribe v topic" by (cases v) auto
qed

subsection \<open>The service (service.go, discovery.go)\<close>

text \<open>
  Topics and subscriptions are handles of the library, represented by their names.  \<open>p2_stopped\<close> says whether the context of the
  service is done, \<open>p2_initialized\<close> what was sent on the channel of that name: nothing, one value, or that it is closed.
\<close>

datatype signal = Silent | Signalled | ClosedChannel

record P2PService =
  p2_id :: string
  p2_topics :: "string list"
  p2_subs :: "string list"
  p2_store :: PeerStore
  p2_listenValidatorData :: bool
  p2_initialized :: signal

text \<open>\<open>join\<close> and \<open>sub\<close> are the answers of the library to joining the topic and to subscribing to it.\<close>

definition subscribeTopic :: "error option \<Rightarrow> error option \<Rightarrow> string \<Rightarrow> P2PService \<Rightarrow> P2PService \<times> error option" where
  "subscribeTopic join sub name s =
    (if name \<in> set (p2_topics s) then (s, Some (Errorf (''topic '' @ name @ '' already exists'')))
     else if name \<in> set (p2_subs s) then (s, Some (Errorf (''subscription for topic '' @ name @ '' already exists'')))
     else (case join of
         Some e \<Rightarrow> (s, Some (Wrap e ''can't join to topic''))
       | None \<Rightarrow> (case sub of
           Some e \<Rightarrow> (s, Some (Wrap e ''can't subscribe to topic''))
         | None \<Rightarrow> (s\<lparr>p2_topics := p2_topics s @ [name], p2_subs := p2_subs s @ [name]\<rparr>, None))))"

primrec subscribe_topics :: "(string \<Rightarrow> error option) \<Rightarrow> (string \<Rightarrow> error option) \<Rightarrow> string list \<Rightarrow> P2PService \<Rightarrow> P2PService \<times> error option" where
  "subscribe_topics join sub [] s = (s, None)"
| "subscribe_topics join sub (t # ts) s = (case subscribeTopic (join t) (sub t) t s of
     (s, Some e) \<Rightarrow> (s, Some e) | (s, None) \<Rightarrow> subscribe_topics join sub ts s)"

definition SubscribeAll :: "(string \<Rightarrow> error option) \<Rightarrow> (string \<Rightarrow> error option) \<Rightarrow> P2PService \<Rightarrow> P2PService \<times> error option" where
  "SubscribeAll join sub s = (case subscribe_topics join sub (map fst topicMap) s of
     (s, Some e) \<Rightarrow> (s, Some e)
   | (s, None) \<Rightarrow> if p2_listenValidatorData s then subscribe_topics join sub (map fst validatorMap) s else (s, None))"

text \<open>
  The loop of \<open>Publish\<close>: \<open>peers i\<close> is the number of subscribers of the topic in round \<open>i\<close>, \<open>stop i\<close> the error of the context if it is done then;
  the result is whether the message was handed to the library, in which round.
\<close>

abbreviation (input) failPublishLimit :: nat where "failPublishLimit \<equiv> 10"

function publish_loop :: "(nat \<Rightarrow> nat) \<Rightarrow> (nat \<Rightarrow> error option) \<Rightarrow> nat \<Rightarrow> error + nat" where
  "publish_loop peers stop failCounter =
    (if peers failCounter > 0 then Inr failCounter
     else if failCounter \<ge> failPublishLimit then Inl (Errorf ''no topic subscribers'')
     else (case stop failCounter of
         Some e \<Rightarrow> Inl (Wrap e ''no peers found to publish message'')
       | None \<Rightarrow> publish_loop peers stop (failCounter + 1)))"
  by pat_completeness auto
termination
  by (relation "measure (\<lambda>(peers, stop, n). failPublishLimit - n)") auto

declare publish_loop.simps [simp del]

definition Publish :: "(nat \<Rightarrow> nat) \<Rightarrow> (nat \<Rightarrow> error option) \<Rightarrow> error option \<Rightarrow> P2PService \<Rightarrow> string \<Rightarrow> bytes \<Rightarrow> (string \<times> bytes) option \<times> error option" where
  "Publish peers stop pub s topicName message =
    (if length (Connected_peers (p2_store s)) = 0 then (None, None)
     else if topicName \<notin> set (p2_topics s) then (None, Some (Errorf ''undefined topic''))
     else (case publish_loop peers stop 0 of
         Inl e \<Rightarrow> (None, Some e)
       | Inr i \<Rightarrow> (case pub of Some e \<Rightarrow> (None, Some e) | None \<Rightarrow> (Some (topicName, message), None))))"

text \<open>
  The counter is tested with \<open>==\<close> in the code and grows by one from zero, so that \<open>\<ge>\<close> is the same test and the recursion ends.
\<close>

record Notty =
  nt_Data :: bytes
  nt_Topic :: string
  nt_From :: string

datatype p2p_feed = BlockFeed Notty | TxFeed Notty | ProposalFeed Notty | SeedFeed Notty | AttFeed Notty

definition receiveMessage :: "bytes \<Rightarrow> string \<Rightarrow> string \<Rightarrow> p2p_feed option" where
  "receiveMessage data topic sender =
    (let n = \<lparr>nt_Data = data, nt_Topic = topic, nt_From = sender\<rparr> in
     if nt_Topic n = BlockTopic then Some (BlockFeed n)
     else if nt_Topic n = TxTopic then Some (TxFeed n)
     else if nt_Topic n = ProposalTopic then Some (ProposalFeed n)
     else if nt_Topic n = SeedTopic then Some (SeedFeed n)
     else if nt_Topic n = AttestationTopic then Some (AttFeed n)
     else None)"

text \<open>One round of \<open>listenTopic\<close>: messages of the node itself are skipped.\<close>

definition listenTopic :: "P2PService \<Rightarrow> string \<Rightarrow> bytes \<times> string \<Rightarrow> p2p_feed option" where
  "listenTopic s topic msg = (if topic \<notin> set (p2_subs s) then None
     else if snd msg = p2_id s then None else receiveMessage (fst msg) topic (snd msg))"

definition getPeerInfo :: "(string \<Rightarrow> error + 'i) \<Rightarrow> string list \<Rightarrow> 'i list" where
  "getPeerInfo AddrInfoFromString addrs = concat (map (\<lambda>addr. case AddrInfoFromString addr of Inl e \<Rightarrow> [] | Inr info \<Rightarrow> [info]) addrs)"

definition connectPeer :: "error option \<Rightarrow> string \<Rightarrow> P2PService \<Rightarrow> P2PService \<times> error option" where
  "connectPeer connect pid s =
    (if IsBad (p2_store s) pid then (s, Some (Errorf ''refuse connection to the bad peer''))
     else (case connect of Some e \<Rightarrow> (s, Some e) | None \<Rightarrow> (s\<lparr>p2_store := Connect pid (p2_store s)\<rparr>, None)))"

primrec connect_all :: "(string \<Rightarrow> error option) \<Rightarrow> string list \<Rightarrow> P2PService \<Rightarrow> P2PService" where
  "connect_all connect [] s = s"
| "connect_all connect (pid # pids) s = connect_all connect pids (fst (connectPeer (connect pid) pid s))"

definition connectPeers :: "(string \<Rightarrow> error + string) \<Rightarrow> (string \<Rightarrow> error option) \<Rightarrow> string list \<Rightarrow> P2PService \<Rightarrow> P2PService" where
  "connectPeers AddrInfoFromString connect nodes s = connect_all connect (getPeerInfo AddrInfoFromString nodes) s"

definition HandlePeerFound :: "(string \<Rightarrow> error option) \<Rightarrow> string \<Rightarrow> P2PService \<Rightarrow> P2PService" where
  "HandlePeerFound connect p s = (if p = p2_id s then s else fst (connectPeer (connect p) p s))"

text \<open>The peers that the discovery of the library finds.\<close>

definition p2p_findPeers :: "(string \<Rightarrow> error option) \<Rightarrow> error + string list \<Rightarrow> P2PService \<Rightarrow> P2PService" where
  "p2p_findPeers connect found s = (case found of Inl e \<Rightarrow> s | Inr peers \<Rightarrow> fold (HandlePeerFound connect) peers s)"

lemma bad_peers_refused:
  "IsBad (p2_store s) pid \<Longrightarrow> HandlePeerFound connect pid s = s" "IsBad (p2_store s) pid \<Longrightarrow> fst (connectPeer e pid s) = s"
  by (simp_all add: HandlePeerFound_def connectPeer_def)

text \<open>The identity of a message on the network (options.go).\<close>

definition msgId :: "crypto \<Rightarrow> string \<Rightarrow> bytes \<Rightarrow> string" where
  "msgId cr topic data = bytes_string (take 20 (keccak cr (string_bytes topic @ data)))"

definition p2p_EnableValidatorMode :: "P2PService \<Rightarrow> P2PService" where
  "p2p_EnableValidatorMode s = s\<lparr>p2_listenValidatorData := True\<rparr>"

text \<open>One round of the state listener, and whether it ends.\<close>

definition p2p_stateListener :: "State \<Rightarrow> P2PService \<Rightarrow> P2PService \<times> bool" where
  "p2p_stateListener st s = (case st of
     ConnectionHandlersReady \<Rightarrow> (s\<lparr>p2_initialized := Signalled\<rparr>, False)
   | Synced \<Rightarrow> (s\<lparr>p2_initialized := ClosedChannel\<rparr>, True)
   | _ \<Rightarrow> (s, False))"

subsection \<open>The key of the node (utils.go)\<close>

text \<open>
  \<open>gen\<close> is a new Ed25519 key of the library or an error, \<open>raw\<close> and \<open>unmarshal\<close> its conversions of keys to and from bytes.
\<close>

definition getNodeKey ::
  "(error + 'k) \<Rightarrow> ('k \<Rightarrow> error + bytes) \<Rightarrow> (bytes \<Rightarrow> error + 'k) \<Rightarrow> osenv \<Rightarrow> disk \<Rightarrow> string \<Rightarrow> disk \<times> (error + 'k)" where
  "getNodeKey gen raw unmarshal E d dataPath =
    (if dataPath = [] then (d, Inl (Errorf ''empty data path''))
     else (let nodeKeyPath = filepath_Join dataPath ''node-keys'' in
       (case HasDir E d nodeKeyPath of
          Inl e \<Rightarrow> (d, Inl e)
        | Inr dirExists \<Rightarrow>
          (case (if dirExists then Inr d else MkdirAll E d nodeKeyPath) of
             Inl e \<Rightarrow> (d, Inl e)
           | Inr d \<Rightarrow>
             (let keyFile = filepath_Join nodeKeyPath ''node.key'' in
              if \<not> FileExists E d keyFile then
                (case gen of
                   Inl e \<Rightarrow> (d, Inl e)
                 | Inr key \<Rightarrow> (case SaveP2PKey E d keyFile (raw key) of Inl e \<Rightarrow> (d, Inl e) | Inr d \<Rightarrow> (d, Inr key)))
              else (d, LoadP2PKey unmarshal E d keyFile))))))"

lemma load_saved_p2p:
  assumes "os_fault E file = None" "map_of d file = Some (FileNode m (string_bytes (hexEncode b)))" "length b = 64"
  shows "LoadP2PKey unmarshal E d file = unmarshal b"
proof -
  have "length (string_bytes (hexEncode b)) = 128 \<and> key_file (string_bytes (hexEncode b)) (string_bytes (hexEncode b))"
    using assms(3) hexEncode_printable by (auto simp: key_file_def)
  then have "loadKey E d file 128 = Inr (string_bytes (hexEncode b))" using loadKey_iff [OF assms(1,2)] by blast
  then show ?thesis by (simp add: LoadP2PKey_def hexDecode_Encode)
qed

text \<open>The node keeps its identity: the key made by the first start is the one that every later start reads, whatever would be generated then.\<close>

lemma node_key_kept:
  assumes nf: "\<forall>p. os_fault E p = None" and ex: "\<forall>p. os_expand E p = Inr p" and ne: "dataPath \<noteq> []"
    and dir: "map_of d (filepath_Join dataPath ''node-keys'') = None"
      "map_of d (filepath_Join (filepath_Join dataPath ''node-keys'') ''node.key'') = None"
    and key: "raw key = Inr b" "length b = 64" "unmarshal b = Inr key"
  shows "\<exists>d'. getNodeKey (Inr key) raw unmarshal E d dataPath = (d', Inr key) \<and>
    getNodeKey gen raw unmarshal E d' dataPath = (d', Inr key)"
proof -
  define kd kf where "kd = filepath_Join dataPath ''node-keys''" and "kf = filepath_Join kd ''node.key''"
  have "kd \<noteq> []" using ne by (simp add: kd_def filepath_Join_def)
  then have kf: "kf \<noteq> kd" by (simp add: kf_def filepath_Join_def)
  define d1 d2 where "d1 = d @ [(kd, DirNode 448)]" and "d2 = d1 @ [(kf, FileNode 384 (string_bytes (hexEncode b)))]"
  have n: "map_of d kd = None" "map_of d kf = None" using dir by (simp_all add: kd_def kf_def)
  have "HasDir E d kd = Inr False" "MkdirAll E d kd = Inr d1"
    using nf ex n by (simp_all add: HasDir_def MkdirAll_def os_Stat_def os_MkdirAll_def gput_fresh d1_def)
  moreover have f1: "map_of d1 kf = None" using n kf by (simp add: d1_def map_add_def)
  then have "\<not> FileExists E d1 kf" "SaveP2PKey E d1 kf (raw key) = Inr d2"
    using nf ex key(1) by (simp_all add: FileExists_def os_Stat_def SaveP2PKey_def os_WriteFile_def gput_fresh d2_def)
  ultimately have "getNodeKey (Inr key) raw unmarshal E d dataPath = (d2, Inr key)"
    using ne by (simp add: getNodeKey_def kd_def [symmetric] kf_def [symmetric] Let_def)
  moreover have m: "map_of d2 kd = Some (DirNode 448)" "map_of d2 kf = Some (FileNode 384 (string_bytes (hexEncode b)))"
    using n f1 kf by (simp_all add: d2_def d1_def map_add_def)
  then have "HasDir E d2 kd = Inr True" "FileExists E d2 kf" using nf ex by (simp_all add: HasDir_def FileExists_def os_Stat_def)
  moreover have "LoadP2PKey unmarshal E d2 kf = Inr key" using load_saved_p2p [of E kf d2 384 b unmarshal] m(2) key nf by simp
  ultimately show ?thesis using ne by (auto simp: getNodeKey_def kd_def [symmetric] kf_def [symmetric] Let_def)
qed

subsection \<open>Gossip of the synchronisation service (service.go, validator\_listener.go)\<close>

text \<open>
  One round of \<open>gossipEvents\<close> and of \<open>gossipValidatorMessages\<close>: what is handed to \<open>Publish\<close>, nothing when encoding fails.
\<close>

datatype gossip_event = EvBlock Block | EvTx PbTransaction | EvProposal Block | EvSeed Seed | EvAttestation Attestation

definition published :: "string \<Rightarrow> error + bytes \<Rightarrow> (string \<times> bytes) option" where
  "published topic raw = (case raw of Inl e \<Rightarrow> None | Inr raw \<Rightarrow> Some (topic, raw))"

definition gossipEvents :: "codec \<Rightarrow> gossip_event \<Rightarrow> (string \<times> bytes) option" where
  "gossipEvents cd ev = (case ev of
     EvBlock block \<Rightarrow> published BlockTopic (MarshalBlock cd (Some block))
   | EvTx td \<Rightarrow> published TxTopic (MarshalTx (Some td))
   | _ \<Rightarrow> None)"

definition gossipValidatorMessages :: "codec \<Rightarrow> gossip_event \<Rightarrow> (string \<times> bytes) option" where
  "gossipValidatorMessages cd ev = (case ev of
     EvProposal block \<Rightarrow> published ProposalTopic (MarshalBlock cd (Some block))
   | EvSeed seed \<Rightarrow> published SeedTopic (MarshalSeed cd (Some seed))
   | EvAttestation att \<Rightarrow> published AttestationTopic (MarshalAttestation (Some att))
   | _ \<Rightarrow> None)"

text \<open>One round of \<open>listenValidatorTopics\<close>: what is sent on the validator's feeds.\<close>

definition listenValidatorTopics :: "codec \<Rightarrow> p2p_feed \<Rightarrow> gossip_event option" where
  "listenValidatorTopics cd n = (case n of
     ProposalFeed notty \<Rightarrow> (case UnmarshalBlock cd (nt_Data notty) of Inl e \<Rightarrow> None | Inr block \<Rightarrow> Some (EvProposal block))
   | AttFeed notty \<Rightarrow> (case UnmarshalAttestation (nt_Data notty) of Inl e \<Rightarrow> None | Inr att \<Rightarrow> Some (EvAttestation att))
   | SeedFeed notty \<Rightarrow> (case UnmarshalSeed cd (nt_Data notty) of Inl e \<Rightarrow> None | Inr seed \<Rightarrow> Some (EvSeed seed))
   | _ \<Rightarrow> None)"

text \<open>The notification that \<open>listenIncoming\<close> gets from the feeds it is subscribed to.\<close>

definition incoming :: "p2p_feed \<Rightarrow> notification option" where
  "incoming n = (case n of BlockFeed notty \<Rightarrow> Some (NBlock (nt_Data notty)) | TxFeed notty \<Rightarrow> Some (NTx (nt_Data notty)) | _ \<Rightarrow> None)"

text \<open>
  What a message that is published by one node brings about on another one: the library delivers it to the topic's subscription if the
  filter allows the topic, and the listeners send what they decode on the feeds.
\<close>

definition delivered :: "codec \<Rightarrow> SyncService \<Rightarrow> P2PService \<Rightarrow> string \<Rightarrow> string \<times> bytes \<Rightarrow> feed_msg list \<times> gossip_event list" where
  "delivered cd s p sender m = (if \<not> CanSubscribe (p2_listenValidatorData p) (fst m) then ([], [])
     else (case listenTopic p (fst m) (snd m, sender) of
         None \<Rightarrow> ([], [])
       | Some n \<Rightarrow> (case incoming n of
           Some i \<Rightarrow> (fst (snd (listenIncoming cd s i)), [])
         | None \<Rightarrow> ([], case listenValidatorTopics cd n of None \<Rightarrow> [] | Some ev \<Rightarrow> [ev]))))"

lemma topics_distinct [simp]:
  "BlockTopic \<noteq> TxTopic" "BlockTopic \<noteq> ProposalTopic" "BlockTopic \<noteq> SeedTopic" "BlockTopic \<noteq> AttestationTopic"
  "TxTopic \<noteq> ProposalTopic" "TxTopic \<noteq> SeedTopic" "TxTopic \<noteq> AttestationTopic"
  "ProposalTopic \<noteq> SeedTopic" "ProposalTopic \<noteq> AttestationTopic" "SeedTopic \<noteq> AttestationTopic"
  by (simp_all add: BlockTopic_def TxTopic_def ProposalTopic_def SeedTopic_def AttestationTopic_def mainPrefix_def)

lemmas topics_distinct' [simp] = topics_distinct [symmetric]

lemma subscribe_topics_ok:
  "subscribe_topics join sub ts s = (s', None) \<Longrightarrow> set (p2_subs s') = set (p2_subs s) \<union> set ts \<and> p2_id s' = p2_id s
    \<and> p2_listenValidatorData s' = p2_listenValidatorData s \<and> set (p2_topics s') = set (p2_topics s) \<union> set ts"
proof (induction ts arbitrary: s)
  case (Cons t ts)
  then show ?case by (auto simp: subscribeTopic_def split: if_splits option.splits)
qed simp

lemma SubscribeAll_ok:
  assumes "SubscribeAll join sub p0 = (p, None)" "p2_subs p0 = []"
  shows "{BlockTopic, TxTopic} \<subseteq> set (p2_subs p)" "p2_id p = p2_id p0" "p2_listenValidatorData p = p2_listenValidatorData p0"
    "p2_listenValidatorData p0 \<Longrightarrow> {SeedTopic, AttestationTopic, ProposalTopic} \<subseteq> set (p2_subs p)"
proof -
  obtain p1 where p1: "subscribe_topics join sub (map fst topicMap) p0 = (p1, None)"
    and p: "if p2_listenValidatorData p1 then subscribe_topics join sub (map fst validatorMap) p1 = (p, None) else p = p1"
    using assms(1) by (auto simp: SubscribeAll_def split: option.splits prod.splits if_splits)
  note a = subscribe_topics_ok [OF p1]
  have b: "set (p2_subs p1) \<subseteq> set (p2_subs p) \<and> p2_id p = p2_id p1 \<and> p2_listenValidatorData p = p2_listenValidatorData p1
    \<and> (p2_listenValidatorData p1 \<longrightarrow> {SeedTopic, AttestationTopic, ProposalTopic} \<subseteq> set (p2_subs p))"
    using p subscribe_topics_ok [of join sub "map fst validatorMap" p1 p] by (auto simp: validatorMap_def split: if_splits)
  show "{BlockTopic, TxTopic} \<subseteq> set (p2_subs p)" "p2_id p = p2_id p0" "p2_listenValidatorData p = p2_listenValidatorData p0"
    "p2_listenValidatorData p0 \<Longrightarrow> {SeedTopic, AttestationTopic, ProposalTopic} \<subseteq> set (p2_subs p)"
    using a b by (auto simp: topicMap_def)
qed

lemma published_Some: "published topic raw = Some m \<longleftrightarrow> (\<exists>d. raw = Inr d \<and> m = (topic, d))"
  by (auto simp: published_def split: sum.splits)

lemma decoded_again:
  "MarshalTx (Some tx) = Inr d \<Longrightarrow> UnmarshalTx d = Inr tx"
  "MarshalAttestation (Some att) = Inr d \<Longrightarrow> UnmarshalAttestation d = Inr att"
  "codec_ok cd \<Longrightarrow> MarshalSeed cd (Some seed) = Inr d \<Longrightarrow> UnmarshalSeed cd d = Inr seed"
  by (auto simp: MarshalTx_def UnmarshalTx_def tx_ssz.marshal_iff tx_ssz.dec_enc MarshalAttestation_def UnmarshalAttestation_def
      attestation_ssz.marshal_iff attestation_ssz.dec_enc MarshalSeed_def UnmarshalSeed_def ebind_Inr seed_ssz.marshal_iff seed_ssz.dec_enc codec_ok_def)

text \<open>
  C29. Gossip from end to end.  A node that has subscribed successfully and is synced turns every message that another node publishes
  into exactly what that node sent: a block and a transaction on the feeds of the chain, a proposal, a seed and a vote on the feeds
  of the validator service, which a node that is not a validator does not listen to.
\<close>

theorem gossip_delivers:
  assumes "codec_ok cd" "SubscribeAll join sub p0 = (p, None)" "p2_subs p0 = []" "sender \<noteq> p2_id p0" "sy_synced s" "empty_queue s"
  shows "(gossipEvents cd (EvBlock block) = Some m \<longrightarrow> delivered cd s p sender m = ([FeedBlock block], [])) \<and>
    (gossipEvents cd (EvTx tx) = Some m \<longrightarrow> delivered cd s p sender m = ([FeedTx (NewTransaction tx)], [])) \<and>
    (gossipValidatorMessages cd ev = Some m \<longrightarrow> delivered cd s p sender m = ([], if p2_listenValidatorData p0 then [ev] else []))"
proof -
  note p = SubscribeAll_ok [OF assms(2,3)]
  have chain: "delivered cd s p sender (topic, d) = (forwarded cd (if topic = BlockTopic then NBlock d else NTx d), [])"
    if "topic \<in> {BlockTopic, TxTopic}" for topic d
    using that p assms(4) by (auto simp: delivered_def CanSubscribe_iff listenTopic_def receiveMessage_def incoming_def Let_def listen_synced [OF assms(5,6)])
  have validator: "delivered cd s p sender (topic, d) = ([], case listenValidatorTopics cd (f \<lparr>nt_Data = d, nt_Topic = topic, nt_From = sender\<rparr>) of
      None \<Rightarrow> [] | Some ev \<Rightarrow> [ev])"
    if "p2_listenValidatorData p0" "(topic, f) \<in> {(SeedTopic, SeedFeed), (AttestationTopic, AttFeed), (ProposalTopic, ProposalFeed)}" for topic d f
    using that p assms(4) by (auto simp: delivered_def CanSubscribe_iff listenTopic_def receiveMessage_def incoming_def Let_def)
  have other: "delivered cd s p sender (topic, d) = ([], [])"
    if "\<not> p2_listenValidatorData p0" "topic \<in> {SeedTopic, AttestationTopic, ProposalTopic}" for topic d
    using that p(3) by (auto simp: delivered_def CanSubscribe_iff)
  show ?thesis
  proof (intro conjI impI)
    assume "gossipEvents cd (EvBlock block) = Some m"
    then obtain d where "m = (BlockTopic, d)" "MarshalBlock cd (Some block) = Inr d" by (auto simp: gossipEvents_def published_Some)
    then show "delivered cd s p sender m = ([FeedBlock block], [])"
      using chain [of BlockTopic d] UnmarshalBlock_Marshal [OF assms(1)] by (simp add: forwarded_def)
  next
    assume "gossipEvents cd (EvTx tx) = Some m"
    then obtain d where "m = (TxTopic, d)" "MarshalTx (Some tx) = Inr d" by (auto simp: gossipEvents_def published_Some)
    then show "delivered cd s p sender m = ([FeedTx (NewTransaction tx)], [])"
      using chain [of TxTopic d] decoded_again(1) by (simp add: forwarded_def)
  next
    assume g: "gossipValidatorMessages cd ev = Some m"
    show "delivered cd s p sender m = ([], if p2_listenValidatorData p0 then [ev] else [])"
    proof (cases "p2_listenValidatorData p0")
      case True
      then show ?thesis using g validator decoded_again UnmarshalBlock_Marshal [OF assms(1)] assms(1)
        by (auto simp: gossipValidatorMessages_def published_Some listenValidatorTopics_def split: gossip_event.splits)
    next
      case False
      then show ?thesis using g other by (auto simp: gossipValidatorMessages_def published_Some split: gossip_event.splits)
    qed
  qed
qed

text \<open>A validator that subscribes to every topic receives the genesis block of the demonstration node and a vote.\<close>

definition demo_p2p :: P2PService where
  "demo_p2p = \<lparr>p2_id = ''me'', p2_topics = [], p2_subs = [], p2_store = NewPeerStore, p2_listenValidatorData = True, p2_initialized = Silent\<rparr>"

lemma demo_subscribes: "\<exists>p. SubscribeAll (\<lambda>_. None) (\<lambda>_. None) demo_p2p = (p, None)"
  by (simp add: SubscribeAll_def topicMap_def validatorMap_def subscribeTopic_def demo_p2p_def)

theorem gossip_delivers_witness:
  "\<exists>p m. SubscribeAll (\<lambda>_. None) (\<lambda>_. None) demo_p2p = (p, None) \<and> gossipEvents (ev_codec node_env) (EvBlock node_genesis) = Some m
    \<and> delivered (ev_codec node_env) demo_peers p ''a'' m = ([FeedBlock node_genesis], [])"
proof -
  obtain p where p: "SubscribeAll (\<lambda>_. None) (\<lambda>_. None) demo_p2p = (p, None)" using demo_subscribes by blast
  have m: "gossipEvents (ev_codec node_env) (EvBlock node_genesis) = Some (BlockTopic, Block_enc node_genesis)"
    by (simp add: gossipEvents_def published_def node_marshal)
  have "codec_ok (ev_codec node_env)" using node_env_ok by (simp add: reliable_def)
  then show ?thesis
    using gossip_delivers [OF _ p, of "ev_codec node_env" "''a''" demo_peers node_genesis "(BlockTopic, Block_enc node_genesis)"] p m
    by (auto simp: demo_p2p_def demo_peers_def empty_queue_def)
qed

end
