(* ===== verification/Feed.thy ===== *)
theory Feed
  imports Prelude
begin

text \<open>
  The event feed that connects the services of a node (\<^verbatim>\<open>events/feed.go\<close>, \<^verbatim>\<open>events/subscription.go\<close>) and the registry of the services
  (\<^verbatim>\<open>shared/service_registry.go\<close>).  A channel is a number.  \<open>Send\<close> works on one array, \<open>sendCases\<close>: a prefix of it holds the
  channels that still wait for the value, and a channel that has received it is swapped behind the prefix.  What the receivers do meanwhile
  is an argument: whether an attempt to send finds a free receiver, and which case \<^verbatim>\<open>reflect.Select\<close> reports.
\<close>

subsection \<open>State\<close>

datatype case_entry = RemoveSub | Sub nat

record Feed =
  fd_once :: bool
  fd_inbox :: "case_entry list"
  fd_sendCases :: "case_entry list"
  fd_etype :: "string option"

definition new_Feed :: Feed where
  "new_Feed = \<lparr>fd_once = False, fd_inbox = [], fd_sendCases = [], fd_etype = None\<rparr>"

definition feed_init :: "Feed \<Rightarrow> Feed" where
  "feed_init f = (if fd_once f then f else f\<lparr>fd_once := True, fd_sendCases := [RemoveSub]\<rparr>)"

text \<open>The first use of a feed fixes the type of its values.\<close>

definition typecheck :: "Feed \<Rightarrow> string \<Rightarrow> Feed \<times> bool" where
  "typecheck f typ = (case fd_etype f of None \<Rightarrow> (f\<lparr>fd_etype := Some typ\<rparr>, True) | Some t \<Rightarrow> (f, t = typ))"

text \<open>\<open>sendable\<close>: the argument is a channel that can be sent to.\<close>

definition Subscribe :: "Feed \<Rightarrow> nat \<Rightarrow> bool \<Rightarrow> string \<Rightarrow> Feed \<times> error option" where
  "Subscribe f channel sendable typ =
    (let f = feed_init f in
     if \<not> sendable then (f, Some (Panic ''event: Subscribe argument does not have sendable channel type''))
     else (case typecheck f typ of
         (f, False) \<Rightarrow> (f, Some (Panic ''event: wrong type in Subscribe''))
       | (f, True) \<Rightarrow> (f\<lparr>fd_inbox := fd_inbox f @ [Sub channel]\<rparr>, None)))"

subsection \<open>Lists of cases\<close>

fun case_find :: "case_entry list \<Rightarrow> nat \<Rightarrow> nat option" where
  "case_find [] channel = None"
| "case_find (c # cs) channel = (if c = Sub channel then Some 0 else map_option Suc (case_find cs channel))"

definition case_delete :: "case_entry list \<Rightarrow> nat \<Rightarrow> case_entry list" where
  "case_delete cs index = take index cs @ drop (Suc index) cs"

text \<open>\<open>deactivate\<close> on the prefix of length \<open>n\<close> of the array.\<close>

definition deactivate :: "case_entry list \<Rightarrow> nat \<Rightarrow> nat \<Rightarrow> case_entry list" where
  "deactivate cs n index = cs[index := cs ! (n - 1), n - 1 := cs ! index]"

subsection \<open>Unsubscribing and sending\<close>

text \<open>\<open>remove\<close> while no \<open>Send\<close> is running; a running \<open>Send\<close> receives the channel instead.\<close>

definition feed_remove :: "Feed \<Rightarrow> nat \<Rightarrow> Feed \<times> error option" where
  "feed_remove f ch = (case case_find (fd_inbox f) ch of
     Some index \<Rightarrow> (f\<lparr>fd_inbox := case_delete (fd_inbox f) index\<rparr>, None)
   | None \<Rightarrow>
      (case case_find (fd_sendCases f) ch of
         None \<Rightarrow> (f, Some (Panic ''slice bounds out of range''))
       | Some index \<Rightarrow> (f\<lparr>fd_sendCases := case_delete (fd_sendCases f) index\<rparr>, None)))"

record send =
  sn_cases :: "case_entry list"
  sn_len :: nat
  sn_nsent :: nat
  sn_log :: "nat list"

definition deliver :: "nat \<Rightarrow> send \<Rightarrow> send" where
  "deliver i st = st\<lparr>sn_cases := deactivate (sn_cases st) (sn_len st) i, sn_len := sn_len st - 1, sn_nsent := Suc (sn_nsent st),
     sn_log := (case sn_cases st ! i of Sub ch \<Rightarrow> sn_log st @ [ch] | RemoveSub \<Rightarrow> sn_log st)\<rparr>"

definition drop_case :: "nat \<Rightarrow> send \<Rightarrow> send" where
  "drop_case index st = st\<lparr>sn_cases := case_delete (sn_cases st) index, sn_len := (if index < sn_len st then sn_len st - 1 else sn_len st)\<rparr>"

text \<open>The loop of attempts; \<open>free k\<close> tells whether the \<open>k\<close>-th attempt of the call finds a receiver.\<close>

function try_all :: "(nat \<Rightarrow> bool) \<Rightarrow> nat \<Rightarrow> nat \<Rightarrow> send \<Rightarrow> nat \<times> send" where
  "try_all free k i st =
    (if i < sn_len st then (if free k then try_all free (Suc k) i (deliver i st) else try_all free (Suc k) (Suc i) st)
     else (k, st))"
  by pat_completeness auto
termination
  by (relation "measure (\<lambda>(free, k, i, st). sn_len st - i)") (auto simp: deliver_def)

text \<open>
  What \<^verbatim>\<open>reflect.Select\<close> reports: a channel that is being unsubscribed, or one of the active cases, the \<open>n\<close>-th modulo their number.
  The call ends, waits for the next report, or panics on a channel it does not know.
\<close>

datatype report = Unsubscribed nat | Chosen nat
datatype send_result = Finished send | Waiting send | Panicked send

fun send_loop :: "(nat \<Rightarrow> bool) \<Rightarrow> nat \<Rightarrow> send \<Rightarrow> report list \<Rightarrow> send_result" where
  "send_loop free k st [] = (case try_all free k 1 st of (k, st) \<Rightarrow> if sn_len st = 1 then Finished st else Waiting st)"
| "send_loop free k st (r # rs) = (case try_all free k 1 st of (k, st) \<Rightarrow>
     if sn_len st = 1 then Finished st
     else (case r of
         Unsubscribed ch \<Rightarrow>
           (case case_find (sn_cases st) ch of
              None \<Rightarrow> Panicked st
            | Some index \<Rightarrow> send_loop free k (drop_case index st) rs)
       | Chosen n \<Rightarrow> send_loop free k (deliver (1 + n mod (sn_len st - 1)) st) rs))"

definition sent_state :: "send_result \<Rightarrow> send" where
  "sent_state r = (case r of Finished st \<Rightarrow> st | Waiting st \<Rightarrow> st | Panicked st \<Rightarrow> st)"

definition Send :: "Feed \<Rightarrow> string \<Rightarrow> (nat \<Rightarrow> bool) \<Rightarrow> report list \<Rightarrow> Feed \<times> (error + send_result)" where
  "Send f typ free rs =
    (let f = feed_init f; f = f\<lparr>fd_sendCases := fd_sendCases f @ fd_inbox f, fd_inbox := []\<rparr> in
     case typecheck f typ of
       (f, False) \<Rightarrow> (f, Inl (Panic ''event: wrong type in Send''))
     | (f, True) \<Rightarrow>
        (let r = send_loop free 0 \<lparr>sn_cases = fd_sendCases f, sn_len = length (fd_sendCases f), sn_nsent = 0, sn_log = []\<rparr> rs
         in (f\<lparr>fd_sendCases := sn_cases (sent_state r)\<rparr>, Inr r)))"

declare try_all.simps [simp del]

lemma try_all_cases:
  "i < sn_len st \<Longrightarrow> free k \<Longrightarrow> try_all free k i st = try_all free (Suc k) i (deliver i st)"
  "i < sn_len st \<Longrightarrow> \<not> free k \<Longrightarrow> try_all free k i st = try_all free (Suc k) (Suc i) st"
  "\<not> i < sn_len st \<Longrightarrow> try_all free k i st = (k, st)"
  by (subst try_all.simps, simp)+

subsection \<open>The states that a call of Send goes through\<close>

text \<open>
  The reachable states of a call, with the channels unsubscribed so far: the loops above only ever deliver to an active case or drop
  a known one.
\<close>

inductive sending :: "nat list \<Rightarrow> nat set \<Rightarrow> send \<Rightarrow> bool" for subs :: "nat list" where
  start: "sending subs {} \<lparr>sn_cases = RemoveSub # map Sub subs, sn_len = Suc (length subs), sn_nsent = 0, sn_log = []\<rparr>"
| sent: "sending subs gone st \<Longrightarrow> 1 \<le> i \<Longrightarrow> i < sn_len st \<Longrightarrow> sending subs gone (deliver i st)"
| left: "sending subs gone st \<Longrightarrow> case_find (sn_cases st) ch = Some i \<Longrightarrow> sending subs (insert ch gone) (drop_case i st)"

definition send_inv :: "nat list \<Rightarrow> nat set \<Rightarrow> send \<Rightarrow> nat list \<Rightarrow> bool" where
  "send_inv subs gone st xs \<longleftrightarrow> sn_cases st = RemoveSub # map Sub xs \<and> distinct xs \<and> 1 \<le> sn_len st \<and> sn_len st \<le> Suc (length xs)
    \<and> set xs = set subs - gone \<and> distinct (sn_log st) \<and> set (take (sn_len st - 1) xs) \<inter> set (sn_log st) = {}
    \<and> set (drop (sn_len st - 1) xs) \<subseteq> set (sn_log st) \<and> set (sn_log st) \<subseteq> set subs \<and> sn_nsent st = length (sn_log st)"

lemma set_take_distinct: "distinct xs \<Longrightarrow> set (take n xs) = set xs - set (drop n xs)"
  using set_take_disj_set_drop_if_distinct [of xs n n] set_append [of "take n xs" "drop n xs"] by auto

lemma swap_active:
  assumes "distinct xs" "j < n" "n \<le> length xs"
  defines "ys \<equiv> xs[j := xs ! (n - 1), n - 1 := xs ! j]"
  shows "distinct ys" "set ys = set xs" "drop (n - 1) ys = xs ! j # drop n xs" "set (take (n - 1) ys) = set (take n xs) - {xs ! j}"
proof -
  have m: "mset ys = mset xs" unfolding ys_def using assms(2,3) by (intro mset_swap) auto
  then show d: "distinct ys" using assms(1) mset_eq_imp_distinct_iff by blast
  show s: "set ys = set xs" using m by (rule mset_eq_setD)
  show r: "drop (n - 1) ys = xs ! j # drop n xs"
    using assms(2,3) by (intro nth_equalityI) (auto simp: ys_def nth_Cons' nth_list_update)
  have "xs ! j \<in> set (take n xs)" using assms(2,3) by (auto simp: in_set_conv_nth)
  then show "set (take (n - 1) ys) = set (take n xs) - {xs ! j}"
    unfolding set_take_distinct [OF d] set_take_distinct [OF assms(1)] r s by auto
qed

lemma case_find_Some: "case_find (RemoveSub # map Sub xs) ch = Some i \<Longrightarrow> \<exists>j. i = Suc j \<and> j < length xs \<and> xs ! j = ch"
proof -
  have "case_find (map Sub xs) ch = Some j \<Longrightarrow> j < length xs \<and> xs ! j = ch" for j
    by (induction xs arbitrary: j) (auto split: if_splits)
  then show "case_find (RemoveSub # map Sub xs) ch = Some i \<Longrightarrow> ?thesis" by auto
qed

lemma deliver_inv:
  assumes inv: "send_inv subs gone st xs" and i: "1 \<le> i" "i < sn_len st"
  shows "\<exists>ys. send_inv subs gone (deliver i st) ys"
proof -
  obtain j where j: "i = Suc j" using i(1) by (cases i) auto
  define n where "n = sn_len st - 1"
  have n: "sn_len st = Suc n" "j < n" "n \<le> length xs" using inv i by (auto simp: n_def j send_inv_def)
  define ys where "ys = xs[j := xs ! (n - 1), n - 1 := xs ! j]"
  have d: "distinct xs" and c: "sn_cases st = RemoveSub # map Sub xs" using inv by (auto simp: send_inv_def)
  note S = swap_active [OF d n(2,3), folded ys_def]
  have "deactivate (sn_cases st) (Suc n) (Suc j) = RemoveSub # map Sub ys"
    using n by (cases n) (simp_all add: deactivate_def c ys_def map_update)
  then have "sn_cases (deliver i st) = RemoveSub # map Sub ys" "sn_len (deliver i st) = n" "sn_log (deliver i st) = sn_log st @ [xs ! j]"
    "sn_nsent (deliver i st) = Suc (sn_nsent st)" using n by (simp_all add: deliver_def j c)
  moreover have "xs ! j \<in> set (take n xs)" using n by (auto simp: in_set_conv_nth)
  moreover have "length ys = length xs" by (simp add: ys_def)
  ultimately have "send_inv subs gone (deliver i st) ys"
    using inv S n unfolding send_inv_def n(1) by (auto dest: in_set_takeD)
  then show ?thesis by blast
qed

lemma drop_case_inv:
  assumes inv: "send_inv subs gone st xs" and f: "case_find (sn_cases st) ch = Some i"
  shows "\<exists>ys. send_inv subs (insert ch gone) (drop_case i st) ys"
proof -
  have d: "distinct xs" and c: "sn_cases st = RemoveSub # map Sub xs" using inv by (auto simp: send_inv_def)
  obtain j where j: "i = Suc j" "j < length xs" "xs ! j = ch" using case_find_Some f unfolding c by blast
  define n where "n = sn_len st - 1"
  have n: "sn_len st = Suc n" "n \<le> length xs" using inv by (auto simp: n_def send_inv_def)
  define us vs where "us = take j xs" and "vs = drop (Suc j) xs"
  have x: "xs = us @ ch # vs" "length us = j" using j id_take_nth_drop [of j xs] by (auto simp: us_def vs_def)
  have m: "sn_cases (drop_case i st) = RemoveSub # map Sub (us @ vs)" "sn_log (drop_case i st) = sn_log st" "sn_nsent (drop_case i st) = sn_nsent st"
    "sn_len (drop_case i st) = (if j < n then n else Suc n)"
    using x(2) by (auto simp: drop_case_def case_delete_def c j(1) n(1) x(1))
  have "set (take (if j < n then n - 1 else n) (us @ vs)) \<subseteq> set (take n xs)" "set (drop (if j < n then n - 1 else n) (us @ vs)) \<subseteq> set (drop n xs)"
    using x by (auto simp: take_Cons' drop_Cons' dest: in_set_dropD)
  moreover have "sn_len (drop_case i st) - 1 = (if j < n then n - 1 else n)" by (simp add: m)
  ultimately have "send_inv subs (insert ch gone) (drop_case i st) (us @ vs)"
    using inv d n x unfolding send_inv_def m n(1) by auto
  then show ?thesis by blast
qed

lemma sending_inv:
  assumes "sending subs gone st" "distinct subs"
  shows "\<exists>xs. send_inv subs gone st xs"
  using assms(1)
proof induction
  case start
  show ?case using assms(2) by (intro exI [of _ subs]) (simp add: send_inv_def)
qed (auto dest: deliver_inv drop_case_inv)

fun leaving :: "report list \<Rightarrow> nat list" where
  "leaving [] = []"
| "leaving (Unsubscribed ch # rs) = ch # leaving rs"
| "leaving (Chosen n # rs) = leaving rs"

fun taken :: "report list \<Rightarrow> nat" where
  "taken [] = 0"
| "taken (Unsubscribed ch # rs) = taken rs"
| "taken (Chosen n # rs) = Suc (taken rs)"

lemma try_all_sending: "sending subs gone st \<Longrightarrow> 1 \<le> i \<Longrightarrow> sending subs gone (snd (try_all free k i st))"
proof (induction free k i st rule: try_all.induct)
  case (1 free k i st)
  then show ?case using sending.sent [OF "1.prems"] by (cases "i < sn_len st"; cases "free k") (auto simp: try_all_cases)
qed

lemma try_all_len: "sn_len (snd (try_all free k i st)) \<le> sn_len st"
proof (induction free k i st rule: try_all.induct)
  case (1 free k i st)
  then show ?case by (cases "i < sn_len st"; cases "free k") (auto simp: try_all_cases deliver_def)
qed

lemma case_find_iff: "(\<exists>i. case_find (RemoveSub # map Sub xs) ch = Some i) \<longleftrightarrow> ch \<in> set xs"
  by (induction xs) auto

text \<open>Every step of the loop is a step of the relation; no report is wasted but the ones of channels that have been served.\<close>

lemma send_loop_ends:
  assumes "distinct subs"
  shows "sending subs gone st \<Longrightarrow> distinct (leaving rs) \<Longrightarrow> set (leaving rs) \<subseteq> set subs - gone \<Longrightarrow> sn_len st \<le> Suc (taken rs) \<Longrightarrow>
    \<exists>st' gone'. send_loop free k st rs = Finished st' \<and> sn_len st' = 1 \<and> sending subs gone' st' \<and> gone' \<subseteq> gone \<union> set (leaving rs)"
proof (induction free k st rs arbitrary: gone rule: send_loop.induct)
  case (1 free k st)
  obtain k' st' where t: "try_all free k 1 st = (k', st')" by fastforce
  have s: "sending subs gone st'" using try_all_sending [OF "1.prems"(1), of 1 free k] unfolding t by simp
  have "sn_len st' \<le> 1" using try_all_len [of free k 1 st] "1.prems"(4) unfolding t by simp
  moreover have "1 \<le> sn_len st'" using sending_inv [OF s assms] by (auto simp: send_inv_def)
  ultimately have "sn_len st' = 1" by simp
  then show ?case using s by (auto simp: t [simplified])
next
  case (2 free k st r rs)
  obtain k' st' where t: "try_all free k 1 st = (k', st')" by fastforce
  have s: "sending subs gone st'" using try_all_sending [OF "2.prems"(1), of 1 free k] unfolding t by simp
  have len: "sn_len st' \<le> sn_len st" using try_all_len [of free k 1 st] unfolding t by simp
  obtain xs where inv: "send_inv subs gone st' xs" using sending_inv [OF s assms] by blast
  show ?case
  proof (cases "sn_len st' = 1")
    case True
    then show ?thesis using s by (auto simp: t [simplified])
  next
    case False
    show ?thesis
    proof (cases r)
      case (Unsubscribed ch)
      have "ch \<in> set xs" using "2.prems"(3) inv by (simp add: Unsubscribed send_inv_def)
      then obtain i where i: "case_find (sn_cases st') ch = Some i" using case_find_iff [of xs ch] inv by (auto simp: send_inv_def)
      have "sn_len (drop_case i st') \<le> sn_len st'" by (simp add: drop_case_def)
      with "2.IH"(1) [OF t [symmetric] False Unsubscribed i sending.left [OF s i]] "2.prems" len
      show ?thesis using False by (fastforce simp: t [simplified] Unsubscribed i)
    next
      case (Chosen n)
      have l: "1 < sn_len st'" using False inv by (simp add: send_inv_def)
      then have "n mod (sn_len st' - 1) < sn_len st' - 1" by simp
      then have d: "sending subs gone (deliver (1 + n mod (sn_len st' - 1)) st')" by (intro sending.sent [OF s]) linarith+
      have "sn_len (deliver (1 + n mod (sn_len st' - 1)) st') = sn_len st' - 1" by (simp add: deliver_def)
      with "2.IH"(2) [OF t [symmetric] False Chosen d] "2.prems" len l
      show ?thesis using False by (fastforce simp: t [simplified] Chosen)
    qed
  qed
qed

text \<open>
  C17. A value is delivered exactly once to every subscriber. On a feed with distinct channels, whatever receivers are ready and in
  whatever order the others become ready, while some of the subscribers leave: \<open>Send\<close> ends after at most as many
  waits as there are subscribers; no channel gets the value twice, every channel that does not leave gets it, and only
  subscribers do; the number that is returned is the number of deliveries; and the feed keeps exactly the channels that have not left.
\<close>

theorem send_exactly_once:
  assumes "fd_once f" "fd_etype f = Some typ" "fd_sendCases f @ fd_inbox f = RemoveSub # map Sub subs" "distinct subs"
    and "distinct (leaving rs)" "set (leaving rs) \<subseteq> set subs" "length subs \<le> taken rs"
  shows "\<exists>f' st xs. Send f typ free rs = (f', Inr (Finished st))
    \<and> distinct (sn_log st) \<and> set subs - set (leaving rs) \<subseteq> set (sn_log st) \<and> set (sn_log st) \<subseteq> set subs \<and> sn_nsent st = length (sn_log st)
    \<and> fd_sendCases f' = RemoveSub # map Sub xs \<and> distinct xs \<and> set subs - set (leaving rs) \<subseteq> set xs \<and> set xs \<subseteq> set (sn_log st)"
proof -
  have "sending subs {} \<lparr>sn_cases = RemoveSub # map Sub subs, sn_len = Suc (length subs), sn_nsent = 0, sn_log = []\<rparr>" by (rule sending.start)
  from send_loop_ends [OF assms(4) this assms(5), of free 0] obtain st gone where
    l: "send_loop free 0 \<lparr>sn_cases = RemoveSub # map Sub subs, sn_len = Suc (length subs), sn_nsent = 0, sn_log = []\<rparr> rs = Finished st"
    and st: "sn_len st = 1" "sending subs gone st" "gone \<subseteq> set (leaving rs)"
    using assms(6,7) by auto
  obtain xs where "send_inv subs gone st xs" using sending_inv [OF st(2) assms(4)] by blast
  then have I: "sn_cases st = RemoveSub # map Sub xs" "distinct xs" "set xs = set subs - gone" "distinct (sn_log st)" "set xs \<subseteq> set (sn_log st)"
    "set (sn_log st) \<subseteq> set subs" "sn_nsent st = length (sn_log st)"
    using st(1) by (auto simp: send_inv_def)
  have "Send f typ free rs = (f\<lparr>fd_inbox := [], fd_sendCases := sn_cases st\<rparr>, Inr (Finished st))"
    using l by (simp add: Send_def feed_init_def typecheck_def Let_def assms(1-3) sent_state_def)
  then show ?thesis using I st(3) by (intro exI [of _ "f\<lparr>fd_inbox := [], fd_sendCases := sn_cases st\<rparr>"] exI [of _ st] exI [of _ xs]) auto
qed

theorem send_exactly_once_witness:
  "\<exists>f' st. Send \<lparr>fd_once = True, fd_inbox = [Sub 5], fd_sendCases = [RemoveSub, Sub 3, Sub 4], fd_etype = Some ''Block''\<rparr> ''Block'' (\<lambda>k. k = 1)
      [Chosen 1, Unsubscribed 3, Chosen 0, Chosen 0] = (f', Inr (Finished st)) \<and> {4, 5} \<subseteq> set (sn_log st) \<and> distinct (sn_log st)"
proof -
  let ?f = "\<lparr>fd_once = True, fd_inbox = [Sub 5], fd_sendCases = [RemoveSub, Sub 3, Sub 4], fd_etype = Some ''Block''\<rparr>"
  have "fd_sendCases ?f @ fd_inbox ?f = RemoveSub # map Sub [3, 4, 5]" by simp
  from send_exactly_once [OF _ _ this, of "''Block''" "[Chosen 1, Unsubscribed 3, Chosen 0, Chosen 0]" "\<lambda>k. k = 1"] show ?thesis by auto
qed

subsection \<open>Using a feed\<close>

text \<open>What the services rely on: subscribing a new channel keeps the channels distinct and of one type; an unsubscribed channel is gone.\<close>

definition feed_subs :: "Feed \<Rightarrow> nat list \<Rightarrow> bool" where
  "feed_subs f subs \<longleftrightarrow> distinct subs \<and> (if fd_once f then fd_sendCases f @ fd_inbox f = RemoveSub # map Sub subs
     else subs = [] \<and> fd_sendCases f = [] \<and> fd_inbox f = [])"

lemma new_Feed_subs: "feed_subs new_Feed []"
  by (simp add: feed_subs_def new_Feed_def)

lemma Subscribe_subs:
  assumes "feed_subs f subs" "ch \<notin> set subs" "Subscribe f ch sendable typ = (f', None)"
  shows "feed_subs f' (subs @ [ch])" "fd_once f'" "fd_etype f' = Some typ"
proof -
  have "fd_once f' \<and> fd_etype f' = Some typ \<and> fd_sendCases f' = fd_sendCases (feed_init f) \<and> fd_inbox f' = fd_inbox f @ [Sub ch]"
    using assms(3) by (auto simp: Subscribe_def typecheck_def Let_def feed_init_def split: if_splits option.splits bool.splits)
  then show "feed_subs f' (subs @ [ch])" "fd_once f'" "fd_etype f' = Some typ"
    using assms(1,2) by (auto simp: feed_subs_def feed_init_def append_eq_Cons_conv split: if_splits)
qed

subsection \<open>The registry of services (service_registry.go)\<close>

text \<open>A service is known by its type; \<open>'s\<close> is what the registry points to.\<close>

record 's ServiceRegistry =
  sr_services :: "(string, 's) gomap"
  sr_serviceTypes :: "string list"

definition NewServiceRegistry :: "'s ServiceRegistry" where
  "NewServiceRegistry = \<lparr>sr_services = [], sr_serviceTypes = []\<rparr>"

definition RegisterService :: "'s ServiceRegistry \<Rightarrow> string \<Rightarrow> 's \<Rightarrow> 's ServiceRegistry \<times> error option" where
  "RegisterService r kind service =
    (if ghas (sr_services r) kind then (r, Some (Errorf ''service already exists''))
     else (r\<lparr>sr_services := gput kind service (sr_services r), sr_serviceTypes := sr_serviceTypes r @ [kind]\<rparr>, None))"

text \<open>The calls of \<open>StartAll\<close> and \<open>StopAll\<close> in their order; a missing service would be a nil call.\<close>

definition StartAll :: "'s ServiceRegistry \<Rightarrow> 's option list" where
  "StartAll r = map (map_of (sr_services r)) (sr_serviceTypes r)"

definition StopAll :: "'s ServiceRegistry \<Rightarrow> 's option list" where
  "StopAll r = map (\<lambda>i. map_of (sr_services r) (sr_serviceTypes r ! i)) (rev [0..<length (sr_serviceTypes r)])"

definition Statuses :: "('s \<Rightarrow> error option) \<Rightarrow> 's ServiceRegistry \<Rightarrow> (string, error option) gomap" where
  "Statuses status r = foldl (\<lambda>m kind. case map_of (sr_services r) kind of Some s \<Rightarrow> gput kind (status s) m | None \<Rightarrow> m) [] (sr_serviceTypes r)"

definition FetchService :: "'s ServiceRegistry \<Rightarrow> bool \<Rightarrow> string \<Rightarrow> error + 's" where
  "FetchService r isPtr typ =
    (if \<not> isPtr then Inl (Errorf ''input must be of pointer type, received value type instead'')
     else case map_of (sr_services r) typ of Some running \<Rightarrow> Inr running | None \<Rightarrow> Inl (Errorf ''unknown service''))"

text \<open>The reference: a list of the registered services in order.\<close>

definition registered :: "'s ServiceRegistry \<Rightarrow> (string \<times> 's) list \<Rightarrow> bool" where
  "registered r ss \<longleftrightarrow> sr_services r = ss \<and> sr_serviceTypes r = map fst ss \<and> gomap_ok ss"

lemma RegisterService_registered:
  assumes "registered r ss"
  shows "RegisterService r k s = (if k \<in> set (map fst ss) then (r, Some (Errorf ''service already exists''))
      else (fst (RegisterService r k s), None)) \<and> (k \<notin> set (map fst ss) \<longrightarrow> registered (fst (RegisterService r k s)) (ss @ [(k, s)]))"
  using assms by (auto simp: RegisterService_def registered_def ghas_iff update_new)

lemma lookups: "gomap_ok ss \<Longrightarrow> map (map_of ss) (map fst ss) = map (Some \<circ> snd) ss"
  by (induction ss) (auto intro!: map_cong simp: image_iff)

text \<open>Services start in the order of their registration and stop in the reverse order, each exactly once, and every one can be fetched.\<close>

lemma registry_order:
  assumes "registered r ss"
  shows "StartAll r = map (Some \<circ> snd) ss" "StopAll r = rev (StartAll r)" "(k, s) \<in> set ss \<Longrightarrow> FetchService r True k = Inr s"
proof -
  have d: "gomap_ok ss" "sr_services r = ss" "sr_serviceTypes r = map fst ss" using assms by (simp_all add: registered_def)
  show "StartAll r = map (Some \<circ> snd) ss" unfolding StartAll_def d(2,3) by (rule lookups [OF d(1)])
  have "map (\<lambda>i. map_of (sr_services r) (sr_serviceTypes r ! i)) [0..<length (sr_serviceTypes r)] = StartAll r"
    unfolding StartAll_def by (rule nth_equalityI) simp_all
  then show "StopAll r = rev (StartAll r)" unfolding StopAll_def rev_map [symmetric] by (rule arg_cong [of _ _ rev])
  show "(k, s) \<in> set ss \<Longrightarrow> FetchService r True k = Inr s" using d by (simp add: FetchService_def)
qed

end
