(* ===== verification/Startup.thy ===== *)
theory Startup
  imports Core Feed
begin

text \<open>
  How the services of a node wait for each other when it starts.  \<^verbatim>\<open>StartAll\<close> runs the \<open>Start\<close> method of every service in a goroutine of its own;
  they announce their progress on the state feed and wait for the announcements of the others (\<^verbatim>\<open>blockchain/state\<close>).  A step is a step
  of one goroutine, or the delivery of the value that is being sent to one of the subscribers; a goroutine that has to wait has no
  step.  Subscribing, sending, receiving and unsubscribing are what \<open>Feed\<close> shows of the calls: a value goes to the
  channels that are subscribed when the call begins, and the call holds the lock of the feed until all of them have it.

  It is shown that a start always comes to rest, and that it has then completed exactly if no service subscribed too late for a
  state it waits for.  The synchronisation service subscribes in a goroutine that races with the announcements, so that it can be too late.
\<close>

subsection \<open>The state feed\<close>

datatype proc = Chain_Start | Att_Start | Core_Start | P2P_Start | P2P_listener | Sync_Start | Sync_listener | Validator_Start

datatype chan = P2P_ch | Core_ch | Sync_ch | Validator_ch

text \<open>
  \<open>bs_send\<close> is the call of \<open>Send\<close> that holds the lock, with the channels still to be served.  Three components only record the history: the
  calls so far with their subscribers, the values received from a channel, and the channels that have been unsubscribed.
\<close>

record bus =
  bs_subs :: "chan list"
  bs_buf :: "chan \<Rightarrow> State list"
  bs_send :: "(proc \<times> State \<times> chan list) option"
  bs_log :: "(State \<times> chan list) list"
  bs_got :: "chan \<Rightarrow> State list"
  bs_left :: "chan set"

fun capacity :: "chan \<Rightarrow> nat" where
  "capacity P2P_ch = 10"
| "capacity Core_ch = 10"
| "capacity Sync_ch = 1"
| "capacity Validator_ch = 1"

definition bus_subscribe :: "chan \<Rightarrow> bus \<Rightarrow> bus" where
  "bus_subscribe c b = b\<lparr>bs_subs := bs_subs b @ [c]\<rparr>"

definition bus_unsubscribe :: "chan \<Rightarrow> bus \<Rightarrow> bus" where
  "bus_unsubscribe c b = b\<lparr>bs_subs := removeAll c (bs_subs b), bs_send := map_option (\<lambda>(p, v, cs). (p, v, removeAll c cs)) (bs_send b),
     bs_left := insert c (bs_left b)\<rparr>"

definition bus_begin :: "proc \<Rightarrow> State \<Rightarrow> bus \<Rightarrow> bus" where
  "bus_begin p v b = b\<lparr>bs_send := Some (p, v, bs_subs b), bs_log := bs_log b @ [(v, bs_subs b)]\<rparr>"

definition bus_deliver :: "chan \<Rightarrow> bus \<Rightarrow> bus option" where
  "bus_deliver c b = (case bs_send b of
     None \<Rightarrow> None
   | Some (p, v, cs) \<Rightarrow> if c \<in> set cs \<and> length (bs_buf b c) < capacity c
       then Some (b\<lparr>bs_send := Some (p, v, removeAll c cs), bs_buf := (bs_buf b)(c := bs_buf b c @ [v])\<rparr>) else None)"

definition bus_end :: "bus \<Rightarrow> bus" where
  "bus_end b = b\<lparr>bs_send := None\<rparr>"

definition bus_receive :: "chan \<Rightarrow> bus \<Rightarrow> (State \<times> bus) option" where
  "bus_receive c b = (case bs_buf b c of
     [] \<Rightarrow> None
   | v # vs \<Rightarrow> Some (v, b\<lparr>bs_buf := (bs_buf b)(c := vs), bs_got := (bs_got b)(c := bs_got b c @ [v])\<rparr>))"

subsection \<open>The goroutines\<close>

datatype chain_pc = CInit | CSendInit | CSync | CSendLocal | CDone | CFailed
datatype att_pc = AInit | ASend | AListen
datatype core_pc = OSubscribe | OWait | OLoop
datatype p2p_pc = PSpawn | PWait | PConnect | PSend | PWaitSync | PTopics | PRead | PFailed
datatype listener_pc = LOff | LReceive | LPush | LExit
datatype sync_pc = SSpawn | SReady | SWaitLocal | SWaitStake | SWaitConnected | SNetwork | SSend | SDone
datatype sync_listener_pc = TOff | TSubscribe | TReceive
datatype validator_pc = VOff | VSubscribe | VWait | VLoop

text \<open>What the calls inside the \<open>Start\<close> methods return, and whether the node is a validator.\<close>

record start_env =
  se_init :: "error option"
  se_sync :: "error option"
  se_repair :: "error option"
  se_stake :: "error option"
  se_discovery :: "error option"
  se_topics :: "error option"
  se_network :: "error option"
  se_ticker :: bool
  se_validator :: bool

record startup =
  su_bus :: bus
  su_chain :: chain_pc
  su_ready :: bool
  su_startFailure :: "error option"
  su_att :: att_pc
  su_core :: core_pc
  su_tick :: bool
  su_p2p :: p2p_pc
  su_startFail :: "error option"
  su_listener :: listener_pc
  su_initialized :: bool
  su_sync :: sync_pc
  su_slistener :: sync_listener_pc
  su_local :: bool
  su_stake :: bool
  su_connected :: bool
  su_validator :: validator_pc
  su_crashed :: "string option"

definition crash :: "string \<Rightarrow> startup \<Rightarrow> startup" where
  "crash m s = s\<lparr>su_crashed := Some m\<rparr>"

text \<open>A goroutine at a call of \<open>Send\<close>: it begins when the lock is free and goes on when every subscriber has the value.\<close>

definition sends :: "proc \<Rightarrow> State \<Rightarrow> (startup \<Rightarrow> startup) \<Rightarrow> startup \<Rightarrow> startup option" where
  "sends p v k s = (case bs_send (su_bus s) of
     None \<Rightarrow> Some (s\<lparr>su_bus := bus_begin p v (su_bus s)\<rparr>)
   | Some (q, w, cs) \<Rightarrow> if q = p \<and> cs = [] then Some (k (s\<lparr>su_bus := bus_end (su_bus s)\<rparr>)) else None)"

definition receives :: "chan \<Rightarrow> (State \<Rightarrow> startup \<Rightarrow> startup) \<Rightarrow> startup \<Rightarrow> startup option" where
  "receives c k s = map_option (\<lambda>(v, b). k v (s\<lparr>su_bus := b\<rparr>)) (bus_receive c (su_bus s))"

fun chain_step :: "start_env \<Rightarrow> chain_pc \<Rightarrow> startup \<Rightarrow> startup option" where
  "chain_step e CInit s = Some (case se_init e of
     Some err \<Rightarrow> s\<lparr>su_chain := CFailed, su_startFailure := Some err\<rparr>
   | None \<Rightarrow> s\<lparr>su_chain := CSendInit\<rparr>)"
| "chain_step e CSendInit s = sends Chain_Start Initialized (su_chain_update (\<lambda>_. CSync)) s"
| "chain_step e CSync s = Some (case se_sync e of
     Some err \<Rightarrow> s\<lparr>su_chain := CFailed, su_startFailure := Some err\<rparr>
   | None \<Rightarrow> (case se_repair e of
       Some err \<Rightarrow> s\<lparr>su_chain := CFailed\<rparr>
     | None \<Rightarrow> s\<lparr>su_chain := CSendLocal, su_ready := True\<rparr>))"
| "chain_step e CSendLocal s = sends Chain_Start LocalSynced (su_chain_update (\<lambda>_. CDone)) s"
| "chain_step e CDone s = None"
| "chain_step e CFailed s = None"

fun att_step :: "start_env \<Rightarrow> att_pc \<Rightarrow> startup \<Rightarrow> startup option" where
  "att_step e AInit s = Some (case se_stake e of
     Some err \<Rightarrow> crash ''Stake pool error'' s
   | None \<Rightarrow> s\<lparr>su_att := ASend\<rparr>)"
| "att_step e ASend s = sends Att_Start StakePoolInitialized (su_att_update (\<lambda>_. AListen)) s"
| "att_step e AListen s = None"

definition core_state :: "start_env \<Rightarrow> State \<Rightarrow> startup \<Rightarrow> startup" where
  "core_state e v s =
    (if v = LocalSynced then (if se_ticker e then s\<lparr>su_tick := True\<rparr> else crash ''Zero Genesis time'' s)
     else if v = Synced then s\<lparr>su_core := OLoop\<rparr> else s)"

fun core_step :: "start_env \<Rightarrow> core_pc \<Rightarrow> startup \<Rightarrow> startup option" where
  "core_step e OSubscribe s = Some (s\<lparr>su_bus := bus_subscribe Core_ch (su_bus s), su_core := OWait\<rparr>)"
| "core_step e OWait s = receives Core_ch (core_state e) s"
| "core_step e OLoop s = None"

fun p2p_step :: "start_env \<Rightarrow> p2p_pc \<Rightarrow> startup \<Rightarrow> startup option" where
  "p2p_step e PSpawn s = Some (s\<lparr>su_listener := LReceive, su_p2p := PWait\<rparr>)"
| "p2p_step e PWait s = (if su_initialized s then Some (s\<lparr>su_p2p := PConnect\<rparr>) else None)"
| "p2p_step e PConnect s = Some (case se_discovery e of
     Some err \<Rightarrow> s\<lparr>su_p2p := PFailed, su_startFail := Some err\<rparr>
   | None \<Rightarrow> s\<lparr>su_p2p := PSend\<rparr>)"
| "p2p_step e PSend s = sends P2P_Start State.Connected (su_p2p_update (\<lambda>_. PWaitSync)) s"
| "p2p_step e PWaitSync s = (if su_initialized s then Some (s\<lparr>su_p2p := PTopics\<rparr>) else None)"
| "p2p_step e PTopics s = Some (case se_topics e of
     Some err \<Rightarrow> s\<lparr>su_p2p := PFailed, su_startFail := Some err\<rparr>
   | None \<Rightarrow> s\<lparr>su_p2p := PRead\<rparr>)"
| "p2p_step e PRead s = None"
| "p2p_step e PFailed s = None"

text \<open>
  The listener of the network service hands the first announcement to \<open>Start\<close> over a channel without a buffer, so both move together, and closes
  the channel on the second.
\<close>

definition p2p_state :: "State \<Rightarrow> startup \<Rightarrow> startup" where
  "p2p_state v s =
    (if v = ConnectionHandlersReady then s\<lparr>su_listener := LPush\<rparr>
     else if v = Synced then (if su_initialized s then crash ''close of closed channel'' s
       else s\<lparr>su_initialized := True, su_listener := LExit, su_bus := bus_unsubscribe P2P_ch (su_bus s)\<rparr>)
     else s)"

fun p2p_listener_step :: "listener_pc \<Rightarrow> startup \<Rightarrow> startup option" where
  "p2p_listener_step LOff s = None"
| "p2p_listener_step LReceive s = receives P2P_ch p2p_state s"
| "p2p_listener_step LPush s =
    (if su_p2p s = PWait then Some (s\<lparr>su_listener := LReceive, su_p2p := PConnect\<rparr>)
     else if su_p2p s = PWaitSync then Some (s\<lparr>su_listener := LReceive, su_p2p := PTopics\<rparr>)
     else None)"
| "p2p_listener_step LExit s = None"

fun sync_step :: "start_env \<Rightarrow> sync_pc \<Rightarrow> startup \<Rightarrow> startup option" where
  "sync_step e SSpawn s = Some (s\<lparr>su_slistener := TSubscribe, su_sync := SReady\<rparr>)"
| "sync_step e SReady s = sends Sync_Start ConnectionHandlersReady (su_sync_update (\<lambda>_. SWaitLocal)) s"
| "sync_step e SWaitLocal s = (if su_local s then Some (s\<lparr>su_sync := SWaitStake\<rparr>) else None)"
| "sync_step e SWaitStake s = (if su_stake s then Some (s\<lparr>su_sync := SWaitConnected\<rparr>) else None)"
| "sync_step e SWaitConnected s = (if su_connected s then Some (s\<lparr>su_sync := SNetwork\<rparr>) else None)"
| "sync_step e SNetwork s = Some (case se_network e of
     Some err \<Rightarrow> if err = ErrAlreadySynced then s\<lparr>su_sync := SSend\<rparr> else crash ''SyncWithNetwork'' s
   | None \<Rightarrow> s\<lparr>su_sync := SSend\<rparr>)"
| "sync_step e SSend s = sends Sync_Start Synced (su_sync_update (\<lambda>_. SDone)) s"
| "sync_step e SDone s = None"

fun sync_state :: "State \<Rightarrow> startup \<Rightarrow> startup" where
  "sync_state StakePoolInitialized s = (if su_stake s then crash ''close of closed channel'' s else s\<lparr>su_stake := True\<rparr>)"
| "sync_state State.Connected s = (if su_connected s then crash ''close of closed channel'' s else s\<lparr>su_connected := True\<rparr>)"
| "sync_state LocalSynced s = (if su_local s then crash ''close of closed channel'' s else s\<lparr>su_local := True\<rparr>)"
| "sync_state Initialized s = s"
| "sync_state ConnectionHandlersReady s = s"
| "sync_state Synced s = s"

fun sync_listener_step :: "sync_listener_pc \<Rightarrow> startup \<Rightarrow> startup option" where
  "sync_listener_step TOff s = None"
| "sync_listener_step TSubscribe s = Some (s\<lparr>su_bus := bus_subscribe Sync_ch (su_bus s), su_slistener := TReceive\<rparr>)"
| "sync_listener_step TReceive s = receives Sync_ch sync_state s"

text \<open>The validator starts a slot ticker of its own, which runs while it is in its loop; \<open>su_tick\<close> is the ticker of the core service.\<close>

definition validator_state :: "start_env \<Rightarrow> State \<Rightarrow> startup \<Rightarrow> startup" where
  "validator_state e v s =
    (if v = Synced then
       (if se_ticker e then s\<lparr>su_validator := VLoop, su_bus := bus_unsubscribe Validator_ch (su_bus s)\<rparr>
        else crash ''Zero Genesis time'' s)
     else s)"

fun validator_step :: "start_env \<Rightarrow> validator_pc \<Rightarrow> startup \<Rightarrow> startup option" where
  "validator_step e VOff s = None"
| "validator_step e VSubscribe s = Some (s\<lparr>su_bus := bus_subscribe Validator_ch (su_bus s), su_validator := VWait\<rparr>)"
| "validator_step e VWait s = receives Validator_ch (validator_state e) s"
| "validator_step e VLoop s = None"

subsection \<open>Starting a node\<close>

datatype action = Run proc | Deliver chan

fun goroutine :: "start_env \<Rightarrow> proc \<Rightarrow> startup \<Rightarrow> startup option" where
  "goroutine e Chain_Start s = chain_step e (su_chain s) s"
| "goroutine e Att_Start s = att_step e (su_att s) s"
| "goroutine e Core_Start s = core_step e (su_core s) s"
| "goroutine e P2P_Start s = p2p_step e (su_p2p s) s"
| "goroutine e P2P_listener s = p2p_listener_step (su_listener s) s"
| "goroutine e Sync_Start s = sync_step e (su_sync s) s"
| "goroutine e Sync_listener s = sync_listener_step (su_slistener s) s"
| "goroutine e Validator_Start s = validator_step e (su_validator s) s"

text \<open>A panic of any goroutine ends the process.\<close>

definition start_step :: "start_env \<Rightarrow> action \<Rightarrow> startup \<Rightarrow> startup option" where
  "start_step e a s = (if su_crashed s \<noteq> None then None else
     (case a of Run p \<Rightarrow> goroutine e p s
      | Deliver c \<Rightarrow> map_option (\<lambda>b. s\<lparr>su_bus := b\<rparr>) (bus_deliver c (su_bus s))))"

fun start_run :: "start_env \<Rightarrow> action list \<Rightarrow> startup \<Rightarrow> startup option" where
  "start_run e [] s = Some s"
| "start_run e (a # as) s = (case start_step e a s of None \<Rightarrow> None | Some s \<Rightarrow> start_run e as s)"

text \<open>The network service subscribes when it is constructed, before any service starts.\<close>

definition new_bus :: bus where
  "new_bus = \<lparr>bs_subs = [P2P_ch], bs_buf = (\<lambda>_. []), bs_send = None, bs_log = [], bs_got = (\<lambda>_. []), bs_left = {}\<rparr>"

definition constructed :: "start_env \<Rightarrow> startup" where
  "constructed e = \<lparr>su_bus = new_bus, su_chain = CInit, su_ready = False, su_startFailure = None, su_att = AInit, su_core = OSubscribe,
     su_tick = False, su_p2p = PSpawn, su_startFail = None, su_listener = LOff, su_initialized = False, su_sync = SSpawn, su_slistener = TOff,
     su_local = False, su_stake = False, su_connected = False, su_validator = (if se_validator e then VSubscribe else VOff), su_crashed = None\<rparr>"

definition actions :: "action list" where
  "actions = map Run [Chain_Start, Att_Start, Core_Start, P2P_Start, P2P_listener, Sync_Start, Sync_listener, Validator_Start]
     @ map Deliver [P2P_ch, Core_ch, Sync_ch, Validator_ch]"

definition at_rest :: "start_env \<Rightarrow> startup \<Rightarrow> bool" where
  "at_rest e s \<longleftrightarrow> list_all (\<lambda>a. start_step e a s = None) actions"

definition completed :: "start_env \<Rightarrow> startup \<Rightarrow> bool" where
  "completed e s \<longleftrightarrow> su_crashed s = None \<and> su_chain s = CDone \<and> su_ready s \<and> su_att s = AListen \<and> su_core s = OLoop \<and> su_p2p s = PRead
     \<and> su_sync s = SDone \<and> (se_validator e \<longrightarrow> su_validator s = VLoop)"

text \<open>No call of the \<open>Start\<close> methods fails.\<close>

definition no_failure :: "start_env \<Rightarrow> bool" where
  "no_failure e \<longleftrightarrow> se_init e = None \<and> se_sync e = None \<and> se_repair e = None \<and> se_stake e = None \<and> se_discovery e = None
     \<and> se_topics e = None \<and> se_network e \<in> {None, Some ErrAlreadySynced} \<and> se_ticker e"

text \<open>A state is missed on a channel that was not subscribed when the state was announced; \<open>awaited\<close> are the states services wait for.\<close>

definition missed :: "startup \<Rightarrow> chan \<Rightarrow> State \<Rightarrow> bool" where
  "missed s c v \<longleftrightarrow> list_ex (\<lambda>(w, cs). w = v \<and> c \<notin> set cs) (bs_log (su_bus s))"

definition awaited :: "start_env \<Rightarrow> (chan \<times> State) list" where
  "awaited e = [(Sync_ch, LocalSynced), (Sync_ch, StakePoolInitialized), (Sync_ch, State.Connected), (Core_ch, Synced)]
     @ (if se_validator e then [(Validator_ch, Synced)] else [])"

subsection \<open>Values on the feed\<close>

definition sent :: "bus \<Rightarrow> State \<Rightarrow> bool" where
  "sent b v \<longleftrightarrow> v \<in> fst ` set (bs_log b)"

definition heard :: "bus \<Rightarrow> chan \<Rightarrow> State \<Rightarrow> bool" where
  "heard b c v \<longleftrightarrow> (\<exists>cs. (v, cs) \<in> set (bs_log b) \<and> c \<in> set cs)"

definition pending :: "bus \<Rightarrow> chan \<Rightarrow> State \<Rightarrow> bool" where
  "pending b c v \<longleftrightarrow> (\<exists>p cs. bs_send b = Some (p, v, cs) \<and> c \<in> set cs)"

definition arrived :: "bus \<Rightarrow> chan \<Rightarrow> State \<Rightarrow> bool" where
  "arrived b c v \<longleftrightarrow> v \<in> set (bs_got b c) \<or> v \<in> set (bs_buf b c)"

text \<open>A channel has, or will get, each state that was announced while it was subscribed, once, and no other, unless it was unsubscribed meanwhile.\<close>

definition bus_ok :: "bus \<Rightarrow> bool" where
  "bus_ok b \<longleftrightarrow> distinct (map fst (bs_log b)) \<and> distinct (bs_subs b) \<and> set (bs_subs b) \<inter> bs_left b = {}
     \<and> (\<forall>p v cs. bs_send b = Some (p, v, cs) \<longrightarrow> sent b v \<and> distinct cs \<and> set cs \<subseteq> set (bs_subs b) \<and> (\<forall>c \<in> set cs. \<not> arrived b c v))
     \<and> (\<forall>c. distinct (bs_got b c @ bs_buf b c))
     \<and> (\<forall>c v. arrived b c v \<or> pending b c v \<longrightarrow> heard b c v)
     \<and> (\<forall>c v. heard b c v \<longrightarrow> arrived b c v \<or> pending b c v \<or> c \<in> bs_left b)"

lemmas bus_defs = bus_ok_def sent_def heard_def pending_def arrived_def

lemma heard_sent: "heard b c v \<Longrightarrow> sent b v"
  by (force simp: heard_def sent_def)

lemma bus_distinct: "bus_ok b \<Longrightarrow> distinct (bs_got b c @ bs_buf b c)"
  by (simp add: bus_ok_def)

lemma arrived_heard: "bus_ok b \<Longrightarrow> arrived b c v \<Longrightarrow> heard b c v"
  by (simp add: bus_ok_def)

lemma new_bus_ok: "bus_ok new_bus"
  by (simp add: bus_defs new_bus_def)

lemma begin_ok: "bus_ok b \<Longrightarrow> bs_send b = None \<Longrightarrow> \<not> sent b v \<Longrightarrow> bus_ok (bus_begin p v b)"
proof -
  assume b: "bus_ok b" "bs_send b = None" "\<not> sent b v"
  then have n: "\<not> arrived b c v" for c using heard_sent [of b c v] by (auto simp: bus_ok_def)
  have h: "heard (bus_begin p v b) c w \<longleftrightarrow> heard b c w \<or> w = v \<and> c \<in> set (bs_subs b)" for c w
    by (auto simp: heard_def bus_begin_def)
  have s: "sent (bus_begin p v b) w \<longleftrightarrow> sent b w \<or> w = v" for w by (auto simp: sent_def bus_begin_def)
  have a: "arrived (bus_begin p v b) = arrived b" by (simp add: fun_eq_iff arrived_def bus_begin_def)
  have q: "pending (bus_begin p v b) c w \<longleftrightarrow> w = v \<and> c \<in> set (bs_subs b)" "\<not> pending b c w" for c w
    using b(2) by (auto simp: pending_def bus_begin_def)
  have nq: "\<forall>c w. heard b c w \<longrightarrow> arrived b c w \<or> c \<in> bs_left b" using b(1) q(2) unfolding bus_ok_def by blast
  show ?thesis using b n nq unfolding bus_ok_def h s a q by (auto simp: bus_begin_def sent_def)
qed

lemma end_ok: "bus_ok b \<Longrightarrow> bs_send b = Some (p, v, []) \<Longrightarrow> bus_ok (bus_end b)"
  by (simp add: bus_defs bus_end_def)

lemma deliver_ok:
  assumes b: "bus_ok b" and d: "bus_deliver c b = Some b'"
  shows "bus_ok b'"
proof -
  obtain p v cs where s: "bs_send b = Some (p, v, cs)" "c \<in> set cs"
    and b': "b' = b\<lparr>bs_send := Some (p, v, removeAll c cs), bs_buf := (bs_buf b)(c := bs_buf b c @ [v])\<rparr>"
    using d by (auto simp: bus_deliver_def split: option.splits prod.splits if_splits)
  have i: "sent b v" "distinct cs" "set cs \<subseteq> set (bs_subs b)" "\<forall>c \<in> set cs. \<not> arrived b c v" using b s by (auto simp: bus_ok_def)
  have hs: "heard b' = heard b" "sent b' = sent b" by (simp_all add: fun_eq_iff heard_def sent_def b')
  have a: "arrived b' x w \<longleftrightarrow> arrived b x w \<or> x = c \<and> w = v" for x w by (auto simp: arrived_def b')
  have q: "pending b' x w \<longleftrightarrow> pending b x w \<and> x \<noteq> c" for x w using s by (auto simp: pending_def b')
  have qv: "pending b x w \<longleftrightarrow> w = v \<and> x \<in> set cs" for x w using s by (auto simp: pending_def)
  have d: "distinct (bs_got b' x @ bs_buf b' x)" for x using b i(4) s(2) by (auto simp: bus_ok_def b' arrived_def)
  have "bs_log b' = bs_log b" "bs_subs b' = bs_subs b" "bs_left b' = bs_left b" "bs_send b' = Some (p, v, removeAll c cs)" by (simp_all add: b')
  then show ?thesis using b d i s(2) unfolding bus_ok_def hs a q by (auto simp: qv distinct_removeAll)
qed

lemma bus_receive_ok:
  assumes b: "bus_ok b" and r: "bus_receive c b = Some (v, b')"
  shows "bus_ok b'"
proof -
  obtain vs where vs: "bs_buf b c = v # vs" and b': "b' = b\<lparr>bs_buf := (bs_buf b)(c := vs), bs_got := (bs_got b)(c := bs_got b c @ [v])\<rparr>"
    using r by (auto simp: bus_receive_def split: list.splits)
  have "bs_got b' x @ bs_buf b' x = bs_got b x @ bs_buf b x" for x using vs by (simp add: b')
  moreover have "heard b' = heard b" "sent b' = sent b" "pending b' = pending b" by (simp_all add: fun_eq_iff heard_def sent_def pending_def b')
  moreover have "arrived b' = arrived b" using vs by (auto simp: fun_eq_iff arrived_def b')
  moreover have "bs_log b' = bs_log b" "bs_subs b' = bs_subs b" "bs_left b' = bs_left b" "bs_send b' = bs_send b" by (simp_all add: b')
  ultimately show ?thesis using b unfolding bus_ok_def by simp
qed

lemma subscribe_ok: "bus_ok b \<Longrightarrow> c \<notin> set (bs_subs b) \<Longrightarrow> c \<notin> bs_left b \<Longrightarrow> bus_ok (bus_subscribe c b)"
  by (auto simp: bus_defs bus_subscribe_def)

lemma unsubscribe_ok:
  assumes "bus_ok b"
  shows "bus_ok (bus_unsubscribe c b)"
proof -
  let ?b = "bus_unsubscribe c b"
  have hs: "heard ?b = heard b" "sent ?b = sent b" "arrived ?b = arrived b" by (simp_all add: fun_eq_iff heard_def sent_def arrived_def bus_unsubscribe_def)
  have q: "pending ?b x w \<longleftrightarrow> pending b x w \<and> x \<noteq> c" for x w by (force simp: pending_def bus_unsubscribe_def)
  show ?thesis using assms unfolding bus_ok_def hs q by (auto simp: bus_unsubscribe_def distinct_removeAll)
qed

lemma distinct_bound: "finite (UNIV :: 'a set) \<Longrightarrow> distinct (xs :: 'a list) \<Longrightarrow> length xs \<le> card (UNIV :: 'a set)"
  using card_mono [of "UNIV :: 'a set" "set xs"] by (simp add: distinct_card)

lemma UNIV_State: "(UNIV :: State set) = {Initialized, LocalSynced, Synced, ConnectionHandlersReady, StakePoolInitialized, State.Connected}"
  using State.exhaust by blast

lemma distinct_states: "distinct (vs :: State list) \<Longrightarrow> length vs \<le> 6"
  using distinct_bound [of vs] by (simp add: UNIV_State)

lemma UNIV_chan: "(UNIV :: chan set) = {P2P_ch, Core_ch, Sync_ch, Validator_ch}"
  using chan.exhaust by blast

lemma distinct_chans: "distinct (cs :: chan list) \<Longrightarrow> length cs \<le> 4"
  using distinct_bound [of cs] by (simp add: UNIV_chan)

subsection \<open>The invariant of a start\<close>

fun sender :: "State \<Rightarrow> proc" where
  "sender Initialized = Chain_Start"
| "sender LocalSynced = Chain_Start"
| "sender StakePoolInitialized = Att_Start"
| "sender ConnectionHandlersReady = Sync_Start"
| "sender State.Connected = P2P_Start"
| "sender Synced = Sync_Start"

fun sending_at :: "State \<Rightarrow> startup \<Rightarrow> bool" where
  "sending_at Initialized s = (su_chain s = CSendInit)"
| "sending_at LocalSynced s = (su_chain s = CSendLocal)"
| "sending_at StakePoolInitialized s = (su_att s = ASend)"
| "sending_at ConnectionHandlersReady s = (su_sync s = SReady)"
| "sending_at State.Connected s = (su_p2p s = PSend)"
| "sending_at Synced s = (su_sync s = SSend)"

fun announced :: "State \<Rightarrow> startup \<Rightarrow> bool" where
  "announced Initialized s = (su_chain s \<in> {CSync, CSendLocal, CDone})"
| "announced LocalSynced s = (su_chain s = CDone)"
| "announced StakePoolInitialized s = (su_att s = AListen)"
| "announced ConnectionHandlersReady s = (su_sync s \<notin> {SSpawn, SReady})"
| "announced State.Connected s = (su_p2p s \<in> {PWaitSync, PTopics, PRead})"
| "announced Synced s = (su_sync s = SDone)"

text \<open>The lock of the feed is held by a goroutine that is at its call, and a state has been sent exactly if its sender is past the call or in it.\<close>

definition lock_inv :: "startup \<Rightarrow> bool" where
  "lock_inv s \<longleftrightarrow> (\<forall>p v cs. bs_send (su_bus s) = Some (p, v, cs) \<longrightarrow> p = sender v \<and> sending_at v s)
     \<and> (\<forall>v. sent (su_bus s) v \<longleftrightarrow> announced v s \<or> (\<exists>p cs. bs_send (su_bus s) = Some (p, v, cs)))"

definition sub_inv :: "startup \<Rightarrow> bool" where
  "sub_inv s \<longleftrightarrow> (P2P_ch \<in> set (bs_subs (su_bus s)) \<longleftrightarrow> su_listener s \<noteq> LExit) \<and> (P2P_ch \<in> bs_left (su_bus s) \<longleftrightarrow> su_listener s = LExit)
     \<and> (Core_ch \<in> set (bs_subs (su_bus s)) \<longleftrightarrow> su_core s \<noteq> OSubscribe) \<and> Core_ch \<notin> bs_left (su_bus s)
     \<and> (Sync_ch \<in> set (bs_subs (su_bus s)) \<longleftrightarrow> su_slistener s = TReceive) \<and> Sync_ch \<notin> bs_left (su_bus s)
     \<and> (Validator_ch \<in> set (bs_subs (su_bus s)) \<longleftrightarrow> su_validator s = VWait) \<and> (Validator_ch \<in> bs_left (su_bus s) \<longleftrightarrow> su_validator s = VLoop)"

definition p2p_inv :: "startup \<Rightarrow> bool" where
  "p2p_inv s \<longleftrightarrow> (su_listener s = LOff \<longleftrightarrow> su_p2p s = PSpawn) \<and> (su_initialized s \<longleftrightarrow> Synced \<in> set (bs_got (su_bus s) P2P_ch))
     \<and> (Synced \<in> set (bs_got (su_bus s) P2P_ch) \<longleftrightarrow> su_listener s = LExit) \<and> (su_listener s = LPush \<longrightarrow> su_p2p s = PWait)
     \<and> (ConnectionHandlersReady \<in> set (bs_got (su_bus s) P2P_ch) \<longleftrightarrow> su_listener s = LPush \<or> su_p2p s \<notin> {PSpawn, PWait})
     \<and> (su_p2p s \<in> {PTopics, PRead} \<longrightarrow> Synced \<in> set (bs_got (su_bus s) P2P_ch)) \<and> su_p2p s \<noteq> PFailed"

definition sync_inv :: "startup \<Rightarrow> bool" where
  "sync_inv s \<longleftrightarrow> (su_slistener s = TOff \<longleftrightarrow> su_sync s = SSpawn) \<and> (su_local s \<longleftrightarrow> LocalSynced \<in> set (bs_got (su_bus s) Sync_ch))
     \<and> (su_stake s \<longleftrightarrow> StakePoolInitialized \<in> set (bs_got (su_bus s) Sync_ch)) \<and> (su_connected s \<longleftrightarrow> State.Connected \<in> set (bs_got (su_bus s) Sync_ch))
     \<and> (su_sync s \<in> {SWaitStake, SWaitConnected, SNetwork, SSend, SDone} \<longrightarrow> LocalSynced \<in> set (bs_got (su_bus s) Sync_ch))
     \<and> (su_sync s \<in> {SWaitConnected, SNetwork, SSend, SDone} \<longrightarrow> StakePoolInitialized \<in> set (bs_got (su_bus s) Sync_ch))
     \<and> (su_sync s \<in> {SNetwork, SSend, SDone} \<longrightarrow> State.Connected \<in> set (bs_got (su_bus s) Sync_ch))"

definition rest_inv :: "start_env \<Rightarrow> startup \<Rightarrow> bool" where
  "rest_inv e s \<longleftrightarrow> su_crashed s = None \<and> su_chain s \<noteq> CFailed \<and> (su_ready s \<longleftrightarrow> su_chain s \<in> {CSendLocal, CDone})
     \<and> (su_core s = OLoop \<longleftrightarrow> Synced \<in> set (bs_got (su_bus s) Core_ch)) \<and> (su_validator s = VLoop \<longleftrightarrow> Synced \<in> set (bs_got (su_bus s) Validator_ch))
     \<and> (su_validator s = VOff \<longleftrightarrow> \<not> se_validator e)"

definition start_inv :: "start_env \<Rightarrow> startup \<Rightarrow> bool" where
  "start_inv e s \<longleftrightarrow> bus_ok (su_bus s) \<and> lock_inv s \<and> sub_inv s \<and> p2p_inv s \<and> sync_inv s \<and> rest_inv e s"

lemmas inv_defs = lock_inv_def sub_inv_def p2p_inv_def sync_inv_def rest_inv_def

lemma constructed_inv: "start_inv e (constructed e)"
proof -
  have "lock_inv (constructed e)" unfolding lock_inv_def
  proof (intro conjI allI)
    show "sent (su_bus (constructed e)) v \<longleftrightarrow> announced v (constructed e) \<or> (\<exists>p cs. bs_send (su_bus (constructed e)) = Some (p, v, cs))" for v
      by (cases v) (simp_all add: constructed_def new_bus_def sent_def)
  qed (simp add: constructed_def new_bus_def)
  then show ?thesis by (simp add: start_inv_def sub_inv_def p2p_inv_def sync_inv_def rest_inv_def constructed_def new_bus_ok) (simp add: new_bus_def)
qed

text \<open>Each part of the invariant depends on a few components only.\<close>

lemma sub_inv_frame [simp]:
  "sub_inv (su_chain_update f1 s) = sub_inv s" "sub_inv (su_ready_update f2 s) = sub_inv s" "sub_inv (su_startFailure_update f3 s) = sub_inv s"
  "sub_inv (su_att_update f4 s) = sub_inv s" "sub_inv (su_tick_update f6 s) = sub_inv s" "sub_inv (su_p2p_update f7 s) = sub_inv s"
  "sub_inv (su_startFail_update f8 s) = sub_inv s" "sub_inv (su_initialized_update f10 s) = sub_inv s"
  "sub_inv (su_sync_update f11 s) = sub_inv s" "sub_inv (su_local_update f13 s) = sub_inv s" "sub_inv (su_stake_update f14 s) = sub_inv s"
  "sub_inv (su_connected_update f15 s) = sub_inv s" "sub_inv (su_crashed_update f17 s) = sub_inv s"
  by (simp_all add: sub_inv_def)

lemma p2p_inv_frame [simp]:
  "p2p_inv (su_chain_update f1 s) = p2p_inv s" "p2p_inv (su_ready_update f2 s) = p2p_inv s" "p2p_inv (su_startFailure_update f3 s) = p2p_inv s"
  "p2p_inv (su_att_update f4 s) = p2p_inv s" "p2p_inv (su_core_update f5 s) = p2p_inv s" "p2p_inv (su_tick_update f6 s) = p2p_inv s"
  "p2p_inv (su_startFail_update f8 s) = p2p_inv s" "p2p_inv (su_sync_update f11 s) = p2p_inv s" "p2p_inv (su_slistener_update f12 s) = p2p_inv s"
  "p2p_inv (su_local_update f13 s) = p2p_inv s" "p2p_inv (su_stake_update f14 s) = p2p_inv s" "p2p_inv (su_connected_update f15 s) = p2p_inv s"
  "p2p_inv (su_validator_update f16 s) = p2p_inv s" "p2p_inv (su_crashed_update f17 s) = p2p_inv s"
  by (simp_all add: p2p_inv_def)

lemma sync_inv_frame [simp]:
  "sync_inv (su_chain_update f1 s) = sync_inv s" "sync_inv (su_ready_update f2 s) = sync_inv s"
  "sync_inv (su_startFailure_update f3 s) = sync_inv s" "sync_inv (su_att_update f4 s) = sync_inv s"
  "sync_inv (su_core_update f5 s) = sync_inv s" "sync_inv (su_tick_update f6 s) = sync_inv s" "sync_inv (su_p2p_update f7 s) = sync_inv s"
  "sync_inv (su_startFail_update f8 s) = sync_inv s" "sync_inv (su_listener_update f9 s) = sync_inv s"
  "sync_inv (su_initialized_update f10 s) = sync_inv s" "sync_inv (su_validator_update f16 s) = sync_inv s"
  "sync_inv (su_crashed_update f17 s) = sync_inv s"
  by (simp_all add: sync_inv_def)

lemma rest_inv_frame [simp]:
  "rest_inv e (su_startFailure_update f3 s) = rest_inv e s" "rest_inv e (su_att_update f4 s) = rest_inv e s"
  "rest_inv e (su_tick_update f6 s) = rest_inv e s" "rest_inv e (su_p2p_update f7 s) = rest_inv e s"
  "rest_inv e (su_startFail_update f8 s) = rest_inv e s" "rest_inv e (su_listener_update f9 s) = rest_inv e s"
  "rest_inv e (su_initialized_update f10 s) = rest_inv e s" "rest_inv e (su_sync_update f11 s) = rest_inv e s"
  "rest_inv e (su_slistener_update f12 s) = rest_inv e s" "rest_inv e (su_local_update f13 s) = rest_inv e s"
  "rest_inv e (su_stake_update f14 s) = rest_inv e s" "rest_inv e (su_connected_update f15 s) = rest_inv e s"
  by (simp_all add: rest_inv_def)

lemma bus_frame [simp]:
  "bs_subs b = bs_subs (su_bus s) \<Longrightarrow> bs_left b = bs_left (su_bus s) \<Longrightarrow> sub_inv (su_bus_update (\<lambda>_. b) s) = sub_inv s"
  "bs_got b P2P_ch = bs_got (su_bus s) P2P_ch \<Longrightarrow> p2p_inv (su_bus_update (\<lambda>_. b) s) = p2p_inv s"
  "bs_got b Sync_ch = bs_got (su_bus s) Sync_ch \<Longrightarrow> sync_inv (su_bus_update (\<lambda>_. b) s) = sync_inv s"
  "bs_got b Core_ch = bs_got (su_bus s) Core_ch \<Longrightarrow> bs_got b Validator_ch = bs_got (su_bus s) Validator_ch \<Longrightarrow> rest_inv e (su_bus_update (\<lambda>_. b) s) = rest_inv e s"
  by (simp_all add: sub_inv_def p2p_inv_def sync_inv_def rest_inv_def)

lemma bus_fields [simp]:
  "bs_subs (bus_begin p v b) = bs_subs b" "bs_left (bus_begin p v b) = bs_left b" "bs_got (bus_begin p v b) = bs_got b"
  "bs_subs (bus_end b) = bs_subs b" "bs_left (bus_end b) = bs_left b" "bs_got (bus_end b) = bs_got b" "sent (bus_end b) = sent b" "bs_send (bus_end b) = None"
  "bs_subs (bus_subscribe c b) = bs_subs b @ [c]" "bs_left (bus_subscribe c b) = bs_left b" "bs_got (bus_subscribe c b) = bs_got b"
  "sent (bus_subscribe c b) = sent b" "bs_send (bus_subscribe c b) = bs_send b"
  "bs_subs (bus_unsubscribe c b) = removeAll c (bs_subs b)" "bs_left (bus_unsubscribe c b) = insert c (bs_left b)"
  "bs_got (bus_unsubscribe c b) = bs_got b" "sent (bus_unsubscribe c b) = sent b"
  by (simp_all add: bus_begin_def bus_end_def bus_subscribe_def bus_unsubscribe_def sent_def fun_eq_iff)

lemma all_State: "(\<forall>v. P v) \<longleftrightarrow> P Initialized \<and> P LocalSynced \<and> P Synced \<and> P ConnectionHandlersReady \<and> P StakePoolInitialized \<and> P State.Connected"
  by (metis State.exhaust)

lemma sending_not_announced: "sending_at v s \<Longrightarrow> \<not> announced v s"
  by (cases v) auto

lemma sending_unique: "sending_at v s \<Longrightarrow> sending_at w s \<Longrightarrow> sender v = sender w \<Longrightarrow> v = w"
  by (cases v; cases w) auto

lemma begin_inv:
  assumes "start_inv e s" "bs_send (su_bus s) = None" "p = sender v" "sending_at v s"
  shows "start_inv e (s\<lparr>su_bus := bus_begin p v (su_bus s)\<rparr>)"
proof -
  let ?s = "s\<lparr>su_bus := bus_begin p v (su_bus s)\<rparr>"
  have i: "bus_ok (su_bus s)" "lock_inv s" "sub_inv s" "p2p_inv s" "sync_inv s" "rest_inv e s" using assms(1) by (auto simp: start_inv_def)
  have n: "\<not> sent (su_bus s) v" using i(2) sending_not_announced [OF assms(4)] assms(2) by (simp add: lock_inv_def)
  have at: "sending_at w ?s = sending_at w s" "announced w ?s = announced w s" for w by (cases w; simp)+
  have "sent (su_bus ?s) w \<longleftrightarrow> sent (su_bus s) w \<or> w = v" for w by (auto simp: sent_def bus_begin_def)
  then have "lock_inv ?s" using i(2) assms(2-4) unfolding lock_inv_def at by (auto simp: bus_begin_def)
  moreover have "bus_ok (su_bus ?s)" using begin_ok [OF i(1) assms(2) n] by simp
  ultimately show ?thesis using i by (simp add: start_inv_def)
qed

lemma sends_cases:
  assumes "sends p v k s = Some s'" "start_inv e s" "p = sender v" "sending_at v s"
  obtains "start_inv e s'"
  | "bs_send (su_bus s) = Some (p, v, [])" "s' = k (s\<lparr>su_bus := bus_end (su_bus s)\<rparr>)"
proof (cases "bs_send (su_bus s)")
  case None
  then have "s' = s\<lparr>su_bus := bus_begin p v (su_bus s)\<rparr>" using assms(1) by (simp add: sends_def)
  then show ?thesis using that(1) begin_inv [OF assms(2) None assms(3,4)] by simp
next
  case (Some x)
  then obtain w where w: "bs_send (su_bus s) = Some (p, w, [])" "s' = k (s\<lparr>su_bus := bus_end (su_bus s)\<rparr>)"
    using assms(1) by (auto simp: sends_def split: prod.splits if_splits)
  then have "p = sender w" "sending_at w s" using assms(2) by (auto simp: start_inv_def lock_inv_def)
  then have "w = v" using sending_unique [of w s v] assms(3,4) by metis
  then show ?thesis using that(2) [OF _ w(2)] w(1) by blast
qed

lemma start_invI: "bus_ok (su_bus s) \<Longrightarrow> lock_inv s \<Longrightarrow> sub_inv s \<Longrightarrow> p2p_inv s \<Longrightarrow> sync_inv s \<Longrightarrow> rest_inv e s \<Longrightarrow> start_inv e s"
  by (simp add: start_inv_def)

lemma start_invD: "start_inv e s \<Longrightarrow> bus_ok (su_bus s)" "start_inv e s \<Longrightarrow> lock_inv s" "start_inv e s \<Longrightarrow> sub_inv s"
  "start_inv e s \<Longrightarrow> p2p_inv s" "start_inv e s \<Longrightarrow> sync_inv s" "start_inv e s \<Longrightarrow> rest_inv e s"
  by (simp_all add: start_inv_def)

text \<open>A call that returns: the program counter of its goroutine moves past the call.\<close>

lemma end_lock:
  assumes "lock_inv s" "bs_send (su_bus s) = Some (p, v, [])" "bs_send (su_bus s') = None" "sent (su_bus s') = sent (su_bus s)"
    and "\<And>w. announced w s' \<longleftrightarrow> announced w s \<or> w = v"
  shows "lock_inv s'"
  using assms by (auto simp: lock_inv_def)

text \<open>A step that neither sends nor moves a goroutine from or to a call.\<close>

lemma move_lock:
  assumes "lock_inv s" "\<And>p v. (\<exists>cs. bs_send (su_bus s') = Some (p, v, cs)) \<longleftrightarrow> (\<exists>cs. bs_send (su_bus s) = Some (p, v, cs))"
    and "sent (su_bus s') = sent (su_bus s)"
    and "\<And>w. announced w s' = announced w s" "\<And>w. sending_at w s \<Longrightarrow> sending_at w s'"
  shows "lock_inv s'"
  using assms unfolding lock_inv_def by metis

lemma sends_inv:
  assumes "start_inv e s" "sends p v k s = Some s'" "p = sender v" "sending_at v s"
    and "\<And>s. su_bus (k s) = su_bus s" "\<And>w b. announced w (k (s\<lparr>su_bus := b\<rparr>)) \<longleftrightarrow> announced w s \<or> w = v"
    and "\<And>b. bs_got b = bs_got (su_bus s) \<Longrightarrow> bs_subs b = bs_subs (su_bus s) \<Longrightarrow> bs_left b = bs_left (su_bus s) \<Longrightarrow>
      sub_inv (k (s\<lparr>su_bus := b\<rparr>)) \<and> p2p_inv (k (s\<lparr>su_bus := b\<rparr>)) \<and> sync_inv (k (s\<lparr>su_bus := b\<rparr>)) \<and> rest_inv e (k (s\<lparr>su_bus := b\<rparr>))"
  shows "start_inv e s'"
  using assms(2,1,3,4)
proof (cases rule: sends_cases)
  case 2
  have "lock_inv s'" using start_invD(2) [OF assms(1)] by (rule end_lock [OF _ 2(1)]) (simp_all add: 2(2) assms(5,6))
  moreover have "bus_ok (su_bus s')" using end_ok [OF start_invD(1) [OF assms(1)] 2(1)] by (simp add: 2(2) assms(5))
  ultimately show ?thesis using assms(7) [of "bus_end (su_bus s)"] by (intro start_invI) (simp_all add: 2(2))
qed

lemma chain_inv:
  assumes inv: "start_inv e s" and env: "no_failure e" and step: "chain_step e (su_chain s) s = Some s'"
  shows "start_inv e s'"
proof (cases "su_chain s")
  case CSendInit
  have "announced w (s\<lparr>su_bus := b, su_chain := CSync\<rparr>) \<longleftrightarrow> announced w s \<or> w = Initialized" for w b by (cases w) (simp_all add: CSendInit)
  then show ?thesis using start_invD [OF inv] CSendInit by (intro sends_inv [OF inv step [unfolded CSendInit chain_step.simps]]) (simp_all add: rest_inv_def)
next
  case CSendLocal
  have "announced w (s\<lparr>su_bus := b, su_chain := CDone\<rparr>) \<longleftrightarrow> announced w s \<or> w = LocalSynced" for w b by (cases w) (simp_all add: CSendLocal)
  then show ?thesis using start_invD [OF inv] CSendLocal by (intro sends_inv [OF inv step [unfolded CSendLocal chain_step.simps]]) (simp_all add: rest_inv_def)
next
  case CInit
  have s': "s' = s\<lparr>su_chain := CSendInit\<rparr>" using step env by (simp add: CInit no_failure_def)
  have "announced w s' = announced w s" "sending_at w s \<Longrightarrow> sending_at w s'" for w by (cases w; simp add: s' CInit)+
  then have "lock_inv s'" by (intro move_lock [OF start_invD(2) [OF inv]]) (simp_all add: s')
  then show ?thesis using start_invD [OF inv] CInit by (intro start_invI) (simp_all add: s' rest_inv_def)
next
  case CSync
  have s': "s' = s\<lparr>su_chain := CSendLocal, su_ready := True\<rparr>" using step env by (simp add: CSync no_failure_def)
  have "announced w s' = announced w s" "sending_at w s \<Longrightarrow> sending_at w s'" for w by (cases w; simp add: s' CSync)+
  then have "lock_inv s'" by (intro move_lock [OF start_invD(2) [OF inv]]) (simp_all add: s')
  then show ?thesis using start_invD [OF inv] CSync by (intro start_invI) (simp_all add: s' rest_inv_def)
qed (use step in simp_all)

lemma att_inv:
  assumes inv: "start_inv e s" and env: "no_failure e" and step: "att_step e (su_att s) s = Some s'"
  shows "start_inv e s'"
proof (cases "su_att s")
  case ASend
  have "announced w (s\<lparr>su_bus := b, su_att := AListen\<rparr>) \<longleftrightarrow> announced w s \<or> w = StakePoolInitialized" for w b by (cases w) (simp_all add: ASend)
  then show ?thesis using start_invD [OF inv] ASend by (intro sends_inv [OF inv step [unfolded ASend att_step.simps]]) simp_all
next
  case AInit
  have s': "s' = s\<lparr>su_att := ASend\<rparr>" using step env by (simp add: AInit no_failure_def)
  have "announced w s' = announced w s" "sending_at w s \<Longrightarrow> sending_at w s'" for w by (cases w; simp add: s' AInit)+
  then have "lock_inv s'" by (intro move_lock [OF start_invD(2) [OF inv]]) (simp_all add: s')
  then show ?thesis using start_invD [OF inv] by (intro start_invI) (simp_all add: s')
qed (use step in simp_all)

lemma receives_cases:
  assumes "receives c k s = Some s'" "start_inv e s"
  obtains v b where "s' = k v (s\<lparr>su_bus := b\<rparr>)" "bus_ok b" "bs_got b = (bs_got (su_bus s))(c := bs_got (su_bus s) c @ [v])"
    "bs_subs b = bs_subs (su_bus s)" "bs_left b = bs_left (su_bus s)" "bs_send b = bs_send (su_bus s)" "sent b = sent (su_bus s)"
    "v \<notin> set (bs_got (su_bus s) c)" "sent (su_bus s) v"
proof -
  obtain v b where r: "bus_receive c (su_bus s) = Some (v, b)" and s': "s' = k v (s\<lparr>su_bus := b\<rparr>)" using assms(1) by (auto simp: receives_def)
  then obtain vs where vs: "bs_buf (su_bus s) c = v # vs"
    and b: "b = su_bus s\<lparr>bs_buf := (bs_buf (su_bus s))(c := vs), bs_got := (bs_got (su_bus s))(c := bs_got (su_bus s) c @ [v])\<rparr>"
    by (auto simp: bus_receive_def split: list.splits)
  have ok: "bus_ok (su_bus s)" using assms(2) by (rule start_invD)
  have "distinct (bs_got (su_bus s) c @ v # vs)" using bus_distinct [OF ok, of c] vs by simp
  moreover have "heard (su_bus s) c v" using arrived_heard [OF ok, of c v] vs by (simp add: arrived_def)
  ultimately show ?thesis using bus_receive_ok [OF ok r] heard_sent by (intro that [OF s']) (simp_all add: b sent_def fun_eq_iff)
qed

text \<open>Moving no program counter of a sender, and not touching the call that holds the lock.\<close>

lemma receive_lock:
  assumes "lock_inv s" "su_chain s' = su_chain s" "su_att s' = su_att s" "su_sync s' = su_sync s" "su_p2p s' = su_p2p s"
    and "sent (su_bus s') = sent (su_bus s)" "bs_send (su_bus s') = bs_send (su_bus s)"
  shows "lock_inv s'"
proof -
  have "announced w s' = announced w s" "sending_at w s \<Longrightarrow> sending_at w s'" for w using assms(2-5) by (cases w; simp)+
  then show ?thesis using assms(6,7) by (intro move_lock [OF assms(1)]) simp_all
qed

lemma core_inv:
  assumes inv: "start_inv e s" and env: "no_failure e" and step: "core_step e (su_core s) s = Some s'"
  shows "start_inv e s'"
proof (cases "su_core s")
  case OSubscribe
  have s': "s' = s\<lparr>su_bus := bus_subscribe Core_ch (su_bus s), su_core := OWait\<rparr>" using step by (simp add: OSubscribe)
  have "bus_ok (su_bus s')" using start_invD [OF inv] OSubscribe by (simp add: s' subscribe_ok sub_inv_def)
  then show ?thesis using start_invD [OF inv] OSubscribe by (intro start_invI) (simp_all add: s' receive_lock sub_inv_def rest_inv_def)
next
  case OWait
  from receives_cases [OF step [unfolded OWait core_step.simps] inv] obtain v b where R: "s' = core_state e v (s\<lparr>su_bus := b\<rparr>)" "bus_ok b"
    "bs_got b = (bs_got (su_bus s))(Core_ch := bs_got (su_bus s) Core_ch @ [v])" "bs_subs b = bs_subs (su_bus s)" "bs_left b = bs_left (su_bus s)"
    "bs_send b = bs_send (su_bus s)" "sent b = sent (su_bus s)" .
  have "su_core s' = (if v = Synced then OLoop else OWait)" using env OWait by (simp add: R(1) core_state_def no_failure_def)
  moreover have "p2p_inv s'" "sync_inv s'" using start_invD [OF inv] env
    by (simp_all add: R core_state_def no_failure_def)
  moreover have "su_bus s' = b" "su_chain s' = su_chain s" "su_att s' = su_att s" "su_sync s' = su_sync s" "su_p2p s' = su_p2p s" "su_listener s' = su_listener s"
    "su_slistener s' = su_slistener s" "su_validator s' = su_validator s" "su_crashed s' = su_crashed s" "su_ready s' = su_ready s"
    using env by (simp_all add: R(1) core_state_def no_failure_def)
  moreover from calculation have "lock_inv s'" using start_invD(2) [OF inv] R(6,7) by (intro receive_lock [of s s']) simp_all
  ultimately show ?thesis using start_invD [OF inv] R(2-) OWait by (intro start_invI) (simp_all add: sub_inv_def rest_inv_def)
qed (use step in simp_all)

lemma validator_inv:
  assumes inv: "start_inv e s" and env: "no_failure e" and step: "validator_step e (su_validator s) s = Some s'"
  shows "start_inv e s'"
proof (cases "su_validator s")
  case VSubscribe
  have s': "s' = s\<lparr>su_bus := bus_subscribe Validator_ch (su_bus s), su_validator := VWait\<rparr>" using step by (simp add: VSubscribe)
  have "bus_ok (su_bus s')" using start_invD [OF inv] VSubscribe by (simp add: s' subscribe_ok sub_inv_def)
  then show ?thesis using start_invD [OF inv] VSubscribe by (intro start_invI) (simp_all add: s' receive_lock sub_inv_def rest_inv_def)
next
  case VWait
  from receives_cases [OF step [unfolded VWait validator_step.simps] inv] obtain v b where R: "s' = validator_state e v (s\<lparr>su_bus := b\<rparr>)" "bus_ok b"
    "bs_got b = (bs_got (su_bus s))(Validator_ch := bs_got (su_bus s) Validator_ch @ [v])" "bs_subs b = bs_subs (su_bus s)" "bs_left b = bs_left (su_bus s)"
    "bs_send b = bs_send (su_bus s)" "sent b = sent (su_bus s)" .
  have l: "lock_inv (s\<lparr>su_bus := b\<rparr>)" using start_invD(2) [OF inv] by (rule receive_lock) (simp_all add: R)
  show ?thesis
  proof (cases "v = Synced")
    case True
    have s': "s' = s\<lparr>su_bus := bus_unsubscribe Validator_ch b, su_validator := VLoop\<rparr>"
      using env by (simp add: R(1) True validator_state_def no_failure_def)
    have "announced w s' = announced w (s\<lparr>su_bus := b\<rparr>)" "sending_at w (s\<lparr>su_bus := b\<rparr>) \<Longrightarrow> sending_at w s'" for w by (cases w; simp add: s')+
    then have "lock_inv s'" by (intro move_lock [OF l]) (auto simp: s' bus_unsubscribe_def sent_def fun_eq_iff)
    then show ?thesis using start_invD [OF inv] unsubscribe_ok [OF R(2)] VWait by (intro start_invI) (auto simp: s' R True sub_inv_def rest_inv_def)
  next
    case False
    then have "s' = s\<lparr>su_bus := b\<rparr>" by (simp add: R(1) validator_state_def)
    then show ?thesis using start_invD [OF inv] l False VWait R by (intro start_invI) (simp_all add: rest_inv_def)
  qed
qed (use step in simp_all)

lemma sync_listener_inv:
  assumes inv: "start_inv e s" and step: "sync_listener_step (su_slistener s) s = Some s'"
  shows "start_inv e s'"
proof (cases "su_slistener s")
  case TSubscribe
  have s': "s' = s\<lparr>su_bus := bus_subscribe Sync_ch (su_bus s), su_slistener := TReceive\<rparr>" using step by (simp add: TSubscribe)
  have "bus_ok (su_bus s')" using start_invD [OF inv] TSubscribe by (simp add: s' subscribe_ok sub_inv_def)
  then show ?thesis using start_invD [OF inv] TSubscribe by (intro start_invI) (simp_all add: s' receive_lock sub_inv_def sync_inv_def)
next
  case TReceive
  from receives_cases [OF step [unfolded TReceive sync_listener_step.simps] inv] obtain v b where R: "s' = sync_state v (s\<lparr>su_bus := b\<rparr>)" "bus_ok b"
    "bs_got b = (bs_got (su_bus s))(Sync_ch := bs_got (su_bus s) Sync_ch @ [v])" "bs_subs b = bs_subs (su_bus s)" "bs_left b = bs_left (su_bus s)"
    "bs_send b = bs_send (su_bus s)" "sent b = sent (su_bus s)" and new: "v \<notin> set (bs_got (su_bus s) Sync_ch)" .
  have i: "sub_inv s" "p2p_inv s" "sync_inv s" "rest_inv e s" "lock_inv s" using start_invD [OF inv] by simp_all
  have "sub_inv s' \<and> p2p_inv s' \<and> rest_inv e s' \<and> su_bus s' = b" using i new by (cases v) (auto simp: R sync_inv_def)
  moreover have "sync_inv s'" using i(3) new by (cases v) (simp_all add: R sync_inv_def)
  moreover have "lock_inv s'" using i(3) new by (intro receive_lock [OF i(5)]; cases v; simp add: R sync_inv_def)
  ultimately show ?thesis using R(2) by (intro start_invI) simp_all
qed (use step in simp_all)

lemma sync_start_inv:
  assumes inv: "start_inv e s" and env: "no_failure e" and step: "sync_step e (su_sync s) s = Some s'"
  shows "start_inv e s'"
proof -
  have i: "bus_ok (su_bus s)" "lock_inv s" "sub_inv s" "p2p_inv s" "sync_inv s" "rest_inv e s" using start_invD [OF inv] by simp_all
  have move: "lock_inv (s\<lparr>su_sync := y\<rparr>)"
    if "su_sync s = x" "(x, y) \<in> {(SWaitLocal, SWaitStake), (SWaitStake, SWaitConnected), (SWaitConnected, SNetwork), (SNetwork, SSend)}" for x y
  proof -
    have "announced w (s\<lparr>su_sync := y\<rparr>) = announced w s" "sending_at w s \<Longrightarrow> sending_at w (s\<lparr>su_sync := y\<rparr>)" for w using that by (cases w; auto)+
    then show ?thesis by (intro move_lock [OF i(2)]) simp_all
  qed
  show ?thesis
  proof (cases "su_sync s")
    case SReady
    have "announced w (s\<lparr>su_bus := b, su_sync := SWaitLocal\<rparr>) \<longleftrightarrow> announced w s \<or> w = ConnectionHandlersReady" for w b by (cases w) (simp_all add: SReady)
    then show ?thesis using i SReady by (intro sends_inv [OF inv step [unfolded SReady sync_step.simps]]) (simp_all add: sync_inv_def)
  next
    case SSend
    have "announced w (s\<lparr>su_bus := b, su_sync := SDone\<rparr>) \<longleftrightarrow> announced w s \<or> w = Synced" for w b by (cases w) (simp_all add: SSend)
    then show ?thesis using i SSend by (intro sends_inv [OF inv step [unfolded SSend sync_step.simps]]) (simp_all add: sync_inv_def)
  next
    case SSpawn
    have s': "s' = s\<lparr>su_slistener := TSubscribe, su_sync := SReady\<rparr>" using step by (simp add: SSpawn)
    have "announced w s' = announced w s" "sending_at w s \<Longrightarrow> sending_at w s'" for w by (cases w; simp add: s' SSpawn)+
    then have "lock_inv s'" by (intro move_lock [OF i(2)]) (simp_all add: s')
    then show ?thesis using i SSpawn by (intro start_invI) (simp_all add: s' sync_inv_def sub_inv_def)
  next
    case SNetwork
    have s': "s' = s\<lparr>su_sync := SSend\<rparr>" using step env by (auto simp: SNetwork no_failure_def)
    show ?thesis using i move [OF SNetwork] SNetwork by (intro start_invI) (simp_all add: s' sync_inv_def)
  qed (use i move step in \<open>auto simp: sync_inv_def intro!: start_invI split: if_splits\<close>)
qed

lemma sent_needs:
  assumes "start_inv e s"
  shows "sent (su_bus s) v \<Longrightarrow> sending_at v s \<or> announced v s" "arrived (su_bus s) c v \<Longrightarrow> sent (su_bus s) v"
proof -
  show "sent (su_bus s) v \<Longrightarrow> sending_at v s \<or> announced v s" using start_invD(2) [OF assms] unfolding lock_inv_def by blast
  show "arrived (su_bus s) c v \<Longrightarrow> sent (su_bus s) v" using arrived_heard [OF start_invD(1) [OF assms]] heard_sent by blast
qed

text \<open>The final announcement comes after the network service has announced its connections.\<close>

lemma synced_after_connected:
  assumes "start_inv e s" "sent (su_bus s) Synced"
  shows "su_p2p s \<in> {PSend, PWaitSync, PTopics, PRead}"
proof -
  have "su_sync s \<in> {SSend, SDone}" using sent_needs(1) [OF assms] by simp
  then have "State.Connected \<in> set (bs_got (su_bus s) Sync_ch)" using start_invD(5) [OF assms(1)] unfolding sync_inv_def by blast
  then have "sent (su_bus s) State.Connected" using sent_needs(2) [OF assms(1)] by (auto simp: arrived_def)
  then show ?thesis using sent_needs(1) [OF assms(1)] by fastforce
qed

lemma p2p_start_inv:
  assumes inv: "start_inv e s" and env: "no_failure e" and step: "p2p_step e (su_p2p s) s = Some s'"
  shows "start_inv e s'"
proof -
  have i: "bus_ok (su_bus s)" "lock_inv s" "sub_inv s" "p2p_inv s" "sync_inv s" "rest_inv e s" using start_invD [OF inv] by simp_all
  have closed: "su_initialized s \<Longrightarrow> su_p2p s \<in> {PSend, PWaitSync, PTopics, PRead}"
    using i(4) sent_needs(2) [OF inv, of P2P_ch Synced] synced_after_connected [OF inv] by (simp add: p2p_inv_def arrived_def)
  have move: "lock_inv (s\<lparr>su_p2p := y\<rparr>)"
    if "su_p2p s = x" "(x, y) \<in> {(PConnect, PSend), (PWaitSync, PTopics), (PTopics, PRead)}" for x y
  proof -
    have "announced w (s\<lparr>su_p2p := y\<rparr>) = announced w s" "sending_at w s \<Longrightarrow> sending_at w (s\<lparr>su_p2p := y\<rparr>)" for w using that by (cases w; auto)+
    then show ?thesis by (intro move_lock [OF i(2)]) simp_all
  qed
  show ?thesis
  proof (cases "su_p2p s")
    case PSpawn
    have s': "s' = s\<lparr>su_listener := LReceive, su_p2p := PWait\<rparr>" using step by (simp add: PSpawn)
    have "announced w s' = announced w s" "sending_at w s \<Longrightarrow> sending_at w s'" for w by (cases w; simp add: s' PSpawn)+
    then have "lock_inv s'" by (intro move_lock [OF i(2)]) (simp_all add: s')
    then show ?thesis using i PSpawn by (intro start_invI) (auto simp: s' p2p_inv_def sub_inv_def)
  next
    case PWait
    then show ?thesis using closed step by (simp split: if_splits)
  next
    case PConnect
    have "s' = s\<lparr>su_p2p := PSend\<rparr>" using step env by (simp add: PConnect no_failure_def)
    then show ?thesis using i move [OF PConnect] PConnect by (intro start_invI) (simp_all add: p2p_inv_def)
  next
    case PSend
    have "announced w (s\<lparr>su_bus := b, su_p2p := PWaitSync\<rparr>) \<longleftrightarrow> announced w s \<or> w = State.Connected" for w b by (cases w) (simp_all add: PSend)
    then show ?thesis using i PSend by (intro sends_inv [OF inv step [unfolded PSend p2p_step.simps]]) (simp_all add: p2p_inv_def)
  next
    case PWaitSync
    have "s' = s\<lparr>su_p2p := PTopics\<rparr>" "su_initialized s" using step by (simp_all add: PWaitSync split: if_splits)
    then show ?thesis using i move [OF PWaitSync] PWaitSync by (intro start_invI) (auto simp: p2p_inv_def)
  next
    case PTopics
    have "s' = s\<lparr>su_p2p := PRead\<rparr>" using step env by (simp add: PTopics no_failure_def)
    then show ?thesis using i move [OF PTopics] PTopics by (intro start_invI) (auto simp: p2p_inv_def)
  qed (use step in simp_all)
qed

lemma p2p_listener_inv:
  assumes inv: "start_inv e s" and step: "p2p_listener_step (su_listener s) s = Some s'"
  shows "start_inv e s'"
proof -
  have i: "bus_ok (su_bus s)" "lock_inv s" "sub_inv s" "p2p_inv s" "sync_inv s" "rest_inv e s" using start_invD [OF inv] by simp_all
  show ?thesis
  proof (cases "su_listener s")
    case LPush
    then have w: "su_p2p s = PWait" using i(4) by (simp add: p2p_inv_def)
    have s': "s' = s\<lparr>su_listener := LReceive, su_p2p := PConnect\<rparr>" using step by (simp add: LPush w)
    have "announced x s' = announced x s" "sending_at x s \<Longrightarrow> sending_at x s'" for x by (cases x; simp add: s' w)+
    then have "lock_inv s'" by (intro move_lock [OF i(2)]) (simp_all add: s')
    then show ?thesis using i LPush by (intro start_invI) (simp_all add: s' p2p_inv_def sub_inv_def)
  next
    case LReceive
    from receives_cases [OF step [unfolded LReceive p2p_listener_step.simps] inv] obtain v b where R: "s' = p2p_state v (s\<lparr>su_bus := b\<rparr>)" "bus_ok b"
      "bs_got b = (bs_got (su_bus s))(P2P_ch := bs_got (su_bus s) P2P_ch @ [v])" "bs_subs b = bs_subs (su_bus s)" "bs_left b = bs_left (su_bus s)"
      "bs_send b = bs_send (su_bus s)" "sent b = sent (su_bus s)" and new: "v \<notin> set (bs_got (su_bus s) P2P_ch)" .
    have l: "lock_inv (s\<lparr>su_bus := b\<rparr>)" using i(2) by (rule receive_lock) (simp_all add: R)
    show ?thesis
    proof (cases "v = Synced")
      case True
      have s': "s' = s\<lparr>su_bus := bus_unsubscribe P2P_ch b, su_initialized := True, su_listener := LExit\<rparr>"
        using i(4) new by (simp add: R(1) True p2p_state_def p2p_inv_def)
      have "announced w s' = announced w (s\<lparr>su_bus := b\<rparr>)" "sending_at w (s\<lparr>su_bus := b\<rparr>) \<Longrightarrow> sending_at w s'" for w by (cases w; simp add: s')+
      then have "lock_inv s'" by (intro move_lock [OF l]) (auto simp: s' bus_unsubscribe_def sent_def fun_eq_iff)
      then show ?thesis using i unsubscribe_ok [OF R(2)] LReceive by (intro start_invI) (auto simp: s' R True sub_inv_def p2p_inv_def)
    next
      case False
      define t where "t = s\<lparr>su_bus := b\<rparr>"
      have "s' = (if v = ConnectionHandlersReady then t\<lparr>su_listener := LPush\<rparr> else t)" using False by (simp add: R(1) t_def p2p_state_def)
      moreover have "lock_inv s'" using l by (rule receive_lock) (simp_all add: calculation t_def)
      ultimately show ?thesis using i False LReceive R(2-) new by (intro start_invI) (auto simp: t_def sub_inv_def p2p_inv_def)
    qed
  qed (use step in simp_all)
qed

lemma delivery_inv:
  assumes inv: "start_inv e s" and d: "bus_deliver c (su_bus s) = Some b"
  shows "start_inv e (s\<lparr>su_bus := b\<rparr>)"
proof -
  obtain p v cs where s: "bs_send (su_bus s) = Some (p, v, cs)"
    and b: "b = su_bus s\<lparr>bs_send := Some (p, v, removeAll c cs), bs_buf := (bs_buf (su_bus s))(c := bs_buf (su_bus s) c @ [v])\<rparr>"
    using d by (auto simp: bus_deliver_def split: option.splits prod.splits if_splits)
  let ?s = "s\<lparr>su_bus := b\<rparr>"
  have "announced w ?s = announced w s" "sending_at w s \<Longrightarrow> sending_at w ?s" for w by (cases w; simp)+
  then have "lock_inv ?s" by (intro move_lock [OF start_invD(2) [OF inv]]) (simp_all add: s b sent_def fun_eq_iff)
  then show ?thesis using start_invD [OF inv] deliver_ok [OF _ d] by (intro start_invI) (simp_all add: b)
qed

lemma start_step_inv:
  assumes "start_inv e s" "no_failure e" "start_step e a s = Some s'"
  shows "start_inv e s'"
proof (cases a)
  case (Run p)
  then have "goroutine e p s = Some s'" using assms(3) by (simp add: start_step_def split: if_splits)
  then show ?thesis using chain_inv [OF assms(1,2)] att_inv [OF assms(1,2)] core_inv [OF assms(1,2)] p2p_start_inv [OF assms(1,2)]
      p2p_listener_inv [OF assms(1)] sync_start_inv [OF assms(1,2)] sync_listener_inv [OF assms(1)] validator_inv [OF assms(1,2)]
    by (cases p) simp_all
next
  case (Deliver c)
  then show ?thesis using assms(3) delivery_inv [OF assms(1)] by (auto simp: start_step_def split: if_splits)
qed

lemma start_run_inv: "start_inv e s \<Longrightarrow> no_failure e \<Longrightarrow> start_run e as s = Some s' \<Longrightarrow> start_inv e s'"
  by (induction as arbitrary: s) (auto split: option.splits dest: start_step_inv)

subsection \<open>A start at rest\<close>

lemma sending_step:
  assumes "su_crashed s = None" "sending_at v s"
  obtains k where "start_step e (Run (sender v)) s = sends (sender v) v k s"
  using assms by (cases v) (auto simp: start_step_def)

text \<open>A step changes the history of the feed only by beginning a call.\<close>

lemma sends_log:
  "sends p v k s = Some s' \<Longrightarrow> (\<And>s. su_bus (k s) = su_bus s) \<Longrightarrow>
    bs_log (su_bus s') = bs_log (su_bus s) \<or> bs_send (su_bus s) = None \<and> s' = s\<lparr>su_bus := bus_begin p v (su_bus s)\<rparr>"
  by (auto simp: sends_def bus_end_def split: option.splits prod.splits if_splits)

lemma receives_log:
  "receives c k s = Some s' \<Longrightarrow> (\<And>v s. bs_log (su_bus (k v s)) = bs_log (su_bus s)) \<Longrightarrow> bs_log (su_bus s') = bs_log (su_bus s)"
  by (auto simp: receives_def bus_receive_def split: list.splits)

lemma state_log:
  "bs_log (su_bus (core_state e v s)) = bs_log (su_bus s)" "bs_log (su_bus (p2p_state v s)) = bs_log (su_bus s)"
  "bs_log (su_bus (sync_state v s)) = bs_log (su_bus s)" "bs_log (su_bus (validator_state e v s)) = bs_log (su_bus s)"
  by (simp_all add: core_state_def p2p_state_def validator_state_def crash_def bus_unsubscribe_def) (cases v; simp add: crash_def)

lemma goroutine_log:
  assumes "goroutine e p s = Some s'"
  shows "bs_log (su_bus s') = bs_log (su_bus s) \<or> (\<exists>v. sending_at v s \<and> bs_send (su_bus s) = None \<and> s' = s\<lparr>su_bus := bus_begin (sender v) v (su_bus s)\<rparr>)"
proof -
  have begins: "sending_at v s \<Longrightarrow> p = sender v \<Longrightarrow> goroutine e p s = sends p v k s \<Longrightarrow> (\<And>s. su_bus (k s) = su_bus s) \<Longrightarrow> ?thesis" for v k
    using sends_log [of p v k s s'] assms by auto
  show ?thesis
  proof (cases p)
    case Chain_Start
    then show ?thesis using assms begins [of Initialized "su_chain_update (\<lambda>_. CSync)"] begins [of LocalSynced "su_chain_update (\<lambda>_. CDone)"] by (cases "su_chain s") (auto split: option.splits)
  next
    case Att_Start
    then show ?thesis using assms begins [of StakePoolInitialized "su_att_update (\<lambda>_. AListen)"] by (cases "su_att s") (auto simp: crash_def split: option.splits)
  next
    case P2P_Start
    then show ?thesis using assms begins [of State.Connected "su_p2p_update (\<lambda>_. PWaitSync)"] by (cases "su_p2p s") (auto split: option.splits if_splits)
  next
    case Sync_Start
    then show ?thesis using assms begins [of ConnectionHandlersReady "su_sync_update (\<lambda>_. SWaitLocal)"] begins [of Synced "su_sync_update (\<lambda>_. SDone)"] by (cases "su_sync s") (auto simp: crash_def split: option.splits if_splits)
  next
    case Core_Start
    then show ?thesis using assms by (cases "su_core s") (auto simp: bus_subscribe_def state_log dest!: receives_log)
  next
    case P2P_listener
    then show ?thesis using assms by (cases "su_listener s") (auto simp: state_log split: if_splits dest!: receives_log)
  next
    case Sync_listener
    then show ?thesis using assms by (cases "su_slistener s") (auto simp: bus_subscribe_def state_log dest!: receives_log)
  next
    case Validator_Start
    then show ?thesis using assms by (cases "su_validator s") (auto simp: bus_subscribe_def state_log dest!: receives_log)
  qed
qed

lemma start_step_log:
  assumes "start_step e a s = Some s'"
  shows "bs_log (su_bus s') = bs_log (su_bus s) \<or> (\<exists>v. sending_at v s \<and> bs_send (su_bus s) = None \<and> s' = s\<lparr>su_bus := bus_begin (sender v) v (su_bus s)\<rparr>)"
proof (cases a)
  case (Run p)
  then show ?thesis using assms by (intro goroutine_log) (simp add: start_step_def split: if_splits)
next
  case (Deliver c)
  then show ?thesis using assms by (auto simp: start_step_def bus_deliver_def split: if_splits option.splits prod.splits)
qed

text \<open>The network service, which subscribes before the start, misses neither of the two states it waits for.\<close>

definition p2p_hears :: "startup \<Rightarrow> bool" where
  "p2p_hears s \<longleftrightarrow> (\<forall>v \<in> {ConnectionHandlersReady, Synced}. sent (su_bus s) v \<longrightarrow> heard (su_bus s) P2P_ch v)"

lemma p2p_hears_step:
  assumes "start_inv e s" "p2p_hears s" "start_step e a s = Some s'"
  shows "p2p_hears s'"
  using start_step_log [OF assms(3)]
proof (elim disjE exE conjE)
  assume "bs_log (su_bus s') = bs_log (su_bus s)"
  then show ?thesis using assms(2) by (simp add: p2p_hears_def sent_def heard_def)
next
  fix v assume v: "sending_at v s" "bs_send (su_bus s) = None" "s' = s\<lparr>su_bus := bus_begin (sender v) v (su_bus s)\<rparr>"
  have "P2P_ch \<in> set (bs_subs (su_bus s))" if "v \<in> {ConnectionHandlersReady, Synced}"
  proof (rule ccontr)
    assume "P2P_ch \<notin> set (bs_subs (su_bus s))"
    then have "Synced \<in> set (bs_got (su_bus s) P2P_ch)" using start_invD(3,4) [OF assms(1)] by (simp add: sub_inv_def p2p_inv_def)
    then have "sent (su_bus s) Synced" using sent_needs(2) [OF assms(1), of P2P_ch] by (simp add: arrived_def)
    then have "announced Synced s" using start_invD(2) [OF assms(1)] v(2) by (simp add: lock_inv_def)
    then show False using that v(1) by auto
  qed
  then have "heard (su_bus s') P2P_ch v" if "v \<in> {ConnectionHandlersReady, Synced}" using that by (auto simp: heard_def bus_begin_def v(3))
  moreover have "sent (su_bus s') w \<longleftrightarrow> sent (su_bus s) w \<or> w = v" "heard (su_bus s) P2P_ch w \<Longrightarrow> heard (su_bus s') P2P_ch w" for w
    by (auto simp: sent_def heard_def bus_begin_def v(3))
  ultimately show ?thesis using assms(2) unfolding p2p_hears_def by blast
qed

lemma missed_iff: "missed s c v \<longleftrightarrow> (\<exists>cs. (v, cs) \<in> set (bs_log (su_bus s)) \<and> c \<notin> set cs)"
  by (auto simp: missed_def list_ex_iff)

lemma heard_iff: "bus_ok (su_bus s) \<Longrightarrow> sent (su_bus s) v \<Longrightarrow> heard (su_bus s) c v \<longleftrightarrow> \<not> missed s c v"
  unfolding missed_iff heard_def sent_def bus_ok_def by (metis (mono_tags, lifting) eq_key_imp_eq_value imageE prod.collapse)

text \<open>What is known of a state in which no goroutine and no delivery can go on.\<close>

lemma at_rest_D:
  assumes "at_rest e s" "su_crashed s = None"
  shows "goroutine e p s = None" "bus_deliver c (su_bus s) = None"
proof -
  have "start_step e (Run p) s = None" using assms(1) by (cases p) (simp_all add: at_rest_def actions_def)
  then show "goroutine e p s = None" using assms(2) by (simp add: start_step_def)
  have "start_step e (Deliver c) s = None" using assms(1) by (cases c) (simp_all add: at_rest_def actions_def)
  then show "bus_deliver c (su_bus s) = None" using assms(2) by (simp add: start_step_def)
qed

lemma receives_None: "receives c k s = None \<longleftrightarrow> bs_buf (su_bus s) c = []"
  by (auto simp: receives_def bus_receive_def split: list.splits)

lemma sends_None: "sends p v k s = None \<longleftrightarrow> (\<exists>q w cs. bs_send (su_bus s) = Some (q, w, cs) \<and> (q \<noteq> p \<or> cs \<noteq> []))"
  by (auto simp: sends_def split: option.splits)

lemma rest_drained:
  assumes "start_inv e s" "at_rest e s" "c \<in> set (bs_subs (su_bus s))" "c = Core_ch \<longrightarrow> su_core s = OWait"
  shows "bs_buf (su_bus s) c = []"
proof -
  note i = start_invD [OF assms(1)]
  have cr: "su_crashed s = None" using i(6) by (simp add: rest_inv_def)
  note g = at_rest_D(1) [OF assms(2) cr]
  show ?thesis
  proof (cases c)
    case P2P_ch
    have "su_listener s \<noteq> LOff" using g [of P2P_Start] i(4) by (auto simp: p2p_inv_def)
    moreover have "su_listener s \<noteq> LPush" using g [of P2P_listener] i(4) by (auto simp: p2p_inv_def)
    moreover have "su_listener s \<noteq> LExit" using assms(3) i(3) P2P_ch by (simp add: sub_inv_def)
    ultimately have "su_listener s = LReceive" by (cases "su_listener s") auto
    then show ?thesis using g [of P2P_listener] by (simp add: P2P_ch receives_None)
  next
    case Core_ch
    then show ?thesis using g [of Core_Start] assms(4) by (simp add: receives_None)
  next
    case Sync_ch
    then have "su_slistener s = TReceive" using assms(3) i(3) by (simp add: sub_inv_def)
    then show ?thesis using g [of Sync_listener] by (simp add: Sync_ch receives_None)
  next
    case Validator_ch
    then have "su_validator s = VWait" using assms(3) i(3) by (simp add: sub_inv_def)
    then show ?thesis using g [of Validator_Start] by (simp add: Validator_ch receives_None)
  qed
qed

lemma rest_unlocked:
  assumes "start_inv e s" "at_rest e s"
  shows "bs_send (su_bus s) = None"
proof (rule ccontr)
  note i = start_invD [OF assms(1)]
  have cr: "su_crashed s = None" using i(6) by (simp add: rest_inv_def)
  assume "bs_send (su_bus s) \<noteq> None"
  then obtain p v cs where l: "bs_send (su_bus s) = Some (p, v, cs)" by auto
  then have pv: "p = sender v" "sending_at v s" using i(2) by (auto simp: lock_inv_def)
  obtain k where k: "start_step e (Run (sender v)) s = sends (sender v) v k s" using sending_step [OF cr pv(2)] .
  then have "sends (sender v) v k s = None" using at_rest_D(1) [OF assms(2) cr] cr by (simp add: start_step_def)
  then have "cs \<noteq> []" using l pv(1) by (simp add: sends_None)
  then obtain c where c: "c \<in> set cs" by (cases cs) auto
  then have sub: "c \<in> set (bs_subs (su_bus s))" using i(1) l unfolding bus_ok_def by blast
  have full: "capacity c \<le> length (bs_buf (su_bus s) c)" using at_rest_D(2) [OF assms(2) cr, of c] l c by (simp add: bus_deliver_def split: if_splits)
  show False
  proof (cases "c = Core_ch")
    case True
    then show False using full distinct_states [OF bus_distinct [OF i(1), of c]] by simp
  next
    case False
    then have "bs_buf (su_bus s) c = []" using rest_drained [OF assms sub] by blast
    then show False using full by (cases c) simp_all
  qed
qed

lemma rest_received:
  assumes "start_inv e s" "at_rest e s" "c \<in> set (bs_subs (su_bus s))" "c = Core_ch \<longrightarrow> su_core s = OWait" "heard (su_bus s) c v"
  shows "v \<in> set (bs_got (su_bus s) c)"
proof -
  have ok: "bus_ok (su_bus s)" by (rule start_invD(1) [OF assms(1)])
  have "\<not> pending (su_bus s) c v" using rest_unlocked [OF assms(1,2)] by (simp add: pending_def)
  moreover have "c \<notin> bs_left (su_bus s)" using ok assms(3) unfolding bus_ok_def by blast
  ultimately have "arrived (su_bus s) c v" using ok assms(5) unfolding bus_ok_def by blast
  then show ?thesis using rest_drained [OF assms(1-4)] by (simp add: arrived_def)
qed

text \<open>Where the goroutines are at rest.\<close>

lemma rest_places:
  assumes "start_inv e s" "no_failure e" "at_rest e s" "p2p_hears s"
  shows "su_chain s = CDone" "su_att s = AListen" "su_core s \<in> {OWait, OLoop}" "su_slistener s = TReceive" "su_p2p s \<in> {PWaitSync, PRead}"
    "su_sync s \<in> {SWaitLocal, SWaitStake, SWaitConnected, SDone}" "su_validator s \<in> {VOff, VWait, VLoop}"
proof -
  note i = start_invD [OF assms(1)]
  have cr: "su_crashed s = None" using i(6) by (simp add: rest_inv_def)
  note g = at_rest_D(1) [OF assms(3) cr]
  have u: "bs_send (su_bus s) = None" by (rule rest_unlocked [OF assms(1,3)])
  show c: "su_chain s = CDone" using g [of Chain_Start] u i(6) assms(2) by (cases "su_chain s") (auto simp: sends_None rest_inv_def)
  show "su_att s = AListen" using g [of Att_Start] u by (cases "su_att s") (auto simp: sends_None)
  show "su_core s \<in> {OWait, OLoop}" using g [of Core_Start] by (cases "su_core s") auto
  show "su_validator s \<in> {VOff, VWait, VLoop}" using g [of Validator_Start] by (cases "su_validator s") auto
  show y: "su_sync s \<in> {SWaitLocal, SWaitStake, SWaitConnected, SDone}" using g [of Sync_Start] u by (cases "su_sync s") (auto simp: sends_None)
  show "su_slistener s = TReceive" using g [of Sync_listener] y i(5) by (cases "su_slistener s") (auto simp: sync_inv_def)
  have "su_p2p s \<noteq> PWait"
  proof
    assume w: "su_p2p s = PWait"
    have "sent (su_bus s) ConnectionHandlersReady" using y i(2) by (auto simp: lock_inv_def)
    then have h: "heard (su_bus s) P2P_ch ConnectionHandlersReady" using assms(4) by (simp add: p2p_hears_def)
    have "su_listener s \<noteq> LExit" using synced_after_connected [OF assms(1)] sent_needs(2) [OF assms(1), of P2P_ch Synced] w i(4)
      by (auto simp: p2p_inv_def arrived_def)
    then have "P2P_ch \<in> set (bs_subs (su_bus s))" using i(3) by (simp add: sub_inv_def)
    then have "ConnectionHandlersReady \<in> set (bs_got (su_bus s) P2P_ch)" using rest_received [OF assms(1,3) _ _ h] by simp
    then have "su_listener s = LPush" using i(4) w by (simp add: p2p_inv_def)
    then show False using g [of P2P_listener] w by simp
  qed
  then show "su_p2p s \<in> {PWaitSync, PRead}" using g [of P2P_Start] u i(4) by (cases "su_p2p s") (auto simp: sends_None p2p_inv_def)
qed

lemma announced_sent: "start_inv e s \<Longrightarrow> announced v s \<Longrightarrow> sent (su_bus s) v"
  using start_invD(2) by (simp add: lock_inv_def)

lemma got_not_missed: "start_inv e s \<Longrightarrow> v \<in> set (bs_got (su_bus s) c) \<Longrightarrow> \<not> missed s c v"
  using heard_iff [OF start_invD(1)] heard_sent arrived_heard [OF start_invD(1), of e s c v] unfolding arrived_def by blast

lemma rest_sync:
  assumes inv: "start_inv e s" and env: "no_failure e" and rest: "at_rest e s" and p2p: "p2p_hears s"
  shows "su_sync s = SDone \<longleftrightarrow> (\<forall>v \<in> {LocalSynced, StakePoolInitialized, State.Connected}. \<not> missed s Sync_ch v)"
proof
  assume "su_sync s = SDone"
  then show "\<forall>v \<in> {LocalSynced, StakePoolInitialized, State.Connected}. \<not> missed s Sync_ch v"
    using start_invD(5) [OF inv] by (auto simp: sync_inv_def intro!: got_not_missed [OF inv])
next
  note P = rest_places [OF inv env rest p2p]
  assume a: "\<forall>v \<in> {LocalSynced, StakePoolInitialized, State.Connected}. \<not> missed s Sync_ch v"
  have got: "v \<in> set (bs_got (su_bus s) Sync_ch)" if "sent (su_bus s) v" "\<not> missed s Sync_ch v" for v
    using that heard_iff [OF start_invD(1) [OF inv]] P(4) start_invD(3) [OF inv] by (intro rest_received [OF inv rest]) (simp_all add: sub_inv_def)
  have "sent (su_bus s) LocalSynced" "sent (su_bus s) StakePoolInitialized" "sent (su_bus s) State.Connected"
    using P(1,2,5) by (auto intro!: announced_sent [OF inv])
  then have "su_local s \<and> su_stake s \<and> su_connected s" using a start_invD(5) [OF inv] got by (simp add: sync_inv_def)
  moreover have "su_crashed s = None" using start_invD(6) [OF inv] by (simp add: rest_inv_def)
  ultimately show "su_sync s = SDone" using at_rest_D(1) [OF rest, of Sync_Start] P(6) by auto
qed

text \<open>The services that wait for the last announcement.\<close>

lemma rest_last:
  assumes inv: "start_inv e s" and env: "no_failure e" and rest: "at_rest e s" and p2p: "p2p_hears s" and y: "su_sync s = SDone"
  shows "su_core s = OLoop \<longleftrightarrow> \<not> missed s Core_ch Synced" "se_validator e \<Longrightarrow> su_validator s = VLoop \<longleftrightarrow> \<not> missed s Validator_ch Synced" "su_p2p s = PRead"
proof -
  note i = start_invD [OF inv] and P = rest_places [OF inv env rest p2p]
  have sent: "sent (su_bus s) Synced" by (rule announced_sent [OF inv]) (simp add: y)
  have got: "Synced \<in> set (bs_got (su_bus s) c)" if "\<not> missed s c Synced" "c \<in> set (bs_subs (su_bus s))" "c = Core_ch \<longrightarrow> su_core s = OWait" for c
    using that heard_iff [OF i(1) sent] by (intro rest_received [OF inv rest]) simp_all
  show "su_core s = OLoop \<longleftrightarrow> \<not> missed s Core_ch Synced"
    using got [of Core_ch] got_not_missed [OF inv, of Synced Core_ch] P(3) i(3,6) by (auto simp: sub_inv_def rest_inv_def)
  show "se_validator e \<Longrightarrow> su_validator s = VLoop \<longleftrightarrow> \<not> missed s Validator_ch Synced"
    using got [of Validator_ch] got_not_missed [OF inv, of Synced Validator_ch] P(7) i(3,6) by (auto simp: sub_inv_def rest_inv_def)
  have "heard (su_bus s) P2P_ch Synced" using p2p sent by (simp add: p2p_hears_def)
  then have "su_listener s = LExit" using rest_received [OF inv rest, of P2P_ch Synced] i(3,4) by (auto simp: sub_inv_def p2p_inv_def)
  moreover have "su_crashed s = None" using i(6) by (simp add: rest_inv_def)
  ultimately show "su_p2p s = PRead" using at_rest_D(1) [OF rest, of P2P_Start] P(5) i(4) by (auto simp: p2p_inv_def)
qed

lemma rest_completed:
  assumes inv: "start_inv e s" and env: "no_failure e" and rest: "at_rest e s" and p2p: "p2p_hears s"
  shows "completed e s \<longleftrightarrow> list_all (\<lambda>(c, v). \<not> missed s c v) (awaited e)"
proof -
  note P = rest_places [OF inv env rest p2p]
  have "su_ready s" "su_crashed s = None" using start_invD(6) [OF inv] P(1) by (simp_all add: rest_inv_def)
  then have "completed e s \<longleftrightarrow> su_sync s = SDone \<and> su_core s = OLoop \<and> (se_validator e \<longrightarrow> su_validator s = VLoop)"
    using P(1,2) rest_last(3) [OF assms] by (auto simp: completed_def)
  also have "\<dots> \<longleftrightarrow> list_all (\<lambda>(c, v). \<not> missed s c v) (awaited e)"
    using rest_sync [OF assms] rest_last(1,2) [OF assms] by (auto simp: awaited_def)
  finally show ?thesis .
qed

subsection \<open>Every start comes to rest\<close>

fun chain_rank :: "chain_pc \<Rightarrow> nat" where
  "chain_rank CInit = 4" | "chain_rank CSendInit = 3" | "chain_rank CSync = 2" | "chain_rank CSendLocal = 1" | "chain_rank CDone = 0" | "chain_rank CFailed = 0"

fun att_rank :: "att_pc \<Rightarrow> nat" where
  "att_rank AInit = 2" | "att_rank ASend = 1" | "att_rank AListen = 0"

fun core_rank :: "core_pc \<Rightarrow> nat" where
  "core_rank OSubscribe = 2" | "core_rank OWait = 1" | "core_rank OLoop = 0"

fun p2p_rank :: "p2p_pc \<Rightarrow> nat" where
  "p2p_rank PSpawn = 6" | "p2p_rank PWait = 5" | "p2p_rank PConnect = 4" | "p2p_rank PSend = 3" | "p2p_rank PWaitSync = 2" | "p2p_rank PTopics = 1"
| "p2p_rank PRead = 0" | "p2p_rank PFailed = 0"

fun listener_rank :: "listener_pc \<Rightarrow> nat" where
  "listener_rank LOff = 1" | "listener_rank LReceive = 1" | "listener_rank LPush = 2" | "listener_rank LExit = 0"

fun sync_rank :: "sync_pc \<Rightarrow> nat" where
  "sync_rank SSpawn = 7" | "sync_rank SReady = 6" | "sync_rank SWaitLocal = 5" | "sync_rank SWaitStake = 4" | "sync_rank SWaitConnected = 3"
| "sync_rank SNetwork = 2" | "sync_rank SSend = 1" | "sync_rank SDone = 0"

fun sync_listener_rank :: "sync_listener_pc \<Rightarrow> nat" where
  "sync_listener_rank TOff = 1" | "sync_listener_rank TSubscribe = 1" | "sync_listener_rank TReceive = 0"

fun validator_rank :: "validator_pc \<Rightarrow> nat" where
  "validator_rank VOff = 0" | "validator_rank VSubscribe = 2" | "validator_rank VWait = 1" | "validator_rank VLoop = 0"

text \<open>Calls to begin count for their deliveries, deliveries for the value that is then received.\<close>

definition bus_rank :: "bus \<Rightarrow> nat" where
  "bus_rank b = 13 * (6 - length (bs_log b)) + (case bs_send b of None \<Rightarrow> 0 | Some (p, v, cs) \<Rightarrow> 3 * length cs)
     + 2 * (length (bs_buf b P2P_ch) + length (bs_buf b Core_ch) + length (bs_buf b Sync_ch) + length (bs_buf b Validator_ch))"

definition rank :: "startup \<Rightarrow> nat" where
  "rank s = bus_rank (su_bus s) + chain_rank (su_chain s) + att_rank (su_att s) + core_rank (su_core s) + p2p_rank (su_p2p s) + listener_rank (su_listener s)
     + sync_rank (su_sync s) + sync_listener_rank (su_slistener s) + validator_rank (su_validator s)"

lemma begin_rank:
  assumes "bus_ok b" "bs_send b = None" "\<not> sent b v"
  shows "bus_rank (bus_begin p v b) < bus_rank b"
proof -
  have "distinct (map fst (bs_log b) @ [v])" using assms(1,3) by (auto simp: bus_ok_def sent_def)
  then have "length (bs_log b) < 6" using distinct_states [of "map fst (bs_log b) @ [v]"] by simp
  moreover have "length (bs_subs b) \<le> 4" using assms(1) by (simp add: bus_ok_def distinct_chans)
  ultimately show ?thesis using assms(2) by (simp add: bus_rank_def bus_begin_def)
qed

lemma end_rank: "bs_send b = Some (p, v, []) \<Longrightarrow> bus_rank (bus_end b) = bus_rank b"
  by (simp add: bus_rank_def bus_end_def)

lemma subscribe_rank: "bus_rank (bus_subscribe c b) = bus_rank b"
  by (simp add: bus_rank_def bus_subscribe_def)

lemma unsubscribe_rank: "bus_rank (bus_unsubscribe c b) \<le> bus_rank b"
  by (auto simp: bus_rank_def bus_unsubscribe_def length_removeAll_less_eq split: option.splits prod.splits)

lemma receive_rank: "bus_receive c b = Some (v, b') \<Longrightarrow> bus_rank b' + 2 = bus_rank b"
  by (cases c) (auto simp: bus_receive_def bus_rank_def split: list.splits)

lemma deliver_rank: "bus_deliver c b = Some b' \<Longrightarrow> bus_rank b' < bus_rank b"
proof -
  assume d: "bus_deliver c b = Some b'"
  then obtain p v cs where s: "bs_send b = Some (p, v, cs)" "c \<in> set cs"
    and b': "b' = b\<lparr>bs_send := Some (p, v, removeAll c cs), bs_buf := (bs_buf b)(c := bs_buf b c @ [v])\<rparr>"
    by (auto simp: bus_deliver_def split: option.splits prod.splits if_splits)
  have "length (removeAll c cs) < length cs" using s(2) by (rule length_removeAll_less)
  then show ?thesis using s(1) by (cases c) (simp_all add: bus_rank_def b')
qed

lemma sends_rank:
  assumes "start_inv e s" "sends p v k s = Some s'" "p = sender v" "sending_at v s" "\<And>b. rank (k (s\<lparr>su_bus := b\<rparr>)) < rank (s\<lparr>su_bus := b\<rparr>)"
  shows "rank s' < rank s"
proof (cases "bs_send (su_bus s)")
  case None
  then have "\<not> sent (su_bus s) v" using start_invD(2) [OF assms(1)] sending_not_announced [OF assms(4)] by (simp add: lock_inv_def)
  then show ?thesis using begin_rank [OF start_invD(1) [OF assms(1)] None] assms(2) None by (auto simp: sends_def rank_def)
next
  case (Some x)
  then obtain w where w: "bs_send (su_bus s) = Some (p, w, [])" "s' = k (s\<lparr>su_bus := bus_end (su_bus s)\<rparr>)"
    using assms(2) by (auto simp: sends_def split: prod.splits if_splits)
  then show ?thesis using assms(5) [of "bus_end (su_bus s)"] end_rank [OF w(1)] by (simp add: rank_def)
qed

lemma receives_rank:
  assumes "receives c k s = Some s'" "\<And>v b. rank (k v (s\<lparr>su_bus := b\<rparr>)) \<le> Suc (rank (s\<lparr>su_bus := b\<rparr>))"
  shows "rank s' < rank s"
proof -
  obtain v b where r: "bus_receive c (su_bus s) = Some (v, b)" and s': "s' = k v (s\<lparr>su_bus := b\<rparr>)" using assms(1) by (auto simp: receives_def)
  then show ?thesis using assms(2) [of v b] receive_rank [OF r] by (simp add: rank_def)
qed

lemma state_rank:
  "su_core s = OWait \<Longrightarrow> rank (core_state e v s) \<le> Suc (rank s)" "su_listener s = LReceive \<Longrightarrow> rank (p2p_state v s) \<le> Suc (rank s)"
  "rank (sync_state v s) \<le> Suc (rank s)" "su_validator s = VWait \<Longrightarrow> rank (validator_state e v s) \<le> Suc (rank s)"
proof -
  show "su_core s = OWait \<Longrightarrow> rank (core_state e v s) \<le> Suc (rank s)" by (simp add: core_state_def rank_def crash_def)
  show "su_listener s = LReceive \<Longrightarrow> rank (p2p_state v s) \<le> Suc (rank s)"
    using unsubscribe_rank [of P2P_ch "su_bus s"] by (auto simp: p2p_state_def rank_def crash_def)
  show "rank (sync_state v s) \<le> Suc (rank s)" by (cases v) (simp_all add: rank_def crash_def)
  show "su_validator s = VWait \<Longrightarrow> rank (validator_state e v s) \<le> Suc (rank s)"
    using unsubscribe_rank [of Validator_ch "su_bus s"] by (auto simp: validator_state_def rank_def crash_def)
qed

lemma goroutine_rank:
  assumes inv: "start_inv e s" and env: "no_failure e" and step: "goroutine e p s = Some s'"
  shows "rank s' < rank s"
proof -
  have S: "sends q v k s = Some s' \<Longrightarrow> q = sender v \<Longrightarrow> sending_at v s \<Longrightarrow> (\<And>b. rank (k (s\<lparr>su_bus := b\<rparr>)) < rank (s\<lparr>su_bus := b\<rparr>)) \<Longrightarrow> rank s' < rank s"
    for q v k by (rule sends_rank [OF inv])
  have off: "su_p2p s = PSpawn \<Longrightarrow> su_listener s = LOff" "su_sync s = SSpawn \<Longrightarrow> su_slistener s = TOff"
    using start_invD(4,5) [OF inv] by (simp_all add: p2p_inv_def sync_inv_def)
  show ?thesis
  proof (cases p)
    case Chain_Start
    then show ?thesis using step env S [of Chain_Start Initialized "su_chain_update (\<lambda>_. CSync)"]
      S [of Chain_Start LocalSynced "su_chain_update (\<lambda>_. CDone)"] by (cases "su_chain s") (auto simp: rank_def no_failure_def)
  next
    case Att_Start
    then show ?thesis using step env S [of Att_Start StakePoolInitialized "su_att_update (\<lambda>_. AListen)"]
      by (cases "su_att s") (auto simp: rank_def no_failure_def)
  next
    case P2P_Start
    then show ?thesis using step env off S [of P2P_Start State.Connected "su_p2p_update (\<lambda>_. PWaitSync)"]
      by (cases "su_p2p s") (auto simp: rank_def no_failure_def split: if_splits)
  next
    case Sync_Start
    then show ?thesis using step env off S [of Sync_Start ConnectionHandlersReady "su_sync_update (\<lambda>_. SWaitLocal)"]
      S [of Sync_Start Synced "su_sync_update (\<lambda>_. SDone)"] by (cases "su_sync s") (auto simp: rank_def no_failure_def split: if_splits)
  next
    case Core_Start
    have "su_core s = OWait \<Longrightarrow> ?thesis" using step receives_rank [of Core_ch "core_state e" s s'] state_rank(1) by (simp add: Core_Start)
    then show ?thesis using step Core_Start by (cases "su_core s") (auto simp: rank_def subscribe_rank)
  next
    case P2P_listener
    have "su_listener s = LReceive \<Longrightarrow> ?thesis" using step receives_rank [of P2P_ch p2p_state s s'] state_rank(2) by (simp add: P2P_listener)
    then show ?thesis using step P2P_listener by (cases "su_listener s") (auto simp: rank_def split: if_splits)
  next
    case Sync_listener
    have "su_slistener s = TReceive \<Longrightarrow> ?thesis" using step receives_rank [of Sync_ch sync_state s s'] state_rank(3) by (simp add: Sync_listener)
    then show ?thesis using step Sync_listener by (cases "su_slistener s") (auto simp: rank_def subscribe_rank)
  next
    case Validator_Start
    have "su_validator s = VWait \<Longrightarrow> ?thesis" using step receives_rank [of Validator_ch "validator_state e" s s'] state_rank(4) by (simp add: Validator_Start)
    then show ?thesis using step Validator_Start by (cases "su_validator s") (auto simp: rank_def subscribe_rank)
  qed
qed

lemma start_step_rank:
  assumes "start_inv e s" "no_failure e" "start_step e a s = Some s'"
  shows "rank s' < rank s"
proof (cases a)
  case (Run p)
  then show ?thesis using assms by (intro goroutine_rank) (simp_all add: start_step_def split: if_splits)
next
  case (Deliver c)
  then show ?thesis using assms(3) deliver_rank by (auto simp: start_step_def rank_def split: if_splits)
qed

lemma start_run_rank:
  "start_inv e s \<Longrightarrow> no_failure e \<Longrightarrow> p2p_hears s \<Longrightarrow> start_run e as s = Some s' \<Longrightarrow> start_inv e s' \<and> p2p_hears s' \<and> length as + rank s' \<le> rank s"
proof (induction as arbitrary: s)
  case (Cons a as)
  obtain t where t: "start_step e a s = Some t" "start_run e as t = Some s'" using Cons.prems(4) by (auto split: option.splits)
  note i = start_step_inv [OF Cons.prems(1,2) t(1)] p2p_hears_step [OF Cons.prems(1,3) t(1)] start_step_rank [OF Cons.prems(1,2) t(1)]
  show ?case using Cons.IH [OF i(1) Cons.prems(2) i(2) t(2)] i(3) by simp
qed simp

lemma start_run_append: "start_run e (as @ bs) s = (case start_run e as s of None \<Rightarrow> None | Some t \<Rightarrow> start_run e bs t)"
  by (induction as arbitrary: s) (auto split: option.splits)

lemma comes_to_rest:
  assumes "start_inv e s" "no_failure e"
  shows "\<exists>as t. start_run e as s = Some t \<and> at_rest e t"
  using assms
proof (induction "rank s" arbitrary: s rule: less_induct)
  case less
  show ?case
  proof (cases "at_rest e s")
    case True
    then show ?thesis by (intro exI [of _ "[]"] exI [of _ s]) simp
  next
    case False
    then obtain a t where a: "start_step e a s = Some t" by (auto simp: at_rest_def list_all_iff)
    from less.hyps [OF start_step_rank [OF less.prems a] start_step_inv [OF less.prems a] less.prems(2)]
    obtain as u where "start_run e as t = Some u" "at_rest e u" by blast
    then show ?thesis using a by (intro exI [of _ "a # as"] exI [of _ u]) simp
  qed
qed

text \<open>What has happened when the node announces that it is in step with the network, and when blocks are handled.\<close>

lemma start_order:
  assumes "start_inv e s"
  shows "sent (su_bus s) Synced \<Longrightarrow> v \<in> {LocalSynced, StakePoolInitialized, State.Connected, ConnectionHandlersReady} \<Longrightarrow> sent (su_bus s) v"
    "su_core s = OLoop \<Longrightarrow> sent (su_bus s) Synced" "su_p2p s = PRead \<Longrightarrow> sent (su_bus s) Synced" "su_validator s = VLoop \<Longrightarrow> sent (su_bus s) Synced"
proof -
  note i = start_invD [OF assms]
  have got: "w \<in> set (bs_got (su_bus s) c) \<Longrightarrow> sent (su_bus s) w" for w c using sent_needs(2) [OF assms] by (auto simp: arrived_def)
  assume "sent (su_bus s) Synced" and v: "v \<in> {LocalSynced, StakePoolInitialized, State.Connected, ConnectionHandlersReady}"
  then have y: "su_sync s \<in> {SSend, SDone}" using sent_needs(1) [OF assms] by fastforce
  then have "sent (su_bus s) ConnectionHandlersReady" using i(2) by (auto simp: lock_inv_def)
  moreover have "w \<in> set (bs_got (su_bus s) Sync_ch)" if "w \<in> {LocalSynced, StakePoolInitialized, State.Connected}" for w
    using that y i(5) by (auto simp: sync_inv_def)
  ultimately show "sent (su_bus s) v" using v got by blast
next
  have got: "w \<in> set (bs_got (su_bus s) c) \<Longrightarrow> sent (su_bus s) w" for w c using sent_needs(2) [OF assms] by (auto simp: arrived_def)
  show "su_core s = OLoop \<Longrightarrow> sent (su_bus s) Synced" "su_validator s = VLoop \<Longrightarrow> sent (su_bus s) Synced"
    using got start_invD(6) [OF assms] by (auto simp: rest_inv_def)
  show "su_p2p s = PRead \<Longrightarrow> sent (su_bus s) Synced" using got start_invD(4) [OF assms] by (auto simp: p2p_inv_def)
qed

lemma constructed_rank: "rank (constructed e) \<le> 103" "p2p_hears (constructed e)"
  by (simp_all add: rank_def bus_rank_def constructed_def new_bus_def p2p_hears_def sent_def)

text \<open>
  C16. The start of a node.  When no call inside the \<open>Start\<close> methods fails, in whatever order the goroutines run and the values of the state feed
  are delivered: the start takes at most 103 steps, from every state it can reach it comes to rest, and at rest every service has completed
  its start exactly if no service has subscribed too late for a state that it waits for.  Blocks are handled and topics are read only
  after the states of all other services have been announced.
\<close>

theorem startup_completes:
  assumes "no_failure e" "start_run e as (constructed e) = Some s"
  shows "length as \<le> 103 \<and> (\<exists>bs t. start_run e (as @ bs) (constructed e) = Some t \<and> at_rest e t)
    \<and> (at_rest e s \<longrightarrow> (completed e s \<longleftrightarrow> list_all (\<lambda>(c, v). \<not> missed s c v) (awaited e)))
    \<and> (su_core s = OLoop \<or> su_p2p s = PRead \<longrightarrow>
        list_all (sent (su_bus s)) [LocalSynced, StakePoolInitialized, State.Connected, ConnectionHandlersReady, Synced])"
proof -
  have i: "start_inv e s" "p2p_hears s" "length as + rank s \<le> rank (constructed e)"
    using start_run_rank [OF constructed_inv assms(1) constructed_rank(2) assms(2)] by simp_all
  have "\<exists>bs t. start_run e (as @ bs) (constructed e) = Some t \<and> at_rest e t"
    using comes_to_rest [OF i(1) assms(1)] by (simp add: start_run_append assms(2))
  moreover have "list_all (sent (su_bus s)) [LocalSynced, StakePoolInitialized, State.Connected, ConnectionHandlersReady, Synced]"
    if "su_core s = OLoop \<or> su_p2p s = PRead"
  proof -
    have y: "sent (su_bus s) Synced" using that start_order(2,3) [OF i(1)] by blast
    show ?thesis using y start_order(1) [OF i(1) y] by simp
  qed
  ultimately show ?thesis using i(3) constructed_rank(1) [of e] rest_completed [OF i(1) assms(1) _ i(2)] by fastforce
qed

definition smooth :: start_env where
  "smooth = \<lparr>se_init = None, se_sync = None, se_repair = None, se_stake = None, se_discovery = None, se_topics = None, se_network = None, se_ticker = True,
     se_validator = True\<rparr>"

text \<open>One order in which every subscription is in time, and one in which the chain service is faster than the synchronisation service.\<close>

definition orderly :: "action list" where
  "orderly = [Run Sync_Start, Run Sync_Start, Run Sync_listener, Run Core_Start, Run Validator_Start, Run P2P_Start, Deliver P2P_ch,
    Run Sync_Start, Run P2P_listener, Run P2P_listener, Run P2P_Start, Run P2P_Start, Deliver P2P_ch, Run P2P_listener, Deliver Core_ch,
    Run Core_Start, Deliver Sync_ch, Run Sync_listener, Deliver Validator_ch, Run Validator_Start, Run P2P_Start, Run Att_Start,
    Run Att_Start, Deliver P2P_ch, Run P2P_listener, Deliver Core_ch, Run Core_Start, Deliver Sync_ch, Run Sync_listener,
    Deliver Validator_ch, Run Validator_Start, Run Att_Start, Run Chain_Start, Run Chain_Start, Deliver P2P_ch, Run P2P_listener,
    Deliver Core_ch, Run Core_Start, Deliver Sync_ch, Run Sync_listener, Deliver Validator_ch, Run Validator_Start, Run Chain_Start,
    Run Chain_Start, Run Chain_Start, Deliver P2P_ch, Run P2P_listener, Deliver Core_ch, Run Core_Start, Deliver Sync_ch,
    Run Sync_listener, Run Sync_Start, Run Sync_Start, Run Sync_Start, Run Sync_Start, Deliver Validator_ch, Run Validator_Start,
    Run Chain_Start, Run Sync_Start, Deliver P2P_ch, Run P2P_listener, Run P2P_Start, Run P2P_Start, Deliver Core_ch, Run Core_Start,
    Deliver Sync_ch, Run Sync_listener, Deliver Validator_ch, Run Sync_Start, Run Validator_Start]"

definition overtaken :: "action list" where
  "overtaken = [Run Chain_Start, Run Chain_Start, Deliver P2P_ch, Run Chain_Start, Run Chain_Start, Run Chain_Start, Deliver P2P_ch,
    Run Chain_Start, Run Validator_Start, Run Core_Start, Run Att_Start, Run Att_Start, Deliver P2P_ch, Deliver Core_ch,
    Deliver Validator_ch, Run Validator_Start, Run Core_Start, Run Att_Start, Run P2P_Start, Run P2P_listener, Run P2P_listener,
    Run P2P_listener, Run Sync_Start, Run Sync_Start, Deliver P2P_ch, Deliver Core_ch, Deliver Validator_ch, Run Validator_Start,
    Run Core_Start, Run P2P_listener, Run P2P_listener, Run P2P_Start, Run Sync_Start, Run P2P_Start, Deliver P2P_ch, Deliver Core_ch,
    Deliver Validator_ch, Run Validator_Start, Run Core_Start, Run P2P_Start, Run P2P_listener, Run Sync_listener]"

lemma orderly_rest: "map_option (\<lambda>s. at_rest smooth s \<and> list_all (\<lambda>(c, v). \<not> missed s c v) (awaited smooth)) (start_run smooth orderly (constructed smooth)) = Some True"
  by code_simp

theorem startup_completes_witness: "\<exists>s. start_run smooth orderly (constructed smooth) = Some s \<and> at_rest smooth s \<and> completed smooth s"
proof -
  obtain s where s: "start_run smooth orderly (constructed smooth) = Some s" "at_rest smooth s" "list_all (\<lambda>(c, v). \<not> missed s c v) (awaited smooth)"
    using orderly_rest by auto
  have "no_failure smooth" by (simp add: no_failure_def smooth_def)
  from startup_completes [OF this s(1)] show ?thesis using s by blast
qed

text \<open>
  The subscription of the synchronisation service is made in a goroutine of its own.  If the chain is loaded before it runs, the announcement
  is lost and the start never completes: the node neither synchronises nor handles blocks.
\<close>

lemma overtaken_waits:
  "map_option (\<lambda>s. (at_rest smooth s, completed smooth s, missed s Sync_ch LocalSynced)) (start_run smooth overtaken (constructed smooth)) = Some (True, False, True)"
  "map_option (\<lambda>s. (su_sync s, su_core s, su_validator s, su_crashed s)) (start_run smooth overtaken (constructed smooth)) = Some (SWaitLocal, OWait, VWait, None)"
  by code_simp+

text \<open>
  Although its start is said to wait for the local data, the attestation service initialises its staking pool and announces it at once, here before the chain is loaded.
\<close>

lemma stake_pool_not_waiting:
  "map_option (\<lambda>s. (su_chain s, su_att s)) (start_run smooth [Run Att_Start, Run Att_Start, Deliver P2P_ch, Run Att_Start] (constructed smooth)) = Some (CInit, AListen)"
  by code_simp

end
