(* ===== verification/Requests.thy ===== *)
theory Requests
  imports Hashing
begin

text \<open>
  The messages of the public interface (\<^verbatim>\<open>proto/prototype/service.pb.go\<close>, \<^verbatim>\<open>service.types.pb.go\<close>) and the rules that
  the servers check them with (\<^verbatim>\<open>service.pb.validate.go\<close>, \<^verbatim>\<open>service.types.pb.validate.go\<close>, \<^verbatim>\<open>types.pb.validate.go\<close>).
  A string of the program is a sequence of bytes, so that a limit in runes needs \<^verbatim>\<open>utf8.RuneCountInString\<close>.  A message
  pointer that can be nil is an option; the elements of a repeated field of a decoded message are not nil.
  \<open>validate\<close> runs its checks in order: \<open>Validate\<close> stops at the first violation, \<open>ValidateAll\<close> collects all of them.
\<close>

subsection \<open>Runes\<close>

abbreviation byte_of :: "char \<Rightarrow> nat" where
  "byte_of c \<equiv> of_char c"

abbreviation cont_byte :: "char \<Rightarrow> bool" where
  "cont_byte c \<equiv> 128 \<le> byte_of c \<and> byte_of c \<le> 191"

text \<open>
  The table \<open>first\<close> of the library: the length of a sequence by its first byte, and the range of the second byte;
  a length of 1 stands for an invalid byte, which counts as one rune.
\<close>

definition first_byte :: "char \<Rightarrow> nat \<times> nat \<times> nat" where
  "first_byte c = (let b = byte_of c in
     if b < 194 then (1, 128, 191)
     else if b < 224 then (2, 128, 191)
     else if b = 224 then (3, 160, 191)
     else if b = 237 then (3, 128, 159)
     else if b < 240 then (3, 128, 191)
     else if b = 240 then (4, 144, 191)
     else if b < 244 then (4, 128, 191)
     else if b = 244 then (4, 128, 143)
     else (1, 128, 191))"

definition rune_size :: "string \<Rightarrow> nat" where
  "rune_size s = (case first_byte (hd s) of (sz, lo, hi) \<Rightarrow>
     if byte_of (hd s) < 128 then 1
     else if sz = 1 \<or> length s < sz then 1
     else if byte_of (s ! 1) < lo \<or> hi < byte_of (s ! 1) then 1
     else if sz = 2 then 2
     else if \<not> cont_byte (s ! 2) then 1
     else if sz = 3 then 3
     else if \<not> cont_byte (s ! 3) then 1
     else 4)"

lemma rune_size_pos [simp]: "0 < rune_size s"
  by (simp add: rune_size_def split: prod.split)

function RuneCountInString :: "string \<Rightarrow> nat" where
  "RuneCountInString [] = 0"
| "RuneCountInString (c # s) = Suc (RuneCountInString (drop (rune_size (c # s)) (c # s)))"
  by pat_completeness auto
termination
  by (relation "measure length") simp_all

text \<open>For ASCII text, which hexadecimal strings are, the number of runes is the length.\<close>

lemma runes_ascii: "list_all (\<lambda>c. byte_of c < 128) s \<Longrightarrow> RuneCountInString s = length s"
  by (induction s) (simp_all add: rune_size_def split: prod.split)

lemma ascii_hexDigit: "n < 16 \<Longrightarrow> byte_of (hexDigit n) < 128"
proof -
  have "list_all (\<lambda>n. byte_of (hexDigit n) < 128) [0..<16]" by code_simp
  then show "n < 16 \<Longrightarrow> byte_of (hexDigit n) < 128" by (simp add: list_all_iff)
qed

lemma ascii_Encode: "list_all (\<lambda>c. byte_of c < 128) (Encode bs)"
proof -
  have "list_all (\<lambda>c. byte_of c < 128) (hexEncode bs)"
    by (induction bs) (simp_all add: hexEncode_def hexByte_def ascii_hexDigit)
  then show ?thesis by (simp add: Encode_def)
qed

lemma runes_Encode [simp]: "RuneCountInString (Encode bs) = 2 + 2 * length bs"
  by (simp add: runes_ascii [OF ascii_Encode]) (simp add: Encode_def)

lemma runes_Nil [simp]: "RuneCountInString '''' = 0" by simp

subsection \<open>Decimal numbers (strconv.ParseUint)\<close>

text \<open>
  \<open>ParseUint s\<close> is \<^verbatim>\<open>strconv.ParseUint(s, 10, 64)\<close>: \<open>None\<close> for every error, which are an empty string, a character that is not a digit and a value of
  more than 64 bits.
\<close>

abbreviation is_digit :: "char \<Rightarrow> bool" where
  "is_digit c \<equiv> 48 \<le> byte_of c \<and> byte_of c \<le> 57"

fun parse_digits :: "uint64 \<Rightarrow> string \<Rightarrow> uint64 option" where
  "parse_digits n [] = Some n"
| "parse_digits n (c # s) =
    (if \<not> is_digit c then None
     else if n \<ge> 1844674407370955162 then None
     else let n = n * 10; n1 = n + word_of_nat (byte_of c - 48) in if n1 < n then None else parse_digits n1 s)"

definition ParseUint :: "string \<Rightarrow> uint64 option" where
  "ParseUint s = (if s = '''' then None else parse_digits 0 s)"

lemma parse_digits_value:
  "parse_digits n s =
    (if list_all is_digit s \<and> unat n * 10 ^ length s + atoi s < 2 ^ 64
     then Some (word_of_nat (unat n * 10 ^ length s + atoi s)) else None)"
proof (induction s arbitrary: n)
  case Nil
  show ?case using unsigned_less [of n] by simp
next
  case (Cons c s)
  show ?case
  proof (cases "is_digit c")
    case dig: True
    define d where "d = byte_of c - 48"
    have d1: "d < 10" using dig unfolding d_def by linarith
    then have "unat (word_of_nat d :: uint64) = d" by (simp add: unat_of_nat take_bit_eq_mod)
    with d1 have d: "d < 10" "unat (word_of_nat d :: uint64) = d" by blast+
    let ?v = "unat n * 10 + d"
    have v: "unat n * 10 ^ length (c # s) + atoi (c # s) = ?v * 10 ^ length s + atoi s" by (simp add: d_def algebra_simps)
    have le: "?v \<le> ?v * 10 ^ length s + atoi s" by (simp add: trans_le_add1)
    have big: "\<not> unat n * 10 ^ length (c # s) + atoi (c # s) < 2 ^ 64" if "\<not> ?v < 2 ^ 64" using that le unfolding v by linarith
    show ?thesis
    proof (cases "?v < 2 ^ 64")
      case fits: True
      have u: "unat (n * 10) = unat n * 10" using fits by (subst unat_mult_lem [THEN iffD1]) simp_all
      have u1: "unat (n * 10 + word_of_nat d) = ?v" using fits u d by (subst unat_add_lem [THEN iffD1]) simp_all
      have "\<not> n \<ge> 1844674407370955162" using fits by (simp add: word_le_nat_alt)
      moreover have "\<not> n * 10 + word_of_nat d < n * 10" using u u1 by (simp add: word_less_nat_alt)
      ultimately have "parse_digits n (c # s) = parse_digits (n * 10 + word_of_nat d) s" using dig by (simp add: Let_def d_def)
      then show ?thesis using dig unfolding Cons.IH u1 v by simp
    next
      case False
      have "parse_digits n (c # s) = None"
      proof (cases "n \<ge> 1844674407370955162")
        case True
        then show ?thesis by simp
      next
        case n: False
        then have "unat n < 1844674407370955162" by (simp add: word_le_nat_alt)
        then have m: "unat n * 10 < 2 ^ 64 + 10" "unat n * 10 \<le> 18446744073709551610" by simp_all
        have u: "unat (n * 10) = unat n * 10" using m by (subst unat_mult_lem [THEN iffD1]) simp_all
        have "unat (n * 10 + word_of_nat d) = (unat n * 10 + d) mod 2 ^ 64" unfolding unat_word_ariths(1) [of "n * 10"] u d(2) by simp
        also have "\<dots> = unat n * 10 + d - 2 ^ 64" using False m d by (subst mod_if) (simp add: not_less)
        finally have "n * 10 + word_of_nat d < n * 10" using False m d u by (simp add: word_less_nat_alt)
        then show ?thesis using dig by (simp add: Let_def d_def)
      qed
      then show ?thesis using big [OF False] by presburger
    qed
  qed auto
qed

text \<open>\<open>ParseUint\<close> reads exactly the decimal numbers below \<open>2 ^ 64\<close>; leading zeros are allowed.\<close>

lemma ParseUint_value:
  "ParseUint s = (if s \<noteq> '''' \<and> list_all is_digit s \<and> atoi s < 2 ^ 64 then Some (word_of_nat (atoi s)) else None)"
  by (simp add: ParseUint_def parse_digits_value)

lemma itoa_digits: "list_all is_digit (itoa n) \<and> itoa n \<noteq> ''''"
proof (induction n rule: itoa.induct)
  case (1 n)
  have d: "is_digit (hexDigit m)" if "m < 10" for m
  proof -
    have "\<forall>k \<in> set [0..<10]. is_digit (hexDigit k)" by (simp add: hexDigit_def upt_rec)
    with that show ?thesis by simp
  qed
  show ?case using "1.IH" by (cases "n < 10") (simp_all add: itoa.simps [of n] d)
qed

lemma ParseUint_itoa: "ParseUint (itoa (unat n)) = Some n"
  using itoa_digits [of "unat n"] unsigned_less [of n] by (simp add: ParseUint_value)

subsection \<open>Violations\<close>

text \<open>
  A violation names the message, the field and the reason, and the violations of the message in that field; the type of a collection of
  violations is named after the message.
\<close>

datatype verror =
    ValidationError string string string "verror option"
  | MultiError string "verror list"

text \<open>\<open>Error\<close>: no rule of the program concerns the keys of a map, so that the key prefix is empty.\<close>

primrec verror_Error :: "verror \<Rightarrow> string" where
  "verror_Error (ValidationError msg field reason cause) =
    ''invalid '' @ msg @ ''.'' @ field @ '': '' @ reason
      @ (case map_option verror_Error cause of None \<Rightarrow> '''' | Some e \<Rightarrow> '' | caused by: '' @ e)"
| "verror_Error (MultiError msg errs) =
    (let msgs = map verror_Error errs in if msgs = [] then '''' else hd msgs @ concat (map (\<lambda>e. ''; '' @ e) (tl msgs)))"

text \<open>
  The checks of a message in order; \<open>errors\<close> is what has been collected so far.  A check of the field of a message is one entry, a
  check of a repeated field one entry for each element.
\<close>

fun run_checks :: "string \<Rightarrow> bool \<Rightarrow> verror list \<Rightarrow> verror option list \<Rightarrow> verror option" where
  "run_checks msg all errors [] = (if length errors > 0 then Some (MultiError msg errors) else None)"
| "run_checks msg all errors (None # cs) = run_checks msg all errors cs"
| "run_checks msg all errors (Some e # cs) = (if \<not> all then Some e else run_checks msg all (errors @ [e]) cs)"

definition check_rule :: "string \<Rightarrow> string \<Rightarrow> string \<Rightarrow> bool \<Rightarrow> verror option" where
  "check_rule msg field reason violated = (if violated then Some (ValidationError msg field reason None) else None)"

definition embedded :: "string \<Rightarrow> string \<Rightarrow> verror option \<Rightarrow> verror option" where
  "embedded msg field r = map_option (\<lambda>e. ValidationError msg field ''embedded message failed validation'' (Some e)) r"

definition embedded_items :: "string \<Rightarrow> string \<Rightarrow> ('a \<Rightarrow> verror option) \<Rightarrow> 'a list \<Rightarrow> verror option list" where
  "embedded_items msg field validate items =
    map (\<lambda>(idx, item). embedded msg (field @ ''['' @ itoa idx @ '']'') (validate item)) (enumerate 0 items)"

lemma run_checks_all: "run_checks msg True errors cs =
    (let es = errors @ map the (filter (\<lambda>c. c \<noteq> None) cs) in if es = [] then None else Some (MultiError msg es))"
  by (induction msg True errors cs rule: run_checks.induct) (simp_all add: Let_def)

lemma run_checks_first: "run_checks msg False [] cs = (case filter (\<lambda>c. c \<noteq> None) cs of [] \<Rightarrow> None | c # _ \<Rightarrow> c)"
  by (induction msg False "[] :: verror list" cs rule: run_checks.induct) simp_all

lemma run_checks_None: "run_checks msg all [] cs = None \<longleftrightarrow> (\<forall>c \<in> set cs. c = None)"
proof (cases all)
  case False
  have "(case filter (\<lambda>c. c \<noteq> None) cs of [] \<Rightarrow> None | c # _ \<Rightarrow> c) = None \<longleftrightarrow> (\<forall>c \<in> set cs. c = None)"
    by (induction cs) auto
  then show ?thesis using False by (simp add: run_checks_first)
qed (auto simp: run_checks_all Let_def filter_empty_conv)

lemma check_rule_None [simp]: "check_rule msg field reason b = None \<longleftrightarrow> \<not> b"
  by (simp add: check_rule_def)

lemma embedded_None [simp]: "embedded msg field r = None \<longleftrightarrow> r = None"
  by (simp add: embedded_def)

lemma embedded_items_None [simp]:
  "(\<forall>c \<in> set (embedded_items msg field f items). c = None) \<longleftrightarrow> (\<forall>item \<in> set items. f item = None)"
proof -
  have "(\<forall>c \<in> set (map (\<lambda>(idx, item). embedded msg (field @ ''['' @ itoa idx @ '']'') (f item)) (enumerate n items)). c = None)
      \<longleftrightarrow> (\<forall>item \<in> set items. f item = None)" for n
    by (induction items arbitrary: n) simp_all
  then show ?thesis by (simp only: embedded_items_def)
qed

subsection \<open>Messages\<close>

record TxInputValue =
  iv_Hash :: string
  iv_Index :: uint32
  iv_Address :: string
  iv_Amount :: uint64
  iv_Node :: string

record TxOutputValue =
  ov_Address :: string
  ov_Amount :: uint64
  ov_Node :: string

record TxValue =
  tv_Num :: uint64
  tv_Type :: uint32
  tv_Timestamp :: uint64
  tv_Hash :: string
  tv_Fee :: uint64
  tv_Data :: bytes
  tv_Inputs :: "TxInputValue list"
  tv_Outputs :: "TxOutputValue list"

record SignedTxValue =
  sx_Data :: "TxValue option"
  sx_Signature :: string
  sx_TxCost :: uint32

record NotSignedTxValue =
  nx_Data :: "TxValue option"
  nx_Signature :: string
  nx_TxCost :: uint32

record BlockValue =
  bv_Num :: uint64
  bv_Slot :: uint64
  bv_Hash :: string
  bv_Parent :: string
  bv_Timestamp :: uint64
  bv_Proposer :: string
  bv_Approvers :: "string list"
  bv_Slashers :: "string list"
  bv_Transactions :: "TxValue list"

record ProtoUTxO =
  pu_BlockNum :: uint64
  pu_Hash :: string
  pu_Index :: uint32
  pu_From :: string
  pu_To :: string
  pu_Node :: string
  pu_Amount :: uint64
  pu_Timestamp :: uint64
  pu_Txtype :: uint32

record AddressRequest =
  aq_Address :: string

record NumRequest =
  nq_Num :: string

record HashRequest =
  hq_Hash :: string

record BlocksStartCountRequest =
  cq_Start :: "64 word"
  cq_Limit :: uint32

record SendTxRequest =
  sq_Tx :: "SignedTxValue option"

record RawTxRequest =
  rq_Data :: string

record TxOptionsUnsafeRequest =
  uq_Fee :: uint64
  uq_Outputs :: "TxOutputValue list"
  uq_Key :: string

record TxOptionsRequest =
  oq_Fee :: uint64
  oq_Address :: string
  oq_Outputs :: "TxOutputValue list"

record TxOptionsStakeUnsafeRequest =
  kq_Fee :: uint64
  kq_Key :: string
  kq_Amount :: uint64
  kq_Node :: string

record TxOptionsStakeRequest =
  tq_Fee :: uint64
  tq_Address :: string
  tq_Amount :: uint64
  tq_Node :: string

subsection \<open>Rules\<close>

text \<open>
  For each message the functions \<open>validate\<close>, \<open>Validate\<close> (\<open>all = False\<close>) and \<open>ValidateAll\<close> (\<open>all = True\<close>).  A rule \<^verbatim>\<open>x < 0\<close> of an
  unsigned field is never violated; it is written down as the code has it.
\<close>

definition TxInput_validate :: "bool \<Rightarrow> TxInput \<Rightarrow> verror option" where
  "TxInput_validate all m = run_checks ''TxInput'' all []
    [check_rule ''TxInput'' ''Hash'' ''value length must be 32 bytes'' (length (ti_Hash m) \<noteq> 32),
     check_rule ''TxInput'' ''Address'' ''value length must be 20 bytes'' (length (ti_Address m) \<noteq> 20),
     check_rule ''TxInput'' ''Amount'' ''value must be greater than 0'' (ti_Amount m \<le> 0),
     check_rule ''TxInput'' ''Node'' ''value length must be 20 bytes'' (length (ti_Node m) > 0 \<and> length (ti_Node m) \<noteq> 20)]"

definition TxOutput_validate :: "bool \<Rightarrow> TxOutput \<Rightarrow> verror option" where
  "TxOutput_validate all m = run_checks ''TxOutput'' all []
    [check_rule ''TxOutput'' ''Address'' ''value length must be 20 bytes'' (length (to_Address m) \<noteq> 20),
     check_rule ''TxOutput'' ''Amount'' ''value must be greater than 0'' (to_Amount m \<le> 0),
     check_rule ''TxOutput'' ''Node'' ''value length must be 20 bytes'' (length (to_Node m) > 0 \<and> length (to_Node m) \<noteq> 20)]"

definition Transaction_Type_InLookup :: "uint32 \<Rightarrow> bool" where
  "Transaction_Type_InLookup typev = (typev \<in> {1, 5, 6})"

definition Transaction_validate :: "bool \<Rightarrow> PbTransaction \<Rightarrow> verror option" where
  "Transaction_validate all m = run_checks ''Transaction'' all []
    ([check_rule ''Transaction'' ''Num'' ''value must be greater than or equal to 0'' (pt_Num m < 0),
      check_rule ''Transaction'' ''Type'' ''value must be in list [1 5 6]'' (\<not> Transaction_Type_InLookup (pt_Type m)),
      check_rule ''Transaction'' ''Timestamp'' ''value must be greater than 0'' (pt_Timestamp m \<le> 0),
      check_rule ''Transaction'' ''Hash'' ''value length must be 32 bytes'' (length (pt_Hash m) \<noteq> 32),
      check_rule ''Transaction'' ''Fee'' ''value must be greater than or equal to 0'' (pt_Fee m < 0),
      check_rule ''Transaction'' ''Data'' ''value length must be at most 10000 bytes'' (length (pt_Data m) > 10000)]
     @ embedded_items ''Transaction'' ''Inputs'' (TxInput_validate all) (pt_Inputs m)
     @ embedded_items ''Transaction'' ''Outputs'' (TxOutput_validate all) (pt_Outputs m)
     @ [check_rule ''Transaction'' ''Signature'' ''value length must be 65 bytes'' (length (pt_Signature m) \<noteq> 65)])"

definition TxInputValue_validate :: "bool \<Rightarrow> TxInputValue \<Rightarrow> verror option" where
  "TxInputValue_validate all m = run_checks ''TxInputValue'' all []
    [check_rule ''TxInputValue'' ''Hash'' ''value length must be 66 runes'' (RuneCountInString (iv_Hash m) \<noteq> 66),
     check_rule ''TxInputValue'' ''Address'' ''value length must be 42 runes'' (RuneCountInString (iv_Address m) \<noteq> 42),
     check_rule ''TxInputValue'' ''Node'' ''value length must be at most 42 runes'' (RuneCountInString (iv_Node m) > 42)]"

definition TxOutputValue_validate :: "bool \<Rightarrow> TxOutputValue \<Rightarrow> verror option" where
  "TxOutputValue_validate all m = run_checks ''TxOutputValue'' all []
    [check_rule ''TxOutputValue'' ''Address'' ''value length must be 42 runes'' (RuneCountInString (ov_Address m) \<noteq> 42),
     check_rule ''TxOutputValue'' ''Node'' ''value length must be at most 42 runes'' (RuneCountInString (ov_Node m) > 42)]"

definition TxValue_validate :: "bool \<Rightarrow> TxValue option \<Rightarrow> verror option" where
  "TxValue_validate all m' = (case m' of None \<Rightarrow> None | Some m \<Rightarrow> run_checks ''TxValue'' all []
    ([check_rule ''TxValue'' ''Timestamp'' ''value must be greater than 0'' (tv_Timestamp m \<le> 0),
      check_rule ''TxValue'' ''Hash'' ''value length must be 66 runes'' (RuneCountInString (tv_Hash m) \<noteq> 66),
      check_rule ''TxValue'' ''Fee'' ''value must be greater than or equal to 0'' (tv_Fee m < 0),
      check_rule ''TxValue'' ''Inputs'' ''value must contain at least 1 item(s)'' (length (tv_Inputs m) < 1)]
     @ embedded_items ''TxValue'' ''Inputs'' (TxInputValue_validate all) (tv_Inputs m)
     @ [check_rule ''TxValue'' ''Outputs'' ''value must contain at least 1 item(s)'' (length (tv_Outputs m) < 1)]
     @ embedded_items ''TxValue'' ''Outputs'' (TxOutputValue_validate all) (tv_Outputs m)))"

definition SignedTxValue_validate :: "bool \<Rightarrow> SignedTxValue option \<Rightarrow> verror option" where
  "SignedTxValue_validate all m' = (case m' of None \<Rightarrow> None | Some m \<Rightarrow> run_checks ''SignedTxValue'' all []
    [embedded ''SignedTxValue'' ''Data'' (TxValue_validate all (sx_Data m)),
     check_rule ''SignedTxValue'' ''Signature'' ''value length must be 132 runes'' (RuneCountInString (sx_Signature m) \<noteq> 132)])"

definition AddressRequest_validate :: "bool \<Rightarrow> AddressRequest \<Rightarrow> verror option" where
  "AddressRequest_validate all m = run_checks ''AddressRequest'' all []
    [check_rule ''AddressRequest'' ''Address'' ''value length must be 42 runes'' (RuneCountInString (aq_Address m) \<noteq> 42)]"

definition NumRequest_validate :: "bool \<Rightarrow> NumRequest \<Rightarrow> verror option" where
  "NumRequest_validate all m = run_checks ''NumRequest'' all []
    [check_rule ''NumRequest'' ''Num'' ''value length must be at least 1 runes'' (RuneCountInString (nq_Num m) < 1)]"

definition HashRequest_validate :: "bool \<Rightarrow> HashRequest \<Rightarrow> verror option" where
  "HashRequest_validate all m = run_checks ''HashRequest'' all []
    [check_rule ''HashRequest'' ''Hash'' ''value length must be 66 runes'' (RuneCountInString (hq_Hash m) \<noteq> 66)]"

definition BlocksStartCountRequest_validate :: "bool \<Rightarrow> BlocksStartCountRequest \<Rightarrow> verror option" where
  "BlocksStartCountRequest_validate all m = run_checks ''BlocksStartCountRequest'' all [] []"

definition TxOptionsUnsafeRequest_validate :: "bool \<Rightarrow> TxOptionsUnsafeRequest \<Rightarrow> verror option" where
  "TxOptionsUnsafeRequest_validate all m = run_checks ''TxOptionsUnsafeRequest'' all []
    (embedded_items ''TxOptionsUnsafeRequest'' ''Outputs'' (TxOutputValue_validate all) (uq_Outputs m)
     @ [check_rule ''TxOptionsUnsafeRequest'' ''Key'' ''value length must be 66 runes'' (RuneCountInString (uq_Key m) \<noteq> 66)])"

definition TxOptionsRequest_validate :: "bool \<Rightarrow> TxOptionsRequest \<Rightarrow> verror option" where
  "TxOptionsRequest_validate all m = run_checks ''TxOptionsRequest'' all []
    ([check_rule ''TxOptionsRequest'' ''Address'' ''value length must be 42 runes'' (RuneCountInString (oq_Address m) \<noteq> 42)]
     @ embedded_items ''TxOptionsRequest'' ''Outputs'' (TxOutputValue_validate all) (oq_Outputs m))"

definition TxOptionsStakeUnsafeRequest_validate :: "bool \<Rightarrow> TxOptionsStakeUnsafeRequest \<Rightarrow> verror option" where
  "TxOptionsStakeUnsafeRequest_validate all m = run_checks ''TxOptionsStakeUnsafeRequest'' all []
    [check_rule ''TxOptionsStakeUnsafeRequest'' ''Key'' ''value length must be 66 runes'' (RuneCountInString (kq_Key m) \<noteq> 66),
     check_rule ''TxOptionsStakeUnsafeRequest'' ''Amount'' ''value must be greater than 0'' (kq_Amount m \<le> 0)]"

definition TxOptionsStakeRequest_validate :: "bool \<Rightarrow> TxOptionsStakeRequest \<Rightarrow> verror option" where
  "TxOptionsStakeRequest_validate all m = run_checks ''TxOptionsStakeRequest'' all []
    [check_rule ''TxOptionsStakeRequest'' ''Address'' ''value length must be 42 runes'' (RuneCountInString (tq_Address m) \<noteq> 42),
     check_rule ''TxOptionsStakeRequest'' ''Amount'' ''value must be greater than 0'' (tq_Amount m \<le> 0)]"

subsection \<open>The first violation and all of them\<close>

text \<open>
  The contract of a message with rules: with the nested messages behaving alike, \<open>Validate\<close> and \<open>ValidateAll\<close> find fault with the
  same messages, and the fault that \<open>Validate\<close> reports is about the same field as the first one that \<open>ValidateAll\<close> reports.
\<close>

definition same_fault :: "verror option \<Rightarrow> verror option \<Rightarrow> bool" where
  "same_fault a b \<longleftrightarrow> (case (a, b) of
     (None, None) \<Rightarrow> True
   | (Some (ValidationError m f r c), Some (ValidationError m' f' r' c')) \<Rightarrow> m = m' \<and> f = f' \<and> r = r' \<and> (c = None \<longleftrightarrow> c' = None)
   | _ \<Rightarrow> False)"

locale validated =
  fixes msg :: string and validate :: "bool \<Rightarrow> 'm \<Rightarrow> verror option"
  assumes runs: "\<exists>cs ds. validate False m = run_checks msg False [] cs \<and> validate True m = run_checks msg True [] ds \<and> list_all2 same_fault cs ds"
begin

lemma same_verdict: "validate False m = None \<longleftrightarrow> validate True m = None"
proof -
  have "(\<forall>c \<in> set cs. c = None) \<longleftrightarrow> (\<forall>c \<in> set ds. c = None)" if "list_all2 same_fault cs ds" for cs ds
    using that by induction (auto simp: same_fault_def split: option.splits verror.splits)
  then show ?thesis using runs [of m] by (elim exE conjE) (simp only: run_checks_None)
qed

lemma first_fault:
  assumes "validate False m = Some e"
  shows "\<exists>e' es. validate True m = Some (MultiError msg (e' # es)) \<and> same_fault (Some e) (Some e')"
proof -
  have F: "\<exists>e' es. map the (filter (\<lambda>c. c \<noteq> None) ds) = e' # es \<and> same_fault (Some e) (Some e')"
    if "list_all2 same_fault cs ds" "(case filter (\<lambda>c. c \<noteq> None) cs of [] \<Rightarrow> None | c # _ \<Rightarrow> c) = Some e" for cs ds
    using that
  proof induction
    case (Cons c cs d ds)
    then show ?case by (cases c; cases d) (auto simp: same_fault_def split: option.splits verror.splits)
  qed simp
  obtain cs ds where r: "validate False m = run_checks msg False [] cs" "validate True m = run_checks msg True [] ds" "list_all2 same_fault cs ds"
    using runs by blast
  from F [OF r(3) assms [unfolded r(1) run_checks_first]] show ?thesis by (elim exE conjE) (simp add: r(2) run_checks_all)
qed

end

lemma same_fault_rule [simp]: "same_fault (check_rule msg field reason b) (check_rule msg field reason b)"
  by (simp add: same_fault_def check_rule_def)

lemma same_fault_embedded [simp]: "same_fault (embedded msg field r) (embedded msg field r') \<longleftrightarrow> (r = None \<longleftrightarrow> r' = None)"
  by (cases r; cases r') (simp_all add: same_fault_def embedded_def)

lemma same_fault_items:
  assumes "\<And>item. f item = None \<longleftrightarrow> g item = None"
  shows "list_all2 same_fault (embedded_items msg field f items) (embedded_items msg field g items)"
  by (auto simp: embedded_items_def list_all2_conv_all_nth assms split: prod.splits)

lemma validated_of:
  assumes "\<And>all m. validate all m = run_checks msg all [] (checks all m)"
    and "\<And>m. list_all2 same_fault (checks False m) (checks True m)"
  shows "validated msg validate"
  using assms by unfold_locales blast

interpretation vin: validated "''TxInput''" TxInput_validate
  by (rule validated_of [OF TxInput_validate_def]) simp

interpretation vout: validated "''TxOutput''" TxOutput_validate
  by (rule validated_of [OF TxOutput_validate_def]) simp

interpretation vtx: validated "''Transaction''" Transaction_validate
  by (rule validated_of [OF Transaction_validate_def])
    (intro list_all2_appendI same_fault_items vin.same_verdict vout.same_verdict, simp_all)

interpretation vinv: validated "''TxInputValue''" TxInputValue_validate
  by (rule validated_of [OF TxInputValue_validate_def]) simp

interpretation voutv: validated "''TxOutputValue''" TxOutputValue_validate
  by (rule validated_of [OF TxOutputValue_validate_def]) simp

interpretation vtxv: validated "''TxValue''" "\<lambda>all m. TxValue_validate all (Some m)"
  by (rule validated_of [OF TxValue_validate_def [of _ "Some _", simplified option.case]])
    (intro list_all2_appendI same_fault_items vinv.same_verdict voutv.same_verdict, simp_all)

interpretation vstx: validated "''SignedTxValue''" "\<lambda>all m. SignedTxValue_validate all (Some m)"
proof (rule validated_of [OF SignedTxValue_validate_def [of _ "Some _", simplified option.case]])
  fix m :: SignedTxValue
  have "TxValue_validate False d = None \<longleftrightarrow> TxValue_validate True d = None" for d
    using vtxv.same_verdict by (cases d) (simp_all add: TxValue_validate_def)
  then show "list_all2 same_fault
      [embedded ''SignedTxValue'' ''Data'' (TxValue_validate False (sx_Data m)),
       check_rule ''SignedTxValue'' ''Signature'' ''value length must be 132 runes'' (RuneCountInString (sx_Signature m) \<noteq> 132)]
      [embedded ''SignedTxValue'' ''Data'' (TxValue_validate True (sx_Data m)),
       check_rule ''SignedTxValue'' ''Signature'' ''value length must be 132 runes'' (RuneCountInString (sx_Signature m) \<noteq> 132)]"
    by simp
qed

subsection \<open>What the rules mean\<close>

lemma TxInput_valid: "TxInput_validate all i = None \<longleftrightarrow>
    length (ti_Hash i) = 32 \<and> length (ti_Address i) = 20 \<and> ti_Amount i \<noteq> 0 \<and> (ti_Node i = [] \<or> length (ti_Node i) = 20)"
  by (auto simp: TxInput_validate_def run_checks_None)

lemma TxOutput_valid: "TxOutput_validate all out = None \<longleftrightarrow>
    length (to_Address out) = 20 \<and> to_Amount out \<noteq> 0 \<and> (to_Node out = [] \<or> length (to_Node out) = 20)"
  by (auto simp: TxOutput_validate_def run_checks_None)

lemma Transaction_valid: "Transaction_validate all tx = None \<longleftrightarrow>
    pt_Type tx \<in> {NormalTxType, StakeTxType, UnstakeTxType} \<and> pt_Timestamp tx \<noteq> 0 \<and> length (pt_Hash tx) = 32 \<and> length (pt_Data tx) \<le> 10000
    \<and> (\<forall>i \<in> set (pt_Inputs tx). TxInput_validate all i = None) \<and> (\<forall>out \<in> set (pt_Outputs tx). TxOutput_validate all out = None)
    \<and> length (pt_Signature tx) = 65"
  unfolding Transaction_validate_def run_checks_None set_append ball_Un embedded_items_None Transaction_Type_InLookup_def by auto

end
