(* ===== verification/Rpc.thy ===== *)
theory Rpc
  imports Core Requests
begin

text \<open>
  The public interface of a node: the conversion between messages and their textual form (\<^verbatim>\<open>rpc/cast/cast.go\<close>), the
  attestation service behind it (\<^verbatim>\<open>blockchain/core/attestation/service.go\<close>), the server that takes transactions
  (\<^verbatim>\<open>rpc/attestation\<close>) and the one that answers queries (\<^verbatim>\<open>rpc/rdochain/server.go\<close>).  A handler returns its
  response and its error; the text of an error in a response is represented by the error, an empty text by \<open>None\<close>.
\<close>

subsection \<open>Conversions (cast.go)\<close>

definition AddressString :: "bytes \<Rightarrow> string" where
  "AddressString a = Address_Hex (BytesToAddress a)"

definition HashString :: "bytes \<Rightarrow> string" where
  "HashString h = Hash_Hex (BytesToHash h)"

definition ConvSign :: "Sign \<Rightarrow> string" where
  "ConvSign s = AddressString (sg_Address s)"

definition cast_ProtoUTxO :: "UTxO \<Rightarrow> ProtoUTxO" where
  "cast_ProtoUTxO uo = \<lparr>pu_BlockNum = uo_BlockNum uo, pu_Hash = Hash_Hex (uo_Hash uo), pu_Index = uo_Index uo,
     pu_From = Address_Hex (uo_From uo), pu_To = Address_Hex (uo_To uo), pu_Node = Address_Hex (uo_Node uo),
     pu_Amount = uo_Amount uo, pu_Timestamp = uo_Timestamp uo, pu_Txtype = uo_TxType uo\<rparr>"

definition cast_TxInputValue :: "TxInput \<Rightarrow> TxInputValue" where
  "cast_TxInputValue i = \<lparr>iv_Hash = HashString (ti_Hash i), iv_Index = ti_Index i, iv_Address = AddressString (ti_Address i),
     iv_Amount = ti_Amount i, iv_Node = AddressString (ti_Node i)\<rparr>"

definition cast_TxOutputValue :: "TxOutput \<Rightarrow> TxOutputValue" where
  "cast_TxOutputValue out = \<lparr>ov_Address = AddressString (to_Address out), ov_Amount = to_Amount out, ov_Node = AddressString (to_Node out)\<rparr>"

definition cast_TxValue :: "PbTransaction \<Rightarrow> TxValue" where
  "cast_TxValue tx = \<lparr>tv_Num = pt_Num tx, tv_Type = pt_Type tx, tv_Timestamp = pt_Timestamp tx, tv_Hash = HashString (pt_Hash tx),
     tv_Fee = pt_Fee tx, tv_Data = pt_Data tx, tv_Inputs = map cast_TxInputValue (pt_Inputs tx),
     tv_Outputs = map cast_TxOutputValue (pt_Outputs tx)\<rparr>"

definition cast_BlockValue :: "Block \<Rightarrow> BlockValue" where
  "cast_BlockValue b = \<lparr>bv_Num = bk_Num b, bv_Slot = bk_Slot b, bv_Hash = HashString (bk_Hash b), bv_Parent = HashString (bk_Parent b),
     bv_Timestamp = bk_Timestamp b, bv_Proposer = ConvSign (bk_Proposer b), bv_Approvers = map ConvSign (bk_Approvers b),
     bv_Slashers = map ConvSign (bk_Slashers b), bv_Transactions = map cast_TxValue (bk_Transactions b)\<rparr>"

definition cast_TxOutput :: "TxOutputValue \<Rightarrow> TxOutput" where
  "cast_TxOutput outv = NewOutput (HexToAddress (ov_Address outv)) (ov_Amount outv) (HexToAddress (ov_Node outv))"

definition cast_TxInput :: "TxInputValue \<Rightarrow> TxInput" where
  "cast_TxInput v = \<lparr>ti_Hash = HexToHash (iv_Hash v), ti_Index = iv_Index v, ti_Address = HexToAddress (iv_Address v),
     ti_Amount = iv_Amount v, ti_Node = HexToAddress (iv_Node v)\<rparr>"

definition calculateCost :: "PbTransaction \<Rightarrow> uint32" where
  "calculateCost tx = word_of_nat (Tx_SizeSSZ tx) * ucast (pt_Fee tx)"

definition cast_SignedTxValue :: "PbTransaction \<Rightarrow> SignedTxValue" where
  "cast_SignedTxValue tx = \<lparr>sx_Data = Some (cast_TxValue tx), sx_Signature = Encode (pt_Signature tx), sx_TxCost = calculateCost tx\<rparr>"

definition cast_NotSignedTxValue :: "PbTransaction \<Rightarrow> NotSignedTxValue" where
  "cast_NotSignedTxValue tx = \<lparr>nx_Data = Some (cast_TxValue tx), nx_Signature = ''sign here'', nx_TxCost = calculateCost tx\<rparr>"

definition TxFromTxValue :: "SignedTxValue option \<Rightarrow> PbTransaction option" where
  "TxFromTxValue txv = Option.bind txv (\<lambda>v. Option.bind (sx_Data v) (\<lambda>d.
     Some \<lparr>pt_Num = tv_Num d, pt_Type = tv_Type d, pt_Timestamp = tv_Timestamp d, pt_Hash = HexToHash (tv_Hash d), pt_Fee = tv_Fee d,
       pt_Data = tv_Data d, pt_Inputs = map cast_TxInput (tv_Inputs d), pt_Outputs = map cast_TxOutput (tv_Outputs d),
       pt_Signature = FromHex (sx_Signature v), pt_Status = 0\<rparr>))"

text \<open>The messages whose hashes and addresses have their length or are absent.\<close>

definition tx_wf :: "PbTransaction \<Rightarrow> bool" where
  "tx_wf tx \<longleftrightarrow> hash_ok (pt_Hash tx)
     \<and> (\<forall>i \<in> set (pt_Inputs tx). hash_ok (ti_Hash i) \<and> addr_ok (ti_Address i) \<and> addr_ok (ti_Node i))
     \<and> (\<forall>out \<in> set (pt_Outputs tx). addr_ok (to_Address out) \<and> addr_ok (to_Node out))"

lemma cast_input_back: "hash_ok (ti_Hash i) \<Longrightarrow> addr_ok (ti_Address i) \<Longrightarrow> addr_ok (ti_Node i) \<Longrightarrow> cast_TxInput (cast_TxInputValue i) = i"
  by (simp add: cast_TxInput_def cast_TxInputValue_def HashString_def AddressString_def)

lemma cast_output_back: "addr_ok (to_Address out) \<Longrightarrow> addr_ok (to_Node out) \<Longrightarrow> cast_TxOutput (cast_TxOutputValue out) = out"
  by (simp add: cast_TxOutput_def cast_TxOutputValue_def AddressString_def NewOutput_def)

lemma cast_tx_back:
  assumes "tx_wf tx"
  shows "TxFromTxValue (Some (cast_SignedTxValue tx)) = Some (tx\<lparr>pt_Status := 0\<rparr>)"
proof -
  have "map (\<lambda>i. cast_TxInput (cast_TxInputValue i)) (pt_Inputs tx) = pt_Inputs tx"
    "map (\<lambda>out. cast_TxOutput (cast_TxOutputValue out)) (pt_Outputs tx) = pt_Outputs tx"
    using assms by (auto simp: tx_wf_def cast_input_back cast_output_back intro!: map_idI)
  then show ?thesis using assms by (simp add: TxFromTxValue_def cast_SignedTxValue_def cast_TxValue_def comp_def HashString_def tx_wf_def)
qed

subsection \<open>The attestation service (core/attestation/service.go)\<close>

text \<open>
  \<open>SendRawTx\<close> returns its error and what it sends on the feed of transactions.  \<open>GetFee\<close> and \<open>GetPendingTransactions\<close> sort the queue
  of the pool.  \<open>waitSyncing\<close> announces the staking pool.
\<close>

definition status_Error :: "error \<Rightarrow> error" where
  "status_Error e = Wrap e ''rpc error: code = Code(17)''"

definition att_SendRawTx :: "CryspValidator \<Rightarrow> Pool \<Rightarrow> PbTransaction \<Rightarrow> error option \<times> Transaction list" where
  "att_SendRawTx cv pool tx = (case Transaction_MarshalSSZTo [] tx of
     Inl _ \<Rightarrow> (Some (status_Error (Errorf ''Transaction has bad format'')), [])
   | Inr _ \<Rightarrow>
      (case validateTx cv pool (NewTransaction tx) of
         Some e \<Rightarrow> (Some (status_Error e), [])
       | None \<Rightarrow> (None, [NewTransaction tx])))"

definition att_GetFee :: "RDOBlockChainConfig \<Rightarrow> sorter \<Rightarrow> Pool \<Rightarrow> Pool \<times> uint64" where
  "att_GetFee cfg srt pool = GetFeePrice cfg srt pool"

definition att_GetPendingTransactions :: "sorter \<Rightarrow> Pool \<Rightarrow> Pool \<times> PbTransaction list" where
  "att_GetPendingTransactions srt pool = (let pool = GetQueue srt pool in (pool, map (\<lambda>p. tx_tx (deref pool p)) (tp_pending pool)))"

definition waitSyncing :: "error + UTxO list \<Rightarrow> StakingPool \<Rightarrow> StakingPool \<times> error option \<times> State list" where
  "waitSyncing deposits p = (case StakingPool_Init p deposits of (p, Some e) \<Rightarrow> (p, Some e, []) | (p, None) \<Rightarrow> (p, None, [StakePoolInitialized]))"

definition StakersLimitReached :: "CryspValidator \<Rightarrow> Pool \<Rightarrow> PbTransaction \<Rightarrow> error option" where
  "StakersLimitReached cv pool tx = Pool_CheckMaxStakers cv pool (NewTransaction tx)"

subsection \<open>Taking transactions (rpc/attestation)\<close>

text \<open>
  The JSON decoder is a parameter: it returns the message and an error.  A request that ends early leaves the message empty.
\<close>

definition io_EOF :: error where
  "io_EOF = Sentinel ''EOF''"

definition rpc_MarshalTx :: "bytes \<Rightarrow> string" where
  "rpc_MarshalTx data = Encode data"

definition rpc_UnmarshalTx :: "(bytes \<Rightarrow> SignedTxValue \<times> error option) \<Rightarrow> string \<Rightarrow> error + PbTransaction" where
  "rpc_UnmarshalTx json s = (case json (FromHex s) of (protoReq, err) \<Rightarrow>
     if err \<noteq> None \<and> err \<noteq> Some io_EOF then Inl (the err)
     else (case TxFromTxValue (Some protoReq) of None \<Rightarrow> Inl (Errorf ''Empty transaction data'') | Some tx \<Rightarrow> Inr tx))"

record ErrorResponse =
  er_Error :: "error option"

definition ErrWrongTxType :: error where
  "ErrWrongTxType = Errorf ''Wrong transaction type.''"

definition sendTx :: "CryspValidator \<Rightarrow> Pool \<Rightarrow> SendTxRequest \<Rightarrow> uint32 \<Rightarrow> ErrorResponse \<times> error option \<times> Transaction list" where
  "sendTx cv pool request txType =
    (let txv = sq_Tx request in
     case SignedTxValue_validate False txv of
       Some e \<Rightarrow> (\<lparr>er_Error = Some (Errorf (verror_Error e))\<rparr>, Some (status_Error (Errorf (verror_Error e))), [])
     | None \<Rightarrow>
      (case TxFromTxValue txv of
         None \<Rightarrow> (let err = Errorf ''Nil tx given.'' in (\<lparr>er_Error = Some err\<rparr>, Some err, []))
       | Some tx \<Rightarrow>
          (case Transaction_validate False tx of
             Some e \<Rightarrow> (\<lparr>er_Error = Some (Errorf (verror_Error e))\<rparr>, Some (status_Error (Errorf (verror_Error e))), [])
           | None \<Rightarrow>
             if pt_Type tx \<noteq> txType then (\<lparr>er_Error = Some ErrWrongTxType\<rparr>, Some ErrWrongTxType, [])
             else (case att_SendRawTx cv pool tx of
                 (Some err, sent) \<Rightarrow> (\<lparr>er_Error = Some err\<rparr>, Some err, sent)
               | (None, sent) \<Rightarrow> (\<lparr>er_Error = None\<rparr>, None, sent)))))"

definition SendLegacyTx :: "CryspValidator \<Rightarrow> Pool \<Rightarrow> SendTxRequest \<Rightarrow> ErrorResponse \<times> error option \<times> Transaction list" where
  "SendLegacyTx cv pool request = sendTx cv pool request NormalTxType"

definition SendStakeTx :: "CryspValidator \<Rightarrow> Pool \<Rightarrow> SendTxRequest \<Rightarrow> ErrorResponse \<times> error option \<times> Transaction list" where
  "SendStakeTx cv pool request = sendTx cv pool request StakeTxType"

definition SendUnstakeTx :: "CryspValidator \<Rightarrow> Pool \<Rightarrow> SendTxRequest \<Rightarrow> ErrorResponse \<times> error option \<times> Transaction list" where
  "SendUnstakeTx cv pool request = sendTx cv pool request UnstakeTxType"

definition rpc_SendRawTx :: "(bytes \<Rightarrow> SignedTxValue \<times> error option) \<Rightarrow> CryspValidator \<Rightarrow> Pool \<Rightarrow> RawTxRequest \<Rightarrow>
    ErrorResponse option \<times> error option \<times> Transaction list" where
  "rpc_SendRawTx json cv pool request =
    (if length (rq_Data request) = 0 then (None, Some (status_Error (Errorf ''Empty request given.'')), [])
     else (case rpc_UnmarshalTx json (rq_Data request) of
         Inl e \<Rightarrow> (Some \<lparr>er_Error = Some e\<rparr>, Some (status_Error e), [])
       | Inr tx \<Rightarrow>
          (case att_SendRawTx cv pool tx of
             (Some err, sent) \<Rightarrow> (Some \<lparr>er_Error = Some err\<rparr>, Some err, sent)
           | (None, sent) \<Rightarrow> (Some \<lparr>er_Error = None\<rparr>, None, sent))))"

definition rpc_GetPendingTransactions :: "sorter \<Rightarrow> Pool \<Rightarrow> Pool \<times> TxValue list" where
  "rpc_GetPendingTransactions srt pool = (case att_GetPendingTransactions srt pool of (pool, txs) \<Rightarrow> (pool, map cast_TxValue txs))"

subsection \<open>Queries (rpc/rdochain/server.go)\<close>

text \<open>
  The server reads the chain service; \<open>qerr\<close> is the error of the SQL query of the call.  The handlers that return no response with an
  error return a sum.  A panic inside a handler, such as for a block that could not be read, is caught by the interceptor of
  the server.
\<close>

record BlockResponse =
  br_Block :: "BlockValue option"
  br_Error :: "error option"

record TransactionResponse =
  tr_Tx :: "TxValue option"
  tr_Error :: "error option"

record NumberResponse =
  nr_Result :: uint64
  nr_Error :: "error option"

record BlocksStartCountResponse =
  cr_Blocks :: "BlockValue list"
  cr_Error :: "error option"

abbreviation verr :: "verror \<Rightarrow> error" where
  "verr e \<equiv> Errorf (verror_Error e)"

definition rpc_GetUTxO :: "error option \<Rightarrow> Service \<Rightarrow> AddressRequest \<Rightarrow> error + ProtoUTxO list" where
  "rpc_GetUTxO qerr s request = (case AddressRequest_validate False request of
     Some e \<Rightarrow> Inl (verr e)
   | None \<Rightarrow> (case FindAllUTxO qerr (om_db (sv_outm s)) (aq_Address request) of
       Inl e \<Rightarrow> Inl e | Inr arr \<Rightarrow> Inr (map cast_ProtoUTxO arr)))"

definition rpc_GetStakeDeposits :: "error option \<Rightarrow> Service \<Rightarrow> AddressRequest \<Rightarrow> error + ProtoUTxO list" where
  "rpc_GetStakeDeposits qerr s request = (case AddressRequest_validate False request of
     Some e \<Rightarrow> Inl (verr e)
   | None \<Rightarrow> (case FindStakeDepositsOfAddress qerr (om_db (sv_outm s)) (aq_Address request) ''all'' of
       Inl e \<Rightarrow> Inl e | Inr arr \<Rightarrow> Inr (map cast_ProtoUTxO arr)))"

definition rpc_GetBlockByNum :: "env \<Rightarrow> BlockChain \<Rightarrow> NumRequest \<Rightarrow> BlockChain \<times> BlockResponse option \<times> error option" where
  "rpc_GetBlockByNum ev bc req = (case NumRequest_validate False req of
     Some e \<Rightarrow> (bc, Some \<lparr>br_Block = None, br_Error = Some (verr e)\<rparr>, Some (verr e))
   | None \<Rightarrow>
      (case (if nq_Num req = ''latest'' then map_prod id (map_sum id Some) (GetHeadBlock ev bc)
             else (case ParseUint (nq_Num req) of
                 None \<Rightarrow> (bc, Inl (status_Error (Errorf ''Wrong number given.'')))
               | Some num \<Rightarrow> (bc, GetBlockByNum ev bc num)))
       of (bc, Inl e) \<Rightarrow> (bc, None, Some e)
        | (bc, Inr None) \<Rightarrow> (let err = Errorf ''Not found block with num'' in (bc, Some \<lparr>br_Block = None, br_Error = Some err\<rparr>, Some err))
        | (bc, Inr (Some b)) \<Rightarrow> (bc, Some \<lparr>br_Block = Some (cast_BlockValue b), br_Error = None\<rparr>, None)))"

definition rpc_GetBlockByHash :: "env \<Rightarrow> BlockChain \<Rightarrow> HashRequest \<Rightarrow> BlockResponse \<times> error option" where
  "rpc_GetBlockByHash ev bc req = (case HashRequest_validate False req of
     Some e \<Rightarrow> (\<lparr>br_Block = None, br_Error = Some (verr e)\<rparr>, Some (verr e))
   | None \<Rightarrow>
      (case GetBlockByHash ev bc (HexToHash (hq_Hash req)) of
         Inl e \<Rightarrow> (\<lparr>br_Block = None, br_Error = Some e\<rparr>, Some e)
       | Inr None \<Rightarrow> (let err = Errorf ''Not found block with hash'' in (\<lparr>br_Block = None, br_Error = Some err\<rparr>, Some err))
       | Inr (Some b) \<Rightarrow> (\<lparr>br_Block = Some (cast_BlockValue b), br_Error = None\<rparr>, None)))"

definition rpc_GetBalance :: "error option \<Rightarrow> Service \<Rightarrow> AddressRequest \<Rightarrow> NumberResponse option \<times> error option" where
  "rpc_GetBalance qerr s req = (case AddressRequest_validate False req of
     Some e \<Rightarrow> (None, Some (verr e))
   | None \<Rightarrow> (case GetBalance qerr s (aq_Address req) of
       Inl e \<Rightarrow> (Some \<lparr>nr_Result = 0, nr_Error = Some e\<rparr>, Some e)
     | Inr balance \<Rightarrow> (Some \<lparr>nr_Result = balance, nr_Error = None\<rparr>, None)))"

definition rpc_GetTransaction :: "env \<Rightarrow> BlockChain \<Rightarrow> HashRequest \<Rightarrow> TransactionResponse \<times> error option" where
  "rpc_GetTransaction ev bc req = (case HashRequest_validate False req of
     Some e \<Rightarrow> (\<lparr>tr_Tx = None, tr_Error = Some (verr e)\<rparr>, Some (verr e))
   | None \<Rightarrow> (case GetTransaction ev bc (hq_Hash req) of
       Inl e \<Rightarrow> (\<lparr>tr_Tx = None, tr_Error = Some e\<rparr>, Some e)
     | Inr tx \<Rightarrow> (\<lparr>tr_Tx = Some (cast_TxValue tx), tr_Error = None\<rparr>, None)))"

definition rpc_GetTransactionsCount :: "BlockChain \<Rightarrow> AddressRequest \<Rightarrow> NumberResponse option \<times> error option" where
  "rpc_GetTransactionsCount bc request = (case AddressRequest_validate False request of
     Some e \<Rightarrow> (None, Some (verr e))
   | None \<Rightarrow> (case GetTransactionsCount bc (HexToAddress (aq_Address request)) of
       Inl e \<Rightarrow> (Some \<lparr>nr_Result = 0, nr_Error = Some e\<rparr>, Some e)
     | Inr nonce \<Rightarrow> (Some \<lparr>nr_Result = nonce, nr_Error = None\<rparr>, None)))"

text \<open>A block that could not be read is nil and the conversion dereferences it.\<close>

definition rpc_GetBlocksStartCount :: "env \<Rightarrow> BlockChain \<Rightarrow> BlocksStartCountRequest \<Rightarrow> BlocksStartCountResponse \<times> error option" where
  "rpc_GetBlocksStartCount ev bc request = (case BlocksStartCountRequest_validate False request of
     Some e \<Rightarrow> (\<lparr>cr_Blocks = [], cr_Error = Some (verr e)\<rparr>, Some (verr e))
   | None \<Rightarrow>
      (case GetBlocksStartCount ev bc (cq_Start request) (cq_Limit request) of
         Inl e \<Rightarrow> (\<lparr>cr_Blocks = [], cr_Error = Some e\<rparr>, Some e)
       | Inr blocks \<Rightarrow>
          if None \<in> set blocks then (\<lparr>cr_Blocks = [], cr_Error = None\<rparr>, Some (Panic ''invalid memory address or nil pointer dereference''))
          else (\<lparr>cr_Blocks = map (\<lambda>b. cast_BlockValue (the b)) blocks, cr_Error = None\<rparr>, None)))"

definition rpc_ListValidators :: "StakingPool \<Rightarrow> string list" where
  "rpc_ListValidators p = ListValidators p"

definition rpc_ListStakeValidators :: "RDOBlockChainConfig \<Rightarrow> StakingPool \<Rightarrow> string list" where
  "rpc_ListStakeValidators cfg p = ListStakeValidators cfg p"

definition rpc_GetMarketCap :: "Service \<Rightarrow> uint64" where
  "rpc_GetMarketCap s = GetSystemBalance s"

subsection \<open>Queries return the stored chain\<close>

lemma start_count_loop_chain:
  assumes c: "chain_of ev bc bs" and fits: "length bs < 2 ^ 64"
  shows "unat index \<le> length bs \<Longrightarrow> start_count_loop ev bc index n = map Some (take n (drop (unat index) bs))"
proof (induction n arbitrary: index)
  case (Suc n)
  note I = chain_ofD [OF c]
  show ?case
  proof (cases "unat index < length bs")
    case True
    then have u: "unat (index + 1) = Suc (unat index)" using fits by (subst unat_add_lem [THEN iffD1]) simp_all
    have "GetBlockByNum ev bc index = Inr (Some (bs ! unat index))"
      using True I(1) by (intro chain_of_num [OF c]) (simp add: word_le_nat_alt)
    moreover have "drop (unat index) bs = bs ! unat index # drop (Suc (unat index)) bs" using True by (simp add: Cons_nth_drop_Suc)
    ultimately show ?thesis using Suc.IH [of "index + 1"] True u by simp
  next
    case False
    then have "bc_headBlockNum bc < index" using Suc.prems I(1) by (simp add: word_less_nat_alt)
    then have "GetBlockByNum ev bc index = Inl ErrNotForgedBlock" by (auto simp: GetBlockByNum_def GetHeadBlockNum_def)
    then show ?thesis using False by simp
  qed
qed simp

lemma unat_nonneg: "0 \<le> sint (x :: uint64) \<Longrightarrow> unat x = nat (sint x)"
proof -
  assume *: "0 \<le> sint x"
  have "sint x < 2 ^ 63" using sint_lt [of x] by simp
  then have "uint (word_of_int (sint x) :: uint64) = sint x" using * by (simp only: uint_word_of_int_eq) (simp add: take_bit_int_eq_self)
  then have "uint x = sint x" by simp
  then show ?thesis by (metis unat_eq_nat_uint)
qed

lemma unat_negative: "sint (x :: uint64) < 0 \<Longrightarrow> unat (- x) = nat (- sint x)"
proof -
  assume *: "sint x < 0"
  have "- sint x \<le> 2 ^ 63" using sint_ge [of x] by simp
  then have "uint (word_of_int (- sint x) :: uint64) = - sint x" using * by (simp only: uint_word_of_int_eq) (simp add: take_bit_int_eq_self)
  then have "uint (- x) = - sint x" by simp
  then show ?thesis by (metis unat_eq_nat_uint)
qed

text \<open>
  The query by count for every start and limit.  A start counts from the front, or from the back when it is negative; the whole chain counted
  from the back is refused.
\<close>

lemma GetBlocksStartCount_chain:
  assumes c: "chain_of ev bc bs" and fits: "length bs < 2 ^ 63"
  shows "GetBlocksStartCount ev bc start limit =
    (if \<bar>sint start\<bar> \<ge> int (length bs) then Inl (Errorf ''start index is too far off'')
     else if limit > 1000 then Inl (Errorf ''the limit is too large'')
     else Inr (map Some (take (unat limit) (drop (nat (if sint start < 0 then int (length bs) + sint start else sint start)) bs))))"
proof (cases "sint start < 0")
  case True
  let ?h = "bc_headBlockNum bc"
  have h: "length bs = Suc (unat ?h)" by (rule chain_ofD(1) [OF c])
  note u = unat_negative [OF True]
  have "- start > ?h \<longleftrightarrow> length bs \<le> nat (- sint start)" using u h by (simp add: word_less_nat_alt Suc_le_eq)
  also have "\<dots> \<longleftrightarrow> \<bar>sint start\<bar> \<ge> int (length bs)" using True by linarith
  finally have far: "- start > ?h \<longleftrightarrow> \<bar>sint start\<bar> \<ge> int (length bs)" .
  have "unat (?h + start + 1) = nat (int (length bs) + sint start)" if "\<not> - start > ?h"
  proof -
    have "unat (?h - (- start)) = unat ?h - nat (- sint start)" using that u by (subst unat_sub) (simp_all add: not_less)
    then have d: "unat (?h + start) = unat ?h - nat (- sint start)" by simp
    have "nat (- sint start) \<le> unat ?h" using that u by (simp add: not_less word_le_nat_alt)
    then have e: "Suc (unat ?h - nat (- sint start)) = nat (int (length bs) + sint start)" using h True by linarith
    have "unat (?h + start + 1) = Suc (unat ?h - nat (- sint start))"
      using d h fits by (subst unat_add_lem [THEN iffD1]) simp_all
    then show ?thesis using e by simp
  qed
  moreover have "nat (int (length bs) + sint start) \<le> length bs" using True by simp
  ultimately show ?thesis
    using start_count_loop_chain [OF c, of "?h + start + 1"] True far fits
    by (simp add: GetBlocksStartCount_def GetHeadBlockNum_def word_sless_alt)
next
  case False
  let ?h = "bc_headBlockNum bc"
  have h: "length bs = Suc (unat ?h)" by (rule chain_ofD(1) [OF c])
  have u: "unat start = nat (sint start)" using False by (intro unat_nonneg) simp
  have "start > ?h \<longleftrightarrow> length bs \<le> nat (sint start)" using u h by (simp add: word_less_nat_alt Suc_le_eq)
  also have "\<dots> \<longleftrightarrow> \<bar>sint start\<bar> \<ge> int (length bs)" using False h by linarith
  finally have far: "start > ?h \<longleftrightarrow> \<bar>sint start\<bar> \<ge> int (length bs)" .
  have pos: "start > ?h \<Longrightarrow> 0 < sint start" using u False by (auto simp: word_less_nat_alt)
  have "unat start \<le> length bs" if "\<not> start > ?h" using that h by (simp add: word_less_nat_alt)
  then show ?thesis
    using start_count_loop_chain [OF c, of start] False far pos u fits
    by (simp add: GetBlocksStartCount_def GetHeadBlockNum_def word_sless_alt)
qed

lemma runes_hash: "length h = 32 \<Longrightarrow> RuneCountInString (Hash_Hex h) = 66"
  by (auto simp: Hash_Hex_def)

lemma itoa_not_latest: "itoa n \<noteq> ''latest''"
proof
  assume "itoa n = ''latest''"
  then have "list_all is_digit ''latest''" using itoa_digits [of n] by simp
  then show False by simp
qed

lemma runes_digits: "RuneCountInString (itoa n) \<ge> 1"
proof -
  obtain c cs where "itoa n = c # cs" using itoa_digits [of n] by (cases "itoa n") auto
  then show ?thesis by simp
qed

lemma rpc_num:
  "rpc_GetBlockByNum ev bc \<lparr>nq_Num = itoa (unat num)\<rparr> =
    (case GetBlockByNum ev bc num of
       Inl e \<Rightarrow> (bc, None, Some e)
     | Inr None \<Rightarrow> (let err = Errorf ''Not found block with num'' in (bc, Some \<lparr>br_Block = None, br_Error = Some err\<rparr>, Some err))
     | Inr (Some b) \<Rightarrow> (bc, Some \<lparr>br_Block = Some (cast_BlockValue b), br_Error = None\<rparr>, None))"
proof -
  have v: "NumRequest_validate False \<lparr>nq_Num = itoa (unat num)\<rparr> = None"
    using runes_digits [of "unat num"] by (simp only: NumRequest_validate_def run_checks_None) simp
  show ?thesis by (simp add: rpc_GetBlockByNum_def v itoa_not_latest ParseUint_itoa split: sum.split option.split)
qed

lemma rpc_hash:
  assumes "length h = 32"
  shows "rpc_GetBlockByHash ev bc \<lparr>hq_Hash = Hash_Hex h\<rparr> =
    (case GetBlockByHash ev bc h of
       Inl e \<Rightarrow> (\<lparr>br_Block = None, br_Error = Some e\<rparr>, Some e)
     | Inr None \<Rightarrow> (let err = Errorf ''Not found block with hash'' in (\<lparr>br_Block = None, br_Error = Some err\<rparr>, Some err))
     | Inr (Some b) \<Rightarrow> (\<lparr>br_Block = Some (cast_BlockValue b), br_Error = None\<rparr>, None))"
proof -
  have v: "HashRequest_validate False \<lparr>hq_Hash = Hash_Hex h\<rparr> = None"
    using runes_hash [OF assms] by (simp only: HashRequest_validate_def run_checks_None) simp
  show ?thesis using assms by (simp add: rpc_GetBlockByHash_def v hash_ok_def)
qed

text \<open>
  C15. The queries show the stored chain, and report an error for everything else.  A number of a block returns the block, a number beyond the chain is
  an error; the hash of a block returns the block, any other 32 bytes are an error.  A count from a start at the front or, when the start is negative, from the back
  returns that part of the chain with no gap, at most as many blocks as asked for; it is an error when the distance of the start is not smaller than the
  length of the chain (so that the whole chain, which has blocks at this distance from the back, cannot be counted from the back), and when more than 1000 blocks are asked for.
\<close>

theorem rpc_reads_chain:
  assumes c: "chain_of ev bc bs" and fits: "length bs < 2 ^ 63"
  shows "(\<forall>num :: uint64. if unat num < length bs
        then rpc_GetBlockByNum ev bc \<lparr>nq_Num = itoa (unat num)\<rparr> =
          (bc, Some \<lparr>br_Block = Some (cast_BlockValue (bs ! unat num)), br_Error = None\<rparr>, None)
        else rpc_GetBlockByNum ev bc \<lparr>nq_Num = itoa (unat num)\<rparr> = (bc, None, Some ErrNotForgedBlock))
    \<and> (\<forall>b \<in> set bs. length (bk_Hash b) = 32 \<longrightarrow>
        rpc_GetBlockByHash ev bc \<lparr>hq_Hash = Hash_Hex (bk_Hash b)\<rparr> = (\<lparr>br_Block = Some (cast_BlockValue b), br_Error = None\<rparr>, None))
    \<and> (\<forall>h. length h = 32 \<and> h \<notin> bk_Hash ` set bs \<longrightarrow>
        snd (rpc_GetBlockByHash ev bc \<lparr>hq_Hash = Hash_Hex h\<rparr>) = Some (Errorf ''Not found block with hash''))
    \<and> (\<forall>start limit. rpc_GetBlocksStartCount ev bc \<lparr>cq_Start = start, cq_Limit = limit\<rparr> =
        (if \<bar>sint start\<bar> \<ge> int (length bs)
         then (\<lparr>cr_Blocks = [], cr_Error = Some (Errorf ''start index is too far off'')\<rparr>, Some (Errorf ''start index is too far off''))
         else if limit > 1000
         then (\<lparr>cr_Blocks = [], cr_Error = Some (Errorf ''the limit is too large'')\<rparr>, Some (Errorf ''the limit is too large''))
         else (\<lparr>cr_Blocks = map cast_BlockValue (take (unat limit)
                 (drop (nat (if sint start < 0 then int (length bs) + sint start else sint start)) bs)), cr_Error = None\<rparr>, None)))"
proof (intro conjI allI ballI impI)
  note I = chain_ofD [OF c]
  fix num :: uint64
  show "if unat num < length bs
        then rpc_GetBlockByNum ev bc \<lparr>nq_Num = itoa (unat num)\<rparr> =
          (bc, Some \<lparr>br_Block = Some (cast_BlockValue (bs ! unat num)), br_Error = None\<rparr>, None)
        else rpc_GetBlockByNum ev bc \<lparr>nq_Num = itoa (unat num)\<rparr> = (bc, None, Some ErrNotForgedBlock)"
  proof (cases "unat num < length bs")
    case True
    then have "GetBlockByNum ev bc num = Inr (Some (bs ! unat num))" using I(1) by (intro chain_of_num [OF c]) (simp add: word_le_nat_alt)
    then show ?thesis using True by (simp add: rpc_num)
  next
    case False
    then have "bc_headBlockNum bc < num" using I(1) by (simp add: word_less_nat_alt)
    then have "GetBlockByNum ev bc num = Inl ErrNotForgedBlock" by (auto simp: GetBlockByNum_def GetHeadBlockNum_def)
    then show ?thesis using False by (simp add: rpc_num)
  qed
next
  fix b assume "b \<in> set bs" "length (bk_Hash b) = 32"
  then show "rpc_GetBlockByHash ev bc \<lparr>hq_Hash = Hash_Hex (bk_Hash b)\<rparr> = (\<lparr>br_Block = Some (cast_BlockValue b), br_Error = None\<rparr>, None)"
    using chain_ofD(11,12) [OF c] by (simp add: rpc_hash by_hash_mem)
next
  fix h :: bytes assume "length h = 32 \<and> h \<notin> bk_Hash ` set bs"
  then show "snd (rpc_GetBlockByHash ev bc \<lparr>hq_Hash = Hash_Hex h\<rparr>) = Some (Errorf ''Not found block with hash'')"
    using chain_ofD(12) [OF c, of h] by_hash_None [of bs h] by (simp add: rpc_hash Let_def)
next
  fix start :: "64 word" and limit :: uint32
  show "rpc_GetBlocksStartCount ev bc \<lparr>cq_Start = start, cq_Limit = limit\<rparr> =
        (if \<bar>sint start\<bar> \<ge> int (length bs)
         then (\<lparr>cr_Blocks = [], cr_Error = Some (Errorf ''start index is too far off'')\<rparr>, Some (Errorf ''start index is too far off''))
         else if limit > 1000
         then (\<lparr>cr_Blocks = [], cr_Error = Some (Errorf ''the limit is too large'')\<rparr>, Some (Errorf ''the limit is too large''))
         else (\<lparr>cr_Blocks = map cast_BlockValue (take (unat limit)
                 (drop (nat (if sint start < 0 then int (length bs) + sint start else sint start)) bs)), cr_Error = None\<rparr>, None))"
    unfolding rpc_GetBlocksStartCount_def BlocksStartCountRequest_validate_def BlocksStartCountRequest.simps
      GetBlocksStartCount_chain [OF c fits, of start limit]
    by (auto simp: comp_def)
qed

theorem rpc_reads_chain_witness:
  "\<exists>bc. rpc_GetBlockByNum node_env bc \<lparr>nq_Num = itoa (unat (0 :: uint64))\<rparr> =
      (bc, Some \<lparr>br_Block = Some (cast_BlockValue node_genesis), br_Error = None\<rparr>, None)
    \<and> rpc_GetBlockByNum node_env bc \<lparr>nq_Num = itoa (unat (5 :: uint64))\<rparr> = (bc, None, Some ErrNotForgedBlock)
    \<and> rpc_GetBlocksStartCount node_env bc \<lparr>cq_Start = 0, cq_Limit = 10\<rparr> = (\<lparr>cr_Blocks = [cast_BlockValue node_genesis], cr_Error = None\<rparr>, None)
    \<and> snd (rpc_GetBlocksStartCount node_env bc \<lparr>cq_Start = - 1, cq_Limit = 10\<rparr>) = Some (Errorf ''start index is too far off'')"
proof -
  obtain bc where c: "chain_of node_env bc [node_genesis]" using node_starts by blast
  have "length [node_genesis] < 2 ^ 63" by simp
  note R = rpc_reads_chain [OF c this]
  note N = conjunct1 [OF R, rule_format] and C = conjunct2 [OF conjunct2 [OF conjunct2 [OF R]], rule_format]
  show ?thesis using N [of 0] N [of 5] C [of 0 10] C [of "- 1" 10] by (intro exI [of _ bc]) simp
qed

end
