(* ===== verification/Generator.thy ===== *)
theory Generator
  imports Rpc Keys
begin

text \<open>
  The generator of transactions (\<^verbatim>\<open>generator/service.go\<close>) and its server (\<^verbatim>\<open>rpc/generator/server.go\<close>): it looks up the outputs of an
  address, spends all of them, pays the fee and returns the change.  The theorems follow a payment through the node: the
  transaction that \<open>UnsafeSend\<close> returns is accepted by \<open>SendLegacyTx\<close> of the same node and gets into the pool.
  Keys are passed on as their 32 bytes; the size of a transaction and so its
  fee do not depend on the clock, so that one reading \<open>now\<close> stands for the readings of a call.
\<close>

subsection \<open>The service\<close>

record GeneratorService =
  gs_chain :: Service
  gs_validator :: CryspValidator
  gs_txPool :: Pool
  gs_stakePool :: StakingPool
  gs_stakeAmount :: uint64
  gs_blackHole :: bytes

definition NewGenerator :: "RDOBlockChainConfig \<Rightarrow> Service \<Rightarrow> CryspValidator \<Rightarrow> Pool \<Rightarrow> StakingPool \<Rightarrow> GeneratorService" where
  "NewGenerator cfg chain cv pool sp = \<lparr>gs_chain = chain, gs_validator = cv, gs_txPool = pool, gs_stakePool = sp,
     gs_stakeAmount = cf_StakeSlotUnit cfg * cf_RoiPerRdo cfg, gs_blackHole = HexToAddress BlackHoleAddress\<rparr>"

definition getAddress :: "crypto \<Rightarrow> string \<Rightarrow> error + (bytes \<times> bytes)" where
  "getAddress c privKey =
    (if length privKey < 2 then Inl (Panic ''slice bounds out of range'')
     else (case HexToECDSA c (drop 2 privKey) of
         Inl e \<Rightarrow> Inl e
       | Inr key \<Rightarrow> Inr (key_address c key, FromECDSA (Some key))))"

definition gen_inputs :: "UTxO list \<Rightarrow> TxInput list \<times> uint64" where
  "gen_inputs utxo = (map UTxO_ToPbInput utxo, sum_list (map uo_Amount utxo))"

definition getBalance :: "error option \<Rightarrow> GeneratorService \<Rightarrow> string \<Rightarrow> error + (TxInput list \<times> uint64)" where
  "getBalance qerr g address = (case FindAllUTxO qerr (om_db (sv_outm (gs_chain g))) address of
     Inl e \<Rightarrow> Inl e | Inr utxo \<Rightarrow> Inr (gen_inputs utxo))"

definition GetTransactionsCountHex :: "GeneratorService \<Rightarrow> string \<Rightarrow> error + uint64" where
  "GetTransactionsCountHex g addr = GetTransactionsCount (sv_bc (gs_chain g)) (HexToAddress addr)"

definition genTxStruct :: "uint64 \<Rightarrow> GeneratorService \<Rightarrow> TxInput list \<Rightarrow> TxOutput list \<Rightarrow> uint64 \<Rightarrow> uint64 \<Rightarrow> bytes \<Rightarrow> uint32 \<Rightarrow> error + TxOptions" where
  "genTxStruct now g inputs outputs fee balance address typev =
    (let value = sum_list (map to_Amount outputs) in
     if value \<ge> balance then Inl (Errorf ''Not enough balance on the wallet.'')
     else (case GetTransactionsCountHex g (Address_Hex address) of
         Inl e \<Rightarrow> Inl e
       | Inr nonce \<Rightarrow>
         (let opts = \<lparr>op_Inputs = inputs, op_Outputs = outputs, op_Fee = fee, op_Data = [], op_Num = nonce + 1, op_Type = typev, op_Timestamp = 0\<rparr>;
              (realFee, extraFee) = CountTxFee now opts;
              price = realFee + value in
          if price > balance then Inl (Errorf ''Not enough balance to pay fee.'')
          else if balance > price then
            (if balance > extraFee + value
             then Inr (opts\<lparr>op_Outputs := outputs @ [NewOutput address (balance - value - extraFee) []]\<rparr>)
             else Inl (Errorf ''Not enough balance to pay fee.''))
          else Inr opts)))"

definition createTx :: "env \<Rightarrow> error option \<Rightarrow> uint64 \<Rightarrow> GeneratorService \<Rightarrow> bytes \<Rightarrow> bytes option \<Rightarrow> TxOutput list \<Rightarrow> uint64 \<Rightarrow> uint32 \<Rightarrow>
    error + PbTransaction" where
  "createTx ev qerr now g address key outputs fee typev =
    (case getBalance qerr g (Address_Hex address) of
       Inl e \<Rightarrow> Inl e
     | Inr (inputsArr, balance) \<Rightarrow>
        if balance = 0 then Inl (Errorf ''Zero balance.'')
        else (case genTxStruct now g inputsArr outputs fee balance address typev of
            Inl e \<Rightarrow> Inl e
          | Inr opts \<Rightarrow> NewPbTransaction (ev_crypto ev) now opts key))"

definition GenerateUnsafeTx :: "env \<Rightarrow> error option \<Rightarrow> uint64 \<Rightarrow> GeneratorService \<Rightarrow> TxOutput list \<Rightarrow> uint64 \<Rightarrow> string \<Rightarrow> error + PbTransaction" where
  "GenerateUnsafeTx ev qerr now g outputs fee hexKey = (case getAddress (ev_crypto ev) hexKey of
     Inl e \<Rightarrow> Inl e
   | Inr (address, key) \<Rightarrow> createTx ev qerr now g address (Some key) outputs fee NormalTxType)"

definition GenerateTx :: "env \<Rightarrow> error option \<Rightarrow> uint64 \<Rightarrow> GeneratorService \<Rightarrow> TxOutput list \<Rightarrow> uint64 \<Rightarrow> string \<Rightarrow> error + PbTransaction" where
  "GenerateTx ev qerr now g outputs fee address = createTx ev qerr now g (HexToAddress address) None outputs fee NormalTxType"

text \<open>The checks and the output of a stake, shared by the two ways to ask for it.\<close>

definition wrong_stake :: "GeneratorService \<Rightarrow> uint64 \<Rightarrow> string \<Rightarrow> string \<Rightarrow> error option" where
  "wrong_stake g amount node msg =
    (if gs_stakeAmount g = 0 then Some (Panic ''integer divide by zero'')
     else if amount mod gs_stakeAmount g \<noteq> 0 \<and> (node = '''' \<or> node = BlackHoleAddress) then Some (Errorf msg) else None)"

definition node_address :: "GeneratorService \<Rightarrow> string \<Rightarrow> bytes" where
  "node_address g node = (if node \<noteq> '''' then HexToAddress node else gs_blackHole g)"

definition check_node :: "GeneratorService \<Rightarrow> string \<Rightarrow> PbTransaction \<Rightarrow> error + PbTransaction" where
  "check_node g node transaction =
    (if node \<noteq> BlackHoleAddress then
       (case IsNodeValidator (gs_stakePool g) node of
          Some e \<Rightarrow> Inl e
        | None \<Rightarrow> (case StakersLimitReached (gs_validator g) (gs_txPool g) transaction of Some e \<Rightarrow> Inl e | None \<Rightarrow> Inr transaction))
     else Inr transaction)"

definition GenerateUnsafeStakeTx :: "env \<Rightarrow> error option \<Rightarrow> uint64 \<Rightarrow> GeneratorService \<Rightarrow> uint64 \<Rightarrow> string \<Rightarrow> uint64 \<Rightarrow> string \<Rightarrow> error + PbTransaction" where
  "GenerateUnsafeStakeTx ev qerr now g fee hexKey amount node =
    (case wrong_stake g amount node ''Wrong stake amount given.'' of
       Some e \<Rightarrow> Inl e
     | None \<Rightarrow>
      (case getAddress (ev_crypto ev) hexKey of
         Inl e \<Rightarrow> Inl e
       | Inr (address, key) \<Rightarrow>
          (case createTx ev qerr now g address (Some key) [NewOutput address amount (node_address g node)] fee StakeTxType of
             Inl e \<Rightarrow> Inl e
           | Inr transaction \<Rightarrow> check_node g node transaction)))"

definition GenerateStakeTx :: "env \<Rightarrow> error option \<Rightarrow> uint64 \<Rightarrow> GeneratorService \<Rightarrow> uint64 \<Rightarrow> string \<Rightarrow> uint64 \<Rightarrow> string \<Rightarrow> error + PbTransaction" where
  "GenerateStakeTx ev qerr now g fee addr amount node =
    (case wrong_stake g amount node ''Wrong stake amount given.'' of
       Some e \<Rightarrow> Inl e
     | None \<Rightarrow>
      (let address = HexToAddress addr in
       case createTx ev qerr now g address None [NewOutput address amount (node_address g node)] fee StakeTxType of
         Inl e \<Rightarrow> Inl e
       | Inr transaction \<Rightarrow> if pt_Type transaction = StakeTxType then check_node g node transaction else Inr transaction))"

text \<open>The body of the two functions for unstaking, once the address and the key are known.\<close>

definition unstake_tx :: "env \<Rightarrow> error option \<Rightarrow> uint64 \<Rightarrow> GeneratorService \<Rightarrow> uint64 \<Rightarrow> bytes \<Rightarrow> bytes option \<Rightarrow> uint64 \<Rightarrow> string \<Rightarrow> error + PbTransaction" where
  "unstake_tx ev qerr now g fee address key amount node =
    (case FindStakeDepositsOfAddress qerr (om_db (sv_outm (gs_chain g))) (Address_Hex address) node of
       Inl e \<Rightarrow> Inl e
     | Inr utxo \<Rightarrow>
        if length utxo = 0 then Inl (Errorf ''No stake deposits on your address.'')
        else (case gen_inputs utxo of (inputsArr, balance) \<Rightarrow>
          if balance < amount then Inl (Errorf ''Not enough stake deposits.'')
          else (let stakeLeft = balance - amount in
            case wrong_stake g stakeLeft node ''Bad stake amount.'' of
              Some e \<Rightarrow> Inl e
            | None \<Rightarrow>
              (let outputs = NewOutput address amount [] #
                     (if stakeLeft > 0 then [NewOutput address stakeLeft (node_address g node)] else []) in
               case GetTransactionsCountHex g (Address_Hex address) of
                 Inl e \<Rightarrow> Inl e
               | Inr nonce \<Rightarrow>
                  (let opts = \<lparr>op_Inputs = inputsArr, op_Outputs = outputs, op_Fee = fee, op_Data = [], op_Num = nonce + 1,
                         op_Type = UnstakeTxType, op_Timestamp = 0\<rparr>;
                       realFee = fst (CountTxFee now opts);
                       opts = opts\<lparr>op_Outputs := (hd outputs)\<lparr>to_Amount := amount - realFee\<rparr> # tl outputs\<rparr>
                   in NewPbTransaction (ev_crypto ev) now opts key)))))"

definition GenerateUnsafeUnstakeTx :: "env \<Rightarrow> error option \<Rightarrow> uint64 \<Rightarrow> GeneratorService \<Rightarrow> uint64 \<Rightarrow> string \<Rightarrow> uint64 \<Rightarrow> string \<Rightarrow> error + PbTransaction" where
  "GenerateUnsafeUnstakeTx ev qerr now g fee hexKey amount node =
    (case wrong_stake g amount node ''Wrong stake amount given.'' of
       Some e \<Rightarrow> Inl e
     | None \<Rightarrow> (case getAddress (ev_crypto ev) hexKey of
         Inl e \<Rightarrow> Inl e | Inr (address, key) \<Rightarrow> unstake_tx ev qerr now g fee address (Some key) amount node))"

definition GenerateUnstakeTx :: "env \<Rightarrow> error option \<Rightarrow> uint64 \<Rightarrow> GeneratorService \<Rightarrow> uint64 \<Rightarrow> string \<Rightarrow> uint64 \<Rightarrow> string \<Rightarrow> error + PbTransaction" where
  "GenerateUnstakeTx ev qerr now g fee addr amount node =
    (case wrong_stake g amount node ''Wrong stake amount given.'' of
       Some e \<Rightarrow> Inl e | None \<Rightarrow> unstake_tx ev qerr now g fee (HexToAddress addr) None amount node)"

subsection \<open>The server (rpc/generator/server.go)\<close>

definition UnsafeSend :: "env \<Rightarrow> error option \<Rightarrow> uint64 \<Rightarrow> GeneratorService \<Rightarrow> TxOptionsUnsafeRequest \<Rightarrow> error + SignedTxValue" where
  "UnsafeSend ev qerr now g req = (case TxOptionsUnsafeRequest_validate False req of
     Some e \<Rightarrow> Inl (verr e)
   | None \<Rightarrow>
      if length (uq_Outputs req) = 0 then Inl (Errorf ''Wrong outputs count.'')
      else if \<not> IsHexHash (uq_Key req) then Inl (Errorf ''Wrong private key given.'')
      else (case GenerateUnsafeTx ev qerr now g (map cast_TxOutput (uq_Outputs req)) (uq_Fee req) (uq_Key req) of
          Inl e \<Rightarrow> Inl e | Inr tx \<Rightarrow> Inr (cast_SignedTxValue tx)))"

definition createTxUnsafeStruct :: "env \<Rightarrow> error option \<Rightarrow> uint64 \<Rightarrow> GeneratorService \<Rightarrow> string \<Rightarrow> TxOptionsStakeUnsafeRequest \<Rightarrow> error + SignedTxValue" where
  "createTxUnsafeStruct ev qerr now g meth req = (case TxOptionsStakeUnsafeRequest_validate False req of
     Some e \<Rightarrow> Inl (verr e)
   | None \<Rightarrow>
      if \<not> IsHexHash (kq_Key req) then Inl (Errorf ''Wrong private key given.'')
      else (case (if meth = ''stake'' then GenerateUnsafeStakeTx ev qerr now g (kq_Fee req) (kq_Key req) (kq_Amount req) (kq_Node req)
                  else GenerateUnsafeUnstakeTx ev qerr now g (kq_Fee req) (kq_Key req) (kq_Amount req) (kq_Node req)) of
          Inl e \<Rightarrow> Inl e | Inr tx \<Rightarrow> Inr (cast_SignedTxValue tx)))"

definition gen_Send :: "env \<Rightarrow> error option \<Rightarrow> uint64 \<Rightarrow> GeneratorService \<Rightarrow> TxOptionsRequest \<Rightarrow> error + NotSignedTxValue" where
  "gen_Send ev qerr now g req = (case TxOptionsRequest_validate False req of
     Some e \<Rightarrow> Inl (verr e)
   | None \<Rightarrow>
      if length (oq_Outputs req) = 0 then Inl (Errorf ''Wrong outputs count.'')
      else if \<not> IsHexAddress (oq_Address req) then Inl (Errorf ''Wrong address given.'')
      else (case GenerateTx ev qerr now g (map cast_TxOutput (oq_Outputs req)) (oq_Fee req) (oq_Address req) of
          Inl e \<Rightarrow> Inl e | Inr tx \<Rightarrow> Inr (cast_NotSignedTxValue tx)))"

definition createTxStruct :: "env \<Rightarrow> error option \<Rightarrow> uint64 \<Rightarrow> GeneratorService \<Rightarrow> string \<Rightarrow> TxOptionsStakeRequest \<Rightarrow> error + NotSignedTxValue" where
  "createTxStruct ev qerr now g meth req = (case TxOptionsStakeRequest_validate False req of
     Some e \<Rightarrow> Inl (verr e)
   | None \<Rightarrow>
      if \<not> IsHexAddress (tq_Address req) then Inl (Errorf ''Wrong address given.'')
      else (case (if meth = ''stake'' then GenerateStakeTx ev qerr now g (tq_Fee req) (tq_Address req) (tq_Amount req) (tq_Node req)
                  else GenerateUnstakeTx ev qerr now g (tq_Fee req) (tq_Address req) (tq_Amount req) (tq_Node req)) of
          Inl e \<Rightarrow> Inl e | Inr tx \<Rightarrow> Inr (cast_NotSignedTxValue tx)))"

subsection \<open>A generated transaction balances\<close>

text \<open>The size of the transaction that is built from options.\<close>

definition opts_size :: "TxOptions \<Rightarrow> nat" where
  "opts_size opts = 141 + length (op_Data opts) + sum_list (map (\<lambda>i. 4 + TxInput_SizeSSZ i) (op_Inputs opts))
     + sum_list (map (\<lambda>out. 4 + TxOutput_SizeSSZ out) (op_Outputs opts))"

text \<open>What the outputs and the fee of a transaction with change amount to, in the integers.\<close>

definition cost :: "TxInput list \<Rightarrow> TxOutput list \<Rightarrow> uint64 \<Rightarrow> nat" where
  "cost inputs outputs fee = (\<Sum>out\<leftarrow>outputs. unat (to_Amount out)) + unat fee * (opts_size
     \<lparr>op_Inputs = inputs, op_Outputs = outputs, op_Fee = fee, op_Data = [], op_Num = 0, op_Type = 0, op_Timestamp = 0\<rparr> + 36)"

lemma CountTxFee_size: "CountTxFee now opts = (op_Fee opts * word_of_nat (opts_size opts), op_Fee opts * word_of_nat (opts_size opts + 36))"
  by (simp add: CountTxFee_def Let_def GetRealFee_def Tx_SizeSSZ_def opts_size_def changeOutput_def NewOutput_def TxOutput_SizeSSZ_def)

lemma built_fee: "NewPbTransaction c now opts key = Inr pb \<Longrightarrow> GetRealFee pb = op_Fee opts * word_of_nat (opts_size opts)"
  using NewPbTransaction_fields [of c now opts key pb] by (simp add: GetRealFee_def Tx_SizeSSZ_def opts_size_def)

lemma unat_fee: "unat (f :: uint64) * n < 2 ^ 64 \<Longrightarrow> unat (f * word_of_nat n) = unat f * n"
  by (simp add: unat_word_ariths unat_of_nat take_bit_eq_mod mod_mult_right_eq)

lemma genTxStruct_balanced:
  assumes gen: "genTxStruct now g inputs outputs fee balance address typev = Inr opts"
    and fits: "cost inputs outputs fee < 2 ^ 64"
  shows "op_Inputs opts = inputs" "op_Fee opts = fee" "op_Type opts = typev" "op_Data opts = []" "op_Timestamp opts = 0"
    "\<exists>nonce. GetTransactionsCountHex g (Address_Hex address) = Inr nonce \<and> op_Num opts = nonce + 1"
    "\<exists>change. op_Outputs opts = outputs @ change \<and> (change = [] \<or> (\<exists>amount. amount \<noteq> 0 \<and> change = [NewOutput address amount []]))"
    "unat balance = (\<Sum>out\<leftarrow>op_Outputs opts. unat (to_Amount out)) + unat (op_Fee opts * word_of_nat (opts_size opts))"
proof -
  let ?opts = "\<lambda>nonce. \<lparr>op_Inputs = inputs, op_Outputs = outputs, op_Fee = fee, op_Data = [], op_Num = nonce, op_Type = typev, op_Timestamp = 0\<rparr>"
  define n where "n = opts_size (?opts 0)"
  have n: "opts_size (?opts nonce) = n" for nonce by (simp add: n_def opts_size_def)
  let ?v = "sum_list (map to_Amount outputs)"
  define real extra where "real = fee * word_of_nat n" and "extra = fee * word_of_nat (n + 36)"
  have c: "CountTxFee now (?opts nonce) = (real, extra)" for nonce by (simp add: CountTxFee_size n real_def extra_def)
  have e: "(\<Sum>out\<leftarrow>outputs. unat (to_Amount out)) + unat fee * (n + 36) < 2 ^ 64" using fits by (simp add: cost_def n_def opts_size_def)
  have le: "unat fee * n \<le> unat fee * (n + 36)" by simp
  have v: "unat ?v = (\<Sum>out\<leftarrow>outputs. unat (to_Amount out))" using e by (intro unat_sum_list_le) simp
  have ue: "unat extra = unat fee * (n + 36)" unfolding extra_def by (rule unat_fee) (use e in linarith)
  have ur: "unat real = unat fee * n" unfolding real_def by (rule unat_fee) (use e le in linarith)
  have ev: "unat (extra + ?v) = unat fee * (n + 36) + unat ?v"
    unfolding unat_add64 ue by (rule mod_less) (use e v in linarith)
  have rv: "unat (real + ?v) = unat fee * n + unat ?v"
    unfolding unat_add64 ur by (rule mod_less) (use e v le in linarith)
  obtain nonce where cnt: "GetTransactionsCountHex g (Address_Hex address) = Inr nonce" and vb: "?v < balance" and pr: "\<not> real + ?v > balance"
    and o': "opts = (if balance > real + ?v then (?opts (nonce + 1))\<lparr>op_Outputs := outputs @ [NewOutput address (balance - ?v - extra) []]\<rparr> else ?opts (nonce + 1))"
      "balance > real + ?v \<Longrightarrow> balance > extra + ?v"
    using gen by (auto simp: genTxStruct_def Let_def c not_le split: if_splits sum.splits)
  show "op_Inputs opts = inputs" "op_Fee opts = fee" "op_Type opts = typev" "op_Data opts = []" "op_Timestamp opts = 0"
    "\<exists>nonce. GetTransactionsCountHex g (Address_Hex address) = Inr nonce \<and> op_Num opts = nonce + 1"
    using o' cnt by auto
  let ?chg = "balance - ?v - extra"
  have chg: "unat ?chg = unat balance - unat ?v - unat fee * (n + 36)" "unat ?v + unat fee * (n + 36) < unat balance" if "balance > real + ?v"
  proof -
    have lt: "unat ?v + unat fee * (n + 36) < unat balance" using o'(2) [OF that] ev by (simp add: word_less_nat_alt)
    then have "unat (balance - ?v) = unat balance - unat ?v" by (intro unat_sub) (simp add: word_le_nat_alt)
    moreover from this lt have "unat (balance - ?v - extra) = unat (balance - ?v) - unat extra"
      using ue by (intro unat_sub) (simp add: word_le_nat_alt)
    ultimately show "unat ?chg = unat balance - unat ?v - unat fee * (n + 36)" using ue by simp
    show "unat ?v + unat fee * (n + 36) < unat balance" by (rule lt)
  qed
  then have pos: "balance > real + ?v \<Longrightarrow> ?chg \<noteq> 0" by (auto simp: word_unat_eq_iff)
  then show "\<exists>change. op_Outputs opts = outputs @ change \<and> (change = [] \<or> (\<exists>amount. amount \<noteq> 0 \<and> change = [NewOutput address amount []]))"
    unfolding o'(1) by (cases "balance > real + ?v") (auto intro!: exI [of _ ?chg])
  show "unat balance = (\<Sum>out\<leftarrow>op_Outputs opts. unat (to_Amount out)) + unat (op_Fee opts * word_of_nat (opts_size opts))"
  proof (cases "balance > real + ?v")
    case True
    have "opts_size opts = n + 36" "op_Fee opts = fee" using True n [of 0] by (simp_all add: o'(1) opts_size_def NewOutput_def TxOutput_SizeSSZ_def)
    moreover have "(\<Sum>out\<leftarrow>op_Outputs opts. unat (to_Amount out)) = unat ?v + unat ?chg" using True by (simp add: o'(1) NewOutput_def v)
    ultimately show ?thesis using chg [OF True] ue by (simp add: extra_def)
  next
    case False
    then have "balance = real + ?v" using pr by simp
    moreover have "opts_size opts = n" "op_Fee opts = fee" "op_Outputs opts = outputs" using False n by (simp_all add: o'(1))
    ultimately show ?thesis using rv ur v by (simp add: real_def)
  qed
qed

subsection \<open>The validator accepts the outputs of an address\<close>

abbreviation uo_key :: "UTxO \<Rightarrow> string" where
  "uo_key u \<equiv> GenKeyFromInput (UTxO_ToInput u)"

lemma spentOutputs_other:
  "k \<notin> uo_key ` set us \<Longrightarrow> map_of (fold (\<lambda>uo m. gput (uo_key uo) (UTxO_ToInput uo) m) us m) k = map_of m k"
  by (induction us arbitrary: m) (auto simp: update_conv')

lemma spentOutputs_fold:
  "distinct (map uo_key us) \<Longrightarrow> u \<in> set us \<Longrightarrow>
    map_of (fold (\<lambda>uo m. gput (uo_key uo) (UTxO_ToInput uo) m) us m) (uo_key u) = Some (UTxO_ToInput u)"
  by (induction us arbitrary: m) (auto simp: update_conv' spentOutputs_other)

lemma checkInputsData_complete:
  assumes "distinct (map GenKeyFromInput ins)" "\<forall>i \<in> set ins. map_of m (GenKeyFromInput i) = Some i"
    and "GenKeyFromInput ` set ins \<inter> set spent = {}"
  shows "\<exists>sp. checkInputsData m spent ins = Inr sp"
  using assms by (induction ins arbitrary: spent) (auto simp: Let_def)

lemma genKey_rows:
  assumes "table_wf t"
  shows "distinct (map uo_key (map scanRow (filter P t)))"
proof -
  have "GenKeyFromInput (UTxO_ToInput (scanRow r)) = genKey (fst (row_key r)) (snd (row_key r))" if "r \<in> set t" for r
    using row_key_scan [of t r] that assms by (simp add: GenKeyFromInput_def UTxO_ToInput_def table_wf_def)
  then have m: "map uo_key (map scanRow (filter P t)) = map (\<lambda>k. genKey (fst k) (snd k)) (map row_key (filter P t))"
    by simp
  have "inj_on (\<lambda>k. genKey (fst k) (snd k)) (set (map row_key (filter P t)))"
  proof (rule inj_onI)
    fix x y assume "x \<in> set (map row_key (filter P t))" "y \<in> set (map row_key (filter P t))"
    then obtain h h' where h: "fst x = Hash_Hex h" "fst y = Hash_Hex h'"
      using row_key_scan [of t] assms by (fastforce simp: table_wf_def)
    show "genKey (fst x) (snd x) = genKey (fst y) (snd y) \<Longrightarrow> x = y" unfolding h by (auto simp: genKey_inj prod_eq_iff h)
  qed
  moreover have "distinct (map row_key (filter P t))" using assms by (simp add: table_wf_def table_ok_def distinct_map_filter)
  ultimately show ?thesis unfolding m distinct_map by blast
qed

lemma own_inputs_accepted:
  assumes wf: "table_wf t" and us: "us = map scanRow (filter P t)"
  shows "\<exists>sp. checkInputsData (spentOutputs us) [] (inputSlice (map UTxO_ToPbInput us)) = Inr sp"
proof -
  have ok: "newInput (UTxO_ToPbInput u) = UTxO_ToInput u" if "u \<in> set us" for u
    using that wf by (auto simp: us table_wf_def rows_wf_def uo_ok_def newInput_def UTxO_ToPbInput_def UTxO_ToInput_def NewInput_def UTxO_ToOutput_def NewOutput_def)
  have d: "distinct (map uo_key us)" unfolding us by (rule genKey_rows [OF wf])
  have "inputSlice (map UTxO_ToPbInput us) = map UTxO_ToInput us" using ok by (simp add: inputSlice_def)
  moreover have "\<exists>sp. checkInputsData (spentOutputs us) [] (map UTxO_ToInput us) = Inr sp"
    using d spentOutputs_fold [OF d] by (intro checkInputsData_complete) (simp_all add: comp_def spentOutputs_def)
  ultimately show ?thesis by simp
qed

subsection \<open>From the request to the pool\<close>

text \<open>The outputs that an address can spend are usable: real hashes, positive amounts, not more than a transaction can hold.\<close>

definition coins :: "table \<Rightarrow> bytes \<Rightarrow> UTxO list" where
  "coins t addr = map scanRow (filter (\<lambda>r. rw_address_to r = Address_Hex addr \<and> rw_address_node r = '''') t)"

definition coins_ok :: "table \<Rightarrow> bytes \<Rightarrow> bool" where
  "coins_ok t addr \<longleftrightarrow> length (coins t addr) \<le> 2000 \<and> (\<forall>u \<in> set (coins t addr). length (uo_Hash u) = 32 \<and> uo_Amount u \<noteq> 0)"

definition payments_ok :: "TxOutput list \<Rightarrow> bool" where
  "payments_ok outputs \<longleftrightarrow> outputs \<noteq> [] \<and> length outputs < 2000
     \<and> (\<forall>out \<in> set outputs. length (to_Address out) = 20 \<and> to_Amount out \<noteq> 0 \<and> to_Node out = [])"

lemma FindAllUTxO_coins: "FindAllUTxO None s (Address_Hex addr) = Inr (coins (ds_table s) addr)"
  by (simp add: FindAllUTxO_def getOutputsList_def coins_def)

lemma coins_total: "(\<Sum>u\<leftarrow>coins t addr. unat (uo_Amount u)) \<le> total t"
proof -
  have "(\<Sum>u\<leftarrow>map scanRow (filter P t). unat (uo_Amount u)) \<le> total t" for P
    by (induction t) (simp_all add: total_def scanRow_def NewUTxOFull_def)
  then show ?thesis by (simp only: coins_def)
qed

lemma coins_owner: "length addr = 20 \<Longrightarrow> u \<in> set (coins t addr) \<Longrightarrow> uo_To u = addr \<and> uo_Node u = []"
  by (auto simp: coins_def scanRow_def NewUTxOFull_def addr_ok_def HexToAddress_def [of "''''"] BytesToAddress_def)

text \<open>The fields of an input made from an output.\<close>

lemma pb_input [simp]:
  "ti_Hash (UTxO_ToPbInput u) = uo_Hash u" "ti_Index (UTxO_ToPbInput u) = uo_Index u" "ti_Address (UTxO_ToPbInput u) = uo_To u"
  "ti_Amount (UTxO_ToPbInput u) = uo_Amount u" "ti_Node (UTxO_ToPbInput u) = uo_Node u"
  by (simp_all add: UTxO_ToPbInput_def NewInput_def UTxO_ToOutput_def NewOutput_def)

lemma keccak_address: "length (keccak c x) = 32 \<Longrightarrow> length (BytesToAddress (drop 12 (keccak c x))) = 20"
  by (simp add: BytesToAddress_def)

text \<open>What is known of a transaction once \<open>createTx\<close> has returned it.\<close>

lemma createTx_fields:
  assumes created: "createTx ev None now g addr (Some key) outputs fee NormalTxType = Inr pb"
    and us: "us = coins (ds_table (om_db (sv_outm (gs_chain g)))) addr"
    and fits: "cost (map UTxO_ToPbInput us) outputs fee < 2 ^ 64" "(\<Sum>u\<leftarrow>us. unat (uo_Amount u)) < 2 ^ 64"
  obtains opts nonce change where "NewPbTransaction (ev_crypto ev) now opts (Some key) = Inr pb" "us \<noteq> []" "sum_list (map uo_Amount us) \<noteq> 0"
    "op_Inputs opts = map UTxO_ToPbInput us" "op_Fee opts = fee" "op_Type opts = NormalTxType" "op_Data opts = []" "op_Timestamp opts = 0"
    "GetTransactionsCountHex g (Address_Hex addr) = Inr nonce" "op_Num opts = nonce + 1"
    "op_Outputs opts = outputs @ change" "change = [] \<or> (\<exists>amount. amount \<noteq> 0 \<and> change = [NewOutput addr amount []])"
    "(\<Sum>u\<leftarrow>us. unat (uo_Amount u)) = (\<Sum>out\<leftarrow>op_Outputs opts. unat (to_Amount out)) + unat (GetRealFee pb)"
proof -
  let ?b = "sum_list (map uo_Amount us)"
  have "getBalance None g (Address_Hex addr) = Inr (map UTxO_ToPbInput us, ?b)"
    by (simp add: getBalance_def FindAllUTxO_coins gen_inputs_def us)
  then obtain opts where o': "genTxStruct now g (map UTxO_ToPbInput us) outputs fee ?b addr NormalTxType = Inr opts" "?b \<noteq> 0"
    "NewPbTransaction (ev_crypto ev) now opts (Some key) = Inr pb"
    using created by (auto simp: createTx_def split: if_splits sum.splits)
  note B = genTxStruct_balanced [OF o'(1) fits(1)]
  obtain nonce change where "GetTransactionsCountHex g (Address_Hex addr) = Inr nonce" "op_Num opts = nonce + 1"
    "op_Outputs opts = outputs @ change" "change = [] \<or> (\<exists>amount. amount \<noteq> 0 \<and> change = [NewOutput addr amount []])"
    using B(6,7) by blast
  moreover have "unat ?b = (\<Sum>u\<leftarrow>us. unat (uo_Amount u))" by (rule unat_sum_list_le [OF fits(2)])
  moreover have "us \<noteq> []" using o'(2) by auto
  ultimately show ?thesis using that [OF o'(3) _ o'(2) B(1-5)] B(8) built_fee [OF o'(3)] by simp
qed

lemma NewPbTransaction_more:
  assumes "NewPbTransaction c now opts (Some k) = Inr pb" "secp_laws c" "\<And>x. length (keccak c x) = 32"
  shows "length (pt_Signature pb) = 65" "pt_Status pb = 0" "pt_Timestamp pb = (if op_Timestamp opts > 0 then op_Timestamp opts else now)"
    "length (pt_Hash pb) = 32"
proof -
  show "length (pt_Signature pb) = 65" "pt_Status pb = 0" "pt_Timestamp pb = (if op_Timestamp opts > 0 then op_Timestamp opts else now)"
    using assms(1,2) by (auto simp: NewPbTransaction_def SignTx_def Let_def TxSigner_Sign_def secp_lawsD(1) split: sum.splits)
  have "TxHash c pb = Inr (pt_Hash pb)" by (rule NewPbTransaction_fields(7) [OF assms(1)])
  then obtain x where x: "BytesToHash (keccak c x) = pt_Hash pb" by (auto simp: TxHash_def Let_def split: sum.splits)
  have "keccak c x \<noteq> []" using assms(3) [of x] by auto
  then show "length (pt_Hash pb) = 32" unfolding x [symmetric] by (simp add: BytesToHash_def)
qed

text \<open>The setting of a payment: the generator and the validator read the same chain, whose coins are usable and countable.\<close>

definition wallet_ok :: "env \<Rightarrow> RDOBlockChainConfig \<Rightarrow> core_io \<Rightarrow> Core \<Rightarrow> bytes \<Rightarrow> bool" where
  "wallet_ok ev cfg io st addr \<longleftrightarrow> secp_laws (ev_crypto ev) \<and> (\<forall>x. length (keccak (ev_crypto ev) x) = 32)
     \<and> ci_query io (Address_Hex addr) = None
     \<and> (let t = ds_table (om_db (sv_outm (co_chain st))) in table_wf t \<and> total t < 2 ^ 64 \<and> coins_ok t addr)
     \<and> GetTransactionsCount (sv_bc (co_chain st)) addr \<noteq> Inr (- 1)"

lemma created_accepted:
  assumes w: "wallet_ok ev cfg io st addr" and cv: "cv = node_validator ev cfg io st" and g: "gs_chain g = co_chain st"
    and addr: "addr = PubkeyToAddress (ev_crypto ev) (pubkey_of (ev_crypto ev) key)"
    and created: "createTx ev None now g addr (Some key) outputs fee NormalTxType = Inr pb"
    and us: "us = coins (ds_table (om_db (sv_outm (co_chain st)))) addr"
    and fits: "cost (map UTxO_ToPbInput us) outputs fee < 2 ^ 64"
    and pay: "payments_ok outputs" "\<not> fee < cf_MinimalFee cfg" "now \<noteq> 0"
  shows "validateTx cv pool (NewTransaction pb) = None" "Transaction_validate all pb = None" "Transaction_ok pb" "tx_wf pb"
    "pt_Type pb = NormalTxType" "pt_Status pb = 0" "pt_Inputs pb = map UTxO_ToPbInput us" "pt_Inputs pb \<noteq> []"
    "\<exists>change. pt_Outputs pb = outputs @ change \<and> (\<forall>out \<in> set change. to_Address out = addr)"
    "(\<Sum>i\<leftarrow>pt_Inputs pb. unat (ti_Amount i)) = (\<Sum>out\<leftarrow>pt_Outputs pb. unat (to_Amount out)) + unat (GetRealFee pb)"
    "tx_from (NewTransaction pb) = addr" "length addr = 20"
proof -
  let ?t = "ds_table (om_db (sv_outm (co_chain st)))" and ?c = "ev_crypto ev"
  have W: "secp_laws ?c" "\<And>x. length (keccak ?c x) = 32" "ci_query io (Address_Hex addr) = None" "table_wf ?t" "total ?t < 2 ^ 64" "coins_ok ?t addr"
    "GetTransactionsCount (sv_bc (co_chain st)) addr \<noteq> Inr (- 1)" using w by (simp_all add: wallet_ok_def Let_def)
  have la: "length addr = 20" unfolding addr PubkeyToAddress_def by (rule keccak_address [OF W(2)])
  have tot: "(\<Sum>u\<leftarrow>us. unat (uo_Amount u)) < 2 ^ 64" using coins_total [of ?t addr] W(5) by (simp add: us)
  obtain opts nonce change where C: "NewPbTransaction ?c now opts (Some key) = Inr pb" "us \<noteq> []" "sum_list (map uo_Amount us) \<noteq> 0"
    "op_Inputs opts = map UTxO_ToPbInput us" "op_Fee opts = fee" "op_Type opts = NormalTxType" "op_Data opts = []" "op_Timestamp opts = 0"
    "GetTransactionsCountHex g (Address_Hex addr) = Inr nonce" "op_Num opts = nonce + 1"
    "op_Outputs opts = outputs @ change" "change = [] \<or> (\<exists>amount. amount \<noteq> 0 \<and> change = [NewOutput addr amount []])"
    "(\<Sum>u\<leftarrow>us. unat (uo_Amount u)) = (\<Sum>out\<leftarrow>op_Outputs opts. unat (to_Amount out)) + unat (GetRealFee pb)"
    by (rule createTx_fields [OF created _ fits tot]) (simp_all add: us g)
  note F = NewPbTransaction_fields [OF C(1)] and M = NewPbTransaction_more [OF C(1) W(1,2)]
  have u: "uo_To u = addr \<and> uo_Node u = [] \<and> length (uo_Hash u) = 32 \<and> uo_Amount u \<noteq> 0" if "u \<in> set us" for u
    using coins_owner [OF la] that W(6) by (simp add: us coins_ok_def)
  have o': "length (to_Address out) = 20 \<and> to_Amount out \<noteq> 0 \<and> to_Node out = []" if "out \<in> set (op_Outputs opts)" for out
    using that pay(1) C(12) la unfolding C(11) payments_ok_def by (auto simp: NewOutput_def)
  have n: "length us \<le> 2000" "length (op_Outputs opts) \<le> 2000" "op_Outputs opts \<noteq> []"
    using W(6) pay(1) C(12) by (auto simp: us coins_ok_def payments_ok_def C(11))
  have nonce: "GetTransactionsCount (sv_bc (co_chain st)) addr = Inr nonce" "nonce + 1 \<noteq> 0"
    using C(9) W(7) la by (auto simp: GetTransactionsCountHex_def g addr_ok_def add_eq_0_iff2)
  have s: "ValidateTransactionStruct cv (NewTransaction pb) = None"
  proof (rule built_tx_valid)
    show "NewPbTransaction (cv_crypto cv) now opts (Some key) = Inr pb" using C(1) by (simp add: cv node_validator_def)
    show "secp_laws (cv_crypto cv)" using W(1) by (simp add: cv node_validator_def)
    show "\<forall>i \<in> set (op_Inputs opts). ti_Address i = PubkeyToAddress (cv_crypto cv) (pubkey_of (cv_crypto cv) key)"
      using u by (auto simp: C(4) cv node_validator_def addr)
    show "(\<Sum>i\<leftarrow>op_Inputs opts. unat (ti_Amount i)) = (\<Sum>out\<leftarrow>op_Outputs opts. unat (to_Amount out)) + unat (GetRealFee pb)"
      using C(13) by (simp add: C(4) comp_def)
    show "(\<Sum>i\<leftarrow>op_Inputs opts. unat (ti_Amount i)) < 2 ^ 64" using tot by (simp add: C(4) comp_def)
  qed (use u o' n C(2) pay(2) in \<open>auto simp: C(4-6) cv node_validator_def validatorConfig_def\<close>)
  have i: "\<exists>sp. checkInputsData (spentOutputs us) [] (inputSlice (map UTxO_ToPbInput us)) = Inr sp"
    by (rule own_inputs_accepted [OF W(4)]) (simp add: us coins_def)
  have sender: "tx_from (NewTransaction pb) = addr"
    using C(2,4) u F(5) la by (cases us) (auto simp: NewTransaction_def Let_def addr_ok_def)
  have "validateTxInputs cv (NewTransaction pb) = None"
  proof -
    have "rd_GetTransactionsCount (cv_bc cv) addr = Inr nonce" "rd_FindAllUTxO (cv_bc cv) (Address_Hex addr) = Inr us"
      using nonce(1) W(3) by (simp_all add: cv node_validator_def chain_reader_def FindAllUTxO_coins us)
    moreover have "tx_num (NewTransaction pb) = nonce + 1" "tx_txType (NewTransaction pb) = NormalTxType"
      "tx_inputs (NewTransaction pb) = inputSlice (map UTxO_ToPbInput us)"
      using F C by (simp_all add: NewTransaction_def Let_def)
    ultimately show ?thesis using i nonce(2) C(2,3) sender by (auto simp: validateTxInputs_def getTxInputsFromDB_def)
  qed
  moreover have "tx_txType (NewTransaction pb) = NormalTxType" using F(2) C(6) by (simp add: NewTransaction_def Let_def)
  ultimately show "validateTx cv pool (NewTransaction pb) = None"
    using s by (simp add: validateTx_def ValidateTransaction_def)
  show "Transaction_validate all pb = None"
    using F M C(4,6-8) u o' pay(3) la by (auto simp: Transaction_valid TxInput_valid TxOutput_valid)
  show "Transaction_ok pb"
    using F M C(4,7) u o' n la by (auto simp: Transaction_ok_def all_ok_def TxInput_ok_def TxOutput_ok_def)
  show "tx_wf pb" using F M C(4) u o' la by (auto simp: tx_wf_def hash_ok_def addr_ok_def)
  show "pt_Type pb = NormalTxType" "pt_Status pb = 0" "pt_Inputs pb = map UTxO_ToPbInput us" "pt_Inputs pb \<noteq> []" using F(2,5) C(2,4,6) M(2) by simp_all
  show "tx_from (NewTransaction pb) = addr" "length addr = 20" by (rule sender la)+
  show "\<exists>change. pt_Outputs pb = outputs @ change \<and> (\<forall>out \<in> set change. to_Address out = addr)"
    using F(6) C(11,12) by (auto simp: NewOutput_def)
  show "(\<Sum>i\<leftarrow>pt_Inputs pb. unat (ti_Amount i)) = (\<Sum>out\<leftarrow>pt_Outputs pb. unat (to_Amount out)) + unat (GetRealFee pb)"
    using C(13) F(5,6) by (simp add: C(4) comp_def)
qed

lemma runes_cast:
  assumes "length (ti_Hash i) = 32" "length (ti_Address i) = 20" "ti_Node i = [] \<or> length (ti_Node i) = 20"
  shows "TxInputValue_validate all (cast_TxInputValue i) = None"
proof -
  have "RuneCountInString (HashString (ti_Hash i)) = 66" "RuneCountInString (AddressString (ti_Address i)) = 42"
    "RuneCountInString (AddressString (ti_Node i)) \<le> 42"
    using assms by (auto simp: HashString_def AddressString_def BytesToHash_def BytesToAddress_def Hash_Hex_def Address_Hex_def)
  then show ?thesis by (simp only: TxInputValue_validate_def run_checks_None) (simp add: cast_TxInputValue_def)
qed

lemma runes_cast_out:
  assumes "length (to_Address out) = 20" "to_Node out = [] \<or> length (to_Node out) = 20"
  shows "TxOutputValue_validate all (cast_TxOutputValue out) = None"
proof -
  have "RuneCountInString (AddressString (to_Address out)) = 42" "RuneCountInString (AddressString (to_Node out)) \<le> 42"
    using assms by (auto simp: AddressString_def BytesToAddress_def Address_Hex_def)
  then show ?thesis by (simp only: TxOutputValue_validate_def run_checks_None) (simp add: cast_TxOutputValue_def)
qed

text \<open>The textual form of a valid transaction that has inputs and outputs is valid.\<close>

lemma cast_valid:
  assumes v: "Transaction_validate False tx = None" and ne: "pt_Inputs tx \<noteq> []" "pt_Outputs tx \<noteq> []"
  shows "SignedTxValue_validate False (Some (cast_SignedTxValue tx)) = None"
proof -
  have V: "pt_Timestamp tx \<noteq> 0" "length (pt_Hash tx) = 32" "length (pt_Signature tx) = 65"
    "\<forall>i \<in> set (pt_Inputs tx). TxInput_validate False i = None" "\<forall>out \<in> set (pt_Outputs tx). TxOutput_validate False out = None"
    using v by (simp_all add: Transaction_valid)
  have "RuneCountInString (HashString (pt_Hash tx)) = 66" using V(2) by (auto simp: HashString_def BytesToHash_def Hash_Hex_def)
  then have "TxValue_validate False (Some (cast_TxValue tx)) = None"
    using V ne unfolding TxValue_validate_def option.case run_checks_None set_append ball_Un embedded_items_None
    by (auto simp: cast_TxValue_def runes_cast runes_cast_out TxInput_valid TxOutput_valid Suc_le_eq)
  then show ?thesis
    using V(3) unfolding SignedTxValue_validate_def option.case run_checks_None by (simp add: cast_SignedTxValue_def)
qed

lemma sendTx_accepts:
  assumes "Transaction_validate False tx = None" "pt_Inputs tx \<noteq> []" "pt_Outputs tx \<noteq> []" "tx_wf tx" "pt_Status tx = 0" "Transaction_ok tx"
    and "validateTx cv pool (NewTransaction tx) = None" "pt_Type tx = txType"
  shows "sendTx cv pool \<lparr>sq_Tx = Some (cast_SignedTxValue tx)\<rparr> txType = (\<lparr>er_Error = None\<rparr>, None, [NewTransaction tx])"
proof -
  have t: "TxFromTxValue (Some (cast_SignedTxValue tx)) = Some tx" using cast_tx_back [OF assms(4)] assms(5) by simp
  have "Transaction_MarshalSSZTo [] tx = Inr (Transaction_enc tx)" using assms(6) by (simp add: Transaction_marshal)
  then show ?thesis using cast_valid [OF assms(1-3)] t assms(1,7,8) by (simp add: sendTx_def att_SendRawTx_def)
qed

text \<open>What \<open>SendRawTx\<close> of the attestation service announces.\<close>

lemma att_SendRawTx_checked:
  assumes "att_SendRawTx cv pool tx = (err, sent)"
  shows "err = None \<longleftrightarrow> sent \<noteq> []"
    and "sent \<noteq> [] \<Longrightarrow> sent = [NewTransaction tx] \<and> validateTx cv pool (NewTransaction tx) = None \<and> IsStandardTx (NewTransaction tx)
      \<and> (\<exists>d. MarshalTx (Some tx) = Inr d \<and> UnmarshalTx d = Inr tx)"
proof -
  show "err = None \<longleftrightarrow> sent \<noteq> []" using assms by (auto simp: att_SendRawTx_def split: sum.splits option.splits)
  assume "sent \<noteq> []"
  then obtain d where t: "sent = [NewTransaction tx]" "Transaction_MarshalSSZTo [] tx = Inr d" "validateTx cv pool (NewTransaction tx) = None"
    using assms by (auto simp: att_SendRawTx_def split: sum.splits option.splits)
  moreover have "MarshalTx (Some tx) = Inr d" "UnmarshalTx d = Inr tx"
    using t(2) by (auto simp: MarshalTx_def UnmarshalTx_def tx_ssz.marshal_iff tx_ssz.dec_enc)
  moreover have "IsStandardTx (NewTransaction tx)"
    using t(3) by (auto simp: validateTx_def ValidateTransactionStruct_def split: if_splits)
  ultimately show "sent = [NewTransaction tx] \<and> validateTx cv pool (NewTransaction tx) = None \<and> IsStandardTx (NewTransaction tx)
      \<and> (\<exists>d. MarshalTx (Some tx) = Inr d \<and> UnmarshalTx d = Inr tx)" by blast
qed

text \<open>
  C14. What the interface lets through is what the node has checked. A transaction is announced to the other services only
  for a request that is answered without an error.  The transaction of \<open>SendLegacyTx\<close>, \<open>SendStakeTx\<close> and \<open>SendUnstakeTx\<close> is then the one of the request, of the kind asked for,
  and has passed the rules for messages; that of \<open>SendRawTx\<close> is the one decoded from the request, which no rules for messages are applied to and which may be of any of the three kinds.
  In all cases it has passed the encoder and the validation of the pool, and every peer decodes it from its encoding.
\<close>

theorem rpc_publishes_checked:
  assumes "sendTx cv pool request txType = (resp, err, sent)" "rpc_SendRawTx json cv pool raw = (resp', err', sent')"
  shows "(err = None \<longleftrightarrow> sent \<noteq> []) \<and> (er_Error resp = None \<longleftrightarrow> err = None) \<and> (err' = None \<longleftrightarrow> sent' \<noteq> [])
    \<and> (\<forall>t \<in> set sent. \<exists>tx d. sent = [t] \<and> TxFromTxValue (sq_Tx request) = Some tx \<and> t = NewTransaction tx \<and> pt_Type tx = txType
        \<and> Transaction_validate False tx = None \<and> validateTx cv pool t = None \<and> MarshalTx (Some tx) = Inr d \<and> UnmarshalTx d = Inr tx)
    \<and> (\<forall>t \<in> set sent'. \<exists>tx d. sent' = [t] \<and> rpc_UnmarshalTx json (rq_Data raw) = Inr tx \<and> t = NewTransaction tx \<and> IsStandardTx t
        \<and> validateTx cv pool t = None \<and> MarshalTx (Some tx) = Inr d \<and> UnmarshalTx d = Inr tx)"
proof -
  have 1: "(err = None \<longleftrightarrow> sent \<noteq> []) \<and> (er_Error resp = None \<longleftrightarrow> err = None) \<and>
      (sent = [] \<or> (\<exists>tx. TxFromTxValue (sq_Tx request) = Some tx \<and> pt_Type tx = txType \<and> Transaction_validate False tx = None \<and> att_SendRawTx cv pool tx = (None, sent)))"
    using assms(1) att_SendRawTx_checked(1) [of cv pool]
    by (auto simp: sendTx_def Let_def split: option.splits if_splits prod.splits)
  have 2: "(err' = None \<longleftrightarrow> sent' \<noteq> []) \<and> (sent' = [] \<or> (\<exists>tx. rpc_UnmarshalTx json (rq_Data raw) = Inr tx \<and> att_SendRawTx cv pool tx = (None, sent')))"
    using assms(2) att_SendRawTx_checked(1) [of cv pool]
    by (auto simp: rpc_SendRawTx_def split: option.splits if_splits prod.splits sum.splits)
  show ?thesis
    using 1 2 att_SendRawTx_checked(2) [of cv pool _ None sent] att_SendRawTx_checked(2) [of cv pool _ None sent'] by fastforce
qed

text \<open>
  C13. An ordinary payment goes through. Let the payments be fewer than 2000, of amounts that are not zero, to full addresses and without a node; the fee price
  at least the minimal one; the sender's coins at most 2000, none of them empty, and the table of outputs well-formed with a total below \<open>2 ^ 64\<close>; and the sum of payments and fee below \<open>2 ^ 64\<close>.
  Then the transaction that \<open>UnsafeSend\<close> returns pays exactly what was asked for, spends all coins of the sender and returns the rest to it, its inputs balance
  with its outputs and fee in the integers, the same node accepts it through \<open>SendLegacyTx\<close> and announces it, and its pool takes it when it has room and
  neither this transaction nor another one of the sender is waiting.
\<close>

theorem payment_accepted:
  assumes sent: "UnsafeSend ev None now g req = Inr v" and key: "getAddress (ev_crypto ev) (uq_Key req) = Inr (addr, key)"
    and g: "g = NewGenerator cfg (co_chain st) cv (co_txPool st) (co_stakePool st)" and cv: "cv = node_validator ev cfg io st"
    and w: "wallet_ok ev cfg io st addr" and outs: "outputs = map cast_TxOutput (uq_Outputs req)"
    and pay: "payments_ok outputs" "\<not> uq_Fee req < cf_MinimalFee cfg" "now \<noteq> 0"
    and fits: "cost (map UTxO_ToPbInput (coins (ds_table (om_db (sv_outm (co_chain st)))) addr)) outputs (uq_Fee req) < 2 ^ 64"
  shows "\<exists>tx change. SendLegacyTx cv (co_txPool st) \<lparr>sq_Tx = Some v\<rparr> = (\<lparr>er_Error = None\<rparr>, None, [NewTransaction tx])
    \<and> pt_Inputs tx = map UTxO_ToPbInput (coins (ds_table (om_db (sv_outm (co_chain st)))) addr)
    \<and> pt_Outputs tx = outputs @ change \<and> (\<forall>out \<in> set change. to_Address out = addr)
    \<and> (\<Sum>i\<leftarrow>pt_Inputs tx. unat (ti_Amount i)) = (\<Sum>out\<leftarrow>pt_Outputs tx. unat (to_Amount out)) + unat (GetRealFee tx)
    \<and> (\<not> tp_mu (co_txPool st) \<and> \<not> ghas (tp_txHashMap (co_txPool st)) (hash_hex (NewTransaction tx))
        \<and> map_of (tp_txSenderMap (co_txPool st)) (Address_Hex addr) = None \<and> length (tp_txHashMap (co_txPool st)) < 998
       \<longrightarrow> Insert srt cv (co_txPool st) (NewTransaction tx) = Some (finalizeInsert (co_txPool st) (NewTransaction tx), None))"
proof -
  have a: "addr = PubkeyToAddress (ev_crypto ev) (pubkey_of (ev_crypto ev) key)"
    using key by (auto simp: getAddress_def key_address_def split: if_splits sum.splits)
  obtain tx where tx: "createTx ev None now g addr (Some key) outputs (uq_Fee req) NormalTxType = Inr tx" "v = cast_SignedTxValue tx"
    using sent by (auto simp: UnsafeSend_def GenerateUnsafeTx_def key outs split: option.splits if_splits sum.splits)
  have "gs_chain g = co_chain st" by (simp add: g NewGenerator_def)
  note A = created_accepted [OF w cv this a tx(1) refl fits pay]
  have ne: "pt_Outputs tx \<noteq> []" using A(9) pay(1) by (auto simp: payments_ok_def)
  have s: "SendLegacyTx cv (co_txPool st) \<lparr>sq_Tx = Some v\<rparr> = (\<lparr>er_Error = None\<rparr>, None, [NewTransaction tx])"
    unfolding SendLegacyTx_def tx(2) by (rule sendTx_accepts [OF A(2) A(8) ne A(4) A(6) A(3) A(1) A(5)])
  have sender: "from_hex (NewTransaction tx) = Address_Hex addr" "Address_Hex addr \<noteq> ''''"
    using A(11,12) by (auto simp: from_hex_def)
  have ins: "Insert srt cv (co_txPool st) (NewTransaction tx) = Some (finalizeInsert (co_txPool st) (NewTransaction tx), None)"
    if "\<not> tp_mu (co_txPool st)" "\<not> ghas (tp_txHashMap (co_txPool st)) (hash_hex (NewTransaction tx))"
      "map_of (tp_txSenderMap (co_txPool st)) (Address_Hex addr) = None" "length (tp_txHashMap (co_txPool st)) < 998"
  proof -
    have "length (tp_txHashMap (finalizeInsert (co_txPool st) (NewTransaction tx))) = Suc (length (tp_txHashMap (co_txPool st)))"
      using that(2) by (simp add: finalizeInsert_def new_object_def Let_def update_new)
    then show ?thesis using that A(1) sender by (simp add: Insert_def)
  qed
  obtain change where ch: "pt_Outputs tx = outputs @ change" "\<forall>out \<in> set change. to_Address out = addr" using A(9) by blast
  show ?thesis by (intro exI [of _ tx] exI [of _ change] conjI impI s A(7) A(10) ch) (rule ins; simp)
qed

text \<open>A wallet with one coin of 1000, owned by the key 7.\<close>

definition demo_payer_key :: bytes where
  "demo_payer_key = replicate 31 0 @ [7]"

definition demo_payer :: bytes where
  "demo_payer = PubkeyToAddress demo_crypto (pubkey_of demo_crypto demo_payer_key)"

definition demo_coin :: UTxO where
  "demo_coin = NewUTxO 1 (replicate 32 2) [] demo_payer [] 0 1000 0 NormalTxType 1"

definition demo_wallet :: Core where
  "demo_wallet = \<lparr>co_chain = (NewService NewKVStore (NewStore\<lparr>ds_table := [(ToInsertQuery demo_coin)\<lparr>rw_id := 1\<rparr>]\<rparr>)), co_txPool = NewPool,
     co_stakePool = demo_pool, co_statusErr = None, co_receivedHash = [], co_synced = True, co_ticker = None\<rparr>"

definition demo_wallet_io :: core_io where
  "demo_wallet_io = \<lparr>ci_now = 0, ci_query = (\<lambda>_. None), ci_sync = None, ci_total = None\<rparr>"

definition demo_payment :: TxOptionsUnsafeRequest where
  "demo_payment = \<lparr>uq_Fee = 1, uq_Outputs = [\<lparr>ov_Address = Encode (replicate 20 6), ov_Amount = 10, ov_Node = ''''\<rparr>], uq_Key = Encode demo_payer_key\<rparr>"

lemma demo_payer_address: "getAddress demo_crypto (uq_Key demo_payment) = Inr (demo_payer, demo_payer_key)"
proof -
  have "nat_le (replicate n 0) = 0" for n by (induction n) simp_all
  then have "big_SetBytes demo_payer_key = 7" by (simp add: demo_payer_key_def big_SetBytes_def)
  moreover have "length demo_payer_key = 32" by (simp add: demo_payer_key_def)
  ultimately have t: "toECDSA demo_crypto demo_payer_key True = Inr 7"
    by (simp add: toECDSA_def secp256k1N_def demo_crypto_def SetBytes_def)
  moreover have "drop 2 (Encode demo_payer_key) = hexEncode demo_payer_key" "length (Encode demo_payer_key) \<ge> 2" by (simp_all add: Encode_def)
  ultimately show ?thesis using FromECDSA_toECDSA [OF t]
    by (simp add: getAddress_def demo_payment_def HexToECDSA_hex demo_payer_def key_address_def)
qed

lemma demo_coins: "coins (ds_table (om_db (sv_outm (co_chain demo_wallet)))) demo_payer = [demo_coin\<lparr>uo_ID := 1\<rparr>]"
  "table_wf (ds_table (om_db (sv_outm (co_chain demo_wallet))))"
proof -
  have t: "ds_table (om_db (sv_outm (co_chain demo_wallet))) = [(ToInsertQuery demo_coin)\<lparr>rw_id := 1\<rparr>]"
    by (simp add: demo_wallet_def NewService_def NewOutputManager_def)
  have ok: "uo_ok demo_coin" by (simp add: demo_coin_def)
  show "table_wf (ds_table (om_db (sv_outm (co_chain demo_wallet))))"
    unfolding t table_wf_def using rows_wf_ToInsert [OF ok] by (simp add: table_ok_def)
  have "length demo_payer = 20" by (simp add: demo_payer_def PubkeyToAddress_def demo_crypto_def BytesToAddress_def)
  then have "rw_address_to (ToInsertQuery demo_coin) = Address_Hex demo_payer" "rw_address_node (ToInsertQuery demo_coin) = ''''"
    by (auto simp: ToInsertQuery_def demo_coin_def NewUTxO_def addr_ok_def BytesToAddress_def)
  then show "coins (ds_table (om_db (sv_outm (co_chain demo_wallet)))) demo_payer = [demo_coin\<lparr>uo_ID := 1\<rparr>]"
    unfolding t coins_def using scanRow_ToInsertQuery [OF ok] by simp
qed

lemma demo_wallet_ok: "wallet_ok demo_env mainnetRDOConfig demo_wallet_io demo_wallet demo_payer"
proof -
  have "total (ds_table (om_db (sv_outm (co_chain demo_wallet)))) = 1000"
    by (simp add: demo_wallet_def NewService_def NewOutputManager_def total_def ToInsertQuery_def demo_coin_def NewUTxO_def)
  moreover have "coins_ok (ds_table (om_db (sv_outm (co_chain demo_wallet)))) demo_payer"
    by (simp add: coins_ok_def demo_coins) (simp add: demo_coin_def NewUTxO_def BytesToHash_def)
  moreover have "length (keccak (ev_crypto demo_env) x) = 32" for x by (simp add: demo_env_def demo_crypto_def)
  moreover have "GetTransactionsCount (sv_bc (co_chain demo_wallet)) demo_payer = Inr 0"
    by (simp add: GetTransactionsCount_def kv_GetTransactionsCount_def demo_wallet_def NewService_def NewBlockChain_def NewKVStore_def Get_def)
  ultimately show ?thesis using demo_coins(2) demo_crypto_laws by (simp add: wallet_ok_def demo_env_def demo_wallet_io_def)
qed

definition demo_generator :: GeneratorService where
  "demo_generator = NewGenerator mainnetRDOConfig (co_chain demo_wallet) (node_validator demo_env mainnetRDOConfig demo_wallet_io demo_wallet)
     (co_txPool demo_wallet) (co_stakePool demo_wallet)"

abbreviation demo_outputs :: "TxOutput list" where
  "demo_outputs \<equiv> [NewOutput (replicate 20 6) 10 []]"

lemma demo_outputs: "map cast_TxOutput (uq_Outputs demo_payment) = demo_outputs"
  by (simp add: demo_payment_def cast_TxOutput_def HexToAddress_def BytesToAddress_def)

lemma demo_coin_input: "UTxO_ToPbInput (demo_coin\<lparr>uo_ID := 1\<rparr>) = \<lparr>ti_Hash = replicate 32 2, ti_Index = 0, ti_Address = demo_payer, ti_Amount = 1000, ti_Node = []\<rparr>"
proof -
  have "length demo_payer = 20" by (simp add: demo_payer_def PubkeyToAddress_def demo_crypto_def BytesToAddress_def)
  then show ?thesis
    by (auto simp: UTxO_ToPbInput_def NewInput_def UTxO_ToOutput_def NewOutput_def demo_coin_def NewUTxO_def BytesToHash_def BytesToAddress_def)
qed

lemma demo_created: "\<exists>tx. createTx demo_env None 5 demo_generator demo_payer (Some demo_payer_key) demo_outputs 1 NormalTxType = Inr tx"
proof -
  have c: "FindAllUTxO None (om_db (sv_outm (gs_chain demo_generator))) (Address_Hex demo_payer) = Inr [demo_coin\<lparr>uo_ID := 1\<rparr>]"
    unfolding FindAllUTxO_coins by (simp add: demo_generator_def NewGenerator_def demo_coins)
  have b: "getBalance None demo_generator (Address_Hex demo_payer) = Inr ([UTxO_ToPbInput (demo_coin\<lparr>uo_ID := 1\<rparr>)], 1000)"
    by (simp add: getBalance_def c gen_inputs_def) (simp add: demo_coin_def NewUTxO_def)
  have n: "GetTransactionsCountHex demo_generator a = Inr 0" for a
    by (simp add: GetTransactionsCountHex_def GetTransactionsCount_def kv_GetTransactionsCount_def demo_generator_def NewGenerator_def demo_wallet_def
        NewService_def NewBlockChain_def NewKVStore_def Get_def)
  have a: "length demo_payer = 20" by (simp add: demo_payer_def PubkeyToAddress_def demo_crypto_def BytesToAddress_def)
  have "\<exists>opts. genTxStruct 5 demo_generator [UTxO_ToPbInput (demo_coin\<lparr>uo_ID := 1\<rparr>)] demo_outputs 1 1000 demo_payer NormalTxType = Inr opts
      \<and> (\<forall>u\<in>set (op_Outputs opts). out_sizes u) \<and> (\<forall>i\<in>set (op_Inputs opts). in_sizes i)"
    by (simp add: genTxStruct_def Let_def n CountTxFee_size opts_size_def TxInput_SizeSSZ_def TxOutput_SizeSSZ_def demo_coin_input NewOutput_def
        out_sizes_def in_sizes_def a)
  then obtain opts where o: "genTxStruct 5 demo_generator [UTxO_ToPbInput (demo_coin\<lparr>uo_ID := 1\<rparr>)] demo_outputs 1 1000 demo_payer NormalTxType = Inr opts"
    "\<forall>u\<in>set (op_Outputs opts). out_sizes u" "\<forall>i\<in>set (op_Inputs opts). in_sizes i" by blast
  have "\<forall>d. \<exists>sig. secp_sign demo_crypto d demo_payer_key = Inr sig" by (simp add: demo_crypto_def)
  from NewPbTransaction_built(1) [OF demo_sha_ok o(2,3) this] o(1) show ?thesis by (auto simp: createTx_def b demo_env_def)
qed

lemma demo_sent: "\<exists>v. UnsafeSend demo_env None 5 demo_generator demo_payment = Inr v"
proof -
  have "TxOptionsUnsafeRequest_validate False demo_payment = None"
    unfolding TxOptionsUnsafeRequest_validate_def run_checks_None set_append ball_Un embedded_items_None TxOutputValue_validate_def
    by (simp add: demo_payment_def demo_payer_key_def del: RuneCountInString.simps(2))
  moreover have "IsHexHash (uq_Key demo_payment)"
    using isHex_hexEncode [of demo_payer_key] by (simp add: IsHexHash_def demo_payment_def has0xPrefix_def Encode_def demo_payer_key_def)
  moreover have "uq_Outputs demo_payment \<noteq> []" "uq_Fee demo_payment = 1" by (simp_all add: demo_payment_def)
  moreover have "ev_crypto demo_env = demo_crypto" by (simp add: demo_env_def)
  ultimately show ?thesis using demo_created by (auto simp: UnsafeSend_def GenerateUnsafeTx_def demo_payer_address demo_outputs)
qed

lemma demo_payment_ok:
  "payments_ok demo_outputs" "\<not> uq_Fee demo_payment < cf_MinimalFee mainnetRDOConfig" "(5 :: uint64) \<noteq> 0"
  "cost (map UTxO_ToPbInput (coins (ds_table (om_db (sv_outm (co_chain demo_wallet)))) demo_payer)) demo_outputs (uq_Fee demo_payment) < 2 ^ 64"
proof -
  show "cost (map UTxO_ToPbInput (coins (ds_table (om_db (sv_outm (co_chain demo_wallet)))) demo_payer)) demo_outputs (uq_Fee demo_payment) < 2 ^ 64"
    unfolding demo_coins(1)
    by (simp add: cost_def opts_size_def TxInput_SizeSSZ_def TxOutput_SizeSSZ_def demo_coin_input NewOutput_def demo_payment_def)
qed (simp_all add: payments_ok_def NewOutput_def mainnetRDOConfig_def)

theorem payment_accepted_witness:
  "\<exists>v tx. UnsafeSend demo_env None 5 demo_generator demo_payment = Inr v
    \<and> SendLegacyTx (node_validator demo_env mainnetRDOConfig demo_wallet_io demo_wallet) NewPool \<lparr>sq_Tx = Some v\<rparr> =
        (\<lparr>er_Error = None\<rparr>, None, [NewTransaction tx])
    \<and> (\<exists>change. pt_Outputs tx = demo_outputs @ change)"
proof -
  obtain v where v: "UnsafeSend demo_env None 5 demo_generator demo_payment = Inr v" using demo_sent by blast
  have pool: "co_txPool demo_wallet = NewPool" by (simp add: demo_wallet_def)
  have "ev_crypto demo_env = demo_crypto" by (simp add: demo_env_def)
  then have k: "getAddress (ev_crypto demo_env) (uq_Key demo_payment) = Inr (demo_payer, demo_payer_key)" using demo_payer_address by simp
  show ?thesis
    using payment_accepted [OF v k demo_generator_def refl demo_wallet_ok demo_outputs [symmetric] demo_payment_ok, of "\<lambda>_ xs. xs"] v
    unfolding pool by auto
qed

theorem rpc_publishes_checked_witness:
  "\<exists>v resp tx d. sendTx (node_validator demo_env mainnetRDOConfig demo_wallet_io demo_wallet) NewPool \<lparr>sq_Tx = Some v\<rparr> NormalTxType = (resp, None, [NewTransaction tx])
    \<and> er_Error resp = None \<and> MarshalTx (Some tx) = Inr d \<and> UnmarshalTx d = Inr tx
    \<and> snd (rpc_SendRawTx (\<lambda>_. (v, None)) (node_validator demo_env mainnetRDOConfig demo_wallet_io demo_wallet) NewPool \<lparr>rq_Data = ''00''\<rparr>) = (None, [NewTransaction tx])"
proof -
  let ?cv = "node_validator demo_env mainnetRDOConfig demo_wallet_io demo_wallet"
  obtain tx where tx: "createTx demo_env None 5 demo_generator demo_payer (Some demo_payer_key) demo_outputs (uq_Fee demo_payment) NormalTxType = Inr tx"
    using demo_created by (auto simp: demo_payment_def)
  have "gs_chain demo_generator = co_chain demo_wallet" by (simp add: demo_generator_def NewGenerator_def)
  moreover have "demo_payer = PubkeyToAddress (ev_crypto demo_env) (pubkey_of (ev_crypto demo_env) demo_payer_key)" by (simp add: demo_payer_def demo_env_def)
  ultimately have A: "validateTx ?cv NewPool (NewTransaction tx) = None" "Transaction_validate False tx = None" "Transaction_ok tx" "tx_wf tx"
    "pt_Type tx = NormalTxType" "pt_Status tx = 0" "pt_Inputs tx \<noteq> []" "pt_Outputs tx \<noteq> []"
    using created_accepted [OF demo_wallet_ok refl _ _ tx refl demo_payment_ok(4) demo_payment_ok(1-3)] by auto
  have s: "sendTx ?cv NewPool \<lparr>sq_Tx = Some (cast_SignedTxValue tx)\<rparr> NormalTxType = (\<lparr>er_Error = None\<rparr>, None, [NewTransaction tx])"
    by (rule sendTx_accepts [OF A(2) A(7,8) A(4) A(6) A(3) A(1) A(5)])
  have raw: "rpc_UnmarshalTx (\<lambda>_. (cast_SignedTxValue tx, None)) ''00'' = Inr tx"
    using cast_tx_back [OF A(4)] A(6) by (simp add: rpc_UnmarshalTx_def)
  have "Transaction_MarshalSSZTo [] tx = Inr (Transaction_enc tx)" using A(3) by (simp add: Transaction_marshal)
  then have r: "rpc_SendRawTx (\<lambda>_. (cast_SignedTxValue tx, None)) ?cv NewPool \<lparr>rq_Data = ''00''\<rparr> = (Some \<lparr>er_Error = None\<rparr>, None, [NewTransaction tx])"
    using raw A(1) by (simp add: rpc_SendRawTx_def att_SendRawTx_def)
  from rpc_publishes_checked [OF s r] obtain tx' d where t: "NewTransaction tx = NewTransaction tx'" "MarshalTx (Some tx') = Inr d" "UnmarshalTx d = Inr tx'"
    by auto
  then have "tx' = tx" by (simp add: NewTransaction_def Let_def)
  with t s r show ?thesis by (intro exI [of _ "cast_SignedTxValue tx"] exI [of _ "\<lparr>er_Error = None\<rparr>"] exI [of _ tx] exI [of _ d]) simp
qed

subsection \<open>Two defects of the generator\<close>

text \<open>
  A stake on a validator slot of one's own is asked for with an empty node, or with the address of the black hole; with the empty node the
  generator looks for a validator of that name and always fails.
\<close>

lemma stake_without_node:
  assumes "\<not> ghas (sp_validators (gs_stakePool g)) ''''"
  shows "\<exists>e. GenerateUnsafeStakeTx ev qerr now g fee hexKey amount '''' = Inl e" "\<exists>e. GenerateStakeTx ev qerr now g fee addr amount '''' = Inl e"
proof -
  have "BlackHoleAddress \<noteq> ''''" "'''' \<noteq> BlackHoleAddress" by (simp_all add: BlackHole_Encode)
  then have c: "check_node g '''' tx = Inl (Errorf ''There is no such validator'')" for tx
    using assms by (simp add: check_node_def IsNodeValidator_def)
  show "\<exists>e. GenerateUnsafeStakeTx ev qerr now g fee hexKey amount '''' = Inl e"
    by (simp add: GenerateUnsafeStakeTx_def c split: option.split sum.split prod.split)
  have "pt_Type tx = StakeTxType" if "createTx ev qerr now g a k outs fee StakeTxType = Inr tx" for a k outs tx
    using that by (auto simp: createTx_def genTxStruct_def Let_def dest: NewPbTransaction_fields(2) split: sum.splits if_splits prod.splits)
  then show "\<exists>e. GenerateStakeTx ev qerr now g fee addr amount '''' = Inl e"
    by (simp add: GenerateStakeTx_def c Let_def split: option.split sum.split)
qed

text \<open>The fee of an unstake is taken off the returned amount without a check: when it is larger, the amount wraps around.\<close>

lemma unstake_fee_wraps:
  assumes "unstake_tx ev qerr now g fee address key amount node = Inr pb" "amount < GetRealFee pb"
  shows "to_Amount (hd (pt_Outputs pb)) = amount - GetRealFee pb \<and> amount < to_Amount (hd (pt_Outputs pb))"
proof -
  let ?o = "\<lambda>ins outs n. \<lparr>op_Inputs = ins, op_Outputs = NewOutput address amount [] # outs, op_Fee = fee, op_Data = [], op_Num = n,
      op_Type = UnstakeTxType, op_Timestamp = 0\<rparr>"
  obtain ins outs n where "NewPbTransaction (ev_crypto ev) now ((?o ins outs n)\<lparr>op_Outputs :=
      (NewOutput address amount [])\<lparr>to_Amount := amount - fst (CountTxFee now (?o ins outs n))\<rparr> # outs\<rparr>) key = Inr pb"
    using assms(1) by (simp add: unstake_tx_def Let_def split: sum.splits option.splits if_splits prod.splits)
  then obtain opts where b: "NewPbTransaction (ev_crypto ev) now (opts\<lparr>op_Outputs := (NewOutput address amount [])\<lparr>to_Amount := amount - fst (CountTxFee now opts)\<rparr> # outs\<rparr>) key = Inr pb"
    "op_Outputs opts = NewOutput address amount [] # outs" using that [of "?o ins outs n"] by simp
  have "opts_size (opts\<lparr>op_Outputs := (NewOutput address amount [])\<lparr>to_Amount := amount - fst (CountTxFee now opts)\<rparr> # outs\<rparr>) = opts_size opts"
    by (simp add: opts_size_def b(2) TxOutput_SizeSSZ_def)
  then have f: "GetRealFee pb = fst (CountTxFee now opts)" using built_fee [OF b(1)] by (simp add: CountTxFee_size)
  have "to_Amount (hd (pt_Outputs pb)) = amount - GetRealFee pb" using NewPbTransaction_fields(6) [OF b(1)] by (simp add: f)
  moreover have "amount < amount - GetRealFee pb" if "amount < GetRealFee pb"
    using that by (simp add: word_less_nat_alt unat_sub_if_size word_size) (use unat64_less [of "GetRealFee pb"] in simp)
  ultimately show ?thesis using assms(2) by simp
qed

end
