(* ===== verification/Message_Roots.thy ===== *)
theory Message_Roots
  imports Ssz
begin

section \<open>Tree hashes of the network messages\<close>

text \<open>
  Models the tree hashes of the messages that are not part of a block (\<open>HashTreeRootWith\<close> of metadata, block requests, seeds and votes in
  \<^verbatim>\<open>src/proto/prototype/types.pb_encoding.go\<close> and \<^verbatim>\<open>src/validator/types/attestation_encoding.go\<close>).

  Shown: a message has a tree hash exactly when it can be encoded; the limits of the schema, which the code checks in both
  places, agree.
\<close>

definition Metadata_HashTreeRootWith :: "(bytes \<Rightarrow> bytes) \<Rightarrow> Metadata \<Rightarrow> bytes \<Rightarrow> error + bytes" where
  "Metadata_HashTreeRootWith sha m h = (let indx = length h; h = PutUint64 h (md_HeadSlot m); h = PutUint64 h (md_HeadBlockNum m) in
     ebind (put_field sha ''Metadata.HeadBlockHash'' 32 (md_HeadBlockHash m) h) (Merkleize sha indx))"

definition BlockRequest_HashTreeRootWith :: "(bytes \<Rightarrow> bytes) \<Rightarrow> BlockRequest \<Rightarrow> bytes \<Rightarrow> error + bytes" where
  "BlockRequest_HashTreeRootWith sha b h = (let indx = length h; h = PutUint64 h (br_StartSlot b); h = PutUint64 h (br_Count b);
     h = PutUint64 h (br_Step b) in Merkleize sha indx h)"

definition Seed_HashTreeRootWith :: "(bytes \<Rightarrow> bytes) \<Rightarrow> Seed \<Rightarrow> bytes \<Rightarrow> error + bytes" where
  "Seed_HashTreeRootWith sha s h = (let indx = length h; h = PutUint32 h (sd_Seed s) in
     ebind (Sign_HashTreeRootWith sha (sd_Proposer s) h) (Merkleize sha indx))"

definition Attestation_HashTreeRootWith :: "(bytes \<Rightarrow> bytes) \<Rightarrow> Attestation \<Rightarrow> bytes \<Rightarrow> error + bytes" where
  "Attestation_HashTreeRootWith sha a h = (let indx = length h in
     ebind (put_field sha ''Attestation.Validator'' 20 (at_Validator a) h) (\<lambda>h.
     ebind (Block_HashTreeRootWith sha (at_Block a) h) (\<lambda>h.
     ebind (Sign_HashTreeRootWith sha (at_Signature a) h) (\<lambda>h.
     let h = PutUint32 h (at_Type a) in Merkleize sha indx h))))"

lemma sizes_ok:
  "tx_sizes t \<longleftrightarrow> Transaction_ok t" "block_sizes b \<longleftrightarrow> Block_ok b"
proof -
  show t: "tx_sizes t \<longleftrightarrow> Transaction_ok t" for t
    by (auto simp: tx_sizes_def Transaction_ok_def all_ok_def TxInput_ok_def TxOutput_ok_def)
  show "block_sizes b \<longleftrightarrow> Block_ok b"
    by (auto simp: block_sizes_def Block_ok_def all_ok_def Sign_ok_def t)
qed

text \<open>A group of fewer than four words has a root, which is the only word that is left.\<close>

lemma group_hashed:
  assumes "sha_ok sha" "length g \<le> 128"
  shows "\<exists>r. Merkleize sha 0 g = Inr r \<and> length r = 32"
proof -
  have "length g div 32 \<le> 128 div 32" using assms(2) by (rule div_le_mono)
  then show ?thesis using Merkleize_group [of g sha "[]"] by (simp add: length_mroot [OF assms(1)])
qed

lemma length_block_root: "sha_ok sha \<Longrightarrow> length (Block_root sha b) = 32"
  by (simp add: Block_root_def length_mroot)

lemma root_iff:
  assumes "\<And>r. f x [] = Inr r \<Longrightarrow> ok" "ok \<Longrightarrow> \<exists>r. f x [] = Inr r \<and> length r = 32"
  shows "(\<exists>r. HashWithDefaultHasher f x = Inr r) \<longleftrightarrow> ok"
  using assms by (auto simp: HashWithDefaultHasher_def HashRoot_def ebind_Inr)

theorem hashable_iff_encodable:
  assumes sha: "sha_ok sha"
  shows "(\<exists>r. Block_HashTreeRoot sha b = Inr r) \<longleftrightarrow> (\<exists>d. Block_MarshalSSZTo [] b = Inr d)"
    "(\<exists>r. Transaction_HashTreeRoot sha t = Inr r) \<longleftrightarrow> (\<exists>d. Transaction_MarshalSSZTo [] t = Inr d)"
    "(\<exists>r. HashWithDefaultHasher (Attestation_HashTreeRootWith sha) a = Inr r) \<longleftrightarrow> (\<exists>d. Attestation_MarshalSSZTo [] a = Inr d)"
    "(\<exists>r. HashWithDefaultHasher (Seed_HashTreeRootWith sha) s = Inr r) \<longleftrightarrow> (\<exists>d. Seed_MarshalSSZTo [] s = Inr d)"
    "(\<exists>r. HashWithDefaultHasher (Metadata_HashTreeRootWith sha) m = Inr r) \<longleftrightarrow> (\<exists>d. Metadata_MarshalSSZTo [] m = Inr d)"
    "(\<exists>r. HashWithDefaultHasher (BlockRequest_HashTreeRootWith sha) q = Inr r) \<longleftrightarrow> (\<exists>d. BlockRequest_MarshalSSZTo [] q = Inr d)"
proof -
  show "(\<exists>r. Block_HashTreeRoot sha b = Inr r) \<longleftrightarrow> (\<exists>d. Block_MarshalSSZTo [] b = Inr d)"
    by (simp add: Block_HashTreeRoot_iff [OF sha] sizes_ok block_ssz.marshal_iff)
  show "(\<exists>r. Transaction_HashTreeRoot sha t = Inr r) \<longleftrightarrow> (\<exists>d. Transaction_MarshalSSZTo [] t = Inr d)"
    by (simp add: Block_HashTreeRoot_iff [OF sha] sizes_ok tx_ssz.marshal_iff)
  have l: "length (bytes_root sha v) \<le> 32" for v using length_bytes_root [OF sha, of v] by simp
  show "(\<exists>r. HashWithDefaultHasher (Attestation_HashTreeRootWith sha) a = Inr r) \<longleftrightarrow> (\<exists>d. Attestation_MarshalSSZTo [] a = Inr d)"
    using group_hashed [OF sha, of "bytes_root sha (at_Validator a) @ Block_root sha (at_Block a) @ Sign_root sha (at_Signature a) @ pad32 (le_nat 4 (unat (at_Type a)))"]
      l [of "at_Validator a"] length_block_root [OF sha] length_roots(3) [OF sha]
    by (intro root_iff [where ok = "Attestation_ok a", THEN trans])
      (auto simp: Attestation_HashTreeRootWith_def put_simps Block_root_iff Sign_root_iff sha sizes_ok Attestation_ok_def Sign_ok_def attestation_ssz.marshal_iff)
  show "(\<exists>r. HashWithDefaultHasher (Seed_HashTreeRootWith sha) s = Inr r) \<longleftrightarrow> (\<exists>d. Seed_MarshalSSZTo [] s = Inr d)"
    using group_hashed [OF sha, of "pad32 (le_nat 4 (unat (sd_Seed s))) @ Sign_root sha (sd_Proposer s)"] length_roots(3) [OF sha]
    by (intro root_iff [where ok = "Seed_ok s", THEN trans])
      (auto simp: Seed_HashTreeRootWith_def put_simps Sign_root_iff sha Seed_ok_def Sign_ok_def seed_ssz.marshal_iff)
  show "(\<exists>r. HashWithDefaultHasher (Metadata_HashTreeRootWith sha) m = Inr r) \<longleftrightarrow> (\<exists>d. Metadata_MarshalSSZTo [] m = Inr d)"
    using group_hashed [OF sha, of "pad32 (le_nat 8 (unat (md_HeadSlot m))) @ pad32 (le_nat 8 (unat (md_HeadBlockNum m))) @ bytes_root sha (md_HeadBlockHash m)"]
      l [of "md_HeadBlockHash m"]
    by (intro root_iff [where ok = "Metadata_ok m", THEN trans])
      (auto simp: Metadata_HashTreeRootWith_def put_simps sha Metadata_ok_def metadata_ssz.marshal_iff)
  show "(\<exists>r. HashWithDefaultHasher (BlockRequest_HashTreeRootWith sha) q = Inr r) \<longleftrightarrow> (\<exists>d. BlockRequest_MarshalSSZTo [] q = Inr d)"
    using group_hashed [OF sha, of "pad32 (le_nat 8 (unat (br_StartSlot q))) @ pad32 (le_nat 8 (unat (br_Count q))) @ pad32 (le_nat 8 (unat (br_Step q)))"]
    by (intro root_iff [where ok = "BlockRequest_ok q", THEN trans])
      (auto simp: BlockRequest_HashTreeRootWith_def put_simps BlockRequest_ok_def request_ssz.marshal_iff)
qed

end
