(* ===== verification/Spec2Isabelle.thy ===== *)
theory Spec2Isabelle
  imports Network Startup Generator Message_Roots
begin

text \<open>
  \<^bold>\<open>A verification of the RDO block chain node.\<close>

  \<^bold>\<open>The program.\<close>  A node keeps a chain of blocks in a bolt key-value store and the unspent outputs of all transactions in an SQL table.
  Clients send transactions through RPC servers, or let the node generate and sign them; the attestation service checks a
  transaction and keeps it in the transaction pool.  Validators, who hold a stake, agree on a seed before every slot, derive the
  leader of the slot from it, and the leader forges a block out of the pool; the others vote on it, and a block with enough votes
  is published.  The core service of every node validates a block that arrives and then stores it, updates the outputs and the staking
  pool and clears the transaction pool.  The synchronisation service exchanges heads with other nodes and fetches missing blocks over
  streams; gossip carries blocks, transactions, proposals, seeds and votes.  The services of a node are connected by event feeds.

  \<^bold>\<open>Theories and sources\<close> (paths below \<^verbatim>\<open>src/\<close>).  Every definition keeps the name of the function it models where that is possible.

  \<^item> \<open>Prelude\<close>: integers, maps of the language, errors, checks in sequence, runs of operations and the locale of invariants over them.
  \<^item> \<open>Common\<close>, \<open>Types\<close>: \<^verbatim>\<open>shared/common\<close>, \<^verbatim>\<open>shared/math\<close>, \<^verbatim>\<open>shared/types\<close>, \<^verbatim>\<open>utils/types\<close>, the messages of \<^verbatim>\<open>proto/prototype\<close>.
  \<^item> \<open>Hashing\<close>: \<^verbatim>\<open>utils/hash\<close>, \<^verbatim>\<open>shared/types/signer.go\<close>, \<^verbatim>\<open>block.go\<close>, \<^verbatim>\<open>seed.go\<close>, \<^verbatim>\<open>validator/types\<close>: hashes, Merkle roots, signing.
  \<^item> \<open>Roots\<close>, \<open>Message_Roots\<close>: the SSZ tree hashes of \<^verbatim>\<open>types.pb_encoding.go\<close> and \<^verbatim>\<open>attestation_encoding.go\<close> on the hasher of \<^verbatim>\<open>fastssz\<close>.
  \<^item> \<open>Curve\<close>, \<open>Keys\<close>: \<^verbatim>\<open>shared/crypto\<close> with \<^verbatim>\<open>secp256k1\<close>, \<^verbatim>\<open>keystore\<close>, \<^verbatim>\<open>utils/file\<close>.
  \<^item> \<open>Ssz\<close>: \<^verbatim>\<open>proto/prototype/types.pb_encoding.go\<close>, \<^verbatim>\<open>validator/types/attestation_encoding.go\<close>, \<^verbatim>\<open>utils/serialize\<close>.
  \<^item> \<open>Utxo_Store\<close>, \<open>Kv_Store\<close>: \<^verbatim>\<open>blockchain/db/utxo\<close>, \<^verbatim>\<open>blockchain/db/kv\<close>.
  \<^item> \<open>Staking\<close>, \<open>Consensus\<close>: \<^verbatim>\<open>blockchain/consensus/staking\<close>, \<^verbatim>\<open>consensus.go\<close>, \<^verbatim>\<open>interface.go\<close>, \<^verbatim>\<open>backend\<close>.
  \<^item> \<open>Chain\<close>, \<open>Chain_Growth\<close>: \<^verbatim>\<open>blockchain/core/rdochain\<close>.
  \<^item> \<open>Validator\<close>: \<^verbatim>\<open>blockchain/consensus/attestation\<close>.  \<open>TxPool\<close>: \<^verbatim>\<open>blockchain/core/attestation/pool.go\<close>.
  \<^item> \<open>Slot\<close>, \<open>Core\<close>: \<^verbatim>\<open>blockchain/core/slot\<close>, \<^verbatim>\<open>blockchain/core/service.go\<close>.
  \<^item> \<open>Forger\<close>, \<open>Voting\<close>: \<^verbatim>\<open>blockchain/consensus/forger\<close>, \<^verbatim>\<open>validator\<close>.
  \<^item> \<open>Peers\<close>, \<open>Wire\<close>, \<open>Sync\<close>, \<open>Network\<close>: \<^verbatim>\<open>p2p\<close>, \<^verbatim>\<open>shared/score\<close>, \<^verbatim>\<open>blockchain/sync\<close>.
  \<^item> \<open>Requests\<close>, \<open>Rpc\<close>, \<open>Generator\<close>: the validation rules of \<^verbatim>\<open>proto/prototype\<close>, \<^verbatim>\<open>rpc\<close>, \<^verbatim>\<open>blockchain/core/attestation/service.go\<close>, \<^verbatim>\<open>generator\<close>.
  \<^item> \<open>Feed\<close>: \<^verbatim>\<open>events/feed.go\<close>, \<^verbatim>\<open>shared/service_registry.go\<close>.
  \<^item> \<open>Startup\<close>: how the services wait for each other when a node starts.
  \<^item> \<open>Node\<close> and this theory: the node as one step function over everything that can arrive, and the properties that span components.

  \<^bold>\<open>How state and effects are modelled.\<close>  A struct is a record, a method a function from the old record to the new one and its error;
  an error is a value, and a run-time panic is an error of its own kind that nothing handles.  Unsigned integers are words; where a
  signed one can overflow, the wrap-around is written out.  A Go map is a list of entries whose order stands for the order of one iteration, so
  what is proved holds for every order.  Pointers that are shared, as in the transaction pool, point into an explicit store.
  Handlers run in one goroutine or under a mutex and are atomic; a mutex that a path forgets to release, a channel that nobody
  reads and a loop that does not end are visible: the result is \<open>None\<close> or \<open>Waits\<close>.  A loop with a structural or a well-founded bound is
  a total function; the loops over block numbers, which wrap around, are partial functions, and it is proved when they return.
  The retries of the core service take the number of attempts as fuel, since the number of rounds is chosen by the network; what is shown holds for
  every number.  The client of a block range reads at most 2000 blocks, which bounds its loop whatever a peer sends.

  \<^bold>\<open>What is outside is an argument\<close>, with its documented behaviour as a named hypothesis: Keccak-256, SHA-256 (\<open>sha_ok\<close>) and the C library of
  secp256k1 (\<open>crypto\<close>, \<open>secp_laws\<close>, \<open>lib_laws\<close>), snappy (\<open>snappy_laws\<close>, \<open>codec_ok\<close>), the answers of the two databases
  (\<open>ds_calls\<close> and \<open>io\<close>: any statement may fail), the clock, \<^verbatim>\<open>math/rand\<close>, \<^verbatim>\<open>sort.Slice\<close>, the files of the operating system,
  the JSON decoder, libp2p, and whatever peers send.

  \<^bold>\<open>What is shown.\<close>
  \<^item> The node: whatever arrives in whatever order, no stored block is ever changed or removed; a round of honest validators without pooled transactions and stakes extends
    the chain by the leader's block; a stored block keeps the output table in agreement with the supply exactly if its inputs state what the table holds, which is so
    when no transaction in it has failed and only transactions that spend have inputs.
  \<^item> Consensus: nodes with the same last seed of every address choose the same leader, a proposer counts the first acceptable vote under every name, a validator's vote follows its checks, the slot
    counters and stakes of the pool are consistent, rewards are bounded.
  \<^item> Transactions: what the validator accepts balances in the integers and spends existing outputs of its sender; queue, hashes and senders of the pool are consistent over
    every sequence of calls, and a finalized block leaves none of its transactions behind; an ordinary payment that the node generates for a client is accepted and pooled; what the forger builds passes the validator.
  \<^item> Storage: blocks are read back as written, a failed write changes nothing, the output table follows the specification of a block.
  \<^item> Encodings: blocks and messages survive encoding, exactly the encodable objects can be decoded, tree hashes commit to their
    object, keys survive their files, the curve arithmetic is the chord and tangent construction.
  \<^item> Network: block ranges (as long as the handler's context is not done) and heads are exchanged over bytes on a stream, gossip arrives unchanged on the feed of the same kind, every
    subscriber of a feed gets every value once, the fetcher delivers in order, the start of the services completes when no state is missed.

  Interfaces are locales, interpreted on the model: an invariant over a run of operations (every stateful component), a readable
  chain (the validator's view of the chain service), an encodable type (all wire types), and a message with rules (every request).

  \<^bold>\<open>Not modelled.\<close>  Third-party code: libp2p, pubsub and its scoring, snappy, Keccak, the C code of secp256k1, the SQL server, bolt, gRPC.
  Generated code without logic of its own: accessors and reflection of protobuf messages, gRPC stubs, the REST gateway, and the
  validation rules of messages that no server validates.  Glue: the construction of the services and the command line
  (\<^verbatim>\<open>blockchain/node\<close>, \<^verbatim>\<open>cmd\<close>), the gateway and metrics servers, logging and metrics, the NTP drift check, timers and deadlines as such.  The
  subscription helpers of \<^verbatim>\<open>events/subscription.go\<close> that the program does not use.
\<close>

subsection \<open>The chain only grows\<close>

text \<open>
  C1. Finality. A node that starts on an empty disk has a chain of blocks, numbered from 0 without gaps, each naming the hash of
  the one before it and later than it; whatever blocks, transactions and peer messages arrive, in any order and
  with any answers of peers, clocks and the SQL database, the chain after more events begins with the chain before them:
  no stored block is ever changed or removed.  The writes to the key-value store are supposed not to fail.
\<close>

theorem chain_only_grows:
  assumes "\<And>raw. dec (enc raw) = Inr raw" "ev_codec ev = ssz_codec enc dec" "\<forall>n. ev_kvio ev n = None"
    and "BlockChain_Init ev (NewBlockChain NewKVStore) = (sv_bc (co_chain st), None)"
  shows "\<exists>bs bs'. chain_of ev (sv_bc (co_chain (run_ops (node_step ev cfg) st es))) bs
    \<and> chain_of ev (sv_bc (co_chain (run_ops (node_step ev cfg) (run_ops (node_step ev cfg) st es) fs))) (bs @ bs')"
proof -
  have c: "codec_ok (ev_codec ev)" unfolding assms(2) by (intro ssz_codec_ok assms(1))
  then have r: "reliable ev" using assms(3) by (simp add: reliable_def)
  obtain g where "chain_of ev (sv_bc (co_chain st)) [g]" using chain_of_fresh [OF assms(4) c] by blast
  then have "grown ev [] st" using r unfolding grown_def by (intro conjI exI [of _ "[g]"]) simp_all
  then have "grown ev [] (run_ops (node_step ev cfg) st es)" by (rule node_events.run_inv) simp
  then obtain bs where bs: "chain_of ev (sv_bc (co_chain (run_ops (node_step ev cfg) st es))) bs"
    unfolding grown_def by (elim conjE exE) (simp add: that)
  then have "grown ev bs (run_ops (node_step ev cfg) st es)" using r unfolding grown_def by (intro conjI exI [of _ "[]"]) simp_all
  then have "grown ev bs (run_ops (node_step ev cfg) (run_ops (node_step ev cfg) st es) fs)" by (rule node_events.run_inv) simp
  then show ?thesis using bs unfolding grown_def by blast
qed

theorem chain_only_grows_witness:
  "\<exists>st bs bs'. co_txPool st = NewPool
    \<and> chain_of node_env (sv_bc (co_chain (run_ops (node_step node_env node_cfg) st [MetaArrived demo_snappy demo_peers ''b'' \<lparr>md_HeadSlot = 1, md_HeadBlockNum = 1, md_HeadBlockHash = [1]\<rparr> 5]))) bs
    \<and> chain_of node_env (sv_bc (co_chain (run_ops (node_step node_env node_cfg) (run_ops (node_step node_env node_cfg) st
        [MetaArrived demo_snappy demo_peers ''b'' \<lparr>md_HeadSlot = 1, md_HeadBlockNum = 1, md_HeadBlockHash = [1]\<rparr> 5]) [TxArrived insertion_sort node_io (NewTransaction demo_signed)]))) (bs @ bs')"
proof -
  obtain bc where "BlockChain_Init node_env (NewBlockChain NewKVStore) = (bc, None)" using node_starts by blast
  then have i: "BlockChain_Init node_env (NewBlockChain NewKVStore) = (sv_bc (co_chain (node_at bc)), None)" by (simp add: node_at_def)
  have "ev_codec node_env = ssz_codec (\<lambda>x. x) Inr" "\<forall>n. ev_kvio node_env n = None" by (simp_all add: node_env_def demo_env_def)
  from chain_only_grows [OF refl this i] have "\<exists>bs bs'. chain_of node_env (sv_bc (co_chain (run_ops (node_step node_env node_cfg) (node_at bc) es))) bs
      \<and> chain_of node_env (sv_bc (co_chain (run_ops (node_step node_env node_cfg) (run_ops (node_step node_env node_cfg) (node_at bc) es) fs))) (bs @ bs')" for es fs .
  moreover have "co_txPool (node_at bc) = NewPool" by (simp add: node_at_def)
  ultimately show ?thesis by blast
qed

subsection \<open>The supply\<close>

text \<open>
  C3. When the supply is conserved. On a node whose table of unspent outputs agrees with the supply (genesis balances and rewards
  less fees), an accepted block that is stored, whether or not transactions in it have failed, leaves the table in agreement exactly if the table held for the inputs that the block spends
  the sum of the amounts that its inputs, rewards aside, state; otherwise \<open>FinalizeBlock\<close> reports the inconsistency, after the block has been stored and the pools have been updated.  The
  agreement is kept by every accepted block in which no transaction has failed and only transactions that spend have inputs (the validator does not refuse
  inputs of genesis and fee transactions, which no check compares with the table).
\<close>

theorem supply_conserved:
  assumes "ValidateBlock (node_validator ev cfg io st) (ci_now io) b True = (b', failed, None)" "bk_Num b \<noteq> 0"
    and "FinalizeBlock ev (ci_sync io) (co_chain st) b' = (ch, None)"
    and "table_wf (ds_table (om_db (sv_outm (co_chain st))))"
    and "bc_genesisBlock (sv_bc (co_chain st)) = Some g" "CheckBalance None (co_chain st) = None"
    and "total (ds_table (om_db (sv_outm ch))) < 2 ^ 64" "ci_total io = None"
  shows "(CheckBalance None ch = None \<longleftrightarrow>
      (\<Sum>i\<leftarrow>spent_inputs (bk_Transactions b). amount_at (ds_table (om_db (sv_outm (co_chain st)))) (in_key i)) =
      sum_list (map ti_Amount (counted_inputs (bk_Transactions b))))
    \<and> (failed = [] \<and> inputs_regular (bk_Transactions b) \<longrightarrow> CheckBalance None ch = None)
    \<and> table_wf (ds_table (om_db (sv_outm ch)))
    \<and> Core_FinalizeBlock ev cfg io st b = (case finalize_pools (st\<lparr>co_chain := ch\<rparr>) b' of
        (st', Done None) \<Rightarrow> (st', b', Done (map_option (\<lambda>e. Wrap e ''Balances inconsistency'') (CheckBalance None ch)))
      | (st', r) \<Rightarrow> (st', b', r))"
proof -
  have "table_wf (ds_table (om_db (sv_outm ch)))" using ProcessBlock_wf [OF FinalizeBlock_ok(1) [OF assms(3)] assms(4)] by simp
  moreover have "CheckBalance None ch = None" if f: "failed = []" "inputs_regular (bk_Transactions b)"
    by (rule accepted_keeps_supply(1) [OF assms(1) [unfolded f(1)] assms(2-4) f(2) assms(5-8)])
  ultimately show ?thesis using stored_block_checked(1,2) [OF assms(1-3,5-8)] by simp
qed

theorem supply_conserved_witness:
  "\<exists>bc b ch. ValidateBlock (node_validator node_env mainnetRDOConfig node_io (node_at bc)) (ci_now node_io) b True = (b, [], None)
    \<and> FinalizeBlock node_env None (co_chain (node_at bc)) b = (ch, None) \<and> CheckBalance None ch = None"
proof -
  obtain bc b where i: "BlockChain_Init node_env (NewBlockChain NewKVStore) = (bc, None)" and c: "chain_of node_env bc [node_genesis]"
    and b: "bk_Transactions b = []" "Block_ok b" "bk_Hash b \<noteq> bk_Hash node_genesis" "bk_Num b = 1"
    and v: "ValidateBlock (node_validator node_env mainnetRDOConfig node_io (node_at bc)) (ci_now node_io) b True = (b, [], None)"
    by (rule node_idle_block)
  let ?st = "node_at bc"
  have r: "node_ready node_env node_io ?st [node_genesis]" by (rule node_at_ready [OF i c])
  obtain data where d: "MarshalBlock (ev_codec node_env) (Some b) = Inr data" using ready_codec(2) [OF r b(2)] by blast
  have c': "chain_of node_env (sv_bc (co_chain ?st)) [node_genesis]" using c by (simp add: node_at_def)
  have k: "Get BlocksBucket (genBlockKey (bk_Num b) (bk_Hash b)) (bc_db (sv_bc (co_chain ?st))) = None" by (rule chain_ofD(13) [OF c']) (use b(3) in simp)
  have R: "\<forall>n. ev_sqlio node_env n = None" "ds_canCreateTx (om_db (sv_outm (co_chain ?st)))" "\<forall>n. ev_kvio node_env n = None"
    using r by (simp_all add: node_ready_def)
  obtain ch where fin: "FinalizeBlock node_env (ci_sync node_io) (co_chain ?st) b = (ch, None)"
    and t: "ds_table (om_db (sv_outm ch)) = ds_table (om_db (sv_outm (co_chain ?st)))"
    using empty_block_stored [OF R b(1) d k] by blast
  have "inputs_regular (bk_Transactions b)" using b(1) by (simp add: inputs_regular_def)
  moreover have "bk_Num b \<noteq> 0" using b(4) by simp
  moreover have "table_wf (ds_table (om_db (sv_outm (co_chain ?st))))" "CheckBalance None (co_chain ?st) = None"
    "total (ds_table (om_db (sv_outm ch))) < 2 ^ 64" "ci_total node_io = None"
    using r t by (simp_all add: node_ready_def)
  ultimately have "CheckBalance None ch = None" using supply_conserved [OF v _ fin _ chain_ofD(4) [OF c']] by blast
  then show ?thesis using v fin by (auto simp: node_io_def)
qed

subsection \<open>Rounds of the network\<close>

text \<open>
  C2. The network makes progress when nothing is going on. In a slot in which no transaction is pooled and no stake is registered or withdrawn, so that the
  leader forges a block without transactions, let at least 60 percent of the committee take part, all with the same chain, stakes
  and seed and with synchronised clocks, and each with its last approved block, if any, in the chain.  Then the proposer forges and proposes a block;
  every member approves it; the proposer collects all approvals and sends the block out; and every node with
  this chain accepts the block, stores it as the next one and finds the supply unchanged.  The block is supposed to have a new hash.
\<close>

theorem committee_round_extends_chain:
  assumes "node_ready ev io st bs" "idle st"
    and "secp_laws (ev_crypto ev)" "\<forall>x. length (keccak (ev_crypto ev) x) = 32" "\<forall>d. \<exists>s. secp_sign (ev_crypto ev) d (fr_Key m) = Inr s"
    and "fr_bf m = co_chain st" "fr_crypto m = ev_crypto ev" "fr_cfg m = cfg" "fo_pool f = co_txPool st" "fo_stake f = co_stakePool st" "sort_ok srt"
    and "va_addr p = PubkeyToAddress (ev_crypto ev) (pubkey_of (ev_crypto ev) (fr_Key m))" "IsValidator (va_validators p) (va_addr p)" "va_blockVoting p = []"
    and "pos_IsLeader int63n cfg (co_stakePool st) (va_addr p) (va_seed p) = Inr True"
    and "\<forall>v \<in> set vs. member (ev_crypto ev) bs (va_addr p) (va_seed p) v" "distinct (map va_addr vs)" "length vs \<le> 128"
    and "0 < cf_CommitteeSize cfg" "60 * cf_CommitteeSize cfg \<le> 100 * int (length vs)"
    and "bk_Timestamp (last bs) < fr_now m (fo_clock f)" "sint (fr_now m (fo_clock f)) \<le> go_int (ci_now io + cc_SlotTime (validatorConfig cfg))"
    and "\<forall>b. snd (ForgeBlock srt m f) = Ok b \<longrightarrow> bk_Hash b \<notin> bk_Hash ` set bs"
  shows "\<exists>p1 b atts p2 g st'. loop_step (ev_crypto ev) int63n (p, Running) (SeedTimer srt m f) = ((p1, Running), [Propose b, SleepVoting])
    \<and> committee_votes int63n (node_validator ev cfg io st) (ci_now io) b vs atts
    \<and> loop_step (ev_crypto ev) int63n (loop_run (ev_crypto ev) int63n (p1, Running) (vote_events (map (Pair t) atts))) VotingTimer
        = ((p2, Running), [GossipBlock g])
    \<and> Core_FinalizeBlock ev cfg io st g = (st', g, Done None) \<and> chain_of ev (sv_bc (co_chain st')) (bs @ [g])"
proof -
  let ?cv = "node_validator ev cfg io st" and ?c = "ev_crypto ev"
  have cv: "cv_bc ?cv = chain_reader ev (ci_query io) (fr_bf m)" "cv_crypto ?cv = ?c" "cv_params ?cv = cfg" "cv_stakeValidator ?cv = co_stakePool st"
    "cv_cfg ?cv = validatorConfig cfg" by (simp_all add: node_validator_def assms(6))
  have chain: "chain_of ev (sv_bc (fr_bf m)) bs" "bc_headBlockNum (sv_bc (fr_bf m)) + 1 \<noteq> 0" "length (bk_Hash (last bs)) = 32"
    using assms(1) by (simp_all add: node_ready_def assms(6))
  have I: "tp_pending (fo_pool f) = []" "\<not> tp_mu (co_txPool st)" "\<not> tp_swapLock (fo_pool f)" "sp_slotsFilled (fo_stake f) = 0" "sp_unstakedSnapshot (fo_stake f) = []"
    using assms(2) by (simp_all add: idle_def assms(9,10))
  obtain f' b where fb: "ForgeBlock srt m f = (f', Ok b)" "bk_Transactions b = []"
    and nb: "NewBlock (fr_crypto m) (fr_now m (fo_clock f)) (block_count m) (fr_slot m) (ParentHash (sv_bc (fr_bf m))) [] (fr_Key m) = Inr b"
    using idle_forge [of f srt m] I assms(5,7,11) by (auto simp: GetRewardMap_def)
  note B = forged_fields [OF nb]
  have new: "bk_Hash b \<notin> bk_Hash ` set bs" using assms(23) fb by simp
  have num: "bk_Num b \<noteq> 0" using B(1) chain_ofD(10) [OF chain(1)] chain(2) by (simp add: block_count_def GetBlockCount_def)
  have par: "length (ParentHash (sv_bc (fr_bf m))) = 32" using chain(3) chain_ofD(5) [OF chain(1)] by (simp add: ParentHash_def)
  have base: "validateBlockBase ?cv (ci_now io) b False = None"
    using assms(3,21,22) new fb(2) by (intro forged_base [OF nb chain(1,2) cv(1)]) (simp_all add: cv assms(7) getTransactionsSize_def checkBlockBalance_def)
  have ok: "ValidateBlock ?cv (ci_now io) b False = (b, [], None)" using I(4) by (intro ValidateBlock_empty [OF base fb(2)]) (simp add: cv assms(10))
  have "sg_Address (bk_Proposer b) = va_addr p" using B(10) signRaw_ok(2) [OF assms(3,4)] by (simp add: BlockSigner_Sign_def assms(7,12))
  then have own: "BytesToAddress (sg_Address (bk_Proposer b)) = va_addr p"
    using assms(4) by (simp add: assms(12) PubkeyToAddress_def BytesToAddress_def)
  obtain atts where votes: "committee_votes int63n ?cv (ci_now io) b vs atts" "map at_Validator atts = map va_addr vs"
    "\<forall>a \<in> set atts. at_Type a = Approve \<and> at_Block a = b \<and> VerifyAttestationSign ?c a = None \<and> Sign_ok (at_Signature a)"
    using committee_approves [OF _ new own, of vs ?cv "va_seed p" int63n "ci_now io"] assms(3,4,15,16) ok B(8) cv by auto
  have len: "length atts = length vs" using arg_cong [OF votes(2), of length] by simp
  let ?g = "with_votes b atts" and ?p1 = "p\<lparr>va_seedMap := [], va_proposedBlock := Some b, va_votingIsFinished := False\<rparr>"
  have start: "loop_step ?c int63n (p, Running) (SeedTimer srt m f) = ((?p1, Running), [Propose b, SleepVoting])"
    using assms(8,10,15) by (intro proposer_starts [OF _ fb(1)]) simp
  have on: "voting_on ?p1 b" using assms(13) by (simp add: voting_on_def own)
  obtain p2 where collect: "loop_step ?c int63n (loop_run ?c int63n (?p1, Running) (vote_events (map (Pair t) atts))) VotingTimer = ((p2, Running), [GossipBlock ?g])"
    using approvals_collected [OF on, of atts ?c int63n t] assms(14,17) votes(2,3) by auto
  have "checkVotes ?cv ?g = None"
    using votes(3) B(5,6) assms(19,20) by (intro approvals_suffice) (simp_all add: cv len)
  then have "validateBlockBase ?cv (ci_now io) ?g True = None" by (rule voted_base [OF base])
  then have "ValidateBlock ?cv (ci_now io) ?g True = (?g, [], None)" using I(4) fb(2) by (intro ValidateBlock_empty) (simp_all add: cv assms(10) with_votes_def)
  moreover have "Block_ok ?g" using votes(3) assms(18) par by (intro empty_block_encodes [OF nb]) (simp_all add: assms(3,4,7) len)
  ultimately obtain st' where "Core_FinalizeBlock ev cfg io st ?g = (st', ?g, Done None)" "chain_of ev (sv_bc (co_chain st')) (bs @ [?g])"
    using empty_block_extends [OF assms(1), of cfg ?g] fb(2) new num I(2) by (auto simp: with_votes_def)
  then show ?thesis using start votes(1) collect by blast
qed

theorem committee_round_extends_chain_witness:
  "\<exists>bc m p1 b atts p2 g st'. loop_step demo_crypto (\<lambda>_ _. 0) (demo_validator 7, Running) (SeedTimer insertion_sort m (demo_forge\<lparr>fo_pool := NewPool\<rparr>)) = ((p1, Running), [Propose b, SleepVoting])
    \<and> committee_votes (\<lambda>_ _. 0) (node_validator node_env node_cfg node_io (node_at bc)) (ci_now node_io) b
        [demo_validator 8, demo_validator 9\<lparr>va_receivedBlock := Some node_genesis\<rparr>] atts
    \<and> loop_step demo_crypto (\<lambda>_ _. 0) (loop_run demo_crypto (\<lambda>_ _. 0) (p1, Running) (vote_events (map (Pair 5) atts))) VotingTimer = ((p2, Running), [GossipBlock g])
    \<and> Core_FinalizeBlock node_env node_cfg node_io (node_at bc) g = (st', g, Done None) \<and> chain_of node_env (sv_bc (co_chain st')) ([node_genesis] @ [g])"
proof -
  obtain bc where i: "BlockChain_Init node_env (NewBlockChain NewKVStore) = (bc, None)" and c: "chain_of node_env bc [node_genesis]" using node_starts by blast
  define m where "m = demo_forger\<lparr>fr_bf := co_chain (node_at bc), fr_cfg := node_cfg\<rparr>"
  let ?f = "demo_forge\<lparr>fo_pool := NewPool\<rparr>" and ?p = "demo_validator 7" and ?vs = "[demo_validator 8, demo_validator 9\<lparr>va_receivedBlock := Some node_genesis\<rparr>]"
  have env: "ev_crypto node_env = demo_crypto" by (simp add: node_env_def demo_env_def)
  have bs: "bc_headBlockNum bc = 0" "bc_futureBlockNum bc = 1" "bc_prevHash bc = bk_Hash node_genesis"
    using chain_ofD(1,5,10) [OF c] by (simp_all add: unat_eq_0)
  have l: "pos_IsLeader (\<lambda>_ _. 0) node_cfg (NewStakingPool 2 10) (va_addr ?p) (va_seed ?p) = Inr True" by code_simp
  have ad: "va_addr (demo_validator 8) \<noteq> va_addr ?p" "va_addr (demo_validator 9) \<noteq> va_addr ?p" "va_addr (demo_validator 8) \<noteq> va_addr (demo_validator 9)"
    by code_simp+
  have iv: "IsValidator (va_validators ?p) (va_addr ?p)" by code_simp
  have h: "\<forall>b. snd (ForgeBlock insertion_sort m ?f) = Ok b \<longrightarrow> bk_Hash b \<notin> bk_Hash ` set [node_genesis]"
  proof (intro allI impI)
    fix b assume "snd (ForgeBlock insertion_sort m ?f) = Ok b"
    moreover obtain f' b' where "ForgeBlock insertion_sort m ?f = (f', Ok b')"
      and nb: "NewBlock (fr_crypto m) (fr_now m (fo_clock ?f)) (block_count m) (fr_slot m) (ParentHash (sv_bc (fr_bf m))) [] (fr_Key m) = Inr b'"
      using idle_forge [of ?f insertion_sort m] insertion_sort_ok
      by (auto simp: m_def demo_forger_def demo_forge_def NewPool_def NewStakingPool_def GetRewardMap_def demo_crypto_def)
    ultimately show "bk_Hash b \<notin> bk_Hash ` set [node_genesis]"
      using idle_hash by (auto simp: m_def node_at_def demo_forger_def demo_forge_def block_count_def GetBlockCount_def ParentHash_def bs)
  qed
  have mem: "\<forall>v \<in> set ?vs. member demo_crypto [node_genesis] (va_addr ?p) (va_seed ?p) v"
    using ad by (simp add: member_def demo_validator_def demo_crypto_def)
  have "\<exists>p1 b atts p2 g st'. loop_step demo_crypto (\<lambda>_ _. 0) (?p, Running) (SeedTimer insertion_sort m ?f) = ((p1, Running), [Propose b, SleepVoting])
    \<and> committee_votes (\<lambda>_ _. 0) (node_validator node_env node_cfg node_io (node_at bc)) (ci_now node_io) b ?vs atts
    \<and> loop_step demo_crypto (\<lambda>_ _. 0) (loop_run demo_crypto (\<lambda>_ _. 0) (p1, Running) (vote_events (map (Pair 5) atts))) VotingTimer = ((p2, Running), [GossipBlock g])
    \<and> Core_FinalizeBlock node_env node_cfg node_io (node_at bc) g = (st', g, Done None) \<and> chain_of node_env (sv_bc (co_chain st')) ([node_genesis] @ [g])"
    using l iv ad mem h demo_crypto_laws insertion_sort_ok
    by (intro committee_round_extends_chain [OF node_at_ready [OF i c], where m = m and f = ?f and p = ?p, unfolded env])
      (simp_all add: env idle_def node_at_def m_def demo_forger_def demo_forge_def NewPool_def NewStakingPool_def demo_validator_def node_cfg_def demo_cfg_def
        node_io_def node_genesis_def demo_crypto_def validatorConfig_def go_int_def)
  then show ?thesis by blast
qed

end
